(* ===== verification/Prelude.thy ===== *)
theory Prelude
  imports Main "HOL-Library.Word" "HOL-Library.List_Lexorder" "HOL-Library.Monad_Syntax"
begin

unbundle bit_operations_syntax

text \<open>
  Shared vocabulary of the development.

  Rust values: \<open>u8\<close>, \<open>u32\<close>, \<open>u64\<close> are words; \<open>usize\<close> is \<open>nat\<close> (a length or an
  offset inside a buffer; where the code casts one to \<open>u32\<close> or wraps, the cast is written
  out).  \<open>&[u8]\<close>, \<open>Vec<u8>\<close> and \<open>Slice\<close> are \<open>bytes\<close>, compared lexicographically as
  Rust compares slices (\<open>HOL-Library.List_Lexorder\<close>).

  Control effects: a call that may panic returns an \<open>option\<close>, \<open>None\<close> being the panic;
  a call that returns \<open>MyResult<T>\<close> and may panic returns \<open>('e + 'a) option\<close>, and
  \<open>tryO\<close> is the \<open>?\<close> operator on it.  Indexing and slicing check their bounds as
  Rust does.
\<close>

subsection \<open>Types\<close>

type_synonym u8 = "8 word"
type_synonym u32 = "32 word"
type_synonym u64 = "64 word"
type_synonym bytes = "u8 list"
type_synonym entry = "bytes \<times> bytes"
type_synonym ('e, 'a) fallible = "('e + 'a) option"

named_theorems slice_simps \<open>bounds-checked reads of a buffer\<close>
named_theorems layout_simps \<open>lengths and offsets of encoded data\<close>

subsection \<open>The \<open>?\<close> operator\<close>

definition tryO :: "('e, 'a) fallible \<Rightarrow> ('a \<Rightarrow> ('e, 'b) fallible) \<Rightarrow> ('e, 'b) fallible" where
  "tryO m f = (case m of None \<Rightarrow> None | Some (Inl e) \<Rightarrow> Some (Inl e) | Some (Inr x) \<Rightarrow> f x)"

lemma tryO_simps [simp]:
  "tryO None f = None"
  "tryO (Some (Inl e)) f = Some (Inl e)"
  "tryO (Some (Inr x)) f = f x"
  by (simp_all add: tryO_def)

lemma tryO_eq_Ok: "tryO m f = Some (Inr y) \<longleftrightarrow> (\<exists>x. m = Some (Inr x) \<and> f x = Some (Inr y))"
  by (auto simp: tryO_def split: option.splits sum.splits)

subsection \<open>Bounds-checked indexing and slicing\<close>

definition idx :: "'a list \<Rightarrow> nat \<Rightarrow> 'a option" where
  "idx xs i = (if i < length xs then Some (xs ! i) else None)"

definition slice_from :: "'a list \<Rightarrow> nat \<Rightarrow> 'a list option" where
  "slice_from xs i = (if i \<le> length xs then Some (drop i xs) else None)"

definition subslice :: "'a list \<Rightarrow> nat \<Rightarrow> nat \<Rightarrow> 'a list option" where
  "subslice xs i j = (if i \<le> j \<and> j \<le> length xs then Some (take (j - i) (drop i xs)) else None)"

text \<open>Overwriting part of a byte buffer in place: \<open>dst[off..off + src.len()]\<close>.\<close>

definition overwrite :: "'a list \<Rightarrow> nat \<Rightarrow> 'a list \<Rightarrow> 'a list option" where
  "overwrite dst off src =
     (if off + length src \<le> length dst
      then Some (take off dst @ src @ drop (off + length src) dst) else None)"

text \<open>\<open>Vec::resize(n, 0)\<close>.\<close>

definition resize :: "nat \<Rightarrow> bytes \<Rightarrow> bytes" where
  "resize n xs = take n xs @ replicate (n - length xs) 0"

text \<open>Writing at a position of a file: \<open>seek(SeekFrom::Start(off))\<close>, then \<open>write_all\<close>.
  A gap past the end reads back as zeros.\<close>

definition write_at :: "bytes \<Rightarrow> nat \<Rightarrow> bytes \<Rightarrow> bytes" where
  "write_at file off bs = resize off file @ bs @ drop (off + length bs) file"

lemma subslice_mid [slice_simps]:
  "subslice (xs @ ys @ zs) (length xs) (length xs + length ys) = Some ys"
  by (simp add: subslice_def)

lemma subslice_mid_eq:
  "i = length xs \<Longrightarrow> j = length xs + length ys \<Longrightarrow> subslice (xs @ ys @ zs) i j = Some ys"
  by (simp add: subslice_mid)

lemma slice_from_mid_eq: "i = length xs \<Longrightarrow> slice_from (xs @ ys) i = Some ys"
  by (simp add: slice_from_def)

lemma slice_from_append [slice_simps]: "slice_from (xs @ ys) (length xs) = Some ys"
  by (simp add: slice_from_def)

lemma subslice_prefix [slice_simps]: "subslice (xs @ ys) 0 (length xs) = Some xs"
  by (simp add: subslice_def)

lemma idx_nth [slice_simps]: "i < length xs \<Longrightarrow> idx xs i = Some (xs ! i)"
  by (simp add: idx_def)

lemma write_at_end [simp]: "write_at file (length file) bs = file @ bs"
  by (simp add: write_at_def resize_def)

lemma length_resize [simp]: "length (resize n xs) = n"
  by (simp add: resize_def)

lemma resize_0 [simp]: "resize 0 xs = []"
  by (simp add: resize_def)

lemma resize_le: "n \<le> length xs \<Longrightarrow> resize n xs = take n xs"
  by (simp add: resize_def)

subsection \<open>The common prefix of two byte strings\<close>

text \<open>The loop \<open>while i < min && a[i] == b[i] { i += 1 }\<close>, which the block builder and the
  separator search share.\<close>

fun common_len :: "'a list \<Rightarrow> 'a list \<Rightarrow> nat" where
  "common_len (x # xs) (y # ys) = (if x = y then Suc (common_len xs ys) else 0)"
| "common_len _ _ = 0"

lemma common_len_le: "common_len xs ys \<le> length xs" "common_len xs ys \<le> length ys"
  by (induction xs ys rule: common_len.induct) auto

lemma take_common_len: "take (common_len xs ys) xs = take (common_len xs ys) ys"
  by (induction xs ys rule: common_len.induct) auto

subsection \<open>Lexicographic order\<close>

lemma append_less_append [simp]: "xs @ ys < xs @ zs \<longleftrightarrow> ys < (zs :: 'a :: linorder list)"
  by (induction xs) auto

lemma append_le_append [simp]: "xs @ ys \<le> xs @ zs \<longleftrightarrow> ys \<le> (zs :: 'a :: linorder list)"
  by (induction xs) auto

lemma prefix_less: "ys \<noteq> [] \<Longrightarrow> xs < xs @ (ys :: 'a :: linorder list)"
  using append_less_append [of xs "[]" ys] by (cases ys) auto

lemma less_at:
  fixes xs ys :: "'a :: linorder list"
  assumes "take d xs = take d ys" "d < length xs" "d < length ys" "xs ! d < ys ! d"
  shows "xs < ys"
proof -
  have "take d xs @ xs ! d # drop (Suc d) xs < take d xs @ ys ! d # drop (Suc d) ys"
    using assms(4) by simp
  then show ?thesis
    using assms(1) id_take_nth_drop [OF assms(2)] id_take_nth_drop [OF assms(3)] by simp
qed

end
