(* ===== verification/Sst_Util.thy ===== *)
theory Sst_Util
  imports Prelude
begin

text \<open>
  \<open>sstable/src/util.rs\<close>: the separator keys of the index block and the checksum mask.
  \<open>find_shortest_sep\<close> gives the index key between two data blocks; the lookup in an
  SSTable is correct only while that key is at least the last key of the block before it and
  strictly below the first key of the block after it.
\<close>

subsection \<open>Separators\<close>

text \<open>The second loop of \<open>find_shortest_sep\<close>: the first position, from \<open>d\<close> on, where the
  byte of \<open>a\<close> can be incremented and stay below that of \<open>b\<close>.\<close>

function sep_scan :: "bytes \<Rightarrow> bytes \<Rightarrow> nat \<Rightarrow> nat option" where
  "sep_scan a b d =
     (if d < min (length a) (length b)
      then (if a ! d < 255 \<and> a ! d + 1 < b ! d then Some d else sep_scan a b (Suc d))
      else None)"
  by pat_completeness auto
termination
  by (relation "measure (\<lambda>(a, b, d). length a - d)") auto

declare sep_scan.simps [simp del]

definition find_shortest_sep :: "bytes \<Rightarrow> bytes \<Rightarrow> bytes" where
  "find_shortest_sep a b =
     (if a = b then a
      else case sep_scan a b (common_len a b) of
             Some d \<Rightarrow> (take (Suc d) a)[d := a ! d + 1]
           | None \<Rightarrow> a @ [0])"

text \<open>\<open>find_short_succ\<close>: the loop over the positions of \<open>a\<close>, then the rare path.\<close>

fun succ_scan :: "bytes \<Rightarrow> bytes option" where
  "succ_scan [] = None"
| "succ_scan (c # a) =
     (if c \<noteq> 255 then Some [c + 1] else map_option (\<lambda>r. c # r) (succ_scan a))"

definition find_short_succ :: "bytes \<Rightarrow> bytes" where
  "find_short_succ a = (case succ_scan a of Some r \<Rightarrow> r | None \<Rightarrow> a @ [255])"

subsection \<open>The masked checksum\<close>

definition MASK_DELTA :: u32 where
  "MASK_DELTA = 0xa282ead8"

definition mask_crc :: "u32 \<Rightarrow> u32" where
  "mask_crc c = (drop_bit 15 c OR push_bit 17 c) + MASK_DELTA"

definition unmask_crc :: "u32 \<Rightarrow> u32" where
  "unmask_crc mc = (let rot = mc - MASK_DELTA in drop_bit 17 rot OR push_bit 15 rot)"

subsection \<open>What the separators guarantee\<close>

lemma u8_plus1_gt: "(x :: u8) < 255 \<Longrightarrow> x < x + 1"
  by (simp add: word_less_nat_alt unat_word_ariths)

lemma u8_neq_255: "(x :: u8) \<noteq> 255 \<longleftrightarrow> x < 255"
proof -
  have "(255 :: u8) = - 1" by simp
  then have "x \<le> 255" using word_order.extremum [of x] by metis
  then show ?thesis by auto
qed

lemma sep_scan_Some:
  "sep_scan a b d = Some e \<Longrightarrow>
   d \<le> e \<and> e < length a \<and> e < length b \<and> a ! e < 255 \<and> a ! e + 1 < b ! e"
proof (induction a b d rule: sep_scan.induct)
  case (1 a b d)
  show ?case
  proof (cases "d < min (length a) (length b) \<and> \<not> (a ! d < 255 \<and> a ! d + 1 < b ! d)")
    case True
    then have "sep_scan a b (Suc d) = Some e"
      using "1.prems" by (simp add: sep_scan.simps [of a b d] split: if_splits)
    then show ?thesis using "1.IH" True by fastforce
  next
    case False
    then show ?thesis using "1.prems" by (auto simp: sep_scan.simps [of a b d] split: if_splits)
  qed
qed

text \<open>Two different strings either differ first at an inner position, or one is a proper
  prefix of the other.\<close>

lemma less_first_diff:
  fixes a b :: bytes
  assumes "a < b"
  shows "common_len a b = length a \<and> length a < length b \<or>
         common_len a b < length a \<and> common_len a b < length b \<and>
         a ! common_len a b < b ! common_len a b"
  using assms by (induction a b rule: common_len.induct) auto

lemma sep_increment:
  fixes a b :: bytes
  assumes "a < b" and s: "sep_scan a b (common_len a b) = Some d"
  shows "a < (take (Suc d) a)[d := a ! d + 1] \<and> (take (Suc d) a)[d := a ! d + 1] < b"
proof -
  let ?s = "(take (Suc d) a)[d := a ! d + 1]" and ?c = "common_len a b"
  note d = sep_scan_Some [OF s]
  have c: "?c < length a" "?c < length b" "a ! ?c < b ! ?c"
    using less_first_diff [OF assms(1)] d by auto
  have "a < ?s"
    using d by (intro less_at [of d]) (auto simp: u8_plus1_gt min_def)
  moreover have "?s < b"
  proof (cases "d = ?c")
    case True
    then show ?thesis
      using d take_common_len [of a b] by (intro less_at [of d]) (auto simp: min_def)
  next
    case False
    then have "?c < d" using d by simp
    then show ?thesis
      using d c take_common_len [of a b] by (intro less_at [of ?c]) (auto simp: min_def)
  qed
  ultimately show ?thesis ..
qed

lemma sep_backup:
  fixes a b :: bytes
  assumes "a < b"
  shows "a < a @ [0] \<and> a @ [0] \<le> b \<and> (a @ [0] = b \<or> a @ [0] < b)"
proof -
  have "a @ [0] \<le> b"
    using assms
  proof (induction a arbitrary: b)
    case Nil
    then show ?case by (cases b) (auto simp: word_gt_0)
  next
    case (Cons x a)
    then show ?case by (cases b) auto
  qed
  then show ?thesis by (auto simp: prefix_less order.order_iff_strict)
qed

lemma find_shortest_sep_between:
  fixes a b :: bytes
  assumes "a < b"
  shows "a < find_shortest_sep a b \<and> find_shortest_sep a b \<le> b"
  using assms sep_increment [OF assms] sep_backup [OF assms]
  by (auto simp: find_shortest_sep_def split: option.splits)

lemma sep_scan_prefix: "sep_scan a (a @ c) (length a) = None"
  by (simp add: sep_scan.simps)

lemma common_len_prefix [simp]: "common_len a (a @ c) = length a"
  by (induction a) auto

lemma find_shortest_sep_eq_right:
  assumes "a < b"
  shows "find_shortest_sep a b = b \<longleftrightarrow> b = a @ [0]"
proof
  assume "find_shortest_sep a b = b"
  then show "b = a @ [0]"
    using assms sep_increment [OF assms]
    by (auto simp: find_shortest_sep_def split: option.splits if_splits)
next
  assume "b = a @ [0]"
  then show "find_shortest_sep a b = b"
    by (simp add: find_shortest_sep_def sep_scan_prefix)
qed

lemma succ_scan_Some: "succ_scan a = Some r \<Longrightarrow> a < r"
proof (induction a arbitrary: r)
  case (Cons c a)
  then show ?case by (auto simp: u8_neq_255 u8_plus1_gt split: if_splits)
qed simp

lemma find_short_succ_greater: "a < find_short_succ a"
  by (auto simp: find_short_succ_def prefix_less dest: succ_scan_Some split: option.splits)

lemma unmask_mask: "unmask_crc (mask_crc c) = c"
proof (rule bit_eqI)
  fix n assume "possible_bit TYPE(u32) n"
  then have "n < 32" by simp
  then show "bit (unmask_crc (mask_crc c)) n = bit c n"
    by (cases "n < 15") (auto simp: unmask_crc_def mask_crc_def bit_simps Let_def)
qed

end
