(* ===== verification/Sst_Base.thy ===== *)
theory Sst_Base
  imports Sst_Util
begin

text \<open>
  The ground floor of the \<open>sstable\<close> crate: errors (\<open>error.rs\<close>), options (\<open>options.rs\<close>),
  the \<open>RandomAccess\<close> trait (\<open>types.rs\<close>), the raw readers (\<open>reader.rs\<close>), and the
  third-party crates the code calls.  Those crates are parameters: a \<open>libs\<close> record carries
  the functions, and the predicates \<open>varint_ok\<close>, \<open>fixed_ok\<close>, \<open>snappy_ok\<close>,
  \<open>bincode_meta_ok\<close>, \<open>filter_ok\<close> and \<open>lru_ok\<close> state their documented behaviour.
\<close>

subsection \<open>Errors\<close>

datatype sst_status_code =
    SstNotFound | SstIOError | SstChecksumError | SstSnapError | SstCompressError
  | SstInvalidData | SstBuildError | SstBincodeError | SstCuckooError

record sst_status =
  sst_code :: sst_status_code
  sst_msg :: string

text \<open>The \<open>{:?}\<close> rendering of a code.\<close>

fun sst_code_debug :: "sst_status_code \<Rightarrow> string" where
  "sst_code_debug SstNotFound = ''NotFound''"
| "sst_code_debug SstIOError = ''IOError''"
| "sst_code_debug SstChecksumError = ''ChecksumError''"
| "sst_code_debug SstSnapError = ''SnapError''"
| "sst_code_debug SstCompressError = ''CompressError''"
| "sst_code_debug SstInvalidData = ''InvalidData''"
| "sst_code_debug SstBuildError = ''BuildError''"
| "sst_code_debug SstBincodeError = ''BincodeError''"
| "sst_code_debug SstCuckooError = ''CuckooError''"

definition sst_status_new :: "sst_status_code \<Rightarrow> string \<Rightarrow> sst_status" where
  "sst_status_new c m =
     \<lparr>sst_code = c,
      sst_msg = (if m = [] then sst_code_debug c else sst_code_debug c @ '': '' @ m)\<rparr>"

text \<open>The \<open>err!\<close> macro keeps the message as it is.\<close>

definition sst_err :: "sst_status_code \<Rightarrow> string \<Rightarrow> (sst_status, 'a) fallible" where
  "sst_err c m = Some (Inl \<lparr>sst_code = c, sst_msg = m\<rparr>)"

text \<open>Errors of the crates below: whether snap reports a checksum mismatch, and the
  description each error carries.\<close>

datatype snap_error = SnapChecksum string | SnapOther string

fun sst_from_snap :: "snap_error \<Rightarrow> sst_status" where
  "sst_from_snap (SnapChecksum d) = sst_status_new SstChecksumError d"
| "sst_from_snap (SnapOther d) = sst_status_new SstSnapError d"

definition sst_from_bincode :: "string \<Rightarrow> sst_status" where
  "sst_from_bincode d = sst_status_new SstBincodeError d"

definition sst_from_cuckoo :: "string \<Rightarrow> sst_status" where
  "sst_from_cuckoo d = sst_status_new SstCuckooError d"

subsection \<open>Options\<close>

datatype compress_type = CNone | CSnappy

definition int_to_compress_type :: "u32 \<Rightarrow> compress_type option" where
  "int_to_compress_type i = (if i = 0 then Some CNone else if i = 1 then Some CSnappy else None)"

text \<open>\<open>CompressType as u8\<close>.\<close>

fun compress_type_u8 :: "compress_type \<Rightarrow> u8" where
  "compress_type_u8 CNone = 0"
| "compress_type_u8 CSnappy = 1"

text \<open>\<open>Options\<close> without its \<open>block_cache\<close>: the cache is shared mutable state, and the
  operations that use it take it and return it.\<close>

record options =
  block_size :: nat
  block_restart_interval :: nat
  compress_type :: compress_type

definition BLOCK_MAX_SIZE :: nat where "BLOCK_MAX_SIZE = 4 * 1024"
definition BLOCK_CACHE_CAPACITY :: nat where "BLOCK_CACHE_CAPACITY = 8 * (1024 * 1024)"

definition options_default :: options where
  "options_default =
     \<lparr>block_size = BLOCK_MAX_SIZE, block_restart_interval = 16, compress_type = CSnappy\<rparr>"

record block =
  blk_opt :: options
  blk_data :: bytes

subsection \<open>Third-party crates\<close>

record exported_filter =
  ef_values :: bytes
  ef_length :: nat

record meta_block =
  mb_max_key :: bytes
  mb_min_key :: bytes
  mb_filter :: exported_filter

text \<open>\<open>integer_encoding\<close>, \<open>crc\<close>, \<open>snap\<close>, \<open>bincode\<close> (on \<open>MetaBlock\<close>), \<open>cuckoofilter\<close>
  (\<open>'f\<close> is its filter) and \<open>lru\<close> (\<open>'c\<close> is its cache).\<close>

record ('f, 'c) libs =
  encode_var :: "nat \<Rightarrow> bytes"
  decode_var :: "bytes \<Rightarrow> nat \<times> nat"
  required_space :: "nat \<Rightarrow> nat"
  encode_fixed32 :: "u32 \<Rightarrow> bytes"
  decode_fixed32 :: "bytes \<Rightarrow> u32"
  encode_fixed64 :: "u64 \<Rightarrow> bytes"
  decode_fixed64 :: "bytes \<Rightarrow> u64"
  crc32c :: "bytes \<Rightarrow> u32"
  compress_vec :: "bytes \<Rightarrow> snap_error + bytes"
  decompress_vec :: "bytes \<Rightarrow> snap_error + bytes"
  serialize_meta :: "meta_block \<Rightarrow> string + bytes"
  deserialize_meta :: "bytes \<Rightarrow> string + meta_block"
  cf_new :: 'f
  cf_add :: "'f \<Rightarrow> bytes \<Rightarrow> string + 'f"
  cf_contains :: "'f \<Rightarrow> bytes \<Rightarrow> bool"
  cf_export :: "'f \<Rightarrow> exported_filter"
  cf_import :: "exported_filter \<Rightarrow> 'f"
  lru_new :: "nat \<Rightarrow> 'c"
  lru_get :: "'c \<Rightarrow> bytes \<Rightarrow> block option \<times> 'c"
  lru_put :: "'c \<Rightarrow> bytes \<Rightarrow> block \<Rightarrow> 'c"
  lru_len :: "'c \<Rightarrow> nat"
  lru_cap :: "'c \<Rightarrow> nat"

abbreviation usize_bound :: nat where "usize_bound \<equiv> 2 ^ 64"
abbreviation u32_bound :: nat where "u32_bound \<equiv> 2 ^ 32"

text \<open>Variable-length integers: decoding reads back what was encoded, whatever follows, in
  between one and ten bytes.\<close>

definition varint_ok :: "('f, 'c) libs \<Rightarrow> bool" where
  "varint_ok L \<longleftrightarrow>
     (\<forall>n r. n < usize_bound \<longrightarrow>
        decode_var L (encode_var L n @ r) = (n, length (encode_var L n)) \<and>
        required_space L n = length (encode_var L n) \<and>
        1 \<le> length (encode_var L n) \<and> length (encode_var L n) \<le> 10)"

definition fixed_ok :: "('f, 'c) libs \<Rightarrow> bool" where
  "fixed_ok L \<longleftrightarrow>
     (\<forall>w. decode_fixed32 L (encode_fixed32 L w) = w \<and> length (encode_fixed32 L w) = 4) \<and>
     (\<forall>w. decode_fixed64 L (encode_fixed64 L w) = w \<and> length (encode_fixed64 L w) = 8)"

definition snappy_ok :: "('f, 'c) libs \<Rightarrow> bool" where
  "snappy_ok L \<longleftrightarrow>
     (\<forall>x y. compress_vec L x = Inr y \<longrightarrow> decompress_vec L y = Inr x \<and> y \<noteq> [])"

definition bincode_meta_ok :: "('f, 'c) libs \<Rightarrow> bool" where
  "bincode_meta_ok L \<longleftrightarrow>
     (\<forall>m y. serialize_meta L m = Inr y \<longrightarrow> deserialize_meta L y = Inr m)"

text \<open>The filter has no false negatives and survives export and import.\<close>

definition filter_ok :: "('f, 'c) libs \<Rightarrow> bool" where
  "filter_ok L \<longleftrightarrow>
     (\<forall>f k f'. cf_add L f k = Inr f' \<longrightarrow>
        cf_contains L f' k \<and> (\<forall>j. cf_contains L f j \<longrightarrow> cf_contains L f' j)) \<and>
     (\<forall>f k. cf_contains L (cf_import L (cf_export L f)) k = cf_contains L f k)"

text \<open>The cache returns only what was put under the key and not displaced since.\<close>

definition lru_ok :: "('f, 'c) libs \<Rightarrow> bool" where
  "lru_ok L \<longleftrightarrow>
     (\<forall>n k. fst (lru_get L (lru_new L n) k) = None) \<and>
     (\<forall>c k k' b. fst (lru_get L (snd (lru_get L c k)) k') = Some b \<longrightarrow>
        fst (lru_get L c k') = Some b) \<and>
     (\<forall>c k b k' b'. fst (lru_get L (lru_put L c k b) k') = Some b' \<longrightarrow>
        k' = k \<and> b' = b \<or> k' \<noteq> k \<and> fst (lru_get L c k') = Some b')"

lemma varint_okD:
  assumes "varint_ok L" "n < usize_bound"
  shows "decode_var L (encode_var L n @ r) = (n, length (encode_var L n))"
    and "required_space L n = length (encode_var L n)"
    and "1 \<le> length (encode_var L n)" and "length (encode_var L n) \<le> 10"
  using assms by (auto simp: varint_ok_def)

lemma fixed_okD [simp]:
  assumes "fixed_ok L"
  shows "decode_fixed32 L (encode_fixed32 L w) = w" and "length (encode_fixed32 L w) = 4"
    and "decode_fixed64 L (encode_fixed64 L v) = v" and "length (encode_fixed64 L v) = 8"
  using assms by (auto simp: fixed_ok_def)

subsection \<open>Random access and the raw readers\<close>

text \<open>A \<open>dyn RandomAccess\<close> is its one method: from an offset and a destination buffer to the
  number of bytes read and the buffer afterwards.\<close>

type_synonym random_access = "nat \<Rightarrow> bytes \<Rightarrow> sst_status + nat \<times> bytes"

definition buffer_read_at :: "bytes \<Rightarrow> random_access" where
  "buffer_read_at self off dst =
     (if off > length self then Inr (0, dst)
      else let remaining = length self - off;
               to_read = (if length dst > remaining then remaining else length dst)
           in Inr (to_read, take to_read (drop off self) @ drop to_read dst))"

record block_handle =
  offset :: nat
  bh_size :: nat

definition read_usize ::
  "('f, 'c) libs \<Rightarrow> random_access \<Rightarrow> nat \<Rightarrow> sst_status + nat \<times> nat" where
  "read_usize L r off =
     (case r off (replicate 8 0) of
        Inl e \<Rightarrow> Inl e
      | Inr (_, buf) \<Rightarrow> Inr (unat (decode_fixed64 L buf), off + length buf))"

definition read_bytes :: "random_access \<Rightarrow> block_handle \<Rightarrow> sst_status + bytes \<times> nat" where
  "read_bytes r location =
     (case r (offset location) (replicate (bh_size location) 0) of
        Inl e \<Rightarrow> Inl e
      | Inr (n, buf) \<Rightarrow> Inr (buf, offset location + n))"

text \<open>What a reader of files relies on: a read returns the stored bytes.\<close>

locale random_access_file =
  fixes read_at :: random_access and contents :: bytes
  assumes read_stored:
    "off + length dst \<le> length contents \<Longrightarrow>
     read_at off dst = Inr (length dst, take (length dst) (drop off contents))"
begin

lemma read_bytes_stored:
  assumes "contents = pre @ data @ post" "offset h = length pre" "bh_size h = length data"
  shows "read_bytes read_at h = Inr (data, length pre + length data)"
  using assms by (simp add: read_bytes_def read_stored)

lemma read_usize_stored:
  assumes "contents = pre @ data @ post" "length data = 8"
  shows "read_usize L read_at (length pre) = Inr (unat (decode_fixed64 L data), length pre + 8)"
  using assms by (simp add: read_usize_def read_stored)

end

interpretation buf_file: random_access_file "buffer_read_at w" w for w
  by unfold_locales (auto simp: buffer_read_at_def Let_def)

subsection \<open>The raw writers\<close>

text \<open>The file is returned together with what the call returns; a write of the operating
  system is taken to succeed.\<close>

definition write_usize ::
  "('f, 'c) libs \<Rightarrow> bytes \<Rightarrow> nat \<Rightarrow> nat \<Rightarrow> bytes \<times> nat \<times> nat" where
  "write_usize L w off content =
     (let buf = encode_fixed64 L (of_nat content)
      in (write_at w off buf, length buf, off + length buf))"

definition write_bytes :: "bytes \<Rightarrow> nat \<Rightarrow> bytes \<Rightarrow> bytes \<times> nat \<times> nat" where
  "write_bytes w off content = (write_at w off content, length content, off + length content)"

lemma write_at_split:
  "write_at w off bs = resize off w @ bs @ drop (off + length bs) w"
  by (simp add: write_at_def)

text \<open>Reading back what was written, wherever it was written.\<close>

lemma write_read_usize:
  assumes "fixed_ok L" "n < usize_bound" "write_usize L w off n = (w', len, next)"
  shows "read_usize L (buffer_read_at w') off = Inr (n, next)"
proof -
  let ?b = "encode_fixed64 L (of_nat n)"
  have w': "w' = resize off w @ ?b @ drop (off + length ?b) w" and nx: "next = off + 8"
    using assms by (auto simp: write_usize_def Let_def write_at_split)
  have "read_usize L (buffer_read_at w') (length (resize off w)) =
          Inr (unat (decode_fixed64 L ?b), length (resize off w) + 8)"
    using assms(1) by (intro buf_file.read_usize_stored [OF w']) simp
  then show ?thesis
    using assms(1,2) nx by (simp add: unat_of_nat)
qed

end
