(* ===== verification/Lib_Instance.thy ===== *)
theory Lib_Instance
  imports Sst_Base
begin

text \<open>
  A concrete choice of the third-party functions that meets every law of \<open>Sst_Base\<close>.  It
  only serves to evaluate the model on concrete inputs and to show that the laws can hold
  together: LEB128 varints, little-endian fixed integers, a "stored" compressor with a
  one-byte header, a filter that accepts every key, and a cache that never evicts.
\<close>

subsection \<open>Integers\<close>

function leb_enc :: "nat \<Rightarrow> bytes" where
  "leb_enc n = (if n < 128 then [of_nat n] else of_nat (n mod 128 + 128) # leb_enc (n div 128))"
  by pat_completeness auto
termination
  by (relation "measure id") auto

declare leb_enc.simps [simp del]

fun leb_dec :: "bytes \<Rightarrow> nat \<times> nat" where
  "leb_dec [] = (0, 0)"
| "leb_dec (b # bs) =
     (if unat b < 128 then (unat b, 1)
      else (unat b - 128 + 128 * fst (leb_dec bs), Suc (snd (leb_dec bs))))"

lemma leb_roundtrip: "leb_dec (leb_enc n @ r) = (n, length (leb_enc n))"
proof (induction n rule: leb_enc.induct)
  case (1 n)
  show ?case
  proof (cases "n < 128")
    case True
    then show ?thesis by (simp add: leb_enc.simps [of n] unat_of_nat)
  next
    case False
    have "unat (of_nat (n mod 128 + 128) :: u8) = n mod 128 + 128"
      by (subst unat_of_nat) (simp add: algebra_simps)
    then show ?thesis
      using False "1.IH" by (simp add: leb_enc.simps [of n] del: of_nat_add)
  qed
qed

lemma leb_length: "0 < k \<Longrightarrow> n < 128 ^ k \<Longrightarrow> length (leb_enc n) \<le> k"
proof (induction n arbitrary: k rule: leb_enc.induct)
  case (1 n)
  show ?case
  proof (cases "n < 128")
    case True
    then show ?thesis using "1.prems" by (simp add: leb_enc.simps [of n])
  next
    case False
    then have "k \<noteq> 1" using "1.prems" by auto
    then obtain j where k: "k = Suc j" "0 < j" using "1.prems"(1) by (cases k) auto
    then have "n div 128 < 128 ^ j" using "1.prems"(2) by (simp add: less_mult_imp_div_less mult.commute)
    then show ?thesis using False k "1.IH" [of j] by (simp add: leb_enc.simps [of n])
  qed
qed

lemma leb_nonempty: "1 \<le> length (leb_enc n)"
  by (simp add: leb_enc.simps [of n])

fun le_bytes :: "nat \<Rightarrow> nat \<Rightarrow> bytes" where
  "le_bytes 0 n = []"
| "le_bytes (Suc k) n = of_nat n # le_bytes k (n div 256)"

fun le_value :: "bytes \<Rightarrow> nat" where
  "le_value [] = 0"
| "le_value (b # bs) = unat b + 256 * le_value bs"

lemma length_le_bytes [simp]: "length (le_bytes k n) = k"
  by (induction k arbitrary: n) auto

lemma le_value_le_bytes: "le_value (le_bytes k n) = n mod 256 ^ k"
proof (induction k arbitrary: n)
  case (Suc k)
  then show ?case by (simp add: unat_of_nat mod_mult2_eq)
qed simp

subsection \<open>The instance\<close>

definition demo_libs :: "(unit, (bytes \<times> block) list) libs" where
  "demo_libs =
     \<lparr>encode_var = leb_enc, decode_var = leb_dec, required_space = (\<lambda>n. length (leb_enc n)),
      encode_fixed32 = (\<lambda>w. le_bytes 4 (unat w)), decode_fixed32 = (\<lambda>b. of_nat (le_value b)),
      encode_fixed64 = (\<lambda>w. le_bytes 8 (unat w)), decode_fixed64 = (\<lambda>b. of_nat (le_value b)),
      crc32c = (\<lambda>bs. of_nat (sum_list (map unat bs))),
      compress_vec = (\<lambda>x. Inr (0 # x)),
      decompress_vec = (\<lambda>y. case y of [] \<Rightarrow> Inl (SnapOther ''Empty'') | _ # x \<Rightarrow> Inr x),
      serialize_meta = (\<lambda>m. if length (mb_max_key m) < 256 \<and> length (mb_min_key m) < 256 \<and>
          ef_length (mb_filter m) = 0
        then Inr (of_nat (length (mb_max_key m)) # of_nat (length (mb_min_key m)) #
               mb_max_key m @ mb_min_key m @ ef_values (mb_filter m))
        else Inl ''SizeLimit''),
      deserialize_meta = (\<lambda>y. case y of a # b # r \<Rightarrow>
          Inr \<lparr>mb_max_key = take (unat a) r, mb_min_key = take (unat b) (drop (unat a) r),
               mb_filter = \<lparr>ef_values = drop (unat a + unat b) r, ef_length = 0\<rparr>\<rparr>
        | _ \<Rightarrow> Inl ''Eof''),
      cf_new = (), cf_add = (\<lambda>f k. Inr ()), cf_contains = (\<lambda>f k. True),
      cf_export = (\<lambda>f. \<lparr>ef_values = [], ef_length = 0\<rparr>), cf_import = (\<lambda>e. ()),
      lru_new = (\<lambda>n. []), lru_get = (\<lambda>c k. (map_of c k, c)),
      lru_put = (\<lambda>c k b. (k, b) # c), lru_len = length, lru_cap = (\<lambda>c. 2048)\<rparr>"

lemma demo_varint_ok: "varint_ok demo_libs"
proof -
  have "length (leb_enc n) \<le> 10" if "n < 2 ^ 64" for n
    using that by (intro leb_length) (auto intro: less_le_trans)
  then show ?thesis
    by (simp add: varint_ok_def demo_libs_def leb_roundtrip leb_nonempty [simplified])
qed

lemma demo_fixed_ok: "fixed_ok demo_libs"
proof -
  have "unat (w :: u32) mod 256 ^ 4 = unat w" for w
    using unsigned_less [of w, where ?'a = nat] by simp
  moreover have "unat (w :: u64) mod 256 ^ 8 = unat w" for w
    using unsigned_less [of w, where ?'a = nat] by simp
  ultimately show ?thesis
    by (simp add: fixed_ok_def demo_libs_def le_value_le_bytes)
qed

lemma demo_snappy_ok: "snappy_ok demo_libs"
  by (auto simp: snappy_ok_def demo_libs_def)

lemma demo_bincode_meta_ok: "bincode_meta_ok demo_libs"
  by (auto simp: bincode_meta_ok_def demo_libs_def unat_of_nat split: if_splits)

lemma demo_filter_ok: "filter_ok demo_libs"
  by (auto simp: filter_ok_def demo_libs_def)

lemma demo_lru_ok: "lru_ok demo_libs"
  by (auto simp: lru_ok_def demo_libs_def split: if_splits)

lemmas demo_ok = demo_varint_ok demo_fixed_ok demo_snappy_ok demo_bincode_meta_ok
  demo_filter_ok demo_lru_ok

end
