(* ===== verification/Footer.thy ===== *)
theory Footer
  imports Sst_Base Lib_Instance
begin

text \<open>
  \<open>sstable/src/block_handle.rs\<close> and \<open>sstable/src/footer.rs\<close>: the pointers inside a table
  file and the trailer that locates the meta and the index block.
\<close>

subsection \<open>Block handles\<close>

definition bh :: "nat \<Rightarrow> nat \<Rightarrow> block_handle" where
  "bh off sz = \<lparr>offset = off, bh_size = sz\<rparr>"

text \<open>Decoding slices the input after the first varint, which may be out of range.\<close>

definition bh_decode :: "('f, 'c) libs \<Rightarrow> bytes \<Rightarrow> (block_handle \<times> nat) option" where
  "bh_decode L from = do {
     let (off, offsize) = decode_var L from;
     rest \<leftarrow> slice_from from offsize;
     let (sz, szsize) = decode_var L rest;
     Some (bh off sz, offsize + szsize)
   }"

text \<open>Encoding into a caller's buffer: the buffer afterwards and the bytes written.\<close>

definition bh_encode_to :: "('f, 'c) libs \<Rightarrow> block_handle \<Rightarrow> bytes \<Rightarrow> (bytes \<times> nat) option" where
  "bh_encode_to L h dst =
     (if length dst \<ge> required_space L (offset h) + required_space L (bh_size h)
      then do {
        d1 \<leftarrow> overwrite dst 0 (encode_var L (offset h));
        let off = length (encode_var L (offset h));
        d2 \<leftarrow> overwrite d1 off (encode_var L (bh_size h));
        Some (d2, off + length (encode_var L (bh_size h)))
      }
      else None)"

definition bh_wf :: "block_handle \<Rightarrow> bool" where
  "bh_wf h \<longleftrightarrow> offset h < usize_bound \<and> bh_size h < usize_bound"

definition bh_bytes :: "('f, 'c) libs \<Rightarrow> block_handle \<Rightarrow> bytes" where
  "bh_bytes L h = encode_var L (offset h) @ encode_var L (bh_size h)"

subsection \<open>The footer\<close>

definition FOOTER_LENGTH :: nat where "FOOTER_LENGTH = 40"
definition FULL_FOOTER_LENGTH :: nat where "FULL_FOOTER_LENGTH = FOOTER_LENGTH + 8"
definition MAGIC_FOOTER_ENCODED :: bytes where
  "MAGIC_FOOTER_ENCODED = [0x57, 0xfb, 0x80, 0x8b, 0x24, 0x75, 0x47, 0xdb]"

record footer =
  meta_index :: block_handle
  footer_index :: block_handle

definition footer_encode :: "('f, 'c) libs \<Rightarrow> footer \<Rightarrow> bytes \<Rightarrow> bytes option" where
  "footer_encode L f dst =
     (if length dst \<ge> FULL_FOOTER_LENGTH then do {
        (d1, s1) \<leftarrow> bh_encode_to L (meta_index f) dst;
        tail1 \<leftarrow> slice_from d1 s1;
        (d2, s2) \<leftarrow> bh_encode_to L (footer_index f) tail1;
        let d3 = take s1 d1 @ d2;
        d4 \<leftarrow> (if s1 + s2 < FOOTER_LENGTH
               then overwrite d3 (s1 + s2) (replicate (FOOTER_LENGTH - (s1 + s2)) 0)
               else Some d3);
        overwrite d4 FOOTER_LENGTH MAGIC_FOOTER_ENCODED
      } else None)"

definition footer_decode :: "('f, 'c) libs \<Rightarrow> bytes \<Rightarrow> footer option" where
  "footer_decode L from =
     (if length from \<ge> FULL_FOOTER_LENGTH \<and> drop FOOTER_LENGTH from = MAGIC_FOOTER_ENCODED then do {
        (meta, metalen) \<leftarrow> bh_decode L from;
        rest \<leftarrow> slice_from from metalen;
        (idx, _) \<leftarrow> bh_decode L rest;
        Some \<lparr>meta_index = meta, footer_index = idx\<rparr>
      } else None)"

definition footer_read ::
  "('f, 'c) libs \<Rightarrow> random_access \<Rightarrow> nat \<Rightarrow> (sst_status, footer) fallible" where
  "footer_read L r off =
     (case r off (replicate FULL_FOOTER_LENGTH 0) of
        Inl e \<Rightarrow> Some (Inl e)
      | Inr (_, buf) \<Rightarrow> map_option Inr (footer_decode L buf))"

text \<open>\<open>Footer::flush\<close> writes at the file's current position, which the callers leave at the
  end; the handle it returns locates the footer.\<close>

definition footer_flush ::
  "('f, 'c) libs \<Rightarrow> footer \<Rightarrow> bytes \<Rightarrow> nat \<Rightarrow> (bytes \<times> block_handle) option" where
  "footer_flush L f w off = do {
     buf \<leftarrow> footer_encode L f (replicate FULL_FOOTER_LENGTH 0);
     Some (w @ buf, bh off (length buf))
   }"

subsection \<open>Round trips\<close>

lemma length_MAGIC [simp]: "length MAGIC_FOOTER_ENCODED = 8"
  by (simp add: MAGIC_FOOTER_ENCODED_def)

lemma bh_roundtrip:
  assumes "varint_ok L" "bh_wf h"
  shows "bh_decode L (bh_bytes L h @ r) = Some (h, length (bh_bytes L h))"
  using assms by (simp add: bh_decode_def bh_bytes_def bh_wf_def varint_okD slice_from_def bh_def)

lemma bh_bytes_length:
  assumes "varint_ok L" "bh_wf h"
  shows "2 \<le> length (bh_bytes L h)" and "length (bh_bytes L h) \<le> 20"
  using varint_okD(3,4) [OF assms(1), of "offset h"] varint_okD(3,4) [OF assms(1), of "bh_size h"] assms
  by (auto simp: bh_bytes_def bh_wf_def)

lemma overwrite_prefix:
  "length src \<le> length dst \<Longrightarrow> overwrite dst 0 src = Some (src @ drop (length src) dst)"
  by (simp add: overwrite_def)

lemma overwrite_mid:
  "length src \<le> length dst \<Longrightarrow>
   overwrite (pre @ dst) (length pre) src = Some (pre @ src @ drop (length src) dst)"
  by (simp add: overwrite_def)

lemma bh_encode_to_bytes:
  assumes "varint_ok L" "bh_wf h" "length (bh_bytes L h) \<le> length dst"
  shows "bh_encode_to L h dst =
           Some (bh_bytes L h @ drop (length (bh_bytes L h)) dst, length (bh_bytes L h))"
proof -
  let ?o = "encode_var L (offset h)" and ?s = "encode_var L (bh_size h)"
  have le: "length ?o + length ?s \<le> length dst"
    using assms(3) by (simp add: bh_bytes_def)
  have "required_space L (offset h) = length ?o" "required_space L (bh_size h) = length ?s"
    using assms by (simp_all add: bh_wf_def varint_okD)
  moreover have "overwrite dst 0 ?o = Some (?o @ drop (length ?o) dst)"
    using le by (intro overwrite_prefix) simp
  moreover have "overwrite (?o @ drop (length ?o) dst) (length ?o) ?s =
                   Some (?o @ ?s @ drop (length ?s) (drop (length ?o) dst))"
    using le by (intro overwrite_mid) simp
  ultimately show ?thesis
    using le by (simp add: bh_encode_to_def bh_bytes_def Let_def add.commute [of "length ?o"])
qed

lemma bh_encode_to_short:
  assumes "varint_ok L" "bh_wf h" "length dst < length (bh_bytes L h)"
  shows "bh_encode_to L h dst = None"
  using assms by (simp add: bh_encode_to_def bh_wf_def bh_bytes_def varint_okD)

definition footer_wf :: "footer \<Rightarrow> bool" where
  "footer_wf f \<longleftrightarrow> bh_wf (meta_index f) \<and> bh_wf (footer_index f)"

definition footer_bytes :: "('f, 'c) libs \<Rightarrow> footer \<Rightarrow> bytes" where
  "footer_bytes L f =
     (let hs = bh_bytes L (meta_index f) @ bh_bytes L (footer_index f)
      in hs @ replicate (FOOTER_LENGTH - length hs) 0 @ MAGIC_FOOTER_ENCODED)"

lemma footer_encode_bytes:
  assumes L: "varint_ok L" and f: "footer_wf f"
  shows "footer_encode L f (replicate FULL_FOOTER_LENGTH 0) = Some (footer_bytes L f)"
proof -
  let ?m = "bh_bytes L (meta_index f)" and ?i = "bh_bytes L (footer_index f)"
  have le: "length ?m \<le> 20" "length ?i \<le> 20"
    using bh_bytes_length [OF L] f by (auto simp: footer_wf_def)
  have m: "bh_encode_to L (meta_index f) (replicate 48 0) =
             Some (?m @ replicate (48 - length ?m) 0, length ?m)"
    using le f L by (subst bh_encode_to_bytes) (auto simp: footer_wf_def)
  have i: "bh_encode_to L (footer_index f) (replicate (48 - length ?m) 0) =
             Some (?i @ replicate (48 - length ?m - length ?i) 0, length ?i)"
    using le f L by (subst bh_encode_to_bytes) (auto simp: footer_wf_def)
  have z: "replicate (48 - length ?m - length ?i) 0 =
             replicate (40 - (length ?m + length ?i)) 0 @ replicate 8 (0 :: u8)"
    using le by (simp add: replicate_add [symmetric])
  show ?thesis
    using le by (auto simp: footer_encode_def FULL_FOOTER_LENGTH_def FOOTER_LENGTH_def m i
        slice_from_append footer_bytes_def Let_def z overwrite_def)
qed

lemma length_footer_bytes:
  assumes "varint_ok L" "footer_wf f"
  shows "length (footer_bytes L f) = FULL_FOOTER_LENGTH"
  using bh_bytes_length [OF assms(1), of "meta_index f"] bh_bytes_length [OF assms(1), of "footer_index f"]
    assms(2)
  by (auto simp: footer_bytes_def footer_wf_def Let_def FULL_FOOTER_LENGTH_def FOOTER_LENGTH_def)

lemma footer_decode_bytes:
  assumes L: "varint_ok L" and f: "footer_wf f"
  shows "footer_decode L (footer_bytes L f) = Some f"
proof -
  let ?hs = "bh_bytes L (meta_index f) @ bh_bytes L (footer_index f)"
  have le: "length ?hs \<le> 40"
    using bh_bytes_length [OF L, of "meta_index f"] bh_bytes_length [OF L, of "footer_index f"] f
    by (auto simp: footer_wf_def)
  have "drop FOOTER_LENGTH (footer_bytes L f) = MAGIC_FOOTER_ENCODED"
    using le by (simp add: footer_bytes_def Let_def FOOTER_LENGTH_def)
  moreover have "bh_decode L (footer_bytes L f) = Some (meta_index f, length (bh_bytes L (meta_index f)))"
    using bh_roundtrip [OF L] f by (simp add: footer_bytes_def Let_def footer_wf_def)
  moreover have "slice_from (footer_bytes L f) (length (bh_bytes L (meta_index f))) =
      Some (bh_bytes L (footer_index f) @ replicate (FOOTER_LENGTH - length ?hs) 0 @ MAGIC_FOOTER_ENCODED)"
    by (simp add: footer_bytes_def Let_def slice_from_append)
  ultimately show ?thesis
    using bh_roundtrip [OF L] f length_footer_bytes [OF L f]
    by (simp add: footer_decode_def footer_wf_def)
qed

lemma footer_read_flushed:
  assumes "varint_ok L" "footer_wf f" "footer_flush L f w off = Some (w', h)"
  shows "footer_read L (buffer_read_at w') (length w) = Some (Inr f)"
    and "length w' = length w + FULL_FOOTER_LENGTH" and "h = bh off FULL_FOOTER_LENGTH"
proof -
  have w': "w' = w @ footer_bytes L f" and h: "h = bh off (length (footer_bytes L f))"
    using assms by (auto simp: footer_flush_def footer_encode_bytes)
  show "footer_read L (buffer_read_at w') (length w) = Some (Inr f)"
    using length_footer_bytes [OF assms(1,2)] footer_decode_bytes [OF assms(1,2)]
    by (simp add: w' footer_read_def buf_file.read_stored)
  show "length w' = length w + FULL_FOOTER_LENGTH" "h = bh off FULL_FOOTER_LENGTH"
    using length_footer_bytes [OF assms(1,2)] by (simp_all add: w' h)
qed

end
