(* ===== verification/Block_Builder.thy ===== *)
theory Block_Builder
  imports Footer
begin

text \<open>
  \<open>sstable/src/block_builder.rs\<close> and \<open>sstable/src/block.rs\<close>: prefix-compressed entries
  with restart points, the block's trailer (compression type, masked checksum), and reading a
  block back from a file.  The layout of a finished block is stated once
  (\<open>block_layout\<close>), proved of the builder (\<open>bb_inv\<close>) and used by the iterator.
\<close>

subsection \<open>The builder\<close>

definition BLOCK_CTYPE_LEN :: nat where "BLOCK_CTYPE_LEN = 1"
definition BLOCK_CKSUM_LEN :: nat where "BLOCK_CKSUM_LEN = 4"

record block_builder =
  bb_opt :: options
  buffer :: bytes
  count :: nat
  restart_count :: nat
  last_key :: bytes
  restarts :: "u32 list"

definition bb_new_with_buffer :: "bytes \<Rightarrow> options \<Rightarrow> block_builder" where
  "bb_new_with_buffer buf opt =
     \<lparr>bb_opt = opt, buffer = buf, count = 0, restart_count = 0, last_key = [], restarts = [0]\<rparr>"

definition bb_new :: "options \<Rightarrow> block_builder" where
  "bb_new opt = bb_new_with_buffer [] opt"

definition bb_reset :: "block_builder \<Rightarrow> block_builder" where
  "bb_reset b = b\<lparr>buffer := [], count := 0, restart_count := 0, last_key := [], restarts := []\<rparr>"

definition size_estimate :: "block_builder \<Rightarrow> nat" where
  "size_estimate b = length (buffer b) + 4 * length (restarts b) + 4"

text \<open>One entry: the three lengths, the unshared part of the key, the value.\<close>

definition entry_bytes :: "('f, 'c) libs \<Rightarrow> nat \<Rightarrow> bytes \<Rightarrow> bytes \<Rightarrow> bytes" where
  "entry_bytes L shared k v =
     encode_var L shared @ encode_var L (length k - shared) @ encode_var L (length v) @
     drop shared k @ v"

text \<open>\<open>add\<close> panics when the restart counter is out of range or the keys go backwards.\<close>

definition bb_add :: "('f, 'c) libs \<Rightarrow> block_builder \<Rightarrow> bytes \<Rightarrow> bytes \<Rightarrow> block_builder option" where
  "bb_add L b k v =
     (if restart_count b > block_restart_interval (bb_opt b) then None
      else if buffer b \<noteq> [] \<and> last_key b > k then None
      else let (shared, b1) =
                 (if restart_count b < block_restart_interval (bb_opt b)
                  then (common_len (last_key b) k, b)
                  else (0, b\<lparr>restarts := restarts b @ [of_nat (length (buffer b))],
                             last_key := [], restart_count := 0\<rparr>));
               b2 = b1\<lparr>buffer := buffer b1 @ entry_bytes L shared k v,
                       last_key := resize shared (last_key b1) @ drop shared k\<rparr>
           in Some (b2\<lparr>restart_count := restart_count b2 + 1, count := count b2 + 1\<rparr>))"

text \<open>\<open>flush\<close>: the trailer is appended, the bytes are written at \<open>off\<close> and the builder is
  reset.\<close>

definition bb_finish :: "('f, 'c) libs \<Rightarrow> block_builder \<Rightarrow> bytes" where
  "bb_finish L b =
     buffer b @ concat (map (encode_fixed32 L) (restarts b)) @
     encode_fixed32 L (of_nat (length (restarts b)))"

definition bb_seal :: "('f, 'c) libs \<Rightarrow> compress_type \<Rightarrow> bytes \<Rightarrow> bytes" where
  "bb_seal L ct buf =
     (let body = buf @ replicate BLOCK_CTYPE_LEN (compress_type_u8 ct)
      in body @ encode_fixed32 L (mask_crc (crc32c L body)))"

definition bb_flush ::
  "('f, 'c) libs \<Rightarrow> block_builder \<Rightarrow> bytes \<Rightarrow> nat \<Rightarrow>
   sst_status + bytes \<times> block_handle \<times> block_builder" where
  "bb_flush L b w off =
     (case (if compress_type (bb_opt b) = CSnappy then compress_vec L (bb_finish L b)
            else Inr (bb_finish L b)) of
        Inl e \<Rightarrow> Inl (sst_from_snap e)
      | Inr buf \<Rightarrow>
          (let sealed = bb_seal L (compress_type (bb_opt b)) buf
           in Inr (write_at w off sealed, bh off (length sealed), bb_reset b)))"

subsection \<open>Reading a block\<close>

definition verify_block :: "('f, 'c) libs \<Rightarrow> bytes \<Rightarrow> u32 \<Rightarrow> bool" where
  "verify_block L data want \<longleftrightarrow> crc32c L data = want"

definition block_new_with_buffer :: "bytes \<Rightarrow> options \<Rightarrow> block" where
  "block_new_with_buffer buf opt = \<lparr>blk_opt = opt, blk_data = buf\<rparr>"

definition block_new_from_location ::
  "('f, 'c) libs \<Rightarrow> random_access \<Rightarrow> block_handle \<Rightarrow> options \<Rightarrow>
   (sst_status, block \<times> nat) fallible" where
  "block_new_from_location L r location opt =
     tryO (Some (read_bytes r location)) (\<lambda>(data, off).
       if length data < BLOCK_CKSUM_LEN then None
       else let n = length data - BLOCK_CKSUM_LEN; cksum_buf = drop n data in
         if \<not> verify_block L (take n data) (unmask_crc (decode_fixed32 L cksum_buf))
         then sst_err SstChecksumError ''checksum error''
         else if n < BLOCK_CTYPE_LEN then None
         else let ctype_buf = take BLOCK_CTYPE_LEN (drop (n - BLOCK_CTYPE_LEN) data);
                  buf = take (n - BLOCK_CTYPE_LEN) data in
           (case int_to_compress_type (ucast (hd ctype_buf)) of
              Some CNone \<Rightarrow> Some (Inr (block_new_with_buffer buf opt, off))
            | Some CSnappy \<Rightarrow>
                (case decompress_vec L buf of
                   Inl e \<Rightarrow> Some (Inl (sst_from_snap e))
                 | Inr decoded \<Rightarrow> Some (Inr (block_new_with_buffer decoded opt, off)))
            | None \<Rightarrow> sst_err SstInvalidData ''invalid data''))"

text \<open>\<open>restarts_offset\<close> subtracts lengths read from the block: it panics on a block too
  short for its own restart count.\<close>

definition restarts_offset_of :: "('f, 'c) libs \<Rightarrow> bytes \<Rightarrow> nat option" where
  "restarts_offset_of L blk =
     (if length blk < 4 then None
      else let n = unat (decode_fixed32 L (drop (length blk - 4) blk))
           in if length blk - 4 < 4 * n then None else Some (length blk - 4 - 4 * n))"

subsection \<open>The layout of a block\<close>

text \<open>Entry \<open>j\<close> shares a prefix with entry \<open>j - 1\<close> except at a restart point, every
  \<open>I\<close> entries.\<close>

definition entry_shared :: "nat \<Rightarrow> entry list \<Rightarrow> nat \<Rightarrow> nat" where
  "entry_shared I es j =
     (if j mod I = 0 then 0 else common_len (fst (es ! (j - 1))) (fst (es ! j)))"

definition chunk :: "('f, 'c) libs \<Rightarrow> nat \<Rightarrow> entry list \<Rightarrow> nat \<Rightarrow> bytes" where
  "chunk L I es j = entry_bytes L (entry_shared I es j) (fst (es ! j)) (snd (es ! j))"

definition body :: "('f, 'c) libs \<Rightarrow> nat \<Rightarrow> entry list \<Rightarrow> nat \<Rightarrow> bytes" where
  "body L I es p = concat (map (chunk L I es) [0..<p])"

definition entry_off :: "('f, 'c) libs \<Rightarrow> nat \<Rightarrow> entry list \<Rightarrow> nat \<Rightarrow> nat" where
  "entry_off L I es p = length (body L I es p)"

definition restart_total :: "nat \<Rightarrow> nat \<Rightarrow> nat" where
  "restart_total I n = (n - 1) div I + 1"

definition restart_list :: "('f, 'c) libs \<Rightarrow> nat \<Rightarrow> entry list \<Rightarrow> nat list" where
  "restart_list L I es = map (\<lambda>r. entry_off L I es (r * I)) [0..<restart_total I (length es)]"

definition bb_inv :: "('f, 'c) libs \<Rightarrow> nat \<Rightarrow> entry list \<Rightarrow> block_builder \<Rightarrow> bool" where
  "bb_inv L I es b \<longleftrightarrow>
     block_restart_interval (bb_opt b) = I \<and>
     buffer b = body L I es (length es) \<and>
     count b = length es \<and>
     restart_count b = (if es = [] then 0 else (length es - 1) mod I + 1) \<and>
     last_key b = (if es = [] then [] else fst (last es)) \<and>
     restarts b = map of_nat (restart_list L I es)"

lemma body_Suc [layout_simps]: "body L I es (Suc p) = body L I es p @ chunk L I es p"
  by (simp add: body_def)

lemma body_0 [simp]: "body L I es 0 = []"
  by (simp add: body_def)

lemma entry_off_0 [simp]: "entry_off L I es 0 = 0"
  by (simp add: entry_off_def)

lemma entry_off_Suc [layout_simps]:
  "entry_off L I es (Suc p) = entry_off L I es p + length (chunk L I es p)"
  by (simp add: entry_off_def body_Suc)

lemma chunk_append: "j < length es \<Longrightarrow> chunk L I (es @ fs) j = chunk L I es j"
  by (cases j) (auto simp: chunk_def entry_shared_def nth_append)

lemma body_append: "p \<le> length es \<Longrightarrow> body L I (es @ fs) p = body L I es p"
proof -
  assume "p \<le> length es"
  then have "map (chunk L I (es @ fs)) [0..<p] = map (chunk L I es) [0..<p]"
    by (simp add: chunk_append)
  then show ?thesis by (simp only: body_def)
qed

lemma entry_off_append: "p \<le> length es \<Longrightarrow> entry_off L I (es @ fs) p = entry_off L I es p"
  by (simp add: entry_off_def body_append)

lemma bb_inv_new: "bb_inv L (block_restart_interval opt) [] (bb_new opt)"
  by (simp add: bb_inv_def bb_new_def bb_new_with_buffer_def restart_list_def restart_total_def)

lemma restart_total_snoc:
  assumes "0 < I"
  shows "restart_total I (Suc n) =
           (if n mod I = 0 \<and> 0 < n then restart_total I n + 1 else restart_total I n)"
proof (cases n)
  case (Suc m)
  then show ?thesis using assms by (simp add: restart_total_def div_Suc)
qed (simp add: restart_total_def)

lemma restart_total_bound:
  assumes "0 < I" "r < restart_total I n"
  shows "r = 0 \<or> r * I < n"
proof -
  have "r \<le> (n - 1) div I" using assms by (simp add: restart_total_def)
  then have "r * I \<le> n - 1"
    by (meson div_times_less_eq_dividend le_trans mult_le_mono1)
  then show ?thesis using assms(1) by (cases "n = 0") auto
qed

lemma restart_list_snoc:
  assumes "0 < I"
  shows "restart_list L I (es @ [e]) =
           (if length es mod I = 0 \<and> es \<noteq> [] then restart_list L I es @ [entry_off L I es (length es)]
            else restart_list L I es)"
proof -
  let ?n = "length es"
  have old: "entry_off L I (es @ [e]) (r * I) = entry_off L I es (r * I)"
    if "r < restart_total I ?n" for r
    using restart_total_bound [OF assms that] by (auto simp: entry_off_append)
  have "restart_total I ?n * I = ?n" if "?n mod I = 0" "es \<noteq> []"
  proof -
    have "I dvd ?n" using that(1) by (rule mod_0_imp_dvd)
    then obtain q where "?n = I * q" by (rule dvdE)
    then have q: "?n = q * I" by simp
    with that(2) obtain q' where q': "q = Suc q'" by (cases q) auto
    have "?n - 1 = (I - 1) + q' * I" using q q' assms by simp
    moreover have "((I - 1) + q' * I) div I = q' + (I - 1) div I"
      using assms by (intro div_mult_self1) simp
    ultimately have "(?n - 1) div I = q'" using assms by simp
    then show ?thesis using q q' by (simp add: restart_total_def)
  qed
  then show ?thesis
    using old by (auto simp: restart_list_def restart_total_snoc [OF assms] entry_off_append)
qed

text \<open>The builder keeps its invariant: adding appends to the entries the block holds.\<close>

lemma bb_add_inv:
  assumes I: "0 < I" and inv: "bb_inv L I es b"
    and sorted: "es \<noteq> [] \<Longrightarrow> fst (last es) \<le> k"
  shows "\<exists>b'. bb_add L b k v = Some b' \<and> bb_inv L I (es @ [(k, v)]) b'"
proof -
  let ?n = "length es"
  have rc: "restart_count b = (if es = [] then 0 else (?n - 1) mod I + 1)"
    and opt: "block_restart_interval (bb_opt b) = I"
    and lk: "last_key b = (if es = [] then [] else fst (last es))"
    using inv by (auto simp: bb_inv_def)
  have le: "restart_count b \<le> I" using I by (simp add: rc Suc_leI)
  have full: "restart_count b = I \<longleftrightarrow> es \<noteq> [] \<and> ?n mod I = 0"
    using I by (cases ?n) (auto simp: rc mod_Suc)
  have sh: "entry_shared I (es @ [(k, v)]) ?n =
              (if restart_count b < I then common_len (last_key b) k else 0)"
    using I le full lk by (auto simp: entry_shared_def nth_append last_conv_nth)
  have key: "resize (common_len (last_key b) k) (last_key b) @ drop (common_len (last_key b) k) k = k"
    by (simp add: resize_le common_len_le take_common_len)
  have buf: "buffer b @ chunk L I (es @ [(k, v)]) ?n = body L I (es @ [(k, v)]) (Suc ?n)"
    using inv by (simp add: bb_inv_def body_Suc body_append)
  have ck: "chunk L I (es @ [(k, v)]) ?n = entry_bytes L (entry_shared I (es @ [(k, v)]) ?n) k v"
    by (simp add: chunk_def nth_append)
  have guard: "\<not> (buffer b \<noteq> [] \<and> k < last_key b)"
    using sorted inv by (cases "es = []") (auto simp: bb_inv_def lk)
  have rs: "restarts b = map of_nat (restart_list L I es)" "count b = ?n"
    and bo: "length (buffer b) = entry_off L I es ?n"
    using inv by (auto simp: bb_inv_def entry_off_def)
  have le': "\<not> block_restart_interval (bb_opt b) < restart_count b" using le opt by simp
  show ?thesis
  proof (cases "restart_count b < I")
    case True
    let ?b = "b\<lparr>buffer := buffer b @ chunk L I (es @ [(k, v)]) ?n, last_key := k,
                restart_count := restart_count b + 1, count := count b + 1\<rparr>"
    have "bb_add L b k v = Some ?b"
      using True opt guard key sh le' by (simp add: bb_add_def Let_def ck)
    moreover have "restart_count b + 1 = ?n mod I + 1" "\<not> (?n mod I = 0 \<and> es \<noteq> [])"
      using True I full by (cases ?n; auto simp: rc mod_Suc)+
    then have "bb_inv L I (es @ [(k, v)]) ?b"
      using opt buf rs I by (simp add: bb_inv_def restart_list_snoc)
    ultimately show ?thesis by blast
  next
    case False
    then have eq: "?n mod I = 0 \<and> es \<noteq> []" using le full by auto
    let ?b = "b\<lparr>restarts := restarts b @ [of_nat (entry_off L I es ?n)],
                buffer := buffer b @ chunk L I (es @ [(k, v)]) ?n, last_key := k,
                restart_count := 1, count := count b + 1\<rparr>"
    have "chunk L I (es @ [(k, v)]) ?n = entry_bytes L 0 k v"
      using ck sh False by simp
    then have "bb_add L b k v = Some ?b"
      using False opt guard le' bo by (simp add: bb_add_def Let_def)
    moreover have "bb_inv L I (es @ [(k, v)]) ?b"
      using eq opt buf rs I by (simp add: bb_inv_def restart_list_snoc)
    ultimately show ?thesis by blast
  qed
qed

text \<open>A builder that adds a whole list of entries.\<close>

fun bb_add_all :: "('f, 'c) libs \<Rightarrow> block_builder \<Rightarrow> entry list \<Rightarrow> block_builder option" where
  "bb_add_all L b [] = Some b"
| "bb_add_all L b ((k, v) # es) = Option.bind (bb_add L b k v) (\<lambda>b'. bb_add_all L b' es)"

lemma bb_add_all_inv:
  assumes "0 < I" "bb_inv L I es b" "sorted (map fst (es @ fs))"
  shows "\<exists>b'. bb_add_all L b fs = Some b' \<and> bb_inv L I (es @ fs) b'"
  using assms(2,3)
proof (induction fs arbitrary: es b)
  case (Cons e fs)
  obtain k v where e: "e = (k, v)" by (cases e)
  have "fst (last es) \<le> k" if "es \<noteq> []"
    using Cons.prems(2) that by (auto simp: e sorted_append)
  then obtain b1 where b1: "bb_add L b k v = Some b1" "bb_inv L I (es @ [(k, v)]) b1"
    using bb_add_inv [OF assms(1) Cons.prems(1)] by blast
  then show ?case
    using Cons.IH [OF b1(2)] Cons.prems(2) by (simp add: e)
qed simp

subsection \<open>Finished blocks\<close>

definition entries_ok :: "entry list \<Rightarrow> bool" where
  "entries_ok es \<longleftrightarrow> (\<forall>(k, v) \<in> set es. length k < usize_bound \<and> length v < usize_bound)"

text \<open>What the iterator may rely on: the bytes of the entries, the restart array and its
  length, in a block whose offsets fit the 32 bits they are stored in.\<close>

definition block_layout :: "('f, 'c) libs \<Rightarrow> nat \<Rightarrow> entry list \<Rightarrow> bytes \<Rightarrow> bool" where
  "block_layout L I es blk \<longleftrightarrow>
     0 < I \<and> varint_ok L \<and> fixed_ok L \<and> entries_ok es \<and>
     entry_off L I es (length es) < u32_bound \<and>
     blk = body L I es (length es) @ concat (map (\<lambda>r. encode_fixed32 L (of_nat r)) (restart_list L I es)) @
           encode_fixed32 L (of_nat (restart_total I (length es)))"

lemma length_restart_list [simp]: "length (restart_list L I es) = restart_total I (length es)"
  by (simp add: restart_list_def)

lemma bb_finish_layout:
  assumes "0 < I" "varint_ok L" "fixed_ok L" "entries_ok es" "bb_inv L I es b"
    and "length (buffer b) < u32_bound"
  shows "block_layout L I es (bb_finish L b)"
  using assms by (simp add: block_layout_def bb_inv_def bb_finish_def entry_off_def comp_def)

text \<open>Sealing and reading back: the checksum verifies and the contents come back, for both
  compression types.\<close>

lemma read_sealed:
  assumes "fixed_ok L"
    and w: "w = pre @ bb_seal L ct buf @ post"
    and h: "h = bh (length pre) (length (bb_seal L ct buf))"
  shows "block_new_from_location L (buffer_read_at w) h opt =
           (case ct of
              CNone \<Rightarrow> Some (Inr (block_new_with_buffer buf opt, length pre + length (bb_seal L ct buf)))
            | CSnappy \<Rightarrow>
                (case decompress_vec L buf of
                   Inl e \<Rightarrow> Some (Inl (sst_from_snap e))
                 | Inr d \<Rightarrow> Some (Inr (block_new_with_buffer d opt, length pre + length (bb_seal L ct buf)))))"
proof -
  let ?s = "bb_seal L ct buf" and ?c = "compress_type_u8 ct"
  have rd: "read_bytes (buffer_read_at w) h = Inr (?s, length pre + length ?s)"
    using buf_file.read_bytes_stored [OF w, of h] h by (simp add: bh_def)
  have s: "?s = buf @ [?c] @ encode_fixed32 L (mask_crc (crc32c L (buf @ [?c])))"
    by (simp add: bb_seal_def BLOCK_CTYPE_LEN_def Let_def)
  have len: "length ?s - BLOCK_CKSUM_LEN = length buf + 1" "\<not> length ?s < BLOCK_CKSUM_LEN"
    using assms(1) by (simp_all add: s BLOCK_CKSUM_LEN_def)
  have parts: "take (length buf + 1) ?s = buf @ [?c]" "take (length buf) ?s = buf"
    "drop (length buf + 1) ?s = encode_fixed32 L (mask_crc (crc32c L (buf @ [?c])))"
    "take 1 (drop (length buf) ?s) = [?c]"
    by (simp_all add: s)
  show ?thesis
    using assms(1) parts len
    by (cases ct) (auto simp: block_new_from_location_def rd Let_def verify_block_def unmask_mask
        BLOCK_CTYPE_LEN_def int_to_compress_type_def simp flip: One_nat_def split: sum.splits)
qed

lemma bb_flush_read:
  assumes L: "fixed_ok L" "snappy_ok L"
    and f: "bb_flush L b w (length w) = Inr (w', h, b')"
  shows "\<exists>sealed. w' = w @ sealed \<and> h = bh (length w) (length sealed) \<and> sealed \<noteq> [] \<and>
           (\<forall>post opt. block_new_from_location L (buffer_read_at (w' @ post)) h opt =
              Some (Inr (block_new_with_buffer (bb_finish L b) opt, length w')))"
proof -
  let ?ct = "compress_type (bb_opt b)"
  obtain buf where buf: "w' = w @ bb_seal L ?ct buf" "h = bh (length w) (length (bb_seal L ?ct buf))"
    and c: "?ct = CSnappy \<and> compress_vec L (bb_finish L b) = Inr buf \<or> ?ct = CNone \<and> buf = bb_finish L b"
    using f by (cases ?ct) (auto simp: bb_flush_def Let_def split: sum.splits)
  have "block_new_from_location L (buffer_read_at (w' @ post)) h opt =
          Some (Inr (block_new_with_buffer (bb_finish L b) opt, length w'))" for post opt
    using c L(2) read_sealed [OF L(1), of "w' @ post" w ?ct buf post h opt] buf
    by (auto simp: snappy_ok_def)
  moreover have "bb_seal L ?ct buf \<noteq> []"
    by (simp add: bb_seal_def Let_def BLOCK_CTYPE_LEN_def)
  ultimately show ?thesis using buf by blast
qed

end
