(* ===== verification/Ss_Iterator.thy ===== *)
theory Ss_Iterator
  imports Prelude
begin

text \<open>
  The \<open>SsIterator\<close> trait of \<open>sstable/src/types.rs\<close>.  Its provided methods are functions of
  the required ones, as in Rust; the locale \<open>ss_iterator\<close> is the contract an implementation
  has to meet, over the list of entries it iterates, and what the provided methods then do is
  proved once.  The block iterator and the table iterator interpret it.
\<close>

subsection \<open>Provided methods\<close>

definition ss_seek_to_first ::
  "('s \<Rightarrow> (bool \<times> 's) option) \<Rightarrow> ('s \<Rightarrow> 's) \<Rightarrow> 's \<Rightarrow> 's option" where
  "ss_seek_to_first advance reset s = map_option snd (advance (reset s))"

definition ss_current_kv ::
  "('s \<Rightarrow> bool) \<Rightarrow> ('s \<Rightarrow> bytes option) \<Rightarrow> ('s \<Rightarrow> bytes option option) \<Rightarrow> 's \<Rightarrow>
   entry option option" where
  "ss_current_kv valid current_k current_v s =
     (if valid s then
        (case current_k s of
           None \<Rightarrow> Some None
         | Some k \<Rightarrow> Option.bind (current_v s) (\<lambda>r. case r of None \<Rightarrow> Some None | Some v \<Rightarrow> Some (Some (k, v))))
      else Some None)"

definition ss_next ::
  "('s \<Rightarrow> (bool \<times> 's) option) \<Rightarrow> ('s \<Rightarrow> entry option option) \<Rightarrow> 's \<Rightarrow>
   (entry option \<times> 's) option" where
  "ss_next advance current_kv s = do {
     (more, s') \<leftarrow> advance s;
     if \<not> more then Some (None, s')
     else do { kv \<leftarrow> current_kv s'; Some (kv, s') }
   }"

text \<open>The loops over \<open>next\<close> may run forever on a bad implementation: \<open>None\<close> then.\<close>

partial_function (option) ss_count_from ::
  "('s \<Rightarrow> (bool \<times> 's) option) \<Rightarrow> ('s \<Rightarrow> entry option option) \<Rightarrow> 's \<Rightarrow> nat \<Rightarrow> (nat \<times> 's) option"
  where
  "ss_count_from advance current_kv s c =
     Option.bind (ss_next advance current_kv s) (\<lambda>(kv, s').
       case kv of None \<Rightarrow> Some (c, s')
       | Some _ \<Rightarrow> ss_count_from advance current_kv s' (Suc c))"

definition ss_count ::
  "('s \<Rightarrow> (bool \<times> 's) option) \<Rightarrow> ('s \<Rightarrow> entry option option) \<Rightarrow> ('s \<Rightarrow> 's) \<Rightarrow> 's \<Rightarrow>
   (nat \<times> 's) option" where
  "ss_count advance current_kv reset s = ss_count_from advance current_kv (reset s) 0"

text \<open>\<open>SsIteratorIterWrap\<close> turns \<open>next\<close> into a Rust iterator: draining it collects what
  \<open>next\<close> returns until the first \<open>None\<close>.\<close>

partial_function (option) ss_drain ::
  "('s \<Rightarrow> (bool \<times> 's) option) \<Rightarrow> ('s \<Rightarrow> entry option option) \<Rightarrow> 's \<Rightarrow> entry list \<Rightarrow>
   (entry list \<times> 's) option"
  where
  "ss_drain advance current_kv s acc =
     Option.bind (ss_next advance current_kv s) (\<lambda>(kv, s').
       case kv of None \<Rightarrow> Some (acc, s')
       | Some e \<Rightarrow> ss_drain advance current_kv s' (acc @ [e]))"

declare ss_count_from.simps [code] ss_drain.simps [code]

subsection \<open>The contract\<close>

text \<open>
  \<open>pos s es p\<close>: the iterator runs over \<open>es\<close> and has advanced over \<open>p\<close> of them, so that
  the current entry is \<open>es ! (p - 1)\<close>; \<open>finished s es\<close>: \<open>advance\<close> has returned false.
\<close>

definition keys_nonempty :: "entry list \<Rightarrow> bool" where
  "keys_nonempty es \<longleftrightarrow> (\<forall>e \<in> set es. fst e \<noteq> [])"

locale ss_iterator =
  fixes valid :: "'s \<Rightarrow> bool"
    and advance :: "'s \<Rightarrow> (bool \<times> 's) option"
    and prev :: "'s \<Rightarrow> (bool \<times> 's) option"
    and current_k :: "'s \<Rightarrow> bytes option"
    and current_v :: "'s \<Rightarrow> bytes option option"
    and reset :: "'s \<Rightarrow> 's"
    and pos :: "'s \<Rightarrow> entry list \<Rightarrow> nat \<Rightarrow> bool"
    and finished :: "'s \<Rightarrow> entry list \<Rightarrow> bool"
  assumes advance_step:
      "pos s es p \<Longrightarrow> keys_nonempty es \<Longrightarrow> p < length es \<Longrightarrow>
       \<exists>s'. advance s = Some (True, s') \<and> pos s' es (Suc p)"
    and advance_end:
      "pos s es (length es) \<Longrightarrow> keys_nonempty es \<Longrightarrow>
       \<exists>s'. advance s = Some (False, s') \<and> finished s' es"
    and advance_finished:
      "finished s es \<Longrightarrow> keys_nonempty es \<Longrightarrow>
       \<exists>s'. advance s = Some (False, s') \<and> finished s' es"
    and prev_step:
      "pos s es (Suc p) \<Longrightarrow> keys_nonempty es \<Longrightarrow> p < length es \<Longrightarrow>
       \<exists>s'. prev s = Some (0 < p, s') \<and> pos s' es p"
    and current:
      "pos s es (Suc p) \<Longrightarrow> keys_nonempty es \<Longrightarrow> p < length es \<Longrightarrow>
       valid s \<and> current_k s = Some (fst (es ! p)) \<and> current_v s = Some (Some (snd (es ! p)))"
    and current_none:
      "pos s es 0 \<or> finished s es \<Longrightarrow> keys_nonempty es \<Longrightarrow> \<not> valid s \<and> current_k s = None"
    and reset_pos:
      "pos s es p \<or> finished s es \<Longrightarrow> keys_nonempty es \<Longrightarrow> pos (reset s) es 0"
begin

abbreviation current_kv :: "'s \<Rightarrow> entry option option" where
  "current_kv \<equiv> ss_current_kv valid current_k current_v"

lemma current_kv_at:
  assumes "pos s es (Suc p)" "keys_nonempty es" "p < length es"
  shows "current_kv s = Some (Some (es ! p))"
  using current [OF assms] by (simp add: ss_current_kv_def)

lemma current_kv_none:
  assumes "pos s es 0 \<or> finished s es" "keys_nonempty es"
  shows "current_kv s = Some None"
  using current_none [OF assms] by (simp add: ss_current_kv_def)

lemma next_step:
  assumes "pos s es p" "keys_nonempty es" "p < length es"
  shows "\<exists>s'. ss_next advance current_kv s = Some (Some (es ! p), s') \<and> pos s' es (Suc p)"
  using advance_step [OF assms] current_kv_at assms by (fastforce simp: ss_next_def)

lemma next_end:
  assumes "pos s es (length es)" "keys_nonempty es"
  shows "\<exists>s'. ss_next advance current_kv s = Some (None, s') \<and> finished s' es"
  using advance_end [OF assms] by (auto simp: ss_next_def)

text \<open>Draining from any position returns exactly the entries that are left.\<close>

lemma drain_from:
  assumes "pos s es p" "keys_nonempty es" "p \<le> length es"
  shows "\<exists>s'. ss_drain advance current_kv s acc = Some (acc @ drop p es, s') \<and> finished s' es"
  using assms(1,3)
proof (induction "length es - p" arbitrary: s p acc)
  case 0
  then show ?case
    using next_end [of s es] assms(2) by (subst ss_drain.simps) auto
next
  case (Suc n)
  then have p: "p < length es" by simp
  then obtain s' where s': "ss_next advance current_kv s = Some (Some (es ! p), s')" "pos s' es (Suc p)"
    using next_step [OF Suc.prems(1) assms(2)] by blast
  have n: "n = length es - Suc p" using Suc.hyps(2) by simp
  from Suc.hyps(1) [OF n s'(2), of "acc @ [es ! p]"] p
  obtain s'' where "ss_drain advance current_kv s' (acc @ [es ! p]) =
      Some ((acc @ [es ! p]) @ drop (Suc p) es, s'')" "finished s'' es"
    by auto
  then show ?case
    using s'(1) p by (subst ss_drain.simps) (simp add: Cons_nth_drop_Suc)
qed

lemma count_from:
  assumes "pos s es p" "keys_nonempty es" "p \<le> length es"
  shows "\<exists>s'. ss_count_from advance current_kv s c = Some (c + (length es - p), s') \<and> finished s' es"
  using assms(1,3)
proof (induction "length es - p" arbitrary: s p c)
  case 0
  then show ?case
    using next_end [of s es] assms(2) by (subst ss_count_from.simps) auto
next
  case (Suc n)
  then have p: "p < length es" by simp
  then obtain s' where s': "ss_next advance current_kv s = Some (Some (es ! p), s')" "pos s' es (Suc p)"
    using next_step [OF Suc.prems(1) assms(2)] by blast
  have n: "n = length es - Suc p" using Suc.hyps(2) by simp
  from Suc.hyps(1) [OF n s'(2), of "Suc c"] p
  obtain s'' where "ss_count_from advance current_kv s' (Suc c) =
      Some (Suc c + (length es - Suc p), s'')" "finished s'' es"
    by auto
  then show ?case
    using s'(1) p by (subst ss_count_from.simps) (auto simp: Suc_diff_Suc)
qed

lemma count_all:
  assumes "pos s es p \<or> finished s es" "keys_nonempty es"
  shows "\<exists>s'. ss_count advance current_kv reset s = Some (length es, s') \<and> finished s' es"
  using count_from [OF reset_pos [OF assms] assms(2), of 0] by (simp add: ss_count_def)

lemma seek_to_first_pos:
  assumes "pos s es p \<or> finished s es" "keys_nonempty es" "es \<noteq> []"
  shows "\<exists>s'. ss_seek_to_first advance reset s = Some s' \<and> pos s' es 1"
  using advance_step [OF reset_pos [OF assms(1,2)] assms(2)] assms(3)
  by (auto simp: ss_seek_to_first_def)

text \<open>\<open>prev\<close> undoes a successful \<open>advance\<close>; the merger relies on it.\<close>

lemma advance_prev:
  assumes "pos s es p" "keys_nonempty es" "p < length es"
  shows "\<exists>s1 s2. advance s = Some (True, s1) \<and> prev s1 = Some (0 < p, s2) \<and> pos s2 es p"
  using advance_step [OF assms] prev_step assms by blast

end

end
