(* ===== verification/Block_Iter.thy ===== *)
theory Block_Iter
  imports Block_Builder Ss_Iterator
begin

text \<open>
  \<open>sstable/src/block_iter.rs\<close>: the cursor over one block.  Every read of the block is
  bounds-checked as in Rust (\<open>None\<close> is the panic), and the loops that depend on the block's
  contents are partial.  Over a block in the builder's layout the iterator meets the
  \<open>ss_iterator\<close> contract and \<open>seek\<close> finds the first entry at or after the key.
\<close>

subsection \<open>State and reads\<close>

record block_iter_state =
  key :: bytes
  current_offset :: nat
  next_offset :: nat
  val_offset :: nat
  restarts_offset :: nat
  current_restart_idx :: nat

definition bis_new :: "nat \<Rightarrow> block_iter_state" where
  "bis_new ro = \<lparr>key = [], current_offset = 0, next_offset = 0, val_offset = 0,
                 restarts_offset = ro, current_restart_idx = 0\<rparr>"

definition bi_reset :: "block_iter_state \<Rightarrow> block_iter_state" where
  "bi_reset st = st\<lparr>next_offset := 0, val_offset := 0, current_restart_idx := 0, key := []\<rparr>"

definition bi_restart_count :: "('f, 'c) libs \<Rightarrow> bytes \<Rightarrow> nat option" where
  "bi_restart_count L blk =
     (if length blk < 4 then None
      else Some (unat (decode_fixed32 L (drop (length blk - 4) blk))))"

definition get_restart_point_offset ::
  "('f, 'c) libs \<Rightarrow> bytes \<Rightarrow> block_iter_state \<Rightarrow> nat \<Rightarrow> nat option" where
  "get_restart_point_offset L blk st i = do {
     let restart = restarts_offset st + 4 * i;
     buf \<leftarrow> subslice blk restart (restart + 4);
     Some (unat (decode_fixed32 L buf))
   }"

definition parse_entry_and_advance ::
  "('f, 'c) libs \<Rightarrow> bytes \<Rightarrow> block_iter_state \<Rightarrow> ((nat \<times> nat \<times> nat \<times> nat) \<times> block_iter_state) option"
  where
  "parse_entry_and_advance L blk st = do {
     s0 \<leftarrow> slice_from blk (next_offset st);
     let (shared, shared_len) = decode_var L s0;
     let i = shared_len;
     s1 \<leftarrow> slice_from blk (next_offset st + i);
     let (non_shared, non_shared_len) = decode_var L s1;
     let i = i + non_shared_len;
     s2 \<leftarrow> slice_from blk (next_offset st + i);
     let (val_size, val_size_len) = decode_var L s2;
     let i = i + val_size_len;
     let vo = next_offset st + i + non_shared;
     Some ((shared, non_shared, val_size, i), st\<lparr>val_offset := vo, next_offset := vo + val_size\<rparr>)
   }"

definition assemble_key ::
  "bytes \<Rightarrow> block_iter_state \<Rightarrow> nat \<Rightarrow> nat \<Rightarrow> nat \<Rightarrow> block_iter_state option" where
  "assemble_key blk st off shared non_shared = do {
     rest \<leftarrow> subslice blk off (off + non_shared);
     Some (st\<lparr>key := take shared (key st) @ rest\<rparr>)
   }"

definition bi_valid :: "block_iter_state \<Rightarrow> bool" where
  "bi_valid st \<longleftrightarrow> key st \<noteq> [] \<and> val_offset st > 0 \<and> val_offset st \<le> restarts_offset st"

definition seek_to_restart_point ::
  "('f, 'c) libs \<Rightarrow> bytes \<Rightarrow> block_iter_state \<Rightarrow> nat \<Rightarrow> block_iter_state option" where
  "seek_to_restart_point L blk st i = do {
     off \<leftarrow> get_restart_point_offset L blk st i;
     let st1 = st\<lparr>next_offset := off, current_offset := off, current_restart_idx := i\<rparr>;
     ((shared, non_shared, _, head_len), st2) \<leftarrow> parse_entry_and_advance L blk st1;
     if shared \<noteq> 0 then None
     else do {
       st3 \<leftarrow> assemble_key blk st2 (off + head_len) shared non_shared;
       if bi_valid st3 then Some st3 else None
     }
   }"

subsection \<open>Moving\<close>

text \<open>The loop at the end of \<open>advance\<close> that follows the restart points.\<close>

function bi_follow_restarts ::
  "('f, 'c) libs \<Rightarrow> bytes \<Rightarrow> nat \<Rightarrow> block_iter_state \<Rightarrow> block_iter_state option" where
  "bi_follow_restarts L blk rc st =
     (if current_restart_idx st + 1 < rc then
        Option.bind (get_restart_point_offset L blk st (current_restart_idx st + 1)) (\<lambda>off.
          if off < current_offset st
          then bi_follow_restarts L blk rc (st\<lparr>current_restart_idx := current_restart_idx st + 1\<rparr>)
          else Some st)
      else Some st)"
  by pat_completeness auto
termination
  by (relation "measure (\<lambda>(L, blk, rc, st). rc - current_restart_idx st)") auto

declare bi_follow_restarts.simps [simp del]

definition bi_advance ::
  "('f, 'c) libs \<Rightarrow> bytes \<Rightarrow> block_iter_state \<Rightarrow> (bool \<times> block_iter_state) option" where
  "bi_advance L blk st =
     (if next_offset st \<ge> restarts_offset st then Some (False, st\<lparr>key := []\<rparr>)
      else do {
        let st1 = st\<lparr>current_offset := next_offset st\<rparr>;
        ((shared, non_shared, _, entry_head_len), st2) \<leftarrow> parse_entry_and_advance L blk st1;
        st3 \<leftarrow> assemble_key blk st2 (current_offset st1 + entry_head_len) shared non_shared;
        rc \<leftarrow> bi_restart_count L blk;
        st4 \<leftarrow> bi_follow_restarts L blk rc st3;
        Some (True, st4)
      })"

text \<open>\<open>prev\<close> goes back to a restart point before the current entry, asserting that there is
  one, and advances up to the entry before.\<close>

function bi_back_restarts ::
  "('f, 'c) libs \<Rightarrow> bytes \<Rightarrow> nat \<Rightarrow> block_iter_state \<Rightarrow> block_iter_state option" where
  "bi_back_restarts L blk orig st =
     Option.bind (get_restart_point_offset L blk st (current_restart_idx st)) (\<lambda>off.
       if off \<ge> orig then
         (if current_restart_idx st = 0 then None
          else bi_back_restarts L blk orig (st\<lparr>current_restart_idx := current_restart_idx st - 1\<rparr>))
       else Some (st\<lparr>next_offset := off\<rparr>))"
  by pat_completeness auto
termination
  by (relation "measure (\<lambda>(L, blk, orig, st). current_restart_idx st)") auto

declare bi_back_restarts.simps [simp del]

partial_function (option) bi_advance_to ::
  "('f, 'c) libs \<Rightarrow> bytes \<Rightarrow> nat \<Rightarrow> block_iter_state \<Rightarrow> (bool \<times> block_iter_state) option" where
  "bi_advance_to L blk orig st =
     Option.bind (bi_advance L blk st) (\<lambda>(r, st').
       if next_offset st' \<ge> orig then Some (r, st') else bi_advance_to L blk orig st')"

definition bi_prev ::
  "('f, 'c) libs \<Rightarrow> bytes \<Rightarrow> block_iter_state \<Rightarrow> (bool \<times> block_iter_state) option" where
  "bi_prev L blk st =
     (let orig = current_offset st in
      if orig = 0 then Some (False, bi_reset st)
      else do {
        st1 \<leftarrow> bi_back_restarts L blk orig st;
        bi_advance_to L blk orig st1
      })"

definition bi_current_k :: "block_iter_state \<Rightarrow> bytes option" where
  "bi_current_k st = (if bi_valid st then Some (key st) else None)"

definition bi_current_v :: "bytes \<Rightarrow> block_iter_state \<Rightarrow> bytes option option" where
  "bi_current_v blk st =
     (if bi_valid st then map_option Some (subslice blk (val_offset st) (next_offset st))
      else Some None)"

subsection \<open>Seeking\<close>

function bi_bisect ::
  "('f, 'c) libs \<Rightarrow> bytes \<Rightarrow> bytes \<Rightarrow> nat \<Rightarrow> nat \<Rightarrow> block_iter_state \<Rightarrow> (nat \<times> nat \<times> block_iter_state) option"
  where
  "bi_bisect L blk to left right st =
     (if left < right then
        (let m = (left + right + 1) div 2 in
         Option.bind (seek_to_restart_point L blk st m) (\<lambda>st'.
           if key st' < to then bi_bisect L blk to m right st'
           else bi_bisect L blk to left (m - 1) st'))
      else Some (left, right, st))"
  by pat_completeness auto
termination
  by (relation "measure (\<lambda>(L, blk, to, left, right, st). right - left)") (auto simp: Let_def)

declare bi_bisect.simps [simp del]

partial_function (option) bi_scan ::
  "('f, 'c) libs \<Rightarrow> bytes \<Rightarrow> bytes \<Rightarrow> block_iter_state \<Rightarrow> block_iter_state option" where
  "bi_scan L blk to st =
     Option.bind (bi_advance L blk st) (\<lambda>(more, st').
       if \<not> more then Some st'
       else if key st' \<ge> to then Some st'
       else bi_scan L blk to st')"

definition bi_seek ::
  "('f, 'c) libs \<Rightarrow> bytes \<Rightarrow> block_iter_state \<Rightarrow> bytes \<Rightarrow> block_iter_state option" where
  "bi_seek L blk st to = do {
     let st0 = bi_reset st;
     rc \<leftarrow> bi_restart_count L blk;
     (left, right, st1) \<leftarrow> bi_bisect L blk to 0 (if rc > 0 then rc - 1 else 0) st0;
     if left \<noteq> right then None
     else do {
       off \<leftarrow> get_restart_point_offset L blk (st1\<lparr>current_restart_idx := left\<rparr>) left;
       bi_scan L blk to (st1\<lparr>current_restart_idx := left, next_offset := off\<rparr>)
     }
   }"

partial_function (option) bi_run_to_end ::
  "('f, 'c) libs \<Rightarrow> bytes \<Rightarrow> block_iter_state \<Rightarrow> block_iter_state option" where
  "bi_run_to_end L blk st =
     (if next_offset st < restarts_offset st
      then Option.bind (bi_advance L blk st) (\<lambda>(_, st'). bi_run_to_end L blk st')
      else Some st)"

definition bi_seek_to_last ::
  "('f, 'c) libs \<Rightarrow> bytes \<Rightarrow> block_iter_state \<Rightarrow> block_iter_state option" where
  "bi_seek_to_last L blk st = do {
     rc \<leftarrow> bi_restart_count L blk;
     st1 \<leftarrow> (if rc > 0 then seek_to_restart_point L blk st (rc - 1) else Some (bi_reset st));
     st2 \<leftarrow> bi_run_to_end L blk st1;
     if bi_valid st2 then Some st2 else None
   }"

text \<open>\<open>Block::iter\<close>.\<close>

definition block_iter :: "('f, 'c) libs \<Rightarrow> bytes \<Rightarrow> block_iter_state option" where
  "block_iter L blk = map_option bis_new (restarts_offset_of L blk)"

subsection \<open>Reading a block in the builder's layout\<close>

lemma chunk_nonempty:
  assumes "varint_ok L" "entries_ok es" "j < length es"
  shows "3 \<le> length (chunk L I es j)"
proof -
  obtain k v where e: "es ! j = (k, v)" by (cases "es ! j")
  then have kv: "length k < usize_bound" "length v < usize_bound"
    using assms(2,3) nth_mem [of j es] by (auto simp: entries_ok_def)
  have "entry_shared I es j \<le> length k"
    by (simp add: entry_shared_def common_len_le(2) e)
  then have "1 \<le> length (encode_var L (entry_shared I es j))"
    "1 \<le> length (encode_var L (length k - entry_shared I es j))" "1 \<le> length (encode_var L (length v))"
    using kv by (intro varint_okD(3) [OF assms(1)]; simp)+
  then show ?thesis by (simp add: chunk_def entry_bytes_def e)
qed

lemma entry_off_mono:
  "p \<le> q \<Longrightarrow> entry_off L I es p \<le> entry_off L I es q"
  by (induction q) (auto simp: entry_off_Suc le_Suc_eq)

lemma entry_off_strict:
  assumes "varint_ok L" "entries_ok es" "p < q" "q \<le> length es"
  shows "entry_off L I es p < entry_off L I es q"
proof -
  have "entry_off L I es p < entry_off L I es (Suc p)"
    using chunk_nonempty [OF assms(1,2), of p I] assms(3,4) by (auto simp: entry_off_Suc)
  also have "\<dots> \<le> entry_off L I es q"
    using assms(3) by (intro entry_off_mono) simp
  finally show ?thesis .
qed

lemma entry_off_ge:
  assumes "varint_ok L" "entries_ok es" "p \<le> length es"
  shows "p \<le> entry_off L I es p"
  using assms(3)
proof (induction p)
  case (Suc p)
  then show ?case using chunk_nonempty [OF assms(1,2), of p I] by (simp add: entry_off_Suc)
qed simp

lemma layout_facts:
  assumes "block_layout L I es blk"
  shows "0 < I" "varint_ok L" "fixed_ok L" "entries_ok es"
    "entry_off L I es (length es) < u32_bound"
  using assms by (simp_all add: block_layout_def)

lemma restart_total_le: "restart_total I n \<le> max 1 n"
proof -
  have "(n - 1) div I \<le> n - 1" by (rule div_le_dividend)
  then show ?thesis unfolding restart_total_def by linarith
qed

lemma layout_bounds:
  assumes "block_layout L I es blk"
  shows "restart_total I (length es) < u32_bound"
    and "p \<le> length es \<Longrightarrow> entry_off L I es p < u32_bound"
proof -
  note f = layout_facts [OF assms]
  have "length es < u32_bound"
    using entry_off_ge [OF f(2,4), of "length es" I] f(5) by simp
  then show "restart_total I (length es) < u32_bound"
    using restart_total_le [of I "length es"] by simp
  show "p \<le> length es \<Longrightarrow> entry_off L I es p < u32_bound"
    using entry_off_mono [of p "length es" L I es] f(5) by simp
qed

lemma concat_fixed_nth:
  assumes "\<And>x. length (f x) = 4" "r < length xs"
  shows "concat (map f xs) = concat (map f (take r xs)) @ f (xs ! r) @ concat (map f (drop (Suc r) xs))"
    and "length (concat (map f (take r xs))) = 4 * r"
proof -
  have "map f xs = map f (take r xs) @ f (xs ! r) # map f (drop (Suc r) xs)"
    using assms(2) by (metis id_take_nth_drop list.simps(9) map_append)
  then show "concat (map f xs) = concat (map f (take r xs)) @ f (xs ! r) @ concat (map f (drop (Suc r) xs))"
    by simp
  have "length (concat (map f ys)) = 4 * length ys" for ys
    by (induction ys) (simp_all add: assms(1))
  then show "length (concat (map f (take r xs))) = 4 * r" using assms(2) by simp
qed

lemma layout_length:
  assumes "block_layout L I es blk"
  shows "length blk = entry_off L I es (length es) + 4 * restart_total I (length es) + 4"
proof -
  have "length (concat (map (\<lambda>r. encode_fixed32 L (of_nat r)) rs)) = 4 * length rs" for rs
    using layout_facts(3) [OF assms] by (induction rs) auto
  then show ?thesis
    using assms by (simp add: block_layout_def entry_off_def)
qed

lemma layout_restart_count:
  assumes "block_layout L I es blk"
  shows "bi_restart_count L blk = Some (restart_total I (length es))"
    and "restarts_offset_of L blk = Some (entry_off L I es (length es))"
proof -
  let ?n = "restart_total I (length es)"
  note f = layout_facts [OF assms]
  have "drop (length blk - 4) blk = encode_fixed32 L (of_nat ?n)"
    using assms f(3) by (simp add: block_layout_def)
  then have "unat (decode_fixed32 L (drop (length blk - 4) blk)) = ?n"
    using f(3) layout_bounds(1) [OF assms] by (simp add: unat_of_nat)
  then show "bi_restart_count L blk = Some ?n"
    "restarts_offset_of L blk = Some (entry_off L I es (length es))"
    using layout_length [OF assms]
    by (simp_all add: bi_restart_count_def restarts_offset_of_def Let_def)
qed

lemma layout_restart_point:
  assumes lay: "block_layout L I es blk" and ro: "restarts_offset st = entry_off L I es (length es)"
    and r: "r < restart_total I (length es)"
  shows "get_restart_point_offset L blk st r = Some (entry_off L I es (r * I))"
proof -
  let ?rs = "restart_list L I es" and ?enc = "\<lambda>r. encode_fixed32 L (of_nat r)"
  note f = layout_facts [OF lay]
  have rr: "?rs ! r = entry_off L I es (r * I)" using r by (simp add: restart_list_def)
  note c = concat_fixed_nth [of ?enc r ?rs]
  let ?pre = "body L I es (length es) @ concat (map ?enc (take r ?rs))"
  let ?post = "concat (map ?enc (drop (Suc r) ?rs)) @ encode_fixed32 L (of_nat (restart_total I (length es)))"
  have b: "blk = ?pre @ ?enc (?rs ! r) @ ?post"
    using lay c f(3) r by (simp add: block_layout_def)
  have "length ?pre = restarts_offset st + 4 * r"
    using c(2) f(3) r ro by (simp add: entry_off_def)
  then have "subslice blk (restarts_offset st + 4 * r) (restarts_offset st + 4 * r + 4) = Some (?enc (?rs ! r))"
    unfolding b using f(3) by (intro subslice_mid_eq) simp_all
  moreover have "r * I \<le> length es"
    using restart_total_bound [OF f(1) r] by auto
  ultimately show ?thesis
    using f(3) layout_bounds(2) [OF lay] rr
    by (simp add: get_restart_point_offset_def unat_of_nat)
qed

text \<open>One entry parses to its own lengths and leads to the next one.\<close>

lemma layout_parse:
  assumes lay: "block_layout L I es blk" and p: "p < length es" and no: "next_offset st = entry_off L I es p"
    and e: "es ! p = (k, v)" and s: "s = entry_shared I es p"
  shows "\<exists>hl. parse_entry_and_advance L blk st =
           Some ((s, length k - s, length v, hl),
                 st\<lparr>val_offset := entry_off L I es (Suc p) - length v, next_offset := entry_off L I es (Suc p)\<rparr>)
         \<and> subslice blk (entry_off L I es p + hl) (entry_off L I es p + hl + (length k - s)) = Some (drop s k)
         \<and> subslice blk (entry_off L I es (Suc p) - length v) (entry_off L I es (Suc p)) = Some v
         \<and> 0 < entry_off L I es (Suc p) - length v"
proof -
  note f = layout_facts [OF lay]
  let ?a = "encode_var L s" and ?b = "encode_var L (length k - s)" and ?c = "encode_var L (length v)"
  let ?pre = "body L I es p"
  have kv: "length k < usize_bound" "length v < usize_bound"
    using f(4) p nth_mem [of p es] e by (auto simp: entries_ok_def)
  have sk: "s \<le> length k"
    unfolding s by (simp add: entry_shared_def common_len_le(2) e)
  have dec: "decode_var L (?a @ r) = (s, length ?a)" "decode_var L (?b @ r) = (length k - s, length ?b)"
    "decode_var L (?c @ r) = (length v, length ?c)" for r
    using kv sk by (auto intro!: varint_okD(1) [OF f(2)])
  have one: "1 \<le> length ?a" using kv sk by (intro varint_okD(3) [OF f(2)]) simp
  obtain post where b: "blk = ?pre @ ?a @ ?b @ ?c @ drop s k @ v @ post"
  proof -
    have "[0..<length es] = [0..<p] @ p # [Suc p..<length es]"
      using p by (metis le_add_diff_inverse less_imp_le_nat upt_add_eq_append upt_conv_Cons zero_le)
    then have "body L I es (length es) = ?pre @ chunk L I es p @ concat (map (chunk L I es) [Suc p..<length es])"
      by (simp add: body_def)
    then show ?thesis using lay that e s by (simp add: block_layout_def chunk_def entry_bytes_def)
  qed
  have pre: "length ?pre = entry_off L I es p" by (simp add: entry_off_def)
  have nx: "entry_off L I es (Suc p) =
      entry_off L I es p + (length ?a + length ?b + length ?c) + (length k - s) + length v"
    using e s by (simp add: entry_off_Suc chunk_def entry_bytes_def)
  let ?hl = "length ?a + length ?b + length ?c"
  have s0: "slice_from blk (next_offset st) = Some (?a @ ?b @ ?c @ drop s k @ v @ post)"
    unfolding b no pre [symmetric] by (rule slice_from_append)
  have s1: "slice_from blk (next_offset st + length ?a) = Some (?b @ ?c @ drop s k @ v @ post)"
    unfolding b no pre [symmetric] by (rule slice_from_mid_eq [of _ "?pre @ ?a", simplified]) simp
  have s2: "slice_from blk (next_offset st + (length ?a + length ?b)) = Some (?c @ drop s k @ v @ post)"
    unfolding b no pre [symmetric] by (rule slice_from_mid_eq [of _ "?pre @ ?a @ ?b", simplified]) simp
  have "parse_entry_and_advance L blk st =
           Some ((s, length k - s, length v, ?hl),
                 st\<lparr>val_offset := entry_off L I es (Suc p) - length v, next_offset := entry_off L I es (Suc p)\<rparr>)"
    by (simp add: parse_entry_and_advance_def s0 [unfolded no] s1 [unfolded no] s2 [unfolded no] dec nx no Let_def)
  moreover have "subslice blk (entry_off L I es p + ?hl) (entry_off L I es p + ?hl + (length k - s)) = Some (drop s k)"
    unfolding b pre [symmetric]
    by (rule subslice_mid_eq [of _ "?pre @ ?a @ ?b @ ?c" _ "drop s k" "v @ post", simplified]) simp_all
  moreover have "subslice blk (entry_off L I es (Suc p) - length v) (entry_off L I es (Suc p)) = Some v"
    unfolding b nx pre [symmetric] using sk
    by (intro subslice_mid_eq [of _ "?pre @ ?a @ ?b @ ?c @ drop s k" _ v post, simplified]) simp_all
  moreover have "0 < entry_off L I es (Suc p) - length v" using one nx by linarith
  ultimately show ?thesis by blast
qed

end
