(* ===== verification/Block_Read.thy ===== *)
theory Block_Read
  imports Block_Iter
begin

text \<open>
  Correctness of the block iterator over a block in the builder's layout: it meets the
  \<open>ss_iterator\<close> contract, \<open>seek\<close> stops at the first entry whose key is at least the
  target, \<open>seek_to_last\<close> at the last entry, and none of them panics or loops.
\<close>

subsection \<open>Positions\<close>

text \<open>Ready to parse entry \<open>q\<close>: away from a restart point the key of the entry before is
  needed to complete the shared prefix.\<close>

definition bi_ready ::
  "('f, 'c) libs \<Rightarrow> nat \<Rightarrow> bytes \<Rightarrow> block_iter_state \<Rightarrow> entry list \<Rightarrow> nat \<Rightarrow> bool" where
  "bi_ready L I blk st es q \<longleftrightarrow>
     block_layout L I es blk \<and> restarts_offset st = entry_off L I es (length es) \<and>
     q \<le> length es \<and> next_offset st = entry_off L I es q \<and>
     current_restart_idx st < restart_total I (length es) \<and>
     (q mod I \<noteq> 0 \<longrightarrow> key st = fst (es ! (q - 1)))"

definition bi_pos ::
  "('f, 'c) libs \<Rightarrow> nat \<Rightarrow> bytes \<Rightarrow> block_iter_state \<Rightarrow> entry list \<Rightarrow> nat \<Rightarrow> bool" where
  "bi_pos L I blk st es p \<longleftrightarrow>
     bi_ready L I blk st es p \<and>
     (if p = 0 then key st = []
      else key st = fst (es ! (p - 1)) \<and> current_offset st = entry_off L I es (p - 1) \<and>
           val_offset st = entry_off L I es p - length (snd (es ! (p - 1))))"

definition bi_finished ::
  "('f, 'c) libs \<Rightarrow> nat \<Rightarrow> bytes \<Rightarrow> block_iter_state \<Rightarrow> entry list \<Rightarrow> bool" where
  "bi_finished L I blk st es \<longleftrightarrow>
     block_layout L I es blk \<and> restarts_offset st = entry_off L I es (length es) \<and>
     next_offset st = entry_off L I es (length es) \<and>
     current_restart_idx st < restart_total I (length es) \<and> key st = []"

lemma restart_total_pos [simp]: "0 < restart_total I n"
  by (simp add: restart_total_def)

lemma follow_restarts_ok:
  assumes "block_layout L I es blk" "restarts_offset st = entry_off L I es (length es)"
    and "current_restart_idx st < restart_total I (length es)"
  shows "\<exists>i < restart_total I (length es).
           bi_follow_restarts L blk (restart_total I (length es)) st = Some (st\<lparr>current_restart_idx := i\<rparr>)"
  using assms
proof (induction L blk "restart_total I (length es)" st rule: bi_follow_restarts.induct)
  case (1 L blk st)
  note lay = "1.prems"(1) and ro = "1.prems"(2) and idx = "1.prems"(3)
  show ?case
  proof (cases "current_restart_idx st + 1 < restart_total I (length es)")
    case False
    then show ?thesis using idx by (auto simp: bi_follow_restarts.simps [of L blk _ st])
  next
    case True
    note off = layout_restart_point [OF lay ro True]
    show ?thesis
    proof (cases "entry_off L I es ((current_restart_idx st + 1) * I) < current_offset st")
      case False
      then show ?thesis
        using True off idx
        by (auto simp: bi_follow_restarts.simps [of L blk _ st] intro!: exI [of _ "current_restart_idx st"])
    next
      case less: True
      have "\<exists>i < restart_total I (length es).
              bi_follow_restarts L blk (restart_total I (length es))
                (st\<lparr>current_restart_idx := current_restart_idx st + 1\<rparr>) =
              Some (st\<lparr>current_restart_idx := current_restart_idx st + 1\<rparr>\<lparr>current_restart_idx := i\<rparr>)"
        using True off less lay ro by (intro "1.hyps" [OF True]) simp_all
      then show ?thesis using True off less by (auto simp: bi_follow_restarts.simps [of L blk _ st])
    qed
  qed
qed

lemma shared_key:
  "take (entry_shared I es q) k @ drop (entry_shared I es q) (fst (es ! q)) = fst (es ! q)"
  if "q mod I \<noteq> 0 \<longrightarrow> k = fst (es ! (q - 1))"
  using that take_common_len [of "fst (es ! (q - 1))" "fst (es ! q)"]
  by (auto simp: entry_shared_def)

lemma ready_advance:
  assumes st: "bi_ready L I blk st es q" and q: "q < length es"
  shows "\<exists>st'. bi_advance L blk st = Some (True, st') \<and> bi_pos L I blk st' es (Suc q)"
proof -
  have lay: "block_layout L I es blk" and ro: "restarts_offset st = entry_off L I es (length es)"
    and no: "next_offset st = entry_off L I es q"
    and idx: "current_restart_idx st < restart_total I (length es)"
    and k: "q mod I \<noteq> 0 \<longrightarrow> key st = fst (es ! (q - 1))"
    using st by (auto simp: bi_ready_def)
  obtain kk v where e: "es ! q = (kk, v)" by (cases "es ! q")
  let ?s = "entry_shared I es q" and ?st1 = "st\<lparr>current_offset := next_offset st\<rparr>"
  obtain hl where hl: "parse_entry_and_advance L blk ?st1 =
      Some ((?s, length kk - ?s, length v, hl),
            ?st1\<lparr>val_offset := entry_off L I es (Suc q) - length v, next_offset := entry_off L I es (Suc q)\<rparr>)"
    and ks: "subslice blk (entry_off L I es q + hl) (entry_off L I es q + hl + (length kk - ?s)) = Some (drop ?s kk)"
    using layout_parse [OF lay q, of ?st1 kk v ?s] no e by auto
  let ?st3 = "?st1\<lparr>val_offset := entry_off L I es (Suc q) - length v,
                next_offset := entry_off L I es (Suc q), key := kk\<rparr>"
  have key: "take ?s (key st) @ drop ?s kk = kk"
    using shared_key [OF k] e by simp
  obtain i where i: "i < restart_total I (length es)"
    "bi_follow_restarts L blk (restart_total I (length es)) ?st3 = Some (?st3\<lparr>current_restart_idx := i\<rparr>)"
    using follow_restarts_ok [OF lay, of ?st3] ro idx by auto
  note f = layout_facts [OF lay]
  have more: "next_offset st < restarts_offset st"
    using entry_off_strict [OF f(2,4) q] no ro by simp
  have "bi_advance L blk st = Some (True, ?st3\<lparr>current_restart_idx := i\<rparr>)"
    using more hl ks no key i layout_restart_count(1) [OF lay]
    by (simp add: bi_advance_def assemble_key_def)
  moreover have "bi_pos L I blk (?st3\<lparr>current_restart_idx := i\<rparr>) es (Suc q)"
    using lay ro q i(1) e no by (simp add: bi_pos_def bi_ready_def)
  ultimately show ?thesis by blast
qed

lemma ready_end:
  assumes "bi_ready L I blk st es (length es)"
  shows "\<exists>st'. bi_advance L blk st = Some (False, st') \<and> bi_finished L I blk st' es"
  using assms by (auto simp: bi_ready_def bi_finished_def bi_advance_def)

lemma finished_advance:
  assumes "bi_finished L I blk st es"
  shows "\<exists>st'. bi_advance L blk st = Some (False, st') \<and> bi_finished L I blk st' es"
  using assms by (auto simp: bi_finished_def bi_advance_def)

subsection \<open>Stepping back\<close>

lemma back_restarts_ok:
  assumes lay: "block_layout L I es blk" and p: "0 < p" "p \<le> length es"
    and ro: "restarts_offset st = entry_off L I es (length es)"
    and idx: "current_restart_idx st < restart_total I (length es)"
  shows "\<exists>r. r * I < p \<and> r < restart_total I (length es) \<and>
           bi_back_restarts L blk (entry_off L I es p) st =
             Some (st\<lparr>current_restart_idx := r, next_offset := entry_off L I es (r * I)\<rparr>)"
  using ro idx
proof (induction "current_restart_idx st" arbitrary: st)
  case 0
  note f = layout_facts [OF lay]
  have "0 < entry_off L I es p"
    using entry_off_strict [OF f(2,4) p] by simp
  then show ?case
    using layout_restart_point [OF lay "0.prems"(1), of 0] p(1) "0.hyps"
    by (auto simp: bi_back_restarts.simps [of L blk _ st] intro!: exI [of _ 0])
next
  case (Suc i)
  note f = layout_facts [OF lay]
  note off = layout_restart_point [OF lay Suc.prems]
  have le: "current_restart_idx st * I \<le> length es"
    using restart_total_bound [OF f(1) Suc.prems(2)] by auto
  show ?case
  proof (cases "entry_off L I es (current_restart_idx st * I) < entry_off L I es p")
    case True
    then have "current_restart_idx st * I < p"
      using entry_off_mono [of p "current_restart_idx st * I" L I es] by (meson leD leI)
    then show ?thesis
      using True off Suc.prems(2)
      by (auto simp: bi_back_restarts.simps [of L blk _ st] intro!: exI [of _ "current_restart_idx st"])
  next
    case False
    let ?st = "st\<lparr>current_restart_idx := current_restart_idx st - 1\<rparr>"
    have "i = current_restart_idx ?st" "restarts_offset ?st = entry_off L I es (length es)"
      "current_restart_idx ?st < restart_total I (length es)"
      using Suc.hyps(2) Suc.prems by simp_all
    from Suc.hyps(1) [OF this] show ?thesis
      using False off Suc.hyps(2)
      by (auto simp: bi_back_restarts.simps [of L blk _ st] linorder_not_less)
  qed
qed

lemma advance_to_ok:
  assumes "bi_ready L I blk st es q" "q < p" "p \<le> length es"
  shows "\<exists>st'. bi_advance_to L blk (entry_off L I es p) st = Some (True, st') \<and> bi_pos L I blk st' es p"
  using assms(1,2)
proof (induction "p - q" arbitrary: st q)
  case (Suc n)
  have lay: "block_layout L I es blk" using Suc.prems by (simp add: bi_ready_def)
  note f = layout_facts [OF lay]
  obtain st1 where st1: "bi_advance L blk st = Some (True, st1)" "bi_pos L I blk st1 es (Suc q)"
    using ready_advance [OF Suc.prems(1)] Suc.prems(2) assms(3) by auto
  have no: "next_offset st1 = entry_off L I es (Suc q)" and rd: "bi_ready L I blk st1 es (Suc q)"
    using st1(2) by (auto simp: bi_pos_def bi_ready_def)
  show ?case
  proof (cases "Suc q = p")
    case True
    then show ?thesis using st1 no by (subst bi_advance_to.simps) auto
  next
    case False
    then have lt: "Suc q < p" using Suc.prems(2) by simp
    have "n = p - Suc q" using Suc.hyps(2) by simp
    from Suc.hyps(1) [OF this rd lt] show ?thesis
      using st1 no entry_off_strict [OF f(2,4) lt assms(3), of I]
      by (subst bi_advance_to.simps) auto
  qed
qed simp

lemma pos_prev:
  assumes st: "bi_pos L I blk st es (Suc p)" and p: "p < length es"
  shows "\<exists>st'. bi_prev L blk st = Some (0 < p, st') \<and> bi_pos L I blk st' es p"
proof -
  have lay: "block_layout L I es blk" and ro: "restarts_offset st = entry_off L I es (length es)"
    and co: "current_offset st = entry_off L I es p"
    and idx: "current_restart_idx st < restart_total I (length es)"
    using st by (auto simp: bi_pos_def bi_ready_def)
  note f = layout_facts [OF lay]
  show ?thesis
  proof (cases "p = 0")
    case True
    then show ?thesis
      using co lay ro by (auto simp: bi_prev_def bi_reset_def bi_pos_def bi_ready_def)
  next
    case False
    then have pos: "0 < entry_off L I es p"
      using entry_off_strict [OF f(2,4), of 0 p I] p by simp
    obtain r where r: "r * I < p" "r < restart_total I (length es)"
      "bi_back_restarts L blk (entry_off L I es p) st =
         Some (st\<lparr>current_restart_idx := r, next_offset := entry_off L I es (r * I)\<rparr>)"
      using back_restarts_ok [OF lay _ _ ro idx, of p] False p by auto
    have "bi_ready L I blk (st\<lparr>current_restart_idx := r, next_offset := entry_off L I es (r * I)\<rparr>) es (r * I)"
      using lay ro r p by (simp add: bi_ready_def)
    from advance_to_ok [OF this r(1)] show ?thesis
      using False p pos co r(3) by (auto simp: bi_prev_def)
  qed
qed

subsection \<open>The contract\<close>

lemma nth_key_nonempty: "keys_nonempty es \<Longrightarrow> p < length es \<Longrightarrow> fst (es ! p) \<noteq> []"
  by (simp add: keys_nonempty_def)

lemma pos_valid:
  assumes st: "bi_pos L I blk st es (Suc p)" and p: "p < length es" and k: "fst (es ! p) \<noteq> []"
  shows "bi_valid st" and "bi_current_v blk st = Some (Some (snd (es ! p)))"
proof -
  have lay: "block_layout L I es blk" and no: "next_offset st = entry_off L I es (Suc p)"
    and vo: "val_offset st = entry_off L I es (Suc p) - length (snd (es ! p))"
    and ro: "restarts_offset st = entry_off L I es (length es)"
    using st by (auto simp: bi_pos_def bi_ready_def)
  obtain kk v where e: "es ! p = (kk, v)" by (cases "es ! p")
  from layout_parse [OF lay p _ e refl, of "st\<lparr>next_offset := entry_off L I es p\<rparr>"]
  have "0 < val_offset st" and v: "subslice blk (val_offset st) (next_offset st) = Some v"
    using vo no e by auto
  moreover have "val_offset st \<le> restarts_offset st"
    using vo ro entry_off_mono [of "Suc p" "length es" L I es] p by simp
  ultimately show "bi_valid st"
    using st k by (simp add: bi_valid_def bi_pos_def)
  then show "bi_current_v blk st = Some (Some (snd (es ! p)))"
    using v e by (simp add: bi_current_v_def)
qed

interpretation bi: ss_iterator bi_valid "bi_advance L blk" "bi_prev L blk" bi_current_k
  "bi_current_v blk" bi_reset "bi_pos L I blk" "bi_finished L I blk" for L I blk
proof unfold_locales
  fix s es p
  assume kn: "keys_nonempty es"
  show "\<exists>s'. bi_advance L blk s = Some (True, s') \<and> bi_pos L I blk s' es (Suc p)"
    if "bi_pos L I blk s es p" "p < length es"
    using that ready_advance by (auto simp: bi_pos_def)
  show "\<exists>s'. bi_prev L blk s = Some (0 < p, s') \<and> bi_pos L I blk s' es p"
    if "bi_pos L I blk s es (Suc p)" "p < length es"
    using that by (rule pos_prev)
  show "bi_valid s \<and> bi_current_k s = Some (fst (es ! p)) \<and> bi_current_v blk s = Some (Some (snd (es ! p)))"
    if "bi_pos L I blk s es (Suc p)" "p < length es"
    using pos_valid [OF that] nth_key_nonempty [OF kn that(2)] that
    by (simp add: bi_current_k_def bi_pos_def)
  show "\<not> bi_valid s \<and> bi_current_k s = None" if "bi_pos L I blk s es 0 \<or> bi_finished L I blk s es"
    using that by (auto simp: bi_valid_def bi_current_k_def bi_pos_def bi_finished_def)
  show "bi_pos L I blk (bi_reset s) es 0" if "bi_pos L I blk s es p \<or> bi_finished L I blk s es"
    using that by (auto simp: bi_pos_def bi_ready_def bi_finished_def bi_reset_def)
next
  fix s es
  show "\<exists>s'. bi_advance L blk s = Some (False, s') \<and> bi_finished L I blk s' es"
    if "bi_pos L I blk s es (length es)"
    using that ready_end by (auto simp: bi_pos_def)
  show "\<exists>s'. bi_advance L blk s = Some (False, s') \<and> bi_finished L I blk s' es"
    if "bi_finished L I blk s es"
    using that by (rule finished_advance)
qed

lemma block_iter_start:
  assumes "block_layout L I es blk"
  shows "\<exists>st. block_iter L blk = Some st \<and> bi_pos L I blk st es 0"
  using assms layout_restart_count(2) [OF assms]
  by (simp add: block_iter_def bis_new_def bi_pos_def bi_ready_def)

subsection \<open>Seeking\<close>

lemma restart_point_ok:
  assumes lay: "block_layout L I es blk" and ro: "restarts_offset st = entry_off L I es (length es)"
    and m: "m < restart_total I (length es)" "m * I < length es" and kn: "keys_nonempty es"
  shows "\<exists>st'. seek_to_restart_point L blk st m = Some st' \<and> bi_pos L I blk st' es (Suc (m * I))"
proof -
  let ?q = "m * I" and ?off = "entry_off L I es (m * I)"
  obtain kk v where e: "es ! ?q = (kk, v)" by (cases "es ! ?q")
  have s0: "entry_shared I es ?q = 0" by (simp add: entry_shared_def)
  let ?st1 = "st\<lparr>next_offset := ?off, current_offset := ?off, current_restart_idx := m\<rparr>"
  obtain hl where hl: "parse_entry_and_advance L blk ?st1 =
      Some ((0, length kk, length v, hl),
            ?st1\<lparr>val_offset := entry_off L I es (Suc ?q) - length v, next_offset := entry_off L I es (Suc ?q)\<rparr>)"
    and ks: "subslice blk (?off + hl) (?off + hl + length kk) = Some kk"
    using layout_parse [OF lay m(2) _ e s0 [symmetric], of ?st1] by auto
  let ?st3 = "?st1\<lparr>val_offset := entry_off L I es (Suc ?q) - length v,
                next_offset := entry_off L I es (Suc ?q), key := kk\<rparr>"
  have pos: "bi_pos L I blk ?st3 es (Suc ?q)"
    using lay ro m e by (simp add: bi_pos_def bi_ready_def)
  moreover have "bi_valid ?st3"
    using pos_valid(1) [OF pos m(2)] nth_key_nonempty [OF kn m(2)] by blast
  ultimately show ?thesis
    using layout_restart_point [OF lay ro m(1)] hl ks
    by (simp add: seek_to_restart_point_def assemble_key_def)
qed

text \<open>The binary search ends at a restart point that is the first one or lies before the
  target.\<close>

lemma bisect_ok:
  assumes lay: "block_layout L I es blk" and kn: "keys_nonempty es"
    and "left \<le> right" "right < restart_total I (length es)"
    and "left = 0 \<or> fst (es ! (left * I)) < to"
    and "restarts_offset st = entry_off L I es (length es)"
  shows "\<exists>r st'. bi_bisect L blk to left right st = Some (r, r, st') \<and>
           r < restart_total I (length es) \<and> (r = 0 \<or> fst (es ! (r * I)) < to) \<and>
           restarts_offset st' = entry_off L I es (length es)"
  using assms(3-6)
proof (induction "right - left" arbitrary: left right st rule: less_induct)
  case less
  show ?case
  proof (cases "left < right")
    case False
    then have "bi_bisect L blk to left right st = Some (left, left, st)"
      using less.prems(1) by (subst bi_bisect.simps) simp
    then show ?thesis using False less.prems by auto
  next
    case True
    let ?m = "(left + right + 1) div 2"
    have m: "left < ?m" "?m \<le> right" using True by simp_all
    have mI: "?m * I < length es"
      using restart_total_bound [OF layout_facts(1) [OF lay], of ?m "length es"] m less.prems(2) by auto
    obtain st' where st': "seek_to_restart_point L blk st ?m = Some st'" "bi_pos L I blk st' es (Suc (?m * I))"
      using restart_point_ok [OF lay less.prems(4) _ mI kn] m less.prems(2) by auto
    have k: "key st' = fst (es ! (?m * I))" and ro: "restarts_offset st' = entry_off L I es (length es)"
      using st'(2) by (auto simp: bi_pos_def bi_ready_def)
    show ?thesis
    proof (cases "key st' < to")
      case lt: True
      have "\<exists>r st''. bi_bisect L blk to ?m right st' = Some (r, r, st'') \<and>
           r < restart_total I (length es) \<and> (r = 0 \<or> fst (es ! (r * I)) < to) \<and>
           restarts_offset st'' = entry_off L I es (length es)"
        using m k lt ro less.prems(2) by (intro less.hyps) auto
      then show ?thesis using True lt st'(1) by (simp add: bi_bisect.simps [of L blk to left] Let_def)
    next
      case ge: False
      have "\<exists>r st''. bi_bisect L blk to left (?m - 1) st' = Some (r, r, st'') \<and>
           r < restart_total I (length es) \<and> (r = 0 \<or> fst (es ! (r * I)) < to) \<and>
           restarts_offset st'' = entry_off L I es (length es)"
        using m ro less.prems(2,3) by (intro less.hyps) auto
      then show ?thesis using True ge st'(1) by (simp add: bi_bisect.simps [of L blk to left] Let_def)
    qed
  qed
qed

definition first_ge :: "entry list \<Rightarrow> bytes \<Rightarrow> nat" where
  "first_ge es to = length (takeWhile (\<lambda>e. fst e < to) es)"

lemma first_ge_eq:
  assumes "\<And>j. j < q \<Longrightarrow> fst (es ! j) < to" "q \<le> length es" "q < length es \<Longrightarrow> to \<le> fst (es ! q)"
  shows "first_ge es to = q"
proof -
  have "takeWhile (\<lambda>e. fst e < to) es = take q es"
    using assms by (intro takeWhile_eq_take_P_nth) (auto simp: leD)
  then show ?thesis using assms(2) by (simp add: first_ge_def)
qed

lemma find_first_ge:
  "find (\<lambda>e. to \<le> fst e) es = (if first_ge es to < length es then Some (es ! first_ge es to) else None)"
  by (induction es) (auto simp: first_ge_def)

lemma scan_ok:
  assumes "bi_ready L I blk st es q" "\<And>j. j < q \<Longrightarrow> fst (es ! j) < to"
  shows "\<exists>st'. bi_scan L blk to st = Some st' \<and>
           (if first_ge es to < length es then bi_pos L I blk st' es (Suc (first_ge es to))
            else bi_finished L I blk st' es)"
  using assms
proof (induction "length es - q" arbitrary: st q)
  case 0
  then have q: "q = length es" by (simp add: bi_ready_def)
  then have "first_ge es to = length es" using "0.prems"(2) by (intro first_ge_eq) auto
  then show ?case
    using ready_end [of L I blk st es] "0.prems"(1) q by (subst bi_scan.simps) auto
next
  case (Suc n)
  then have q: "q < length es" by simp
  obtain st1 where st1: "bi_advance L blk st = Some (True, st1)" "bi_pos L I blk st1 es (Suc q)"
    using ready_advance [OF Suc.prems(1) q] by blast
  have k: "key st1 = fst (es ! q)" and rd: "bi_ready L I blk st1 es (Suc q)"
    using st1(2) by (auto simp: bi_pos_def)
  show ?case
  proof (cases "to \<le> fst (es ! q)")
    case True
    then have "first_ge es to = q" using Suc.prems(2) q by (intro first_ge_eq) auto
    then show ?thesis using True st1 k q by (subst bi_scan.simps) simp
  next
    case False
    then have before: "fst (es ! j) < to" if "j < Suc q" for j
      using that Suc.prems(2) by (auto simp: less_Suc_eq)
    have "n = length es - Suc q" using Suc.hyps(2) by simp
    from Suc.hyps(1) [OF this rd before] False show ?thesis
      using st1 k by (subst bi_scan.simps) simp
  qed
qed

lemma seek_ok:
  assumes lay: "block_layout L I es blk" and kn: "keys_nonempty es" and so: "sorted (map fst es)"
    and ro: "restarts_offset st = entry_off L I es (length es)"
  shows "\<exists>st'. bi_seek L blk st to = Some st' \<and>
           (if first_ge es to < length es then bi_pos L I blk st' es (Suc (first_ge es to))
            else bi_finished L I blk st' es)"
proof -
  let ?nr = "restart_total I (length es)"
  obtain r st1 where r: "bi_bisect L blk to 0 (?nr - 1) (bi_reset st) = Some (r, r, st1)"
      "r < ?nr" "r = 0 \<or> fst (es ! (r * I)) < to" "restarts_offset st1 = entry_off L I es (length es)"
    using bisect_ok [OF lay kn, of 0 "?nr - 1" to "bi_reset st"] ro by (auto simp: bi_reset_def)
  let ?st2 = "st1\<lparr>current_restart_idx := r, next_offset := entry_off L I es (r * I)\<rparr>"
  have le: "r * I \<le> length es"
    using restart_total_bound [OF layout_facts(1) [OF lay] r(2)] by auto
  then have rd: "bi_ready L I blk ?st2 es (r * I)"
    using lay r(2,4) by (simp add: bi_ready_def)
  have before: "fst (es ! j) < to" if "j < r * I" for j
  proof -
    have "0 < r" using that by (cases r) auto
    then have rI: "fst (es ! (r * I)) < to" "r * I < length es"
      using r(3) restart_total_bound [OF layout_facts(1) [OF lay] r(2)] by auto
    have "fst (es ! j) \<le> fst (es ! (r * I))"
      using sorted_nth_mono [OF so, of j "r * I"] that rI(2) by simp
    with rI(1) show ?thesis by simp
  qed
  from scan_ok [OF rd before] show ?thesis
    using r layout_restart_count(1) [OF lay]
      layout_restart_point [OF lay _ r(2), of "st1\<lparr>current_restart_idx := r\<rparr>"]
    by (simp add: bi_seek_def Let_def)
qed

lemma run_to_end_ok:
  assumes "bi_pos L I blk st es (Suc q)" "q < length es"
  shows "\<exists>st'. bi_run_to_end L blk st = Some st' \<and> bi_pos L I blk st' es (length es)"
  using assms
proof (induction "length es - q" arbitrary: st q)
  case (Suc n)
  have lay: "block_layout L I es blk" and no: "next_offset st = entry_off L I es (Suc q)"
    and ro: "restarts_offset st = entry_off L I es (length es)" and rd: "bi_ready L I blk st es (Suc q)"
    using Suc.prems(1) by (auto simp: bi_pos_def bi_ready_def)
  note f = layout_facts [OF lay]
  show ?case
  proof (cases "Suc q = length es")
    case True
    then show ?thesis using no ro Suc.prems(1) by (subst bi_run_to_end.simps) simp
  next
    case False
    then have lt: "Suc q < length es" using Suc.prems(2) by simp
    then obtain st1 where st1: "bi_advance L blk st = Some (True, st1)" "bi_pos L I blk st1 es (Suc (Suc q))"
      using ready_advance [OF rd] by blast
    have "n = length es - Suc q" using Suc.hyps(2) by simp
    from Suc.hyps(1) [OF this st1(2) lt] show ?thesis
      using st1(1) no ro entry_off_strict [OF f(2,4) lt, of I] by (subst bi_run_to_end.simps) simp
  qed
qed simp

lemma seek_to_last_ok:
  assumes lay: "block_layout L I es blk" and kn: "keys_nonempty es" and ne: "es \<noteq> []"
    and ro: "restarts_offset st = entry_off L I es (length es)"
  shows "\<exists>st'. bi_seek_to_last L blk st = Some st' \<and> bi_pos L I blk st' es (length es)"
proof -
  let ?m = "restart_total I (length es) - 1"
  have m: "?m < restart_total I (length es)" by (simp add: restart_total_def)
  have mI: "?m * I < length es"
    using restart_total_bound [OF layout_facts(1) [OF lay] m] ne by auto
  obtain st1 where st1: "seek_to_restart_point L blk st ?m = Some st1" "bi_pos L I blk st1 es (Suc (?m * I))"
    using restart_point_ok [OF lay ro m mI kn] by blast
  obtain st2 where st2: "bi_run_to_end L blk st1 = Some st2" "bi_pos L I blk st2 es (length es)"
    using run_to_end_ok [OF st1(2) mI] by blast
  have "bi_pos L I blk st2 es (Suc (length es - 1))" "length es - 1 < length es"
    using st2(2) ne by simp_all
  from pos_valid(1) [OF this] have "bi_valid st2"
    using nth_key_nonempty [OF kn] ne by simp
  then show ?thesis
    using st1(1) st2 layout_restart_count(1) [OF lay] by (simp add: bi_seek_to_last_def)
qed

end
