(* ===== verification/Block_Props.thy ===== *)
theory Block_Props
  imports Block_Read
begin

text \<open>
  The properties of the separator keys, the footer and the data block, with concrete
  instances.
\<close>

definition demo_opt :: options where
  "demo_opt = \<lparr>block_size = 20, block_restart_interval = 2, compress_type = CSnappy\<rparr>"

definition demo_entries :: "entry list" where
  "demo_entries = [([97], [1]), ([97, 98], [2, 2]), ([97, 99, 1], []), ([98], [3])]"

lemma demo_entries_ok:
  "entries_ok demo_entries" "keys_nonempty demo_entries" "sorted (map fst demo_entries)"
  by (simp_all add: entries_ok_def keys_nonempty_def demo_entries_def)

lemma demo_builder_eq:
  "\<exists>b. bb_add_all demo_libs (bb_new demo_opt) demo_entries = Some b \<and> length (buffer b) = 22"
  by (simp add: demo_entries_def demo_opt_def bb_new_def bb_new_with_buffer_def bb_add_def
      demo_libs_def entry_bytes_def leb_enc.simps resize_def Let_def)

lemma demo_flush_ok: "\<exists>w h b'. bb_flush demo_libs b [] (length ([] :: bytes)) = Inr (w, h, b')"
  by (simp add: bb_flush_def demo_libs_def Let_def)

subsection \<open>Blocks\<close>

text \<open>C30: round trip of a data block.  Entries with non-empty keys, added in key order, then
  flushed at the end of a file and read back from the returned handle, come out of the block
  iterator exactly as they went in: the checksum verifies, the iterator neither panics nor
  loops, and it stops after the last entry.\<close>

theorem block_roundtrip:
  assumes "varint_ok L" "fixed_ok L" "snappy_ok L"
    and "0 < block_restart_interval opt" "entries_ok es" "keys_nonempty es" "sorted (map fst es)"
    and "bb_add_all L (bb_new opt) es = Some b" "length (buffer b) < u32_bound"
    and "bb_flush L b w (length w) = Inr (w', h, b')"
  shows "\<exists>blk off st st'.
           block_new_from_location L (buffer_read_at (w' @ post)) h opt = Some (Inr (blk, off)) \<and>
           block_iter L (blk_data blk) = Some st \<and>
           ss_drain (bi_advance L (blk_data blk))
             (ss_current_kv bi_valid bi_current_k (bi_current_v (blk_data blk))) st [] = Some (es, st')"
proof -
  have "bb_inv L (block_restart_interval opt) es b"
    using bb_add_all_inv [OF assms(4) bb_inv_new, of es L] assms(7,8) by simp
  then have lay: "block_layout L (block_restart_interval opt) es (bb_finish L b)"
    using assms by (intro bb_finish_layout) auto
  obtain st where st: "block_iter L (bb_finish L b) = Some st"
      "bi_pos L (block_restart_interval opt) (bb_finish L b) st es 0"
    using block_iter_start [OF lay] by blast
  show ?thesis
    using bb_flush_read [OF assms(2,3,10)] st(1) bi.drain_from [OF st(2) assms(6), of "[]"]
    by (fastforce simp: block_new_with_buffer_def)
qed

theorem block_roundtrip_witness:
  "\<exists>b w' h b'. bb_add_all demo_libs (bb_new demo_opt) demo_entries = Some b \<and>
     bb_flush demo_libs b [] (length ([] :: bytes)) = Inr (w', h, b') \<and>
     (\<exists>blk off st st'.
        block_new_from_location demo_libs (buffer_read_at (w' @ [7])) h demo_opt = Some (Inr (blk, off)) \<and>
        block_iter demo_libs (blk_data blk) = Some st \<and>
        ss_drain (bi_advance demo_libs (blk_data blk))
          (ss_current_kv bi_valid bi_current_k (bi_current_v (blk_data blk))) st [] =
          Some (demo_entries, st'))"
proof -
  obtain b where b: "bb_add_all demo_libs (bb_new demo_opt) demo_entries = Some b" "length (buffer b) = 22"
    using demo_builder_eq by blast
  have small: "length (buffer b) < u32_bound" using b(2) by simp
  obtain w' h b' where f: "bb_flush demo_libs b [] (length ([] :: bytes)) = Inr (w', h, b')"
    using demo_flush_ok by blast
  show ?thesis
    using block_roundtrip [OF demo_varint_ok demo_fixed_ok demo_snappy_ok _ demo_entries_ok b(1) small f,
        of "[7]"] b(1) f
    by (auto simp: demo_opt_def)
qed

text \<open>C31: seeking in a data block.  Over the bytes of a finished block of sorted entries, from
  any iterator state on that block, \<open>seek\<close> ends on the first entry whose key is at least the
  target, and on no entry when there is none; the binary search over the restart points never
  panics.\<close>

theorem block_seek_first_ge:
  assumes "block_layout L I es blk" "keys_nonempty es" "sorted (map fst es)"
    and "restarts_offset_of L blk = Some (restarts_offset st)"
  shows "\<exists>st'. bi_seek L blk st to = Some st' \<and>
           ss_current_kv bi_valid bi_current_k (bi_current_v blk) st' =
             Some (find (\<lambda>e. to \<le> fst e) es)"
proof -
  have "restarts_offset st = entry_off L I es (length es)"
    using assms(4) layout_restart_count(2) [OF assms(1)] by simp
  from seek_ok [OF assms(1-3) this] obtain st' where st': "bi_seek L blk st to = Some st'"
    "if first_ge es to < length es then bi_pos L I blk st' es (Suc (first_ge es to))
     else bi_finished L I blk st' es" by blast
  have "ss_current_kv bi_valid bi_current_k (bi_current_v blk) st' =
          Some (if first_ge es to < length es then Some (es ! first_ge es to) else None)"
  proof (cases "first_ge es to < length es")
    case True
    then show ?thesis using st'(2) bi.current_kv_at [OF _ assms(2) True] by simp
  next
    case False
    then have "bi_pos L I blk st' es 0 \<or> bi_finished L I blk st' es" using st'(2) by simp
    then show ?thesis using False bi.current_kv_none [OF _ assms(2)] by simp
  qed
  then show ?thesis using st'(1) by (simp add: find_first_ge)
qed

theorem block_seek_first_ge_witness:
  "\<exists>blk st'. block_layout demo_libs 2 demo_entries blk \<and>
     bi_seek demo_libs blk (bis_new 22) [97, 99] = Some st' \<and>
     ss_current_kv bi_valid bi_current_k (bi_current_v blk) st' = Some (Some ([97, 99, 1], []))"
proof -
  obtain b where b: "bb_add_all demo_libs (bb_new demo_opt) demo_entries = Some b" "length (buffer b) = 22"
    using demo_builder_eq by blast
  have I: "0 < block_restart_interval demo_opt" "block_restart_interval demo_opt = 2"
    by (simp_all add: demo_opt_def)
  have inv: "bb_inv demo_libs 2 demo_entries b"
    using bb_add_all_inv [OF I(1) bb_inv_new, of demo_entries demo_libs] b(1) demo_entries_ok(3)
    by (simp add: I(2))
  have lay: "block_layout demo_libs 2 demo_entries (bb_finish demo_libs b)"
    using b(2) by (intro bb_finish_layout demo_ok demo_entries_ok inv) simp_all
  have ro: "restarts_offset_of demo_libs (bb_finish demo_libs b) = Some (restarts_offset (bis_new 22))"
    using layout_restart_count(2) [OF lay] inv b(2) by (simp add: bis_new_def bb_inv_def entry_off_def)
  have "find (\<lambda>e. [97, 99] \<le> fst e) demo_entries = Some ([97, 99, 1], [])"
    by (simp add: demo_entries_def)
  then show ?thesis
    using block_seek_first_ge [OF lay demo_entries_ok(2,3) ro, of "[97, 99]"] lay by auto
qed

text \<open>C40: Stepping back undoes stepping forward.  After a successful \<open>advance\<close> of the block
  iterator, \<open>prev\<close> succeeds, returns whether an entry precedes, and the iterator then yields
  the same remaining entries as before the \<open>advance\<close>.\<close>

theorem block_prev_undoes_advance:
  assumes "bi_pos L I blk st es p" "keys_nonempty es" "p < length es"
  shows "\<exists>st1 st2 st'. bi_advance L blk st = Some (True, st1) \<and>
           bi_prev L blk st1 = Some (0 < p, st2) \<and>
           ss_drain (bi_advance L blk) (ss_current_kv bi_valid bi_current_k (bi_current_v blk)) st2 [] =
             Some (drop p es, st')"
proof -
  obtain st1 st2 where s: "bi_advance L blk st = Some (True, st1)" "bi_prev L blk st1 = Some (0 < p, st2)"
      "bi_pos L I blk st2 es p"
    using bi.advance_prev [OF assms] by blast
  then show ?thesis using bi.drain_from [OF s(3) assms(2), of "[]"] assms(3) by auto
qed

theorem block_prev_undoes_advance_witness:
  "\<exists>blk st st1 st2 st'. block_iter demo_libs blk = Some st \<and>
     bi_advance demo_libs blk st = Some (True, st1) \<and> bi_prev demo_libs blk st1 = Some (False, st2) \<and>
     ss_drain (bi_advance demo_libs blk) (ss_current_kv bi_valid bi_current_k (bi_current_v blk)) st2 [] =
       Some (demo_entries, st')"
proof -
  obtain b where b: "bb_add_all demo_libs (bb_new demo_opt) demo_entries = Some b" "length (buffer b) = 22"
    using demo_builder_eq by blast
  have I: "0 < block_restart_interval demo_opt" by (simp add: demo_opt_def)
  have inv: "bb_inv demo_libs (block_restart_interval demo_opt) demo_entries b"
    using bb_add_all_inv [OF I bb_inv_new, of demo_entries demo_libs] b(1) demo_entries_ok(3) by simp
  let ?blk = "bb_finish demo_libs b"
  have lay: "block_layout demo_libs (block_restart_interval demo_opt) demo_entries ?blk"
    using b(2) I by (intro bb_finish_layout demo_ok demo_entries_ok inv) simp_all
  obtain st where st: "block_iter demo_libs ?blk = Some st"
      "bi_pos demo_libs (block_restart_interval demo_opt) ?blk st demo_entries 0"
    using block_iter_start [OF lay] by blast
  have "0 < length demo_entries" by (simp add: demo_entries_def)
  from block_prev_undoes_advance [OF st(2) demo_entries_ok(2) this]
  obtain st1 st2 st' where s: "bi_advance demo_libs ?blk st = Some (True, st1)"
      "bi_prev demo_libs ?blk st1 = Some (0 < (0 :: nat), st2)"
      "ss_drain (bi_advance demo_libs ?blk) (ss_current_kv bi_valid bi_current_k (bi_current_v ?blk)) st2 [] =
         Some (drop 0 demo_entries, st')"
    by blast
  have p: "bi_prev demo_libs ?blk st1 = Some (False, st2)" using s(2) by simp
  have d: "ss_drain (bi_advance demo_libs ?blk) (ss_current_kv bi_valid bi_current_k (bi_current_v ?blk)) st2 [] =
         Some (demo_entries, st')" using s(3) by simp
  show ?thesis using st(1) s(1) p d by blast
qed

subsection \<open>The footer and the separators\<close>

text \<open>round trip of the footer.  Whatever was written before it, a footer of two handles
  that fit \<open>usize\<close> is written in exactly \<open>FULL_FOOTER_LENGTH\<close> bytes at the end of the file
  and reads back from there as the same two handles.\<close>

theorem footer_roundtrip:
  assumes "varint_ok L" "footer_wf f"
  shows "\<exists>w' h. footer_flush L f w off = Some (w', h) \<and>
           length w' = length w + FULL_FOOTER_LENGTH \<and>
           footer_read L (buffer_read_at w') (length w' - FULL_FOOTER_LENGTH) = Some (Inr f)"
proof -
  have f: "footer_flush L f w off = Some (w @ footer_bytes L f, bh off (length (footer_bytes L f)))"
    by (simp add: footer_flush_def footer_encode_bytes [OF assms])
  show ?thesis
    using footer_read_flushed(1,2) [OF assms f] f by simp
qed

theorem footer_roundtrip_witness:
  "\<exists>w' h. footer_flush demo_libs \<lparr>meta_index = bh 0 10, footer_index = bh 11 300\<rparr> [9] 1 = Some (w', h) \<and>
     footer_read demo_libs (buffer_read_at w') (length w' - FULL_FOOTER_LENGTH) =
       Some (Inr \<lparr>meta_index = bh 0 10, footer_index = bh 11 300\<rparr>)"
proof -
  have "footer_wf \<lparr>meta_index = bh 0 10, footer_index = bh 11 300\<rparr>"
    by (simp add: footer_wf_def bh_wf_def bh_def)
  from footer_roundtrip [OF demo_varint_ok this, of "[9]" 1] show ?thesis by blast
qed

text \<open>the separator key.  For \<open>a < b\<close> the separator lies above \<open>a\<close> and does not exceed
  \<open>b\<close>; it equals \<open>b\<close> in exactly one case, when \<open>b\<close> is \<open>a\<close> followed by a zero byte, and is
  strictly below \<open>b\<close> otherwise.\<close>

theorem find_shortest_sep_separates:
  assumes "a < b"
  shows "a < find_shortest_sep a b \<and> find_shortest_sep a b \<le> b \<and>
         (find_shortest_sep a b = b \<longleftrightarrow> b = a @ [0])"
  using find_shortest_sep_between [OF assms] find_shortest_sep_eq_right [OF assms] by blast

theorem find_shortest_sep_separates_witness:
  "[97, 98, 99] < find_shortest_sep [97, 98, 99] [97, 98, 101] \<and>
   find_shortest_sep [97, 98, 99] [97, 98, 101] < [97, 98, 101]"
proof -
  have "([97, 98, 99] :: bytes) < [97, 98, 101]" by simp
  from find_shortest_sep_separates [OF this] show ?thesis by (auto simp: order.order_iff_strict)
qed

text \<open>The checksum mask is inverted by unmasking, for every 32-bit checksum.\<close>

theorem crc_mask_roundtrip: "unmask_crc (mask_crc c) = c"
  by (rule unmask_mask)

end
