(* ===== verification/SkipList.thy ===== *)
theory SkipList
  imports Prelude "HOL-Library.Stream"
begin

text \<open>
  The \<open>skip-list\<close> crate.  The nodes live in an explicit store: an address is an index into
  the store, a freed node is \<open>None\<close>, a null pointer is \<open>None\<close> of type \<open>nat option\<close>.  An
  operation is partial: \<open>None\<close> stands for a dereference of a null, dangling or uninitialised
  pointer, an unchecked access out of bounds, the drop of an uninitialised field, or a walk that
  does not end.
\<close>

subsection \<open>Nodes and the store (\<open>node.rs\<close>, \<open>util.rs\<close>)\<close>

text \<open>The dummy head has an uninitialised key and value (\<open>None\<close>).\<close>

record ('k, 'v) node =
  nexts :: "nat option list"
  nkey :: "'k option"
  nvalue :: "'v option"

type_synonym ('k, 'v) store = "('k, 'v) node option list"

definition deref :: "('k, 'v) store \<Rightarrow> nat \<Rightarrow> ('k, 'v) node option" where
  "deref h a = (if a < length h then h ! a else None)"

definition allocate ::
  "('k, 'v) store \<Rightarrow> 'k option \<Rightarrow> 'v option \<Rightarrow> nat \<Rightarrow> nat \<times> ('k, 'v) store" where
  "allocate h k v height =
     (length h, h @ [Some \<lparr>nexts = replicate (height + 1) None, nkey = k, nvalue = v\<rparr>])"

definition allocate_dummy :: "('k, 'v) store \<Rightarrow> nat \<Rightarrow> nat \<times> ('k, 'v) store" where
  "allocate_dummy h max_height = allocate h None None max_height"

definition node_height :: "('k, 'v) node \<Rightarrow> nat" where
  "node_height n = length (nexts n) - 1"

text \<open>Whether the types of the keys and of the values have drop glue (\<open>mem::needs_drop\<close>).\<close>

record glue =
  key_glue :: bool
  value_glue :: bool

text \<open>Dropping a field runs the glue of its type, which reads the field: an uninitialised one must
  not be dropped.\<close>

definition drop_ok :: "bool \<Rightarrow> 'a option \<Rightarrow> bool" where
  "drop_ok needs_drop x \<longleftrightarrow> (needs_drop \<longrightarrow> x \<noteq> None)"

text \<open>The box that \<open>from_raw\<close> makes of the pointer is dropped at once, and with it the fields of
  the node.\<close>

definition free :: "glue \<Rightarrow> ('k, 'v) store \<Rightarrow> nat \<Rightarrow> ('k, 'v) store option" where
  "free G h a = do {
     n \<leftarrow> deref h a;
     if drop_ok (key_glue G) (nkey n) \<and> drop_ok (value_glue G) (nvalue n) then Some (h[a := None]) else None
   }"

definition replace_value ::
  "('k, 'v) store \<Rightarrow> nat \<Rightarrow> 'v option \<Rightarrow> ('v \<times> ('k, 'v) store) option" where
  "replace_value h a v = do {
     n \<leftarrow> deref h a;
     old \<leftarrow> nvalue n;
     Some (old, h[a := Some (n\<lparr>nvalue := v\<rparr>)])
   }"

text \<open>\<open>next\<close> and \<open>next_mut\<close> check the level against the node's height.\<close>

definition node_next :: "('k, 'v) node \<Rightarrow> nat \<Rightarrow> nat option" where
  "node_next n i = (if i < length (nexts n) then nexts n ! i else None)"

subsection \<open>Heights (\<open>height_generator.rs\<close>)\<close>

text \<open>The random generator is a stream of the values \<open>gen_range(0, 2)\<close> returns.  Each round
  draws before it looks at the bound.\<close>

function gen_height_loop :: "nat stream \<Rightarrow> nat \<Rightarrow> nat \<Rightarrow> nat \<times> nat stream" where
  "gen_height_loop rng l max_height =
     (if shd rng > 0 \<and> l < max_height then gen_height_loop (stl rng) (l + 1) max_height
      else (l, stl rng))"
  by pat_completeness auto
termination
  by (relation "measure (\<lambda>(rng, l, m). m - l)") auto

declare gen_height_loop.simps [simp del]

definition gen_height :: "nat stream \<Rightarrow> nat \<Rightarrow> nat \<times> nat stream" where
  "gen_height rng max_height = gen_height_loop rng 0 max_height"

subsection \<open>The list (\<open>list.rs\<close>)\<close>

text \<open>\<open>'g\<close> is the boxed height generator; the operations that draw a height take its
  \<open>gen_height\<close> method.\<close>

record ('k, 'v, 'g) skiplist =
  store :: "('k, 'v) store"
  head :: nat
  slen :: nat
  height :: nat
  max_height :: nat
  generator :: 'g

definition sl_new_with_height_generator :: "nat \<Rightarrow> 'g \<Rightarrow> ('k, 'v, 'g) skiplist" where
  "sl_new_with_height_generator mh g =
     (let (hd, h) = allocate_dummy [] mh
      in \<lparr>store = h, head = hd, slen = 0, height = 0, max_height = mh, generator = g\<rparr>)"

definition sl_new :: "nat \<Rightarrow> nat stream \<Rightarrow> ('k, 'v, nat stream) skiplist" where
  "sl_new mh rng = sl_new_with_height_generator mh rng"

text \<open>The inner loop of a search: move right on level \<open>i\<close> while the next key is smaller.\<close>

partial_function (option) sl_walk ::
  "('k :: linorder, 'v) store \<Rightarrow> 'k \<Rightarrow> nat \<Rightarrow> nat \<Rightarrow> nat option" where
  "sl_walk h k i cur =
     Option.bind (deref h cur) (\<lambda>n.
       case node_next n i of
         None \<Rightarrow> Some cur
       | Some nx \<Rightarrow> Option.bind (deref h nx) (\<lambda>m. Option.bind (nkey m) (\<lambda>k'.
           if k' < k then sl_walk h k i nx else Some cur)))"

text \<open>The outer loop \<open>for i in (0..=height).rev()\<close>.\<close>

fun sl_lower_bound_from ::
  "('k :: linorder, 'v) store \<Rightarrow> 'k \<Rightarrow> nat \<Rightarrow> nat \<Rightarrow> nat option" where
  "sl_lower_bound_from h k 0 cur = sl_walk h k 0 cur"
| "sl_lower_bound_from h k (Suc i) cur =
     Option.bind (sl_walk h k (Suc i) cur) (sl_lower_bound_from h k i)"

definition get_lower_bound :: "('k :: linorder, 'v, 'g) skiplist \<Rightarrow> 'k \<Rightarrow> nat option" where
  "get_lower_bound sl k = sl_lower_bound_from (store sl) k (height sl) (head sl)"

text \<open>The same walk, recording in \<open>updates\<close> where it left each level.\<close>

fun sl_updates_from ::
  "('k :: linorder, 'v) store \<Rightarrow> 'k \<Rightarrow> nat \<Rightarrow> nat \<Rightarrow> nat option list \<Rightarrow> (nat \<times> nat option list) option"
  where
  "sl_updates_from h k 0 cur ups =
     Option.bind (sl_walk h k 0 cur) (\<lambda>c. if 0 < length ups then Some (c, ups[0 := Some c]) else None)"
| "sl_updates_from h k (Suc i) cur ups =
     Option.bind (sl_walk h k (Suc i) cur) (\<lambda>c.
       if Suc i < length ups then sl_updates_from h k i c (ups[Suc i := Some c]) else None)"

text \<open>The vector is allocated uninitialised; the levels above the list's height get the
  head.\<close>

definition get_lower_bound_and_updates ::
  "('k :: linorder, 'v, 'g) skiplist \<Rightarrow> 'k \<Rightarrow> (nat \<times> nat option list) option" where
  "get_lower_bound_and_updates sl k =
     (let ups0 = map (\<lambda>i. if height sl + 1 \<le> i then Some (head sl) else None) [0..<max_height sl + 1]
      in sl_updates_from (store sl) k (height sl) (head sl) ups0)"

text \<open>The node after the lower bound, if its key is the one looked for.\<close>

definition sl_match :: "('k :: linorder, 'v) store \<Rightarrow> 'k \<Rightarrow> nat \<Rightarrow> nat option option" where
  "sl_match h k lower = do {
     n \<leftarrow> deref h lower;
     case node_next n 0 of
       None \<Rightarrow> Some None
     | Some nx \<Rightarrow> do {
         m \<leftarrow> deref h nx;
         k' \<leftarrow> nkey m;
         Some (if k' = k then Some nx else None)
       }
   }"

definition sl_get :: "('k :: linorder, 'v, 'g) skiplist \<Rightarrow> 'k \<Rightarrow> 'v option option" where
  "sl_get sl k = do {
     lower \<leftarrow> get_lower_bound sl k;
     r \<leftarrow> sl_match (store sl) k lower;
     case r of
       None \<Rightarrow> Some None
     | Some nx \<Rightarrow> do { m \<leftarrow> deref (store sl) nx; v \<leftarrow> nvalue m; Some (Some v) }
   }"

text \<open>One round of the linking loop: both accesses to \<open>nexts\<close> are unchecked in the source, so
  out of range is \<open>None\<close>.\<close>

definition sl_link_level ::
  "nat option list \<Rightarrow> nat \<Rightarrow> nat \<Rightarrow> ('k, 'v) store \<Rightarrow> ('k, 'v) store option" where
  "sl_link_level ups p i h = do {
     slot \<leftarrow> idx ups i;
     u \<leftarrow> slot;
     np \<leftarrow> deref h p;
     nu \<leftarrow> deref h u;
     nx \<leftarrow> idx (nexts nu) i;
     if i < length (nexts np) then do {
       let h1 = h[p := Some (np\<lparr>nexts := (nexts np)[i := nx]\<rparr>)];
       nu1 \<leftarrow> deref h1 u;
       Some (h1[u := Some (nu1\<lparr>nexts := (nexts nu1)[i := Some p]\<rparr>)])
     } else None
   }"

fun sl_link :: "nat option list \<Rightarrow> nat \<Rightarrow> nat list \<Rightarrow> ('k, 'v) store \<Rightarrow> ('k, 'v) store option" where
  "sl_link ups p [] h = Some h"
| "sl_link ups p (i # is) h = Option.bind (sl_link_level ups p i h) (sl_link ups p is)"

definition sl_insert ::
  "('g \<Rightarrow> nat \<Rightarrow> nat \<times> 'g) \<Rightarrow> ('k :: linorder, 'v, 'g) skiplist \<Rightarrow> 'k \<Rightarrow> 'v \<Rightarrow>
   ('v option \<times> ('k, 'v, 'g) skiplist) option" where
  "sl_insert gh sl k v = do {
     let (ht, g) = gh (generator sl) (max_height sl);
     let sl = sl\<lparr>generator := g\<rparr>;
     (lower, ups) \<leftarrow> get_lower_bound_and_updates sl k;
     r \<leftarrow> sl_match (store sl) k lower;
     case r of
       Some nx \<Rightarrow> do {
         (old, h) \<leftarrow> replace_value (store sl) nx (Some v);
         Some (Some old, sl\<lparr>store := h\<rparr>)
       }
     | None \<Rightarrow> do {
         let (p, h1) = allocate (store sl) (Some k) (Some v) ht;
         h2 \<leftarrow> sl_link ups p [0..<ht + 1] h1;
         Some (None, sl\<lparr>store := h2, height := max (height sl) ht, slen := slen sl + 1\<rparr>)
       }
   }"

definition sl_unlink_level ::
  "nat option list \<Rightarrow> nat \<Rightarrow> nat \<Rightarrow> ('k, 'v) store \<Rightarrow> ('k, 'v) store option" where
  "sl_unlink_level ups p i h = do {
     slot \<leftarrow> idx ups i;
     u \<leftarrow> slot;
     np \<leftarrow> deref h p;
     nx \<leftarrow> idx (nexts np) i;
     nu \<leftarrow> deref h u;
     if i < length (nexts nu)
     then Some (h[u := Some (nu\<lparr>nexts := (nexts nu)[i := nx]\<rparr>)]) else None
   }"

fun sl_unlink :: "nat option list \<Rightarrow> nat \<Rightarrow> nat list \<Rightarrow> ('k, 'v) store \<Rightarrow> ('k, 'v) store option" where
  "sl_unlink ups p [] h = Some h"
| "sl_unlink ups p (i # is) h = Option.bind (sl_unlink_level ups p i h) (sl_unlink ups p is)"

text \<open>The value is moved out by putting an uninitialised one in its place, which is still there
  when the node is freed.\<close>

definition sl_remove ::
  "glue \<Rightarrow> ('k :: linorder, 'v, 'g) skiplist \<Rightarrow> 'k \<Rightarrow> ('v option \<times> ('k, 'v, 'g) skiplist) option" where
  "sl_remove G sl k = do {
     (lower, ups) \<leftarrow> get_lower_bound_and_updates sl k;
     r \<leftarrow> sl_match (store sl) k lower;
     case r of
       None \<Rightarrow> Some (None, sl)
     | Some nx \<Rightarrow> do {
         m \<leftarrow> deref (store sl) nx;
         h1 \<leftarrow> sl_unlink ups nx [0..<node_height m + 1] (store sl);
         (old, h2) \<leftarrow> replace_value h1 nx None;
         h3 \<leftarrow> free G h2 nx;
         Some (Some old, sl\<lparr>store := h3, slen := slen sl - 1\<rparr>)
       }
   }"

subsection \<open>Iteration (\<open>iter.rs\<close>), clearing and cloning\<close>

definition sl_iter_next ::
  "('k, 'v) store \<Rightarrow> nat option \<Rightarrow> (('k \<times> 'v) option \<times> nat option) option" where
  "sl_iter_next h cur =
     (case cur of
        None \<Rightarrow> Some (None, None)
      | Some a \<Rightarrow> do {
          n \<leftarrow> deref h a;
          case node_next n 0 of
            None \<Rightarrow> Some (None, None)
          | Some b \<Rightarrow> do { m \<leftarrow> deref h b; k \<leftarrow> nkey m; v \<leftarrow> nvalue m; Some (Some (k, v), Some b) }
        })"

text \<open>Running the iterator to its end, as a \<open>for\<close> loop over it does.\<close>

partial_function (option) sl_iter_from ::
  "('k, 'v) store \<Rightarrow> nat option \<Rightarrow> ('k \<times> 'v) list option" where
  "sl_iter_from h cur =
     Option.bind (sl_iter_next h cur) (\<lambda>(kv, cur').
       case kv of None \<Rightarrow> Some []
       | Some e \<Rightarrow> Option.bind (sl_iter_from h cur') (\<lambda>es. Some (e # es)))"

definition sl_iter :: "('k, 'v, 'g) skiplist \<Rightarrow> ('k \<times> 'v) list option" where
  "sl_iter sl = sl_iter_from (store sl) (Some (head sl))"

text \<open>\<open>dispose\<close> frees every node but the head, whose key and value were never initialised: of it
  only the pointer vector is dropped, its box stays allocated.\<close>

partial_function (option) sl_dispose_from ::
  "glue \<Rightarrow> ('k, 'v) store \<Rightarrow> nat \<Rightarrow> bool \<Rightarrow> ('k, 'v) store option" where
  "sl_dispose_from G h cur is_head =
     Option.bind (deref h cur) (\<lambda>n.
       case node_next n 0 of
         Some nx \<Rightarrow> Option.bind (if is_head then Some h else free G h cur) (\<lambda>h'. sl_dispose_from G h' nx False)
       | None \<Rightarrow> if is_head then Some h else free G h cur)"

definition sl_dispose :: "glue \<Rightarrow> ('k, 'v, 'g) skiplist \<Rightarrow> ('k, 'v) store option" where
  "sl_dispose G sl = do {
     h \<leftarrow> sl_dispose_from G (store sl) (head sl) True;
     n \<leftarrow> deref h (head sl);
     Some (h[head sl := Some (n\<lparr>nexts := []\<rparr>)])
   }"

definition sl_clear :: "glue \<Rightarrow> ('k, 'v, 'g) skiplist \<Rightarrow> ('k, 'v, 'g) skiplist option" where
  "sl_clear G sl = do {
     h \<leftarrow> sl_dispose G sl;
     let (hd, h') = allocate_dummy h (max_height sl);
     Some (sl\<lparr>store := h', head := hd, slen := 0, height := 0\<rparr>)
   }"

fun sl_insert_all ::
  "('g \<Rightarrow> nat \<Rightarrow> nat \<times> 'g) \<Rightarrow> ('k :: linorder, 'v, 'g) skiplist \<Rightarrow> ('k \<times> 'v) list \<Rightarrow>
   ('k, 'v, 'g) skiplist option" where
  "sl_insert_all gh sl [] = Some sl"
| "sl_insert_all gh sl ((k, v) # es) =
     Option.bind (sl_insert gh sl k v) (\<lambda>(_, sl'). sl_insert_all gh sl' es)"

text \<open>\<open>Clone\<close> builds a fresh list, with a generator of its own, by inserting every entry.\<close>

definition sl_clone ::
  "('k :: linorder, 'v, nat stream) skiplist \<Rightarrow> nat stream \<Rightarrow> ('k, 'v, nat stream) skiplist option"
  where
  "sl_clone sl rng = do {
     es \<leftarrow> sl_iter sl;
     sl_insert_all gen_height (sl_new (max_height sl) rng) es
   }"

end
