(* ===== verification/Assoc.thy ===== *)
theory Assoc
  imports Prelude
begin

text \<open>
  The abstract specification of the ordered tables: an association list with strictly
  increasing keys.  The skip list, the memtables and the merged view of the store are related
  to it.
\<close>

definition sorted_kv :: "('k :: linorder \<times> 'v) list \<Rightarrow> bool" where
  "sorted_kv es \<longleftrightarrow> sorted_wrt (<) (map fst es)"

fun ins_kv :: "'k :: linorder \<Rightarrow> 'v \<Rightarrow> ('k \<times> 'v) list \<Rightarrow> ('k \<times> 'v) list" where
  "ins_kv k v [] = [(k, v)]"
| "ins_kv k v ((k', v') # es) =
     (if k < k' then (k, v) # (k', v') # es
      else if k = k' then (k, v) # es else (k', v') # ins_kv k v es)"

fun del_kv :: "'k :: linorder \<Rightarrow> ('k \<times> 'v) list \<Rightarrow> ('k \<times> 'v) list" where
  "del_kv k [] = []"
| "del_kv k ((k', v') # es) = (if k = k' then es else (k', v') # del_kv k es)"

lemma sorted_kv_Nil [simp]: "sorted_kv []"
  by (simp add: sorted_kv_def)

lemma sorted_kv_Cons [simp]:
  "sorted_kv ((k, v) # es) \<longleftrightarrow> (\<forall>e \<in> set es. k < fst e) \<and> sorted_kv es"
  by (auto simp: sorted_kv_def)

lemma set_ins_kv: "fst ` set (ins_kv k v es) = insert k (fst ` set es)"
  by (induction k v es rule: ins_kv.induct) auto

lemma set_del_kv: "set (del_kv k es) \<subseteq> set es"
  by (induction k es rule: del_kv.induct) auto

lemma sorted_ins_kv: "sorted_kv es \<Longrightarrow> sorted_kv (ins_kv k v es)"
proof (induction k v es rule: ins_kv.induct)
  case (2 k v k' v' es)
  have "\<forall>e \<in> set (ins_kv k v es). k' < fst e" if "k' < k" "\<forall>e \<in> set es. k' < fst e"
    using that set_ins_kv [of k v es] by (metis imageI image_iff insert_iff)
  with 2 show ?case by (auto simp: not_less_iff_gr_or_eq intro: order.strict_trans)
qed simp

lemma sorted_del_kv: "sorted_kv es \<Longrightarrow> sorted_kv (del_kv k es)"
  by (induction k es rule: del_kv.induct) (use set_del_kv in fastforce)+

lemma map_of_sorted_less: "sorted_kv ((k', v') # es) \<Longrightarrow> k < k' \<Longrightarrow> map_of es k = None"
  by (auto simp: map_of_eq_None_iff)

lemma map_of_ins_kv: "sorted_kv es \<Longrightarrow> map_of (ins_kv k v es) = (map_of es)(k \<mapsto> v)"
  by (induction k v es rule: ins_kv.induct) (auto simp: fun_eq_iff)

lemma del_kv_absent: "k \<notin> fst ` set es \<Longrightarrow> del_kv k es = es"
  by (induction k es rule: del_kv.induct) auto

lemma map_of_del_kv: "sorted_kv es \<Longrightarrow> map_of (del_kv k es) = (map_of es)(k := None)"
  by (induction k es rule: del_kv.induct) (auto simp: fun_eq_iff map_of_eq_None_iff)

lemma ins_kv_split:
  assumes "\<forall>e \<in> set xs. fst e < k" "\<forall>e \<in> set ys. k < fst e"
  shows "ins_kv k v (xs @ ys) = xs @ (k, v) # ys"
    and "ins_kv k v (xs @ (k, w) # ys) = xs @ (k, v) # ys"
    and "del_kv k (xs @ (k, w) # ys) = xs @ ys"
  using assms by (induction xs) (cases ys; auto)+

lemma map_of_split:
  assumes "\<forall>e \<in> set xs. fst e < k" "\<forall>e \<in> set ys. k < fst e"
  shows "map_of (xs @ ys) k = None" "map_of (xs @ (k, w) # ys) k = Some w"
    "del_kv k (xs @ ys) = xs @ ys"
proof -
  have nx: "k \<notin> fst ` set xs" "k \<notin> fst ` set ys" using assms by auto
  then show "map_of (xs @ ys) k = None" by (simp add: map_of_eq_None_iff image_Un)
  have "map_of xs k = None" using nx by (simp add: map_of_eq_None_iff)
  then show "map_of (xs @ (k, w) # ys) k = Some w" by (simp add: map_add_def)
  show "del_kv k (xs @ ys) = xs @ ys"
    using nx by (intro del_kv_absent) auto
qed

end
