(* ===== verification/SkipList_Correct.thy ===== *)
theory SkipList_Correct
  imports SkipList Assoc
begin

text \<open>
  Correctness of the skip list: the towers of nodes in the store represent a strictly sorted
  association list, every operation keeps that and computes what the association list says,
  and no operation follows a bad pointer or runs forever.
\<close>

subsection \<open>What the store represents\<close>

record ('k, 'v) cell =
  caddr :: nat
  clev :: nat
  ckey :: "'k option"
  cval :: "'v option"

text \<open>The pointer a node has on level \<open>i\<close> when the cells \<open>xs\<close> follow it: the first of them
  tall enough, else whatever comes after them (\<open>nx\<close>).\<close>

fun succ_at :: "('k, 'v) cell list \<Rightarrow> (nat \<Rightarrow> nat option) \<Rightarrow> nat \<Rightarrow> nat option" where
  "succ_at [] nx i = nx i"
| "succ_at (x # xs) nx i = (if i < clev x then Some (caddr x) else succ_at xs nx i)"

definition node_of :: "('k, 'v) cell \<Rightarrow> (nat \<Rightarrow> nat option) \<Rightarrow> ('k, 'v) node" where
  "node_of x f = \<lparr>nexts = map f [0..<clev x], nkey = ckey x, nvalue = cval x\<rparr>"

fun repr :: "('k, 'v) store \<Rightarrow> ('k, 'v) cell list \<Rightarrow> (nat \<Rightarrow> nat option) \<Rightarrow> bool" where
  "repr h [] nx \<longleftrightarrow> True"
| "repr h (x # xs) nx \<longleftrightarrow> deref h (caddr x) = Some (node_of x (succ_at xs nx)) \<and> repr h xs nx"

lemma succ_at_Nil_fun [simp]: "succ_at [] nx = nx"
  by (simp add: fun_eq_iff)

lemma succ_at_append: "succ_at (xs @ ys) nx = succ_at xs (succ_at ys nx)"
  by (induction xs) (auto simp: fun_eq_iff)

lemma repr_append: "repr h (xs @ ys) nx \<longleftrightarrow> repr h xs (succ_at ys nx) \<and> repr h ys nx"
  by (induction xs) (auto simp: succ_at_append)

lemma node_of_simps [simp]:
  "nkey (node_of x f) = ckey x" "nvalue (node_of x f) = cval x"
  "length (nexts (node_of x f)) = clev x"
  "i < clev x \<Longrightarrow> nexts (node_of x f) ! i = f i"
  "node_next (node_of x f) i = (if i < clev x then f i else None)"
  by (simp_all add: node_of_def node_next_def)

lemma deref_update_other [simp]: "a \<noteq> b \<Longrightarrow> deref (h[a := n]) b = deref h b"
  by (simp add: deref_def)

lemma deref_update_same [simp]: "deref h a = Some m \<Longrightarrow> deref (h[a := n]) a = n"
  by (auto simp: deref_def split: if_splits)

lemma deref_append [simp]: "deref h a = Some m \<Longrightarrow> deref (h @ hs) a = Some m"
  by (auto simp: deref_def nth_append split: if_splits)

lemma deref_alloc [simp]: "deref (h @ [Some n]) (length h) = Some n"
  by (simp add: deref_def)

lemma repr_frame: "repr h xs nx \<Longrightarrow> a \<notin> caddr ` set xs \<Longrightarrow> repr (h[a := n]) xs nx"
  by (induction xs) auto

lemma repr_alloc: "repr h xs nx \<Longrightarrow> repr (h @ hs) xs nx"
  by (induction xs) auto

lemma repr_addr: "repr h xs nx \<Longrightarrow> x \<in> set xs \<Longrightarrow> caddr x < length h"
  by (induction xs) (auto simp: deref_def split: if_splits)

lemma repr_deref: "repr h (xs @ x # ys) nx \<Longrightarrow> deref h (caddr x) = Some (node_of x (succ_at ys nx))"
  by (simp add: repr_append)

text \<open>The one update both linking and unlinking make: on level \<open>i\<close>, the last cell that is
  tall enough gets a new successor.\<close>

lemma succ_at_low: "\<forall>b \<in> set B. clev b \<le> i \<Longrightarrow> succ_at B (nx(i := q)) = (succ_at B nx)(i := q)"
  by (induction B) (auto simp: fun_eq_iff)

lemma succ_at_low_same: "\<forall>b \<in> set B. clev b \<le> i \<Longrightarrow> succ_at B nx i = nx i"
  by (induction B) auto

lemma node_of_upd:
  "i < clev u \<Longrightarrow>
   node_of u (f(i := q)) = (node_of u f)\<lparr>nexts := (nexts (node_of u f))[i := q]\<rparr>"
  by (auto simp: node_of_def list_eq_iff_nth_eq nth_list_update)

lemma node_of_low: "clev x \<le> i \<Longrightarrow> node_of x (f(i := q)) = node_of x f"
  by (auto simp: node_of_def)

lemma repr_low: "repr h B nx \<Longrightarrow> \<forall>b \<in> set B. clev b \<le> i \<Longrightarrow> repr h B (nx(i := q))"
  by (induction B) (auto simp: succ_at_low node_of_low)

lemma repr_relink:
  assumes r: "repr h (A @ u # B) nx" and d: "distinct (map caddr (A @ u # B))"
    and i: "i < clev u" and B: "\<forall>b \<in> set B. clev b \<le> i"
  shows "repr (h[caddr u := Some ((node_of u (succ_at B nx))
            \<lparr>nexts := (nexts (node_of u (succ_at B nx)))[i := q]\<rparr>)]) (A @ u # B) (nx(i := q))"
    (is "repr ?h _ ?nx")
proof -
  have f: "succ_at (u # B) ?nx = succ_at (u # B) nx"
    using i B by (auto simp: fun_eq_iff succ_at_low)
  have a: "caddr u \<notin> caddr ` set A" "caddr u \<notin> caddr ` set B" using d by auto
  have rs: "repr h A (succ_at (u # B) nx)" "repr h B nx"
    "deref h (caddr u) = Some (node_of u (succ_at B nx))"
    using r by (simp_all add: repr_append)
  have "repr ?h A (succ_at (u # B) ?nx)"
    unfolding f by (rule repr_frame [OF rs(1) a(1)])
  moreover have "repr ?h B ?nx"
    by (rule repr_low [OF repr_frame [OF rs(2) a(2)] B])
  moreover have "deref ?h (caddr u) = Some (node_of u (succ_at B ?nx))"
    using rs(3) by (simp add: succ_at_low [OF B] node_of_upd [OF i])
  ultimately show ?thesis by (simp add: repr_append)
qed

subsection \<open>The searches\<close>

definition pred_at :: "nat \<Rightarrow> ('k, 'v) cell list \<Rightarrow> ('k, 'v) cell" where
  "pred_at i xs = last (filter (\<lambda>x. i < clev x) xs)"

abbreviation nil_nx :: "nat \<Rightarrow> nat option" where
  "nil_nx \<equiv> (\<lambda>_. None)"

text \<open>A list cut at a key: the cells before it are smaller, those after it are not.\<close>

definition cut_at :: "'k :: linorder \<Rightarrow> ('k, 'v) cell list \<Rightarrow> ('k, 'v) cell list \<Rightarrow> bool" where
  "cut_at k lo hi \<longleftrightarrow>
     (\<forall>x \<in> set lo. \<exists>k'. ckey x = Some k' \<and> k' < k) \<and>
     (\<forall>x \<in> set hi. \<exists>k'. ckey x = Some k' \<and> \<not> k' < k)"

lemma succ_at_Some:
  "succ_at xs nil_nx i = Some a \<Longrightarrow>
   \<exists>pre x post. xs = pre @ x # post \<and> caddr x = a \<and> i < clev x \<and> (\<forall>y \<in> set pre. clev y \<le> i)"
proof (induction xs)
  case (Cons y xs)
  show ?case
  proof (cases "i < clev y")
    case True
    with Cons.prems show ?thesis by (intro exI [of _ "[]"] exI [of _ y] exI [of _ xs]) simp
  next
    case False
    with Cons obtain pre x post where "xs = pre @ x # post" "caddr x = a" "i < clev x"
      "\<forall>y \<in> set pre. clev y \<le> i" by auto
    with False show ?thesis by (intro exI [of _ "y # pre"] exI [of _ x] exI [of _ post]) simp
  qed
qed simp

lemma succ_at_None: "succ_at xs nil_nx i = None \<Longrightarrow> \<forall>x \<in> set xs. clev x \<le> i"
  by (induction xs) (auto split: if_splits)

lemma walk_ok:
  assumes "repr h (c # lo @ hi) nil_nx" "i < clev c" "cut_at k lo hi"
  shows "sl_walk h k i (caddr c) = Some (caddr (last (c # filter (\<lambda>x. i < clev x) lo)))"
  using assms
proof (induction "length lo" arbitrary: c lo rule: less_induct)
  case less
  have c: "deref h (caddr c) = Some (node_of c (succ_at (lo @ hi) nil_nx))"
    using less.prems(1) by simp
  have r: "repr h (lo @ hi) nil_nx" using less.prems(1) by simp
  show ?case
  proof (cases "succ_at lo nil_nx i")
    case None
    then have low: "\<forall>x \<in> set lo. clev x \<le> i" by (rule succ_at_None)
    then have fl: "filter (\<lambda>x. i < clev x) lo = []" by (auto simp: filter_empty_conv not_less)
    have sx: "succ_at (lo @ hi) nil_nx i = succ_at hi nil_nx i"
      by (simp add: succ_at_append succ_at_low_same [OF low])
    show ?thesis
    proof (cases "succ_at hi nil_nx i")
      case None
      then show ?thesis using c less.prems(2) sx fl by (subst sl_walk.simps) simp
    next
      case (Some a)
      then obtain pre x post where x: "hi = pre @ x # post" "caddr x = a"
        using succ_at_Some by blast
      obtain k' where k': "ckey x = Some k'" "\<not> k' < k"
        using less.prems(3) x by (auto simp: cut_at_def)
      have "deref h a = Some (node_of x (succ_at post nil_nx))"
        using r x repr_deref [of h "lo @ pre" x post] by simp
      then show ?thesis using c less.prems(2) sx fl Some k' by (subst sl_walk.simps) simp
    qed
  next
    case (Some a)
    then obtain pre x post where x: "lo = pre @ x # post" "caddr x = a" "i < clev x"
      "\<forall>y \<in> set pre. clev y \<le> i" using succ_at_Some by blast
    obtain k' where k': "ckey x = Some k'" "k' < k"
      using less.prems(3) x by (auto simp: cut_at_def)
    have dx: "deref h a = Some (node_of x (succ_at (post @ hi) nil_nx))"
      using r x repr_deref [of h pre x "post @ hi"] by simp
    have sx: "succ_at (lo @ hi) nil_nx i = Some a"
      using x by (simp add: succ_at_append succ_at_low_same)
    have "sl_walk h k i (caddr x) = Some (caddr (last (x # filter (\<lambda>x. i < clev x) post)))"
      by (rule less.hyps) (use x r less.prems(3) in \<open>auto simp: repr_append cut_at_def\<close>)
    moreover have "filter (\<lambda>x. i < clev x) lo = x # filter (\<lambda>x. i < clev x) post"
      using x by (auto simp: filter_empty_conv not_less)
    ultimately show ?thesis using c less.prems(2) sx k' dx x(2) by (subst sl_walk.simps) simp
  qed
qed

lemma pred_at_split:
  assumes "\<exists>x \<in> set xs. i < clev x"
  obtains A B where "xs = A @ pred_at i xs # B" "i < clev (pred_at i xs)" "\<forall>b \<in> set B. clev b \<le> i"
proof -
  obtain A u B where s: "xs = A @ u # B" "i < clev u" "\<forall>b \<in> set B. \<not> i < clev b"
    using split_list_last_prop [OF assms] by blast
  then have "filter (\<lambda>x. i < clev x) B = []" by (auto simp: filter_empty_conv)
  with s have "pred_at i xs = u" by (simp add: pred_at_def)
  with s that show thesis by (auto simp: not_less)
qed

text \<open>One level of a search that starts where the level above ended.\<close>

lemma walk_pred:
  assumes r: "repr h (xs @ hi) nil_nx" and c: "cut_at k (tl xs) hi" "xs \<noteq> []"
    and st: "xs = A @ c # B" "i < clev c"
  shows "sl_walk h k i (caddr c) = Some (caddr (pred_at i xs))"
proof -
  have "cut_at k B hi" using c st by (cases A) (auto simp: cut_at_def)
  moreover have "repr h (c # B @ hi) nil_nx" using r st by (simp add: repr_append)
  ultimately have "sl_walk h k i (caddr c) = Some (caddr (last (c # filter (\<lambda>x. i < clev x) B)))"
    using st(2) by (intro walk_ok) auto
  then show ?thesis using st by (simp add: pred_at_def)
qed

lemma lower_bound_from_ok:
  assumes "repr h (xs @ hi) nil_nx" "cut_at k (tl xs) hi" "xs = A @ c # B" "n < clev c"
  shows "sl_lower_bound_from h k n (caddr c) = Some (caddr (pred_at 0 xs))"
  using assms(3,4)
proof (induction n arbitrary: A c B)
  case 0
  then show ?case using walk_pred [OF assms(1,2)] by auto
next
  case (Suc n)
  have "\<exists>x \<in> set xs. Suc n < clev x" using Suc.prems by auto
  then obtain A' B' where "xs = A' @ pred_at (Suc n) xs # B'" "Suc n < clev (pred_at (Suc n) xs)"
    by (rule pred_at_split)
  moreover have "sl_walk h k (Suc n) (caddr c) = Some (caddr (pred_at (Suc n) xs))"
    using walk_pred [OF assms(1,2)] Suc.prems by auto
  ultimately show ?case using Suc.IH [of A' "pred_at (Suc n) xs" B'] by simp
qed

lemma updates_from_ok:
  assumes "repr h (xs @ hi) nil_nx" "cut_at k (tl xs) hi" "xs = A @ c # B" "n < clev c"
    "n < length ups"
  shows "sl_updates_from h k n (caddr c) ups =
    Some (caddr (pred_at 0 xs),
          map (\<lambda>i. Some (caddr (pred_at i xs))) [0..<Suc n] @ drop (Suc n) ups)"
  using assms(3-)
proof (induction n arbitrary: A c B ups)
  case 0
  then show ?case using walk_pred [OF assms(1,2)] by (cases ups) auto
next
  case (Suc n)
  have "\<exists>x \<in> set xs. Suc n < clev x" using Suc.prems by auto
  then obtain A' B' where *: "xs = A' @ pred_at (Suc n) xs # B'" "Suc n < clev (pred_at (Suc n) xs)"
    by (rule pred_at_split)
  have w: "sl_walk h k (Suc n) (caddr c) = Some (caddr (pred_at (Suc n) xs))"
    using walk_pred [OF assms(1,2)] Suc.prems by auto
  let ?ups = "ups[Suc n := Some (caddr (pred_at (Suc n) xs))]"
  have "drop (Suc n) ?ups = Some (caddr (pred_at (Suc n) xs)) # drop (Suc (Suc n)) ups"
    using Suc.prems(3) by (simp add: Cons_nth_drop_Suc [symmetric])
  then show ?case using Suc.IH [of A' "pred_at (Suc n) xs" B' ?ups] * w Suc.prems(3) by simp
qed

subsection \<open>The invariant\<close>

definition head_cell :: "('k, 'v, 'g) skiplist \<Rightarrow> ('k, 'v) cell" where
  "head_cell sl = \<lparr>caddr = head sl, clev = max_height sl + 1, ckey = None, cval = None\<rparr>"

definition cell_kv :: "('k, 'v) cell \<Rightarrow> 'k \<times> 'v" where
  "cell_kv c = (the (ckey c), the (cval c))"

definition cell_ok :: "nat \<Rightarrow> ('k, 'v) cell \<Rightarrow> bool" where
  "cell_ok ht c \<longleftrightarrow> 0 < clev c \<and> clev c \<le> ht + 1 \<and> ckey c \<noteq> None \<and> cval c \<noteq> None"

definition sl_inv :: "('k :: linorder, 'v, 'g) skiplist \<Rightarrow> ('k, 'v) cell list \<Rightarrow> bool" where
  "sl_inv sl cs \<longleftrightarrow>
     repr (store sl) (head_cell sl # cs) nil_nx \<and> distinct (map caddr (head_cell sl # cs)) \<and>
     height sl \<le> max_height sl \<and> (\<forall>c \<in> set cs. cell_ok (height sl) c) \<and>
     sorted_kv (map cell_kv cs) \<and> slen sl = length cs"

text \<open>\<open>sl_rel sl es\<close>: the list holds exactly the entries \<open>es\<close>, in the order of their keys.\<close>

definition sl_rel :: "('k :: linorder, 'v, 'g) skiplist \<Rightarrow> ('k \<times> 'v) list \<Rightarrow> bool" where
  "sl_rel sl es \<longleftrightarrow> (\<exists>cs. sl_inv sl cs \<and> es = map cell_kv cs)"

lemma sl_invD:
  assumes "sl_inv sl cs"
  shows "repr (store sl) (head_cell sl # cs) nil_nx" "distinct (map caddr (head_cell sl # cs))"
    "height sl \<le> max_height sl" "\<And>c. c \<in> set cs \<Longrightarrow> cell_ok (height sl) c"
    "sorted_kv (map cell_kv cs)" "slen sl = length cs"
  using assms by (auto simp: sl_inv_def)

lemma head_cell_simps [simp]:
  "caddr (head_cell sl) = head sl" "clev (head_cell sl) = max_height sl + 1"
  "ckey (head_cell sl) = None" "cval (head_cell sl) = None"
  by (simp_all add: head_cell_def)

lemma head_cell_upd [simp]:
  "head_cell (sl\<lparr>store := h\<rparr>) = head_cell sl" "head_cell (sl\<lparr>slen := n\<rparr>) = head_cell sl"
  "head_cell (sl\<lparr>height := n\<rparr>) = head_cell sl" "head_cell (sl\<lparr>generator := g\<rparr>) = head_cell sl"
  by (simp_all add: head_cell_def)

lemma sl_rel_sorted: "sl_rel sl es \<Longrightarrow> sorted_kv es"
  by (auto simp: sl_rel_def sl_inv_def)

lemma sl_rel_length: "sl_rel sl es \<Longrightarrow> slen sl = length es"
  by (auto simp: sl_rel_def sl_inv_def)

definition strict_cut :: "'k :: linorder \<Rightarrow> ('k, 'v) cell list \<Rightarrow> ('k, 'v) cell list \<Rightarrow> bool" where
  "strict_cut k lo hi \<longleftrightarrow>
     (\<forall>x \<in> set lo. fst (cell_kv x) < k) \<and> (\<forall>x \<in> set hi. k < fst (cell_kv x))"

lemma inv_cut:
  assumes inv: "sl_inv sl cs"
  obtains (absent) lo hi where "cs = lo @ hi" "strict_cut k lo hi"
  | (present) lo c hi where "cs = lo @ c # hi" "ckey c = Some k" "strict_cut k lo hi"
proof -
  define lo where "lo = takeWhile (\<lambda>x. fst (cell_kv x) < k) cs"
  define hi where "hi = dropWhile (\<lambda>x. fst (cell_kv x) < k) cs"
  have cs: "cs = lo @ hi" by (simp add: lo_def hi_def)
  have lo: "\<forall>x \<in> set lo. fst (cell_kv x) < k" by (auto simp: lo_def dest: set_takeWhileD)
  show thesis
  proof (cases hi)
    case Nil
    with cs lo absent [of lo "[]"] show thesis by (simp add: strict_cut_def)
  next
    case (Cons c hi')
    have nl: "\<not> fst (cell_kv c) < k" using Cons by (auto simp: hi_def dropWhile_eq_Cons_conv)
    have gt: "\<forall>x \<in> set hi'. fst (cell_kv c) < fst (cell_kv x)"
      using sl_invD(5) [OF inv] cs Cons by (auto simp: sorted_kv_def sorted_wrt_append)
    show thesis
    proof (cases "fst (cell_kv c) = k")
      case True
      have "cell_ok (height sl) c" using sl_invD(4) [OF inv] cs Cons by auto
      with True have "ckey c = Some k" by (auto simp: cell_ok_def cell_kv_def)
      with cs Cons lo gt True present [of lo c hi'] show thesis by (simp add: strict_cut_def)
    next
      case False
      with nl gt have "\<forall>x \<in> set hi. k < fst (cell_kv x)" using Cons by force
      with cs lo absent [of lo hi] show thesis by (simp add: strict_cut_def)
    qed
  qed
qed

lemma cut_at_strict:
  assumes "\<forall>c \<in> set (lo @ hi). cell_ok ht c" "\<forall>x \<in> set lo. fst (cell_kv x) < k"
    "\<forall>x \<in> set hi. k \<le> fst (cell_kv x)"
  shows "cut_at k lo hi"
  unfolding cut_at_def
proof (intro conjI ballI)
  fix x assume x: "x \<in> set lo"
  with assms(1) obtain k' where "ckey x = Some k'" by (auto simp: cell_ok_def)
  with x assms(2) show "\<exists>k'. ckey x = Some k' \<and> k' < k" by (auto simp: cell_kv_def)
next
  fix x assume x: "x \<in> set hi"
  with assms(1) obtain k' where "ckey x = Some k'" by (auto simp: cell_ok_def)
  with x assms(3) show "\<exists>k'. ckey x = Some k' \<and> \<not> k' < k" by (auto simp: cell_kv_def)
qed

lemma pred_at_0: "\<forall>c \<in> set cs. cell_ok ht c \<Longrightarrow> pred_at 0 (head_cell sl # cs) = last (head_cell sl # cs)"
proof -
  assume "\<forall>c \<in> set cs. cell_ok ht c"
  then have "filter (\<lambda>x. 0 < clev x) cs = cs" by (auto simp: filter_id_conv cell_ok_def)
  then show ?thesis by (simp add: pred_at_def)
qed

text \<open>What the searches return on a list cut at the key.\<close>

lemma search_ok:
  assumes inv: "sl_inv sl (lo @ hi)" and c: "cut_at k lo hi"
  defines "xs \<equiv> head_cell sl # lo"
  shows "get_lower_bound sl k = Some (caddr (pred_at 0 xs))"
    and "get_lower_bound_and_updates sl k =
      Some (caddr (pred_at 0 xs), map (\<lambda>i. Some (caddr (pred_at i xs))) [0..<max_height sl + 1])"
proof -
  have r: "repr (store sl) (xs @ hi) nil_nx" and t: "cut_at k (tl xs) hi"
    using sl_invD(1) [OF inv] c by (simp_all add: xs_def)
  have s: "xs = [] @ head_cell sl # lo" by (simp add: xs_def)
  have h: "height sl < clev (head_cell sl)" "height sl \<le> max_height sl"
    using sl_invD(3) [OF inv] by simp_all
  show "get_lower_bound sl k = Some (caddr (pred_at 0 xs))"
    using lower_bound_from_ok [OF r t s h(1)] by (simp add: get_lower_bound_def)
  have up: "pred_at i xs = head_cell sl" if "height sl < i" "i \<le> max_height sl" for i
  proof -
    have "filter (\<lambda>x. i < clev x) lo = []"
      using sl_invD(4) [OF inv] that by (fastforce simp: filter_empty_conv cell_ok_def)
    then show ?thesis using that by (simp add: pred_at_def xs_def)
  qed
  have ups: "map (\<lambda>i. Some (caddr (pred_at i xs))) [0..<Suc (height sl)] @
      drop (Suc (height sl)) (map (\<lambda>i. if height sl + 1 \<le> i then Some (head sl) else None) [0..<max_height sl + 1])
    = map (\<lambda>i. Some (caddr (pred_at i xs))) [0..<max_height sl + 1]"
    using h(2) by (intro nth_equalityI) (auto simp: nth_append up simp del: upt_Suc)
  show "get_lower_bound_and_updates sl k =
      Some (caddr (pred_at 0 xs), map (\<lambda>i. Some (caddr (pred_at i xs))) [0..<max_height sl + 1])"
    unfolding get_lower_bound_and_updates_def Let_def
    using updates_from_ok [OF r t s h(1)] h(2) ups by simp
qed

lemma match_ok:
  assumes inv: "sl_inv sl (lo @ hi)"
  shows "sl_match (store sl) k (caddr (pred_at 0 (head_cell sl # lo))) =
    Some (case hi of [] \<Rightarrow> None | c # _ \<Rightarrow> if ckey c = Some k then Some (caddr c) else None)"
proof -
  have ok: "\<forall>c \<in> set lo. cell_ok (height sl) c" using sl_invD(4) [OF inv] by simp
  let ?u = "last (head_cell sl # lo)"
  obtain A where A: "head_cell sl # lo = A @ [?u]" by (metis append_butlast_last_id list.distinct(1))
  have r: "repr (store sl) ((A @ [?u]) @ hi) nil_nx"
    using sl_invD(1) [OF inv] unfolding A [symmetric] by simp
  then have u: "deref (store sl) (caddr ?u) = Some (node_of ?u (succ_at hi nil_nx))"
    by (simp add: repr_append)
  have lu: "0 < clev ?u" using ok by (cases "lo = []") (auto simp: cell_ok_def)
  show ?thesis
  proof (cases hi)
    case Nil
    then show ?thesis using u lu by (simp add: pred_at_0 [OF ok] sl_match_def)
  next
    case (Cons c hi')
    have "cell_ok (height sl) c" using sl_invD(4) [OF inv] Cons by simp
    moreover have "deref (store sl) (caddr c) = Some (node_of c (succ_at hi' nil_nx))"
      using r Cons by (simp add: repr_append)
    ultimately show ?thesis
      using u lu Cons by (auto simp: pred_at_0 [OF ok] sl_match_def cell_ok_def)
  qed
qed

subsection \<open>Lookup\<close>

lemma cut_kv:
  assumes "strict_cut k lo hi"
  shows "\<forall>e \<in> set (map cell_kv lo). fst e < k" "\<forall>e \<in> set (map cell_kv hi). k < fst e"
  using assms by (auto simp: strict_cut_def)

lemma cut_absent:
  assumes "sl_inv sl (lo @ hi)" "strict_cut k lo hi"
  shows "cut_at k lo hi"
    "(case hi of [] \<Rightarrow> None | c # _ \<Rightarrow> if ckey c = Some k then Some (caddr c) else None) = None"
proof -
  show "cut_at k lo hi"
    using sl_invD(4) [OF assms(1)] assms(2)
    by (intro cut_at_strict [of _ _ "height sl"]) (auto simp: strict_cut_def intro: less_imp_le)
  show "(case hi of [] \<Rightarrow> None | c # _ \<Rightarrow> if ckey c = Some k then Some (caddr c) else None) = None"
    using assms(2) by (cases hi) (auto simp: strict_cut_def cell_kv_def)
qed

lemma cut_present:
  assumes "sl_inv sl (lo @ c # hi)" "ckey c = Some k" "strict_cut k lo hi"
  shows "cut_at k lo (c # hi)"
proof (rule cut_at_strict [of _ _ "height sl"])
  show "\<forall>x \<in> set (c # hi). k \<le> fst (cell_kv x)"
    using assms(2,3) by (auto simp: strict_cut_def cell_kv_def intro: less_imp_le)
qed (use sl_invD(4) [OF assms(1)] assms(3) in \<open>auto simp: strict_cut_def\<close>)

lemma cell_kv_eq: "ckey c = Some k \<Longrightarrow> cval c = Some v \<Longrightarrow> cell_kv c = (k, v)"
  by (simp add: cell_kv_def)

lemma present_value:
  assumes "sl_inv sl (lo @ c # hi)" "ckey c = Some k"
  obtains v where "cval c = Some v" "cell_kv c = (k, v)"
    "deref (store sl) (caddr c) = Some (node_of c (succ_at hi nil_nx))"
proof -
  obtain v where v: "cval c = Some v"
    using sl_invD(4) [OF assms(1), of c] by (auto simp: cell_ok_def)
  have "deref (store sl) (caddr c) = Some (node_of c (succ_at hi nil_nx))"
    using sl_invD(1) [OF assms(1)] by (simp add: repr_append)
  with v show thesis using that [OF v cell_kv_eq [OF assms(2) v]] by simp
qed

lemma get_ok:
  assumes "sl_rel sl es"
  shows "sl_get sl k = Some (map_of es k)"
proof -
  obtain cs where inv: "sl_inv sl cs" and es: "es = map cell_kv cs"
    using assms by (auto simp: sl_rel_def)
  from inv show ?thesis
  proof (cases rule: inv_cut [where k = k])
    case (absent lo hi)
    note i = inv [unfolded absent(1)]
    have "map_of es k = None"
      using map_of_split(1) [OF cut_kv [OF absent(2)]] by (simp add: es absent(1))
    then show ?thesis
      using search_ok(1) [OF i cut_absent(1) [OF i absent(2)]] match_ok [OF i, of k]
        cut_absent(2) [OF i absent(2)] by (simp add: sl_get_def)
  next
    case (present lo c hi)
    note i = inv [unfolded present(1)]
    obtain v where v: "cval c = Some v" "cell_kv c = (k, v)"
      "deref (store sl) (caddr c) = Some (node_of c (succ_at hi nil_nx))"
      using present_value [OF i present(2)] .
    have "map_of es k = Some v"
      using map_of_split(2) [OF cut_kv [OF present(3)], of v] v by (simp add: es present(1))
    then show ?thesis
      using search_ok(1) [OF i cut_present [OF i present(2,3)]] match_ok [OF i, of k] v present(2)
      by (simp add: sl_get_def)
  qed
qed

subsection \<open>Insertion\<close>

text \<open>The state of the linking loop after \<open>j\<close> levels: the new node \<open>p\<close> is on the levels
  below \<open>j\<close> only, and already points to its successors there.\<close>

definition link_inv ::
  "('k, 'v) cell list \<Rightarrow> ('k, 'v) cell list \<Rightarrow> ('k, 'v) cell \<Rightarrow> nat \<Rightarrow> ('k, 'v) store \<Rightarrow> bool" where
  "link_inv xs hi p j h \<longleftrightarrow>
     repr h xs (\<lambda>i. if i < j then Some (caddr p) else succ_at hi nil_nx i) \<and> repr h hi nil_nx \<and>
     deref h (caddr p) = Some \<lparr>nexts = map (succ_at hi nil_nx) [0..<j] @ replicate (clev p - j) None,
       nkey = ckey p, nvalue = cval p\<rparr>"

lemma link_level_ok:
  assumes inv: "link_inv xs hi p j h" and d: "distinct (map caddr (xs @ p # hi))"
    and j: "j < clev p" "j < length ups" "ups ! j = Some (caddr (pred_at j xs))"
    and ex: "\<exists>x \<in> set xs. j < clev x"
  shows "\<exists>h'. sl_link_level ups (caddr p) j h = Some h' \<and> link_inv xs hi p (Suc j) h'"
proof -
  let ?nx = "\<lambda>i. if i < j then Some (caddr p) else succ_at hi nil_nx i"
  let ?s = "succ_at hi nil_nx j"
  obtain A B where s: "xs = A @ pred_at j xs # B" "j < clev (pred_at j xs)" "\<forall>b \<in> set B. clev b \<le> j"
    using pred_at_split [OF ex] .
  define u where "u = pred_at j xs"
  note s = s [folded u_def]
  define nu where "nu = node_of u (succ_at B ?nx)"
  define np where "np = \<lparr>nexts = map (succ_at hi nil_nx) [0..<j] @ replicate (clev p - j) None,
       nkey = ckey p, nvalue = cval p\<rparr>"
  have dp: "deref h (caddr p) = Some np" and rx: "repr h xs ?nx" and rh: "repr h hi nil_nx"
    using inv by (simp_all add: link_inv_def np_def)
  have du: "deref h (caddr u) = Some nu"
    using rx unfolding s(1) by (simp add: repr_append nu_def)
  have "idx (nexts nu) j = Some (succ_at B ?nx j)"
    using s(2) by (simp add: nu_def idx_def)
  also have "succ_at B ?nx j = ?s" by (simp add: succ_at_low_same [OF s(3)])
  finally have nxj: "idx (nexts nu) j = Some ?s" .
  define h1 where "h1 = h[caddr p := Some (np\<lparr>nexts := (nexts np)[j := ?s]\<rparr>)]"
  define h2 where "h2 = h1[caddr u := Some (nu\<lparr>nexts := (nexts nu)[j := Some (caddr p)]\<rparr>)]"
  have pu: "caddr p \<noteq> caddr u" "caddr p \<notin> caddr ` set xs" "caddr p \<notin> caddr ` set hi"
    "caddr u \<notin> caddr ` set hi" using d by (auto simp: s(1))
  have "sl_link_level ups (caddr p) j h = Some h2"
    using j dp du nxj pu(1) by (simp add: sl_link_level_def idx_def h2_def h1_def np_def u_def)
  moreover have "repr h2 xs (?nx(j := Some (caddr p)))"
  proof -
    have "repr h1 (A @ u # B) ?nx" using repr_frame [OF rx pu(2)] s(1) by (simp add: h1_def)
    moreover have "distinct (map caddr (A @ u # B))" using d by (auto simp: s(1))
    ultimately have "repr h2 (A @ u # B) (?nx(j := Some (caddr p)))"
      unfolding h2_def nu_def by (rule repr_relink [OF _ _ s(2,3)])
    then show ?thesis by (simp only: s(1))
  qed
  moreover have "?nx(j := Some (caddr p)) = (\<lambda>i. if i < Suc j then Some (caddr p) else succ_at hi nil_nx i)"
    by (auto simp: fun_eq_iff less_Suc_eq)
  moreover have "repr h2 hi nil_nx"
    unfolding h2_def h1_def by (intro repr_frame rh pu)
  moreover have "deref h2 (caddr p) = Some \<lparr>nexts = map (succ_at hi nil_nx) [0..<Suc j] @
      replicate (clev p - Suc j) None, nkey = ckey p, nvalue = cval p\<rparr>"
  proof -
    have "deref h2 (caddr p) = Some (np\<lparr>nexts := (nexts np)[j := ?s]\<rparr>)"
      using pu(1) dp by (simp add: h2_def h1_def)
    moreover have "(nexts np)[j := ?s] = map (succ_at hi nil_nx) [0..<Suc j] @ replicate (clev p - Suc j) None"
      using j(1) by (intro nth_equalityI)
        (auto simp: np_def nth_append nth_list_update less_Suc_eq simp del: upt_Suc)
    ultimately show ?thesis by (simp add: np_def)
  qed
  ultimately show ?thesis by (auto simp: link_inv_def)
qed

lemma link_ok:
  assumes "link_inv xs hi p j h" "distinct (map caddr (xs @ p # hi))" "j \<le> clev p"
    "\<forall>i < clev p. i < length ups \<and> ups ! i = Some (caddr (pred_at i xs)) \<and> (\<exists>x \<in> set xs. i < clev x)"
  shows "\<exists>h'. sl_link ups (caddr p) [j..<clev p] h = Some h' \<and> link_inv xs hi p (clev p) h'"
  using assms(1,3)
proof (induction "clev p - j" arbitrary: j h)
  case 0
  then show ?case by simp
next
  case (Suc n)
  then have j: "j < clev p" by simp
  obtain h1 where h1: "sl_link_level ups (caddr p) j h = Some h1" "link_inv xs hi p (Suc j) h1"
    using link_level_ok [OF Suc.prems(1) assms(2) j] assms(4) j by blast
  have "\<exists>h'. sl_link ups (caddr p) [Suc j..<clev p] h1 = Some h' \<and> link_inv xs hi p (clev p) h'"
    using Suc.hyps(1) [OF _ h1(2)] Suc.hyps(2) j by simp
  then show ?case using h1(1) j by (simp add: upt_rec [of j])
qed

text \<open>A height generator: what the list relies on is that it stays within the maximum.\<close>

locale height_generator =
  fixes gh :: "'g \<Rightarrow> nat \<Rightarrow> nat \<times> 'g"
  assumes bounded: "fst (gh g m) \<le> m"

lemma gen_height_loop_le: "l \<le> m \<Longrightarrow> fst (gen_height_loop rng l m) \<le> m"
  by (induction rng l m rule: gen_height_loop.induct) (subst gen_height_loop.simps, simp)

interpretation gh: height_generator gen_height
  by unfold_locales (simp add: gen_height_def gen_height_loop_le)

lemma insert_link:
  assumes inv: "sl_inv sl (lo @ hi)" and c: "strict_cut k lo hi" and ht: "ht \<le> max_height sl"
  shows "\<exists>h cs. sl_link (map (\<lambda>i. Some (caddr (pred_at i (head_cell sl # lo)))) [0..<max_height sl + 1])
        (length (store sl)) [0..<ht + 1] (snd (allocate (store sl) (Some k) (Some v) ht)) = Some h \<and>
      sl_inv (sl\<lparr>store := h, height := max (height sl) ht, slen := slen sl + 1\<rparr>) cs \<and>
      map cell_kv cs = ins_kv k v (map cell_kv (lo @ hi))"
proof -
  let ?xs = "head_cell sl # lo"
  let ?ups = "map (\<lambda>i. Some (caddr (pred_at i ?xs))) [0..<max_height sl + 1]"
  define p where "p = \<lparr>caddr = length (store sl), clev = ht + 1, ckey = Some k, cval = Some v\<rparr>"
  define h0 where "h0 = snd (allocate (store sl) (Some k) (Some v) ht)"
  have r: "repr (store sl) (?xs @ hi) nil_nx" using sl_invD(1) [OF inv] by simp
  have fresh: "\<forall>x \<in> set (?xs @ hi). caddr x \<noteq> caddr p"
    using repr_addr [OF r] by (fastforce simp: p_def)
  have d: "distinct (map caddr (?xs @ p # hi))"
    using sl_invD(2) [OF inv] fresh by auto
  have "repr h0 (?xs @ hi) nil_nx" using repr_alloc [OF r] by (simp add: h0_def allocate_def)
  then have "repr h0 ?xs (succ_at hi nil_nx)" "repr h0 hi nil_nx"
    unfolding repr_append by blast+
  moreover have "deref h0 (caddr p) = Some \<lparr>nexts = replicate (clev p) None, nkey = ckey p, nvalue = cval p\<rparr>"
    by (simp add: h0_def allocate_def p_def)
  ultimately have "link_inv ?xs hi p 0 h0"
    by (simp add: link_inv_def)
  then obtain h where h: "sl_link ?ups (caddr p) [0..<clev p] h0 = Some h" "link_inv ?xs hi p (clev p) h"
    using link_ok [OF _ d, of 0 h0 ?ups] ht by (auto simp: p_def simp del: upt_Suc)
  have rp: "repr h (?xs @ p # hi) nil_nx"
  proof -
    have "(\<lambda>i. if i < clev p then Some (caddr p) else succ_at hi nil_nx i) = succ_at (p # hi) nil_nx"
      by (simp add: fun_eq_iff)
    with h(2) have "repr h ?xs (succ_at (p # hi) nil_nx)" "repr h hi nil_nx"
      "deref h (caddr p) = Some (node_of p (succ_at hi nil_nx))"
      by (simp_all only: link_inv_def) (simp add: node_of_def)
    then show ?thesis by (simp only: repr_append repr.simps)
  qed
  let ?sl = "sl\<lparr>store := h, height := max (height sl) ht, slen := slen sl + 1\<rparr>"
  have hc: "head_cell ?sl = head_cell sl" by (simp add: head_cell_def)
  have kv: "map cell_kv (lo @ p # hi) = ins_kv k v (map cell_kv (lo @ hi))"
    using ins_kv_split(1) [OF cut_kv [OF c], of v] by (simp add: cell_kv_def p_def)
  have "sorted_kv (map cell_kv (lo @ p # hi))"
    unfolding kv by (rule sorted_ins_kv [OF sl_invD(5) [OF inv]])
  moreover have "\<forall>x \<in> set (lo @ p # hi). cell_ok (max (height sl) ht) x"
    using sl_invD(4) [OF inv] by (fastforce simp: cell_ok_def p_def)
  ultimately have "sl_inv ?sl (lo @ p # hi)"
    unfolding sl_inv_def hc using rp d sl_invD(3,6) [OF inv] ht by simp
  with h(1) kv show ?thesis by (auto simp: p_def h0_def)
qed

lemma replace_ok:
  assumes inv: "sl_inv sl (lo @ c # hi)" and k: "ckey c = Some k" and cut: "strict_cut k lo hi"
  shows "\<exists>old h. replace_value (store sl) (caddr c) (Some v) = Some (old, h) \<and>
      cell_kv c = (k, old) \<and> sl_inv (sl\<lparr>store := h\<rparr>) (lo @ c\<lparr>cval := Some v\<rparr> # hi)"
proof -
  let ?c = "c\<lparr>cval := Some v\<rparr>" and ?xs = "head_cell sl # lo"
  obtain old where old: "cval c = Some old" "cell_kv c = (k, old)"
    "deref (store sl) (caddr c) = Some (node_of c (succ_at hi nil_nx))"
    using present_value [OF inv k] .
  define h where "h = (store sl)[caddr c := Some (node_of ?c (succ_at hi nil_nx))]"
  have rv: "replace_value (store sl) (caddr c) (Some v) = Some (old, h)"
    using old by (simp add: replace_value_def h_def node_of_def)
  have r: "repr (store sl) (?xs @ c # hi) nil_nx" using sl_invD(1) [OF inv] by simp
  have d: "distinct (map caddr (?xs @ c # hi))" using sl_invD(2) [OF inv] by simp
  have sc: "succ_at (?c # hi) nil_nx = succ_at (c # hi) nil_nx" by (simp add: fun_eq_iff)
  have rs: "repr (store sl) ?xs (succ_at (c # hi) nil_nx)" "repr (store sl) hi nil_nx"
    using r unfolding repr_append by simp_all
  have "repr h ?xs (succ_at (?c # hi) nil_nx)" "repr h hi nil_nx"
    unfolding sc h_def by (rule repr_frame [OF rs(1)] repr_frame [OF rs(2)]; use d in auto)+
  moreover have "deref h (caddr ?c) = Some (node_of ?c (succ_at hi nil_nx))"
    using old by (simp add: h_def)
  ultimately have rp: "repr h (?xs @ ?c # hi) nil_nx"
    by (simp only: repr_append repr.simps)
  have kv: "map cell_kv (lo @ ?c # hi) = ins_kv k v (map cell_kv (lo @ c # hi))"
    using ins_kv_split(2) [OF cut_kv [OF cut], of v old] old k by (simp add: cell_kv_def)
  have "sorted_kv (map cell_kv (lo @ ?c # hi))"
    unfolding kv by (rule sorted_ins_kv [OF sl_invD(5) [OF inv]])
  moreover have "\<forall>x \<in> set (lo @ ?c # hi). cell_ok (height sl) x"
    using sl_invD(4) [OF inv] by (auto simp: cell_ok_def)
  ultimately have "sl_inv (sl\<lparr>store := h\<rparr>) (lo @ ?c # hi)"
    unfolding sl_inv_def using rp d sl_invD(3,6) [OF inv] by simp
  with rv old show ?thesis by blast
qed

lemma sl_inv_generator: "sl_inv (sl\<lparr>generator := g\<rparr>) cs = sl_inv sl cs"
  by (simp add: sl_inv_def)

context height_generator
begin

lemma insert_ok:
  assumes "sl_rel sl es"
  shows "\<exists>sl'. sl_insert gh sl k v = Some (map_of es k, sl') \<and> sl_rel sl' (ins_kv k v es) \<and>
    max_height sl' = max_height sl"
proof -
  obtain cs where inv0: "sl_inv sl cs" and es: "es = map cell_kv cs"
    using assms by (auto simp: sl_rel_def)
  obtain ht g where g: "gh (generator sl) (max_height sl) = (ht, g)" by fastforce
  have ht: "ht \<le> max_height sl" using bounded [of "generator sl" "max_height sl"] g by simp
  define sl1 where "sl1 = sl\<lparr>generator := g\<rparr>"
  have inv: "sl_inv sl1 cs" using inv0 by (simp add: sl1_def sl_inv_generator)
  have mh: "max_height sl1 = max_height sl" by (simp add: sl1_def)
  have fs: "store sl = store sl1" "height sl = height sl1" "slen sl = slen sl1" by (simp_all add: sl1_def)
  from inv show ?thesis
  proof (cases rule: inv_cut [where k = k])
    case (absent lo hi)
    note i = inv [unfolded absent(1)]
    have n: "map_of es k = None"
      using map_of_split(1) [OF cut_kv [OF absent(2)]] by (simp add: es absent(1))
    obtain h cs' where h: "sl_link (map (\<lambda>i. Some (caddr (pred_at i (head_cell sl1 # lo)))) [0..<max_height sl1 + 1])
        (length (store sl1)) [0..<ht + 1] (snd (allocate (store sl1) (Some k) (Some v) ht)) = Some h"
      "sl_inv (sl1\<lparr>store := h, height := max (height sl1) ht, slen := slen sl1 + 1\<rparr>) cs'"
      "map cell_kv cs' = ins_kv k v es"
      using insert_link [OF i absent(2), of ht v] ht mh es absent(1) by auto
    have "sl_insert gh sl k v =
      Some (None, sl1\<lparr>store := h, height := max (height sl1) ht, slen := slen sl1 + 1\<rparr>)"
      using search_ok(2) [OF i cut_absent(1) [OF i absent(2)]] match_ok [OF i, of k]
        cut_absent(2) [OF i absent(2)] h(1)
      by (simp add: sl_insert_def g sl1_def [symmetric] fs allocate_def del: upt_Suc)
    with n h(2,3) mh show ?thesis by (auto simp: sl_rel_def)
  next
    case (present lo c hi)
    note i = inv [unfolded present(1)]
    obtain old h where h: "replace_value (store sl1) (caddr c) (Some v) = Some (old, h)"
      "cell_kv c = (k, old)" "sl_inv (sl1\<lparr>store := h\<rparr>) (lo @ c\<lparr>cval := Some v\<rparr> # hi)"
      using replace_ok [OF i present(2,3)] by blast
    have "map_of es k = Some old"
      using map_of_split(2) [OF cut_kv [OF present(3)], of old] h by (simp add: es present(1))
    moreover have "map cell_kv (lo @ c\<lparr>cval := Some v\<rparr> # hi) = ins_kv k v es"
      using ins_kv_split(2) [OF cut_kv [OF present(3)], of v old] h present
      by (simp add: es cell_kv_def)
    moreover have "sl_insert gh sl k v = Some (Some old, sl1\<lparr>store := h\<rparr>)"
      using search_ok(2) [OF i cut_present [OF i present(2,3)]] match_ok [OF i, of k] h present(2)
      by (simp add: sl_insert_def g sl1_def [symmetric] fs del: upt_Suc)
    ultimately show ?thesis using h(3) mh unfolding sl_rel_def by auto
  qed
qed

lemma insert_all_ok:
  "sl_rel sl es \<Longrightarrow> \<exists>sl'. sl_insert_all gh sl xs = Some sl' \<and>
     sl_rel sl' (fold (\<lambda>(k, v). ins_kv k v) xs es) \<and> max_height sl' = max_height sl"
proof (induction xs arbitrary: sl es)
  case (Cons x xs)
  obtain k v where x: "x = (k, v)" by fastforce
  obtain sl1 where "sl_insert gh sl k v = Some (map_of es k, sl1)" "sl_rel sl1 (ins_kv k v es)"
    "max_height sl1 = max_height sl"
    using insert_ok [OF Cons.prems] by blast
  with Cons.IH [of sl1 "ins_kv k v es"] x show ?case by auto
qed simp

end

subsection \<open>Removal\<close>

text \<open>The state of the unlinking loop after \<open>j\<close> levels: the levels below \<open>j\<close> bypass the
  cell \<open>p\<close>, the others still go through it.\<close>

definition unlink_inv ::
  "('k, 'v) cell list \<Rightarrow> ('k, 'v) cell list \<Rightarrow> ('k, 'v) cell \<Rightarrow> nat \<Rightarrow> ('k, 'v) store \<Rightarrow> bool" where
  "unlink_inv xs hi p j h \<longleftrightarrow>
     repr h xs (\<lambda>i. if i < j then succ_at hi nil_nx i else succ_at (p # hi) nil_nx i) \<and>
     repr h (p # hi) nil_nx"

lemma unlink_level_ok:
  assumes inv: "unlink_inv xs hi p j h" and d: "distinct (map caddr (xs @ p # hi))"
    and j: "j < clev p" "j < length ups" "ups ! j = Some (caddr (pred_at j xs))"
    and ex: "\<exists>x \<in> set xs. j < clev x"
  shows "\<exists>h'. sl_unlink_level ups (caddr p) j h = Some h' \<and> unlink_inv xs hi p (Suc j) h'"
proof -
  let ?nx = "\<lambda>i. if i < j then succ_at hi nil_nx i else succ_at (p # hi) nil_nx i"
  let ?s = "succ_at hi nil_nx j"
  obtain A B where s: "xs = A @ pred_at j xs # B" "j < clev (pred_at j xs)" "\<forall>b \<in> set B. clev b \<le> j"
    using pred_at_split [OF ex] .
  define u where "u = pred_at j xs"
  note s = s [folded u_def]
  define nu where "nu = node_of u (succ_at B ?nx)"
  have rx: "repr h xs ?nx" and rh: "repr h (p # hi) nil_nx"
    using inv by (simp_all only: unlink_inv_def)
  have du: "deref h (caddr u) = Some nu"
    using rx unfolding s(1) by (simp add: repr_append nu_def)
  have nxj: "idx (nexts (node_of p (succ_at hi nil_nx))) j = Some ?s"
    using j(1) by (simp add: idx_def)
  define h1 where "h1 = h[caddr u := Some (nu\<lparr>nexts := (nexts nu)[j := ?s]\<rparr>)]"
  have "sl_unlink_level ups (caddr p) j h = Some h1"
    using j rh du nxj s(2) by (simp add: sl_unlink_level_def idx_def h1_def nu_def u_def)
  moreover have "repr h1 xs (?nx(j := ?s))"
  proof -
    have "repr h (A @ u # B) ?nx" using rx by (simp only: s(1))
    moreover have "distinct (map caddr (A @ u # B))" using d by (auto simp: s(1))
    ultimately have "repr h1 (A @ u # B) (?nx(j := ?s))"
      unfolding h1_def nu_def by (rule repr_relink [OF _ _ s(2,3)])
    then show ?thesis by (simp only: s(1))
  qed
  moreover have "?nx(j := ?s) = (\<lambda>i. if i < Suc j then succ_at hi nil_nx i else succ_at (p # hi) nil_nx i)"
    by (auto simp: fun_eq_iff less_Suc_eq)
  moreover have "repr h1 (p # hi) nil_nx"
    unfolding h1_def using d by (intro repr_frame rh) (auto simp: s(1))
  ultimately show ?thesis by (simp only: unlink_inv_def) auto
qed

lemma unlink_ok:
  assumes "unlink_inv xs hi p j h" "distinct (map caddr (xs @ p # hi))" "j \<le> clev p"
    "\<forall>i < clev p. i < length ups \<and> ups ! i = Some (caddr (pred_at i xs)) \<and> (\<exists>x \<in> set xs. i < clev x)"
  shows "\<exists>h'. sl_unlink ups (caddr p) [j..<clev p] h = Some h' \<and> unlink_inv xs hi p (clev p) h'"
  using assms(1,3)
proof (induction "clev p - j" arbitrary: j h)
  case 0
  then show ?case by simp
next
  case (Suc n)
  then have j: "j < clev p" by simp
  obtain h1 where h1: "sl_unlink_level ups (caddr p) j h = Some h1" "unlink_inv xs hi p (Suc j) h1"
    using unlink_level_ok [OF Suc.prems(1) assms(2) j] assms(4) j by blast
  have "\<exists>h'. sl_unlink ups (caddr p) [Suc j..<clev p] h1 = Some h' \<and> unlink_inv xs hi p (clev p) h'"
    using Suc.hyps(1) [OF _ h1(2)] Suc.hyps(2) j by simp
  then show ?case using h1(1) j by (simp add: upt_rec [of j])
qed

text \<open>The node is freed if values need no drop; otherwise its uninitialised value is dropped.\<close>

lemma remove_unlink:
  assumes inv: "sl_inv sl (lo @ c # hi)" and k: "ckey c = Some k"
  shows "\<exists>h1 old h2 h3.
      sl_unlink (map (\<lambda>i. Some (caddr (pred_at i (head_cell sl # lo)))) [0..<max_height sl + 1])
        (caddr c) [0..<clev c] (store sl) = Some h1 \<and>
      replace_value h1 (caddr c) None = Some (old, h2) \<and> free G h2 (caddr c) = (if value_glue G then None else Some h3) \<and>
      cell_kv c = (k, old) \<and> sl_inv (sl\<lparr>store := h3, slen := slen sl - 1\<rparr>) (lo @ hi)"
proof -
  let ?xs = "head_cell sl # lo"
  let ?ups = "map (\<lambda>i. Some (caddr (pred_at i ?xs))) [0..<max_height sl + 1]"
  obtain v where v: "cval c = Some v" "cell_kv c = (k, v)" using present_value [OF inv k] by blast
  have d: "distinct (map caddr (?xs @ c # hi))" using sl_invD(2) [OF inv] by simp
  have r: "repr (store sl) (?xs @ c # hi) nil_nx" using sl_invD(1) [OF inv] by simp
  have "repr (store sl) ?xs (succ_at (c # hi) nil_nx)" "repr (store sl) (c # hi) nil_nx"
    using r unfolding repr_append by simp_all
  then have "unlink_inv ?xs hi c 0 (store sl)" by (simp add: unlink_inv_def del: succ_at.simps repr.simps)
  moreover have "clev c \<le> max_height sl + 1"
    using sl_invD(4) [OF inv, of c] sl_invD(3) [OF inv] by (simp add: cell_ok_def)
  ultimately obtain h1 where h1: "sl_unlink ?ups (caddr c) [0..<clev c] (store sl) = Some h1"
    "unlink_inv ?xs hi c (clev c) h1"
    using unlink_ok [OF _ d, of 0 "store sl" ?ups] by (auto simp del: upt_Suc)
  have "(\<lambda>i. if i < clev c then succ_at hi nil_nx i else succ_at (c # hi) nil_nx i) = succ_at hi nil_nx"
    by (simp add: fun_eq_iff)
  with h1(2) have rs: "repr h1 ?xs (succ_at hi nil_nx)" "repr h1 (c # hi) nil_nx"
    by (simp_all only: unlink_inv_def)
  define h2 where "h2 = h1[caddr c := Some ((node_of c (succ_at hi nil_nx))\<lparr>nvalue := None\<rparr>)]"
  define h3 where "h3 = h2[caddr c := None]"
  have dc: "deref h1 (caddr c) = Some (node_of c (succ_at hi nil_nx))" using rs(2) by simp
  have rv: "replace_value h1 (caddr c) None = Some (v, h2)"
    using dc v by (simp add: replace_value_def h2_def)
  have fr: "free G h2 (caddr c) = (if value_glue G then None else Some h3)"
    using deref_update_same [OF dc] k by (simp add: free_def h3_def h2_def drop_ok_def node_of_def)
  have "repr h3 ?xs (succ_at hi nil_nx)" "repr h3 hi nil_nx"
    unfolding h3_def h2_def using rs d by (auto intro!: repr_frame)
  then have rp: "repr h3 (?xs @ hi) nil_nx" unfolding repr_append by simp
  have "sorted_kv (map cell_kv (lo @ hi))"
    using sl_invD(5) [OF inv] by (simp add: sorted_kv_def sorted_wrt_append)
  then have "sl_inv (sl\<lparr>store := h3, slen := slen sl - 1\<rparr>) (lo @ hi)"
    unfolding sl_inv_def using rp d sl_invD(3,4,6) [OF inv] by simp
  with h1(1) rv fr v show ?thesis by blast
qed

lemma remove_absent:
  assumes "sl_rel sl es" "map_of es k = None"
  shows "sl_remove G sl k = Some (None, sl)"
proof -
  obtain cs where inv: "sl_inv sl cs" and es: "es = map cell_kv cs" using assms(1) by (auto simp: sl_rel_def)
  from inv show ?thesis
  proof (cases rule: inv_cut [where k = k])
    case (absent lo hi)
    note i = inv [unfolded absent(1)]
    show ?thesis
      using search_ok(2) [OF i cut_absent(1) [OF i absent(2)]] match_ok [OF i, of k]
        cut_absent(2) [OF i absent(2)] by (simp add: sl_remove_def del: upt_Suc)
  next
    case (present lo c hi)
    obtain old where "cell_kv c = (k, old)" using present_value [OF inv [unfolded present(1)] present(2)] by blast
    then show ?thesis
      using map_of_split(2) [OF cut_kv [OF present(3)], of old] assms(2) by (simp add: es present(1))
  qed
qed

lemma remove_present:
  assumes "sl_rel sl es" "map_of es k = Some v"
  shows "\<exists>h3. sl_rel (sl\<lparr>store := h3, slen := slen sl - 1\<rparr>) (del_kv k es) \<and>
    sl_remove G sl k = (if value_glue G then None else Some (Some v, sl\<lparr>store := h3, slen := slen sl - 1\<rparr>))"
proof -
  obtain cs where inv: "sl_inv sl cs" and es: "es = map cell_kv cs" using assms(1) by (auto simp: sl_rel_def)
  from inv show ?thesis
  proof (cases rule: inv_cut [where k = k])
    case (absent lo hi)
    then show ?thesis using map_of_split(1) [OF cut_kv [OF absent(2)]] assms(2) by (simp add: es map_add_Some_iff)
  next
    case (present lo c hi)
    note i = inv [unfolded present(1)]
    obtain h1 old h2 h3 where h:
      "sl_unlink (map (\<lambda>i. Some (caddr (pred_at i (head_cell sl # lo)))) [0..<max_height sl + 1])
        (caddr c) [0..<clev c] (store sl) = Some h1"
      "replace_value h1 (caddr c) None = Some (old, h2)" "free G h2 (caddr c) = (if value_glue G then None else Some h3)"
      "cell_kv c = (k, old)" "sl_inv (sl\<lparr>store := h3, slen := slen sl - 1\<rparr>) (lo @ hi)"
      using remove_unlink [OF i present(2)] by blast
    have "0 < clev c" using sl_invD(4) [OF i, of c] by (simp add: cell_ok_def)
    moreover have "deref (store sl) (caddr c) = Some (node_of c (succ_at hi nil_nx))"
      using present_value [OF i present(2)] by blast
    ultimately have "sl_remove G sl k = (if value_glue G then None else Some (Some old, sl\<lparr>store := h3, slen := slen sl - 1\<rparr>))"
      using search_ok(2) [OF i cut_present [OF i present(2,3)]] match_ok [OF i, of k] h present(2)
      by (simp add: sl_remove_def node_height_def del: upt_Suc)
    moreover have "map_of es k = Some old" "del_kv k es = map cell_kv (lo @ hi)"
      using map_of_split(2) [OF cut_kv [OF present(3)], of old]
        ins_kv_split(3) [OF cut_kv [OF present(3)], of old] h(4) by (simp_all add: es present(1))
    moreover have "sl_rel (sl\<lparr>store := h3, slen := slen sl - 1\<rparr>) (map cell_kv (lo @ hi))" using h(5) unfolding sl_rel_def by blast
    ultimately show ?thesis using assms(2) by (intro exI [of _ h3]) simp
  qed
qed

subsection \<open>Construction, iteration, clearing and cloning\<close>

lemma new_ok: "sl_rel (sl_new_with_height_generator mh g) []"
  unfolding sl_rel_def
  by (intro exI [of _ "[]"])
    (auto simp: sl_inv_def sl_new_with_height_generator_def allocate_dummy_def allocate_def
      deref_def node_of_def head_cell_def map_replicate_const simp del: upt_Suc replicate_Suc)

lemma iter_from_ok:
  "repr h (c # cs) nil_nx \<Longrightarrow> 0 < clev c \<Longrightarrow> \<forall>x \<in> set cs. cell_ok ht x \<Longrightarrow>
   sl_iter_from h (Some (caddr c)) = Some (map cell_kv cs)"
proof (induction cs arbitrary: c)
  case Nil
  then show ?case by (subst sl_iter_from.simps) (simp add: sl_iter_next_def)
next
  case (Cons x cs)
  then obtain k v where kv: "ckey x = Some k" "cval x = Some v" "0 < clev x"
    by (auto simp: cell_ok_def)
  have "sl_iter_from h (Some (caddr x)) = Some (map cell_kv cs)"
    using Cons kv by simp
  then show ?case
    using Cons.prems kv by (subst sl_iter_from.simps) (simp add: sl_iter_next_def cell_kv_def)
qed

lemma iter_ok: "sl_rel sl es \<Longrightarrow> sl_iter sl = Some es"
  using iter_from_ok [of "store sl" "head_cell sl"] unfolding sl_rel_def sl_iter_def
  by (metis head_cell_simps(1,2) sl_invD(1,4) zero_less_Suc Suc_eq_plus1)

text \<open>\<open>dispose\<close> frees every node of the list exactly once and leaves the head.\<close>

lemma free_cell:
  "deref h (caddr c) = Some (node_of c nx) \<Longrightarrow> cell_ok ht c \<Longrightarrow> free G h (caddr c) = Some (h[caddr c := None])"
  by (auto simp: free_def drop_ok_def cell_ok_def node_of_def)

lemma dispose_from_ok:
  "repr h (c # cs) nil_nx \<Longrightarrow> distinct (map caddr (c # cs)) \<Longrightarrow> 0 < clev c \<Longrightarrow>
   \<forall>x \<in> set (if b then cs else c # cs). cell_ok ht x \<Longrightarrow>
   sl_dispose_from G h (caddr c) b =
     Some (fold (\<lambda>x h. h[caddr x := None]) (if b then cs else c # cs) h)"
proof (induction cs arbitrary: c b h)
  case Nil
  then show ?case by (subst sl_dispose_from.simps) (auto simp: free_cell)
next
  case (Cons x cs)
  let ?h = "if b then h else h[caddr c := None]"
  have ok: "cell_ok ht x" "\<forall>y \<in> set cs. cell_ok ht y" "\<not> b \<Longrightarrow> cell_ok ht c" using Cons.prems(4) by (auto split: if_splits)
  have "repr ?h (x # cs) nil_nx" using Cons.prems repr_frame [of h "x # cs" nil_nx "caddr c" None] by auto
  then have "sl_dispose_from G ?h (caddr x) False = Some (fold (\<lambda>x h. h[caddr x := None]) (x # cs) ?h)"
    using Cons.IH [of ?h x False] Cons.prems(2) ok by (simp add: cell_ok_def)
  moreover have "\<not> b \<Longrightarrow> free G h (caddr c) = Some (h[caddr c := None])" using Cons.prems(1) ok(3) by (auto intro: free_cell)
  moreover have "0 < clev x" using ok(1) by (simp add: cell_ok_def)
  ultimately show ?case
    using Cons.prems(1,3) by (subst sl_dispose_from.simps) auto
qed

lemma deref_fold_free:
  "deref (fold (\<lambda>x h. h[caddr x := None]) cs h) a = (if a \<in> caddr ` set cs then None else deref h a)"
proof (induction cs arbitrary: h)
  case (Cons c cs)
  then show ?case by (auto simp: deref_def)
qed simp

lemma dispose_ok:
  assumes inv: "sl_inv sl cs"
  shows "\<exists>n. deref (store sl) (head sl) = Some n \<and> sl_dispose G sl =
    Some ((fold (\<lambda>x h. h[caddr x := None]) cs (store sl))[head sl := Some (n\<lparr>nexts := []\<rparr>)])"
proof -
  let ?h = "fold (\<lambda>x h. h[caddr x := None]) cs (store sl)"
  have "sl_dispose_from G (store sl) (head sl) True = Some ?h"
    using dispose_from_ok [OF sl_invD(1,2) [OF inv], of True "height sl" G] sl_invD(4) [OF inv] by simp
  moreover have "deref ?h (head sl) = deref (store sl) (head sl)"
    using sl_invD(2) [OF inv] by (simp add: deref_fold_free)
  moreover have "deref (store sl) (head sl) = Some (node_of (head_cell sl) (succ_at cs nil_nx))"
    using sl_invD(1) [OF inv] by simp
  ultimately show ?thesis by (simp add: sl_dispose_def)
qed

lemma clear_ok:
  assumes "sl_rel sl es"
  shows "\<exists>sl'. sl_clear G sl = Some sl' \<and> sl_rel sl' [] \<and> max_height sl' = max_height sl"
proof -
  obtain cs where inv: "sl_inv sl cs" using assms by (auto simp: sl_rel_def)
  obtain h where h: "sl_dispose G sl = Some h" using dispose_ok [OF inv] by blast
  let ?n = "\<lparr>nexts = replicate (max_height sl + 1) None, nkey = None, nvalue = None\<rparr>"
  have "sl_inv (sl\<lparr>store := h @ [Some ?n], head := length h, slen := 0, height := 0\<rparr>) []"
    by (auto simp: sl_inv_def node_of_def head_cell_def map_replicate_const
        simp del: upt_Suc replicate_Suc)
  with h show ?thesis
    by (auto simp: sl_clear_def allocate_dummy_def allocate_def sl_rel_def)
qed

lemma fold_ins_sorted:
  "sorted_kv (xs @ ys) \<Longrightarrow> fold (\<lambda>(k, v). ins_kv k v) ys xs = xs @ ys"
proof (induction ys arbitrary: xs)
  case (Cons y ys)
  obtain k v where y: "y = (k, v)" by fastforce
  have "\<forall>e \<in> set xs. fst e < k"
    using Cons.prems by (auto simp: sorted_kv_def sorted_wrt_append y)
  then have "ins_kv k v xs = xs @ [(k, v)]" using ins_kv_split(1) [of xs k "[]" v] by simp
  with Cons show ?case by (simp add: y)
qed simp

lemma clone_ok:
  assumes "sl_rel sl es"
  shows "\<exists>sl'. sl_clone sl rng = Some sl' \<and> sl_rel sl' es \<and> max_height sl' = max_height sl"
proof -
  have "fold (\<lambda>(k, v). ins_kv k v) es [] = es"
    using fold_ins_sorted [of "[]" es] sl_rel_sorted [OF assms] by simp
  then show ?thesis
    using gh.insert_all_ok [OF new_ok, of "max_height sl" rng es] iter_ok [OF assms]
    by (simp add: sl_clone_def sl_new_def)
      (auto simp: sl_new_with_height_generator_def allocate_dummy_def allocate_def)
qed

end
