(* ===== verification/Table.thy ===== *)
theory Table
  imports SkipList_Correct
begin

text \<open>
  The \<open>Table\<close> trait of \<open>mirdb-server/src/types.rs\<close> as a contract over sorted association
  lists, and its interpretation on the skip list (whose methods the memtable forwards to).
\<close>

locale ordered_table =
  fixes rel :: "'s \<Rightarrow> ('k :: linorder \<times> 'v) list \<Rightarrow> bool"
    and get :: "'s \<Rightarrow> 'k \<Rightarrow> 'v option option"
    and insert :: "'s \<Rightarrow> 'k \<Rightarrow> 'v \<Rightarrow> ('v option \<times> 's) option"
    and clear :: "'s \<Rightarrow> 's option"
  assumes rel_sorted: "rel s es \<Longrightarrow> sorted_kv es"
    and get_spec: "rel s es \<Longrightarrow> get s k = Some (map_of es k)"
    and insert_spec: "rel s es \<Longrightarrow> \<exists>s'. insert s k v = Some (map_of es k, s') \<and> rel s' (ins_kv k v es)"
    and clear_spec: "rel s es \<Longrightarrow> \<exists>s'. clear s = Some s' \<and> rel s' []"

text \<open>Inserting a list of entries one after the other.\<close>

fun insert_each ::
  "('s \<Rightarrow> 'k \<Rightarrow> 'v \<Rightarrow> ('v option \<times> 's) option) \<Rightarrow> 's \<Rightarrow> ('k \<times> 'v) list \<Rightarrow> 's option" where
  "insert_each ins s [] = Some s"
| "insert_each ins s ((k, v) # es) = Option.bind (ins s k v) (\<lambda>(_, s'). insert_each ins s' es)"

text \<open>Asking a list of tables in order: the first that has the key answers.\<close>

fun get_first :: "('s \<Rightarrow> 'k \<Rightarrow> 'v option option) \<Rightarrow> 's list \<Rightarrow> 'k \<Rightarrow> 'v option option" where
  "get_first get [] k = Some None"
| "get_first get (t # ts) k =
     Option.bind (get t k) (\<lambda>r. case r of Some v \<Rightarrow> Some (Some v) | None \<Rightarrow> get_first get ts k)"

fun first_hit :: "('k \<times> 'v) list list \<Rightarrow> 'k \<Rightarrow> 'v option" where
  "first_hit [] k = None"
| "first_hit (es # ess) k = (case map_of es k of Some v \<Rightarrow> Some v | None \<Rightarrow> first_hit ess k)"

abbreviation put_all :: "('k :: linorder \<times> 'v) list \<Rightarrow> ('k \<times> 'v) list \<Rightarrow> ('k \<times> 'v) list" where
  "put_all xs \<equiv> fold (\<lambda>(k, v). ins_kv k v) xs"

lemma put_all_sorted: "sorted_kv es \<Longrightarrow> sorted_kv (put_all xs es)"
  by (induction xs arbitrary: es) (auto simp: sorted_ins_kv)

lemma map_of_put_all: "sorted_kv es \<Longrightarrow> map_of (put_all xs es) = map_of es ++ map_of (rev xs)"
proof (induction xs arbitrary: es)
  case (Cons x xs)
  obtain k v where x: "x = (k, v)" by fastforce
  have "map_of (put_all (x # xs) es) = (map_of es)(k \<mapsto> v) ++ map_of (rev xs)"
    using Cons.IH [OF sorted_ins_kv [OF Cons.prems], of k v]
    by (simp only: x map_of_ins_kv [OF Cons.prems] fold_simps prod.case)
  also have "\<dots> = map_of es ++ map_of (rev xs @ [x])"
    by (simp add: x map_add_def fun_eq_iff split: option.splits)
  finally show ?case by simp
qed simp

context ordered_table
begin

lemma insert_each_spec:
  "rel s es \<Longrightarrow> \<exists>s'. insert_each insert s xs = Some s' \<and> rel s' (put_all xs es)"
proof (induction xs arbitrary: s es)
  case (Cons x xs)
  obtain k v where x: "x = (k, v)" by fastforce
  obtain s1 where "insert s k v = Some (map_of es k, s1)" "rel s1 (ins_kv k v es)"
    using insert_spec [OF Cons.prems] by blast
  with Cons.IH [of s1 "ins_kv k v es"] x show ?case by simp
qed simp

text \<open>After a sequence of insertions a lookup returns the last value written.\<close>

lemma get_after_inserts:
  assumes "rel s es"
  shows "\<exists>s'. insert_each insert s xs = Some s' \<and> get s' k = Some ((map_of es ++ map_of (rev xs)) k)"
proof -
  obtain s' where "insert_each insert s xs = Some s'" "rel s' (put_all xs es)"
    using insert_each_spec [OF assms] by blast
  with map_of_put_all [OF rel_sorted [OF assms]] get_spec show ?thesis by auto
qed

lemma get_first_spec:
  "list_all2 rel ts ess \<Longrightarrow> get_first get ts k = Some (first_hit ess k)"
  by (induction rule: list_all2_induct) (auto simp: get_spec split: option.splits)

end

interpretation sl: ordered_table sl_rel sl_get "sl_insert gen_height" "sl_clear G" for G
proof unfold_locales
  show "sl_rel s es \<Longrightarrow> \<exists>s'. sl_insert gen_height s k v = Some (map_of es k, s') \<and> sl_rel s' (ins_kv k v es)"
    for s :: "('k :: linorder, 'v, nat stream) skiplist" and es k v
    using gh.insert_ok [of s es k v] by auto
  show "sl_rel s es \<Longrightarrow> \<exists>s'. sl_clear G s = Some s' \<and> sl_rel s' []"
    for s :: "('k :: linorder, 'v, nat stream) skiplist" and es
    using clear_ok [of s es] by auto
qed (simp_all add: sl_rel_sorted get_ok)

lemma sl_insert_all_each: "sl_insert_all gh s xs = insert_each (sl_insert gh) s xs"
  by (induction gh s xs rule: sl_insert_all.induct)
    (auto simp: bind_eq_None_conv intro!: bind_option_cong)

end
