(* ===== verification/Memtable.thy ===== *)
theory Memtable
  imports Table
begin

text \<open>
  Memtables (\<open>mirdb-server/src/memtable.rs\<close>) and the list of immutable ones
  (\<open>memtable_list.rs\<close>).  A memtable is a skip list with a size limit that nothing reads:
  \<open>is_full\<close> always answers no, and \<open>size\<close> panics.
\<close>

record ('k, 'v) memtable =
  mt_max_size :: nat
  mt_size :: nat
  mt_map :: "('k, 'v, nat stream) skiplist"

definition mt_new :: "nat \<Rightarrow> nat \<Rightarrow> nat stream \<Rightarrow> ('k, 'v) memtable" where
  "mt_new sz ht rng = \<lparr>mt_max_size = sz, mt_size = 0, mt_map = sl_new ht rng\<rparr>"

definition mt_iter :: "('k, 'v) memtable \<Rightarrow> ('k \<times> 'v) list option" where
  "mt_iter t = sl_iter (mt_map t)"

definition mt_length :: "('k, 'v) memtable \<Rightarrow> nat" where
  "mt_length t = slen (mt_map t)"

definition mt_get :: "('k :: linorder, 'v) memtable \<Rightarrow> 'k \<Rightarrow> 'v option option" where
  "mt_get t k = sl_get (mt_map t) k"

definition mt_insert ::
  "('k :: linorder, 'v) memtable \<Rightarrow> 'k \<Rightarrow> 'v \<Rightarrow> ('v option \<times> ('k, 'v) memtable) option" where
  "mt_insert t k v = do {
     (r, m) \<leftarrow> sl_insert gen_height (mt_map t) k v;
     Some (r, t\<lparr>mt_map := m\<rparr>)
   }"

definition mt_clear :: "glue \<Rightarrow> ('k, 'v) memtable \<Rightarrow> ('k, 'v) memtable option" where
  "mt_clear G t = do {
     let t = t\<lparr>mt_size := 0\<rparr>;
     m \<leftarrow> sl_clear G (mt_map t);
     Some (t\<lparr>mt_map := m\<rparr>)
   }"

definition mt_is_full :: "('k, 'v) memtable \<Rightarrow> bool" where
  "mt_is_full t = False"

text \<open>\<open>unimplemented!()\<close>.\<close>

definition mt_size_method :: "('k, 'v) memtable \<Rightarrow> nat option" where
  "mt_size_method t = None"

text \<open>The derived \<open>Clone\<close>: the skip list's clone takes a fresh generator.\<close>

definition mt_clone :: "('k :: linorder, 'v) memtable \<Rightarrow> nat stream \<Rightarrow> ('k, 'v) memtable option" where
  "mt_clone t rng = do {
     m \<leftarrow> sl_clone (mt_map t) rng;
     Some \<lparr>mt_max_size = mt_max_size t, mt_size = mt_size t, mt_map = m\<rparr>
   }"

definition mt_rel :: "('k :: linorder, 'v) memtable \<Rightarrow> ('k \<times> 'v) list \<Rightarrow> bool" where
  "mt_rel t es \<longleftrightarrow> sl_rel (mt_map t) es"

subsection \<open>The list of memtables\<close>

record ('k, 'v) memtable_list =
  ml_max_table_count :: nat
  ml_per_table_max_size :: nat
  ml_per_table_max_height :: nat
  ml_tables :: "('k, 'v) memtable list"

definition ml_new :: "nat \<Rightarrow> nat \<Rightarrow> nat \<Rightarrow> ('k, 'v) memtable_list" where
  "ml_new c s h = \<lparr>ml_max_table_count = c, ml_per_table_max_size = s, ml_per_table_max_height = h,
     ml_tables = []\<rparr>"

definition ml_add :: "('k, 'v) memtable_list \<Rightarrow> ('k, 'v) memtable \<Rightarrow> ('k, 'v) memtable_list" where
  "ml_add l t = l\<lparr>ml_tables := t # ml_tables l\<rparr>"

definition ml_consume ::
  "('k, 'v) memtable_list \<Rightarrow> ('k, 'v) memtable option \<times> ('k, 'v) memtable_list" where
  "ml_consume l =
     (if ml_tables l = [] then (None, l)
      else (Some (last (ml_tables l)), l\<lparr>ml_tables := butlast (ml_tables l)\<rparr>))"

definition ml_table_count :: "('k, 'v) memtable_list \<Rightarrow> nat" where
  "ml_table_count l = length (ml_tables l)"

definition ml_get :: "('k :: linorder, 'v) memtable_list \<Rightarrow> 'k \<Rightarrow> 'v option option" where
  "ml_get l k = get_first mt_get (ml_tables l) k"

definition ml_is_full :: "('k, 'v) memtable_list \<Rightarrow> bool" where
  "ml_is_full l \<longleftrightarrow> ml_max_table_count l \<le> length (ml_tables l)"

fun ml_insert_into ::
  "('k :: linorder, 'v) memtable list \<Rightarrow> 'k \<Rightarrow> 'v \<Rightarrow> ('v option \<times> ('k, 'v) memtable list) option" where
  "ml_insert_into [] k v = None"
| "ml_insert_into (t # ts) k v =
     (if \<not> mt_is_full t then Option.bind (mt_insert t k v) (\<lambda>(r, t'). Some (r, t' # ts))
      else Option.bind (ml_insert_into ts k v) (\<lambda>(r, ts'). Some (r, t # ts')))"

definition ml_insert ::
  "('k :: linorder, 'v) memtable_list \<Rightarrow> nat stream \<Rightarrow> 'k \<Rightarrow> 'v \<Rightarrow>
   ('v option \<times> ('k, 'v) memtable_list) option" where
  "ml_insert l rng k v =
     (if ml_is_full l then None
      else do {
        let ts = (if ml_tables l = []
                  then [mt_new (ml_per_table_max_size l) (ml_per_table_max_height l) rng]
                  else ml_tables l);
        (r, ts') \<leftarrow> ml_insert_into ts k v;
        Some (r, l\<lparr>ml_tables := ts'\<rparr>)
      })"

fun clear_each :: "glue \<Rightarrow> ('k, 'v) memtable list \<Rightarrow> unit option" where
  "clear_each G [] = Some ()"
| "clear_each G (t # ts) = Option.bind (mt_clear G t) (\<lambda>_. clear_each G ts)"

definition ml_clear :: "glue \<Rightarrow> ('k, 'v) memtable_list \<Rightarrow> ('k, 'v) memtable_list option" where
  "ml_clear G l = Option.bind (clear_each G (ml_tables l)) (\<lambda>_. Some (l\<lparr>ml_tables := []\<rparr>))"

subsection \<open>Lemmas\<close>

lemma mt_new_rel [simp]: "mt_rel (mt_new s h rng) []"
  by (simp add: mt_rel_def mt_new_def sl_new_def new_ok)

lemma mt_insert_ok:
  "mt_rel t es \<Longrightarrow> \<exists>t'. mt_insert t k v = Some (map_of es k, t') \<and> mt_rel t' (ins_kv k v es)"
  using sl.insert_spec [of "mt_map t" es k v] by (auto simp: mt_rel_def mt_insert_def)

lemma mt_clear_ok: "mt_rel t es \<Longrightarrow> \<exists>t'. mt_clear G t = Some t' \<and> mt_rel t' []"
  using sl.clear_spec [of "mt_map t" es G] by (auto simp: mt_rel_def mt_clear_def)

lemma mt_clone_ok: "mt_rel t es \<Longrightarrow> \<exists>t'. mt_clone t rng = Some t' \<and> mt_rel t' es"
  using clone_ok [of "mt_map t" es rng] by (auto simp: mt_rel_def mt_clone_def)

lemma mt_iter_ok: "mt_rel t es \<Longrightarrow> mt_iter t = Some es"
  by (simp add: mt_rel_def mt_iter_def iter_ok)

lemma mt_length_ok: "mt_rel t es \<Longrightarrow> mt_length t = length es"
  by (simp add: mt_rel_def mt_length_def sl_rel_length)

interpretation mt: ordered_table mt_rel mt_get mt_insert "mt_clear G" for G
proof unfold_locales
  show "mt_rel s es \<Longrightarrow> sorted_kv es" for s :: "('k :: linorder, 'v) memtable" and es
    by (simp add: mt_rel_def sl_rel_sorted)
  show "mt_rel s es \<Longrightarrow> mt_get s k = Some (map_of es k)"
    for s :: "('k :: linorder, 'v) memtable" and es k
    by (simp add: mt_rel_def mt_get_def sl.get_spec)
qed (simp_all add: mt_insert_ok mt_clear_ok)

text \<open>The list as one table: newer tables hide older ones.\<close>

definition ml_rel :: "('k :: linorder, 'v) memtable_list \<Rightarrow> ('k \<times> 'v) list list \<Rightarrow> bool" where
  "ml_rel l ess \<longleftrightarrow> list_all2 mt_rel (ml_tables l) ess"

lemma ml_get_ok: "ml_rel l ess \<Longrightarrow> ml_get l k = Some (first_hit ess k)"
  by (simp add: ml_rel_def ml_get_def mt.get_first_spec)

lemma ml_add_rel: "ml_rel l ess \<Longrightarrow> mt_rel t es \<Longrightarrow> ml_rel (ml_add l t) (es # ess)"
  by (simp add: ml_rel_def ml_add_def)

lemma ml_consume_rel:
  "ml_rel l (ess @ [es]) \<Longrightarrow>
   \<exists>t l'. ml_consume l = (Some t, l') \<and> mt_rel t es \<and> ml_rel l' ess"
  by (auto simp: ml_rel_def ml_consume_def list_all2_append2 list_all2_Cons2)

lemma ml_new_rel [simp]: "ml_rel (ml_new c s h) []"
  by (simp add: ml_rel_def ml_new_def)

lemma ml_insert_ok:
  assumes "ml_rel l ess" "length ess < ml_max_table_count l"
  shows "\<exists>l'. ml_insert l rng k v =
      Some (map_of (if ess = [] then [] else hd ess) k, l') \<and>
      ml_rel l' (ins_kv k v (if ess = [] then [] else hd ess) # tl ess)"
proof -
  have len: "length (ml_tables l) = length ess" using assms(1) by (simp add: ml_rel_def list_all2_lengthD)
  let ?ts = "if ml_tables l = [] then [mt_new (ml_per_table_max_size l) (ml_per_table_max_height l) rng]
    else ml_tables l"
  have "list_all2 mt_rel ?ts (if ess = [] then [[]] else ess)"
    using assms(1) len by (auto simp: ml_rel_def)
  then obtain t ts es ess' where ts: "?ts = t # ts" "(if ess = [] then [[]] else ess) = es # ess'"
    "mt_rel t es" "list_all2 mt_rel ts ess'"
    by (cases ?ts; cases "if ess = [] then [[]] else ess") (auto split: if_splits)
  obtain t' where "mt_insert t k v = Some (map_of es k, t')" "mt_rel t' (ins_kv k v es)"
    using mt_insert_ok [OF ts(3)] by blast
  moreover have "es = (if ess = [] then [] else hd ess)" "ess' = tl ess"
    using ts(2) by (auto split: if_splits)
  ultimately show ?thesis
    using assms(2) len ts by (auto simp: ml_insert_def ml_is_full_def mt_is_full_def ml_rel_def Let_def)
qed

lemma ml_clear_ok: "ml_rel l ess \<Longrightarrow> \<exists>l'. ml_clear G l = Some l' \<and> ml_rel l' []"
proof -
  assume r: "ml_rel l ess"
  have "list_all2 mt_rel ts ess \<Longrightarrow> clear_each G ts = Some ()" for ts :: "('a, 'b) memtable list" and ess
    proof (induction rule: list_all2_induct)
    case (Cons t ts es ess)
    then show ?case using mt_clear_ok [of t es G] by auto
  qed simp
  with r show ?thesis by (auto simp: ml_clear_def ml_rel_def)
qed

end
