(* ===== verification/SkipList_Props.thy ===== *)
theory SkipList_Props
  imports Memtable
begin

text \<open>
  The properties of the skip list and the memtables: refinement of a map by every sequence of
  operations, memory safety of the unlinking and disposal, and clones.
\<close>

subsection \<open>Histories\<close>

datatype ('k, 'v) sl_op = Insert 'k 'v | Remove 'k | Get 'k | Clear | Iterate

datatype ('k, 'v) sl_out = Value "'v option" | Entries "('k \<times> 'v) list" | Done

definition sl_step ::
  "('g \<Rightarrow> nat \<Rightarrow> nat \<times> 'g) \<Rightarrow> glue \<Rightarrow> ('k :: linorder, 'v, 'g) skiplist \<Rightarrow> ('k, 'v) sl_op \<Rightarrow>
   (('k, 'v) sl_out \<times> ('k, 'v, 'g) skiplist) option" where
  "sl_step gh G sl oper =
     (case oper of
        Insert k v \<Rightarrow> map_option (\<lambda>(r, sl'). (Value r, sl')) (sl_insert gh sl k v)
      | Remove k \<Rightarrow> map_option (\<lambda>(r, sl'). (Value r, sl')) (sl_remove G sl k)
      | Get k \<Rightarrow> map_option (\<lambda>r. (Value r, sl)) (sl_get sl k)
      | Clear \<Rightarrow> map_option (\<lambda>sl'. (Done, sl')) (sl_clear G sl)
      | Iterate \<Rightarrow> map_option (\<lambda>es. (Entries es, sl)) (sl_iter sl))"

fun sl_run ::
  "('g \<Rightarrow> nat \<Rightarrow> nat \<times> 'g) \<Rightarrow> glue \<Rightarrow> ('k :: linorder, 'v, 'g) skiplist \<Rightarrow> ('k, 'v) sl_op list \<Rightarrow>
   (('k, 'v) sl_out list \<times> ('k, 'v, 'g) skiplist) option" where
  "sl_run gh G sl [] = Some ([], sl)"
| "sl_run gh G sl (oper # ops) =
     Option.bind (sl_step gh G sl oper) (\<lambda>(r, sl').
       Option.bind (sl_run gh G sl' ops) (\<lambda>(rs, sl''). Some (r # rs, sl'')))"

text \<open>The specification: a finite map, written as the sorted list of its entries.  Removing an
  entry whose value needs a drop is an error.\<close>

definition spec_step ::
  "glue \<Rightarrow> ('k :: linorder \<times> 'v) list \<Rightarrow> ('k, 'v) sl_op \<Rightarrow> (('k, 'v) sl_out \<times> ('k \<times> 'v) list) option" where
  "spec_step G es oper =
     (case oper of
        Insert k v \<Rightarrow> Some (Value (map_of es k), ins_kv k v es)
      | Remove k \<Rightarrow> (if value_glue G \<and> k \<in> fst ` set es then None else Some (Value (map_of es k), del_kv k es))
      | Get k \<Rightarrow> Some (Value (map_of es k), es)
      | Clear \<Rightarrow> Some (Done, [])
      | Iterate \<Rightarrow> Some (Entries es, es))"

fun spec_run ::
  "glue \<Rightarrow> ('k :: linorder \<times> 'v) list \<Rightarrow> ('k, 'v) sl_op list \<Rightarrow> (('k, 'v) sl_out list \<times> ('k \<times> 'v) list) option" where
  "spec_run G es [] = Some ([], es)"
| "spec_run G es (oper # ops) =
     Option.bind (spec_step G es oper) (\<lambda>(r, es').
       Option.bind (spec_run G es' ops) (\<lambda>(rs, es''). Some (r # rs, es'')))"

subsection \<open>Allocated nodes\<close>

definition live :: "('k, 'v) store \<Rightarrow> nat" where
  "live h = length (filter (\<lambda>n. n \<noteq> None) h)"

lemma live_append [simp]: "live (h @ [Some n]) = Suc (live h)"
  by (simp add: live_def)

lemma live_update: "deref h a = Some n \<Longrightarrow> live (h[a := Some n']) = live h"
proof (induction h arbitrary: a)
  case (Cons x h)
  then show ?case by (cases a) (auto simp: live_def deref_def split: if_splits)
qed simp

lemma live_free: "deref h a = Some n \<Longrightarrow> live h = Suc (live (h[a := None]))"
proof (induction h arbitrary: a)
  case (Cons x h)
  then show ?case by (cases a) (auto simp: live_def deref_def split: if_splits)
qed (simp add: deref_def)

lemma live_link: "sl_link ups p is h = Some h' \<Longrightarrow> live h' = live h"
proof (induction ups p "is" h rule: sl_link.induct)
  case (2 ups p i "is" h)
  then obtain h1 where h1: "sl_link_level ups p i h = Some h1" "sl_link ups p is h1 = Some h'" by (auto simp: bind_eq_Some_conv)
  have "live h1 = live h"
    using h1(1) by (auto simp: sl_link_level_def bind_eq_Some_conv Let_def live_update split: if_splits)
  then show ?case using "2.IH" [OF h1] by simp
qed simp

lemma live_unlink: "sl_unlink ups p is h = Some h' \<Longrightarrow> live h' = live h"
proof (induction ups p "is" h rule: sl_unlink.induct)
  case (2 ups p i "is" h)
  then obtain h1 where h1: "sl_unlink_level ups p i h = Some h1" "sl_unlink ups p is h1 = Some h'" by (auto simp: bind_eq_Some_conv)
  have "live h1 = live h"
    using h1(1) by (auto simp: sl_unlink_level_def bind_eq_Some_conv live_update split: if_splits)
  then show ?case using "2.IH" [OF h1] by simp
qed simp

lemma live_insert: "sl_insert gh sl k v = Some (r, sl') \<Longrightarrow> live (store sl') + slen sl = live (store sl) + slen sl'"
  by (auto simp: sl_insert_def bind_eq_Some_conv Let_def allocate_def replace_value_def live_update
      split: option.splits prod.splits dest!: live_link)

lemma live_remove:
  "sl_remove G sl k = Some (r, sl') \<Longrightarrow> r \<noteq> None \<longrightarrow> 0 < slen sl \<Longrightarrow> live (store sl') + slen sl = live (store sl) + slen sl'"
  by (auto simp: sl_remove_def bind_eq_Some_conv replace_value_def free_def live_update
      split: option.splits if_splits dest!: live_unlink live_free)

lemma live_fold_free:
  "\<forall>c \<in> set cs. deref h (caddr c) \<noteq> None \<Longrightarrow> distinct (map caddr cs) \<Longrightarrow>
   live h = length cs + live (fold (\<lambda>x h. h[caddr x := None]) cs h)"
proof (induction cs arbitrary: h)
  case (Cons c cs)
  then obtain n where n: "deref h (caddr c) = Some n" by auto
  have "caddr c \<noteq> caddr x" if "x \<in> set cs" for x using Cons.prems(2) that by (metis distinct.simps(2) image_eqI list.simps(9) set_map)
  then have "deref (h[caddr c := None]) (caddr x) = deref h (caddr x)" if "x \<in> set cs" for x
    using that by (simp add: deref_def)
  then have "\<forall>x \<in> set cs. deref (h[caddr c := None]) (caddr x) \<noteq> None" using Cons.prems(1) by simp
  with Cons.IH [of "h[caddr c := None]"] Cons.prems(2) live_free [OF n] show ?case by simp
qed simp

lemma live_dispose:
  assumes "sl_inv sl cs"
  shows "\<exists>h. sl_dispose G sl = Some h \<and> live (store sl) = length cs + live h \<and> deref h (head sl) \<noteq> None"
proof -
  let ?h = "fold (\<lambda>x h. h[caddr x := None]) cs (store sl)"
  obtain n where n: "deref (store sl) (head sl) = Some n" "sl_dispose G sl = Some (?h[head sl := Some (n\<lparr>nexts := []\<rparr>)])"
    using dispose_ok [OF assms] by blast
  have d: "distinct (map caddr (head_cell sl # cs))" and r: "repr (store sl) (head_cell sl # cs) nil_nx"
    using sl_invD(1,2) [OF assms] by simp_all
  have "deref h (caddr c) \<noteq> None" if "repr h cs nx" "c \<in> set cs" for h :: "('a, 'b) store" and cs nx c
    using that by (induction cs) auto
  then have c: "\<forall>c \<in> set cs. deref (store sl) (caddr c) \<noteq> None" using r by fastforce
  have h: "deref ?h (head sl) = Some n" using d n(1) by (simp add: deref_fold_free)
  have "live (store sl) = length cs + live ?h" using c d by (intro live_fold_free) simp_all
  moreover have "live (?h[head sl := Some (n\<lparr>nexts := []\<rparr>)]) = live ?h" by (rule live_update [OF h])
  moreover have "deref (?h[head sl := Some (n\<lparr>nexts := []\<rparr>)]) (head sl) \<noteq> None" using h by (auto simp: deref_def split: if_splits)
  ultimately show ?thesis using n(2) by auto
qed

subsection \<open>Refinement\<close>

text \<open>The list holds the entries, and \<open>n\<close> more nodes than these are allocated.\<close>

definition holds_with :: "nat \<Rightarrow> ('k :: linorder, 'v, 'g) skiplist \<Rightarrow> ('k \<times> 'v) list \<Rightarrow> bool" where
  "holds_with n sl es \<longleftrightarrow> sl_rel sl es \<and> live (store sl) = length es + n"

lemma new_holds: "holds_with 1 (sl_new_with_height_generator mh g) []"
  using new_ok [of mh g]
  by (simp add: holds_with_def) (simp add: sl_new_with_height_generator_def allocate_dummy_def allocate_def live_def)

lemma clear_holds:
  assumes "holds_with n sl es"
  shows "\<exists>sl'. sl_clear G sl = Some sl' \<and> holds_with (Suc n) sl' []"
proof -
  obtain cs where cs: "sl_inv sl cs" "es = map cell_kv cs" using assms by (auto simp: holds_with_def sl_rel_def)
  obtain h where h: "sl_dispose G sl = Some h" "live (store sl) = length cs + live h" using live_dispose [OF cs(1)] by blast
  obtain sl' where c: "sl_clear G sl = Some sl'" "sl_rel sl' []" using clear_ok [of sl es G] assms by (auto simp: holds_with_def)
  have "live (store sl') = Suc n"
    using c(1) h assms cs(2) by (auto simp: sl_clear_def allocate_dummy_def allocate_def holds_with_def)
  with c show ?thesis by (simp add: holds_with_def)
qed

lemma remove_holds:
  assumes "holds_with n sl es" "\<not> (value_glue G \<and> k \<in> fst ` set es)"
  shows "\<exists>sl'. sl_remove G sl k = Some (map_of es k, sl') \<and> holds_with n sl' (del_kv k es)"
proof -
  have rel: "sl_rel sl es" and lv: "live (store sl) = length es + n" using assms(1) by (simp_all add: holds_with_def)
  show ?thesis
  proof (cases "map_of es k")
    case None
    then have "del_kv k es = es" by (simp add: map_of_eq_None_iff del_kv_absent)
    then show ?thesis using remove_absent [OF rel None] None assms(1) by simp
  next
    case (Some v)
    then have g: "\<not> value_glue G" using assms(2) by (metis map_of_eq_None_iff option.distinct(1))
    obtain h3 where h: "sl_rel (sl\<lparr>store := h3, slen := slen sl - 1\<rparr>) (del_kv k es)"
      "sl_remove G sl k = Some (Some v, sl\<lparr>store := h3, slen := slen sl - 1\<rparr>)" using remove_present [OF rel Some, of G] g by auto
    have "0 < slen sl" using sl_rel_length [OF rel] Some by (cases es) auto
    then have "live h3 + slen sl = live (store sl) + (slen sl - 1)" using live_remove [OF h(2)] by simp
    then have "live h3 = length (del_kv k es) + n" using lv sl_rel_length [OF rel] sl_rel_length [OF h(1)] by simp
    then show ?thesis using h Some by (simp add: holds_with_def)
  qed
qed

context height_generator
begin

lemma insert_holds:
  assumes "holds_with n sl es"
  shows "\<exists>sl'. sl_insert gh sl k v = Some (map_of es k, sl') \<and> holds_with n sl' (ins_kv k v es)"
proof -
  have rel: "sl_rel sl es" and lv: "live (store sl) = length es + n" using assms by (simp_all add: holds_with_def)
  obtain sl' where i: "sl_insert gh sl k v = Some (map_of es k, sl')" "sl_rel sl' (ins_kv k v es)" using insert_ok [OF rel] by blast
  have "live (store sl') = length (ins_kv k v es) + n"
    using live_insert [OF i(1)] lv sl_rel_length [OF rel] sl_rel_length [OF i(2)] by simp
  with i show ?thesis by (simp add: holds_with_def)
qed

lemma step_refines:
  assumes "holds_with n sl es"
  shows "case spec_step G es oper of
      None \<Rightarrow> sl_step gh G sl oper = None
    | Some (r, es') \<Rightarrow> \<exists>sl'. sl_step gh G sl oper = Some (r, sl') \<and> holds_with (if oper = Clear then Suc n else n) sl' es'"
proof (cases oper)
  case (Remove k)
  have rel: "sl_rel sl es" using assms by (simp add: holds_with_def)
  show ?thesis
  proof (cases "value_glue G \<and> k \<in> fst ` set es")
    case True
    then obtain v where "map_of es k = Some v" by (metis map_of_eq_None_iff not_Some_eq)
    then show ?thesis using remove_present [OF rel, of k v G] True Remove by (auto simp: sl_step_def spec_step_def)
  next
    case False
    then show ?thesis using remove_holds [OF assms, of G k] Remove by (auto simp: sl_step_def spec_step_def)
  qed
next
  case (Insert k v)
  then show ?thesis using insert_holds [OF assms, of k v] by (auto simp: sl_step_def spec_step_def)
next
  case Clear
  then show ?thesis using clear_holds [OF assms, of G] by (auto simp: sl_step_def spec_step_def)
qed (use assms get_ok iter_ok in \<open>auto simp: sl_step_def spec_step_def holds_with_def\<close>)

lemma run_refines:
  "holds_with n sl es \<Longrightarrow>
   case spec_run G es ops of
     None \<Rightarrow> sl_run gh G sl ops = None
   | Some (rs, es') \<Rightarrow> \<exists>sl'. sl_run gh G sl ops = Some (rs, sl') \<and> holds_with (n + length (filter (\<lambda>oper. oper = Clear) ops)) sl' es'"
proof (induction ops arbitrary: n sl es)
  case (Cons oper ops)
  show ?case
  proof (cases "spec_step G es oper")
    case None
    then show ?thesis using step_refines [OF Cons.prems, of G oper] by simp
  next
    case (Some a)
    obtain r es1 where a: "a = (r, es1)" by fastforce
    obtain sl1 where s: "sl_step gh G sl oper = Some (r, sl1)" "holds_with (if oper = Clear then Suc n else n) sl1 es1"
      using step_refines [OF Cons.prems, of G oper] Some a by auto
    from Cons.IH [OF s(2)] s(1) Some a show ?thesis by (auto split: option.splits)
  qed
qed simp

end

text \<open>C14: the skip list refines a map.  Whatever heights the random generator draws, a sequence of
  insertions, removals, lookups, clears and iterations on a new list runs without following a bad
  pointer, without dropping what was never initialised and without looping, and returns what a
  sorted map returns; at the end the list holds the map's entries and its length is their number.
  There is one exception, and the run stops there: if the type of the values has drop glue, the
  removal of a key that is in the list drops the uninitialised value it has put into the node.\<close>

theorem skiplist_refines_map:
  "case spec_run G [] ops of
     None \<Rightarrow> sl_run gen_height G (sl_new mh rng) ops = None
   | Some (rs, es) \<Rightarrow> \<exists>sl'. sl_run gen_height G (sl_new mh rng) ops = Some (rs, sl') \<and> sl_iter sl' = Some es \<and> slen sl' = length es"
  using gh.run_refines [OF new_holds, where G = G and ops = ops and mh1 = mh and g1 = rng] iter_ok sl_rel_length
  by (fastforce simp: sl_new_def holds_with_def split: option.splits)

theorem skiplist_refines_map_witness:
  "(\<exists>sl'. sl_run gen_height \<lparr>key_glue = True, value_glue = False\<rparr> (sl_new 4 (sconst 1))
       [Insert 5 ''a'', Insert (3 :: nat) ''b'', Insert 5 ''c'', Remove 3, Get 5] =
     Some ([Value None, Value None, Value (Some ''a''), Value (Some ''b''), Value (Some ''c'')], sl') \<and>
     sl_iter sl' = Some [(5, ''c'')]) \<and>
   sl_run gen_height \<lparr>key_glue = True, value_glue = True\<rparr> (sl_new 4 (sconst 1)) [Insert (5 :: nat) ''a'', Remove 5] = None"
  using skiplist_refines_map [where G = "\<lparr>key_glue = True, value_glue = False\<rparr>"
      and ops = "[Insert 5 ''a'', Insert (3 :: nat) ''b'', Insert 5 ''c'', Remove 3, Get 5]" and mh = 4 and rng = "sconst 1"]
    skiplist_refines_map [where G = "\<lparr>key_glue = True, value_glue = True\<rparr>" and ops = "[Insert (5 :: nat) ''a'', Remove 5]" and mh = 4 and rng = "sconst 1"]
  by (simp add: spec_step_def del: sl_run.simps) blast

text \<open>A list with any other height generator that respects the bound behaves the same; a
  constant one, as the tests use, is an instance.\<close>

theorem skiplist_any_generator:
  assumes "\<And>g m. fst (gh g m) \<le> m" "spec_run G [] ops = Some (rs, es)"
  shows "\<exists>sl'. sl_run gh G (sl_new_with_height_generator mh g) ops = Some (rs, sl') \<and> sl_iter sl' = Some es"
proof -
  have "height_generator gh" using assms(1) by unfold_locales
  from height_generator.run_refines [OF this new_holds, where G = G and ops = ops and mh1 = mh and g1 = g] assms(2) iter_ok show ?thesis
    by (auto simp: holds_with_def)
qed

text \<open>C32: the nodes of a list and its drop.  After any sequence of operations the list can be
  dropped: each of its entries is freed, exactly once.  The head node is not: what stays allocated
  is one node for the list and one for each time it was cleared, whatever else was done to it.\<close>

theorem skiplist_dispose_frees:
  assumes "spec_run G [] ops = Some (rs, es)"
  shows "\<exists>sl h. sl_run gen_height G (sl_new mh rng) ops = Some (rs, sl) \<and> sl_dispose G sl = Some h \<and>
     deref h (head sl) \<noteq> None \<and> live (store sl) = length es + live h \<and>
     live h = 1 + length (filter (\<lambda>oper. oper = Clear) ops)"
proof -
  obtain sl where s: "sl_run gen_height G (sl_new mh rng) ops = Some (rs, sl)"
    "holds_with (1 + length (filter (\<lambda>oper. oper = Clear) ops)) sl es"
    using gh.run_refines [OF new_holds, where G = G and ops = ops and mh1 = mh and g1 = rng] assms by (auto simp: sl_new_def)
  then obtain cs where cs: "sl_inv sl cs" "es = map cell_kv cs" "live (store sl) = length es + (1 + length (filter (\<lambda>oper. oper = Clear) ops))"
    by (auto simp: holds_with_def sl_rel_def)
  obtain h where "sl_dispose G sl = Some h" "live (store sl) = length cs + live h" "deref h (head sl) \<noteq> None"
    using live_dispose [OF cs(1)] by blast
  then show ?thesis using s(1) cs(2,3) by auto
qed

theorem skiplist_dispose_frees_witness:
  "\<exists>rs sl h. sl_run gen_height \<lparr>key_glue = True, value_glue = True\<rparr> (sl_new 4 (sconst 1))
       [Insert (5 :: nat) ''a'', Clear, Insert 3 ''b'', Insert 4 ''c''] = Some (rs, sl) \<and>
     sl_dispose \<lparr>key_glue = True, value_glue = True\<rparr> sl = Some h \<and> live (store sl) = 4 \<and> live h = 2"
proof -
  have "spec_run \<lparr>key_glue = True, value_glue = True\<rparr> [] [Insert (5 :: nat) ''a'', Clear, Insert 3 ''b'', Insert 4 ''c''] =
     Some ([Value None, Done, Value None, Value None], [(3, ''b''), (4, ''c'')])" by (simp add: spec_step_def)
  from skiplist_dispose_frees [OF this, of 4 "sconst 1"] show ?thesis by (auto simp: numeral_eq_Suc)
qed

subsection \<open>Memtables\<close>

text \<open>a memtable returns the last value written.  After any sequence of insertions into a
  new memtable every lookup returns the value of the last insertion under that key, and a
  clone taken then answers the same and iterates over the same entries.\<close>

theorem memtable_last_write:
  "\<exists>t t'. insert_each mt_insert (mt_new sz ht rng) xs = Some t \<and> mt_clone t rng' = Some t' \<and>
     mt_get t k = Some (map_of (rev xs) k) \<and> mt_get t' k = Some (map_of (rev xs) k) \<and>
     mt_iter t' = mt_iter t"
proof -
  obtain t where t: "insert_each mt_insert (mt_new sz ht rng) xs = Some t" "mt_rel t (put_all xs [])"
    using mt.insert_each_spec [OF mt_new_rel] by blast
  obtain t' where t': "mt_clone t rng' = Some t'" "mt_rel t' (put_all xs [])"
    using mt_clone_ok [OF t(2)] by blast
  have "map_of (put_all xs []) = map_of (rev xs)" using map_of_put_all [of "[]" xs] by simp
  with t t' mt.get_spec mt_iter_ok show ?thesis by (metis (no_types, lifting))
qed

text \<open>a list of memtables answers from the newest table that has the key, and consuming
  takes the oldest.\<close>

theorem memtable_list_newest_first:
  assumes "ml_rel l (ess @ [es'])" "mt_rel t es"
  shows "ml_get (ml_add l t) k =
       Some (case map_of es k of Some v \<Rightarrow> Some v | None \<Rightarrow> first_hit (ess @ [es']) k) \<and>
     (\<exists>t' l'. ml_consume (ml_add l t) = (Some t', l') \<and> mt_rel t' es' \<and> ml_rel l' (es # ess))"
  using ml_get_ok [OF ml_add_rel [OF assms]] ml_consume_rel [of "ml_add l t" "es # ess" es']
    ml_add_rel [OF assms] by simp

theorem memtable_list_newest_first_witness:
  "\<exists>t1 t2. mt_insert (mt_new 10 4 (sconst 0)) (5 :: nat) ''a'' = Some (None, t1) \<and>
     mt_insert (mt_new 10 4 (sconst 1)) 5 ''b'' = Some (None, t2) \<and>
     ml_get (ml_add (ml_add (ml_new 3 10 4) t1) t2) 5 = Some (Some ''b'')"
proof -
  obtain t1 where t1: "mt_insert (mt_new 10 4 (sconst 0)) (5 :: nat) ''a'' = Some (None, t1)"
    "mt_rel t1 [(5, ''a'')]"
    using mt_insert_ok [OF mt_new_rel, of 10 4 "sconst 0" "5 :: nat" "''a''"] by auto
  obtain t2 where t2: "mt_insert (mt_new 10 4 (sconst 1)) (5 :: nat) ''b'' = Some (None, t2)"
    "mt_rel t2 [(5, ''b'')]"
    using mt_insert_ok [OF mt_new_rel, of 10 4 "sconst 1" "5 :: nat" "''b''"] by auto
  have r: "ml_rel (ml_add (ml_new 3 10 4) t1) ([] @ [[(5, ''a'')]])"
    using ml_add_rel [OF ml_new_rel t1(2)] by simp
  from memtable_list_newest_first [OF r t2(2), of 5] t1(1) t2(1) show ?thesis by auto
qed

end
