(* ===== verification/Sstable.thy ===== *)
theory Sstable
  imports Block_Read Footer
begin

text \<open>
  Sorted-string tables: the meta block, the block cache, the table builder, the table reader
  and the table iterator (\<open>meta_block.rs\<close>, \<open>cache.rs\<close>, \<open>table_builder.rs\<close>,
  \<open>table_reader.rs\<close>, \<open>table_iter.rs\<close>).  The builder's file is the byte string it has
  written; a reader holds the bytes of the file it opened.  The block cache is shared by every
  reader, so the operations that read a block take it and return it.
\<close>

subsection \<open>The meta block\<close>

definition mb_new :: "bytes \<Rightarrow> bytes \<Rightarrow> exported_filter \<Rightarrow> meta_block" where
  "mb_new mx mn f = \<lparr>mb_max_key = mx, mb_min_key = mn, mb_filter = f\<rparr>"

definition mb_new_with_buffer :: "('f, 'c) libs \<Rightarrow> bytes \<Rightarrow> sst_status + meta_block" where
  "mb_new_with_buffer L buf =
     (case deserialize_meta L buf of Inl e \<Rightarrow> Inl (sst_from_bincode e) | Inr m \<Rightarrow> Inr m)"

definition mb_new_from_location ::
  "('f, 'c) libs \<Rightarrow> random_access \<Rightarrow> block_handle \<Rightarrow> sst_status + meta_block \<times> nat" where
  "mb_new_from_location L r location =
     (case read_bytes r location of
        Inl e \<Rightarrow> Inl e
      | Inr (data, off) \<Rightarrow>
          (case decompress_vec L data of
             Inl e \<Rightarrow> Inl (sst_from_snap e)
           | Inr data' \<Rightarrow>
               (case mb_new_with_buffer L data' of
                  Inl e \<Rightarrow> Inl e
                | Inr m \<Rightarrow> Inr (m, off + length data'))))"

definition mb_reset :: "meta_block \<Rightarrow> meta_block" where
  "mb_reset m = \<lparr>mb_max_key = [], mb_min_key = [], mb_filter = \<lparr>ef_values = [], ef_length = 0\<rparr>\<rparr>"

definition mb_flush ::
  "('f, 'c) libs \<Rightarrow> meta_block \<Rightarrow> bytes \<Rightarrow> nat \<Rightarrow>
   sst_status + bytes \<times> block_handle \<times> meta_block" where
  "mb_flush L m w off =
     (case serialize_meta L m of
        Inl e \<Rightarrow> Inl (sst_from_bincode e)
      | Inr buf \<Rightarrow>
          (case compress_vec L buf of
             Inl e \<Rightarrow> Inl (sst_from_snap e)
           | Inr buf' \<Rightarrow> Inr (write_at w off buf', bh off (length buf'), mb_reset m)))"

subsection \<open>The block cache\<close>

record 'c cache =
  cache_inner :: 'c
  cache_id :: nat

definition cache_new :: "('f, 'c) libs \<Rightarrow> nat \<Rightarrow> 'c cache option" where
  "cache_new L capacity =
     (if capacity > 0 then Some \<lparr>cache_inner = lru_new L capacity, cache_id = 0\<rparr> else None)"

definition new_cache_id :: "'c cache \<Rightarrow> nat \<times> 'c cache" where
  "new_cache_id c = (cache_id c + 1, c\<lparr>cache_id := cache_id c + 1\<rparr>)"

definition cache_insert :: "('f, 'c) libs \<Rightarrow> 'c cache \<Rightarrow> bytes \<Rightarrow> block \<Rightarrow> 'c cache" where
  "cache_insert L c k b = c\<lparr>cache_inner := lru_put L (cache_inner c) k b\<rparr>"

definition cache_get :: "('f, 'c) libs \<Rightarrow> 'c cache \<Rightarrow> bytes \<Rightarrow> block option \<times> 'c cache" where
  "cache_get L c k =
     (let (r, inner) = lru_get L (cache_inner c) k in (r, c\<lparr>cache_inner := inner\<rparr>))"

definition cache_count :: "('f, 'c) libs \<Rightarrow> 'c cache \<Rightarrow> nat" where
  "cache_count L c = lru_len L (cache_inner c)"

definition cache_cap :: "('f, 'c) libs \<Rightarrow> 'c cache \<Rightarrow> nat" where
  "cache_cap L c = lru_cap L (cache_inner c)"

subsection \<open>The table builder\<close>

record 'f table_builder =
  tb_file :: bytes
  tb_path :: string
  tb_opt :: options
  tb_offset :: nat
  tb_total_size_estimate :: nat
  data_block :: block_builder
  index_block :: block_builder
  tb_min_key :: "bytes option"
  tb_max_key :: "bytes option"
  tb_filter :: 'f

text \<open>Opening with \<open>create\<close> and \<open>truncate\<close>: the file starts empty.\<close>

definition tb_new :: "('f, 'c) libs \<Rightarrow> string \<Rightarrow> options \<Rightarrow> 'f table_builder" where
  "tb_new L path opt =
     \<lparr>tb_file = [], tb_path = path, tb_opt = opt, tb_offset = 0, tb_total_size_estimate = 0,
      data_block = bb_new opt, index_block = bb_new opt, tb_min_key = None, tb_max_key = None,
      tb_filter = cf_new L\<rparr>"

definition current_size_estimate :: "'f table_builder \<Rightarrow> nat" where
  "current_size_estimate t =
     size_estimate (data_block t) + size_estimate (index_block t) + tb_offset t + FULL_FOOTER_LENGTH"

text \<open>The index entry's value is the handle, encoded into a buffer of 16 bytes.\<close>

definition write_data_block ::
  "('f, 'c) libs \<Rightarrow> 'f table_builder \<Rightarrow> bytes \<Rightarrow> (sst_status, 'f table_builder) fallible" where
  "write_data_block L t next_key =
     (let sep = find_shortest_sep (last_key (data_block t)) next_key
      in tryO (Some (bb_flush L (data_block t) (tb_file t) (tb_offset t))) (\<lambda>(w, h, _). do {
           (bh_buf, n) \<leftarrow> bh_encode_to L h (replicate 16 0);
           v \<leftarrow> subslice bh_buf 0 n;
           ib \<leftarrow> bb_add L (index_block t) sep v;
           Some (Inr (t\<lparr>tb_file := w, tb_offset := offset h + bh_size h, index_block := ib,
                        data_block := bb_new (tb_opt t)\<rparr>))
         }))"

definition tb_add ::
  "('f, 'c) libs \<Rightarrow> 'f table_builder \<Rightarrow> bytes \<Rightarrow> bytes \<Rightarrow> (sst_status, 'f table_builder) fallible"
  where
  "tb_add L t0 k v =
     (let t1 = t0\<lparr>tb_total_size_estimate := tb_total_size_estimate t0 + (length k + length v)\<rparr>
      in tryO (if size_estimate (data_block t1) > block_size (tb_opt t1)
               then write_data_block L t1 k else Some (Inr t1)) (\<lambda>t. do {
           db \<leftarrow> bb_add L (data_block t) k v;
           case cf_add L (tb_filter t) k of
             Inl e \<Rightarrow> Some (Inl (sst_from_cuckoo e))
           | Inr f \<Rightarrow>
               Some (Inr (t\<lparr>data_block := db, tb_filter := f,
                 tb_min_key := (if tb_min_key t = None then Some k else tb_min_key t),
                 tb_max_key := Some k\<rparr>))
         }))"

definition tb_flush ::
  "('f, 'c) libs \<Rightarrow> 'f table_builder \<Rightarrow> (sst_status, 'f table_builder) fallible" where
  "tb_flush L t0 =
     tryO (write_data_block L t0 (find_short_succ (last_key (data_block t0)))) (\<lambda>t. do {
       mx \<leftarrow> tb_max_key t;
       mn \<leftarrow> tb_min_key t;
       tryO (Some (mb_flush L (mb_new mx mn (cf_export L (tb_filter t))) (tb_file t) (tb_offset t)))
         (\<lambda>(w1, meta_bh, _).
           let off1 = offset meta_bh + bh_size meta_bh in
           tryO (Some (bb_flush L (index_block t) w1 off1)) (\<lambda>(w2, index_bh, ib). do {
             let off2 = offset index_bh + bh_size index_bh;
             (w3, _) \<leftarrow> footer_flush L \<lparr>meta_index = meta_bh, footer_index = index_bh\<rparr> w2 off2;
             Some (Inr (t\<lparr>tb_file := w3, tb_offset := off2, index_block := ib\<rparr>))
           }))
     })"

text \<open>Adding every entry of a list, as the callers of the builder do.\<close>

fun tb_add_all ::
  "('f, 'c) libs \<Rightarrow> 'f table_builder \<Rightarrow> entry list \<Rightarrow> (sst_status, 'f table_builder) fallible" where
  "tb_add_all L t [] = Some (Inr t)"
| "tb_add_all L t ((k, v) # es) = tryO (tb_add L t k v) (\<lambda>t'. tb_add_all L t' es)"

subsection \<open>The table reader\<close>

record 'f table_reader =
  tr_file :: bytes
  tr_file_size :: nat
  tr_opt :: options
  tr_cache_id :: nat
  tr_footer :: footer
  tr_index_block :: block
  tr_min_key :: bytes
  tr_max_key :: bytes
  tr_size :: nat
  tr_file_name :: string
  tr_seek_miss_count :: nat
  tr_filter :: 'f

text \<open>Opening a table: the footer is at the end, it points to the meta block and the index
  block.\<close>

definition tr_new ::
  "('f, 'c) libs \<Rightarrow> string \<Rightarrow> bytes \<Rightarrow> options \<Rightarrow> 'c cache \<Rightarrow>
   (sst_status, 'f table_reader \<times> 'c cache) fallible" where
  "tr_new L file_name f opt c =
     (let sz = length f in
      if sz \<le> FULL_FOOTER_LENGTH then None
      else tryO (footer_read L (buffer_read_at f) (sz - FULL_FOOTER_LENGTH)) (\<lambda>ft.
        tryO (Some (mb_new_from_location L (buffer_read_at f) (meta_index ft))) (\<lambda>(mb, _).
          tryO (block_new_from_location L (buffer_read_at f) (footer_index ft) opt) (\<lambda>(ib, _).
            let (cid, c') = new_cache_id c in
            Some (Inr (\<lparr>tr_file = f, tr_file_size = sz, tr_opt = opt, tr_cache_id = cid,
              tr_footer = ft, tr_index_block = ib, tr_min_key = mb_min_key mb,
              tr_max_key = mb_max_key mb, tr_size = sz, tr_file_name = file_name,
              tr_seek_miss_count = 0, tr_filter = cf_import L (mb_filter mb)\<rparr>, c'))))))"

definition incr_seek_miss_count :: "'f table_reader \<Rightarrow> 'f table_reader" where
  "incr_seek_miss_count t = t\<lparr>tr_seek_miss_count := tr_seek_miss_count t + 1\<rparr>"

definition reset_seek_miss_count :: "'f table_reader \<Rightarrow> nat \<times> 'f table_reader" where
  "reset_seek_miss_count t = (tr_seek_miss_count t, t\<lparr>tr_seek_miss_count := 0\<rparr>)"

definition gen_cache_key :: "('f, 'c) libs \<Rightarrow> 'f table_reader \<Rightarrow> block_handle \<Rightarrow> bytes" where
  "gen_cache_key L t h = encode_fixed64 L (of_nat (tr_cache_id t)) @ encode_fixed64 L (of_nat (offset h))"

definition read_block ::
  "('f, 'c) libs \<Rightarrow> 'f table_reader \<Rightarrow> block_handle \<Rightarrow> 'c cache \<Rightarrow>
   ((sst_status + block option) \<times> 'c cache) option" where
  "read_block L t h c =
     (let key = gen_cache_key L t h; (res, c1) = cache_get L c key in
      case res of
        Some b \<Rightarrow> Some (Inr (Some b), c1)
      | None \<Rightarrow>
          (case block_new_from_location L (buffer_read_at (tr_file t)) h (tr_opt t) of
             None \<Rightarrow> None
           | Some (Inl e) \<Rightarrow> Some (Inl e, c1)
           | Some (Inr (b, _)) \<Rightarrow> Some (Inr (Some b), cache_insert L c1 key b)))"

subsection \<open>The table iterator\<close>

text \<open>The iterator borrows its table; its own state is the index iterator, the state of the
  iterator in the current block, and that block.  The shared cache travels with it.\<close>

record 'c table_iter =
  ti_index :: block_iter_state
  ti_data_state :: block_iter_state
  ti_data_block :: "block option"
  ti_cache :: "'c cache"

definition index_bytes :: "'f table_reader \<Rightarrow> bytes" where
  "index_bytes t = blk_data (tr_index_block t)"

definition ti_new :: "('f, 'c) libs \<Rightarrow> 'f table_reader \<Rightarrow> 'c cache \<Rightarrow> 'c table_iter option" where
  "ti_new L t c = do {
     ii \<leftarrow> block_iter L (index_bytes t);
     Some \<lparr>ti_index = ii, ti_data_state = bis_new 0, ti_data_block = None, ti_cache = c\<rparr>
   }"

definition ti_valid :: "'c table_iter \<Rightarrow> bool" where
  "ti_valid s = (case ti_data_block s of None \<Rightarrow> False | Some b \<Rightarrow> bi_valid (ti_data_state s))"

definition ti_current_k :: "'c table_iter \<Rightarrow> bytes option" where
  "ti_current_k s = (case ti_data_block s of None \<Rightarrow> None | Some b \<Rightarrow> bi_current_k (ti_data_state s))"

definition ti_current_v :: "'c table_iter \<Rightarrow> bytes option option" where
  "ti_current_v s =
     (case ti_data_block s of None \<Rightarrow> Some None | Some b \<Rightarrow> bi_current_v (blk_data b) (ti_data_state s))"

definition ti_reset :: "'c table_iter \<Rightarrow> 'c table_iter" where
  "ti_reset s = s\<lparr>ti_index := bi_reset (ti_index s), ti_data_block := None,
                  ti_data_state := bi_reset (ti_data_state s)\<rparr>"

abbreviation index_kv :: "bytes \<Rightarrow> block_iter_state \<Rightarrow> entry option option" where
  "index_kv blk \<equiv> ss_current_kv bi_valid bi_current_k (bi_current_v blk)"

text \<open>The first part of \<open>advance\<close> and \<open>prev\<close>: stepping inside the current block, if there is
  one.\<close>

definition ti_data_step ::
  "(bytes \<Rightarrow> block_iter_state \<Rightarrow> (bool \<times> block_iter_state) option) \<Rightarrow> 'c table_iter \<Rightarrow>
   (bool \<times> 'c table_iter) option" where
  "ti_data_step step s =
     (case ti_data_block s of
        None \<Rightarrow> Some (False, s)
      | Some b \<Rightarrow> do {
          (r, st) \<leftarrow> step (blk_data b) (ti_data_state s);
          Some (r, s\<lparr>ti_data_state := st\<rparr>)
        })"

text \<open>\<open>advance\<close> calls itself after it has loaded the next block, and when that block cannot be
  read.\<close>

partial_function (option) ti_advance ::
  "('f, 'c) libs \<Rightarrow> 'f table_reader \<Rightarrow> 'c table_iter \<Rightarrow> (bool \<times> 'c table_iter) option" where
  "ti_advance L t s0 =
     Option.bind (ti_data_step (bi_advance L) s0) (\<lambda>(r, s).
       if r then Some (True, s)
       else Option.bind (bi_advance L (index_bytes t) (ti_index s)) (\<lambda>(ri, ii).
         let s1 = s\<lparr>ti_index := ii\<rparr> in
         if \<not> ri then Some (False, s1)
         else Option.bind (index_kv (index_bytes t) ii) (\<lambda>kv.
           case kv of
             None \<Rightarrow> Some (False, s1)
           | Some (_, v) \<Rightarrow>
               Option.bind (bh_decode L v) (\<lambda>(h, _).
                 Option.bind (read_block L t h (ti_cache s1)) (\<lambda>(rb, c).
                   let s2 = s1\<lparr>ti_cache := c\<rparr> in
                   case rb of
                     Inr (Some b) \<Rightarrow>
                       Option.bind (restarts_offset_of L (blk_data b)) (\<lambda>ro.
                         ti_advance L t (s2\<lparr>ti_data_state := bis_new ro, ti_data_block := Some b\<rparr>))
                   | Inr None \<Rightarrow> Some (False, s2)
                   | Inl _ \<Rightarrow> ti_advance L t s2)))))"

definition ti_prev ::
  "('f, 'c) libs \<Rightarrow> 'f table_reader \<Rightarrow> 'c table_iter \<Rightarrow> (bool \<times> 'c table_iter) option" where
  "ti_prev L t s0 = do {
     (r, s) \<leftarrow> ti_data_step (bi_prev L) s0;
     if r then Some (True, s)
     else do {
       (ri, ii) \<leftarrow> bi_prev L (index_bytes t) (ti_index s);
       let s1 = s\<lparr>ti_index := ii\<rparr>;
       if \<not> ri then Some (False, ti_reset s1)
       else do {
         kv \<leftarrow> index_kv (index_bytes t) ii;
         case kv of
           None \<Rightarrow> Some (False, ti_reset s1)
         | Some (_, v) \<Rightarrow> do {
             (h, _) \<leftarrow> bh_decode L v;
             (rb, c) \<leftarrow> read_block L t h (ti_cache s1);
             let s2 = s1\<lparr>ti_cache := c\<rparr>;
             case rb of
               Inr (Some b) \<Rightarrow> do {
                 it \<leftarrow> block_iter L (blk_data b);
                 st \<leftarrow> bi_seek_to_last L (blk_data b) it;
                 Some (True, s2\<lparr>ti_data_state := st, ti_data_block := Some b\<rparr>)
               }
             | Inr None \<Rightarrow> Some (False, ti_reset s2)
             | Inl _ \<Rightarrow> Some (False, ti_reset s2)
           }
       }
     }
   }"

definition ti_seek ::
  "('f, 'c) libs \<Rightarrow> 'f table_reader \<Rightarrow> 'c table_iter \<Rightarrow> bytes \<Rightarrow> 'c table_iter option" where
  "ti_seek L t s0 target = do {
     let s = ti_reset s0;
     ii \<leftarrow> bi_seek L (index_bytes t) (ti_index s) target;
     let s1 = s\<lparr>ti_index := ii\<rparr>;
     kv \<leftarrow> index_kv (index_bytes t) ii;
     case kv of
       None \<Rightarrow> Some s1
     | Some (_, v) \<Rightarrow> do {
         (h, _) \<leftarrow> bh_decode L v;
         (rb, c) \<leftarrow> read_block L t h (ti_cache s1);
         let s2 = s1\<lparr>ti_cache := c\<rparr>;
         case rb of
           Inr (Some b) \<Rightarrow> do {
             it \<leftarrow> block_iter L (blk_data b);
             st \<leftarrow> bi_seek L (blk_data b) it target;
             Some (s2\<lparr>ti_data_state := st, ti_data_block := Some b\<rparr>)
           }
         | Inr None \<Rightarrow> Some s2
         | Inl _ \<Rightarrow> Some s2
       }
   }"

definition ti_seek_to_last ::
  "('f, 'c) libs \<Rightarrow> 'f table_reader \<Rightarrow> 'c table_iter \<Rightarrow> 'c table_iter option" where
  "ti_seek_to_last L t s0 = do {
     let s = ti_reset s0;
     ii \<leftarrow> bi_seek_to_last L (index_bytes t) (ti_index s);
     (_, ii') \<leftarrow> bi_prev L (index_bytes t) ii;
     (_, s') \<leftarrow> ti_advance L t (s\<lparr>ti_index := ii'\<rparr>);
     if ti_valid s' then Some s' else None
   }"

definition tr_get ::
  "('f, 'c) libs \<Rightarrow> 'f table_reader \<Rightarrow> 'c cache \<Rightarrow> bytes \<Rightarrow>
   (bytes option \<times> 'f table_reader \<times> 'c cache) option" where
  "tr_get L t c k =
     (if k < tr_min_key t \<or> k > tr_max_key t then Some (None, t, c)
      else if \<not> cf_contains L (tr_filter t) k then Some (None, incr_seek_miss_count t, c)
      else do {
        it \<leftarrow> ti_new L t c;
        s \<leftarrow> ti_seek L t it k;
        if ti_current_k s = Some k
        then do { v \<leftarrow> ti_current_v s; Some (v, t, ti_cache s) }
        else Some (None, incr_seek_miss_count t, ti_cache s)
      })"

end
