(* ===== verification/Server_Base.thy ===== *)
theory Server_Base
  imports Sstable Assoc Memtable "HOL-Library.Char_ord"
begin

text \<open>
  What the parts of \<open>mirdb-server\<close> share: its status codes, its options, the files of the
  working directory, file names, and the crates it uses beside those of \<open>sstable\<close>.
\<close>

subsection \<open>Status codes (\<open>error.rs\<close>)\<close>

datatype status_code = IOError | NotFound | NotSupport | Other | SstableError sst_status_code
  | BincodeError | PatternError nat | WALError | ChecksumError | SnapError | ConfigError

record status =
  code :: status_code
  msg :: string

subsection \<open>Decimal numbers\<close>

definition digit_char :: "nat \<Rightarrow> char" where
  "digit_char d = char_of (48 + d)"

fun show_nat :: "nat \<Rightarrow> string" where
  "show_nat n = (if n < 10 then [digit_char n] else show_nat (n div 10) @ [digit_char (n mod 10)])"

declare show_nat.simps [simp del]

definition is_digit :: "char \<Rightarrow> bool" where
  "is_digit c \<longleftrightarrow> 48 \<le> (of_char c :: nat) \<and> (of_char c :: nat) \<le> 57"

definition digit_val :: "char \<Rightarrow> nat" where
  "digit_val c = of_char c - 48"

text \<open>\<open>str::parse::<usize>\<close> on digits: \<open>None\<close> on an empty string, on another character and on
  overflow; a leading plus sign is accepted.\<close>

fun digits_val :: "string \<Rightarrow> nat \<Rightarrow> nat option" where
  "digits_val [] acc = Some acc"
| "digits_val (c # cs) acc =
     (if is_digit c then
        let acc' = acc * 10 + digit_val c in if acc' < usize_bound then digits_val cs acc' else None
      else None)"

definition parse_usize :: "string \<Rightarrow> nat option" where
  "parse_usize s =
     (if s = [] then None
      else if hd s = CHR ''+'' then if tl s = [] then None else digits_val (tl s) 0
      else digits_val s 0)"

fun code_debug :: "status_code \<Rightarrow> string" where
  "code_debug IOError = ''IOError''"
| "code_debug NotFound = ''NotFound''"
| "code_debug NotSupport = ''NotSupport''"
| "code_debug Other = ''Other''"
| "code_debug (SstableError c) = ''SstableError('' @ sst_code_debug c @ '')''"
| "code_debug BincodeError = ''BincodeError''"
| "code_debug (PatternError n) = ''PatternError('' @ show_nat n @ '')''"
| "code_debug WALError = ''WALError''"
| "code_debug ChecksumError = ''ChecksumError''"
| "code_debug SnapError = ''SnapError''"
| "code_debug ConfigError = ''ConfigError''"

definition status_new :: "status_code \<Rightarrow> string \<Rightarrow> status" where
  "status_new c m =
     \<lparr>code = c, msg = (if m = [] then code_debug c else code_debug c @ '': '' @ m)\<rparr>"

definition from_sstable :: "sst_status \<Rightarrow> status" where
  "from_sstable e = status_new (SstableError (sst_code e)) (sst_msg e)"

definition from_bincode :: "string \<Rightarrow> status" where
  "from_bincode e = status_new BincodeError e"

fun from_snap :: "snap_error \<Rightarrow> status" where
  "from_snap (SnapChecksum m) = status_new ChecksumError m"
| "from_snap (SnapOther m) = status_new SnapError m"

datatype io_kind = KNotFound | KOther

definition from_io :: "io_kind \<Rightarrow> string \<Rightarrow> status" where
  "from_io k m = (case k of KNotFound \<Rightarrow> status_new NotFound m | KOther \<Rightarrow> status_new IOError m)"

definition into_io :: "status \<Rightarrow> io_kind" where
  "into_io s = (case code s of NotFound \<Rightarrow> KNotFound | _ \<Rightarrow> KOther)"

definition err :: "status_code \<Rightarrow> string \<Rightarrow> (status, 'a) fallible" where
  "err c m = Some (Inl (status_new c m))"

text \<open>Lifting a result of the table crate through \<open>?\<close>.\<close>

definition sst :: "(sst_status, 'a) fallible \<Rightarrow> (status, 'a) fallible" where
  "sst m = (case m of None \<Rightarrow> None | Some (Inl e) \<Rightarrow> Some (Inl (from_sstable e)) | Some (Inr x) \<Rightarrow> Some (Inr x))"

lemma sst_simps [simp]:
  "sst None = None" "sst (Some (Inl e)) = Some (Inl (from_sstable e))" "sst (Some (Inr x)) = Some (Inr x)"
  by (simp_all add: sst_def)

lemma sst_Ok [simp]: "sst m = Some (Inr x) \<longleftrightarrow> m = Some (Inr x)"
  by (auto simp: sst_def split: option.splits sum.splits)

subsection \<open>File names (\<open>utils.rs\<close>)\<close>

text \<open>The format \<open>{:08}\<close> pads with zeros to eight digits.\<close>

definition pad8 :: "nat \<Rightarrow> string" where
  "pad8 n = (let s = show_nat n in replicate (8 - length s) (CHR ''0'') @ s)"

definition make_file_name :: "nat \<Rightarrow> string \<Rightarrow> string" where
  "make_file_name num ext = pad8 num @ ''.'' @ ext"

subsection \<open>Options (\<open>options.rs\<close>)\<close>

definition KB :: nat where "KB = 1024"
definition MB :: nat where "MB = KB * KB"
definition GB :: nat where "GB = KB * MB"
definition TB :: nat where "TB = KB * GB"

record server_options =
  max_level :: nat
  work_dir :: string
  sst_max_size :: nat
  mem_table_max_size :: nat
  mem_table_max_height :: nat
  imm_mem_table_max_count :: nat
  l0_compaction_trigger :: nat
  thread_sleep_ms :: nat
  table_opt :: options

definition server_options_default :: server_options where
  "server_options_default =
     \<lparr>max_level = 7, work_dir = ''/tmp/mirdb'', sst_max_size = MB * 100, mem_table_max_size = MB * 4,
      mem_table_max_height = 32, imm_mem_table_max_count = 16, l0_compaction_trigger = 4,
      thread_sleep_ms = 500,
      table_opt = options_default\<lparr>block_size := 4 * KB, block_restart_interval := 16\<rparr>\<rparr>"

subsection \<open>The working directory\<close>

text \<open>The files of the working directory by name, in the order of their names.  Everything the
  server writes lives there, so a path is a name.\<close>

type_synonym fs = "(string \<times> bytes) list"

definition fs_write :: "string \<Rightarrow> bytes \<Rightarrow> fs \<Rightarrow> fs" where
  "fs_write n b d = ins_kv n b d"

text \<open>\<open>OpenOptions\<close> with \<open>create\<close> and no \<open>truncate\<close>: an existing file keeps its contents.\<close>

definition fs_create :: "string \<Rightarrow> fs \<Rightarrow> fs" where
  "fs_create n d = (case map_of d n of None \<Rightarrow> ins_kv n [] d | Some _ \<Rightarrow> d)"

definition remove_file :: "string \<Rightarrow> fs \<Rightarrow> status + fs" where
  "remove_file n d =
     (case map_of d n of
        None \<Rightarrow> Inl (from_io KNotFound ''entity not found'')
      | Some _ \<Rightarrow> Inr (del_kv n d))"

definition has_ext :: "string \<Rightarrow> string \<Rightarrow> bool" where
  "has_ext ext n \<longleftrightarrow> (\<exists>p. n = p @ ''.'' @ ext)"

subsection \<open>Numbers as text\<close>

lemma digit_char_props:
  assumes "d < 10"
  shows "is_digit (digit_char d)" "digit_val (digit_char d) = d"
  using assms by (simp_all add: is_digit_def digit_val_def digit_char_def)

lemma digits_val_append:
  "digits_val (xs @ ys) acc = Option.bind (digits_val xs acc) (digits_val ys)"
  by (induction xs arbitrary: acc) (auto simp: Let_def)

lemma digits_val_show: "n < usize_bound \<Longrightarrow> digits_val (show_nat n) 0 = Some n"
proof (induction n rule: show_nat.induct)
  case (1 n)
  show ?case
  proof (cases "n < 10")
    case True
    then show ?thesis using 1 by (simp add: show_nat.simps [of n] digit_char_props)
  next
    case False
    then have "digits_val (show_nat (n div 10)) 0 = Some (n div 10)" using 1 by simp
    then show ?thesis
      using False "1.prems" by (subst show_nat.simps) (simp add: digits_val_append digit_char_props Let_def)
  qed
qed

lemma digits_val_zeros: "digits_val (replicate k (CHR ''0'') @ s) 0 = digits_val s 0"
  by (induction k) (auto simp: is_digit_def digit_val_def Let_def)

lemma show_nat_digits: "\<forall>c \<in> set (show_nat n). is_digit c"
proof (induction n rule: show_nat.induct)
  case (1 n)
  then show ?case by (subst show_nat.simps) (auto simp: digit_char_props)
qed

lemma show_nat_nonempty [simp]: "show_nat n \<noteq> []"
  by (subst show_nat.simps) simp

lemma parse_digits:
  "s \<noteq> [] \<Longrightarrow> \<forall>c \<in> set s. is_digit c \<Longrightarrow> parse_usize s = digits_val s 0"
  by (cases s) (auto simp: parse_usize_def is_digit_def)

lemma parse_pad8: "n < usize_bound \<Longrightarrow> parse_usize (pad8 n) = Some n"
proof -
  assume "n < usize_bound"
  moreover have "parse_usize (pad8 n) = digits_val (pad8 n) 0"
    using show_nat_digits by (intro parse_digits) (auto simp: pad8_def Let_def is_digit_def)
  ultimately show ?thesis by (simp add: pad8_def Let_def digits_val_zeros digits_val_show)
qed

lemma pad8_no_dot: "CHR ''.'' \<notin> set (pad8 n)"
  using show_nat_digits [of n] by (auto simp: pad8_def Let_def is_digit_def)

end
