(* ===== verification/Manifest.thy ===== *)
theory Manifest
  imports Server_Base
begin

text \<open>
  The manifest (\<open>mirdb-server/src/manifest.rs\<close>): which table files belong to which level, on
  disk and in memory; with the data that the server serializes and the crates that do it.
\<close>

subsection \<open>Data\<close>

text \<open>\<open>StorePayload\<close> of \<open>store.rs\<close>.\<close>

record store_payload =
  sp_data :: bytes
  sp_flags :: u32
  sp_ttl :: u32
  sp_bytes :: nat
  sp_created_at :: u64

record file_meta =
  file_name :: string

record level_meta =
  file_metas :: "file_meta list"

record manifest =
  level_metas :: "level_meta list"

text \<open>The crates the server adds to those of the tables: \<open>bincode\<close> on the manifest and on
  \<open>Option<StorePayload>\<close>, and \<open>glob\<close> on the pattern \<open>*.wal\<close>.\<close>

record ('f, 'c) server_libs =
  tlibs :: "('f, 'c) libs"
  serialize_value :: "store_payload option \<Rightarrow> string + bytes"
  deserialize_value :: "bytes \<Rightarrow> string + store_payload option"
  serialize_manifest :: "manifest \<Rightarrow> string + bytes"
  deserialize_manifest :: "bytes \<Rightarrow> string + manifest"
  glob_wal :: "fs \<Rightarrow> string list"

definition bincode_value_ok :: "('f, 'c) server_libs \<Rightarrow> bool" where
  "bincode_value_ok S \<longleftrightarrow>
     (\<forall>v y. serialize_value S v = Inr y \<longrightarrow> deserialize_value S y = Inr v)"

definition bincode_manifest_ok :: "('f, 'c) server_libs \<Rightarrow> bool" where
  "bincode_manifest_ok S \<longleftrightarrow>
     (\<forall>m y. serialize_manifest S m = Inr y \<longrightarrow> deserialize_manifest S y = Inr m)"

definition glob_ok :: "('f, 'c) server_libs \<Rightarrow> bool" where
  "glob_ok S \<longleftrightarrow>
     (\<forall>d. distinct (map fst d) \<longrightarrow>
        distinct (glob_wal S d) \<and> set (glob_wal S d) = {n \<in> fst ` set d. has_ext ''wal'' n})"

subsection \<open>Levels\<close>

definition level_meta_new :: level_meta where
  "level_meta_new = \<lparr>file_metas = []\<rparr>"

definition push_file_meta :: "level_meta \<Rightarrow> file_meta \<Rightarrow> level_meta" where
  "push_file_meta l fm = l\<lparr>file_metas := file_metas l @ [fm]\<rparr>"

text \<open>A \<open>HashSet\<close> of names is a list of its members.\<close>

definition lm_remove_by_file_names :: "level_meta \<Rightarrow> string list \<Rightarrow> level_meta" where
  "lm_remove_by_file_names l names =
     l\<lparr>file_metas := filter (\<lambda>x. \<not> List.member names (file_name x)) (file_metas l)\<rparr>"

definition lm_remove_by_file_name :: "level_meta \<Rightarrow> string \<Rightarrow> level_meta" where
  "lm_remove_by_file_name l name = lm_remove_by_file_names l [name]"

subsection \<open>The manifest\<close>

definition MANIFEST_FILENAME :: string where
  "MANIFEST_FILENAME = ''MANIFEST''"

definition manifest_new :: manifest where
  "manifest_new = \<lparr>level_metas = []\<rparr>"

definition file_number :: "file_meta \<Rightarrow> nat option" where
  "file_number fm = parse_usize (takeWhile (\<lambda>c. c \<noteq> CHR ''.'') (file_name fm))"

text \<open>The largest number so far; a name that does not start with a number makes it panic.\<close>

fun max_file_number :: "file_meta list \<Rightarrow> nat option \<Rightarrow> nat option option" where
  "max_file_number [] m = Some m"
| "max_file_number (fm # fms) m = do {
     n \<leftarrow> file_number fm;
     max_file_number fms
       (case m of Some x \<Rightarrow> if n > x then Some n else m | None \<Rightarrow> Some n)
   }"

definition next_file_number :: "manifest \<Rightarrow> nat option" where
  "next_file_number m = do {
     r \<leftarrow> max_file_number (concat (map file_metas (level_metas m))) None;
     Some (case r of Some x \<Rightarrow> x + 1 | None \<Rightarrow> 0)
   }"

definition manifest_load :: "('f, 'c) server_libs \<Rightarrow> fs \<Rightarrow> (status, manifest) fallible" where
  "manifest_load S d =
     (case map_of d MANIFEST_FILENAME of
        None \<Rightarrow> Some (Inr manifest_new)
      | Some b \<Rightarrow>
          (case deserialize_manifest S b of
             Inl e \<Rightarrow> Some (Inl (from_bincode e))
           | Inr m \<Rightarrow> Some (Inr m)))"

definition ensure_level :: "manifest \<Rightarrow> nat \<Rightarrow> manifest" where
  "ensure_level m level =
     m\<lparr>level_metas := level_metas m @ replicate (level + 1 - length (level_metas m)) level_meta_new\<rparr>"

definition update_level :: "manifest \<Rightarrow> nat \<Rightarrow> (level_meta \<Rightarrow> level_meta) \<Rightarrow> manifest" where
  "update_level m level f = m\<lparr>level_metas := (level_metas m)[level := f (level_metas m ! level)]\<rparr>"

definition m_add_file_meta :: "manifest \<Rightarrow> nat \<Rightarrow> file_meta \<Rightarrow> manifest" where
  "m_add_file_meta m level fm =
     update_level (ensure_level m level) level (\<lambda>l. push_file_meta l fm)"

definition m_remove_by_file_name :: "manifest \<Rightarrow> nat \<Rightarrow> string \<Rightarrow> manifest" where
  "m_remove_by_file_name m level name =
     update_level (ensure_level m level) level (\<lambda>l. lm_remove_by_file_name l name)"

definition m_remove_by_file_names :: "manifest \<Rightarrow> nat \<Rightarrow> string list \<Rightarrow> manifest" where
  "m_remove_by_file_names m level names =
     update_level (ensure_level m level) level (\<lambda>l. lm_remove_by_file_names l names)"

definition m_file_metas :: "manifest \<Rightarrow> nat \<Rightarrow> file_meta list option" where
  "m_file_metas m level =
     (if length (level_metas m) \<le> level then None else Some (file_metas (level_metas m ! level)))"

subsection \<open>The manifest builder\<close>

record manifest_builder =
  mfb_opt :: server_options
  mfb_manifest :: manifest

definition mfb_new ::
  "('f, 'c) server_libs \<Rightarrow> server_options \<Rightarrow> fs \<Rightarrow> (status, manifest_builder) fallible" where
  "mfb_new S opt d =
     tryO (manifest_load S d) (\<lambda>m. Some (Inr \<lparr>mfb_opt = opt, mfb_manifest = m\<rparr>))"

definition mfb_file_metas :: "manifest_builder \<Rightarrow> nat \<Rightarrow> file_meta list option" where
  "mfb_file_metas b level = m_file_metas (mfb_manifest b) level"

definition mfb_add_file_meta :: "manifest_builder \<Rightarrow> nat \<Rightarrow> file_meta \<Rightarrow> manifest_builder option" where
  "mfb_add_file_meta b level fm =
     (if level < max_level (mfb_opt b)
      then Some (b\<lparr>mfb_manifest := m_add_file_meta (mfb_manifest b) level fm\<rparr>) else None)"

definition mfb_remove_by_file_name :: "manifest_builder \<Rightarrow> nat \<Rightarrow> string \<Rightarrow> manifest_builder option" where
  "mfb_remove_by_file_name b level name =
     (if level < max_level (mfb_opt b)
      then Some (b\<lparr>mfb_manifest := m_remove_by_file_name (mfb_manifest b) level name\<rparr>) else None)"

definition mfb_remove_by_file_names ::
  "manifest_builder \<Rightarrow> nat \<Rightarrow> string list \<Rightarrow> manifest_builder option" where
  "mfb_remove_by_file_names b level names =
     (if level < max_level (mfb_opt b)
      then Some (b\<lparr>mfb_manifest := m_remove_by_file_names (mfb_manifest b) level names\<rparr>) else None)"

definition mfb_flush :: "('f, 'c) server_libs \<Rightarrow> manifest_builder \<Rightarrow> fs \<Rightarrow> (status, fs) fallible" where
  "mfb_flush S b d =
     (case serialize_manifest S (mfb_manifest b) of
        Inl e \<Rightarrow> Some (Inl (from_bincode e))
      | Inr y \<Rightarrow> Some (Inr (fs_write MANIFEST_FILENAME y d)))"

definition mfb_next_file_number :: "manifest_builder \<Rightarrow> nat option" where
  "mfb_next_file_number b = next_file_number (mfb_manifest b)"

text \<open>\<open>Display\<close>: at most eleven names of a level, then dots.\<close>

fun show_files :: "nat \<Rightarrow> file_meta list \<Rightarrow> string" where
  "show_files i [] = []"
| "show_files i (fm # fms) =
     (if i = 0 then [CHR 0x09] else '', '') @
     (if i > 10 then ''...'' else file_name fm @ show_files (i + 1) fms)"

fun show_levels :: "nat \<Rightarrow> level_meta list \<Rightarrow> string" where
  "show_levels i [] = []"
| "show_levels i (lm # lms) =
     ''Level'' @ show_nat i @ '' ('' @ show_nat (length (file_metas lm)) @ ''):'' @ [CHR 0x0A] @
     show_files 0 (file_metas lm) @ [CHR 0x0A] @ show_levels (i + 1) lms"

definition mfb_to_string :: "manifest_builder \<Rightarrow> string option" where
  "mfb_to_string b = do {
     n \<leftarrow> mfb_next_file_number b;
     Some (''Next file number: '' @ show_nat n @ [CHR 0x0A, CHR 0x0A] @
           show_levels 0 (level_metas (mfb_manifest b)))
   }"

subsection \<open>The names of a level\<close>

definition level_names :: "manifest \<Rightarrow> nat \<Rightarrow> string list" where
  "level_names m i =
     (if i < length (level_metas m) then map file_name (file_metas (level_metas m ! i)) else [])"

lemma length_ensure_level [simp]:
  "length (level_metas (ensure_level m i)) = max (length (level_metas m)) (Suc i)"
  by (simp add: ensure_level_def)

lemma level_names_ensure [simp]: "level_names (ensure_level m i) j = level_names m j"
  by (auto simp: ensure_level_def level_names_def nth_append level_meta_new_def)

lemma level_names_update:
  "i < length (level_metas m) \<Longrightarrow>
   level_names (update_level m i f) j =
     (if j = i then map file_name (file_metas (f (level_metas m ! i))) else level_names m j)"
  by (simp add: update_level_def level_names_def)

lemma length_update_level [simp]: "length (level_metas (update_level m i f)) = length (level_metas m)"
  by (simp add: update_level_def)

text \<open>Adding a file appends its name to its level, removing filters, and other levels stay.\<close>

lemma level_names_add:
  "level_names (m_add_file_meta m i fm) j = level_names m j @ (if j = i then [file_name fm] else [])"
proof -
  have i: "i < length (level_metas (ensure_level m i))" by simp
  have "map file_name (file_metas (level_metas (ensure_level m i) ! i)) = level_names m i"
    using level_names_ensure [of m i i] i by (simp add: level_names_def)
  then show ?thesis
    by (simp add: m_add_file_meta_def level_names_update [OF i] push_file_meta_def)
qed

lemma level_names_remove:
  "level_names (m_remove_by_file_names m i names) j =
     (if j = i then filter (\<lambda>n. n \<notin> set names) (level_names m i) else level_names m j)"
proof -
  have i: "i < length (level_metas (ensure_level m i))" by simp
  have "map file_name (file_metas (level_metas (ensure_level m i) ! i)) = level_names m i"
    using level_names_ensure [of m i i] i by (simp add: level_names_def)
  then have "map file_name (filter (\<lambda>x. file_name x \<notin> set names) (file_metas (level_metas (ensure_level m i) ! i)))
      = filter (\<lambda>n. n \<notin> set names) (level_names m i)"
    by (metis (no_types, lifting) filter_cong filter_map o_apply)
  then show ?thesis
    by (simp add: m_remove_by_file_names_def level_names_update [OF i] lm_remove_by_file_names_def)
qed

subsection \<open>The next file number\<close>

definition all_names :: "manifest \<Rightarrow> string list" where
  "all_names m = map file_name (concat (map file_metas (level_metas m)))"

lemma all_names_levels: "set (all_names m) = (\<Union>i. set (level_names m i))"
proof -
  have "set (level_names m i) \<subseteq> set (all_names m)" for i
    by (auto simp: level_names_def all_names_def in_set_conv_nth intro: nth_mem)
  moreover have "n \<in> (\<Union>i. set (level_names m i))" if "n \<in> set (all_names m)" for n
  proof -
    from that obtain lm where lm: "lm \<in> set (level_metas m)" "n \<in> file_name ` set (file_metas lm)"
      by (auto simp: all_names_def)
    then obtain i where "i < length (level_metas m)" "level_metas m ! i = lm"
      by (auto simp: in_set_conv_nth)
    with lm(2) have "n \<in> set (level_names m i)" by (simp add: level_names_def)
    then show ?thesis by blast
  qed
  ultimately show ?thesis by blast
qed

lemma file_number_name: "n < usize_bound \<Longrightarrow> file_number \<lparr>file_name = make_file_name n e\<rparr> = Some n"
  using pad8_no_dot [of n]
  by (simp add: file_number_def make_file_name_def takeWhile_append parse_pad8 split: if_splits)

lemma max_file_number_ok:
  assumes "\<forall>fm \<in> set fms. \<exists>i < usize_bound. file_name fm = make_file_name i e"
  shows "\<exists>r. max_file_number fms m = Some r \<and> (\<forall>x. m = Some x \<longrightarrow> (\<exists>y \<ge> x. r = Some y)) \<and>
    (\<forall>i < usize_bound. make_file_name i e \<in> file_name ` set fms \<longrightarrow> (\<exists>y \<ge> i. r = Some y))"
  using assms
proof (induction fms arbitrary: m)
  case (Cons fm fms)
  obtain n where n: "n < usize_bound" "fm = \<lparr>file_name = make_file_name n e\<rparr>"
    using Cons.prems by (cases fm) auto
  let ?m = "case m of Some x \<Rightarrow> if n > x then Some n else m | None \<Rightarrow> Some n"
  obtain r where r: "max_file_number fms ?m = Some r" "\<And>x. ?m = Some x \<Longrightarrow> \<exists>y \<ge> x. r = Some y"
    "\<And>i. i < usize_bound \<Longrightarrow> make_file_name i e \<in> file_name ` set fms \<Longrightarrow> \<exists>y \<ge> i. r = Some y"
    using Cons.IH [of ?m] Cons.prems by auto
  have mn: "\<exists>y \<ge> n. ?m = Some y" by (auto split: option.splits)
  then have rn: "\<exists>y \<ge> n. r = Some y" using r(2) by (meson order.trans)
  have rm: "\<exists>y \<ge> x. r = Some y" if "m = Some x" for x
  proof -
    have "\<exists>z \<ge> x. ?m = Some z" using that by auto
    then show ?thesis using r(2) by (meson order.trans)
  qed
  have "\<exists>y \<ge> i. r = Some y" if i: "i < usize_bound" "make_file_name i e \<in> file_name ` set (fm # fms)" for i
  proof (cases "make_file_name i e = make_file_name n e")
    case True
    then have "parse_usize (pad8 i) = parse_usize (pad8 n)" by (simp add: make_file_name_def)
    then have "i = n" using parse_pad8 i(1) n(1) by simp
    with rn show ?thesis by simp
  next
    case False
    with i n(2) r(3) show ?thesis by auto
  qed
  with r(1) rm show ?case by (simp add: n(2) file_number_name [OF n(1)])
qed simp

text \<open>The next number is above the number of every file of the manifest.\<close>

lemma next_file_number_ok:
  assumes "\<forall>n \<in> set (all_names m). \<exists>i < usize_bound. n = make_file_name i e"
  shows "\<exists>N. next_file_number m = Some N \<and>
    (\<forall>i < usize_bound. make_file_name i e \<in> set (all_names m) \<longrightarrow> i < N)"
proof -
  let ?fms = "concat (map file_metas (level_metas m))"
  have "\<forall>fm \<in> set ?fms. \<exists>i < usize_bound. file_name fm = make_file_name i e"
    using assms by (auto simp: all_names_def)
  from max_file_number_ok [OF this, of None] obtain r where
    r: "max_file_number ?fms None = Some r"
    "\<And>i. i < usize_bound \<Longrightarrow> make_file_name i e \<in> file_name ` set ?fms \<Longrightarrow> \<exists>y \<ge> i. r = Some y"
    by (elim exE conjE) (metis (no_types, lifting))
  show ?thesis
  proof (intro exI conjI allI impI)
    show "next_file_number m = Some (case r of Some x \<Rightarrow> x + 1 | None \<Rightarrow> 0)"
      using r(1) by (simp add: next_file_number_def)
    fix i assume "i < usize_bound" "make_file_name i e \<in> set (all_names m)"
    then obtain y where "i \<le> y" "r = Some y" using r(2) [of i] unfolding all_names_def by auto
    then show "i < (case r of Some x \<Rightarrow> x + 1 | None \<Rightarrow> 0)" by simp
  qed
qed

end
