(* ===== verification/Float64.thy ===== *)
theory Float64
  imports Complex_Main "HOL-Library.Log_Nat"
begin

text \<open>
  The \<open>f64\<close> arithmetic of the compaction scores (\<open>mirdb-server/src/sstable_reader.rs\<close>):
  non-negative IEEE 754 doubles, rounded to the nearest with ties to even.
\<close>

datatype f64 = F64_Fin rat | F64_Inf | F64_NaN

definition pow2 :: "int \<Rightarrow> rat" where
  "pow2 e = (if 0 \<le> e then 2 ^ nat e else 1 / 2 ^ nat (- e))"

text \<open>The \<open>e\<close> with \<open>2\<^sup>e \<le> q < 2\<^sup>e\<^sup>+\<^sup>1\<close>, for a positive \<open>q\<close>.\<close>

definition exponent_of :: "rat \<Rightarrow> int" where
  "exponent_of q =
     (let (a, b) = quotient_of q; e = int (floorlog 2 (nat a)) - int (floorlog 2 (nat b))
      in if pow2 e \<le> q then e else e - 1)"

definition round_even :: "rat \<Rightarrow> int" where
  "round_even x =
     (let f = \<lfloor>x\<rfloor>; r = x - of_int f
      in if r < 1 / 2 then f else if r > 1 / 2 then f + 1 else if even f then f else f + 1)"

definition f64_of :: "rat \<Rightarrow> f64" where
  "f64_of q =
     (if q \<le> 0 then F64_Fin 0
      else let e = max (exponent_of q - 52) (- 1074); v = of_int (round_even (q / pow2 e)) * pow2 e
           in if v \<ge> pow2 1024 then F64_Inf else F64_Fin v)"

text \<open>\<open>usize as f64\<close>.\<close>

definition f64_of_nat :: "nat \<Rightarrow> f64" where
  "f64_of_nat n = f64_of (of_nat n)"

fun f64_mul :: "f64 \<Rightarrow> f64 \<Rightarrow> f64" where
  "f64_mul (F64_Fin a) (F64_Fin b) = f64_of (a * b)"
| "f64_mul F64_NaN y = F64_NaN"
| "f64_mul x F64_NaN = F64_NaN"
| "f64_mul F64_Inf y = (if y = F64_Fin 0 then F64_NaN else F64_Inf)"
| "f64_mul x F64_Inf = (if x = F64_Fin 0 then F64_NaN else F64_Inf)"

fun f64_div :: "f64 \<Rightarrow> f64 \<Rightarrow> f64" where
  "f64_div (F64_Fin a) (F64_Fin b) =
     (if b = 0 then if a = 0 then F64_NaN else F64_Inf else f64_of (a / b))"
| "f64_div F64_NaN y = F64_NaN"
| "f64_div x F64_NaN = F64_NaN"
| "f64_div F64_Inf (F64_Fin b) = F64_Inf"
| "f64_div (F64_Fin a) F64_Inf = F64_Fin 0"
| "f64_div F64_Inf F64_Inf = F64_NaN"

fun f64_less :: "f64 \<Rightarrow> f64 \<Rightarrow> bool" where
  "f64_less (F64_Fin a) (F64_Fin b) = (a < b)"
| "f64_less (F64_Fin a) F64_Inf = True"
| "f64_less _ _ = False"

definition f64_ge :: "f64 \<Rightarrow> f64 \<Rightarrow> bool" where
  "f64_ge x y \<longleftrightarrow> x \<noteq> F64_NaN \<and> y \<noteq> F64_NaN \<and> \<not> f64_less x y"

lemma f64_of_zero [simp]: "f64_of 0 = F64_Fin 0"
  by (simp add: f64_of_def)

lemma f64_of_nat_zero [simp]: "f64_of_nat 0 = F64_Fin 0"
  by (simp add: f64_of_nat_def)

lemma f64_zero_div: "\<not> f64_ge (f64_div (F64_Fin 0) y) (F64_Fin 1)"
  by (cases y) (simp_all add: f64_ge_def)

subsection \<open>Rounding\<close>

lemma pow2_powi: "pow2 e = 2 powi e"
  by (simp add: pow2_def power_int_def power_one_over inverse_eq_divide)

lemma pow2_pos [simp]: "0 < pow2 e"
  by (simp add: pow2_def)

lemma pow2_add: "pow2 (a + b) = pow2 a * pow2 b"
  by (simp add: pow2_powi power_int_add)

lemma pow2_le: "a \<le> b \<Longrightarrow> pow2 a \<le> pow2 b"
  by (simp add: pow2_powi power_int_increasing)

lemma pow2_nat: "pow2 (int n) = 2 ^ n"
  by (simp add: pow2_def)

lemma pow2_less_iff: "pow2 a < pow2 b \<longleftrightarrow> a < b"
  by (metis linorder_not_less pow2_le pow2_powi power_int_strict_increasing one_less_numeral_iff semiring_norm(76))

lemma floorlog_bounds:
  assumes "0 < n"
  shows "pow2 (int (floorlog 2 n) - 1) \<le> of_nat n" "of_nat n < pow2 (int (floorlog 2 n))"
proof -
  have b: "2 ^ (floorlog 2 n - 1) \<le> n" "n < 2 ^ floorlog 2 n" "0 < floorlog 2 n"
    using floorlog_bounds [of n 2] assms by (auto simp: floorlog_def)
  have "pow2 (int (floorlog 2 n) - 1) = of_nat (2 ^ (floorlog 2 n - 1))"
    using b(3) pow2_nat [of "floorlog 2 n - 1"] by (simp add: of_nat_diff)
  then show "pow2 (int (floorlog 2 n) - 1) \<le> of_nat n" using b(1) by (metis of_nat_le_iff)
  have "pow2 (int (floorlog 2 n)) = of_nat (2 ^ floorlog 2 n)" by (simp add: pow2_nat)
  then show "of_nat n < pow2 (int (floorlog 2 n))" using b(2) by (metis of_nat_less_iff)
qed

lemma exponent_of_bounds:
  assumes "0 < q"
  shows "pow2 (exponent_of q) \<le> q" "q < pow2 (exponent_of q + 1)"
proof -
  obtain a b where ab: "quotient_of q = (a, b)" by (cases "quotient_of q")
  have q: "q = of_int a / of_int b" and b: "0 < b" using ab quotient_of_div quotient_of_denom_pos by blast+
  then have a: "0 < a" using assms by (simp add: zero_less_divide_iff)
  let ?fa = "int (floorlog 2 (nat a))" and ?fb = "int (floorlog 2 (nat b))"
  have na: "pow2 (?fa - 1) \<le> of_int a" "of_int a < pow2 ?fa" and nb: "pow2 (?fb - 1) \<le> of_int b" "of_int b < pow2 ?fb"
    using floorlog_bounds [of "nat a"] floorlog_bounds [of "nat b"] a b by simp_all
  have p: "pow2 (?fa - ?fb - 1) * pow2 ?fb = pow2 (?fa - 1)" "pow2 (?fa - ?fb + 1) * pow2 (?fb - 1) = pow2 ?fa"
    by (simp_all flip: pow2_add)
  have "pow2 (?fa - ?fb - 1) * of_int b \<le> pow2 (?fa - 1)" using nb(2) p(1) by (metis mult_left_mono less_imp_le pow2_pos)
  then have lo: "pow2 (?fa - ?fb - 1) \<le> q" using na(1) b by (simp add: q pos_le_divide_eq)
  have "pow2 ?fa \<le> pow2 (?fa - ?fb + 1) * of_int b" using nb(1) p(2) by (metis mult_left_mono less_imp_le pow2_pos)
  then have hi: "q < pow2 (?fa - ?fb + 1)" using na(2) b by (simp add: q pos_divide_less_eq)
  show "pow2 (exponent_of q) \<le> q" "q < pow2 (exponent_of q + 1)"
    using lo hi ab by (simp_all add: exponent_of_def Let_def)
qed

lemma round_even_cases:
  obtains "round_even x = \<lfloor>x\<rfloor>" | "round_even x = \<lfloor>x\<rfloor> + 1" "1 / 2 \<le> x - of_int \<lfloor>x\<rfloor>"
  unfolding round_even_def Let_def by (metis linorder_not_less)

lemma round_even_le: "of_int (round_even x) \<le> x + 1 / 2"
proof -
  have f: "of_int \<lfloor>x\<rfloor> \<le> x" by (rule of_int_floor_le)
  show ?thesis
  proof (rule round_even_cases [of x])
    show ?thesis if "round_even x = \<lfloor>x\<rfloor>" unfolding that using f by linarith
    show ?thesis if "round_even x = \<lfloor>x\<rfloor> + 1" "1 / 2 \<le> x - of_int \<lfloor>x\<rfloor>" unfolding that(1) using that(2) by simp
  qed
qed

lemma round_even_ge: "of_int k \<le> x \<Longrightarrow> k \<le> round_even x"
proof -
  assume "of_int k \<le> x"
  then have f: "k \<le> \<lfloor>x\<rfloor>" by (simp add: le_floor_iff)
  show ?thesis by (rule round_even_cases [of x]) (use f in simp_all)
qed

lemma round_even_int: "round_even (of_int k) = k"
  by (simp add: round_even_def)

lemma f64_of_ge_one:
  assumes "1 \<le> q"
  shows "f64_ge (f64_of q) (F64_Fin 1)"
proof -
  have "1 < pow2 (exponent_of q + 1)" using exponent_of_bounds(2) [of q] assms by linarith
  then have "0 < exponent_of q + 1" using pow2_less_iff [of 0] by (simp add: pow2_def)
  then have E: "0 \<le> exponent_of q" by simp
  let ?e = "max (exponent_of q - 52) (- 1074)"
  have e: "?e = exponent_of q - 52" using E by simp
  have p: "pow2 (exponent_of q) = pow2 52 * pow2 ?e" unfolding e by (simp flip: pow2_add)
  have "of_int (2 ^ 52) \<le> q / pow2 ?e" using exponent_of_bounds(1) [of q] assms p by (simp add: pos_le_divide_eq pow2_def)
  then have "2 ^ 52 \<le> round_even (q / pow2 ?e)" by (rule round_even_ge)
  then have "pow2 52 \<le> of_int (round_even (q / pow2 ?e))" by (simp add: pow2_def)
  then have "pow2 (exponent_of q) \<le> of_int (round_even (q / pow2 ?e)) * pow2 ?e" unfolding p by (simp add: mult_right_mono less_imp_le)
  moreover have "1 \<le> pow2 (exponent_of q)" using pow2_le [OF E] by (simp add: pow2_def)
  ultimately show ?thesis using assms by (auto simp: f64_of_def f64_ge_def Let_def)
qed

lemma f64_of_less_one:
  assumes "q \<le> 1 - 1 / 2 ^ 53"
  shows "\<not> f64_ge (f64_of q) (F64_Fin 1)"
proof (cases "q \<le> 0")
  case False
  have "pow2 (exponent_of q) < 1" using exponent_of_bounds(1) [of q] False assms by simp
  then have E: "exponent_of q < 0" using pow2_less_iff [of _ 0] by (simp add: pow2_def)
  let ?e = "max (exponent_of q - 52) (- 1074)"
  have "pow2 ?e \<le> pow2 (- 53)" using E by (intro pow2_le) simp
  then have p: "pow2 ?e \<le> 1 / 2 ^ 53" by (simp add: pow2_def)
  have "of_int (round_even (q / pow2 ?e)) * pow2 ?e \<le> (q / pow2 ?e + 1 / 2) * pow2 ?e"
    using round_even_le by (intro mult_right_mono) (simp_all add: less_imp_le)
  also have "\<dots> = q + pow2 ?e / 2" using pow2_pos [of ?e] by (simp add: field_simps less_imp_neq [symmetric])
  finally have v: "of_int (round_even (q / pow2 ?e)) * pow2 ?e < 1" using p assms by simp
  moreover have "1 \<le> pow2 1024" by (simp add: pow2_def)
  ultimately show ?thesis using False by (simp add: f64_of_def f64_ge_def Let_def)
qed (simp add: f64_of_def f64_ge_def)

text \<open>Counts below \<open>2\<^sup>5\<^sup>3\<close> are exact.\<close>

lemma f64_of_nat_exact:
  assumes "n < 2 ^ 53"
  shows "f64_of_nat n = F64_Fin (of_nat n)"
proof (cases "n = 0")
  case False
  let ?q = "of_nat n :: rat"
  have "pow2 (exponent_of ?q) \<le> ?q" using exponent_of_bounds(1) [of ?q] False by simp
  also have b: "?q < pow2 53"
  proof -
    have "?q < of_nat (2 ^ 53)" using assms by (simp only: of_nat_less_iff)
    then show ?thesis by (simp add: pow2_def)
  qed
  finally have E: "exponent_of ?q < 53" by (simp add: pow2_less_iff)
  let ?e = "max (exponent_of ?q - 52) (- 1074)"
  have x: "?q / pow2 ?e = of_int (int n * 2 ^ nat (- ?e))" using E by (simp add: pow2_def)
  have "of_int (round_even (?q / pow2 ?e)) * pow2 ?e = ?q / pow2 ?e * pow2 ?e" unfolding x round_even_int ..
  then have "of_int (round_even (?q / pow2 ?e)) * pow2 ?e = ?q" using pow2_pos [of ?e] by (metis less_irrefl nonzero_eq_divide_eq)
  moreover have "?q < pow2 1024" using b pow2_le [of 53 1024] by simp
  ultimately show ?thesis using False by (simp add: f64_of_nat_def f64_of_def Let_def)
qed simp

lemma f64_ratio_ge_one:
  assumes "a < 2 ^ 53" "b < 2 ^ 53" "0 < b"
  shows "f64_ge (f64_div (f64_of_nat a) (f64_of_nat b)) (F64_Fin 1) \<longleftrightarrow> b \<le> a"
proof -
  have d: "f64_div (f64_of_nat a) (f64_of_nat b) = f64_of (of_nat a / of_nat b)" using assms by (simp add: f64_of_nat_exact)
  show ?thesis
  proof (cases "b \<le> a")
    case True
    then have "1 \<le> (of_nat a / of_nat b :: rat)" using assms(3) by (simp add: le_divide_eq)
    then show ?thesis using True f64_of_ge_one d by simp
  next
    case False
    have "(of_nat b :: rat) \<le> of_nat (2 ^ 53)" using assms(2) by (simp only: of_nat_le_iff)
    then have b: "(of_nat b :: rat) \<le> 2 ^ 53" "0 < (of_nat b :: rat)" using assms(3) by simp_all
    have "of_nat a + 1 \<le> (of_nat b :: rat)" using False by (metis Suc_leI linorder_not_le of_nat_Suc of_nat_le_iff add.commute)
    then have "of_nat a / of_nat b \<le> 1 - 1 / (of_nat b :: rat)" using b(2) by (simp add: field_simps)
    also have "\<dots> \<le> 1 - 1 / 2 ^ 53" using b by (simp add: frac_le)
    finally show ?thesis using False f64_of_less_one d by simp
  qed
qed

end
