(* ===== verification/Sstable_Iter.thy ===== *)
theory Sstable_Iter
  imports Sstable
begin

text \<open>
  The table iterator meets the contract of \<open>SsIterator\<close> on a well-formed table: over the
  blocks one after the other, forwards and backwards across their boundaries, with whatever
  the cache holds.
\<close>

subsection \<open>Well-formed tables\<close>

record tblk =
  tk_sep :: bytes
  tk_handle :: block_handle
  tk_entries :: "entry list"
  tk_data :: bytes

definition table_entries :: "tblk list \<Rightarrow> entry list" where
  "table_entries bs = concat (map tk_entries bs)"

definition index_entries :: "('f, 'c) libs \<Rightarrow> tblk list \<Rightarrow> entry list" where
  "index_entries L bs = map (\<lambda>b. (tk_sep b, bh_bytes L (tk_handle b))) bs"

definition blk_ok :: "('f, 'c) libs \<Rightarrow> nat \<Rightarrow> options \<Rightarrow> bytes \<Rightarrow> tblk \<Rightarrow> bool" where
  "blk_ok L I opt f b \<longleftrightarrow>
     bh_wf (tk_handle b) \<and> tk_entries b \<noteq> [] \<and> block_layout L I (tk_entries b) (tk_data b) \<and>
     fst (last (tk_entries b)) < tk_sep b \<and>
     (\<exists>n. block_new_from_location L (buffer_read_at f) (tk_handle b) opt =
        Some (Inr (block_new_with_buffer (tk_data b) opt, n)))"

text \<open>The separator of a block does not exceed the first key of the next one, and is that key
  only if the key is the last one of the block with a zero byte appended.\<close>

definition sep_upto :: "bytes \<Rightarrow> bytes \<Rightarrow> bytes \<Rightarrow> bool" where
  "sep_upto a s b \<longleftrightarrow> s \<le> b \<and> (s = b \<longrightarrow> b = a @ [0])"

definition seps_ok :: "tblk list \<Rightarrow> bool" where
  "seps_ok bs \<longleftrightarrow> (\<forall>j. Suc j < length bs \<longrightarrow>
     sep_upto (fst (last (tk_entries (bs ! j)))) (tk_sep (bs ! j)) (fst (hd (tk_entries (bs ! Suc j)))))"

definition table_ok :: "('f, 'c) libs \<Rightarrow> nat \<Rightarrow> 'f table_reader \<Rightarrow> tblk list \<Rightarrow> bool" where
  "table_ok L I t bs \<longleftrightarrow>
     varint_ok L \<and> lru_ok L \<and> bs \<noteq> [] \<and> (\<forall>b \<in> set bs. blk_ok L I (tr_opt t) (tr_file t) b) \<and> seps_ok bs \<and>
     sorted_wrt (<) (map fst (table_entries bs)) \<and> keys_nonempty (table_entries bs) \<and>
     block_layout L I (index_entries L bs) (index_bytes t) \<and>
     tr_min_key t = fst (hd (table_entries bs)) \<and> tr_max_key t = fst (last (table_entries bs)) \<and>
     (\<forall>e \<in> set (table_entries bs). cf_contains L (tr_filter t) (fst e))"

text \<open>\<open>M\<close> says what belongs under each cache key, over all tables that share the cache.\<close>

definition cache_agrees :: "('f, 'c) libs \<Rightarrow> (bytes \<rightharpoonup> bytes) \<Rightarrow> 'c cache \<Rightarrow> bool" where
  "cache_agrees L M c \<longleftrightarrow>
     (\<forall>k b. fst (lru_get L (cache_inner c) k) = Some b \<longrightarrow> M k = Some (blk_data b))"

definition table_in :: "('f, 'c) libs \<Rightarrow> (bytes \<rightharpoonup> bytes) \<Rightarrow> 'f table_reader \<Rightarrow> tblk list \<Rightarrow> bool" where
  "table_in L M t bs \<longleftrightarrow> (\<forall>b \<in> set bs. M (gen_cache_key L t (tk_handle b)) = Some (tk_data b))"

lemma table_okD:
  assumes "table_ok L I t bs"
  shows "varint_ok L" "lru_ok L" "bs \<noteq> []" "\<And>b. b \<in> set bs \<Longrightarrow> blk_ok L I (tr_opt t) (tr_file t) b"
    "seps_ok bs" "sorted_wrt (<) (map fst (table_entries bs))" "keys_nonempty (table_entries bs)"
    "block_layout L I (index_entries L bs) (index_bytes t)"
    "\<And>e. e \<in> set (table_entries bs) \<Longrightarrow> cf_contains L (tr_filter t) (fst e)"
  using assms by (auto simp: table_ok_def)

lemma length_index_entries [simp]: "length (index_entries L bs) = length bs"
  by (simp add: index_entries_def)

lemma nth_index_entries [simp]:
  "j < length bs \<Longrightarrow> index_entries L bs ! j = (tk_sep (bs ! j), bh_bytes L (tk_handle (bs ! j)))"
  by (simp add: index_entries_def)

lemma index_keys_nonempty: "table_ok L I t bs \<Longrightarrow> keys_nonempty (index_entries L bs)"
  by (fastforce simp: keys_nonempty_def index_entries_def dest: table_okD(4) simp: blk_ok_def)

lemma block_keys_nonempty:
  "table_ok L I t bs \<Longrightarrow> b \<in> set bs \<Longrightarrow> keys_nonempty (tk_entries b)"
  using table_okD(7) [of L I t bs] by (auto simp: keys_nonempty_def table_entries_def)

subsection \<open>Reading a block through the cache\<close>

lemma cache_get_agrees:
  assumes "lru_ok L" "cache_agrees L M c" "cache_get L c k = (r, c')"
  shows "cache_agrees L M c'" "r = Some b \<Longrightarrow> M k = Some (blk_data b)" "cache_id c' = cache_id c"
proof -
  obtain inner where g: "lru_get L (cache_inner c) k = (r, inner)" "c' = c\<lparr>cache_inner := inner\<rparr>"
    using assms(3) by (auto simp: cache_get_def split: prod.splits)
  have "fst (lru_get L inner k') = Some b' \<Longrightarrow> fst (lru_get L (cache_inner c) k') = Some b'" for k' b'
    using assms(1) g(1) unfolding lru_ok_def by (metis snd_conv)
  with assms(2) g(2) show "cache_agrees L M c'" by (simp add: cache_agrees_def)
  show "r = Some b \<Longrightarrow> M k = Some (blk_data b)"
    using assms(2) g(1) unfolding cache_agrees_def by (metis fst_conv)
  show "cache_id c' = cache_id c" using g(2) by simp
qed

lemma cache_insert_agrees:
  assumes "lru_ok L" "cache_agrees L M c" "M k = Some (blk_data b)"
  shows "cache_agrees L M (cache_insert L c k b)"
  unfolding cache_agrees_def
proof (intro allI impI)
  fix k' b'
  assume "fst (lru_get L (cache_inner (cache_insert L c k b)) k') = Some b'"
  then have "fst (lru_get L (lru_put L (cache_inner c) k b) k') = Some b'"
    by (simp add: cache_insert_def)
  then have "k' = k \<and> b' = b \<or> k' \<noteq> k \<and> fst (lru_get L (cache_inner c) k') = Some b'"
    using assms(1) unfolding lru_ok_def by blast
  then show "M k' = Some (blk_data b')"
    using assms(2,3) by (auto simp: cache_agrees_def)
qed

lemma read_block_ok:
  assumes t: "table_ok L I t bs" and M: "table_in L M t bs" and c: "cache_agrees L M c"
    and b: "b \<in> set bs"
  shows "\<exists>blk c'. read_block L t (tk_handle b) c = Some (Inr (Some blk), c') \<and>
           blk_data blk = tk_data b \<and> cache_agrees L M c' \<and> cache_id c' = cache_id c"
proof -
  let ?k = "gen_cache_key L t (tk_handle b)"
  have Mk: "M ?k = Some (tk_data b)" using M b by (simp add: table_in_def)
  obtain r c1 where g: "cache_get L c ?k = (r, c1)" by fastforce
  note ca = cache_get_agrees [OF table_okD(2) [OF t] c g]
  show ?thesis
  proof (cases r)
    case (Some blk)
    with ca(2) Mk have "blk_data blk = tk_data b" by simp
    with g Some ca show ?thesis by (auto simp: read_block_def)
  next
    case None
    obtain n where "block_new_from_location L (buffer_read_at (tr_file t)) (tk_handle b) (tr_opt t) =
        Some (Inr (block_new_with_buffer (tk_data b) (tr_opt t), n))"
      using table_okD(4) [OF t b] by (auto simp: blk_ok_def)
    moreover have "cache_agrees L M (cache_insert L c1 ?k (block_new_with_buffer (tk_data b) (tr_opt t)))"
      using ca(1) Mk by (intro cache_insert_agrees table_okD(2) [OF t]) (simp_all add: block_new_with_buffer_def)
    ultimately show ?thesis
      using g None ca(3) by (auto simp: read_block_def block_new_with_buffer_def cache_insert_def)
  qed
qed

subsection \<open>Positions\<close>

lemma bi_pos_restarts: "bi_pos L I blk st es p \<Longrightarrow> restarts_offset st = entry_off L I es (length es)"
  by (simp add: bi_pos_def bi_ready_def)

definition blk_start :: "tblk list \<Rightarrow> nat \<Rightarrow> nat" where
  "blk_start bs j = length (table_entries (take j bs))"

text \<open>Inside block \<open>j\<close>, \<open>q\<close> entries into it.\<close>

definition in_block ::
  "('f, 'c) libs \<Rightarrow> nat \<Rightarrow> 'f table_reader \<Rightarrow> tblk list \<Rightarrow> 'c table_iter \<Rightarrow> nat \<Rightarrow> nat \<Rightarrow> bool" where
  "in_block L I t bs s j q \<longleftrightarrow>
     j < length bs \<and> bi_pos L I (index_bytes t) (ti_index s) (index_entries L bs) (Suc j) \<and>
     (\<exists>blk. ti_data_block s = Some blk \<and> blk_data blk = tk_data (bs ! j) \<and>
        bi_pos L I (tk_data (bs ! j)) (ti_data_state s) (tk_entries (bs ! j)) q)"

definition ti_inv ::
  "('f, 'c) libs \<Rightarrow> nat \<Rightarrow> (bytes \<rightharpoonup> bytes) \<Rightarrow> 'f table_reader \<Rightarrow> tblk list \<Rightarrow> 'c table_iter \<Rightarrow> bool" where
  "ti_inv L I M t bs s \<longleftrightarrow> table_ok L I t bs \<and> table_in L M t bs \<and> cache_agrees L M (ti_cache s)"

definition ti_pos ::
  "('f, 'c) libs \<Rightarrow> nat \<Rightarrow> (bytes \<rightharpoonup> bytes) \<Rightarrow> 'f table_reader \<Rightarrow> tblk list \<Rightarrow> nat \<Rightarrow>
   'c table_iter \<Rightarrow> entry list \<Rightarrow> nat \<Rightarrow> bool" where
  "ti_pos L I M t bs cid s es p \<longleftrightarrow>
     ti_inv L I M t bs s \<and> cache_id (ti_cache s) = cid \<and> es = table_entries bs \<and>
     (if p = 0 then ti_data_block s = None \<and>
        bi_pos L I (index_bytes t) (ti_index s) (index_entries L bs) 0
      else \<exists>j q. in_block L I t bs s j q \<and> 0 < q \<and> q \<le> length (tk_entries (bs ! j)) \<and>
        p = blk_start bs j + q)"

definition ti_finished ::
  "('f, 'c) libs \<Rightarrow> nat \<Rightarrow> (bytes \<rightharpoonup> bytes) \<Rightarrow> 'f table_reader \<Rightarrow> tblk list \<Rightarrow> nat \<Rightarrow>
   'c table_iter \<Rightarrow> entry list \<Rightarrow> bool" where
  "ti_finished L I M t bs cid s es \<longleftrightarrow>
     ti_inv L I M t bs s \<and> cache_id (ti_cache s) = cid \<and> es = table_entries bs \<and>
     bi_finished L I (index_bytes t) (ti_index s) (index_entries L bs) \<and>
     (case ti_data_block s of None \<Rightarrow> True
      | Some blk \<Rightarrow> \<exists>b \<in> set bs. blk_data blk = tk_data b \<and>
          bi_finished L I (tk_data b) (ti_data_state s) (tk_entries b))"

lemma blk_start_Suc: "j < length bs \<Longrightarrow> blk_start bs (Suc j) = blk_start bs j + length (tk_entries (bs ! j))"
  by (simp add: blk_start_def table_entries_def take_Suc_conv_app_nth)

lemma blk_start_0 [simp]: "blk_start bs 0 = 0"
  by (simp add: blk_start_def table_entries_def)

lemma blk_start_length: "blk_start bs (length bs) = length (table_entries bs)"
  by (simp add: blk_start_def)

lemma blk_start_mono: "i \<le> j \<Longrightarrow> blk_start bs i \<le> blk_start bs j"
proof -
  assume "i \<le> j"
  then have "take j bs = take i bs @ drop i (take j bs)"
    by (metis append_take_drop_id min.absorb1 take_take)
  then show ?thesis by (metis blk_start_def table_entries_def length_append concat_append map_append le_add1)
qed

lemma nth_table_entries:
  assumes "j < length bs" "q < length (tk_entries (bs ! j))"
  shows "table_entries bs ! (blk_start bs j + q) = tk_entries (bs ! j) ! q"
    and "blk_start bs j + q < length (table_entries bs)"
proof -
  have s: "table_entries bs = table_entries (take j bs) @ tk_entries (bs ! j) @ table_entries (drop (Suc j) bs)"
    using assms(1) by (simp add: table_entries_def)
      (metis append_take_drop_id concat.simps(2) concat_append Cons_nth_drop_Suc list.simps(9) map_append)
  show "table_entries bs ! (blk_start bs j + q) = tk_entries (bs ! j) ! q"
    using assms(2) by (simp add: s blk_start_def nth_append)
  show "blk_start bs j + q < length (table_entries bs)"
    using assms(2) by (subst s) (simp add: blk_start_def)
qed

lemma in_block_current:
  assumes t: "table_ok L I t bs" and b: "in_block L I t bs s j (Suc q)" and q: "q < length (tk_entries (bs ! j))"
  shows "ti_valid s" "ti_current_k s = Some (fst (tk_entries (bs ! j) ! q))"
    "ti_current_v s = Some (Some (snd (tk_entries (bs ! j) ! q)))"
proof -
  have "bs ! j \<in> set bs" using b by (simp add: in_block_def)
  note kn = block_keys_nonempty [OF t this]
  obtain blk where blk: "ti_data_block s = Some blk" "blk_data blk = tk_data (bs ! j)"
    "bi_pos L I (tk_data (bs ! j)) (ti_data_state s) (tk_entries (bs ! j)) (Suc q)"
    using b by (auto simp: in_block_def)
  from bi.current [OF blk(3) kn q] blk(1,2)
  show "ti_valid s" "ti_current_k s = Some (fst (tk_entries (bs ! j) ! q))"
    "ti_current_v s = Some (Some (snd (tk_entries (bs ! j) ! q)))"
    by (simp_all add: ti_valid_def ti_current_k_def ti_current_v_def)
qed

subsection \<open>Loading the next block\<close>

text \<open>What the index iterator yields in front of block \<open>j\<close>.\<close>

lemma index_current:
  assumes t: "table_ok L I t bs" and M: "table_in L M t bs" and c: "cache_agrees L M c"
    and p: "bi_pos L I (index_bytes t) ii (index_entries L bs) (Suc j)" and j: "j < length bs"
  shows "\<exists>n blk c'. index_kv (index_bytes t) ii = Some (Some (tk_sep (bs ! j), bh_bytes L (tk_handle (bs ! j)))) \<and>
     bh_decode L (bh_bytes L (tk_handle (bs ! j))) = Some (tk_handle (bs ! j), n) \<and>
     read_block L t (tk_handle (bs ! j)) c = Some (Inr (Some blk), c') \<and>
     blk_data blk = tk_data (bs ! j) \<and> cache_agrees L M c' \<and> cache_id c' = cache_id c"
proof -
  have b: "bs ! j \<in> set bs" using j by simp
  have "bh_wf (tk_handle (bs ! j))" using table_okD(4) [OF t b] by (simp add: blk_ok_def)
  then have d: "bh_decode L (bh_bytes L (tk_handle (bs ! j))) =
      Some (tk_handle (bs ! j), length (bh_bytes L (tk_handle (bs ! j))))"
    using bh_roundtrip [OF table_okD(1) [OF t], of "tk_handle (bs ! j)" "[]"] by simp
  have "index_kv (index_bytes t) ii = Some (Some (tk_sep (bs ! j), bh_bytes L (tk_handle (bs ! j))))"
    using bi.current_kv_at [OF p index_keys_nonempty [OF t]] j by simp
  with d read_block_ok [OF t M c b] show ?thesis by blast
qed

text \<open>Advancing past the end of a block (or before the first one) lands on the first entry
  of the next.\<close>

lemma advance_next_block:
  assumes inv: "ti_inv L I M t bs s0"
    and step: "ti_data_step (bi_advance L) s0 = Some (False, s)"
    and s: "ti_index s = ti_index s0" "ti_cache s = ti_cache s0"
    and p: "bi_pos L I (index_bytes t) (ti_index s0) (index_entries L bs) j" and j: "j < length bs"
  shows "\<exists>s'. ti_advance L t s0 = Some (True, s') \<and> ti_inv L I M t bs s' \<and>
           cache_id (ti_cache s') = cache_id (ti_cache s0) \<and> in_block L I t bs s' j 1"
proof -
  have t: "table_ok L I t bs" and M: "table_in L M t bs" and c: "cache_agrees L M (ti_cache s0)"
    using inv by (auto simp: ti_inv_def)
  have b: "bs ! j \<in> set bs" using j by simp
  obtain ii where ii: "bi_advance L (index_bytes t) (ti_index s0) = Some (True, ii)"
    "bi_pos L I (index_bytes t) ii (index_entries L bs) (Suc j)"
    using bi.advance_step [OF p index_keys_nonempty [OF t]] j by auto
  obtain n blk c' where cur:
    "index_kv (index_bytes t) ii = Some (Some (tk_sep (bs ! j), bh_bytes L (tk_handle (bs ! j))))"
    "bh_decode L (bh_bytes L (tk_handle (bs ! j))) = Some (tk_handle (bs ! j), n)"
    "read_block L t (tk_handle (bs ! j)) (ti_cache s0) = Some (Inr (Some blk), c')"
    "blk_data blk = tk_data (bs ! j)" "cache_agrees L M c'" "cache_id c' = cache_id (ti_cache s0)"
    using index_current [OF t M c ii(2) j] by blast
  have lay: "block_layout L I (tk_entries (bs ! j)) (tk_data (bs ! j))" and ne: "tk_entries (bs ! j) \<noteq> []"
    using table_okD(4) [OF t b] by (auto simp: blk_ok_def)
  obtain ro where ro: "restarts_offset_of L (tk_data (bs ! j)) = Some ro"
    "bi_pos L I (tk_data (bs ! j)) (bis_new ro) (tk_entries (bs ! j)) 0"
    using block_iter_start [OF lay] by (auto simp: block_iter_def bind_eq_Some_conv)
  obtain st where st: "bi_advance L (tk_data (bs ! j)) (bis_new ro) = Some (True, st)"
    "bi_pos L I (tk_data (bs ! j)) st (tk_entries (bs ! j)) (Suc 0)"
    using bi.advance_step [OF ro(2) block_keys_nonempty [OF t b]] ne by auto
  define s2 where "s2 = s\<lparr>ti_index := ii, ti_cache := c', ti_data_state := bis_new ro, ti_data_block := Some blk\<rparr>"
  have "ti_data_step (bi_advance L) s2 = Some (True, s2\<lparr>ti_data_state := st\<rparr>)"
    using st(1) cur(4) by (simp add: ti_data_step_def s2_def)
  then have "ti_advance L t s2 = Some (True, s2\<lparr>ti_data_state := st\<rparr>)"
    by (subst ti_advance.simps) simp
  then have "ti_advance L t s0 = Some (True, s2\<lparr>ti_data_state := st\<rparr>)"
    using step ii(1) s cur ro(1) by (subst ti_advance.simps) (simp add: s2_def)
  moreover have "in_block L I t bs (s2\<lparr>ti_data_state := st\<rparr>) j 1"
    using ii(2) st(2) cur(4) j by (simp add: in_block_def s2_def)
  ultimately show ?thesis
    using t M cur(5,6) by (auto simp: ti_inv_def s2_def)
qed

subsection \<open>The contract\<close>

lemma in_block_next:
  assumes t: "table_ok L I t bs" and b: "in_block L I t bs s j q" and q: "q < length (tk_entries (bs ! j))"
  shows "\<exists>s'. ti_advance L t s = Some (True, s') \<and> in_block L I t bs s' j (Suc q) \<and> ti_cache s' = ti_cache s"
proof -
  have "bs ! j \<in> set bs" using b by (simp add: in_block_def)
  note kn = block_keys_nonempty [OF t this]
  obtain blk where blk: "ti_data_block s = Some blk" "blk_data blk = tk_data (bs ! j)"
    "bi_pos L I (tk_data (bs ! j)) (ti_data_state s) (tk_entries (bs ! j)) q"
    using b by (auto simp: in_block_def)
  obtain st where st: "bi_advance L (tk_data (bs ! j)) (ti_data_state s) = Some (True, st)"
    "bi_pos L I (tk_data (bs ! j)) st (tk_entries (bs ! j)) (Suc q)"
    using bi.advance_step [OF blk(3) kn q] by blast
  have "ti_data_step (bi_advance L) s = Some (True, s\<lparr>ti_data_state := st\<rparr>)"
    using blk st(1) by (simp add: ti_data_step_def)
  then have "ti_advance L t s = Some (True, s\<lparr>ti_data_state := st\<rparr>)"
    by (subst ti_advance.simps) simp
  moreover have "in_block L I t bs (s\<lparr>ti_data_state := st\<rparr>) j (Suc q)"
    using b st(2) blk by (auto simp: in_block_def)
  ultimately show ?thesis by auto
qed

text \<open>At the end of a block the inner step fails and leaves the block's iterator finished.\<close>

lemma in_block_end:
  assumes t: "table_ok L I t bs" and b: "in_block L I t bs s j (length (tk_entries (bs ! j)))"
  shows "\<exists>st blk. ti_data_step (bi_advance L) s = Some (False, s\<lparr>ti_data_state := st\<rparr>) \<and>
     ti_data_block s = Some blk \<and> blk_data blk = tk_data (bs ! j) \<and>
     bi_finished L I (tk_data (bs ! j)) st (tk_entries (bs ! j))"
proof -
  have "bs ! j \<in> set bs" using b by (simp add: in_block_def)
  note kn = block_keys_nonempty [OF t this]
  obtain blk where blk: "ti_data_block s = Some blk" "blk_data blk = tk_data (bs ! j)"
    "bi_pos L I (tk_data (bs ! j)) (ti_data_state s) (tk_entries (bs ! j)) (length (tk_entries (bs ! j)))"
    using b by (auto simp: in_block_def)
  obtain st where "bi_advance L (tk_data (bs ! j)) (ti_data_state s) = Some (False, st)"
    "bi_finished L I (tk_data (bs ! j)) st (tk_entries (bs ! j))"
    using bi.advance_end [OF blk(3) kn] by blast
  with blk show ?thesis by (auto simp: ti_data_step_def)
qed

lemma ti_posI:
  assumes "ti_inv L I M t bs s" "cache_id (ti_cache s) = cid" "in_block L I t bs s j q" "0 < q"
    "q \<le> length (tk_entries (bs ! j))"
  shows "ti_pos L I M t bs cid s (table_entries bs) (blk_start bs j + q)"
  using assms by (auto simp: ti_pos_def)

lemma ti_pos_cases:
  assumes "ti_pos L I M t bs cid s es p" "0 < p"
  obtains j q where "in_block L I t bs s j q" "0 < q" "q \<le> length (tk_entries (bs ! j))"
    "p = blk_start bs j + q" "es = table_entries bs"
  using assms by (auto simp: ti_pos_def)

lemma ti_advance_step:
  assumes p: "ti_pos L I M t bs cid s es p" and lt: "p < length es"
  shows "\<exists>s'. ti_advance L t s = Some (True, s') \<and> ti_pos L I M t bs cid s' es (Suc p)"
proof -
  have inv: "ti_inv L I M t bs s" and t: "table_ok L I t bs" and es: "es = table_entries bs"
    and cid: "cache_id (ti_cache s) = cid"
    using p by (auto simp: ti_pos_def ti_inv_def)
  have len: "0 < length (tk_entries (bs ! j))" if "j < length bs" for j
    using table_okD(4) [OF t, of "bs ! j"] that by (simp add: blk_ok_def)
  show ?thesis
  proof (cases "p = 0")
    case True
    then have n: "ti_data_block s = None" "bi_pos L I (index_bytes t) (ti_index s) (index_entries L bs) 0"
      using p by (simp_all add: ti_pos_def)
    have b0: "0 < length bs" using table_okD(3) [OF t] by simp
    have "ti_data_step (bi_advance L) s = Some (False, s)" using n by (simp add: ti_data_step_def)
    from advance_next_block [OF inv this refl refl n(2) b0]
    obtain s' where s': "ti_advance L t s = Some (True, s')" "ti_inv L I M t bs s'"
      "cache_id (ti_cache s') = cid" "in_block L I t bs s' 0 1" using cid by auto
    with ti_posI [OF s'(2,3,4)] len [OF b0] True es show ?thesis by (auto simp: Suc_le_eq)
  next
    case False
    then obtain j q where b: "in_block L I t bs s j q" "0 < q" "q \<le> length (tk_entries (bs ! j))"
      "p = blk_start bs j + q" using p by (auto elim: ti_pos_cases)
    have j: "j < length bs" using b(1) by (simp add: in_block_def)
    show ?thesis
    proof (cases "q < length (tk_entries (bs ! j))")
      case True
      obtain s' where s': "ti_advance L t s = Some (True, s')" "in_block L I t bs s' j (Suc q)"
        "ti_cache s' = ti_cache s" using in_block_next [OF t b(1) True] by blast
      moreover have "ti_inv L I M t bs s'" using inv s'(3) by (simp add: ti_inv_def)
      ultimately show ?thesis using ti_posI [of L I M t bs s' cid j "Suc q"] True cid b(4) es by auto
    next
      case False
      with b(3) have q: "q = length (tk_entries (bs ! j))" by simp
      then have pj: "p = blk_start bs (Suc j)" using b(4) j by (simp add: blk_start_Suc)
      have sj: "Suc j < length bs"
        using lt pj blk_start_mono [of "length bs" "Suc j" bs] by (force simp: es blk_start_length)
      obtain st where st: "ti_data_step (bi_advance L) s = Some (False, s\<lparr>ti_data_state := st\<rparr>)"
        using in_block_end [OF t b(1) [unfolded q]] by blast
      have ip: "bi_pos L I (index_bytes t) (ti_index s) (index_entries L bs) (Suc j)"
        using b(1) by (simp add: in_block_def)
      from advance_next_block [OF inv st _ _ ip sj] obtain s' where s': "ti_advance L t s = Some (True, s')"
        "ti_inv L I M t bs s'" "cache_id (ti_cache s') = cid" "in_block L I t bs s' (Suc j) 1"
        using cid by auto
      with ti_posI [OF s'(2,3,4)] len [OF sj] pj es show ?thesis by (auto simp: Suc_le_eq)
    qed
  qed
qed

lemma ti_advance_end:
  assumes p: "ti_pos L I M t bs cid s es (length es)"
  shows "\<exists>s'. ti_advance L t s = Some (False, s') \<and> ti_finished L I M t bs cid s' es"
proof -
  have inv: "ti_inv L I M t bs s" and t: "table_ok L I t bs" and es: "es = table_entries bs"
    using p by (auto simp: ti_pos_def ti_inv_def)
  have ne: "bs \<noteq> []" "tk_entries (hd bs) \<noteq> []"
    using table_okD(3) [OF t] table_okD(4) [OF t, of "hd bs"] by (auto simp: blk_ok_def)
  then have "0 < length es" by (cases bs) (auto simp: es table_entries_def)
  with p obtain j q where b: "in_block L I t bs s j q" "0 < q" "q \<le> length (tk_entries (bs ! j))"
    "length es = blk_start bs j + q" by (auto elim: ti_pos_cases)
  have j: "j < length bs" using b(1) by (simp add: in_block_def)
  have le: "blk_start bs (Suc j) \<le> length es"
    using blk_start_mono [of "Suc j" "length bs" bs] j by (simp add: es blk_start_length)
  then have q: "q = length (tk_entries (bs ! j))" using b(3,4) blk_start_Suc [OF j] by simp
  have last: "Suc j = length bs"
  proof (rule ccontr)
    assume "Suc j \<noteq> length bs"
    then have sj: "Suc j < length bs" using j by simp
    then have "tk_entries (bs ! Suc j) \<noteq> []" using table_okD(4) [OF t, of "bs ! Suc j"] by (simp add: blk_ok_def)
    then show False
      using nth_table_entries(2) [OF sj, of 0] b(4) q blk_start_Suc [OF j] by (simp add: es)
  qed
  obtain st blk where st: "ti_data_step (bi_advance L) s = Some (False, s\<lparr>ti_data_state := st\<rparr>)"
    "ti_data_block s = Some blk" "blk_data blk = tk_data (bs ! j)"
    "bi_finished L I (tk_data (bs ! j)) st (tk_entries (bs ! j))"
    using in_block_end [OF t b(1) [unfolded q]] by blast
  have "bi_pos L I (index_bytes t) (ti_index s) (index_entries L bs) (length (index_entries L bs))"
    using b(1) last by (simp add: in_block_def)
  from bi.advance_end [OF this index_keys_nonempty [OF t]] obtain ii where
    ii: "bi_advance L (index_bytes t) (ti_index s) = Some (False, ii)"
      "bi_finished L I (index_bytes t) ii (index_entries L bs)" by blast
  have "ti_advance L t s = Some (False, s\<lparr>ti_data_state := st, ti_index := ii\<rparr>)"
    using st(1) ii(1) by (subst ti_advance.simps) simp
  then show ?thesis
    using inv ii(2) st(2-) j es p by (auto simp: ti_finished_def ti_inv_def ti_pos_def intro!: bexI [of _ "bs ! j"])
qed

lemma ti_advance_finished:
  assumes f: "ti_finished L I M t bs cid s es"
  shows "\<exists>s'. ti_advance L t s = Some (False, s') \<and> ti_finished L I M t bs cid s' es"
proof -
  have t: "table_ok L I t bs" using f by (simp add: ti_finished_def ti_inv_def)
  have "bi_finished L I (index_bytes t) (ti_index s) (index_entries L bs)"
    using f by (simp add: ti_finished_def)
  from bi.advance_finished [OF this index_keys_nonempty [OF t]] obtain ii where
    ii: "bi_advance L (index_bytes t) (ti_index s) = Some (False, ii)"
      "bi_finished L I (index_bytes t) ii (index_entries L bs)" by blast
  show ?thesis
  proof (cases "ti_data_block s")
    case None
    then have "ti_advance L t s = Some (False, s\<lparr>ti_index := ii\<rparr>)"
      using ii(1) by (subst ti_advance.simps) (simp add: ti_data_step_def)
    with f ii(2) None show ?thesis by (auto simp: ti_finished_def ti_inv_def)
  next
    case (Some blk)
    then obtain b where b: "b \<in> set bs" "blk_data blk = tk_data b"
      "bi_finished L I (tk_data b) (ti_data_state s) (tk_entries b)"
      using f by (auto simp: ti_finished_def)
    obtain st where st: "bi_advance L (tk_data b) (ti_data_state s) = Some (False, st)"
      "bi_finished L I (tk_data b) st (tk_entries b)"
      using bi.advance_finished [OF b(3) block_keys_nonempty [OF t b(1)]] by blast
    then have "ti_advance L t s = Some (False, s\<lparr>ti_data_state := st, ti_index := ii\<rparr>)"
      using ii(1) b(2) Some by (subst ti_advance.simps) (simp add: ti_data_step_def)
    with f ii(2) Some b(1,2) st(2) show ?thesis
      by (auto simp: ti_finished_def ti_inv_def intro!: bexI [of _ b])
  qed
qed

lemma ti_reset_ok:
  assumes "ti_inv L I M t bs s" "cache_id (ti_cache s) = cid"
    "bi_pos L I (index_bytes t) (ti_index s) (index_entries L bs) j \<or>
     bi_finished L I (index_bytes t) (ti_index s) (index_entries L bs)"
  shows "ti_pos L I M t bs cid (ti_reset s) (table_entries bs) 0"
proof -
  have "table_ok L I t bs" using assms(1) by (simp add: ti_inv_def)
  from bi.reset_pos [OF assms(3) index_keys_nonempty [OF this]] assms(1,2) show ?thesis
    by (simp add: ti_pos_def ti_inv_def ti_reset_def)
qed

lemma ti_prev_step:
  assumes p: "ti_pos L I M t bs cid s es (Suc p)"
  shows "\<exists>s'. ti_prev L t s = Some (0 < p, s') \<and> ti_pos L I M t bs cid s' es p"
proof -
  have inv: "ti_inv L I M t bs s" and t: "table_ok L I t bs" and es: "es = table_entries bs"
    and cid: "cache_id (ti_cache s) = cid" and M: "table_in L M t bs"
    using p by (auto simp: ti_pos_def ti_inv_def)
  obtain j q' where b: "in_block L I t bs s j q'" "0 < q'" "q' \<le> length (tk_entries (bs ! j))"
    "Suc p = blk_start bs j + q'" using p by (auto elim: ti_pos_cases)
  then obtain q where q: "q' = Suc q" by (cases q') auto
  have j: "j < length bs" using b(1) by (simp add: in_block_def)
  obtain blk where blk: "ti_data_block s = Some blk" "blk_data blk = tk_data (bs ! j)"
    "bi_pos L I (tk_data (bs ! j)) (ti_data_state s) (tk_entries (bs ! j)) (Suc q)"
    using b(1) q by (auto simp: in_block_def)
  have "bs ! j \<in> set bs" using j by simp
  from bi.prev_step [OF blk(3) block_keys_nonempty [OF t this]] b(3) q
  obtain st where st: "bi_prev L (tk_data (bs ! j)) (ti_data_state s) = Some (0 < q, st)"
    "bi_pos L I (tk_data (bs ! j)) st (tk_entries (bs ! j)) q" by auto
  let ?s = "s\<lparr>ti_data_state := st\<rparr>"
  have step: "ti_data_step (bi_prev L) s = Some (0 < q, ?s)"
    using blk st(1) by (simp add: ti_data_step_def)
  have ip: "bi_pos L I (index_bytes t) (ti_index s) (index_entries L bs) (Suc j)"
    using b(1) by (simp add: in_block_def)
  obtain ii where ii: "bi_prev L (index_bytes t) (ti_index s) = Some (0 < j, ii)"
    "bi_pos L I (index_bytes t) ii (index_entries L bs) j"
    using bi.prev_step [OF ip index_keys_nonempty [OF t]] j by auto
  consider "0 < q" | "q = 0" "j = 0" | i where "q = 0" "j = Suc i" by (cases j) auto
  then show ?thesis
  proof cases
    case 1
    moreover have "in_block L I t bs ?s j q" "ti_inv L I M t bs ?s"
      using b(1) st(2) blk inv by (auto simp: in_block_def ti_inv_def)
    ultimately show ?thesis
      using step ti_posI [of L I M t bs ?s cid j q] b(3,4) q cid es by (auto simp: ti_prev_def)
  next
    case 2
    have "ti_pos L I M t bs cid (ti_reset (?s\<lparr>ti_index := ii\<rparr>)) (table_entries bs) 0"
      using inv cid ii(2) by (intro ti_reset_ok) (auto simp: ti_inv_def)
    then show ?thesis using 2 step ii(1) b(4) q es by (simp add: ti_prev_def)
  next
    case 3
    then have i: "i < length bs" using j by simp
    have c: "cache_agrees L M (ti_cache s)" using inv by (simp add: ti_inv_def)
    obtain n blk' c' where cur:
      "index_kv (index_bytes t) ii = Some (Some (tk_sep (bs ! i), bh_bytes L (tk_handle (bs ! i))))"
      "bh_decode L (bh_bytes L (tk_handle (bs ! i))) = Some (tk_handle (bs ! i), n)"
      "read_block L t (tk_handle (bs ! i)) (ti_cache s) = Some (Inr (Some blk'), c')"
      "blk_data blk' = tk_data (bs ! i)" "cache_agrees L M c'" "cache_id c' = cache_id (ti_cache s)"
      using index_current [OF t M c _ i] ii(2) 3 by blast
    have bi: "bs ! i \<in> set bs" using i by simp
    have lay: "block_layout L I (tk_entries (bs ! i)) (tk_data (bs ! i))" and ne: "tk_entries (bs ! i) \<noteq> []"
      using table_okD(4) [OF t bi] by (auto simp: blk_ok_def)
    obtain it where it: "block_iter L (tk_data (bs ! i)) = Some it"
      "bi_pos L I (tk_data (bs ! i)) it (tk_entries (bs ! i)) 0" using block_iter_start [OF lay] by blast
    obtain st' where st': "bi_seek_to_last L (tk_data (bs ! i)) it = Some st'"
      "bi_pos L I (tk_data (bs ! i)) st' (tk_entries (bs ! i)) (length (tk_entries (bs ! i)))"
      using seek_to_last_ok [OF lay block_keys_nonempty [OF t bi] ne bi_pos_restarts [OF it(2)]] by blast
    let ?s' = "?s\<lparr>ti_index := ii, ti_cache := c', ti_data_state := st', ti_data_block := Some blk'\<rparr>"
    have "ti_prev L t s = Some (True, ?s')"
      using 3 step ii(1) cur it(1) st'(1) by (simp add: ti_prev_def)
    moreover have "in_block L I t bs ?s' i (length (tk_entries (bs ! i)))" "ti_inv L I M t bs ?s'"
      using i ii(2) 3 cur st'(2) inv by (auto simp: in_block_def ti_inv_def)
    moreover have "p = blk_start bs i + length (tk_entries (bs ! i))"
      using b(4) q 3 blk_start_Suc [OF i] by simp
    ultimately show ?thesis
      using ti_posI [of L I M t bs ?s' cid i "length (tk_entries (bs ! i))"] ne cid cur(6) es by auto
  qed
qed

interpretation ti: ss_iterator ti_valid "ti_advance L t" "ti_prev L t" ti_current_k ti_current_v
  ti_reset "ti_pos L I M t bs cid" "ti_finished L I M t bs cid" for L I M t bs cid
proof unfold_locales
  fix s es p
  show "\<exists>s'. ti_advance L t s = Some (True, s') \<and> ti_pos L I M t bs cid s' es (Suc p)"
    if "ti_pos L I M t bs cid s es p" "p < length es" using that by (rule ti_advance_step)
  show "\<exists>s'. ti_prev L t s = Some (0 < p, s') \<and> ti_pos L I M t bs cid s' es p"
    if "ti_pos L I M t bs cid s es (Suc p)" using that by (rule ti_prev_step)
  show "ti_valid s \<and> ti_current_k s = Some (fst (es ! p)) \<and> ti_current_v s = Some (Some (snd (es ! p)))"
    if p: "ti_pos L I M t bs cid s es (Suc p)"
  proof -
    obtain j q' where b: "in_block L I t bs s j q'" "0 < q'" "q' \<le> length (tk_entries (bs ! j))"
      "Suc p = blk_start bs j + q'" "es = table_entries bs" using p by (auto elim: ti_pos_cases)
    then obtain q where q: "q' = Suc q" by (cases q') auto
    have "table_ok L I t bs" using p by (simp add: ti_pos_def ti_inv_def)
    with in_block_current [OF _ b(1) [unfolded q]] nth_table_entries(1) [of j bs q] b q show ?thesis
      by (simp add: in_block_def)
  qed
  show "\<not> ti_valid s \<and> ti_current_k s = None"
    if "ti_pos L I M t bs cid s es 0 \<or> ti_finished L I M t bs cid s es"
    using that bi.current_none block_keys_nonempty
    by (fastforce simp: ti_pos_def ti_finished_def ti_inv_def ti_valid_def ti_current_k_def
        split: option.splits)
  show "ti_pos L I M t bs cid (ti_reset s) es 0"
    if "ti_pos L I M t bs cid s es p \<or> ti_finished L I M t bs cid s es"
    using that
  proof
    assume p: "ti_pos L I M t bs cid s es p"
    then have "\<exists>j. bi_pos L I (index_bytes t) (ti_index s) (index_entries L bs) j"
      by (auto simp: ti_pos_def in_block_def split: if_splits)
    with p ti_reset_ok [of L I M t bs s cid] show ?thesis by (auto simp: ti_pos_def)
  next
    assume "ti_finished L I M t bs cid s es"
    with ti_reset_ok [of L I M t bs s cid] show ?thesis by (auto simp: ti_finished_def)
  qed
next
  fix s es
  show "\<exists>s'. ti_advance L t s = Some (False, s') \<and> ti_finished L I M t bs cid s' es"
    if "ti_pos L I M t bs cid s es (length es)" using that by (rule ti_advance_end)
  show "\<exists>s'. ti_advance L t s = Some (False, s') \<and> ti_finished L I M t bs cid s' es"
    if "ti_finished L I M t bs cid s es" using that by (rule ti_advance_finished)
qed

end
