(* ===== verification/Sstable_Get.thy ===== *)
theory Sstable_Get
  imports Sstable_Iter
begin

text \<open>
  Seeking in a table and point lookup.  The index finds the first block whose separator is not
  below the key, and only that block is searched.
\<close>

definition lookup_block :: "tblk list \<Rightarrow> bytes \<Rightarrow> bytes option" where
  "lookup_block bs k =
     (let j = length (takeWhile (\<lambda>b. tk_sep b < k) bs)
      in if j < length bs then map_of (tk_entries (bs ! j)) k else None)"

lemma first_ge_index: "first_ge (index_entries L bs) k = length (takeWhile (\<lambda>b. tk_sep b < k) bs)"
  by (simp add: first_ge_def index_entries_def takeWhile_map comp_def)

lemma sorted_le_last:
  fixes es :: "entry list"
  shows "sorted (map fst es) \<Longrightarrow> e \<in> set es \<Longrightarrow> fst e \<le> fst (last es)"
  by (cases es rule: rev_cases) (auto simp: sorted_append)

lemma table_entries_split:
  "j < length bs \<Longrightarrow> table_entries bs =
     table_entries (take j bs) @ tk_entries (bs ! j) @ table_entries (drop (Suc j) bs)"
  by (simp add: table_entries_def)
    (metis append_take_drop_id concat.simps(2) concat_append Cons_nth_drop_Suc list.simps(9) map_append)

lemma block_sorted:
  assumes "table_ok L I t bs" "j < length bs"
  shows "sorted_wrt (<) (map fst (tk_entries (bs ! j)))" "sorted (map fst (tk_entries (bs ! j)))"
proof -
  show "sorted_wrt (<) (map fst (tk_entries (bs ! j)))"
    using table_okD(6) [OF assms(1)] by (simp add: table_entries_split [OF assms(2)] sorted_wrt_append)
  then show "sorted (map fst (tk_entries (bs ! j)))" by (rule strict_sorted_imp_sorted)
qed

text \<open>The separators strictly increase.\<close>

lemma seps_sorted:
  assumes t: "table_ok L I t bs"
  shows "sorted_wrt (<) (map tk_sep bs)"
proof -
  have "tk_sep (bs ! j) < tk_sep (bs ! Suc j)" if j: "Suc j < length bs" for j
  proof -
    have b: "blk_ok L I (tr_opt t) (tr_file t) (bs ! Suc j)" using table_okD(4) [OF t] j by simp
    then have ne: "tk_entries (bs ! Suc j) \<noteq> []" by (simp add: blk_ok_def)
    have "fst (hd (tk_entries (bs ! Suc j))) \<le> fst (last (tk_entries (bs ! Suc j)))"
      using block_sorted(2) [OF t j] ne
      by (cases "tk_entries (bs ! Suc j)") (auto simp: sorted_wrt_map)
    moreover have "tk_sep (bs ! j) \<le> fst (hd (tk_entries (bs ! Suc j)))"
      using table_okD(5) [OF t] j by (simp add: seps_ok_def sep_upto_def)
    moreover have "fst (last (tk_entries (bs ! Suc j))) < tk_sep (bs ! Suc j)"
      using b by (simp add: blk_ok_def)
    ultimately show ?thesis by order
  qed
  then show ?thesis by (simp add: sorted_wrt_iff_nth_Suc_transp)
qed

lemma index_sorted: "table_ok L I t bs \<Longrightarrow> sorted (map fst (index_entries L bs))"
  using strict_sorted_imp_sorted [OF seps_sorted] by (simp add: index_entries_def comp_def)

text \<open>Keys below a block's first separator, and above.\<close>

lemma entries_before:
  assumes t: "table_ok L I t bs" and i: "i < length bs" and e: "e \<in> set (tk_entries (bs ! i))"
  shows "fst e < tk_sep (bs ! i)"
proof -
  have b: "blk_ok L I (tr_opt t) (tr_file t) (bs ! i)" using table_okD(4) [OF t] i by simp
  have "fst e \<le> fst (last (tk_entries (bs ! i)))"
    by (rule sorted_le_last [OF block_sorted(2) [OF t i] e])
  moreover have "fst (last (tk_entries (bs ! i))) < tk_sep (bs ! i)" using b by (simp add: blk_ok_def)
  ultimately show ?thesis by order
qed

lemma lookup_block_map_of:
  assumes t: "table_ok L I t bs"
    and safe: "\<And>j. Suc j < length bs \<Longrightarrow> tk_sep (bs ! j) = k \<Longrightarrow> fst (hd (tk_entries (bs ! Suc j))) \<noteq> k"
  shows "lookup_block bs k = map_of (table_entries bs) k"
proof -
  define j where "j = length (takeWhile (\<lambda>b. tk_sep b < k) bs)"
  have below: "tk_sep (bs ! i) < k" if "i < j" for i
    using that takeWhile_nth [of i "\<lambda>b. tk_sep b < k" bs] nth_mem [of i "takeWhile (\<lambda>b. tk_sep b < k) bs"]
    by (auto simp: j_def dest: set_takeWhileD)
  have jl: "j \<le> length bs" by (simp add: j_def length_takeWhile_le)
  have pre: "k \<notin> fst ` set (table_entries (take j bs))"
  proof
    assume "k \<in> fst ` set (table_entries (take j bs))"
    then obtain b e where "b \<in> set (take j bs)" "e \<in> set (tk_entries b)" "fst e = k"
      by (auto simp: table_entries_def)
    then obtain i where "i < j" "i < length bs" "b = bs ! i" by (auto simp: in_set_conv_nth)
    with entries_before [OF t, of i e] below [of i] \<open>e \<in> set (tk_entries b)\<close> \<open>fst e = k\<close>
    show False by simp
  qed
  show ?thesis
  proof (cases "j < length bs")
    case False
    with jl pre have "map_of (table_entries bs) k = None" by (simp add: map_of_eq_None_iff)
    with False show ?thesis by (simp add: lookup_block_def Let_def j_def)
  next
    case True
    have ge: "k \<le> tk_sep (bs ! j)"
      using nth_length_takeWhile [of "\<lambda>b. tk_sep b < k" bs] True by (simp add: j_def)
    have post: "k \<notin> fst ` set (table_entries (drop (Suc j) bs))"
    proof
      assume "k \<in> fst ` set (table_entries (drop (Suc j) bs))"
      then have nxt: "Suc j < length bs" and mem: "k \<in> fst ` set (table_entries (drop (Suc j) bs))"
        by (auto simp: table_entries_def not_less_eq_eq intro: ccontr)
      let ?h = "hd (tk_entries (bs ! Suc j))"
      have ne: "tk_entries (bs ! Suc j) \<noteq> []" using table_okD(4) [OF t, of "bs ! Suc j"] nxt by (simp add: blk_ok_def)
      have d: "table_entries (drop (Suc j) bs) = tk_entries (bs ! Suc j) @ table_entries (drop (Suc (Suc j)) bs)"
        using nxt by (simp add: table_entries_def Cons_nth_drop_Suc [symmetric])
      have "sorted_wrt (<) (map fst (table_entries (drop (Suc j) bs)))"
        using table_okD(6) [OF t] by (simp add: table_entries_split [OF True] sorted_wrt_append)
      then have "fst ?h \<le> fst e" if "e \<in> set (table_entries (drop (Suc j) bs))" for e
        using that ne unfolding d by (cases "tk_entries (bs ! Suc j)") (auto intro: less_imp_le)
      with mem have "fst ?h \<le> k" by auto
      moreover have "tk_sep (bs ! j) \<le> fst ?h" using table_okD(5) [OF t] nxt by (simp add: seps_ok_def sep_upto_def)
      ultimately have "tk_sep (bs ! j) = k" "fst ?h = k" using ge by auto
      with safe [OF nxt] show False by simp
    qed
    have "map_of (table_entries bs) k = map_of (tk_entries (bs ! j)) k"
    proof -
      have "map_of (table_entries (take j bs)) k = None" "map_of (table_entries (drop (Suc j) bs)) k = None"
        using pre post by (simp_all add: map_of_eq_None_iff)
      then show ?thesis
        by (simp add: table_entries_split [OF True] map_add_def split: option.splits)
    qed
    with True show ?thesis by (simp add: lookup_block_def Let_def j_def)
  qed
qed

subsection \<open>Seeking\<close>

lemma ti_seek_ok:
  fixes k :: bytes
  assumes inv: "ti_inv L I M t bs s"
    and ip: "bi_pos L I (index_bytes t) (ti_index s) (index_entries L bs) i"
  defines "j \<equiv> first_ge (index_entries L bs) k"
  shows "\<exists>s'. ti_seek L t s k = Some s' \<and> ti_inv L I M t bs s' \<and>
     cache_id (ti_cache s') = cache_id (ti_cache s) \<and>
     (if j < length bs
      then (let q = first_ge (tk_entries (bs ! j)) k in
            if q < length (tk_entries (bs ! j)) then in_block L I t bs s' j (Suc q)
            else ti_current_k s' = None)
      else ti_current_k s' = None)"
proof -
  have t: "table_ok L I t bs" and M: "table_in L M t bs" and c: "cache_agrees L M (ti_cache s)"
    using inv by (auto simp: ti_inv_def)
  note kn = index_keys_nonempty [OF t]
  have rp: "bi_pos L I (index_bytes t) (bi_reset (ti_index s)) (index_entries L bs) 0"
    using bi.reset_pos [OF _ kn] ip by blast
  obtain ii where ii: "bi_seek L (index_bytes t) (bi_reset (ti_index s)) k = Some ii"
    "if j < length bs then bi_pos L I (index_bytes t) ii (index_entries L bs) (Suc j)
     else bi_finished L I (index_bytes t) ii (index_entries L bs)"
    using seek_ok [OF table_okD(8) [OF t] kn index_sorted [OF t] bi_pos_restarts [OF rp], of k]
    by (auto simp: j_def)
  show ?thesis
  proof (cases "j < length bs")
    case False
    then have "index_kv (index_bytes t) ii = Some None"
      using ii(2) bi.current_kv_none [OF _ kn] by auto
    then show ?thesis
      using False ii(1) inv by (simp add: ti_seek_def ti_reset_def ti_current_k_def ti_inv_def)
  next
    case True
    have b: "bs ! j \<in> set bs" using True by simp
    have ij: "bi_pos L I (index_bytes t) ii (index_entries L bs) (Suc j)" using ii(2) True by simp
    obtain n blk c' where cur:
      "index_kv (index_bytes t) ii = Some (Some (tk_sep (bs ! j), bh_bytes L (tk_handle (bs ! j))))"
      "bh_decode L (bh_bytes L (tk_handle (bs ! j))) = Some (tk_handle (bs ! j), n)"
      "read_block L t (tk_handle (bs ! j)) (ti_cache s) = Some (Inr (Some blk), c')"
      "blk_data blk = tk_data (bs ! j)" "cache_agrees L M c'" "cache_id c' = cache_id (ti_cache s)"
      using index_current [OF t M c ij True] by blast
    have lay: "block_layout L I (tk_entries (bs ! j)) (tk_data (bs ! j))"
      using table_okD(4) [OF t b] by (auto simp: blk_ok_def)
    obtain it where it: "block_iter L (tk_data (bs ! j)) = Some it"
      "bi_pos L I (tk_data (bs ! j)) it (tk_entries (bs ! j)) 0" using block_iter_start [OF lay] by blast
    let ?q = "first_ge (tk_entries (bs ! j)) k"
    obtain st where st: "bi_seek L (tk_data (bs ! j)) it k = Some st"
      "if ?q < length (tk_entries (bs ! j)) then bi_pos L I (tk_data (bs ! j)) st (tk_entries (bs ! j)) (Suc ?q)
       else bi_finished L I (tk_data (bs ! j)) st (tk_entries (bs ! j))"
      using seek_ok [OF lay block_keys_nonempty [OF t b] block_sorted(2) [OF t True] bi_pos_restarts [OF it(2)]]
      by blast
    define s' where "s' = (ti_reset s)\<lparr>ti_index := ii, ti_cache := c', ti_data_state := st, ti_data_block := Some blk\<rparr>"
    have "ti_seek L t s k = Some s'"
      using ii(1) cur it(1) st(1) by (simp add: ti_seek_def ti_reset_def s'_def)
    moreover have "ti_inv L I M t bs s'" "cache_id (ti_cache s') = cache_id (ti_cache s)"
      using t M cur(5,6) by (simp_all add: ti_inv_def s'_def)
    moreover have "if ?q < length (tk_entries (bs ! j)) then in_block L I t bs s' j (Suc ?q)
        else ti_current_k s' = None"
    proof (cases "?q < length (tk_entries (bs ! j))")
      case True
      with st(2) ij cur(4) \<open>j < length bs\<close> show ?thesis by (auto simp: in_block_def s'_def)
    next
      case False
      with st(2) have "bi_finished L I (tk_data (bs ! j)) st (tk_entries (bs ! j))" by simp
      then have "bi_current_k st = None"
        using bi.current_none [OF _ block_keys_nonempty [OF t b]] by blast
      with False show ?thesis by (simp add: s'_def ti_current_k_def)
    qed
    ultimately show ?thesis using True by (auto simp: Let_def)
  qed
qed

lemma map_of_first_ge:
  fixes k :: bytes
  assumes "sorted_wrt (<) (map fst es)"
  defines "q \<equiv> first_ge es k"
  shows "map_of es k = (if q < length es \<and> fst (es ! q) = k then Some (snd (es ! q)) else None)"
  unfolding q_def using assms(1)
proof (induction es)
  case (Cons e es)
  show ?case
  proof (cases "fst e < k")
    case True
    with Cons show ?thesis by (auto simp: first_ge_def)
  next
    case False
    with Cons.prems have "map_of es k = None" by (auto simp: map_of_eq_None_iff)
    with False show ?thesis by (auto simp: first_ge_def)
  qed
qed (simp add: first_ge_def)

subsection \<open>Lookup\<close>

lemma outside_range:
  assumes t: "table_ok L I t bs" and k: "k < tr_min_key t \<or> tr_max_key t < k"
  shows "k \<notin> fst ` set (table_entries bs)"
proof
  assume "k \<in> fst ` set (table_entries bs)"
  then obtain e where e: "e \<in> set (table_entries bs)" "fst e = k" by auto
  let ?es = "table_entries bs"
  have s: "sorted_wrt (<) (map fst ?es)" and mm: "tr_min_key t = fst (hd ?es)" "tr_max_key t = fst (last ?es)"
    using t by (simp_all add: table_ok_def)
  have "fst (hd ?es) \<le> fst e" using s e(1) by (cases ?es) auto
  moreover have "fst e \<le> fst (last ?es)"
    using s e(1) by (cases ?es rule: rev_cases) (auto simp: sorted_wrt_append)
  ultimately show False using k e(2) mm by auto
qed

lemma lookup_block_absent: "k \<notin> fst ` set (table_entries bs) \<Longrightarrow> lookup_block bs k = None"
  by (fastforce simp: lookup_block_def Let_def map_of_eq_None_iff table_entries_def)

lemma ti_new_ok:
  assumes "table_ok L I t bs" "table_in L M t bs" "cache_agrees L M c"
  shows "\<exists>it. ti_new L t c = Some it \<and> ti_pos L I M t bs (cache_id c) it (table_entries bs) 0"
proof -
  obtain ii where "block_iter L (index_bytes t) = Some ii"
    "bi_pos L I (index_bytes t) ii (index_entries L bs) 0"
    using block_iter_start [OF table_okD(8) [OF assms(1)]] by blast
  with assms show ?thesis by (simp add: ti_new_def ti_pos_def ti_inv_def)
qed

lemma tr_get_ok:
  assumes t: "table_ok L I t bs" and M: "table_in L M t bs" and c: "cache_agrees L M c"
  shows "\<exists>n c'. tr_get L t c k = Some (lookup_block bs k, t\<lparr>tr_seek_miss_count := n\<rparr>, c') \<and>
     cache_agrees L M c' \<and> cache_id c' = cache_id c"
proof (cases "k < tr_min_key t \<or> k > tr_max_key t")
  case True
  moreover have "lookup_block bs k = None"
    using outside_range [OF t True] by (rule lookup_block_absent)
  ultimately show ?thesis using c
    by (intro exI [of _ "tr_seek_miss_count t"] exI [of _ c]) (auto simp: tr_get_def)
next
  case inside: False
  show ?thesis
  proof (cases "cf_contains L (tr_filter t) k")
    case False
    then have "k \<notin> fst ` set (table_entries bs)" using table_okD(9) [OF t] by auto
    then have "lookup_block bs k = None" by (rule lookup_block_absent)
    with inside False c show ?thesis
      by (intro exI [of _ "tr_seek_miss_count t + 1"] exI [of _ c])
        (auto simp: tr_get_def incr_seek_miss_count_def)
  next
    case True
    obtain it where it: "ti_new L t c = Some it" "ti_pos L I M t bs (cache_id c) it (table_entries bs) 0"
      using ti_new_ok [OF assms] by blast
    have inv: "ti_inv L I M t bs it" and cid: "cache_id (ti_cache it) = cache_id c"
      and ip: "bi_pos L I (index_bytes t) (ti_index it) (index_entries L bs) 0"
      using it(2) by (simp_all add: ti_pos_def)
    define j where "j = first_ge (index_entries L bs) k"
    define q where "q = first_ge (tk_entries (bs ! j)) k"
    obtain s where s: "ti_seek L t it k = Some s" "ti_inv L I M t bs s"
      "cache_id (ti_cache s) = cache_id c"
      "if j < length bs
       then (if q < length (tk_entries (bs ! j)) then in_block L I t bs s j (Suc q) else ti_current_k s = None)
       else ti_current_k s = None"
      using ti_seek_ok [OF inv ip, of k] cid unfolding Let_def j_def [symmetric] q_def [symmetric] by auto
    have lb: "lookup_block bs k = (if j < length bs then map_of (tk_entries (bs ! j)) k else None)"
      by (simp add: lookup_block_def Let_def j_def first_ge_index)
    have ag: "cache_agrees L M (ti_cache s)" using s(2) by (simp add: ti_inv_def)
    show ?thesis
    proof (cases "j < length bs \<and> q < length (tk_entries (bs ! j))")
      case True
      then have m: "map_of (tk_entries (bs ! j)) k =
        (if fst (tk_entries (bs ! j) ! q) = k then Some (snd (tk_entries (bs ! j) ! q)) else None)"
        using map_of_first_ge [OF block_sorted(1) [OF t], of j k] by (simp add: q_def)
      have cur: "ti_current_k s = Some (fst (tk_entries (bs ! j) ! q))"
        "ti_current_v s = Some (Some (snd (tk_entries (bs ! j) ! q)))"
        using in_block_current [OF t, of s j q] s(4) True by auto
      show ?thesis
        using inside \<open>cf_contains L (tr_filter t) k\<close> it(1) s(1,3) cur m lb True ag
        by (intro exI [of _ "if fst (tk_entries (bs ! j) ! q) = k then tr_seek_miss_count t else tr_seek_miss_count t + 1"]
            exI [of _ "ti_cache s"]) (auto simp: tr_get_def incr_seek_miss_count_def)
    next
      case False
      then have "ti_current_k s = None" using s(4) by (auto split: if_splits)
      moreover have "lookup_block bs k = None"
        using False lb map_of_first_ge [OF block_sorted(1) [OF t], of j k] by (auto simp: q_def)
      ultimately show ?thesis
        using inside True it(1) s(1,3) ag
        by (intro exI [of _ "tr_seek_miss_count t + 1"] exI [of _ "ti_cache s"])
          (auto simp: tr_get_def incr_seek_miss_count_def)
    qed
  qed
qed

text \<open>\<open>seek_to_last\<close> ends at the first entry of the last block, not at the last entry.\<close>

lemma ti_seek_to_last_ok:
  assumes p: "ti_pos L I M t bs cid s es p"
  shows "\<exists>s'. ti_seek_to_last L t s = Some s' \<and>
     ti_pos L I M t bs cid s' es (Suc (blk_start bs (length bs - 1)))"
proof -
  have inv: "ti_inv L I M t bs s" and t: "table_ok L I t bs" and es: "es = table_entries bs"
    and cid: "cache_id (ti_cache s) = cid"
    using p by (auto simp: ti_pos_def ti_inv_def)
  note kn = index_keys_nonempty [OF t]
  have ne: "bs \<noteq> []" using table_okD(3) [OF t] .
  obtain i where ip: "bi_pos L I (index_bytes t) (ti_index s) (index_entries L bs) i"
    using p by (auto simp: ti_pos_def in_block_def split: if_splits)
  have rp: "bi_pos L I (index_bytes t) (bi_reset (ti_index s)) (index_entries L bs) 0"
    using bi.reset_pos [OF _ kn] ip by blast
  have "index_entries L bs \<noteq> []" using ne by (simp add: index_entries_def)
  then obtain ii where ii: "bi_seek_to_last L (index_bytes t) (bi_reset (ti_index s)) = Some ii"
    "bi_pos L I (index_bytes t) ii (index_entries L bs) (length bs)"
    using seek_to_last_ok [OF table_okD(8) [OF t] kn _ bi_pos_restarts [OF rp]] by auto
  define n where "n = length bs - 1"
  have n: "length bs = Suc n" "n < length bs" using ne by (cases bs; simp add: n_def)+
  obtain ij where ij: "bi_prev L (index_bytes t) ii = Some (0 < n, ij)"
    "bi_pos L I (index_bytes t) ij (index_entries L bs) n"
    using bi.prev_step [OF ii(2) [unfolded n(1)] kn] n(1) by auto
  let ?s = "(ti_reset s)\<lparr>ti_index := ij\<rparr>"
  have si: "ti_inv L I M t bs ?s" using inv by (simp add: ti_inv_def ti_reset_def)
  have step: "ti_data_step (bi_advance L) ?s = Some (False, ?s)"
    by (simp add: ti_data_step_def ti_reset_def)
  have ip': "bi_pos L I (index_bytes t) (ti_index ?s) (index_entries L bs) n" using ij(2) by simp
  obtain s' where s': "ti_advance L t ?s = Some (True, s')" "ti_inv L I M t bs s'"
    "cache_id (ti_cache s') = cid" "in_block L I t bs s' n 1"
    using advance_next_block [OF si step refl refl ip' n(2)] cid by (auto simp: ti_reset_def)
  have len: "0 < length (tk_entries (bs ! n))"
    using table_okD(4) [OF t, of "bs ! n"] n(2) by (simp add: blk_ok_def)
  have "ti_valid s'" using in_block_current(1) [OF t, of s' n 0] s'(4) len by simp
  then have "ti_seek_to_last L t s = Some s'"
    using ii(1) ij(1) s'(1) by (simp add: ti_seek_to_last_def ti_reset_def)
  moreover have "ti_pos L I M t bs cid s' es (Suc (blk_start bs n))"
    using ti_posI [OF s'(2,3,4)] len es by (simp add: Suc_le_eq)
  ultimately show ?thesis by (simp add: n_def)
qed

subsection \<open>Tables without zero-byte extensions\<close>

text \<open>Where no key is its predecessor with a zero byte appended, the separators are strict and
  lookups see every entry.\<close>

lemma table_ok_miss_count [simp]:
  "table_ok L I (t\<lparr>tr_seek_miss_count := n\<rparr>) bs = table_ok L I t bs"
  "table_in L M (t\<lparr>tr_seek_miss_count := n\<rparr>) bs = table_in L M t bs"
  by (simp_all add: table_ok_def table_in_def index_bytes_def gen_cache_key_def)

definition zero_extension_free :: "entry list \<Rightarrow> bool" where
  "zero_extension_free es \<longleftrightarrow> (\<forall>i. Suc i < length es \<longrightarrow> fst (es ! Suc i) \<noteq> fst (es ! i) @ [0])"

lemma block_boundary:
  assumes t: "table_ok L I t bs" and j: "Suc j < length bs"
  shows "\<exists>i. Suc i < length (table_entries bs) \<and> table_entries bs ! i = last (tk_entries (bs ! j)) \<and>
     table_entries bs ! Suc i = hd (tk_entries (bs ! Suc j))"
proof -
  have ne: "tk_entries (bs ! j) \<noteq> []" "tk_entries (bs ! Suc j) \<noteq> []"
    using table_okD(4) [OF t] j by (auto simp: blk_ok_def)
  define q where "q = length (tk_entries (bs ! j)) - 1"
  have q: "q < length (tk_entries (bs ! j))" "Suc (blk_start bs j + q) = blk_start bs (Suc j) + 0"
    using ne(1) j by (simp_all add: q_def blk_start_Suc)
  have "table_entries bs ! (blk_start bs j + q) = last (tk_entries (bs ! j))"
  proof -
    have "last (tk_entries (bs ! j)) = tk_entries (bs ! j) ! q" using ne(1) by (simp add: q_def last_conv_nth)
    then show ?thesis using nth_table_entries(1) [of j bs q] q(1) j by simp
  qed
  moreover have "table_entries bs ! Suc (blk_start bs j + q) = hd (tk_entries (bs ! Suc j))"
    unfolding q(2) using nth_table_entries(1) [OF j, of 0] ne(2) by (simp add: hd_conv_nth)
  moreover have "Suc (blk_start bs j + q) < length (table_entries bs)"
    unfolding q(2) using nth_table_entries(2) [OF j, of 0] ne(2) by simp
  ultimately show ?thesis by blast
qed

lemma zero_extension_lookup:
  assumes t: "table_ok L I t bs" and z: "zero_extension_free (table_entries bs)"
  shows "lookup_block bs k = map_of (table_entries bs) k"
proof (rule lookup_block_map_of [OF t])
  fix j assume j: "Suc j < length bs" and s: "tk_sep (bs ! j) = k"
  obtain i where i: "Suc i < length (table_entries bs)" "table_entries bs ! i = last (tk_entries (bs ! j))"
    "table_entries bs ! Suc i = hd (tk_entries (bs ! Suc j))" using block_boundary [OF t j] by blast
  show "fst (hd (tk_entries (bs ! Suc j))) \<noteq> k"
    using table_okD(5) [OF t] j s z i unfolding seps_ok_def sep_upto_def zero_extension_free_def by metis
qed

end
