(* ===== verification/Sstable_Build.thy ===== *)
theory Sstable_Build
  imports Sstable_Get
begin

text \<open>
  What the table builder writes is a well-formed table: adding a sorted list of entries,
  flushing and opening the file gives a reader over exactly those entries.
\<close>

subsection \<open>Sizes\<close>

text \<open>Offsets inside a block are 32 bits wide: the entries of a table, with the overhead of
  their encoding, have to stay below 4 GiB.\<close>

definition enc_size :: "entry list \<Rightarrow> nat" where
  "enc_size es = (\<Sum>(k, v) \<leftarrow> es. length k + length v + 64)"

lemma enc_size_simps [simp]:
  "enc_size [] = 0" "enc_size ((k, v) # es) = length k + length v + 64 + enc_size es"
  "enc_size (xs @ ys) = enc_size xs + enc_size ys"
  by (simp_all add: enc_size_def)

lemma enc_size_entries_ok: "enc_size es < usize_bound \<Longrightarrow> entries_ok es"
  by (induction es) (auto simp: entries_ok_def)

lemma entry_bytes_le:
  assumes "varint_ok L" "length k < usize_bound" "length v < usize_bound" "s \<le> length k"
  shows "length (entry_bytes L s k v) \<le> length k + length v + 30"
proof -
  have "s < usize_bound" "length k - s < usize_bound" using assms by simp_all
  then have "length (encode_var L s) \<le> 10" "length (encode_var L (length k - s)) \<le> 10"
    "length (encode_var L (length v)) \<le> 10"
    using varint_okD(4) [OF assms(1)] assms(3) by blast+
  then show ?thesis by (simp add: entry_bytes_def)
qed

lemma entry_shared_le: "p < length es \<Longrightarrow> entry_shared I es p \<le> length (fst (es ! p))"
  by (simp add: entry_shared_def common_len_le)

lemma body_length_le:
  assumes "varint_ok L" "entries_ok es" "p \<le> length es"
  shows "length (body L I es p) + 34 * p \<le> enc_size (take p es)"
  using assms(3)
proof (induction p)
  case (Suc p)
  then have p: "p < length es" by simp
  obtain k v where e: "es ! p = (k, v)" by fastforce
  have kv: "length k < usize_bound" "length v < usize_bound"
    using assms(2) nth_mem [OF p] e by (auto simp: entries_ok_def)
  have "length (chunk L I es p) \<le> length k + length v + 30"
    using entry_bytes_le [OF assms(1) kv] entry_shared_le [OF p, of I] by (simp add: chunk_def e)
  then show ?case using Suc p e by (simp add: body_Suc take_Suc_conv_app_nth)
qed simp

lemma find_shortest_sep_length: "length (find_shortest_sep a b) \<le> length a + 1"
  by (auto simp: find_shortest_sep_def Let_def split: option.splits)

subsection \<open>The state of the builder\<close>

definition blk_built :: "('f, 'c) libs \<Rightarrow> nat \<Rightarrow> bytes \<Rightarrow> tblk \<Rightarrow> bool" where
  "blk_built L I f b \<longleftrightarrow>
     offset (tk_handle b) < length f \<and> offset (tk_handle b) + bh_size (tk_handle b) \<le> length f \<and>
     tk_entries b \<noteq> [] \<and> block_layout L I (tk_entries b) (tk_data b) \<and>
     fst (last (tk_entries b)) < tk_sep b \<and>
     length (tk_sep b) \<le> length (fst (last (tk_entries b))) + 1 \<and> length (bh_bytes L (tk_handle b)) \<le> 16 \<and>
     (\<forall>post opt. \<exists>n. block_new_from_location L (buffer_read_at (f @ post)) (tk_handle b) opt =
        Some (Inr (block_new_with_buffer (tk_data b) opt, n)))"

definition tb_inv ::
  "('f, 'c) libs \<Rightarrow> options \<Rightarrow> 'f table_builder \<Rightarrow> tblk list \<Rightarrow> entry list \<Rightarrow> bool" where
  "tb_inv L opt t bs cur \<longleftrightarrow>
     (let I = block_restart_interval opt; all = table_entries bs @ cur in
      tb_opt t = opt \<and> bb_opt (data_block t) = opt \<and> bb_opt (index_block t) = opt \<and>
      tb_offset t = length (tb_file t) \<and>
      bb_inv L I cur (data_block t) \<and> bb_inv L I (index_entries L bs) (index_block t) \<and>
      (\<forall>b \<in> set bs. blk_built L I (tb_file t) b) \<and> seps_ok bs \<and>
      distinct (map (offset \<circ> tk_handle) bs) \<and>
      (bs \<noteq> [] \<longrightarrow> cur \<noteq> [] \<longrightarrow>
         sep_upto (fst (last (tk_entries (last bs)))) (tk_sep (last bs)) (fst (hd cur))) \<and>
      (\<forall>e \<in> set all. cf_contains L (tb_filter t) (fst e)) \<and>
      tb_min_key t = (if all = [] then None else Some (fst (hd all))) \<and>
      tb_max_key t = (if all = [] then None else Some (fst (last all))))"

definition table_libs_ok :: "('f, 'c) libs \<Rightarrow> bool" where
  "table_libs_ok L \<longleftrightarrow> varint_ok L \<and> fixed_ok L \<and> snappy_ok L \<and> bincode_meta_ok L \<and> filter_ok L \<and> lru_ok L"

lemma blk_built_mono: "blk_built L I f b \<Longrightarrow> blk_built L I (f @ g) b"
  by (simp add: blk_built_def)

lemma tb_inv_new: "0 < block_restart_interval opt \<Longrightarrow> tb_inv L opt (tb_new L path opt) [] []"
  using bb_inv_new [of L opt]
  by (simp add: tb_inv_def tb_new_def index_entries_def table_entries_def seps_ok_def bb_new_def
      bb_new_with_buffer_def Let_def)

lemma bh_encode_to_Some:
  assumes "bh_encode_to L h dst = Some (d, n)"
  shows "subslice d 0 n = Some (bh_bytes L h)" "length (bh_bytes L h) \<le> length dst"
  using assms
  by (auto simp: bh_encode_to_def overwrite_def bind_eq_Some_conv subslice_def bh_bytes_def Let_def
      split: if_splits)

lemma index_enc_size:
  "\<forall>b \<in> set bs. blk_built L I f b \<Longrightarrow> enc_size (index_entries L bs) \<le> enc_size (table_entries bs) + 17 * length bs"
proof (induction bs)
  case (Cons b bs)
  obtain k v where e: "last (tk_entries b) = (k, v)" by fastforce
  have ne: "tk_entries b \<noteq> []" using Cons.prems by (simp add: blk_built_def)
  have "enc_size (tk_entries b) = enc_size (butlast (tk_entries b)) + enc_size [(k, v)]"
    by (metis append_butlast_last_id e enc_size_simps(3) ne)
  then have "length k + 64 \<le> enc_size (tk_entries b)" by simp
  with Cons e show ?case
    by (auto simp: index_entries_def table_entries_def blk_built_def)
qed (simp add: index_entries_def)

subsection \<open>Writing a data block\<close>

lemma tb_invD:
  assumes "tb_inv L opt t bs cur"
  shows "tb_opt t = opt" "bb_opt (data_block t) = opt" "bb_opt (index_block t) = opt"
    "tb_offset t = length (tb_file t)" "bb_inv L (block_restart_interval opt) cur (data_block t)"
    "bb_inv L (block_restart_interval opt) (index_entries L bs) (index_block t)"
    "\<And>b. b \<in> set bs \<Longrightarrow> blk_built L (block_restart_interval opt) (tb_file t) b" "seps_ok bs"
    "distinct (map (offset \<circ> tk_handle) bs)"
    "bs \<noteq> [] \<Longrightarrow> cur \<noteq> [] \<Longrightarrow> sep_upto (fst (last (tk_entries (last bs)))) (tk_sep (last bs)) (fst (hd cur))"
    "\<And>e. e \<in> set (table_entries bs @ cur) \<Longrightarrow> cf_contains L (tb_filter t) (fst e)"
    "tb_min_key t = (if table_entries bs @ cur = [] then None else Some (fst (hd (table_entries bs @ cur))))"
    "tb_max_key t = (if table_entries bs @ cur = [] then None else Some (fst (last (table_entries bs @ cur))))"
  using assms by (auto simp: tb_inv_def Let_def)

lemma seps_ok_snoc:
  assumes "seps_ok bs" "bs \<noteq> [] \<longrightarrow> sep_upto (fst (last (tk_entries (last bs)))) (tk_sep (last bs)) (fst (hd (tk_entries b)))"
  shows "seps_ok (bs @ [b])"
  using assms by (auto simp: seps_ok_def nth_append last_conv_nth less_Suc_eq)
    (metis One_nat_def diff_Suc_1)

lemma table_entries_snoc [simp]: "table_entries (bs @ [b]) = table_entries bs @ tk_entries b"
  by (simp add: table_entries_def)

lemma index_entries_snoc:
  "index_entries L (bs @ [b]) = index_entries L bs @ [(tk_sep b, bh_bytes L (tk_handle b))]"
  by (simp add: index_entries_def)

lemma buffer_small:
  assumes "varint_ok L" "bb_inv L I es b" "enc_size es < u32_bound"
  shows "length (buffer b) < u32_bound" "entries_ok es"
proof -
  show ok: "entries_ok es" using assms(3) by (intro enc_size_entries_ok) simp
  have "length (buffer b) \<le> enc_size es"
    using body_length_le [OF assms(1) ok order_refl, of I] assms(2) by (simp add: bb_inv_def)
  with assms(3) show "length (buffer b) < u32_bound" by simp
qed

lemma bb_add_opt: "bb_add L b k v = Some b' \<Longrightarrow> bb_opt b' = bb_opt b"
  by (auto simp: bb_add_def Let_def split: if_splits)

lemma bb_opt_new: "bb_opt (bb_new opt) = opt"
  by (simp add: bb_new_def bb_new_with_buffer_def)

text \<open>The keys of the index stay in order.\<close>

lemma sep_above_index:
  assumes inv: "tb_inv L opt t bs cur" and ne: "cur \<noteq> []" and so: "sorted (map fst cur)" and sep: "fst (last cur) < sep"
    and ie: "index_entries L bs \<noteq> []"
  shows "fst (last (index_entries L bs)) \<le> sep"
proof -
  have bne: "bs \<noteq> []" using ie by (auto simp: index_entries_def)
  have "tk_sep (last bs) \<le> fst (hd cur)" using tb_invD(10) [OF inv bne ne] by (simp add: sep_upto_def)
  moreover have "fst (hd cur) \<le> fst (last cur)" using sorted_le_last [OF so, of "hd cur"] ne by simp
  ultimately have "tk_sep (last bs) \<le> sep" using sep by order
  then show ?thesis using bne by (simp add: index_entries_def last_map)
qed

lemma write_data_block_inv:
  assumes L: "table_libs_ok L" and I: "0 < block_restart_interval opt" and inv: "tb_inv L opt t bs cur"
    and ne: "cur \<noteq> []" and nk: "fst (last cur) < nk" and so: "sorted (map fst cur)"
    and sz: "enc_size (table_entries bs @ cur) < u32_bound"
    and w: "write_data_block L t nk = Some (Inr t')"
  shows "\<exists>b g. tk_entries b = cur \<and> sep_upto (fst (last cur)) (tk_sep b) nk \<and> tb_inv L opt t' (bs @ [b]) [] \<and>
     tb_file t' = tb_file t @ g \<and> tb_total_size_estimate t' = tb_total_size_estimate t"
proof -
  let ?I = "block_restart_interval opt"
  have lib: "varint_ok L" "fixed_ok L" "snappy_ok L" using L by (auto simp: table_libs_ok_def)
  note v = tb_invD [OF inv]
  define sep where "sep = find_shortest_sep (last_key (data_block t)) nk"
  have lk: "last_key (data_block t) = fst (last cur)" using v(5) ne by (simp add: bb_inv_def)
  have sep: "fst (last cur) < sep" "sep_upto (fst (last cur)) sep nk"
    using find_shortest_sep_between [OF nk] find_shortest_sep_eq_right [OF nk]
    by (simp_all add: sep_def lk sep_upto_def)
  obtain f' h db' where fl: "bb_flush L (data_block t) (tb_file t) (length (tb_file t)) = Inr (f', h, db')"
    using w v(4) by (cases "bb_flush L (data_block t) (tb_file t) (length (tb_file t))")
      (auto simp: write_data_block_def Let_def)
  obtain bb n vb ib where enc: "bh_encode_to L h (replicate 16 0) = Some (bb, n)" "subslice bb 0 n = Some vb"
    "bb_add L (index_block t) sep vb = Some ib"
    and t': "t' = t\<lparr>tb_file := f', tb_offset := offset h + bh_size h, index_block := ib, data_block := bb_new opt\<rparr>"
    using w fl v(1,4) by (auto simp: write_data_block_def Let_def bind_eq_Some_conv sep_def)
  obtain sealed where s: "f' = tb_file t @ sealed" "h = bh (length (tb_file t)) (length sealed)" "sealed \<noteq> []"
    "\<And>post opt. block_new_from_location L (buffer_read_at (f' @ post)) h opt =
       Some (Inr (block_new_with_buffer (bb_finish L (data_block t)) opt, length f'))"
    using bb_flush_read [OF lib(2,3) fl] by blast
  have hb: "vb = bh_bytes L h" "length (bh_bytes L h) \<le> 16"
    using bh_encode_to_Some [OF enc(1)] enc(2) by simp_all
  define b where "b = \<lparr>tk_sep = sep, tk_handle = h, tk_entries = cur, tk_data = bb_finish L (data_block t)\<rparr>"
  have "enc_size cur < u32_bound" using sz by simp
  note small = buffer_small [OF lib(1) v(5) this]
  have bb: "blk_built L ?I f' b"
    using s hb ne sep(1) bb_finish_layout [OF I lib(1,2) small(2) v(5) small(1)] find_shortest_sep_length
    by (auto simp: blk_built_def b_def bh_def sep_def lk)
  have ib: "bb_inv L ?I (index_entries L (bs @ [b])) ib"
  proof -
    have "fst (last (index_entries L bs)) \<le> sep" if "index_entries L bs \<noteq> []"
      using sep_above_index [OF inv ne so sep(1) that] .
    from bb_add_inv [OF I v(6) this, of vb] enc(3) hb(1) show ?thesis
      by (auto simp: index_entries_snoc b_def)
  qed
  have "length (tb_file t) \<noteq> offset (tk_handle b')" if "b' \<in> set bs" for b'
    using v(7) [OF that] by (simp add: blk_built_def)
  then have dist: "distinct (map (offset \<circ> tk_handle) (bs @ [b]))"
    using v(9) by (auto simp: b_def s(2) bh_def)
  have "tb_inv L opt t' (bs @ [b]) []"
    unfolding tb_inv_def Let_def
    using v bb ib bb_add_opt [OF enc(3)] s(1) blk_built_mono [of L ?I "tb_file t" _ sealed] dist seps_ok_snoc [OF v(8), of b] ne
    by (auto simp: t' b_def bh_def s(2) bb_inv_new bb_opt_new)
  then show ?thesis using sep(2) s(1) by (auto simp: b_def t' intro!: exI [of _ b])
qed

subsection \<open>Adding entries\<close>

lemma tb_inv_total [simp]: "tb_inv L opt (t\<lparr>tb_total_size_estimate := n\<rparr>) bs cur = tb_inv L opt t bs cur"
  by (simp add: tb_inv_def)

text \<open>The part of \<open>add\<close> after the block has been written, if it had to be.\<close>

lemma tb_inv_add:
  assumes I: "0 < block_restart_interval opt" and inv: "tb_inv L opt t bs cur" and f: "filter_ok L"
    and srt: "cur \<noteq> [] \<Longrightarrow> fst (last cur) \<le> k" 
    and sep: "bs \<noteq> [] \<Longrightarrow> cur = [] \<Longrightarrow> sep_upto (fst (last (tk_entries (last bs)))) (tk_sep (last bs)) k"
    and db: "bb_add L (data_block t) k v = Some db" and fk: "cf_add L (tb_filter t) k = Inr fl"
  shows "tb_inv L opt (t\<lparr>data_block := db, tb_filter := fl,
      tb_min_key := (if tb_min_key t = None then Some k else tb_min_key t), tb_max_key := Some k\<rparr>)
    bs (cur @ [(k, v)])"
proof -
  note v = tb_invD [OF inv]
  have "bb_inv L (block_restart_interval opt) (cur @ [(k, v)]) db"
    using bb_add_inv [OF I v(5) srt, of v] db by auto
  moreover have "\<forall>e \<in> set (table_entries bs @ cur @ [(k, v)]). cf_contains L fl (fst e)"
    using v(11) f fk by (auto simp: filter_ok_def)
  ultimately show ?thesis
    unfolding tb_inv_def Let_def using v sep bb_add_opt [OF db]
    by (auto simp: hd_append)
qed

lemma tb_add_OkD:
  assumes "tb_add L t k v = Some (Inr t')"
  defines "t1 \<equiv> t\<lparr>tb_total_size_estimate := tb_total_size_estimate t + (length k + length v)\<rparr>"
  shows "\<exists>t2 db fl. (if size_estimate (data_block t1) > block_size (tb_opt t1)
        then write_data_block L t1 k else Some (Inr t1)) = Some (Inr t2) \<and>
     bb_add L (data_block t2) k v = Some db \<and> cf_add L (tb_filter t2) k = Inr fl \<and>
     t' = t2\<lparr>data_block := db, tb_filter := fl,
       tb_min_key := (if tb_min_key t2 = None then Some k else tb_min_key t2), tb_max_key := Some k\<rparr>"
proof -
  obtain t2 where t2: "(if size_estimate (data_block t1) > block_size (tb_opt t1)
        then write_data_block L t1 k else Some (Inr t1)) = Some (Inr t2)"
    and rest: "(do {
        db \<leftarrow> bb_add L (data_block t2) k v;
        case cf_add L (tb_filter t2) k of
          Inl e \<Rightarrow> Some (Inl (sst_from_cuckoo e))
        | Inr f \<Rightarrow>
            Some (Inr (t2\<lparr>data_block := db, tb_filter := f,
              tb_min_key := (if tb_min_key t2 = None then Some k else tb_min_key t2),
              tb_max_key := Some k\<rparr>))
      }) = Some (Inr t')"
    using assms(1) unfolding tb_add_def Let_def tryO_eq_Ok t1_def [symmetric] by blast
  then show ?thesis
    by (cases "bb_add L (data_block t2) k v"; cases "cf_add L (tb_filter t2) k") auto
qed

lemma tb_add_inv:
  assumes L: "table_libs_ok L" and I: "0 < block_restart_interval opt" "8 \<le> block_size opt"
    and inv: "tb_inv L opt t bs cur" and ne: "cur = [] \<Longrightarrow> bs = []"
    and so: "sorted_wrt (<) (map fst (table_entries bs @ cur @ [(k, v)]))"
    and sz: "enc_size (table_entries bs @ cur) < u32_bound"
    and a: "tb_add L t k v = Some (Inr t')"
  shows "\<exists>bs' cur' g. tb_inv L opt t' bs' cur' \<and> cur' \<noteq> [] \<and>
     table_entries bs' @ cur' = table_entries bs @ cur @ [(k, v)] \<and> (\<exists>cs. bs' = bs @ cs) \<and> tb_file t' = tb_file t @ g \<and>
     tb_total_size_estimate t' = tb_total_size_estimate t + (length k + length v)"
proof -
  define t1 where "t1 = t\<lparr>tb_total_size_estimate := tb_total_size_estimate t + (length k + length v)\<rparr>"
  have inv1: "tb_inv L opt t1 bs cur" using inv by (simp add: t1_def)
  note v = tb_invD [OF inv1]
  have f: "filter_ok L" using L by (simp add: table_libs_ok_def)
  obtain t2 db fl where t2: "(if size_estimate (data_block t1) > block_size (tb_opt t1)
        then write_data_block L t1 k else Some (Inr t1)) = Some (Inr t2)"
    and db: "bb_add L (data_block t2) k v = Some db" and fl: "cf_add L (tb_filter t2) k = Inr fl"
    and t': "t' = t2\<lparr>data_block := db, tb_filter := fl,
      tb_min_key := (if tb_min_key t2 = None then Some k else tb_min_key t2), tb_max_key := Some k\<rparr>"
    using tb_add_OkD [OF a] unfolding t1_def [symmetric] by blast
  have lt: "cur \<noteq> [] \<Longrightarrow> fst (last cur) < k" and sc: "sorted (map fst cur)"
    using so by (auto simp: sorted_wrt_append intro: strict_sorted_imp_sorted)
  show ?thesis
  proof (cases "size_estimate (data_block t1) > block_size (tb_opt t1)")
    case True
    have "cur \<noteq> []"
    proof
      assume "cur = []"
      then have "size_estimate (data_block t1) = 8"
        using v(5) by (simp add: size_estimate_def bb_inv_def restart_list_def restart_total_def)
      with True v(1) I(2) show False by simp
    qed
    from write_data_block_inv [OF L I(1) inv1 this lt [OF this] sc sz, of t2] t2 True
    obtain b g where b: "tk_entries b = cur" "sep_upto (fst (last cur)) (tk_sep b) k" "tb_inv L opt t2 (bs @ [b]) []"
      "tb_file t2 = tb_file t1 @ g" "tb_total_size_estimate t2 = tb_total_size_estimate t1" by auto
    have "tb_inv L opt t' (bs @ [b]) ([] @ [(k, v)])"
      unfolding t' by (rule tb_inv_add [OF I(1) b(3) f _ _ db fl]) (use b(1,2) in auto)
    then show ?thesis
      using b by (intro exI [of _ "bs @ [b]"] exI [of _ "[(k, v)]"] exI [of _ g]) (auto simp: t' t1_def)
  next
    case False
    then have "t2 = t1" using t2 by simp
    have "tb_inv L opt t' bs (cur @ [(k, v)])"
      unfolding t' \<open>t2 = t1\<close>
      by (rule tb_inv_add [OF I(1) inv1 f _ _ db [unfolded \<open>t2 = t1\<close>] fl [unfolded \<open>t2 = t1\<close>]])
        (use lt ne in \<open>auto intro: less_imp_le\<close>)
    then show ?thesis
      by (intro exI [of _ bs] exI [of _ "cur @ [(k, v)]"] exI [of _ "[]"]) (auto simp: t' t1_def \<open>t2 = t1\<close>)
  qed
qed

lemma tb_add_all_inv:
  assumes L: "table_libs_ok L" and I: "0 < block_restart_interval opt" "8 \<le> block_size opt"
    and "tb_inv L opt t bs cur" "cur = [] \<Longrightarrow> bs = []"
    and "sorted_wrt (<) (map fst (table_entries bs @ cur @ es))"
    and "enc_size (table_entries bs @ cur @ es) < u32_bound"
    and "tb_add_all L t es = Some (Inr t')"
  shows "\<exists>bs' cur'. tb_inv L opt t' bs' cur' \<and> (cur' = [] \<longrightarrow> bs' = []) \<and>
     table_entries bs' @ cur' = table_entries bs @ cur @ es \<and> (\<exists>cs. bs' = bs @ cs)"
  using assms(4-)
proof (induction es arbitrary: t bs cur)
  case Nil
  then show ?case by (intro exI [of _ bs] exI [of _ cur]) auto
next
  case (Cons e es)
  obtain k v where e: "e = (k, v)" by fastforce
  obtain t1 where t1: "tb_add L t k v = Some (Inr t1)" "tb_add_all L t1 es = Some (Inr t')"
    using Cons.prems(5) by (auto simp: e tryO_eq_Ok)
  have so: "sorted_wrt (<) (map fst (table_entries bs @ cur @ [(k, v)]))"
    using Cons.prems(3) by (auto simp: e sorted_wrt_append)
  have sz: "enc_size (table_entries bs @ cur) < u32_bound" using Cons.prems(4) by (simp add: e)
  obtain bs1 cur1 cs where i1: "tb_inv L opt t1 bs1 cur1" "cur1 \<noteq> []"
    "table_entries bs1 @ cur1 = table_entries bs @ cur @ [(k, v)]" "bs1 = bs @ cs"
    using tb_add_inv [OF L I Cons.prems(1,2) so sz t1(1)] by blast
  have eq: "table_entries bs1 @ cur1 @ es = table_entries bs @ cur @ e # es"
    using i1(3) by (metis append.assoc append_Cons append_Nil e)
  from Cons.IH [OF i1(1) _ _ _ t1(2)] i1(2) Cons.prems(3,4) obtain bs' cur' ds where
    "tb_inv L opt t' bs' cur'" "cur' = [] \<longrightarrow> bs' = []" "table_entries bs' @ cur' = table_entries bs @ cur @ e # es" "bs' = bs1 @ ds"
    unfolding eq by blast
  then show ?case using i1(4) by (intro exI [of _ bs'] exI [of _ cur']) simp
qed

subsection \<open>Flushing and opening\<close>

definition table_map :: "('f, 'c) libs \<Rightarrow> 'f table_reader \<Rightarrow> tblk list \<Rightarrow> bytes \<rightharpoonup> bytes" where
  "table_map L t bs = map_of (map (\<lambda>b. (gen_cache_key L t (tk_handle b), tk_data b)) bs)"

lemma gen_cache_key_inj:
  assumes "fixed_ok L" "gen_cache_key L t h = gen_cache_key L t h'" "offset h < usize_bound" "offset h' < usize_bound"
  shows "offset h = offset h'"
proof -
  have "encode_fixed64 L (of_nat (offset h)) = encode_fixed64 L (of_nat (offset h'))"
    using assms(1,2) by (simp add: gen_cache_key_def)
  then have "(of_nat (offset h) :: u64) = of_nat (offset h')"
    using assms(1) by (metis fixed_okD(3))
  then have "unat (of_nat (offset h) :: u64) = unat (of_nat (offset h') :: u64)" by simp
  then show ?thesis using assms(3,4) by (simp add: unat_of_nat)
qed

lemma table_in_map:
  assumes "fixed_ok L" "table_ok L I t bs" "distinct (map (offset \<circ> tk_handle) bs)"
  shows "table_in L (table_map L t bs) t bs"
  unfolding table_in_def
proof
  fix b assume b: "b \<in> set bs"
  have off: "offset (tk_handle b') < usize_bound" if "b' \<in> set bs" for b'
    using table_okD(4) [OF assms(2) that] by (simp add: blk_ok_def bh_wf_def)
  have "inj_on (\<lambda>b. gen_cache_key L t (tk_handle b)) (set bs)"
  proof (rule inj_onI)
    fix x y assume xy: "x \<in> set bs" "y \<in> set bs"
      "gen_cache_key L t (tk_handle x) = gen_cache_key L t (tk_handle y)"
    then have "offset (tk_handle x) = offset (tk_handle y)"
      using gen_cache_key_inj [OF assms(1)] off by blast
    with xy(1,2) assms(3) show "x = y" by (auto simp: distinct_map inj_on_def)
  qed
  then have "distinct (map fst (map (\<lambda>b. (gen_cache_key L t (tk_handle b), tk_data b)) bs))"
    using assms(3) by (simp add: distinct_map comp_def)
  then show "table_map L t bs (gen_cache_key L t (tk_handle b)) = Some (tk_data b)"
    unfolding table_map_def using b by (intro map_of_is_SomeI) auto
qed

text \<open>The three pieces \<open>flush\<close> appends after the last data block.\<close>

lemma tb_flush_parts:
  assumes L: "table_libs_ok L" and inv: "tb_inv L opt t bs []" and ne: "bs \<noteq> []"
    and fl: "tryO (Some (mb_flush L (mb_new mx mn (cf_export L (tb_filter t))) (tb_file t) (tb_offset t)))
         (\<lambda>(w1, meta_bh, _).
           let off1 = offset meta_bh + bh_size meta_bh in
           tryO (Some (bb_flush L (index_block t) w1 off1)) (\<lambda>(w2, index_bh, ib). do {
             let off2 = offset index_bh + bh_size index_bh;
             (w3, _) \<leftarrow> footer_flush L \<lparr>meta_index = meta_bh, footer_index = index_bh\<rparr> w2 off2;
             Some (Inr (t\<lparr>tb_file := w3, tb_offset := off2, index_block := ib\<rparr>))
           })) = Some (Inr t')"
    and sz: "length (tb_file t') < usize_bound"
  shows "\<exists>meta idx ft n g.
     tb_file t' = tb_file t @ g \<and> FULL_FOOTER_LENGTH < length (tb_file t') \<and>
     footer_read L (buffer_read_at (tb_file t')) (length (tb_file t') - FULL_FOOTER_LENGTH) = Some (Inr ft) \<and>
     mb_new_from_location L (buffer_read_at (tb_file t')) (meta_index ft) =
       Inr (mb_new mx mn (cf_export L (tb_filter t)), n) \<and>
     (\<forall>opt. \<exists>m. block_new_from_location L (buffer_read_at (tb_file t')) (footer_index ft) opt =
        Some (Inr (block_new_with_buffer (bb_finish L (index_block t)) opt, m)))"
proof -
  have lib: "varint_ok L" "fixed_ok L" "snappy_ok L" "bincode_meta_ok L" using L by (auto simp: table_libs_ok_def)
  note v = tb_invD [OF inv]
  let ?m = "mb_new mx mn (cf_export L (tb_filter t))" and ?f = "tb_file t"
  obtain buf zip where mb: "serialize_meta L ?m = Inr buf" "compress_vec L buf = Inr zip"
    using fl by (cases "serialize_meta L ?m"; cases "compress_vec L (projr (serialize_meta L ?m))")
      (auto simp: mb_flush_def)
  let ?mh = "bh (length ?f) (length zip)" and ?w1 = "?f @ zip"
  have fm: "mb_flush L ?m ?f (tb_offset t) = Inr (?w1, ?mh, mb_reset ?m)"
    using mb v(4) by (simp add: mb_flush_def)
  obtain w2 ih ib where fi: "bb_flush L (index_block t) ?w1 (length ?w1) = Inr (w2, ih, ib)"
    using fl fm by (cases "bb_flush L (index_block t) ?w1 (length ?w1)") (auto simp: bh_def Let_def)
  obtain sealed where s: "w2 = ?w1 @ sealed" "ih = bh (length ?w1) (length sealed)" "sealed \<noteq> []"
    "\<And>post opt. block_new_from_location L (buffer_read_at (w2 @ post)) ih opt =
       Some (Inr (block_new_with_buffer (bb_finish L (index_block t)) opt, length w2))"
    using bb_flush_read [OF lib(2,3) fi] by blast
  define ft where "ft = \<lparr>meta_index = ?mh, footer_index = ih\<rparr>"
  obtain w3 h3 where ff: "footer_flush L ft w2 (length w2) = Some (w3, h3)" and t': "tb_file t' = w3"
    using fl fm fi s(1,2) by (auto simp: bh_def Let_def ft_def bind_eq_Some_conv add.assoc)
  obtain foot where w3: "w3 = w2 @ foot"
    using ff by (auto simp: footer_flush_def bind_eq_Some_conv)
  have "footer_wf ft"
    using sz s(1) by (simp add: t' w3 footer_wf_def bh_wf_def ft_def s(2) bh_def)
  note fr = footer_read_flushed [OF lib(1) this ff]
  have rd: "read_bytes (buffer_read_at w3) ?mh = Inr (zip, length ?f + length zip)"
    by (rule buf_file.read_bytes_stored [of _ ?f zip "sealed @ foot"]) (simp_all add: w3 s(1) bh_def)
  have "mb_new_from_location L (buffer_read_at w3) ?mh = Inr (?m, length ?f + length zip + length buf)"
    using rd mb lib(3,4)
    by (simp add: mb_new_from_location_def mb_new_with_buffer_def snappy_ok_def bincode_meta_ok_def)
  moreover have "length w3 - FULL_FOOTER_LENGTH = length w2" "FULL_FOOTER_LENGTH < length w3"
    using fr(2) s(1,3) by auto
  moreover have "block_new_from_location L (buffer_read_at w3) ih o1 =
      Some (Inr (block_new_with_buffer (bb_finish L (index_block t)) o1, length w2))" for o1
    using s(4) w3 by simp
  moreover have "w3 = ?f @ zip @ sealed @ foot" using w3 s(1) by simp
  ultimately show ?thesis using fr(1) t' by (auto simp: ft_def)
qed

text \<open>The index is smaller than the table.\<close>

lemma index_buffer:
  assumes L: "varint_ok L" and inv: "tb_inv L opt t bs cur" and sz: "enc_size (table_entries bs) < u32_bound"
  shows "entries_ok (index_entries L bs)"
    and "length (buffer (index_block t)) + 17 * length bs \<le> enc_size (table_entries bs)"
proof -
  note v = tb_invD [OF inv]
  have le: "enc_size (index_entries L bs) \<le> enc_size (table_entries bs) + 17 * length bs"
    using index_enc_size v(7) by blast
  have "\<forall>b \<in> set bs. tk_entries b \<noteq> []" using v(7) by (auto simp: blk_built_def)
  then have lb: "length bs * 64 \<le> enc_size (table_entries bs)"
  proof (induction bs)
    case (Cons x xs)
    then have "64 \<le> enc_size (tk_entries x)" by (cases "tk_entries x") auto
    with Cons show ?case by (simp add: table_entries_def)
  qed simp
  show ok: "entries_ok (index_entries L bs)" using le lb sz by (intro enc_size_entries_ok) simp
  have "length (buffer (index_block t)) + 34 * length bs \<le> enc_size (index_entries L bs)"
    using body_length_le [OF L ok order_refl, of "block_restart_interval opt"] v(6) by (simp add: bb_inv_def)
  then show "length (buffer (index_block t)) + 17 * length bs \<le> enc_size (table_entries bs)" using le by simp
qed

lemma flush_open:
  assumes L: "table_libs_ok L" and I: "0 < block_restart_interval opt"
    and i1: "tb_inv L opt t1 bs0 cur" "cur \<noteq> []" "table_entries bs0 @ cur = es"
    and so: "sorted_wrt (<) (map fst es)" and kn: "keys_nonempty es"
    and sz: "enc_size es < u32_bound"
    and fl: "tb_flush L t1 = Some (Inr t2)"
    and len: "length (tb_file t2) < usize_bound"
  shows "\<exists>r b. tr_new L name (tb_file t2) opt' c = Some (Inr (r, snd (new_cache_id c))) \<and>
     table_ok L (block_restart_interval opt) r (bs0 @ [b]) \<and> tk_entries b = cur \<and>
     distinct (map (offset \<circ> tk_handle) (bs0 @ [b])) \<and> tr_cache_id r = cache_id c + 1 \<and> tr_file_name r = name \<and>
     tr_size r = length (tb_file t2)"
proof -
  let ?I = "block_restart_interval opt"
  have lib: "varint_ok L" "fixed_ok L" "filter_ok L" "lru_ok L" using L by (auto simp: table_libs_ok_def)
  note cur = i1(2)
  have ne: "es \<noteq> []" using i1 by auto
  have lk: "last_key (data_block t1) = fst (last cur)" using tb_invD(5) [OF i1(1)] cur by (simp add: bb_inv_def)
  obtain t mx mn where w: "write_data_block L t1 (find_short_succ (fst (last cur))) = Some (Inr t)"
    and mm: "tb_max_key t = Some mx" "tb_min_key t = Some mn"
    and rest: "tryO (Some (mb_flush L (mb_new mx mn (cf_export L (tb_filter t))) (tb_file t) (tb_offset t)))
         (\<lambda>(w1, meta_bh, _).
           let off1 = offset meta_bh + bh_size meta_bh in
           tryO (Some (bb_flush L (index_block t) w1 off1)) (\<lambda>(w2, index_bh, ib). do {
             let off2 = offset index_bh + bh_size index_bh;
             (w3, _) \<leftarrow> footer_flush L \<lparr>meta_index = meta_bh, footer_index = index_bh\<rparr> w2 off2;
             Some (Inr (t\<lparr>tb_file := w3, tb_offset := off2, index_block := ib\<rparr>))
           })) = Some (Inr t2)"
    using fl unfolding tb_flush_def tryO_eq_Ok lk bind_eq_Some_conv by blast
  have sc: "sorted (map fst cur)"
    using so i1(3) by (metis map_append sorted_wrt_append strict_sorted_imp_sorted)
  have sz1: "enc_size (table_entries bs0 @ cur) < u32_bound" using sz i1(3) by simp
  obtain b where b: "tk_entries b = cur" "tb_inv L opt t (bs0 @ [b]) []"
    using write_data_block_inv [OF L I i1(1) cur find_short_succ_greater sc sz1 w] by blast
  define bs where "bs = bs0 @ [b]"
  have inv: "tb_inv L opt t bs []" using b(2) by (simp add: bs_def)
  have es: "table_entries bs = es" using b(1) i1(3) by (simp add: bs_def)
  note v = tb_invD [OF inv]
  obtain ft n g where p: "tb_file t2 = tb_file t @ g" "FULL_FOOTER_LENGTH < length (tb_file t2)"
    "footer_read L (buffer_read_at (tb_file t2)) (length (tb_file t2) - FULL_FOOTER_LENGTH) = Some (Inr ft)"
    "mb_new_from_location L (buffer_read_at (tb_file t2)) (meta_index ft) =
       Inr (mb_new mx mn (cf_export L (tb_filter t)), n)"
    "\<And>opt. \<exists>m. block_new_from_location L (buffer_read_at (tb_file t2)) (footer_index ft) opt =
        Some (Inr (block_new_with_buffer (bb_finish L (index_block t)) opt, m))"
    using tb_flush_parts [OF L inv _ rest len] by (auto simp: bs_def)
  obtain m where m: "block_new_from_location L (buffer_read_at (tb_file t2)) (footer_index ft) opt' =
        Some (Inr (block_new_with_buffer (bb_finish L (index_block t)) opt', m))" using p(5) by blast
  define r where "r = \<lparr>tr_file = tb_file t2, tr_file_size = length (tb_file t2), tr_opt = opt',
     tr_cache_id = cache_id c + 1, tr_footer = ft,
     tr_index_block = block_new_with_buffer (bb_finish L (index_block t)) opt',
     tr_min_key = mn, tr_max_key = mx, tr_size = length (tb_file t2), tr_file_name = name,
     tr_seek_miss_count = 0, tr_filter = cf_import L (cf_export L (tb_filter t))\<rparr>"
  have open_r: "tr_new L name (tb_file t2) opt' c = Some (Inr (r, snd (new_cache_id c)))"
    using p(2-4) m by (simp add: tr_new_def Let_def new_cache_id_def r_def mb_new_def)
  have mn: "mn = fst (hd es)" "mx = fst (last es)" using v(12,13) mm ne es by simp_all
  have blk: "blk_ok L ?I (tr_opt r) (tr_file r) b'" if "b' \<in> set bs" for b'
    using v(7) [OF that] len p(1) by (auto simp: blk_built_def blk_ok_def bh_wf_def r_def)
  have lay: "block_layout L ?I (index_entries L bs) (index_bytes r)"
  proof -
    have sz': "enc_size (table_entries bs) < u32_bound" using sz es by simp
    note ib = index_buffer [OF lib(1) inv sz']
    have ok: "entries_ok (index_entries L bs)" by (rule ib(1))
    have "length (buffer (index_block t)) < u32_bound" using ib(2) sz' by simp
    from bb_finish_layout [OF I lib(1,2) ok v(6) this] show ?thesis
      by (simp add: index_bytes_def r_def block_new_with_buffer_def)
  qed
  have "\<forall>e \<in> set es. cf_contains L (tr_filter r) (fst e)"
    using v(11) lib(3) es by (auto simp: r_def filter_ok_def)
  then have "table_ok L ?I r bs"
    unfolding table_ok_def es
    using lib blk v(8) so kn lay mn by (auto simp: bs_def r_def)
  with open_r b(1) v(9) show ?thesis by (auto simp: r_def bs_def intro!: exI [of _ b])
qed

lemma build_open:
  assumes L: "table_libs_ok L" and I: "0 < block_restart_interval opt" "8 \<le> block_size opt"
    and so: "sorted_wrt (<) (map fst es)" and kn: "keys_nonempty es" and ne: "es \<noteq> []"
    and sz: "enc_size es < u32_bound"
    and add: "tb_add_all L (tb_new L path opt) es = Some (Inr t1)" and fl: "tb_flush L t1 = Some (Inr t2)"
    and len: "length (tb_file t2) < usize_bound"
  shows "\<exists>r bs. tr_new L name (tb_file t2) opt' c = Some (Inr (r, snd (new_cache_id c))) \<and>
     table_ok L (block_restart_interval opt) r bs \<and> table_entries bs = es \<and>
     distinct (map (offset \<circ> tk_handle) bs) \<and> tr_cache_id r = cache_id c + 1 \<and> tr_file_name r = name \<and>
     tr_size r = length (tb_file t2)"
proof -
  obtain bs0 cur where i1: "tb_inv L opt t1 bs0 cur" "cur = [] \<longrightarrow> bs0 = []" "table_entries bs0 @ cur = es"
    using tb_add_all_inv [OF L I tb_inv_new [OF I(1), of L path] _ _ _ add] so sz
    by (auto simp: table_entries_def)
  have cur: "cur \<noteq> []" using i1(2,3) ne by (auto simp: table_entries_def)
  from flush_open [OF L I(1) i1(1) cur i1(3) so kn sz fl len, of name opt' c] i1(3) show ?thesis
    by (metis table_entries_snoc)
qed

text \<open>Where a block ends: the entry that finds the block too large starts the next one.\<close>

lemma tb_add_boundary:
  assumes L: "table_libs_ok L" and I: "0 < block_restart_interval opt"
    and inv: "tb_inv L opt t bs cur" and ne: "cur \<noteq> []"
    and so: "sorted_wrt (<) (map fst (table_entries bs @ cur @ [(k, v)]))"
    and sz: "enc_size (table_entries bs @ cur) < u32_bound"
    and full: "size_estimate (data_block t) > block_size opt"
    and a: "tb_add L t k v = Some (Inr t')"
  shows "\<exists>b. tk_entries b = cur \<and> tb_inv L opt t' (bs @ [b]) [(k, v)]"
proof -
  define t1 where "t1 = t\<lparr>tb_total_size_estimate := tb_total_size_estimate t + (length k + length v)\<rparr>"
  have inv1: "tb_inv L opt t1 bs cur" using inv by (simp add: t1_def)
  have f: "filter_ok L" using L by (simp add: table_libs_ok_def)
  have lt: "fst (last cur) < k" and sc: "sorted (map fst cur)"
    using so ne by (auto simp: sorted_wrt_append intro: strict_sorted_imp_sorted)
  have fl: "size_estimate (data_block t1) > block_size (tb_opt t1)"
    using full tb_invD(1) [OF inv1] by (simp add: t1_def)
  obtain t2 db fl where t2: "write_data_block L t1 k = Some (Inr t2)" and db: "bb_add L (data_block t2) k v = Some db" and fl: "cf_add L (tb_filter t2) k = Inr fl"
    and t': "t' = t2\<lparr>data_block := db, tb_filter := fl,
      tb_min_key := (if tb_min_key t2 = None then Some k else tb_min_key t2), tb_max_key := Some k\<rparr>"
    using tb_add_OkD [OF a] fl unfolding t1_def [symmetric] by auto
  obtain b where b: "tk_entries b = cur" "sep_upto (fst (last cur)) (tk_sep b) k" "tb_inv L opt t2 (bs @ [b]) []"
    using write_data_block_inv [OF L I inv1 ne lt sc sz t2] by blast
  have "tb_inv L opt t' (bs @ [b]) ([] @ [(k, v)])"
    unfolding t' by (rule tb_inv_add [OF I b(3) f _ _ db fl]) (use b(1,2) in auto)
  with b(1) show ?thesis by auto
qed

end
