(* ===== verification/Table_Set.thy ===== *)
theory Table_Set
  imports Manifest Float64 Sstable_Build
begin

text \<open>
  The tables of all levels (\<open>mirdb-server/src/sstable_reader.rs\<close>) and the conversion of a
  skip list to a table (\<open>sstable_builder.rs\<close>).  The readers of a level are in the order the
  code keeps them in: level 0 in the order of arrival, the others by smallest key.
\<close>

subsection \<open>Operations\<close>

record 'f sstable_reader =
  sr_opt :: server_options
  sr_readers :: "'f table_reader list list"
  sr_manifest :: manifest_builder

definition table_reader_to_file_meta :: "'f table_reader \<Rightarrow> file_meta" where
  "table_reader_to_file_meta r = \<lparr>file_name = tr_file_name r\<rparr>"

text \<open>A stable sort.\<close>

definition sort_readers :: "'f table_reader list \<Rightarrow> 'f table_reader list" where
  "sort_readers rs = sort_key tr_min_key rs"

text \<open>\<open>TableReader::new\<close> on a file of the working directory.\<close>

definition open_table ::
  "('f, 'c) server_libs \<Rightarrow> server_options \<Rightarrow> string \<Rightarrow> fs \<Rightarrow> 'c cache \<Rightarrow>
   (status, 'f table_reader \<times> 'c cache) fallible" where
  "open_table S opt name d c =
     (case map_of d name of
        None \<Rightarrow> Some (Inl (from_sstable (sst_status_new SstNotFound ''entity not found'')))
      | Some f \<Rightarrow> sst (tr_new (tlibs S) name f (table_opt opt) c))"

definition get_readers :: "'f sstable_reader \<Rightarrow> nat \<Rightarrow> 'f table_reader list option" where
  "get_readers sr level =
     (if level < max_level (sr_opt sr) then idx (sr_readers sr) level else None)"

text \<open>The binary search for the last reader whose smallest key is below the key.\<close>

function search_left :: "'f table_reader list \<Rightarrow> bytes \<Rightarrow> nat \<Rightarrow> nat \<Rightarrow> nat option" where
  "search_left rs k left right =
     (if left < right then
        let middle = (left + right + 1) div 2 in
        case idx rs middle of
          None \<Rightarrow> None
        | Some r \<Rightarrow>
            if tr_min_key r < k then search_left rs k middle right
            else search_left rs k left (middle - 1)
      else if left = right then Some left else None)"
  by pat_completeness auto
termination
  by (relation "measure (\<lambda>(rs, k, left, right). right - left)") auto

declare search_left.simps [simp del]

definition in_range :: "'f table_reader \<Rightarrow> bytes \<Rightarrow> bool" where
  "in_range r k \<longleftrightarrow> tr_min_key r \<le> k \<and> tr_max_key r \<ge> k"

fun scan_readers :: "'f table_reader list \<Rightarrow> nat \<Rightarrow> bytes \<Rightarrow> nat list" where
  "scan_readers [] i k = []"
| "scan_readers (r # rs) i k =
     (if in_range r k then i # scan_readers rs (i + 1) k
      else if tr_min_key r > k then [] else scan_readers rs (i + 1) k)"

text \<open>The readers to ask, by their positions in the level.\<close>

definition search_readers :: "'f sstable_reader \<Rightarrow> nat \<Rightarrow> bytes \<Rightarrow> nat list option" where
  "search_readers sr level k =
     (if length (sr_readers sr) \<le> level then Some []
      else do {
        readers \<leftarrow> get_readers sr level;
        if level = 0 then Some (filter (\<lambda>i. in_range (readers ! i) k) (rev [0..<length readers]))
        else if readers \<noteq> [] then do {
          left \<leftarrow> search_left readers k 0 (length readers - 1);
          Some (scan_readers (drop left readers) left k)
        }
        else Some []
      })"

fun load_readers ::
  "('f, 'c) server_libs \<Rightarrow> server_options \<Rightarrow> file_meta list \<Rightarrow> fs \<Rightarrow> 'c cache \<Rightarrow>
   (status, 'f table_reader list \<times> 'c cache) fallible" where
  "load_readers S opt [] d c = Some (Inr ([], c))"
| "load_readers S opt (fm # fms) d c =
     tryO (open_table S opt (file_name fm) d c) (\<lambda>(r, c1).
       tryO (load_readers S opt fms d c1) (\<lambda>(rs, c2). Some (Inr (r # rs, c2))))"

fun load_levels ::
  "('f, 'c) server_libs \<Rightarrow> manifest_builder \<Rightarrow> server_options \<Rightarrow> nat list \<Rightarrow> fs \<Rightarrow> 'c cache \<Rightarrow>
   (status, 'f table_reader list list \<times> 'c cache) fallible" where
  "load_levels S mb opt [] d c = Some (Inr ([], c))"
| "load_levels S mb opt (i # is) d c =
     tryO (case mfb_file_metas mb i of
             None \<Rightarrow> Some (Inr ([], c))
           | Some fms \<Rightarrow>
               tryO (load_readers S opt fms d c) (\<lambda>(rs, c1).
                 Some (Inr (if i \<noteq> 0 then sort_readers rs else rs, c1)))) (\<lambda>(rs, c1).
       tryO (load_levels S mb opt is d c1) (\<lambda>(rss, c2). Some (Inr (rs # rss, c2))))"

definition sr_new ::
  "('f, 'c) server_libs \<Rightarrow> server_options \<Rightarrow> fs \<Rightarrow> 'c cache \<Rightarrow>
   (status, 'f sstable_reader \<times> 'c cache) fallible" where
  "sr_new S opt d c =
     tryO (mfb_new S opt d) (\<lambda>mb.
       tryO (load_levels S mb opt [0..<max_level opt] d c) (\<lambda>(rss, c1).
         Some (Inr (\<lparr>sr_opt = opt, sr_readers = rss, sr_manifest = mb\<rparr>, c1))))"

fun push_readers ::
  "'f sstable_reader \<Rightarrow> nat \<Rightarrow> 'f table_reader list \<Rightarrow> 'f sstable_reader option" where
  "push_readers sr level [] = Some sr"
| "push_readers sr level (r # rs) = do {
     mb \<leftarrow> mfb_add_file_meta (sr_manifest sr) level (table_reader_to_file_meta r);
     readers \<leftarrow> idx (sr_readers sr) level;
     let readers' = readers @ [r];
     push_readers (sr\<lparr>sr_manifest := mb,
         sr_readers := (sr_readers sr)[level := if level \<noteq> 0 then sort_readers readers' else readers']\<rparr>)
       level rs
   }"

definition add_readers ::
  "('f, 'c) server_libs \<Rightarrow> 'f sstable_reader \<Rightarrow> nat \<Rightarrow> 'f table_reader list \<Rightarrow> fs \<Rightarrow>
   (status, 'f sstable_reader \<times> fs) fallible" where
  "add_readers S sr level rs d =
     (if level < max_level (sr_opt sr) then do {
        sr' \<leftarrow> push_readers sr level rs;
        tryO (mfb_flush S (sr_manifest sr') d) (\<lambda>d'. Some (Inr (sr', d')))
      } else None)"

definition sr_add ::
  "('f, 'c) server_libs \<Rightarrow> 'f sstable_reader \<Rightarrow> nat \<Rightarrow> 'f table_reader \<Rightarrow> fs \<Rightarrow>
   (status, 'f sstable_reader \<times> fs) fallible" where
  "sr_add S sr level r d = add_readers S sr level [r] d"

fun remove_files :: "string list \<Rightarrow> fs \<Rightarrow> status + fs" where
  "remove_files [] d = Inr d"
| "remove_files (n # ns) d = (case remove_file n d of Inl e \<Rightarrow> Inl e | Inr d' \<Rightarrow> remove_files ns d')"

definition remove_by_file_names ::
  "('f, 'c) server_libs \<Rightarrow> 'f sstable_reader \<Rightarrow> nat \<Rightarrow> string list \<Rightarrow> fs \<Rightarrow>
   (status, 'f sstable_reader \<times> fs) fallible" where
  "remove_by_file_names S sr level names d =
     (if level < max_level (sr_opt sr) then do {
        mb \<leftarrow> mfb_remove_by_file_names (sr_manifest sr) level names;
        readers \<leftarrow> idx (sr_readers sr) level;
        let sr' = sr\<lparr>sr_manifest := mb,
          sr_readers := (sr_readers sr)[level := filter (\<lambda>x. \<not> List.member names (tr_file_name x)) readers]\<rparr>;
        tryO (mfb_flush S mb d) (\<lambda>d1.
          case remove_files names d1 of
            Inl e \<Rightarrow> Some (Inl e)
          | Inr d2 \<Rightarrow> Some (Inr (sr', d2)))
      } else None)"

text \<open>A lookup asks the readers one after the other; each keeps its count of misses.\<close>

fun get_in_readers ::
  "('f, 'c) libs \<Rightarrow> 'f table_reader list \<Rightarrow> nat list \<Rightarrow> 'c cache \<Rightarrow> bytes \<Rightarrow>
   (bytes option \<times> 'f table_reader list \<times> 'c cache) option" where
  "get_in_readers L rs [] c k = Some (None, rs, c)"
| "get_in_readers L rs (i # is) c k = do {
     r \<leftarrow> idx rs i;
     (v, r', c') \<leftarrow> tr_get L r c k;
     let rs' = rs[i := r'];
     if v \<noteq> None then Some (v, rs', c') else get_in_readers L rs' is c' k
   }"

fun get_in_levels ::
  "('f, 'c) libs \<Rightarrow> 'f sstable_reader \<Rightarrow> nat list \<Rightarrow> 'c cache \<Rightarrow> bytes \<Rightarrow>
   (bytes option \<times> 'f sstable_reader \<times> 'c cache) option" where
  "get_in_levels L sr [] c k = Some (None, sr, c)"
| "get_in_levels L sr (i # is) c k = do {
     is' \<leftarrow> search_readers sr i k;
     let readers = (if i < length (sr_readers sr) then sr_readers sr ! i else []);
     (v, rs, c') \<leftarrow> get_in_readers L readers is' c k;
     let sr' = sr\<lparr>sr_readers := (sr_readers sr)[i := rs]\<rparr>;
     if v \<noteq> None then Some (v, sr', c') else get_in_levels L sr' is c' k
   }"

definition sr_get ::
  "('f, 'c) server_libs \<Rightarrow> 'f sstable_reader \<Rightarrow> 'c cache \<Rightarrow> bytes \<Rightarrow>
   (bytes option \<times> 'f sstable_reader \<times> 'c cache) option" where
  "sr_get S sr c k = get_in_levels (tlibs S) sr [0..<max_level (sr_opt sr)] c k"

subsection \<open>Compaction scores\<close>

fun level_bytes_loop :: "nat \<Rightarrow> f64 \<Rightarrow> f64" where
  "level_bytes_loop level result =
     (if level > 1 then level_bytes_loop (level - 1) (f64_mul result (F64_Fin 10)) else result)"

declare level_bytes_loop.simps [simp del]

definition max_bytes_for_level :: "nat \<Rightarrow> f64" where
  "max_bytes_for_level level = level_bytes_loop level (f64_mul (F64_Fin 10) (F64_Fin 1048576))"

text \<open>The sum of the sizes is taken in 64 bits.\<close>

definition level_score :: "server_options \<Rightarrow> nat \<Rightarrow> 'f table_reader list \<Rightarrow> f64" where
  "level_score opt i readers =
     (if i = 0 then f64_div (f64_of_nat (length readers)) (f64_of_nat (l0_compaction_trigger opt))
      else f64_div (f64_of_nat (sum_list (map tr_size readers) mod usize_bound)) (max_bytes_for_level i))"

fun compute_scores :: "'f sstable_reader \<Rightarrow> nat list \<Rightarrow> (nat \<times> f64) list option" where
  "compute_scores sr [] = Some []"
| "compute_scores sr (i # is) = do {
     readers \<leftarrow> get_readers sr i;
     let score = level_score (sr_opt sr) i readers;
     rest \<leftarrow> compute_scores sr is;
     Some (if f64_ge score (F64_Fin 1) then (i, score) # rest else rest)
   }"

text \<open>The stable sort by descending score.\<close>

fun insort_score :: "nat \<times> f64 \<Rightarrow> (nat \<times> f64) list \<Rightarrow> (nat \<times> f64) list" where
  "insort_score x [] = [x]"
| "insort_score x (y # ys) =
     (if f64_less (snd x) (snd y) then y # insort_score x ys else x # y # ys)"

definition compute_compaction_levels :: "'f sstable_reader \<Rightarrow> nat list option" where
  "compute_compaction_levels sr = do {
     scores \<leftarrow> compute_scores sr [0..<max_level (sr_opt sr)];
     Some (map fst (foldr insort_score scores []))
   }"

subsection \<open>From a skip list to a table\<close>

definition skiplist_to_sstable ::
  "('f, 'c) server_libs \<Rightarrow> (bytes, bytes, 'g) skiplist \<Rightarrow> server_options \<Rightarrow> string \<Rightarrow> fs \<Rightarrow> 'c cache \<Rightarrow>
   (status, (string \<times> 'f table_reader) option \<times> fs \<times> 'c cache) fallible" where
  "skiplist_to_sstable S m opt path d c =
     (if slen m = 0 then Some (Inr (None, d, c))
      else do {
        es \<leftarrow> sl_iter m;
        tryO (sst (tb_add_all (tlibs S) (tb_new (tlibs S) path (table_opt opt)) es)) (\<lambda>tb.
          tryO (sst (tb_flush (tlibs S) tb)) (\<lambda>tb'.
            let d' = fs_write path (tb_file tb') d in
            tryO (open_table S opt path d' c) (\<lambda>(r, c'). Some (Inr (Some (path, r), d', c')))))
      })"

end
