(* ===== verification/Wal.thy ===== *)
theory Wal
  imports Server_Base
begin

text \<open>
  The write-ahead log (\<open>mirdb-server/src/wal.rs\<close>): segments of compressed key/value records
  padded to a multiple of eight bytes plus four, their iteration, and the list of segments
  that the data manager keeps in step with its memtables.
\<close>

subsection \<open>Segments\<close>

definition padding :: "nat \<Rightarrow> nat" where
  "padding len = unat ((4 - of_nat len :: u64) AND 7)"

text \<open>\<open>copy_memory\<close> into a tail of the buffer: it panics if the tail is too short.\<close>

definition copy_memory :: "bytes \<Rightarrow> bytes \<Rightarrow> nat \<Rightarrow> bytes option" where
  "copy_memory src buf off = overwrite buf off src"

text \<open>A segment is an open file.  The file's cursor starts at zero and moves by what is
  appended, as \<open>size_\<close> does, so \<open>seg_size\<close> is both.\<close>

record wal_seg =
  seg_size :: nat
  seg_path :: string

definition seg_new :: "string \<Rightarrow> fs \<Rightarrow> wal_seg \<times> fs" where
  "seg_new path d = (\<lparr>seg_size = 0, seg_path = path\<rparr>, fs_create path d)"

definition seg_clone :: "wal_seg \<Rightarrow> fs \<Rightarrow> wal_seg \<times> fs" where
  "seg_clone s d = seg_new (seg_path s) d"

definition seg_delete :: "wal_seg \<Rightarrow> fs \<Rightarrow> status + fs" where
  "seg_delete s d = remove_file (seg_path s) d"

text \<open>The bytes of one record.\<close>

definition wal_record :: "('f, 'c) libs \<Rightarrow> bytes \<Rightarrow> bytes \<Rightarrow> bytes option" where
  "wal_record L key_buf value_buf = do {
     let ks = length key_buf;
     let vs = length value_buf;
     let pad = padding (ks + vs);
     b1 \<leftarrow> overwrite (replicate (4 * 2 + ks + vs + pad) 0) 0 (encode_fixed32 L (of_nat (ks + vs)));
     b2 \<leftarrow> overwrite b1 4 (encode_fixed32 L (of_nat ks));
     b3 \<leftarrow> copy_memory key_buf b2 (4 * 2);
     b4 \<leftarrow> copy_memory value_buf b3 (4 * 2 + ks);
     if pad > 0 then copy_memory (take pad (replicate 8 0)) b4 (4 * 2 + ks + vs) else Some b4
   }"

definition seg_append ::
  "('f, 'c) libs \<Rightarrow> wal_seg \<Rightarrow> bytes \<Rightarrow> bytes \<Rightarrow> fs \<Rightarrow> (status, wal_seg \<times> fs) fallible" where
  "seg_append L s k v d =
     (case compress_vec L k of
        Inl e \<Rightarrow> Some (Inl (from_snap e))
      | Inr kb \<Rightarrow>
          (case compress_vec L v of
             Inl e \<Rightarrow> Some (Inl (from_snap e))
           | Inr vb \<Rightarrow> do {
               buf \<leftarrow> wal_record L kb vb;
               let old = (case map_of d (seg_path s) of None \<Rightarrow> [] | Some b \<Rightarrow> b);
               Some (Inr (s\<lparr>seg_size := seg_size s + length buf\<rparr>,
                          fs_write (seg_path s) (write_at old (seg_size s) buf) d))
             }))"

subsection \<open>Reading a segment\<close>

record wal_seg_iter =
  wi_offset :: nat
  wi_mmap :: bytes
  wi_file_size :: nat

text \<open>An empty file cannot be mapped.\<close>

definition wi_new :: "string \<Rightarrow> fs \<Rightarrow> status + wal_seg_iter" where
  "wi_new path d =
     (case map_of d path of
        None \<Rightarrow> Inl (from_io KNotFound ''entity not found'')
      | Some b \<Rightarrow>
          if b = [] then Inl (from_io KOther ''memory map must have a non-zero length'')
          else Inr \<lparr>wi_offset = 0, wi_mmap = b, wi_file_size = length b\<rparr>)"

definition wi_next ::
  "('f, 'c) libs \<Rightarrow> wal_seg_iter \<Rightarrow> (entry option \<times> wal_seg_iter) option" where
  "wi_next L w =
     (if wi_offset w \<ge> wi_file_size w then Some (None, w)
      else do {
        sb \<leftarrow> subslice (wi_mmap w) (wi_offset w) (wi_offset w + 4);
        let sz = unat (decode_fixed32 L sb);
        if sz = 0 then Some (None, w)
        else do {
          let off = wi_offset w + 4;
          kb \<leftarrow> subslice (wi_mmap w) off (off + 4);
          let key_size = unat (decode_fixed32 L kb);
          let off = off + 4;
          data \<leftarrow> subslice (wi_mmap w) off (off + sz);
          key_data \<leftarrow> subslice data 0 key_size;
          value_data \<leftarrow> slice_from data key_size;
          case decompress_vec L key_data of
            Inl _ \<Rightarrow> None
          | Inr k \<Rightarrow>
              (case decompress_vec L value_data of
                 Inl _ \<Rightarrow> None
               | Inr v \<Rightarrow> Some (Some (k, v), w\<lparr>wi_offset := off + sz + padding sz\<rparr>))
        }
      })"

text \<open>A \<open>for\<close> loop over the records.\<close>

partial_function (option) wi_collect :: "('f, 'c) libs \<Rightarrow> wal_seg_iter \<Rightarrow> entry list option" where
  "wi_collect L w =
     Option.bind (wi_next L w) (\<lambda>(r, w').
       case r of None \<Rightarrow> Some []
       | Some e \<Rightarrow> Option.bind (wi_collect L w') (\<lambda>es. Some (e # es)))"

definition to_skiplist ::
  "('f, 'c) libs \<Rightarrow> nat \<Rightarrow> nat stream \<Rightarrow> wal_seg \<Rightarrow> fs \<Rightarrow>
   (status, (bytes, bytes, nat stream) skiplist) fallible" where
  "to_skiplist L ht rng s d =
     tryO (Some (wi_new (seg_path s) d)) (\<lambda>w. do {
       es \<leftarrow> wi_collect L w;
       m \<leftarrow> sl_insert_all gen_height (sl_new ht rng) es;
       Some (Inr m)
     })"

subsection \<open>The log\<close>

record wal =
  segs :: "wal_seg list"
  current_file_num :: nat

text \<open>\<open>glob_wal\<close> is the \<open>glob\<close> crate on the pattern \<open>*.wal\<close>.  Opening the segments found, in
  the order of their names, removes the empty ones.\<close>

fun wal_open_segs :: "string list \<Rightarrow> fs \<Rightarrow> (wal_seg list \<times> fs) option" where
  "wal_open_segs [] d = Some ([], d)"
| "wal_open_segs (p # ps) d =
     (let (s, d1) = seg_new p d in
      case map_of d1 p of
        None \<Rightarrow> None
      | Some b \<Rightarrow>
          if b = [] then
            (case remove_file (seg_path s) d1 of
               Inl _ \<Rightarrow> None
             | Inr d2 \<Rightarrow> wal_open_segs ps d2)
          else map_option (\<lambda>(ss, d2). (s # ss, d2)) (wal_open_segs ps d1))"

definition wal_new :: "(fs \<Rightarrow> string list) \<Rightarrow> fs \<Rightarrow> (wal \<times> fs) option" where
  "wal_new glob_wal d = do {
     (ss, d') \<leftarrow> wal_open_segs (sort (glob_wal d)) d;
     Some (\<lparr>segs = ss, current_file_num = 0\<rparr>, d')
   }"

definition seg_count :: "wal \<Rightarrow> nat" where
  "seg_count w = length (segs w)"

definition new_file_num :: "wal \<Rightarrow> nat \<times> wal" where
  "new_file_num w = (current_file_num w, w\<lparr>current_file_num := current_file_num w + 1\<rparr>)"

definition new_seg :: "wal \<Rightarrow> fs \<Rightarrow> wal \<times> fs" where
  "new_seg w d =
     (let (n, w1) = new_file_num w; (s, d1) = seg_new (make_file_name n ''wal'') d
      in (w1\<lparr>segs := segs w1 @ [s]\<rparr>, d1))"

definition wal_append ::
  "('f, 'c) libs \<Rightarrow> wal \<Rightarrow> bytes \<Rightarrow> bytes \<Rightarrow> fs \<Rightarrow> (status, wal \<times> fs) fallible" where
  "wal_append L w0 k v d0 =
     (let (w, d) = (if seg_count w0 = 0 then new_seg w0 d0 else (w0, d0)) in
      if segs w = [] then err WALError ''cannot get the tail wal seg''
      else tryO (seg_append L (last (segs w)) k v d) (\<lambda>(s, d').
             Some (Inr (w\<lparr>segs := butlast (segs w) @ [s]\<rparr>, d'))))"

definition consume_seg :: "wal \<Rightarrow> fs \<Rightarrow> status + wal \<times> fs" where
  "consume_seg w d =
     (case segs w of
        [] \<Rightarrow> Inr (w, d)
      | s # ss \<Rightarrow>
          (case seg_delete s d of
             Inl e \<Rightarrow> Inl e
           | Inr d' \<Rightarrow> Inr (w\<lparr>segs := ss\<rparr>, d')))"

fun wal_truncate :: "wal \<Rightarrow> nat \<Rightarrow> fs \<Rightarrow> status + wal \<times> fs" where
  "wal_truncate w 0 d = Inr (w, d)"
| "wal_truncate w (Suc n) d =
     (case consume_seg w d of Inl e \<Rightarrow> Inl e | Inr (w', d') \<Rightarrow> wal_truncate w' n d')"

definition current_seg_size :: "wal \<Rightarrow> nat" where
  "current_seg_size w = (if segs w = [] then 0 else seg_size (last (segs w)))"

text \<open>\<open>WALIter\<close>: the records of all segments, oldest segment first.  A segment that cannot be
  opened makes it panic.\<close>

fun wal_iter :: "('f, 'c) libs \<Rightarrow> wal_seg list \<Rightarrow> fs \<Rightarrow> entry list option" where
  "wal_iter L [] d = Some []"
| "wal_iter L (s # ss) d =
     (case wi_new (seg_path s) d of
        Inl _ \<Rightarrow> None
      | Inr w \<Rightarrow> do { es \<leftarrow> wi_collect L w; fs \<leftarrow> wal_iter L ss d; Some (es @ fs) })"

subsection \<open>Padding and records\<close>

lemma padding_mod: "padding len = (4 + 7 * len) mod 8"
proof -
  have "(x AND 7) = take_bit 3 x" for x :: "u64"
    by (simp add: take_bit_eq_mask mask_eq_exp_minus_1)
  then have "padding len = unat (take_bit 3 (4 - of_nat len :: u64))" by (simp add: padding_def)
  also have "(4 - of_nat len :: u64) = of_int (4 - int len)" by simp
  also have "unat (take_bit 3 (of_int (4 - int len) :: u64)) = nat (uint (take_bit 3 (of_int (4 - int len) :: u64)))"
    by (rule unat_eq_nat_uint)
  also have "uint (take_bit 3 (of_int (4 - int len) :: u64)) = (4 - int len) mod 8"
  proof -
    have "uint (take_bit 3 (of_int (4 - int len) :: u64)) = take_bit 3 (take_bit 64 (4 - int len))"
      unfolding unsigned_take_bit_eq unsigned_of_int by simp
    also have "\<dots> = take_bit 3 (4 - int len)" unfolding take_bit_take_bit by simp
    finally show ?thesis by (simp only: take_bit_eq_mod) simp
  qed
  also have "(4 - int len) mod 8 = (4 + 7 * int len) mod 8"
  proof -
    have "4 + 7 * int len = (4 - int len) + int len * 8" by simp
    then show ?thesis by (simp only: mod_mult_self1)
  qed
  also have "nat ((4 + 7 * int len) mod 8) = (4 + 7 * len) mod 8"
    by (simp add: nat_mod_distrib nat_add_distrib nat_mult_distrib)
  finally show ?thesis .
qed

lemma padding_le: "padding len \<le> 7"
  using mod_less_divisor [of 8 "4 + 7 * len"] unfolding padding_mod by linarith

text \<open>The bytes of a record as one string.\<close>

definition rec_bytes :: "('f, 'c) libs \<Rightarrow> bytes \<Rightarrow> bytes \<Rightarrow> bytes" where
  "rec_bytes L kb vb =
     encode_fixed32 L (of_nat (length kb + length vb)) @ encode_fixed32 L (of_nat (length kb)) @
     kb @ vb @ replicate (padding (length kb + length vb)) 0"

lemma length_rec_bytes:
  "fixed_ok L \<Longrightarrow> length (rec_bytes L kb vb) = 8 + length kb + length vb + padding (length kb + length vb)"
  by (simp add: rec_bytes_def)

lemma overwrite_zeros:
  "length src \<le> n \<Longrightarrow> overwrite (xs @ replicate n 0) (length xs) src = Some (xs @ src @ replicate (n - length src) 0)"
  by (simp add: overwrite_def)

lemma wal_record_eq:
  assumes "fixed_ok L"
  shows "wal_record L kb vb = Some (rec_bytes L kb vb)"
proof -
  let ?n = "length kb + length vb" and ?p = "padding (length kb + length vb)"
  let ?a = "encode_fixed32 L (of_nat ?n)" and ?b = "encode_fixed32 L (of_nat (length kb))"
  have l: "length ?a = 4" "length ?b = 4" using assms by simp_all
  have 1: "overwrite (replicate (8 + length kb + length vb + ?p) 0) 0 ?a =
      Some (?a @ replicate (4 + length kb + length vb + ?p) 0)"
    using overwrite_zeros [of ?a "8 + length kb + length vb + ?p" "[]"] l by simp
  have 2: "overwrite (?a @ replicate (4 + length kb + length vb + ?p) 0) 4 ?b =
      Some (?a @ ?b @ replicate (length kb + length vb + ?p) 0)"
    using overwrite_zeros [of ?b "4 + length kb + length vb + ?p" ?a] l by simp
  have 3: "overwrite (?a @ ?b @ replicate (length kb + length vb + ?p) 0) 8 kb =
      Some (?a @ ?b @ kb @ replicate (length vb + ?p) 0)"
    using overwrite_zeros [of kb "length kb + length vb + ?p" "?a @ ?b"] l by simp
  have 4: "overwrite (?a @ ?b @ kb @ replicate (length vb + ?p) 0) (8 + length kb) vb =
      Some (?a @ ?b @ kb @ vb @ replicate ?p 0)"
    using overwrite_zeros [of vb "length vb + ?p" "?a @ ?b @ kb"] l by simp
  have 5: "overwrite (?a @ ?b @ kb @ vb @ replicate ?p 0) (8 + length kb + length vb) (replicate ?p 0) =
      Some (?a @ ?b @ kb @ vb @ replicate ?p 0)"
    using overwrite_zeros [of "replicate ?p 0" ?p "?a @ ?b @ kb @ vb"] l by (simp add: add.assoc)
  have "take ?p (replicate 8 0) = replicate ?p (0 :: u8)"
    using padding_le [of ?n] by simp
  then show ?thesis
    using 1 2 3 4 5 by (simp add: wal_record_def copy_memory_def rec_bytes_def Let_def)
qed

subsection \<open>Reading back\<close>

text \<open>What is in a log: the compressed forms, each small enough for the 32-bit length.\<close>

definition rec_ok :: "('f, 'c) libs \<Rightarrow> entry \<Rightarrow> bytes \<times> bytes \<Rightarrow> bool" where
  "rec_ok L e z \<longleftrightarrow> compress_vec L (fst e) = Inr (fst z) \<and> compress_vec L (snd e) = Inr (snd z) \<and>
     length (fst z) + length (snd z) < u32_bound"

definition log_bytes :: "('f, 'c) libs \<Rightarrow> (bytes \<times> bytes) list \<Rightarrow> bytes" where
  "log_bytes L zs = concat (map (\<lambda>z. rec_bytes L (fst z) (snd z)) zs)"

definition wi_at :: "bytes \<Rightarrow> nat \<Rightarrow> wal_seg_iter" where
  "wi_at b off = \<lparr>wi_offset = off, wi_mmap = b, wi_file_size = length b\<rparr>"

lemma rec_bytes_n:
  "n = length kb + length vb \<Longrightarrow> rec_bytes L kb vb = encode_fixed32 L (of_nat n) @
     encode_fixed32 L (of_nat (length kb)) @ kb @ vb @ replicate (padding n) 0"
  by (simp add: rec_bytes_def)

lemma decode_u32:
  "fixed_ok L \<Longrightarrow> n < u32_bound \<Longrightarrow> unat (decode_fixed32 L (encode_fixed32 L (of_nat n))) = n"
  by (simp add: unat_of_nat)

text \<open>A record without its padding.\<close>

definition rec_data :: "('f, 'c) libs \<Rightarrow> bytes \<Rightarrow> bytes \<Rightarrow> bytes" where
  "rec_data L kb vb = encode_fixed32 L (of_nat (length kb + length vb)) @ encode_fixed32 L (of_nat (length kb)) @ kb @ vb"

lemma rec_bytes_data: "rec_bytes L kb vb = rec_data L kb vb @ replicate (padding (length kb + length vb)) 0"
  by (simp add: rec_bytes_def rec_data_def)

lemma wi_next_data:
  assumes L: "fixed_ok L" "snappy_ok L" and z: "rec_ok L e z"
    and b: "b = pre @ rec_data L (fst z) (snd z) @ post"
  shows "wi_next L (wi_at b (length pre)) =
    Some (Some e, wi_at b (length pre + length (rec_bytes L (fst z) (snd z))))"
proof -
  obtain kb vb where kv: "z = (kb, vb)" by fastforce
  define n where "n = length kb + length vb"
  have n: "n < u32_bound" "compress_vec L (fst e) = Inr kb" "compress_vec L (snd e) = Inr vb"
    using z by (simp_all add: rec_ok_def kv n_def)
  have d: "decompress_vec L kb = Inr (fst e)" "decompress_vec L vb = Inr (snd e)" "kb \<noteq> []"
    using n(2,3) L(2) unfolding snappy_ok_def by blast+
  define ea where "ea = encode_fixed32 L (of_nat n)"
  define eb where "eb = encode_fixed32 L (of_nat (length kb))"
  have l: "length ea = 4" "length eb = 4" using L(1) by (simp_all add: ea_def eb_def)
  have r: "rec_data L kb vb = ea @ eb @ kb @ vb" by (simp add: rec_data_def ea_def eb_def n_def)
  have s1: "subslice b (length pre) (length pre + 4) = Some ea"
    using subslice_mid_eq [of "length pre" pre "length pre + 4" ea "eb @ kb @ vb @ post"] l
    by (simp add: b kv r)
  have s2: "subslice b (length pre + 4) (length pre + 4 + 4) = Some eb"
    using subslice_mid_eq [of "length pre + 4" "pre @ ea" "length pre + 4 + 4" eb "kb @ vb @ post"] l
    by (simp add: b kv r)
  have s3: "subslice b (length pre + 4 + 4) (length pre + 4 + 4 + n) = Some (kb @ vb)"
    using subslice_mid_eq [of "length pre + 4 + 4" "pre @ ea @ eb" "length pre + 4 + 4 + n" "kb @ vb" post] l
    by (simp add: b kv r n_def)
  have kn: "length kb \<le> n" by (simp add: n_def)
  have v: "unat (decode_fixed32 L ea) = n" "unat (decode_fixed32 L eb) = length kb"
    unfolding ea_def eb_def by (rule decode_u32 [OF L(1)], use n(1) kn in linarith)+
  have nz: "\<not> length b \<le> length pre" "n \<noteq> 0" using d(3) l by (simp_all add: b kv r n_def)
  have ln: "length pre + length (rec_bytes L kb vb) = length pre + 4 + 4 + n + padding n"
    using length_rec_bytes [OF L(1), of kb vb] by (simp add: n_def)
  have e: "(fst e, snd e) = e" by simp
  show ?thesis
    unfolding wi_next_def wi_at_def kv fst_conv snd_conv ln
    using s1 s2 s3 v d nz slice_from_append [of kb vb] subslice_prefix [of kb vb] e
    by (simp only: wal_seg_iter.simps Let_def if_False Option.bind.simps sum.case)
qed

text \<open>The records of a log are read one after the other, whatever follows them.\<close>

lemma wi_collect_prefix:
  assumes L: "fixed_ok L" "snappy_ok L"
  shows "list_all2 (rec_ok L) es zs \<Longrightarrow>
    wi_collect L (wi_at (pre @ log_bytes L zs @ post) (length pre)) =
      map_option ((@) es) (wi_collect L (wi_at (pre @ log_bytes L zs @ post) (length pre + length (log_bytes L zs))))"
proof (induction es zs arbitrary: pre rule: list_all2_induct)
  case Nil
  show ?case by (simp add: log_bytes_def option.map_ident)
next
  case (Cons e es z zs)
  let ?r = "rec_bytes L (fst z) (snd z)" and ?l = "log_bytes L zs @ post"
  have b: "pre @ log_bytes L (z # zs) @ post = pre @ ?r @ ?l" by (simp add: log_bytes_def)
  have n: "wi_next L (wi_at (pre @ ?r @ ?l) (length pre)) = Some (Some e, wi_at (pre @ ?r @ ?l) (length (pre @ ?r)))"
    using wi_next_data [OF L Cons.hyps(1) refl, of pre "replicate (padding (length (fst z) + length (snd z))) 0 @ ?l"]
    by (simp add: rec_bytes_data)
  have "length pre + length (log_bytes L (z # zs)) = length (pre @ ?r) + length (log_bytes L zs)" by (simp add: log_bytes_def)
  then show ?case using Cons.IH [of "pre @ ?r"] unfolding b
    by (subst wi_collect.simps) (simp add: n add.assoc map_option_case split: option.splits)
qed

lemma wi_collect_end: "length b \<le> off \<Longrightarrow> wi_collect L (wi_at b off) = Some []"
  by (subst wi_collect.simps) (simp add: wi_next_def wi_at_def)

lemma wi_collect_log:
  assumes L: "fixed_ok L" "snappy_ok L" and es: "list_all2 (rec_ok L) es zs"
  shows "wi_collect L (wi_at (log_bytes L zs) 0) = Some es"
  using wi_collect_prefix [OF L es, of "[]" "[]"] by (simp add: wi_collect_end)

text \<open>A segment that holds the records \<open>es\<close>.\<close>

definition seg_holds :: "('f, 'c) libs \<Rightarrow> wal_seg \<Rightarrow> fs \<Rightarrow> entry list \<Rightarrow> bool" where
  "seg_holds L s d es \<longleftrightarrow>
     (\<exists>zs. list_all2 (rec_ok L) es zs \<and> map_of d (seg_path s) = Some (log_bytes L zs) \<and>
        seg_size s = length (log_bytes L zs))"

lemma log_bytes_snoc: "log_bytes L (zs @ [z]) = log_bytes L zs @ rec_bytes L (fst z) (snd z)"
  by (simp add: log_bytes_def)

lemma seg_append_holds:
  assumes L: "fixed_ok L" and h: "seg_holds L s d es" and d: "sorted_kv d"
    and k: "compress_vec L k = Inr kb" and v: "compress_vec L v = Inr vb"
    and sz: "length kb + length vb < u32_bound"
  shows "\<exists>s' d'. seg_append L s k v d = Some (Inr (s', d')) \<and> seg_holds L s' d' (es @ [(k, v)]) \<and>
     seg_path s' = seg_path s \<and> seg_size s' = seg_size s + length (rec_bytes L kb vb) \<and>
     sorted_kv d' \<and> (\<forall>n. n \<noteq> seg_path s \<longrightarrow> map_of d' n = map_of d n)"
proof -
  obtain zs where zs: "list_all2 (rec_ok L) es zs" "map_of d (seg_path s) = Some (log_bytes L zs)"
    "seg_size s = length (log_bytes L zs)" using h by (auto simp: seg_holds_def)
  let ?d = "fs_write (seg_path s) (log_bytes L zs @ rec_bytes L kb vb) d"
  let ?s = "s\<lparr>seg_size := seg_size s + length (rec_bytes L kb vb)\<rparr>"
  have "seg_append L s k v d = Some (Inr (?s, ?d))"
    using k v zs(2,3) wal_record_eq [OF L] by (simp add: seg_append_def)
  moreover have "rec_ok L (k, v) (kb, vb)" using k v sz by (simp add: rec_ok_def)
  then have "seg_holds L ?s ?d (es @ [(k, v)])"
    unfolding seg_holds_def using zs d
    by (intro exI [of _ "zs @ [(kb, vb)]"])
      (auto simp: log_bytes_snoc fs_write_def map_of_ins_kv intro: list_all2_appendI)
  ultimately show ?thesis
    using d by (auto simp: fs_write_def sorted_ins_kv map_of_ins_kv)
qed

lemma seg_holds_new:
  assumes "sorted_kv d" "map_of d p = None"
  shows "seg_holds L (fst (seg_new p d)) (snd (seg_new p d)) []"
  using assms by (auto simp: seg_holds_def seg_new_def fs_create_def log_bytes_def map_of_ins_kv)

lemma log_bytes_Nil [simp]: "fixed_ok L \<Longrightarrow> log_bytes L zs = [] \<longleftrightarrow> zs = []"
proof -
  assume L: "fixed_ok L"
  have "rec_bytes L a b \<noteq> []" for a b using length_rec_bytes [OF L, of a b] by auto
  then show ?thesis by (cases zs) (simp_all add: log_bytes_def)
qed

text \<open>Recovery of one segment: the skip list holds what replaying the records gives.\<close>

lemma to_skiplist_collect:
  assumes "map_of d (seg_path s) = Some b" "b \<noteq> []" "wi_collect L (wi_at b 0) = Some es"
  shows "\<exists>m. to_skiplist L ht rng s d = Some (Inr m) \<and> sl_rel m (put_all es [])"
proof -
  have w: "wi_new (seg_path s) d = Inr (wi_at b 0)" using assms(1,2) by (simp add: wi_new_def wi_at_def)
  have "sl_rel (sl_new ht rng) ([] :: entry list)" unfolding sl_new_def by (rule new_ok)
  from gh.insert_all_ok [OF this, of es] obtain m where
    "sl_insert_all gen_height (sl_new ht rng) es = Some m" "sl_rel m (put_all es [])" by blast
  with w assms(3) show ?thesis by (auto simp: to_skiplist_def)
qed

lemma to_skiplist_ok:
  assumes L: "fixed_ok L" "snappy_ok L" and h: "seg_holds L s d es" and ne: "es \<noteq> []"
  shows "\<exists>m. to_skiplist L ht rng s d = Some (Inr m) \<and> sl_rel m (put_all es [])"
proof -
  obtain zs where zs: "list_all2 (rec_ok L) es zs" "map_of d (seg_path s) = Some (log_bytes L zs)"
    using h by (auto simp: seg_holds_def)
  have "log_bytes L zs \<noteq> []" using zs(1) ne L(1) by auto
  from to_skiplist_collect [OF zs(2) this wi_collect_log [OF L zs(1)]] show ?thesis .
qed

text \<open>A record cut short makes the reader panic.\<close>

lemma wi_next_torn:
  assumes L: "fixed_ok L" and n: "length kb + length vb < u32_bound" "0 < length kb + length vb"
    and t: "0 < t" "t < 8 + length kb + length vb"
    and b: "b = pre @ take t (rec_bytes L kb vb)"
  shows "wi_next L (wi_at b (length pre)) = None"
proof -
  define n where "n = length kb + length vb"
  define ea where "ea = encode_fixed32 L (of_nat n)"
  have l: "length ea = 4" using L by (simp add: ea_def)
  have len: "length b = length pre + t" using t by (simp add: b length_rec_bytes [OF L])
  show ?thesis
  proof (cases "t < 4")
    case True
    then show ?thesis using t(1) len by (simp add: wi_next_def wi_at_def subslice_def)
  next
    case False
    then obtain rest where "b = pre @ ea @ rest" using l by (auto simp: b rec_bytes_n [OF n_def] ea_def)
    then have s1: "subslice b (length pre) (length pre + 4) = Some ea" using l by (simp add: subslice_mid_eq)
    have v: "unat (decode_fixed32 L ea) = n"
      unfolding ea_def by (rule decode_u32 [OF L]) (use assms(2) in \<open>simp add: n_def\<close>)
    have "subslice b (length pre + 4 + 4) (length pre + 4 + 4 + n) = None"
      using t(2) len by (simp add: subslice_def n_def)
    then show ?thesis
      using s1 v assms(3) t(1) len unfolding n_def [symmetric]
      by (simp add: wi_next_def wi_at_def Let_def bind_eq_None_conv)
  qed
qed

subsection \<open>The list of segments\<close>

text \<open>The segments hold the lists \<open>ess\<close>, oldest first, in files of their own; the numbers from
  \<open>current_file_num\<close> on are free.\<close>

definition wal_fresh :: "wal \<Rightarrow> fs \<Rightarrow> bool" where
  "wal_fresh w d \<longleftrightarrow>
     (\<forall>n. current_file_num w \<le> n \<longrightarrow> n < usize_bound \<longrightarrow>
        map_of d (make_file_name n ''wal'') = None \<and> make_file_name n ''wal'' \<notin> seg_path ` set (segs w))"

text \<open>The segments have rising numbers, and there is no other log file.\<close>

definition wal_files :: "wal \<Rightarrow> fs \<Rightarrow> bool" where
  "wal_files w d \<longleftrightarrow>
     (\<exists>ns. map seg_path (segs w) = map (\<lambda>n. make_file_name n ''wal'') ns \<and> sorted_wrt (<) ns \<and>
        (\<forall>n \<in> set ns. n < current_file_num w)) \<and>
     (\<forall>x. has_ext ''wal'' x \<longrightarrow> map_of d x \<noteq> None \<longrightarrow> x \<in> seg_path ` set (segs w))"

definition wal_holds :: "('f, 'c) libs \<Rightarrow> wal \<Rightarrow> fs \<Rightarrow> entry list list \<Rightarrow> bool" where
  "wal_holds L w d ess \<longleftrightarrow>
     sorted_kv d \<and> list_all2 (\<lambda>s es. seg_holds L s d es) (segs w) ess \<and>
     distinct (map seg_path (segs w)) \<and> wal_fresh w d \<and> wal_files w d"

lemma wal_file_ext [simp]: "has_ext ''wal'' (make_file_name n ''wal'')"
  by (simp add: has_ext_def make_file_name_def)

lemma wal_files_named: "wal_files w d \<Longrightarrow> s \<in> set (segs w) \<Longrightarrow> \<exists>i. seg_path s = make_file_name i ''wal''"
proof -
  assume w: "wal_files w d" and s: "s \<in> set (segs w)"
  obtain ns where "map seg_path (segs w) = map (\<lambda>n. make_file_name n ''wal'') ns" using w by (auto simp: wal_files_def)
  moreover have "seg_path s \<in> set (map seg_path (segs w))" using s by simp
  ultimately show ?thesis by auto
qed

lemma wal_holds_named: "wal_holds L w d ess \<Longrightarrow> s \<in> set (segs w) \<Longrightarrow> \<exists>i. seg_path s = make_file_name i ''wal''"
  by (auto simp: wal_holds_def dest: wal_files_named)

lemma wal_files_snoc:
  assumes "wal_files w d" "segs w' = segs w @ [s]" "seg_path s = make_file_name (current_file_num w) ''wal''"
    "current_file_num w' = Suc (current_file_num w)" "\<And>x. x \<noteq> seg_path s \<Longrightarrow> map_of d' x = map_of d x"
  shows "wal_files w' d'"
proof -
  obtain ns where ns: "map seg_path (segs w) = map (\<lambda>n. make_file_name n ''wal'') ns" "sorted_wrt (<) ns"
    "\<forall>n \<in> set ns. n < current_file_num w" using assms(1) by (auto simp: wal_files_def)
  have "map seg_path (segs w') = map (\<lambda>n. make_file_name n ''wal'') (ns @ [current_file_num w])"
    using ns(1) assms(2,3) by simp
  moreover have "sorted_wrt (<) (ns @ [current_file_num w])" using ns(2,3) by (simp add: sorted_wrt_append)
  moreover have "\<forall>n \<in> set (ns @ [current_file_num w]). n < current_file_num w'" using ns(3) assms(4) by auto
  moreover have "x \<in> seg_path ` set (segs w')" if "has_ext ''wal'' x" "map_of d' x \<noteq> None" for x
    using that assms(1,2) assms(5) [of x] by (cases "x = seg_path s") (auto simp: wal_files_def)
  ultimately show ?thesis unfolding wal_files_def by blast
qed

lemma wal_files_same:
  assumes "wal_files w d" "map seg_path (segs w') = map seg_path (segs w)" "current_file_num w' = current_file_num w"
    "\<And>x. has_ext ''wal'' x \<Longrightarrow> map_of d' x \<noteq> None \<Longrightarrow> map_of d x \<noteq> None \<or> x \<in> seg_path ` set (segs w)"
  shows "wal_files w' d'"
proof -
  have "seg_path ` set (segs w') = seg_path ` set (segs w)" using assms(2) by (metis set_map)
  then show ?thesis using assms unfolding wal_files_def by metis
qed

lemma wal_files_tl:
  assumes "wal_files w d" "segs w = s # ss" "\<And>x. x \<noteq> seg_path s \<Longrightarrow> map_of d' x = map_of d x" "map_of d' (seg_path s) = None"
  shows "wal_files (w\<lparr>segs := ss\<rparr>) d'"
proof -
  obtain ns where ns: "map seg_path (segs w) = map (\<lambda>n. make_file_name n ''wal'') ns" "sorted_wrt (<) ns"
    "\<forall>n \<in> set ns. n < current_file_num w" using assms(1) by (auto simp: wal_files_def)
  obtain n ns' where n: "ns = n # ns'" using ns(1) assms(2) by (cases ns) auto
  have "map seg_path ss = map (\<lambda>n. make_file_name n ''wal'') ns'" using ns(1) assms(2) n by simp
  moreover have "x \<in> seg_path ` set ss" if "has_ext ''wal'' x" "map_of d' x \<noteq> None" for x
  proof -
    have "x \<noteq> seg_path s" using that(2) assms(4) by auto
    moreover have "x \<in> seg_path ` set (segs w)" using that assms(1,3) calculation by (simp add: wal_files_def)
    ultimately show ?thesis using assms(2) by auto
  qed
  ultimately show ?thesis using ns(2,3) n by (auto simp: wal_files_def)
qed

lemma make_file_name_inj:
  assumes "make_file_name n e = make_file_name m e'" "n < usize_bound" "m < usize_bound"
  shows "n = m \<and> e = e'"
proof -
  have tw: "takeWhile (\<lambda>c. c \<noteq> CHR ''.'') (make_file_name i x) = pad8 i" for i x
    using pad8_no_dot [of i] by (simp add: make_file_name_def takeWhile_append)
  have "pad8 n = pad8 m" using tw [of n e] tw [of m e'] assms(1) by simp
  then have "n = m" using parse_pad8 assms(2,3) by (metis option.inject)
  with assms(1) show ?thesis by (simp add: make_file_name_def)
qed

lemma seg_holds_frame:
  "seg_holds L s d es \<Longrightarrow> map_of d' (seg_path s) = map_of d (seg_path s) \<Longrightarrow> seg_holds L s d' es"
  by (simp add: seg_holds_def)

lemma segs_hold_frame:
  assumes "list_all2 (\<lambda>s es. seg_holds L s d es) ss ess"
    "\<And>s. s \<in> set ss \<Longrightarrow> map_of d' (seg_path s) = map_of d (seg_path s)"
  shows "list_all2 (\<lambda>s es. seg_holds L s d' es) ss ess"
  using assms(1) by (rule list.rel_mono_strong) (auto intro: seg_holds_frame assms(2))

lemma new_seg_ok:
  assumes h: "wal_holds L w d ess" and n: "current_file_num w < usize_bound"
  shows "\<exists>w' d'. new_seg w d = (w', d') \<and> wal_holds L w' d' (ess @ [[]]) \<and>
     current_file_num w' = Suc (current_file_num w) \<and> seg_size (last (segs w')) = 0 \<and>
     segs w' \<noteq> [] \<and>
     (\<forall>m. (\<forall>i. m \<noteq> make_file_name i ''wal'') \<longrightarrow> map_of d' m = map_of d m)"
proof -
  let ?p = "make_file_name (current_file_num w) ''wal''"
  have wf: "wal_fresh w d" and sd: "sorted_kv d" using h by (simp_all add: wal_holds_def)
  have f: "map_of d ?p = None" "?p \<notin> seg_path ` set (segs w)"
    using wf n by (simp_all add: wal_fresh_def)
  let ?s = "\<lparr>seg_size = 0, seg_path = ?p\<rparr>" and ?d = "ins_kv ?p [] d"
  let ?w = "w\<lparr>current_file_num := Suc (current_file_num w), segs := segs w @ [?s]\<rparr>"
  have ns: "new_seg w d = (?w, ?d)"
    using f(1) by (simp add: new_seg_def new_file_num_def seg_new_def fs_create_def)
  have m: "map_of ?d = (map_of d)(?p \<mapsto> [])" by (rule map_of_ins_kv [OF sd])
  have sh: "seg_holds L ?s ?d []"
    using m by (simp add: seg_holds_def log_bytes_def)
  have old: "list_all2 (\<lambda>s es. seg_holds L s ?d es) (segs w) ess"
  proof (rule segs_hold_frame)
    show "list_all2 (\<lambda>s es. seg_holds L s d es) (segs w) ess" using h by (simp add: wal_holds_def)
    show "map_of ?d (seg_path s) = map_of d (seg_path s)" if "s \<in> set (segs w)" for s
    proof -
      have "seg_path s \<noteq> ?p" using f(2) imageI [OF that, of seg_path] by metis
      then show ?thesis by (simp add: m)
    qed
  qed
  have "wal_fresh ?w ?d"
    unfolding wal_fresh_def
  proof (intro allI impI)
    fix i assume i: "current_file_num ?w \<le> i" "i < usize_bound"
    then have "make_file_name i ''wal'' \<noteq> ?p"
      using make_file_name_inj [of i "''wal''" "current_file_num w" "''wal''"] n by auto
    moreover have "map_of d (make_file_name i ''wal'') = None \<and> make_file_name i ''wal'' \<notin> seg_path ` set (segs w)"
      using wf i by (simp add: wal_fresh_def)
    ultimately show "map_of ?d (make_file_name i ''wal'') = None \<and> make_file_name i ''wal'' \<notin> seg_path ` set (segs ?w)"
      by (simp add: m)
  qed
  moreover have "list_all2 (\<lambda>s es. seg_holds L s ?d es) (segs w @ [?s]) (ess @ [[]])"
    using old sh by (intro list_all2_appendI) auto
  moreover have "wal_files ?w ?d"
    by (rule wal_files_snoc [of w d _ ?s]) (use h m in \<open>simp_all add: wal_holds_def\<close>)
  ultimately have "wal_holds L ?w ?d (ess @ [[]])"
    using h f(2) by (auto simp: wal_holds_def sorted_ins_kv)
  with ns m show ?thesis by (auto simp: fun_upd_def)
qed

text \<open>Appending writes to the last segment only.\<close>

lemma wal_append_ok:
  assumes L: "fixed_ok L" and h: "wal_holds L w d (ess @ [es])"
    and k: "compress_vec L k = Inr kb" and v: "compress_vec L v = Inr vb"
    and sz: "length kb + length vb < u32_bound"
  shows "\<exists>w' d'. wal_append L w k v d = Some (Inr (w', d')) \<and> wal_holds L w' d' (ess @ [es @ [(k, v)]]) \<and>
     current_file_num w' = current_file_num w \<and>
     current_seg_size w' = current_seg_size w + length (rec_bytes L kb vb) \<and>
     (\<forall>m. m \<notin> seg_path ` set (segs w) \<longrightarrow> map_of d' m = map_of d m) \<and>
     seg_path ` set (segs w') = seg_path ` set (segs w)"
proof -
  obtain ss s where ss: "segs w = ss @ [s]" "list_all2 (\<lambda>s es. seg_holds L s d es) ss ess" "seg_holds L s d es"
    using h by (auto simp: wal_holds_def list_all2_append2 list_all2_Cons2)
  have sd: "sorted_kv d" and wf: "wal_fresh w d" using h by (simp_all add: wal_holds_def)
  obtain s' d' where a: "seg_append L s k v d = Some (Inr (s', d'))" "seg_holds L s' d' (es @ [(k, v)])"
    "seg_path s' = seg_path s" "seg_size s' = seg_size s + length (rec_bytes L kb vb)"
    "sorted_kv d'" "\<And>n. n \<noteq> seg_path s \<Longrightarrow> map_of d' n = map_of d n"
    using seg_append_holds [OF L ss(3) sd k v sz] by blast
  let ?w = "w\<lparr>segs := ss @ [s']\<rparr>"
  have wa: "wal_append L w k v d = Some (Inr (?w, d'))"
    using ss(1) a(1) by (simp add: wal_append_def seg_count_def)
  have di: "distinct (map seg_path (ss @ [s]))" and wfi: "wal_files w d"
    using h ss(1) by (simp_all add: wal_holds_def)
  have "list_all2 (\<lambda>s es. seg_holds L s d' es) ss ess"
  proof (rule segs_hold_frame [OF ss(2)])
    fix x assume "x \<in> set ss"
    moreover have "seg_path s \<notin> seg_path ` set ss" using di by auto
    ultimately have "seg_path x \<noteq> seg_path s" by (metis imageI)
    then show "map_of d' (seg_path x) = map_of d (seg_path x)" by (rule a(6))
  qed
  then have "list_all2 (\<lambda>s es. seg_holds L s d' es) (ss @ [s']) (ess @ [es @ [(k, v)]])"
    using a(2) by (intro list_all2_appendI) auto
  moreover have "wal_fresh ?w d'"
    using wf a(3,6) ss(1) unfolding wal_fresh_def by simp
  moreover have "wal_files ?w d'"
    by (rule wal_files_same [OF wfi]) (use ss(1) a(3) a(6) in auto)
  ultimately have "wal_holds L ?w d' (ess @ [es @ [(k, v)]])"
    using a(3,5) di by (simp add: wal_holds_def)
  with wa a(3,4,6) ss(1) show ?thesis by (auto simp: current_seg_size_def)
qed

lemma consume_seg_ok:
  assumes h: "wal_holds L w d (es # ess)"
  shows "\<exists>w' d'. consume_seg w d = Inr (w', d') \<and> wal_holds L w' d' ess \<and>
     current_file_num w' = current_file_num w \<and> current_seg_size w' = (if ess = [] then 0 else current_seg_size w) \<and>
     segs w' = tl (segs w) \<and>
     (\<forall>m. m \<notin> seg_path ` set (segs w) \<longrightarrow> map_of d' m = map_of d m)"
proof -
  obtain s ss where ss: "segs w = s # ss" "seg_holds L s d es" "list_all2 (\<lambda>s es. seg_holds L s d es) ss ess"
    using h by (auto simp: wal_holds_def list_all2_Cons2)
  have sd: "sorted_kv d" and di: "distinct (map seg_path (s # ss))" and wf: "wal_fresh w d"
    and wfi: "wal_files w d"
    using h ss(1) by (simp_all add: wal_holds_def)
  let ?d = "del_kv (seg_path s) d" and ?w = "w\<lparr>segs := ss\<rparr>"
  have m: "map_of ?d = (map_of d)(seg_path s := None)" by (rule map_of_del_kv [OF sd])
  obtain b where "map_of d (seg_path s) = Some b" using ss(2) by (auto simp: seg_holds_def)
  then have c: "consume_seg w d = Inr (?w, ?d)"
    by (simp add: consume_seg_def ss(1) seg_delete_def remove_file_def)
  have "list_all2 (\<lambda>s es. seg_holds L s ?d es) ss ess"
  proof (rule segs_hold_frame [OF ss(3)])
    fix x assume "x \<in> set ss"
    moreover have "seg_path s \<notin> seg_path ` set ss" using di by auto
    ultimately have "seg_path x \<noteq> seg_path s" by (metis imageI)
    then show "map_of ?d (seg_path x) = map_of d (seg_path x)" by (simp add: m)
  qed
  moreover have "wal_fresh ?w ?d" using wf ss(1) unfolding wal_fresh_def by (simp add: m)
  moreover have "wal_files ?w ?d" by (rule wal_files_tl [OF wfi ss(1)]) (simp_all add: m)
  ultimately have "wal_holds L ?w ?d ess" using di sorted_del_kv [OF sd] by (simp add: wal_holds_def)
  moreover have "ess = [] \<longleftrightarrow> ss = []" using ss(3) by auto
  ultimately show ?thesis using c ss(1) m by (auto simp: current_seg_size_def)
qed

definition loggable :: "('f, 'c) libs \<Rightarrow> entry \<Rightarrow> bool" where
  "loggable L e \<longleftrightarrow> (\<exists>z. rec_ok L e z)"

lemma loggableE:
  assumes "loggable L (k, v)"
  obtains kb vb where "compress_vec L k = Inr kb" "compress_vec L v = Inr vb"
    "length kb + length vb < u32_bound"
  using assms by (auto simp: loggable_def rec_ok_def)

lemma wal_append_any:
  assumes L: "fixed_ok L" and h: "wal_holds L w d ess" and a: "loggable L (k, v)"
    and n: "current_file_num w < usize_bound"
  shows "\<exists>w' d'. wal_append L w k v d = Some (Inr (w', d')) \<and>
     wal_holds L w' d' (if ess = [] then [[(k, v)]] else butlast ess @ [last ess @ [(k, v)]]) \<and>
     current_file_num w' = (if ess = [] then Suc (current_file_num w) else current_file_num w) \<and>
     (\<forall>m. (\<forall>i. m \<noteq> make_file_name i ''wal'') \<longrightarrow> map_of d' m = map_of d m)"
proof -
  obtain kb vb where z: "compress_vec L k = Inr kb" "compress_vec L v = Inr vb"
    "length kb + length vb < u32_bound" using a by (rule loggableE)
  have len: "length (segs w) = length ess" using h by (auto simp: wal_holds_def dest: list_all2_lengthD)
  have fr: "m \<notin> seg_path ` set (segs w)" if "wal_holds L w d ess" "\<forall>i. m \<noteq> make_file_name i ''wal''" for m w d ess
    using wal_holds_named [OF that(1)] that(2) by fastforce
  show ?thesis
  proof (cases ess rule: rev_cases)
    case Nil
    obtain w1 d1 where s1: "new_seg w d = (w1, d1)" "wal_holds L w1 d1 ([] @ [[]])"
      "current_file_num w1 = Suc (current_file_num w)" "segs w1 \<noteq> []"
      "\<And>m. \<forall>i. m \<noteq> make_file_name i ''wal'' \<Longrightarrow> map_of d1 m = map_of d m"
      using new_seg_ok [OF h n] Nil by auto
    have eq: "wal_append L w k v d = wal_append L w1 k v d1"
      using s1(1,4) len Nil by (simp add: wal_append_def seg_count_def)
    obtain w' d' where a: "wal_append L w1 k v d1 = Some (Inr (w', d'))" "wal_holds L w' d' ([] @ [[] @ [(k, v)]])"
      "current_file_num w' = current_file_num w1" "\<And>m. m \<notin> seg_path ` set (segs w1) \<Longrightarrow> map_of d' m = map_of d1 m"
      using wal_append_ok [OF L s1(2) z] by blast
    have "map_of d' m = map_of d m" if "\<forall>i. m \<noteq> make_file_name i ''wal''" for m
      using a(4) [OF fr [OF s1(2) that]] s1(5) [OF that] by simp
    with a(1-3) eq s1(3) Nil show ?thesis by simp
  next
    case (snoc ess' es)
    obtain w' d' where a: "wal_append L w k v d = Some (Inr (w', d'))" "wal_holds L w' d' (ess' @ [es @ [(k, v)]])"
      "current_file_num w' = current_file_num w" "\<And>m. m \<notin> seg_path ` set (segs w) \<Longrightarrow> map_of d' m = map_of d m"
      using wal_append_ok [OF L h [unfolded snoc] z] by blast
    have "map_of d' m = map_of d m" if "\<forall>i. m \<noteq> make_file_name i ''wal''" for m
      using a(4) [OF fr [OF h that]] .
    with a(1-3) snoc show ?thesis by simp
  qed
qed

end
