(* ===== verification/Merger.thy ===== *)
theory Merger
  imports Sstable_Get Table
begin

text \<open>
  The merging iterator (\<open>mirdb-server/src/merger.rs\<close>): the entries of several tables in key
  order; of the entries with one key, the one of the first table that has it.  The iterators
  share the block cache, which each call hands on.
\<close>

record ('f, 'c) merger =
  mg_iters :: "('f table_reader \<times> 'c table_iter) list"
  mg_i :: "nat option"
  mg_cache :: "'c cache"

definition mg_new :: "('f table_reader \<times> 'c table_iter) list \<Rightarrow> 'c cache \<Rightarrow> ('f, 'c) merger" where
  "mg_new iters c = \<lparr>mg_iters = iters, mg_i = None, mg_cache = c\<rparr>"

text \<open>One step of the iterator at a position of the list, with the shared cache.\<close>

definition step_at ::
  "('f table_reader \<Rightarrow> 'c table_iter \<Rightarrow> (bool \<times> 'c table_iter) option) \<Rightarrow>
   ('f, 'c) merger \<Rightarrow> nat \<Rightarrow> (bool \<times> ('f, 'c) merger) option" where
  "step_at op m i = do {
     (t, it) \<leftarrow> idx (mg_iters m) i;
     (b, it') \<leftarrow> op t (it\<lparr>ti_cache := mg_cache m\<rparr>);
     Some (b, m\<lparr>mg_iters := (mg_iters m)[i := (t, it')], mg_cache := ti_cache it'\<rparr>)
   }"

definition key_at :: "('f, 'c) merger \<Rightarrow> nat \<Rightarrow> bytes option" where
  "key_at m i = (if i < length (mg_iters m) then ti_current_k (snd (mg_iters m ! i)) else None)"

text \<open>The loop of \<open>advance\<close> from position \<open>i\<close> on, with \<open>n\<close> iterators to go.  An iterator that
  turns out not to have the smallest key goes back one step; one that has the same key as an
  earlier iterator does not.\<close>

fun mg_advance_from ::
  "('f, 'c) libs \<Rightarrow> nat \<Rightarrow> nat \<Rightarrow> ('f, 'c) merger \<Rightarrow> bytes option \<Rightarrow> nat option \<Rightarrow>
   (bytes option \<times> nat option \<times> ('f, 'c) merger) option" where
  "mg_advance_from L 0 i m pk pi = Some (pk, pi, m)"
| "mg_advance_from L (Suc n) i m pk pi = do {
     (b, m1) \<leftarrow> step_at (ti_advance L) m i;
     case (if b then key_at m1 i else None) of
       None \<Rightarrow> mg_advance_from L n (i + 1) m1 pk pi
     | Some nk \<Rightarrow>
         (case pk of
            None \<Rightarrow> mg_advance_from L n (i + 1) m1 (Some nk) (Some i)
          | Some p \<Rightarrow>
              if p > nk then do {
                j \<leftarrow> pi;
                (_, m2) \<leftarrow> step_at (ti_prev L) m1 j;
                mg_advance_from L n (i + 1) m2 (Some nk) (Some i)
              }
              else if p < nk then do {
                (_, m2) \<leftarrow> step_at (ti_prev L) m1 i;
                mg_advance_from L n (i + 1) m2 pk pi
              }
              else mg_advance_from L n (i + 1) m1 pk pi)
   }"

definition mg_advance :: "('f, 'c) libs \<Rightarrow> ('f, 'c) merger \<Rightarrow> (bool \<times> ('f, 'c) merger) option" where
  "mg_advance L m = do {
     (pk, pi, m') \<leftarrow> mg_advance_from L (length (mg_iters m)) 0 m None None;
     Some (pk \<noteq> None, m'\<lparr>mg_i := pi\<rparr>)
   }"

fun mg_prev_from ::
  "('f, 'c) libs \<Rightarrow> nat \<Rightarrow> nat \<Rightarrow> ('f, 'c) merger \<Rightarrow> bytes option \<Rightarrow> nat option \<Rightarrow>
   (bytes option \<times> nat option \<times> ('f, 'c) merger) option" where
  "mg_prev_from L 0 i m pk pi = Some (pk, pi, m)"
| "mg_prev_from L (Suc n) i m pk pi = do {
     (b, m1) \<leftarrow> step_at (ti_prev L) m i;
     case (if b then key_at m1 i else None) of
       None \<Rightarrow> mg_prev_from L n (i + 1) m1 pk pi
     | Some nk \<Rightarrow>
         (case pk of
            None \<Rightarrow> mg_prev_from L n (i + 1) m1 (Some nk) (Some i)
          | Some p \<Rightarrow>
              if p < nk then do {
                j \<leftarrow> pi;
                (_, m2) \<leftarrow> step_at (ti_advance L) m1 j;
                mg_prev_from L n (i + 1) m2 (Some nk) (Some i)
              }
              else if p > nk then do {
                (_, m2) \<leftarrow> step_at (ti_advance L) m1 i;
                mg_prev_from L n (i + 1) m2 pk pi
              }
              else mg_prev_from L n (i + 1) m1 pk pi)
   }"

definition mg_valid :: "('f, 'c) merger \<Rightarrow> bool" where
  "mg_valid m \<longleftrightarrow> list_ex (\<lambda>x. ti_valid (snd x)) (mg_iters m)"

definition mg_current_k :: "('f, 'c) merger \<Rightarrow> bytes option" where
  "mg_current_k m = (case mg_i m of None \<Rightarrow> None | Some i \<Rightarrow> ti_current_k (snd (mg_iters m ! i)))"

definition mg_current_v :: "('f, 'c) merger \<Rightarrow> bytes option option" where
  "mg_current_v m = (case mg_i m of None \<Rightarrow> Some None | Some i \<Rightarrow> ti_current_v (snd (mg_iters m ! i)))"

definition mg_prev :: "('f, 'c) libs \<Rightarrow> ('f, 'c) merger \<Rightarrow> (bool \<times> ('f, 'c) merger) option" where
  "mg_prev L m = do {
     (pk, pi, m') \<leftarrow> mg_prev_from L (length (mg_iters m)) 0 m None None;
     let m1 = m'\<lparr>mg_i := pi\<rparr>;
     Some (mg_current_k m1 \<noteq> None, m1)
   }"

definition mg_reset :: "('f, 'c) merger \<Rightarrow> ('f, 'c) merger" where
  "mg_reset m = m\<lparr>mg_iters := map (\<lambda>(t, it). (t, ti_reset it)) (mg_iters m), mg_i := None\<rparr>"

text \<open>\<open>next\<close> is the provided method of \<open>SsIterator\<close>.\<close>

definition mg_next :: "('f, 'c) libs \<Rightarrow> ('f, 'c) merger \<Rightarrow> (entry option \<times> ('f, 'c) merger) option" where
  "mg_next L m = ss_next (mg_advance L) (ss_current_kv mg_valid mg_current_k mg_current_v) m"

subsection \<open>The merge of several sorted lists\<close>

definition merge_all :: "('k :: linorder \<times> 'v) list list \<Rightarrow> ('k \<times> 'v) list" where
  "merge_all rs = put_all (concat (rev rs)) []"

lemma sorted_kv_unique:
  assumes "sorted_kv xs" "sorted_kv ys" "map_of xs = map_of ys"
  shows "xs = ys"
  using assms
proof (induction xs arbitrary: ys)
  case Nil
  then show ?case by (cases ys) (auto simp: fun_eq_iff split: if_splits)
next
  case (Cons x xs)
  obtain k v where x: "x = (k, v)" by fastforce
  have ne: "ys \<noteq> []" using Cons.prems(3) x by (auto simp: fun_eq_iff split: if_splits)
  then obtain k' v' ys' where y: "ys = (k', v') # ys'" by (metis list.exhaust surj_pair)
  have kk: "k = k'"
  proof (rule ccontr)
    assume "k \<noteq> k'"
    then consider "k < k'" | "k' < k" by force
    then show False
    proof cases
      case 1
      then have "map_of ys k = None" using Cons.prems(2) y map_of_sorted_less [of k' v' ys' k] by simp
      with Cons.prems(3) x show False by (metis map_of_Cons_code(2) option.distinct(1))
    next
      case 2
      then have "map_of (x # xs) k' = None" using Cons.prems(1) x map_of_sorted_less [of k v xs k'] by simp
      with Cons.prems(3) y show False by (metis map_of_Cons_code(2) option.distinct(1))
    qed
  qed
  have n: "map_of xs k = None" "map_of ys' k = None"
    using Cons.prems(1,2) x y kk by (auto simp: map_of_eq_None_iff)
  have v: "v = v'" using Cons.prems(3) x y kk by (metis map_of_Cons_code(2) option.inject)
  have "map_of xs j = map_of ys' j" for j
    using Cons.prems(3) x y kk n by (cases "j = k") (auto simp: fun_eq_iff split: if_splits)
  then have "xs = ys'" using Cons.prems(1,2) x y by (intro Cons.IH) (auto simp: fun_eq_iff)
  with x y kk v show ?case by simp
qed

lemma map_of_rev_sorted: "sorted_kv es \<Longrightarrow> map_of (rev es) = map_of es"
  by (rule map_of_inject_set [THEN iffD2])
    (auto simp: sorted_kv_def rev_map [symmetric] dest: strict_sorted_imp_sorted strict_sorted_iff [THEN iffD1])

lemma map_of_merge_all:
  assumes "\<forall>r \<in> set rs. sorted_kv r"
  shows "map_of (merge_all rs) = first_hit rs"
proof -
  have "map_of (merge_all rs) = map_of (rev (concat (rev rs)))"
    using map_of_put_all [of "[]" "concat (rev rs)"] by (simp add: merge_all_def)
  also have "rev (concat (rev rs)) = concat (map rev rs)"
    by (simp add: rev_concat rev_map)
  also have "map_of (concat (map rev rs)) = first_hit rs"
    using assms
  proof (induction rs)
    case (Cons r rs)
    then show ?case
      by (auto simp: fun_eq_iff map_add_def map_of_rev_sorted split: option.splits)
  qed auto
  finally show ?thesis .
qed

lemma sorted_merge_all: "sorted_kv (merge_all rs)"
  by (simp add: merge_all_def put_all_sorted)

text \<open>Taking the smallest key off the front of the lists, and dropping heads that an earlier
  list hides, takes one entry off the merge.\<close>

inductive strips :: "'k :: linorder \<Rightarrow> 'k set \<Rightarrow> ('k \<times> 'v) list list \<Rightarrow> ('k \<times> 'v) list list \<Rightarrow> bool" for p where
  strips_Nil: "strips p A [] []"
| strips_keep: "strips p (A \<union> fst ` set r) rs rs' \<Longrightarrow> strips p A (r # rs) (r # rs')"
| strips_drop: "strips p (A \<union> fst ` set ((k, v) # r)) rs rs' \<Longrightarrow> k \<in> A \<or> k = p \<Longrightarrow>
    strips p A (((k, v) # r) # rs) (r # rs')"

lemma map_of_key: "map_of r x = Some y \<Longrightarrow> x \<in> fst ` set r"
  by (metis map_of_eq_None_iff option.distinct(1))

lemma strips_first_hit:
  "strips p A rs rs' \<Longrightarrow> x \<notin> A \<Longrightarrow> x \<noteq> p \<Longrightarrow> first_hit rs' x = first_hit rs x"
proof (induction rule: strips.induct)
  case (strips_keep A r rs rs')
  then show ?case by (auto simp: map_of_eq_None_iff dest: map_of_key split: option.splits)
next
  case (strips_drop A k v r rs rs')
  then have "x \<noteq> k" by auto
  with strips_drop show ?case by (auto simp: map_of_eq_None_iff dest: map_of_key split: option.splits)
qed simp

lemma merge_all_Cons:
  assumes s: "strips p {} rs rs'" and so: "\<forall>r \<in> set rs. sorted_kv r" "\<forall>r \<in> set rs'. sorted_kv r"
    and v: "first_hit rs p = Some v" and gt: "\<forall>r \<in> set rs'. \<forall>e \<in> set r. p < fst e"
  shows "merge_all rs = (p, v) # merge_all rs'"
proof (rule sorted_kv_unique)
  have keys: "fst ` set (merge_all rs') \<subseteq> (\<Union>r \<in> set rs'. fst ` set r)"
  proof
    fix k assume "k \<in> fst ` set (merge_all rs')"
    then have "map_of (merge_all rs') k \<noteq> None" by (simp add: map_of_eq_None_iff)
    then have "first_hit rs' k \<noteq> None" by (simp add: map_of_merge_all [OF so(2)])
    then show "k \<in> (\<Union>r \<in> set rs'. fst ` set r)"
      by (induction rs') (auto simp: map_of_eq_None_iff dest: map_of_key split: option.splits)
  qed
  with gt show "sorted_kv ((p, v) # merge_all rs')" by (fastforce simp: sorted_merge_all)
  have n: "first_hit rs' p = None"
    using gt by (induction rs') (auto simp: map_of_eq_None_iff split: option.splits)
  show "map_of (merge_all rs) = map_of ((p, v) # merge_all rs')"
    using strips_first_hit [OF s] v n by (auto simp: fun_eq_iff map_of_merge_all so)
qed (rule sorted_merge_all)

subsection \<open>Positions of the iterators\<close>

text \<open>The iterator \<open>x\<close> has the entries \<open>a\<close> behind it and \<open>b\<close> before it, or has returned
  false; \<open>it_rem\<close> is what it has before it.\<close>

definition it_pos ::
  "('f, 'c) libs \<Rightarrow> nat \<Rightarrow> (bytes \<rightharpoonup> bytes) \<Rightarrow> 'f table_reader \<times> 'c table_iter \<Rightarrow> entry list \<Rightarrow> entry list \<Rightarrow> bool" where
  "it_pos L I M x a b \<longleftrightarrow> (\<exists>bs cid. ti_pos L I M (fst x) bs cid (snd x) (a @ b) (length a))"

definition it_rem ::
  "('f, 'c) libs \<Rightarrow> nat \<Rightarrow> (bytes \<rightharpoonup> bytes) \<Rightarrow> 'f table_reader \<times> 'c table_iter \<Rightarrow> entry list \<Rightarrow> bool" where
  "it_rem L I M x r \<longleftrightarrow> (\<exists>a. it_pos L I M x a r) \<or>
     (\<exists>bs cid es. ti_finished L I M (fst x) bs cid (snd x) es) \<and> r = []"

lemma it_pos_rem: "it_pos L I M x a b \<Longrightarrow> it_rem L I M x b"
  by (auto simp: it_rem_def)

lemma ti_pos_cache:
  "ti_pos L I M t bs cid s es p \<Longrightarrow> cache_agrees L M c \<Longrightarrow> ti_pos L I M t bs (cache_id c) (s\<lparr>ti_cache := c\<rparr>) es p"
  "ti_finished L I M t bs cid s es \<Longrightarrow> cache_agrees L M c \<Longrightarrow>
     ti_finished L I M t bs (cache_id c) (s\<lparr>ti_cache := c\<rparr>) es"
  by (auto simp: ti_pos_def ti_inv_def in_block_def ti_finished_def split: option.splits)

lemma ti_pos_facts:
  assumes "ti_pos L I M t bs cid s es p"
  shows "keys_nonempty es" "sorted_kv es" "cache_agrees L M (ti_cache s)" "cache_id (ti_cache s) = cid"
  using assms by (auto simp: ti_pos_def ti_inv_def table_ok_def sorted_kv_def)

lemma ti_finished_facts:
  assumes "ti_finished L I M t bs cid s es"
  shows "keys_nonempty es" "cache_agrees L M (ti_cache s)" "cache_id (ti_cache s) = cid"
  using assms by (auto simp: ti_finished_def ti_inv_def table_ok_def)

lemma it_rem_sorted: "it_rem L I M x r \<Longrightarrow> sorted_kv r"
  by (auto simp: it_rem_def it_pos_def sorted_kv_def sorted_wrt_append dest!: ti_pos_facts(2))

definition mg_inv :: "('f, 'c) libs \<Rightarrow> nat \<Rightarrow> (bytes \<rightharpoonup> bytes) \<Rightarrow> nat \<Rightarrow> ('f, 'c) merger \<Rightarrow> entry list list \<Rightarrow> bool" where
  "mg_inv L I M cid m rs \<longleftrightarrow> cache_agrees L M (mg_cache m) \<and> cache_id (mg_cache m) = cid \<and>
     list_all2 (it_rem L I M) (mg_iters m) rs"

lemma mg_inv_length: "mg_inv L I M cid m rs \<Longrightarrow> length (mg_iters m) = length rs"
  by (auto simp: mg_inv_def dest: list_all2_lengthD)

lemma mg_inv_sorted: "mg_inv L I M cid m rs \<Longrightarrow> r \<in> set rs \<Longrightarrow> sorted_kv r"
  by (auto simp: mg_inv_def list_all2_conv_all_nth in_set_conv_nth dest: it_rem_sorted)

lemma mg_inv_update:
  assumes "mg_inv L I M cid m rs" "i < length rs" "it_rem L I M x r" "cache_agrees L M c" "cache_id c = cid"
  shows "mg_inv L I M cid (m\<lparr>mg_iters := (mg_iters m)[i := x], mg_cache := c\<rparr>) (rs[i := r])"
  using assms by (auto simp: mg_inv_def intro: list_all2_update_cong)

text \<open>Advancing the iterator at a position, and taking it back.\<close>

lemma step_advance:
  assumes m: "mg_inv L I M cid m rs" and i: "i < length rs" and r: "rs ! i = e # r"
  shows "\<exists>m1 a. step_at (ti_advance L) m i = Some (True, m1) \<and> mg_inv L I M cid m1 (rs[i := r]) \<and>
     it_pos L I M (mg_iters m1 ! i) (a @ [e]) r \<and> key_at m1 i = Some (fst e) \<and> mg_i m1 = mg_i m \<and>
     (\<forall>j. j \<noteq> i \<longrightarrow> mg_iters m1 ! j = mg_iters m ! j)"
proof -
  have l: "i < length (mg_iters m)" using i mg_inv_length [OF m] by simp
  obtain t it where x: "mg_iters m ! i = (t, it)" by fastforce
  have "it_rem L I M (t, it) (e # r)" using m i r x by (auto simp: mg_inv_def list_all2_conv_all_nth)
  then obtain a bs cid' where "ti_pos L I M t bs cid' it (a @ e # r) (length a)"
    by (auto simp: it_rem_def it_pos_def)
  then have p: "ti_pos L I M t bs cid (it\<lparr>ti_cache := mg_cache m\<rparr>) (a @ e # r) (length a)"
    using ti_pos_cache(1) m by (fastforce simp: mg_inv_def)
  note kn = ti_pos_facts(1) [OF p]
  obtain it' where it': "ti_advance L t (it\<lparr>ti_cache := mg_cache m\<rparr>) = Some (True, it')"
    "ti_pos L I M t bs cid it' (a @ e # r) (Suc (length a))"
    using ti.advance_step [OF p kn] by auto
  have k: "ti_current_k it' = Some (fst e)" using ti.current [OF it'(2) kn] by simp
  have ip: "it_pos L I M (t, it') (a @ [e]) r" using it'(2) by (auto simp: it_pos_def)
  let ?m = "m\<lparr>mg_iters := (mg_iters m)[i := (t, it')], mg_cache := ti_cache it'\<rparr>"
  have "step_at (ti_advance L) m i = Some (True, ?m)"
    using l x it'(1) by (simp add: step_at_def idx_def)
  moreover have "mg_inv L I M cid ?m (rs[i := r])"
    using mg_inv_update [OF m i it_pos_rem [OF ip]] ti_pos_facts(3,4) [OF it'(2)] by blast
  ultimately show ?thesis using ip k l by (intro exI [of _ ?m] exI [of _ a]) (simp add: key_at_def)
qed

lemma step_advance_end:
  assumes m: "mg_inv L I M cid m rs" and i: "i < length rs" and r: "rs ! i = []"
  shows "\<exists>m1. step_at (ti_advance L) m i = Some (False, m1) \<and> mg_inv L I M cid m1 rs \<and> mg_i m1 = mg_i m \<and>
     (\<forall>j. j \<noteq> i \<longrightarrow> mg_iters m1 ! j = mg_iters m ! j)"
proof -
  have l: "i < length (mg_iters m)" using i mg_inv_length [OF m] by simp
  obtain t it where x: "mg_iters m ! i = (t, it)" by fastforce
  have c: "cache_agrees L M (mg_cache m)" "cache_id (mg_cache m) = cid" using m by (auto simp: mg_inv_def)
  have "it_rem L I M (t, it) []" using m i r x by (auto simp: mg_inv_def list_all2_conv_all_nth)
  then obtain bs cid' es where
    "ti_pos L I M t bs cid' it es (length es) \<or> ti_finished L I M t bs cid' it es"
    by (auto simp: it_rem_def it_pos_def)
  then have p: "ti_pos L I M t bs cid (it\<lparr>ti_cache := mg_cache m\<rparr>) es (length es) \<or>
      ti_finished L I M t bs cid (it\<lparr>ti_cache := mg_cache m\<rparr>) es"
    using ti_pos_cache(1) [of L I M t bs cid' it es "length es" "mg_cache m"]
      ti_pos_cache(2) [of L I M t bs cid' it es "mg_cache m"] c by blast
  then have "keys_nonempty es" using ti_pos_facts(1) ti_finished_facts(1) by blast
  with p obtain it' where it': "ti_advance L t (it\<lparr>ti_cache := mg_cache m\<rparr>) = Some (False, it')"
    "ti_finished L I M t bs cid it' es"
    using ti.advance_end ti.advance_finished by blast
  then have "it_rem L I M (t, it') []" by (auto simp: it_rem_def)
  from mg_inv_update [OF m i this ti_finished_facts(2,3) [OF it'(2)]] r
  have "mg_inv L I M cid (m\<lparr>mg_iters := (mg_iters m)[i := (t, it')], mg_cache := ti_cache it'\<rparr>) rs"
    by (metis list_update_id)
  then show ?thesis using l x it'(1) by (simp add: step_at_def idx_def)
qed

lemma step_prev:
  assumes m: "mg_inv L I M cid m rs" and i: "i < length rs"
    and p: "it_pos L I M (mg_iters m ! i) (a @ [e]) r"
  shows "\<exists>b m1. step_at (ti_prev L) m i = Some (b, m1) \<and> mg_inv L I M cid m1 (rs[i := e # r]) \<and> mg_i m1 = mg_i m \<and>
     (\<forall>j. j \<noteq> i \<longrightarrow> mg_iters m1 ! j = mg_iters m ! j)"
proof -
  have l: "i < length (mg_iters m)" using i mg_inv_length [OF m] by simp
  obtain t it where x: "mg_iters m ! i = (t, it)" by fastforce
  then obtain bs cid' where "ti_pos L I M t bs cid' it (a @ e # r) (Suc (length a))"
    using p by (auto simp: it_pos_def)
  then have p: "ti_pos L I M t bs cid (it\<lparr>ti_cache := mg_cache m\<rparr>) (a @ e # r) (Suc (length a))"
    using ti_pos_cache(1) m by (fastforce simp: mg_inv_def)
  obtain b it' where it': "ti_prev L t (it\<lparr>ti_cache := mg_cache m\<rparr>) = Some (b, it')"
    "ti_pos L I M t bs cid it' (a @ e # r) (length a)"
    using ti.prev_step [OF p ti_pos_facts(1) [OF p]] by auto
  have "it_rem L I M (t, it') (e # r)" using it'(2) by (auto simp: it_rem_def it_pos_def)
  from mg_inv_update [OF m i this ti_pos_facts(3,4) [OF it'(2)]] show ?thesis
    using l x it'(1) by (simp add: step_at_def idx_def)
qed

subsection \<open>The loop of \<open>advance\<close>\<close>

text \<open>What has happened to the lists in front of position \<open>i\<close>, when the smallest key so far is
  \<open>p\<close>, at the head of list \<open>q\<close>: another list is as it was, and has larger keys only, or has lost
  its head to an equal key of an earlier list.\<close>

definition passed :: "bytes \<Rightarrow> nat \<Rightarrow> entry list list \<Rightarrow> entry list list \<Rightarrow> nat \<Rightarrow> bool" where
  "passed p q rs rs' j \<longleftrightarrow>
     rs' ! j = rs ! j \<and> (\<forall>e \<in> set (rs ! j). p < fst e) \<or>
     (\<exists>k v. rs ! j = (k, v) # rs' ! j \<and> (if j < q then p < k else p \<le> k) \<and>
        (\<exists>j' < j. k \<in> fst ` set (rs ! j')))"

definition adv_inv ::
  "('f, 'c) libs \<Rightarrow> nat \<Rightarrow> (bytes \<rightharpoonup> bytes) \<Rightarrow> nat \<Rightarrow> entry list list \<Rightarrow> nat \<Rightarrow> ('f, 'c) merger \<Rightarrow>
   bytes option \<Rightarrow> nat option \<Rightarrow> entry list list \<Rightarrow> bool" where
  "adv_inv L I M cid rs i m pk pi rs' \<longleftrightarrow>
     mg_inv L I M cid m rs' \<and> length rs' = length rs \<and> i \<le> length rs \<and> (\<forall>j \<ge> i. rs' ! j = rs ! j) \<and>
     (case pk of
        None \<Rightarrow> pi = None \<and> (\<forall>j < i. rs ! j = [] \<and> rs' ! j = [])
      | Some p \<Rightarrow> \<exists>q v a. pi = Some q \<and> q < i \<and> rs ! q = (p, v) # rs' ! q \<and>
          it_pos L I M (mg_iters m ! q) (a @ [(p, v)]) (rs' ! q) \<and>
          (\<forall>j < i. j \<noteq> q \<longrightarrow> passed p q rs rs' j))"

text \<open>One round of the loop.\<close>

lemma adv_step_end:
  assumes a: "adv_inv L I M cid rs i m pk pi rs'" and i: "i < length rs" and r: "rs ! i = []"
  shows "\<exists>m1. step_at (ti_advance L) m i = Some (False, m1) \<and> adv_inv L I M cid rs (Suc i) m1 pk pi rs'"
proof -
  have m: "mg_inv L I M cid m rs'" and i': "i < length rs'" and ri: "rs' ! i = []"
    using a i r by (auto simp: adv_inv_def)
  obtain m1 where m1: "step_at (ti_advance L) m i = Some (False, m1)" "mg_inv L I M cid m1 rs'"
    "\<And>j. j \<noteq> i \<Longrightarrow> mg_iters m1 ! j = mg_iters m ! j"
    using step_advance_end [OF m i' ri] by blast
  have "passed p q rs rs' i" for p q using r ri by (simp add: passed_def)
  with a i r m1 have "adv_inv L I M cid rs (Suc i) m1 pk pi rs'"
    by (fastforce simp: adv_inv_def less_Suc_eq split: option.splits)
  with m1(1) show ?thesis by blast
qed

lemma adv_step:
  assumes a: "adv_inv L I M cid rs i m pk pi rs'" and i: "i < length rs" and r: "rs ! i = (nk, v) # r"
  shows "\<exists>m1 b. step_at (ti_advance L) m i = Some (True, m1) \<and> key_at m1 i = Some nk \<and>
     mg_inv L I M cid m1 (rs'[i := r]) \<and> it_pos L I M (mg_iters m1 ! i) (b @ [(nk, v)]) r \<and>
     (\<forall>j. j \<noteq> i \<longrightarrow> mg_iters m1 ! j = mg_iters m ! j)"
proof -
  have m: "mg_inv L I M cid m rs'" and i': "i < length rs'" and ri: "rs' ! i = (nk, v) # r"
    using a i r by (auto simp: adv_inv_def)
  from step_advance [OF m i' ri] show ?thesis by auto
qed

lemma adv_first:
  assumes a: "adv_inv L I M cid rs i m None pi rs'" and i: "i < length rs" and r: "rs ! i = (nk, v) # r"
    and m1: "mg_inv L I M cid m1 (rs'[i := r])" "it_pos L I M (mg_iters m1 ! i) (b @ [(nk, v)]) r"
  shows "adv_inv L I M cid rs (Suc i) m1 (Some nk) (Some i) (rs'[i := r])"
proof -
  have len: "length rs' = length rs" and j: "\<And>j. j < i \<Longrightarrow> rs ! j = [] \<and> rs' ! j = []"
    and later: "\<And>j. i \<le> j \<Longrightarrow> rs' ! j = rs ! j"
    using a by (auto simp: adv_inv_def)
  have "passed nk i rs (rs'[i := r]) j" if "j < Suc i" "j \<noteq> i" for j
    using j [of j] that by (simp add: passed_def)
  with m1 len later i r show ?thesis by (auto simp: adv_inv_def)
qed

lemma adv_SomeD:
  assumes "adv_inv L I M cid rs i m (Some p) pi rs'"
  shows "\<exists>q v a. pi = Some q \<and> q < i \<and> rs ! q = (p, v) # rs' ! q \<and>
    it_pos L I M (mg_iters m ! q) (a @ [(p, v)]) (rs' ! q) \<and> (\<forall>j < i. j \<noteq> q \<longrightarrow> passed p q rs rs' j) \<and>
    length rs' = length rs \<and> (\<forall>j \<ge> i. rs' ! j = rs ! j) \<and> i \<le> length rs"
  using assms by (auto simp: adv_inv_def)

lemma passed_mono:
  assumes "passed p q rs rs' j" "nk < p" "rs'' ! j = rs' ! j"
  shows "passed nk q' rs rs'' j"
  using assms(1) unfolding passed_def
proof
  assume "rs' ! j = rs ! j \<and> (\<forall>e \<in> set (rs ! j). p < fst e)"
  then have "rs'' ! j = rs ! j \<and> (\<forall>e \<in> set (rs ! j). nk < fst e)"
    using assms(2,3) by (auto intro: order.strict_trans)
  then show "rs'' ! j = rs ! j \<and> (\<forall>e \<in> set (rs ! j). nk < fst e) \<or>
      (\<exists>k v. rs ! j = (k, v) # rs'' ! j \<and> (if j < q' then nk < k else nk \<le> k) \<and> (\<exists>j' < j. k \<in> fst ` set (rs ! j')))" ..
next
  assume "\<exists>k v. rs ! j = (k, v) # rs' ! j \<and> (if j < q then p < k else p \<le> k) \<and> (\<exists>j' < j. k \<in> fst ` set (rs ! j'))"
  then obtain k v j' where k: "rs ! j = (k, v) # rs' ! j" "p \<le> k" "j' < j" "k \<in> fst ` set (rs ! j')"
    by (metis order_less_imp_le)
  then have "nk < k" using assms(2) by order
  with k assms(3) show "rs'' ! j = rs ! j \<and> (\<forall>e \<in> set (rs ! j). nk < fst e) \<or>
      (\<exists>k v. rs ! j = (k, v) # rs'' ! j \<and> (if j < q' then nk < k else nk \<le> k) \<and> (\<exists>j' < j. k \<in> fst ` set (rs ! j')))"
    by auto
qed

lemma adv_smaller:
  assumes a: "adv_inv L I M cid rs i m (Some p) (Some q) rs'" and i: "i < length rs"
    and r: "rs ! i = (nk, v) # r" and so: "\<forall>r \<in> set rs. sorted_kv r" and lt: "nk < p"
    and m1: "mg_inv L I M cid m1 (rs'[i := r])" "it_pos L I M (mg_iters m1 ! i) (b @ [(nk, v)]) r"
      "\<And>j. j \<noteq> i \<Longrightarrow> mg_iters m1 ! j = mg_iters m ! j"
  shows "\<exists>x m2 rs''. step_at (ti_prev L) m1 q = Some (x, m2) \<and>
     adv_inv L I M cid rs (Suc i) m2 (Some nk) (Some i) rs''"
proof -
  obtain w c where q: "q < i" "rs ! q = (p, w) # rs' ! q" "it_pos L I M (mg_iters m ! q) (c @ [(p, w)]) (rs' ! q)"
    "\<And>j. j < i \<Longrightarrow> j \<noteq> q \<Longrightarrow> passed p q rs rs' j" "length rs' = length rs" "\<And>j. i \<le> j \<Longrightarrow> rs' ! j = rs ! j"
    using adv_SomeD [OF a] by auto
  have ql: "q < length (rs'[i := r])" using q(1,5) i by simp
  have "it_pos L I M (mg_iters m1 ! q) (c @ [(p, w)]) (rs' ! q)" using q(1,3) m1(3) by simp
  from step_prev [OF m1(1) ql this] obtain x m2 where m2: "step_at (ti_prev L) m1 q = Some (x, m2)"
    "mg_inv L I M cid m2 (rs'[i := r, q := (p, w) # rs' ! q])"
    "\<And>j. j \<noteq> q \<Longrightarrow> mg_iters m2 ! j = mg_iters m1 ! j" by blast
  let ?rs = "rs'[i := r, q := (p, w) # rs' ! q]"
  have qi: "?rs ! i = r" "?rs ! q = rs ! q" using q i by auto
  have "passed nk i rs ?rs j" if "j < Suc i" "j \<noteq> i" for j
  proof (cases "j = q")
    case True
    have "sorted_kv (rs ! q)" using so q(1) i by simp
    then have "\<forall>e \<in> set (rs ! q). nk < fst e" using lt q(2) by (auto intro: order.strict_trans)
    with True qi(2) show ?thesis by (simp add: passed_def)
  next
    case False
    with passed_mono [OF q(4) lt] that show ?thesis by simp
  qed
  moreover have "it_pos L I M (mg_iters m2 ! i) (b @ [(nk, v)]) (?rs ! i)" using m1(2) m2(3) q(1) qi by simp
  ultimately have "adv_inv L I M cid rs (Suc i) m2 (Some nk) (Some i) ?rs"
    using m2(2) q(1,5,6) i r qi by (auto simp: adv_inv_def)
  with m2(1) show ?thesis by blast
qed

lemma adv_larger:
  assumes a: "adv_inv L I M cid rs i m (Some p) pi rs'" and i: "i < length rs"
    and r: "rs ! i = (nk, v) # r" and so: "\<forall>r \<in> set rs. sorted_kv r" and lt: "p < nk"
    and m1: "mg_inv L I M cid m1 (rs'[i := r])" "it_pos L I M (mg_iters m1 ! i) (b @ [(nk, v)]) r"
      "\<And>j. j \<noteq> i \<Longrightarrow> mg_iters m1 ! j = mg_iters m ! j"
  shows "\<exists>x m2 rs''. step_at (ti_prev L) m1 i = Some (x, m2) \<and> adv_inv L I M cid rs (Suc i) m2 (Some p) pi rs''"
proof -
  obtain q w c where q: "pi = Some q" "q < i" "rs ! q = (p, w) # rs' ! q" "it_pos L I M (mg_iters m ! q) (c @ [(p, w)]) (rs' ! q)"
    "\<And>j. j < i \<Longrightarrow> j \<noteq> q \<Longrightarrow> passed p q rs rs' j" "length rs' = length rs" "\<And>j. i \<le> j \<Longrightarrow> rs' ! j = rs ! j"
    using adv_SomeD [OF a] by auto
  have il: "i < length (rs'[i := r])" using q(6) i by simp
  from step_prev [OF m1(1) il m1(2)] obtain x m2 where m2: "step_at (ti_prev L) m1 i = Some (x, m2)"
    "mg_inv L I M cid m2 (rs'[i := r, i := (nk, v) # r])"
    "\<And>j. j \<noteq> i \<Longrightarrow> mg_iters m2 ! j = mg_iters m1 ! j" by blast
  have eq: "rs'[i := r, i := (nk, v) # r] = rs'" using q(7) [of i] r by (metis list_update_id list_update_overwrite order_refl)
  have "sorted_kv (rs ! i)" using so i by simp
  then have "\<forall>e \<in> set (rs ! i). p < fst e" using lt r by (auto intro: order.strict_trans)
  then have "passed p q rs rs' i" using q(7) by (simp add: passed_def)
  then have "adv_inv L I M cid rs (Suc i) m2 (Some p) pi rs'"
    using m2(2,3) m1(3) q i unfolding eq by (auto simp: adv_inv_def less_Suc_eq)
  with m2(1) show ?thesis by blast
qed

lemma adv_equal:
  assumes a: "adv_inv L I M cid rs i m (Some p) pi rs'" and i: "i < length rs" and r: "rs ! i = (p, v) # r"
    and m1: "mg_inv L I M cid m1 (rs'[i := r])" "\<And>j. j \<noteq> i \<Longrightarrow> mg_iters m1 ! j = mg_iters m ! j"
  shows "adv_inv L I M cid rs (Suc i) m1 (Some p) pi (rs'[i := r])"
proof -
  obtain q w c where q: "pi = Some q" "q < i" "rs ! q = (p, w) # rs' ! q" "it_pos L I M (mg_iters m ! q) (c @ [(p, w)]) (rs' ! q)"
    "\<And>j. j < i \<Longrightarrow> j \<noteq> q \<Longrightarrow> passed p q rs rs' j" "length rs' = length rs" "\<And>j. i \<le> j \<Longrightarrow> rs' ! j = rs ! j"
    using adv_SomeD [OF a] by auto
  have "passed p q rs (rs'[i := r]) i"
    using r q(2,3,6) i by (auto simp: passed_def intro!: exI [of _ q])
  moreover have "passed p q rs (rs'[i := r]) j" if "j < i" "j \<noteq> q" for j
    using q(5) [OF that] that by (simp add: passed_def)
  ultimately show ?thesis using m1 q i by (auto simp: adv_inv_def less_Suc_eq)
qed

lemma advance_from_ok:
  assumes so: "\<forall>r \<in> set rs. sorted_kv r"
  shows "adv_inv L I M cid rs i m pk pi rs' \<Longrightarrow> i + n = length rs \<Longrightarrow>
    \<exists>pk' pi' m' rs''. mg_advance_from L n i m pk pi = Some (pk', pi', m') \<and>
      adv_inv L I M cid rs (length rs) m' pk' pi' rs''"
proof (induction n arbitrary: i m pk pi rs')
  case 0
  then show ?case by auto
next
  case (Suc n)
  then have i: "i < length rs" and n: "Suc i + n = length rs" by simp_all
  show ?case
  proof (cases "rs ! i")
    case Nil
    obtain m1 where m1: "step_at (ti_advance L) m i = Some (False, m1)" "adv_inv L I M cid rs (Suc i) m1 pk pi rs'"
      using adv_step_end [OF Suc.prems(1) i Nil] by blast
    with Suc.IH [OF m1(2) n] show ?thesis by simp
  next
    case (Cons e r)
    obtain nk v where e: "e = (nk, v)" by fastforce
    note r = Cons [unfolded e]
    obtain m1 b where m1: "step_at (ti_advance L) m i = Some (True, m1)" "key_at m1 i = Some nk"
      "mg_inv L I M cid m1 (rs'[i := r])" "it_pos L I M (mg_iters m1 ! i) (b @ [(nk, v)]) r"
      "\<And>j. j \<noteq> i \<Longrightarrow> mg_iters m1 ! j = mg_iters m ! j"
      using adv_step [OF Suc.prems(1) i r] by blast
    show ?thesis
    proof (cases pk)
      case None
      from Suc.IH [OF adv_first [OF Suc.prems(1) [unfolded None] i r m1(3,4)] n] m1(1,2) None show ?thesis by simp
    next
      case (Some p)
      obtain q where q: "pi = Some q" using adv_SomeD [OF Suc.prems(1) [unfolded Some]] by blast
      note a = Suc.prems(1) [unfolded Some]
      consider "nk < p" | "p < nk" | "p = nk" by force
      then show ?thesis
      proof cases
        case 1
        obtain x m2 rs2 where m2: "step_at (ti_prev L) m1 q = Some (x, m2)"
          "adv_inv L I M cid rs (Suc i) m2 (Some nk) (Some i) rs2"
          using adv_smaller [OF a [unfolded q] i r so 1 m1(3-5)] by blast
        with Suc.IH [OF m2(2) n] m1(1,2) Some 1 q show ?thesis by simp
      next
        case 2
        obtain x m2 rs2 where m2: "step_at (ti_prev L) m1 i = Some (x, m2)"
          "adv_inv L I M cid rs (Suc i) m2 (Some p) pi rs2"
          using adv_larger [OF a i r so 2 m1(3-5)] by blast
        with Suc.IH [OF m2(2) n] m1(1,2) Some 2 show ?thesis by (simp add: order_less_not_sym)
      next
        case 3
        have "adv_inv L I M cid rs (Suc i) m1 (Some p) pi (rs'[i := r])"
          using adv_equal [OF a i r [folded 3] m1(3,5)] by simp
        with Suc.IH [OF this n] m1(1,2) Some 3 show ?thesis by simp
      qed
    qed
  qed
qed

lemma strips_indexed:
  "length rs' = length rs \<Longrightarrow>
   (\<And>j. j < length rs \<Longrightarrow> rs' ! j = rs ! j \<or>
      (\<exists>k v. rs ! j = (k, v) # rs' ! j \<and> (k = p \<or> k \<in> A \<or> (\<exists>j' < j. k \<in> fst ` set (rs ! j'))))) \<Longrightarrow>
   strips p A rs rs'"
proof (induction rs arbitrary: rs' A)
  case Nil
  then show ?case by (simp add: strips.intros)
next
  case (Cons r rs)
  then obtain r' rs1 where rs': "rs' = r' # rs1" by (cases rs') auto
  have "strips p (A \<union> fst ` set r) rs rs1"
  proof (rule Cons.IH)
    show "length rs1 = length rs" using Cons.prems(1) rs' by simp
    fix j assume j: "j < length rs"
    from Cons.prems(2) [of "Suc j"] j rs'
    consider "rs1 ! j = rs ! j" | k v where "rs ! j = (k, v) # rs1 ! j" "k = p \<or> k \<in> A \<or> (\<exists>j' < Suc j. k \<in> fst ` set ((r # rs) ! j'))"
      by auto
    then show "rs1 ! j = rs ! j \<or> (\<exists>k v. rs ! j = (k, v) # rs1 ! j \<and>
        (k = p \<or> k \<in> A \<union> fst ` set r \<or> (\<exists>j' < j. k \<in> fst ` set (rs ! j'))))"
    proof cases
      case (2 k v)
      have "k = p \<or> k \<in> A \<union> fst ` set r \<or> (\<exists>j' < j. k \<in> fst ` set (rs ! j'))"
        using 2(2) unfolding less_Suc_eq_0_disj by (metis UnCI nth_Cons_0 nth_Cons_Suc)
      with 2(1) show ?thesis by blast
    qed blast
  qed
  moreover have "r' = r \<or> (\<exists>k v. r = (k, v) # r' \<and> (k \<in> A \<or> k = p))"
    using Cons.prems(2) [of 0] rs' by auto
  ultimately show ?case using rs' by (auto intro: strips.intros)
qed

lemma first_hit_at:
  "q < length rs \<Longrightarrow> map_of (rs ! q) p = Some v \<Longrightarrow> (\<And>j. j < q \<Longrightarrow> map_of (rs ! j) p = None) \<Longrightarrow>
   first_hit rs p = Some v"
proof (induction rs arbitrary: q)
  case (Cons r rs)
  show ?case
  proof (cases q)
    case (Suc q')
    have "map_of r p = None" using Cons.prems(3) [of 0] Suc by simp
    moreover have "first_hit rs p = Some v"
      using Cons.prems Suc by (intro Cons.IH [of q']) fastforce+
    ultimately show ?thesis by simp
  qed (use Cons.prems in simp)
qed simp

text \<open>\<open>advance\<close> moves to the next entry of the merge.\<close>

lemma mg_advance_end:
  assumes m: "mg_inv L I M cid m rs" and e: "\<forall>r \<in> set rs. r = []"
  shows "\<exists>m'. mg_advance L m = Some (False, m') \<and> mg_inv L I M cid m' rs"
proof -
  have so: "\<forall>r \<in> set rs. sorted_kv r" using e by auto
  have "adv_inv L I M cid rs 0 m None None rs" using m by (simp add: adv_inv_def)
  from advance_from_ok [OF so this, of "length rs"] obtain pk pi m' rs' where
    r: "mg_advance_from L (length rs) 0 m None None = Some (pk, pi, m')" "adv_inv L I M cid rs (length rs) m' pk pi rs'"
    by auto
  have pk: "pk = None"
  proof (rule ccontr)
    assume "pk \<noteq> None"
    then obtain p where "pk = Some p" by auto
    then obtain q v where "q < length rs" "rs ! q = (p, v) # rs' ! q" using adv_SomeD r(2) by blast
    with e show False by (metis list.distinct(1) nth_mem)
  qed
  have "length rs' = length rs" "\<forall>j < length rs. rs ! j = [] \<and> rs' ! j = []"
    using r(2) pk by (auto simp: adv_inv_def)
  then have "rs' = rs" by (metis nth_equalityI)
  moreover have "mg_inv L I M cid (m'\<lparr>mg_i := pi\<rparr>) rs'" using r(2) by (simp add: adv_inv_def mg_inv_def)
  ultimately show ?thesis using r(1) pk mg_inv_length [OF m] by (auto simp: mg_advance_def)
qed

lemma mg_advance_step:
  assumes m: "mg_inv L I M cid m rs" and ne: "\<exists>r \<in> set rs. r \<noteq> []"
  shows "\<exists>m' rs' e. mg_advance L m = Some (True, m') \<and> mg_inv L I M cid m' rs' \<and> merge_all rs = e # merge_all rs' \<and>
     ss_current_kv mg_valid mg_current_k mg_current_v m' = Some (Some e)"
proof -
  have so: "\<forall>r \<in> set rs. sorted_kv r" using m by (auto dest: mg_inv_sorted)
  have "adv_inv L I M cid rs 0 m None None rs" using m by (simp add: adv_inv_def)
  from advance_from_ok [OF so this, of "length rs"] obtain pk pi m' rs' where
    r: "mg_advance_from L (length rs) 0 m None None = Some (pk, pi, m')" "adv_inv L I M cid rs (length rs) m' pk pi rs'"
    by auto
  have "pk \<noteq> None"
  proof
    assume "pk = None"
    then have "\<forall>j < length rs. rs ! j = []" using r(2) by (simp add: adv_inv_def)
    with ne show False by (metis in_set_conv_nth)
  qed
  then obtain p where p: "pk = Some p" by auto
  obtain q v a where q: "pi = Some q" "q < length rs" "rs ! q = (p, v) # rs' ! q"
    "it_pos L I M (mg_iters m' ! q) (a @ [(p, v)]) (rs' ! q)"
    "\<And>j. j < length rs \<Longrightarrow> j \<noteq> q \<Longrightarrow> passed p q rs rs' j" "length rs' = length rs"
    using adv_SomeD [OF r(2) [unfolded p]] by auto
  have m': "mg_inv L I M cid m' rs'" using r(2) by (simp add: adv_inv_def)
  have so': "\<forall>r \<in> set rs'. sorted_kv r" using mg_inv_sorted [OF m'] by blast
  have st: "strips p {} rs rs'"
  proof (rule strips_indexed [OF q(6)])
    fix j assume j: "j < length rs"
    show "rs' ! j = rs ! j \<or> (\<exists>k v. rs ! j = (k, v) # rs' ! j \<and>
        (k = p \<or> k \<in> {} \<or> (\<exists>j' < j. k \<in> fst ` set (rs ! j'))))"
    proof (cases "j = q")
      case True
      with q(3) show ?thesis by blast
    next
      case False
      from q(5) [OF j False] show ?thesis unfolding passed_def by blast
    qed
  qed
  have gt: "\<forall>e \<in> set (rs' ! j). p < fst e" if j: "j < length rs" for j
  proof -
    have s: "sorted_kv (rs ! j)" using so j by simp
    show ?thesis
    proof (cases "j = q")
      case True
      with s q(3) show ?thesis by auto
    next
      case False
      from q(5) [OF j False] show ?thesis
        unfolding passed_def
      proof
        assume "\<exists>k v. rs ! j = (k, v) # rs' ! j \<and> (if j < q then p < k else p \<le> k) \<and> (\<exists>j' < j. k \<in> fst ` set (rs ! j'))"
        then obtain k v where k: "rs ! j = (k, v) # rs' ! j" "p \<le> k" by (metis order_less_imp_le)
        with s show ?thesis by (auto intro: order.strict_trans1)
      qed simp
    qed
  qed
  have "first_hit rs p = Some v"
  proof (rule first_hit_at [OF q(2)])
    show "map_of (rs ! q) p = Some v" using q(3) by simp
    fix j assume j: "j < q"
    then have jl: "j < length rs" using q(2) by simp
    from q(5) [OF jl] j have "\<forall>e \<in> set (rs ! j). p < fst e"
      using gt [OF jl] by (auto simp: passed_def)
    then show "map_of (rs ! j) p = None" by (auto simp: map_of_eq_None_iff)
  qed
  moreover have "\<forall>r \<in> set rs'. \<forall>e \<in> set r. p < fst e" using gt q(6) by (metis in_set_conv_nth)
  ultimately have eq: "merge_all rs = (p, v) # merge_all rs'" by (rule merge_all_Cons [OF st so so'])
  obtain bs cid' where tp: "ti_pos L I M (fst (mg_iters m' ! q)) bs cid' (snd (mg_iters m' ! q)) (a @ (p, v) # rs' ! q) (Suc (length a))"
    using q(4) by (auto simp: it_pos_def)
  note cur = ti.current [OF tp ti_pos_facts(1) [OF tp]]
  have "mg_iters m' ! q \<in> set (mg_iters m')" using q(2,6) mg_inv_length [OF m'] by simp
  with cur have "ss_current_kv mg_valid mg_current_k mg_current_v (m'\<lparr>mg_i := pi\<rparr>) = Some (Some (p, v))"
    by (auto simp: ss_current_kv_def mg_valid_def mg_current_k_def mg_current_v_def q(1) list_ex_iff)
  moreover have "mg_inv L I M cid (m'\<lparr>mg_i := pi\<rparr>) rs'" using m' by (simp add: mg_inv_def)
  ultimately show ?thesis using r(1) p eq mg_inv_length [OF m] by (auto simp: mg_advance_def)
qed

lemma merge_all_Nil: "(\<forall>r \<in> set rs. r = []) \<Longrightarrow> merge_all rs = []"
  by (simp add: merge_all_def concat_eq_Nil_conv [THEN iffD2])

lemma mg_next_ok:
  assumes m: "mg_inv L I M cid m rs"
  shows "\<exists>m' rs'. mg_next L m = Some ((case merge_all rs of [] \<Rightarrow> None | e # _ \<Rightarrow> Some e), m') \<and>
     mg_inv L I M cid m' rs' \<and> merge_all rs' = tl (merge_all rs)"
proof (cases "\<forall>r \<in> set rs. r = []")
  case True
  with mg_advance_end [OF m True] merge_all_Nil [OF True] show ?thesis
    by (auto simp: mg_next_def ss_next_def)
next
  case False
  then obtain m' rs' e where "mg_advance L m = Some (True, m')" "mg_inv L I M cid m' rs'"
    "merge_all rs = e # merge_all rs'" "ss_current_kv mg_valid mg_current_k mg_current_v m' = Some (Some e)"
    using mg_advance_step [OF m] by blast
  then show ?thesis by (auto simp: mg_next_def ss_next_def)
qed

end
