(* ===== verification/Data_Manager.thy ===== *)
theory Data_Manager
  imports Table_Set Wal Merger
begin

text \<open>
  The data manager (\<open>mirdb-server/src/data_manager.rs\<close>): writes go to the log and to the
  mutable memtable; full memtables become immutable; the minor compaction turns those into
  tables of level 0, the major compaction merges a level into the next one; recovery turns the
  segments of the log into tables.

  The state holds, beside the fields of the struct, what its parts share: the files of the
  working directory, the block cache, and the seeds of the skip lists to come.  A call that
  takes its locks more than once is split where it lets them go.
\<close>

record ('f, 'c) data_manager =
  dm_mut :: "(bytes, bytes) memtable"
  dm_imm :: "(bytes, bytes) memtable_list"
  dm_readers :: "'f sstable_reader"
  dm_wal :: wal
  dm_opt :: server_options
  dm_next_file_number :: nat
  dm_last_compact_keys :: "bytes list"
  dm_fs :: fs
  dm_cache :: "'c cache"
  dm_rngs :: "nat stream stream"

text \<open>\<open>unwrap\<close> on a result.\<close>

definition unwrap :: "(status, 'a) fallible \<Rightarrow> 'a option" where
  "unwrap m = (case m of Some (Inr x) \<Rightarrow> Some x | _ \<Rightarrow> None)"

definition mt_build_sstable ::
  "('f, 'c) server_libs \<Rightarrow> (bytes, bytes) memtable \<Rightarrow> server_options \<Rightarrow> string \<Rightarrow> fs \<Rightarrow> 'c cache \<Rightarrow>
   (status, (string \<times> 'f table_reader) option \<times> fs \<times> 'c cache) fallible" where
  "mt_build_sstable S t opt path d c = skiplist_to_sstable S (mt_map t) opt path d c"

definition seg_build_sstable ::
  "('f, 'c) server_libs \<Rightarrow> nat stream \<Rightarrow> wal_seg \<Rightarrow> server_options \<Rightarrow> string \<Rightarrow> fs \<Rightarrow> 'c cache \<Rightarrow>
   (status, (string \<times> 'f table_reader) option \<times> fs \<times> 'c cache) fallible" where
  "seg_build_sstable S rng s opt path d c =
     tryO (to_skiplist (tlibs S) (mem_table_max_height opt) rng s d) (\<lambda>m.
       skiplist_to_sstable S m opt path d c)"

subsection \<open>Recovery\<close>

text \<open>The threads of \<open>redo\<close> build one table each, from their own segment to their own file.\<close>

fun redo_build ::
  "('f, 'c) server_libs \<Rightarrow> server_options \<Rightarrow> wal_seg list \<Rightarrow> nat \<Rightarrow> fs \<Rightarrow> 'c cache \<Rightarrow> nat stream stream \<Rightarrow>
   (string list \<times> nat \<times> fs \<times> 'c cache \<times> nat stream stream) option" where
  "redo_build S opt [] n d c rngs = Some ([], n, d, c, rngs)"
| "redo_build S opt (s # ss) n d c rngs = do {
     let path = make_file_name n ''sst'';
     let (s', d1) = seg_clone s d;
     (r, d2, c2) \<leftarrow> unwrap (seg_build_sstable S (shd rngs) s' opt path d1 c);
     (ps, n', d3, c3, rngs') \<leftarrow> redo_build S opt ss (n + 1) d2 c2 (stl rngs);
     Some ((case r of None \<Rightarrow> ps | Some _ \<Rightarrow> path # ps), n', d3, c3, rngs')
   }"

fun redo_open ::
  "('f, 'c) server_libs \<Rightarrow> server_options \<Rightarrow> string list \<Rightarrow> fs \<Rightarrow> 'c cache \<Rightarrow>
   ('f table_reader list \<times> 'c cache) option" where
  "redo_open S opt [] d c = Some ([], c)"
| "redo_open S opt (p # ps) d c = do {
     (r, c1) \<leftarrow> unwrap (open_table S opt p d c);
     (rs, c2) \<leftarrow> redo_open S opt ps d c1;
     Some (r # rs, c2)
   }"

fun delete_segs :: "wal_seg list \<Rightarrow> fs \<Rightarrow> status + fs" where
  "delete_segs [] d = Inr d"
| "delete_segs (s # ss) d = (case seg_delete s d of Inl e \<Rightarrow> Inl e | Inr d' \<Rightarrow> delete_segs ss d')"

definition redo ::
  "('f, 'c) server_libs \<Rightarrow> ('f, 'c) data_manager \<Rightarrow> (status, ('f, 'c) data_manager) fallible" where
  "redo S dm =
     (if seg_count (dm_wal dm) = 0 then Some (Inr dm)
      else do {
        (ps, n, d1, c1, rngs) \<leftarrow>
          redo_build S (dm_opt dm) (segs (dm_wal dm)) (dm_next_file_number dm) (dm_fs dm) (dm_cache dm) (dm_rngs dm);
        (rs, c2) \<leftarrow> redo_open S (dm_opt dm) ps d1 c1;
        tryO (add_readers S (dm_readers dm) 0 rs d1) (\<lambda>(sr, d2).
          tryO (Some (delete_segs (segs (dm_wal dm)) d2)) (\<lambda>d3. do {
            (w, d4) \<leftarrow> wal_new (glob_wal S) d3;
            if seg_count w = 0
            then Some (Inr (dm\<lparr>dm_readers := sr, dm_wal := w, dm_next_file_number := n, dm_fs := d4,
                               dm_cache := c2, dm_rngs := rngs\<rparr>))
            else None
          }))
      })"

definition dm_new ::
  "('f, 'c) server_libs \<Rightarrow> server_options \<Rightarrow> fs \<Rightarrow> 'c cache \<Rightarrow> nat stream stream \<Rightarrow>
   (status, ('f, 'c) data_manager) fallible" where
  "dm_new S opt d c rngs =
     tryO (sr_new S opt d c) (\<lambda>(sr, c1). do {
       n \<leftarrow> mfb_next_file_number (sr_manifest sr);
       (w, d1) \<leftarrow> wal_new (glob_wal S) d;
       redo S \<lparr>dm_mut = mt_new (mem_table_max_size opt) (mem_table_max_height opt) (shd rngs),
               dm_imm = ml_new (imm_mem_table_max_count opt) (mem_table_max_size opt) (mem_table_max_height opt),
               dm_readers = sr, dm_wal = w, dm_opt = opt, dm_next_file_number = n,
               dm_last_compact_keys = [], dm_fs = d1, dm_cache = c1, dm_rngs = stl rngs\<rparr>
     })"

subsection \<open>Reading and writing\<close>

text \<open>Keys and values of the memtables are slices, which own a buffer.\<close>

definition slice_glue :: glue where
  "slice_glue = \<lparr>key_glue = True, value_glue = True\<rparr>"

definition insert_raw ::
  "('f, 'c) server_libs \<Rightarrow> ('f, 'c) data_manager \<Rightarrow> bytes \<Rightarrow> bytes \<Rightarrow>
   (status, bytes option \<times> ('f, 'c) data_manager) fallible" where
  "insert_raw S dm k v =
     tryO (wal_append (tlibs S) (dm_wal dm) k v (dm_fs dm)) (\<lambda>(w, d). do {
       (r, mut) \<leftarrow> mt_insert (dm_mut dm) k v;
       if current_seg_size w \<ge> mem_table_max_size (dm_opt dm) then do {
         copied \<leftarrow> mt_clone mut (shd (dm_rngs dm));
         mut' \<leftarrow> mt_clear slice_glue mut;
         let (w', d') = new_seg w d;
         Some (Inr (r, dm\<lparr>dm_wal := w', dm_fs := d', dm_mut := mut', dm_imm := ml_add (dm_imm dm) copied,
                          dm_rngs := stl (dm_rngs dm)\<rparr>))
       }
       else Some (Inr (r, dm\<lparr>dm_wal := w, dm_fs := d, dm_mut := mut\<rparr>))
     })"

definition insert_with_option ::
  "('f, 'c) server_libs \<Rightarrow> ('f, 'c) data_manager \<Rightarrow> bytes \<Rightarrow> store_payload option \<Rightarrow>
   (status, store_payload option \<times> ('f, 'c) data_manager) fallible" where
  "insert_with_option S dm k v =
     (case serialize_value S v of
        Inl e \<Rightarrow> Some (Inl (from_bincode e))
      | Inr encoded_v \<Rightarrow>
          tryO (insert_raw S dm k encoded_v) (\<lambda>(r, dm'). Some (Inr (Option.bind r (\<lambda>_. v), dm'))))"

definition dm_insert ::
  "('f, 'c) server_libs \<Rightarrow> ('f, 'c) data_manager \<Rightarrow> bytes \<Rightarrow> store_payload \<Rightarrow>
   (status, store_payload option \<times> ('f, 'c) data_manager) fallible" where
  "dm_insert S dm k v = insert_with_option S dm k (Some v)"

definition dm_get ::
  "('f, 'c) server_libs \<Rightarrow> ('f, 'c) data_manager \<Rightarrow> bytes \<Rightarrow>
   (status, store_payload option \<times> ('f, 'c) data_manager) fallible" where
  "dm_get S dm k = do {
     r1 \<leftarrow> mt_get (dm_mut dm) k;
     r \<leftarrow> (if r1 = None then ml_get (dm_imm dm) k else Some r1);
     case r of
       Some b \<Rightarrow>
         (case deserialize_value S b of
            Inl e \<Rightarrow> Some (Inl (from_bincode e))
          | Inr v \<Rightarrow> Some (Inr (v, dm)))
     | None \<Rightarrow> do {
         (x, sr, c) \<leftarrow> sr_get S (dm_readers dm) (dm_cache dm) k;
         let dm' = dm\<lparr>dm_readers := sr, dm_cache := c\<rparr>;
         case x of
           None \<Rightarrow> Some (Inr (None, dm'))
         | Some b \<Rightarrow>
             (case deserialize_value S b of
                Inl _ \<Rightarrow> None
              | Inr v \<Rightarrow> Some (Inr (v, dm')))
       }
   }"

definition dm_remove ::
  "('f, 'c) server_libs \<Rightarrow> ('f, 'c) data_manager \<Rightarrow> bytes \<Rightarrow>
   (status, store_payload option \<times> ('f, 'c) data_manager) fallible" where
  "dm_remove S dm k =
     tryO (dm_get S dm k) (\<lambda>(r, dm1).
       if r \<noteq> None then tryO (insert_with_option S dm1 k None) (\<lambda>(_, dm2). Some (Inr (r, dm2)))
       else Some (Inr (r, dm1)))"

definition dm_info :: "('f, 'c) data_manager \<Rightarrow> string option" where
  "dm_info dm = mfb_to_string (sr_manifest (dm_readers dm))"

subsection \<open>The minor compaction\<close>

definition new_file_number :: "('f, 'c) data_manager \<Rightarrow> nat \<times> ('f, 'c) data_manager" where
  "new_file_number dm =
     (dm_next_file_number dm, dm\<lparr>dm_next_file_number := dm_next_file_number dm + 1\<rparr>)"

text \<open>The table of one memtable, and the end of its log segment.\<close>

definition minor_one ::
  "('f, 'c) server_libs \<Rightarrow> (bytes, bytes) memtable \<Rightarrow> ('f, 'c) data_manager \<Rightarrow>
   (status, ('f, 'c) data_manager) fallible" where
  "minor_one S t dm0 =
     (let (n, dm) = new_file_number dm0; path = make_file_name n ''sst'' in
      tryO (mt_build_sstable S t (dm_opt dm) path (dm_fs dm) (dm_cache dm)) (\<lambda>(r, d, c).
        tryO (case r of
                None \<Rightarrow> Some (Inr (dm_readers dm, d))
              | Some (_, reader) \<Rightarrow> sr_add S (dm_readers dm) 0 reader d) (\<lambda>(sr, d1).
          tryO (Some (consume_seg (dm_wal dm) d1)) (\<lambda>(w, d2).
            Some (Inr (dm\<lparr>dm_readers := sr, dm_wal := w, dm_fs := d2, dm_cache := c\<rparr>))))))"

fun minor_all ::
  "('f, 'c) server_libs \<Rightarrow> (bytes, bytes) memtable list \<Rightarrow> ('f, 'c) data_manager \<Rightarrow>
   (status, ('f, 'c) data_manager) fallible" where
  "minor_all S [] dm = Some (Inr dm)"
| "minor_all S (t # ts) dm = tryO (minor_one S t dm) (minor_all S ts)"

text \<open>Under the lock of the log: the \<open>c\<close> oldest memtables, oldest first.\<close>

definition minor_build ::
  "('f, 'c) server_libs \<Rightarrow> nat \<Rightarrow> ('f, 'c) data_manager \<Rightarrow> (status, ('f, 'c) data_manager) fallible" where
  "minor_build S c dm =
     (if c \<le> length (ml_tables (dm_imm dm)) then minor_all S (take c (rev (ml_tables (dm_imm dm)))) dm
      else None)"

text \<open>Under the lock of the list, after the others are gone.\<close>

fun minor_consume :: "nat \<Rightarrow> ('f, 'c) data_manager \<Rightarrow> ('f, 'c) data_manager" where
  "minor_consume 0 dm = dm"
| "minor_consume (Suc c) dm = minor_consume c (dm\<lparr>dm_imm := snd (ml_consume (dm_imm dm))\<rparr>)"

definition minor_compaction ::
  "('f, 'c) server_libs \<Rightarrow> ('f, 'c) data_manager \<Rightarrow> (status, ('f, 'c) data_manager) fallible" where
  "minor_compaction S dm =
     (let c = ml_table_count (dm_imm dm) in
      if c = 0 then Some (Inr dm)
      else tryO (minor_build S c dm) (\<lambda>dm'. Some (Inr (minor_consume c dm'))))"

subsection \<open>The major compaction\<close>

definition get_other_readers :: "bytes \<Rightarrow> bytes \<Rightarrow> 'f table_reader list \<Rightarrow> 'f table_reader list" where
  "get_other_readers min_key max_key readers =
     filter (\<lambda>x. tr_max_key x \<ge> min_key) (takeWhile (\<lambda>x. tr_min_key x \<le> max_key) readers)"

definition select_inputs0 ::
  "bytes list \<Rightarrow> nat \<Rightarrow> 'f table_reader list \<Rightarrow> 'f table_reader list option" where
  "select_inputs0 last_compact_keys level readers =
     (if level = 0 then Some (rev readers)
      else
        let last_compact_key = idx last_compact_keys level;
            inputs0 = filter (\<lambda>r. case last_compact_key of None \<Rightarrow> True | Some k \<Rightarrow> tr_max_key r > k) readers
        in if inputs0 = [] then map_option (\<lambda>r. [r]) (idx readers 0) else Some inputs0)"

definition key_range :: "'f table_reader list \<Rightarrow> (bytes \<times> bytes) option" where
  "key_range inputs =
     foldl (\<lambda>a b. case a of
        Some (mx, mn) \<Rightarrow> Some (max mx (tr_max_key b), min mn (tr_min_key b))
      | None \<Rightarrow> Some (tr_max_key b, tr_min_key b)) None inputs"

fun new_iters ::
  "('f, 'c) libs \<Rightarrow> 'c cache \<Rightarrow> 'f table_reader list \<Rightarrow> ('f table_reader \<times> 'c table_iter) list option" where
  "new_iters L c [] = Some []"
| "new_iters L c (r # rs) = do {
     it \<leftarrow> ti_new L r c;
     its \<leftarrow> new_iters L c rs;
     Some ((r, it) # its)
   }"

text \<open>The state of the merge loop.\<close>

record ('f, 'c) compaction =
  cp_merger :: "('f, 'c) merger"
  cp_table :: "'f table_builder option"
  cp_readers :: "'f table_reader list"
  cp_next :: nat
  cp_fs :: fs

text \<open>A full table is written and opened.\<close>

definition compact_close ::
  "('f, 'c) server_libs \<Rightarrow> server_options \<Rightarrow> 'f table_builder \<Rightarrow> ('f, 'c) compaction \<Rightarrow>
   (status, ('f, 'c) compaction) fallible" where
  "compact_close S opt t s =
     tryO (sst (tb_flush (tlibs S) t)) (\<lambda>t'.
       let d = fs_write (tb_path t') (tb_file t') (cp_fs s) in
       tryO (open_table S opt (tb_path t') d (mg_cache (cp_merger s))) (\<lambda>(r, c).
         Some (Inr (s\<lparr>cp_table := None, cp_readers := cp_readers s @ [r], cp_fs := d,
                      cp_merger := (cp_merger s)\<lparr>mg_cache := c\<rparr>\<rparr>))))"

definition compact_add ::
  "('f, 'c) server_libs \<Rightarrow> server_options \<Rightarrow> entry \<Rightarrow> ('f, 'c) compaction \<Rightarrow>
   (status, ('f, 'c) compaction) fallible" where
  "compact_add S opt e s0 =
     (let path = make_file_name (cp_next s0) ''sst'';
          s = (if cp_table s0 = None
               then s0\<lparr>cp_table := Some (tb_new (tlibs S) path (table_opt opt)), cp_next := cp_next s0 + 1,
                       cp_fs := fs_write path [] (cp_fs s0)\<rparr>
               else s0)
      in case cp_table s of
           None \<Rightarrow> None
         | Some t \<Rightarrow>
             tryO (sst (tb_add (tlibs S) t (fst e) (snd e))) (\<lambda>t'.
               if tb_total_size_estimate t' \<ge> sst_max_size opt then compact_close S opt t' s
               else Some (Inr (s\<lparr>cp_table := Some t'\<rparr>))))"

partial_function (option) compact_loop ::
  "('f, 'c) server_libs \<Rightarrow> server_options \<Rightarrow> ('f, 'c) compaction \<Rightarrow> (status, ('f, 'c) compaction) fallible" where
  "compact_loop S opt s =
     Option.bind (mg_next (tlibs S) (cp_merger s)) (\<lambda>(kv, m).
       let s1 = s\<lparr>cp_merger := m\<rparr> in
       case kv of
         None \<Rightarrow> Some (Inr s1)
       | Some e \<Rightarrow>
           Option.bind (compact_add S opt e s1) (\<lambda>r.
             case r of Inl x \<Rightarrow> Some (Inl x) | Inr s2 \<Rightarrow> compact_loop S opt s2))"

definition compact_tables ::
  "('f, 'c) server_libs \<Rightarrow> server_options \<Rightarrow> ('f, 'c) compaction \<Rightarrow> (status, ('f, 'c) compaction) fallible" where
  "compact_tables S opt s =
     tryO (compact_loop S opt s) (\<lambda>s1.
       case cp_table s1 of
         None \<Rightarrow> Some (Inr s1)
       | Some t \<Rightarrow> compact_close S opt t s1)"

text \<open>What the first half of the compaction leaves to the second: the level, the names of the
  inputs and the new tables.\<close>

record 'f swap =
  sw_level :: nat
  sw_names0 :: "string list"
  sw_names1 :: "string list"
  sw_readers :: "'f table_reader list"

definition size_build ::
  "('f, 'c) server_libs \<Rightarrow> nat list \<Rightarrow> ('f, 'c) data_manager \<Rightarrow>
   (status, 'f swap option \<times> ('f, 'c) data_manager) fallible" where
  "size_build S levels dm = do {
     level \<leftarrow> idx levels 0;
     if level \<ge> max_level (dm_opt dm) - 1 then Some (Inr (None, dm))
     else do {
       readers \<leftarrow> get_readers (dm_readers dm) level;
       inputs0 \<leftarrow> select_inputs0 (dm_last_compact_keys dm) level readers;
       (max_key, min_key) \<leftarrow> key_range inputs0;
       readers1 \<leftarrow> get_readers (dm_readers dm) (level + 1);
       let inputs1 = get_other_readers min_key max_key readers1;
       iters \<leftarrow> new_iters (tlibs S) (dm_cache dm) (inputs0 @ inputs1);
       tryO (compact_tables S (dm_opt dm)
               \<lparr>cp_merger = mg_new iters (dm_cache dm), cp_table = None, cp_readers = [],
                cp_next = dm_next_file_number dm, cp_fs = dm_fs dm\<rparr>) (\<lambda>s.
         Some (Inr (Some \<lparr>sw_level = level, sw_names0 = remdups (map tr_file_name inputs0),
                          sw_names1 = remdups (map tr_file_name inputs1), sw_readers = cp_readers s\<rparr>,
                    dm\<lparr>dm_next_file_number := cp_next s, dm_fs := cp_fs s,
                       dm_cache := mg_cache (cp_merger s)\<rparr>)))
     }
   }"

definition size_swap ::
  "('f, 'c) server_libs \<Rightarrow> 'f swap \<Rightarrow> ('f, 'c) data_manager \<Rightarrow> (status, ('f, 'c) data_manager) fallible" where
  "size_swap S sw dm =
     tryO (remove_by_file_names S (dm_readers dm) (sw_level sw) (sw_names0 sw) (dm_fs dm)) (\<lambda>(sr1, d1).
       tryO (remove_by_file_names S sr1 (sw_level sw + 1) (sw_names1 sw) d1) (\<lambda>(sr2, d2).
         tryO (add_readers S sr2 (sw_level sw + 1) (sw_readers sw) d2) (\<lambda>(sr3, d3).
           Some (Inr (dm\<lparr>dm_readers := sr3, dm_fs := d3\<rparr>)))))"

definition size_compaction ::
  "('f, 'c) server_libs \<Rightarrow> nat list \<Rightarrow> ('f, 'c) data_manager \<Rightarrow> (status, ('f, 'c) data_manager) fallible" where
  "size_compaction S levels dm =
     tryO (size_build S levels dm) (\<lambda>(sw, dm').
       case sw of None \<Rightarrow> Some (Inr dm') | Some w \<Rightarrow> size_swap S w dm')"

definition seek_compaction :: "('f, 'c) data_manager \<Rightarrow> (status, ('f, 'c) data_manager) fallible" where
  "seek_compaction dm = Some (Inr dm)"

definition major_compaction ::
  "('f, 'c) server_libs \<Rightarrow> ('f, 'c) data_manager \<Rightarrow> (status, ('f, 'c) data_manager) fallible" where
  "major_compaction S dm = do {
     levels \<leftarrow> compute_compaction_levels (dm_readers dm);
     if levels \<noteq> [] then size_compaction S levels dm else seek_compaction dm
   }"

end
