(* ===== verification/Levels.thy ===== *)
theory Levels
  imports Table_Set Table
begin

text \<open>
  Lookups in the tables of all levels: a reader of a well-formed file, the binary search over
  a level, and the search through the levels, which answers as the first table that has the
  key.
\<close>

subsection \<open>Readers\<close>

text \<open>A file that opens, under any name, as a table with the entries \<open>es\<close>.\<close>

definition sst_file :: "('f, 'c) libs \<Rightarrow> nat \<Rightarrow> bytes \<Rightarrow> entry list \<Rightarrow> bool" where
  "sst_file L I f es \<longleftrightarrow>
     (\<forall>name opt c. \<exists>r bs. tr_new L name f opt c = Some (Inr (r, snd (new_cache_id c))) \<and>
        table_ok L I r bs \<and> table_entries bs = es \<and> distinct (map (offset \<circ> tk_handle) bs) \<and>
        tr_cache_id r = cache_id c + 1 \<and> tr_file_name r = name)"

text \<open>A reader over the entries \<open>es\<close>, whose blocks are in \<open>M\<close> under its cache keys.\<close>

definition reader_ok ::
  "('f, 'c) libs \<Rightarrow> nat \<Rightarrow> (bytes \<rightharpoonup> bytes) \<Rightarrow> 'f table_reader \<Rightarrow> entry list \<Rightarrow> bool" where
  "reader_ok L I M r es \<longleftrightarrow>
     (\<exists>bs. table_ok L I r bs \<and> table_in L M r bs \<and> table_entries bs = es) \<and>
     zero_extension_free es \<and> sst_file L I (tr_file r) es"

lemma reader_okD:
  assumes "reader_ok L I M r es"
  shows "sorted_kv es" "es \<noteq> []" "keys_nonempty es" "tr_min_key r = fst (hd es)" "tr_max_key r = fst (last es)"
proof -
  obtain bs where bs: "table_ok L I r bs" "table_entries bs = es"
    using assms by (auto simp: reader_ok_def)
  show "sorted_kv es" "keys_nonempty es" "tr_min_key r = fst (hd es)" "tr_max_key r = fst (last es)"
    using bs by (auto simp: table_ok_def sorted_kv_def)
  obtain b where "b \<in> set bs" using table_okD(3) [OF bs(1)] by (meson last_in_set)
  then have "tk_entries b \<noteq> []" "set (tk_entries b) \<subseteq> set es"
    using table_okD(4) [OF bs(1)] bs(2) by (auto simp: blk_ok_def table_entries_def)
  then show "es \<noteq> []" by auto
qed

lemma reader_ok_miss_count [simp]:
  "reader_ok L I M (r\<lparr>tr_seek_miss_count := n\<rparr>) es = reader_ok L I M r es"
  by (simp add: reader_ok_def)

lemma reader_ok_mono: "reader_ok L I M r es \<Longrightarrow> M \<subseteq>\<^sub>m M' \<Longrightarrow> reader_ok L I M' r es"
  by (fastforce simp: reader_ok_def table_in_def map_le_def dom_def)

lemma sorted_range:
  assumes "sorted_kv es" "k \<in> fst ` set es"
  shows "fst (hd es) \<le> k" "k \<le> fst (last es)"
proof -
  obtain i where i: "i < length es" "k = fst (es ! i)" using assms(2) by (auto simp: in_set_conv_nth)
  have s: "sorted (map fst es)" using assms(1) by (simp add: sorted_kv_def strict_sorted_imp_sorted)
  have ne: "es \<noteq> []" using i(1) by auto
  from sorted_nth_mono [OF s, of 0 i] i ne show "fst (hd es) \<le> k" by (simp add: hd_conv_nth)
  from sorted_nth_mono [OF s, of i "length es - 1"] i ne show "k \<le> fst (last es)"
    by (simp add: last_conv_nth)
qed

lemma not_in_range:
  "reader_ok L I M r es \<Longrightarrow> \<not> in_range r k \<Longrightarrow> map_of es k = None"
  using sorted_range [of es k] reader_okD [of L I M r es] by (fastforce simp: in_range_def map_of_eq_None_iff)

lemma reader_get:
  assumes r: "reader_ok L I M r es" and c: "cache_agrees L M c"
  shows "\<exists>n c'. tr_get L r c k = Some (map_of es k, r\<lparr>tr_seek_miss_count := n\<rparr>, c') \<and>
     cache_agrees L M c' \<and> cache_id c' = cache_id c"
proof -
  obtain bs where bs: "table_ok L I r bs" "table_in L M r bs" "table_entries bs = es" "zero_extension_free es"
    using r by (auto simp: reader_ok_def)
  from tr_get_ok [OF bs(1,2) c, of k] zero_extension_lookup [OF bs(1), of k] bs(3,4) show ?thesis by simp
qed

subsection \<open>Opening a file\<close>

text \<open>The cache and what belongs under its keys: only identifiers given out so far occur.\<close>

definition cache_ok :: "('f, 'c) libs \<Rightarrow> (bytes \<rightharpoonup> bytes) \<Rightarrow> 'c cache \<Rightarrow> bool" where
  "cache_ok L M c \<longleftrightarrow> cache_agrees L M c \<and>
     (\<forall>k \<in> dom M. \<exists>i off. i \<le> cache_id c \<and> k = encode_fixed64 L (of_nat i) @ encode_fixed64 L off)"

lemma cache_ok_agrees: "cache_ok L M c \<Longrightarrow> cache_agrees L M c"
  by (simp add: cache_ok_def)

lemma cache_ok_same: "cache_ok L M c \<Longrightarrow> cache_agrees L M c' \<Longrightarrow> cache_id c' = cache_id c \<Longrightarrow> cache_ok L M c'"
  by (simp add: cache_ok_def)

lemma cache_agrees_mono: "cache_agrees L M c \<Longrightarrow> M \<subseteq>\<^sub>m M' \<Longrightarrow> cache_agrees L M' c"
  by (fastforce simp: cache_agrees_def map_le_def dom_def)

lemma tr_new_file: "tr_new L name f opt c = Some (Inr (r, c')) \<Longrightarrow> tr_file r = f \<and> tr_size r = length f"
  by (auto simp: tr_new_def Let_def tryO_eq_Ok new_cache_id_def split: if_splits)

lemma open_file:
  assumes f: "sst_file L I f es" and z: "zero_extension_free es" and L: "fixed_ok L" and c: "cache_ok L M c"
    and id: "cache_id c + 1 < usize_bound"
  shows "\<exists>r M'. tr_new L name f opt c = Some (Inr (r, snd (new_cache_id c))) \<and> reader_ok L I M' r es \<and>
     tr_file_name r = name \<and> tr_file r = f \<and> cache_ok L M' (snd (new_cache_id c)) \<and> M \<subseteq>\<^sub>m M'"
proof -
  obtain r bs where r: "tr_new L name f opt c = Some (Inr (r, snd (new_cache_id c)))"
    "table_ok L I r bs" "table_entries bs = es" "distinct (map (offset \<circ> tk_handle) bs)"
    "tr_cache_id r = cache_id c + 1" "tr_file_name r = name"
    using f unfolding sst_file_def by blast
  have inj: "i = j" if "encode_fixed64 L (of_nat i) @ x = encode_fixed64 L (of_nat j) @ y"
    "i < usize_bound" "j < usize_bound" for i j x y
  proof -
    have "encode_fixed64 L (of_nat i) = encode_fixed64 L (of_nat j)" using that(1) L by simp
    then have "(of_nat i :: u64) = of_nat j" using L by (metis fixed_okD(3))
    then have "unat (of_nat i :: u64) = unat (of_nat j :: u64)" by simp
    then show ?thesis using that(2,3) by (simp add: unat_of_nat)
  qed
  let ?T = "table_map L r bs"
  have key: "\<exists>off. k = encode_fixed64 L (of_nat (cache_id c + 1)) @ encode_fixed64 L off" if "k \<in> dom ?T" for k
    using that r(5) by (auto simp: table_map_def dom_map_of_conv_image_fst gen_cache_key_def)
  have disj: "dom M \<inter> dom ?T = {}"
  proof (rule ccontr)
    assume "dom M \<inter> dom ?T \<noteq> {}"
    then obtain k where k: "k \<in> dom M" "k \<in> dom ?T" by blast
    obtain i off where i: "i \<le> cache_id c" "k = encode_fixed64 L (of_nat i) @ encode_fixed64 L off"
      using c k(1) unfolding cache_ok_def by blast
    obtain off' where "k = encode_fixed64 L (of_nat (cache_id c + 1)) @ encode_fixed64 L off'"
      using key [OF k(2)] by blast
    then have e: "encode_fixed64 L (of_nat i) @ encode_fixed64 L off =
        encode_fixed64 L (of_nat (cache_id c + 1)) @ encode_fixed64 L off'"
      by (rule trans [OF i(2) [symmetric]])
    have "i = cache_id c + 1" by (rule inj [OF e]) (use i(1) id in linarith)+
    with i(1) show False by simp
  qed
  have le: "M \<subseteq>\<^sub>m M ++ ?T"
  proof -
    have "(M ++ ?T) k = M k" if "k \<in> dom M" for k
      using disj that by (intro map_add_dom_app_simps(3)) blast
    then show ?thesis by (simp add: map_le_def)
  qed
  have "?T \<subseteq>\<^sub>m M ++ ?T" by simp
  moreover have "table_in L ?T r bs" by (rule table_in_map [OF L r(2,4)])
  ultimately have ti: "table_in L (M ++ ?T) r bs" by (fastforce simp: table_in_def map_le_def dom_def)
  have "cache_agrees L (M ++ ?T) (snd (new_cache_id c))"
    using cache_agrees_mono [OF cache_ok_agrees [OF c] le] by (simp add: cache_agrees_def new_cache_id_def)
  moreover have "\<exists>i off. i \<le> cache_id c + 1 \<and> k = encode_fixed64 L (of_nat i) @ encode_fixed64 L off"
    if "k \<in> dom (M ++ ?T)" for k
  proof -
    have "k \<in> dom M \<or> k \<in> dom ?T" using that by auto
    then show ?thesis
    proof
      assume "k \<in> dom M"
      then show ?thesis using c unfolding cache_ok_def by (metis le_add1 le_trans)
    qed (use key in blast)
  qed
  ultimately have "cache_ok L (M ++ ?T) (snd (new_cache_id c))"
    unfolding cache_ok_def by (auto simp: new_cache_id_def)
  moreover have "reader_ok L I (M ++ ?T) r es"
    using r(2,3) ti z f tr_new_file [OF r(1)] by (auto simp: reader_ok_def)
  ultimately show ?thesis using r(1,6) le tr_new_file [OF r(1)] by blast
qed

subsection \<open>Searching a level\<close>

definition disjoint_sorted :: "entry list list \<Rightarrow> bool" where
  "disjoint_sorted ls \<longleftrightarrow> sorted_wrt (\<lambda>a b. fst (last a) < fst (hd b)) ls"

definition readers_sorted :: "'f table_reader list \<Rightarrow> bool" where
  "readers_sorted rs \<longleftrightarrow> sorted_wrt (\<lambda>a b. tr_max_key a < tr_min_key b) rs \<and> (\<forall>r \<in> set rs. tr_min_key r \<le> tr_max_key r)"

lemma readers_sortedI:
  assumes "list_all2 (reader_ok L I M) rs ls" "disjoint_sorted ls"
  shows "readers_sorted rs"
proof -
  have n: "length rs = length ls" "\<And>i. i < length rs \<Longrightarrow> reader_ok L I M (rs ! i) (ls ! i)"
    using assms(1) by (auto simp: list_all2_conv_all_nth)
  have "tr_min_key r \<le> tr_max_key r" if "r \<in> set rs" for r
  proof -
    from that obtain i where i: "i < length rs" "r = rs ! i" by (auto simp: in_set_conv_nth)
    note d = reader_okD [OF n(2) [OF i(1)]]
    have "fst (hd (ls ! i)) \<in> fst ` set (ls ! i)" using d(2) by simp
    from sorted_range(2) [OF d(1) this] show ?thesis using d(4,5) i(2) by simp
  qed
  moreover have "sorted_wrt (\<lambda>a b. tr_max_key a < tr_min_key b) rs"
    unfolding sorted_wrt_iff_nth_less
  proof (intro allI impI)
    fix i j assume ij: "i < j" "j < length rs"
    have "fst (last (ls ! i)) < fst (hd (ls ! j))"
      using assms(2) ij n(1) by (auto simp: disjoint_sorted_def sorted_wrt_iff_nth_less)
    with reader_okD(5) [OF n(2) [of i]] reader_okD(4) [OF n(2) [OF ij(2)]] ij
    show "tr_max_key (rs ! i) < tr_min_key (rs ! j)" by simp
  qed
  ultimately show ?thesis by (simp add: readers_sorted_def)
qed

lemma readers_sorted_nth:
  assumes "readers_sorted rs" "i < j" "j < length rs"
  shows "tr_max_key (rs ! i) < tr_min_key (rs ! j)" "tr_min_key (rs ! i) < tr_min_key (rs ! j)"
proof -
  show "tr_max_key (rs ! i) < tr_min_key (rs ! j)"
    using assms by (auto simp: readers_sorted_def sorted_wrt_iff_nth_less)
  moreover have "tr_min_key (rs ! i) \<le> tr_max_key (rs ! i)" using assms by (auto simp: readers_sorted_def)
  ultimately show "tr_min_key (rs ! i) < tr_min_key (rs ! j)" by order
qed

text \<open>The binary search ends at the last reader that starts below the key, or at the first.\<close>

lemma search_left_ok:
  "left \<le> right \<Longrightarrow> right < length rs \<Longrightarrow> readers_sorted rs \<Longrightarrow>
   (left = 0 \<or> tr_min_key (rs ! left) < k) \<Longrightarrow>
   (\<forall>i < length rs. right < i \<longrightarrow> k \<le> tr_min_key (rs ! i)) \<Longrightarrow>
   \<exists>p. search_left rs k left right = Some p \<and> p < length rs \<and> (p = 0 \<or> tr_min_key (rs ! p) < k) \<and>
     (\<forall>i < length rs. p < i \<longrightarrow> k \<le> tr_min_key (rs ! i))"
proof (induction rs k left right rule: search_left.induct)
  case (1 rs k left right)
  show ?case
  proof (cases "left < right")
    case False
    with 1 show ?thesis by (subst search_left.simps) auto
  next
    case True
    define m where "m = (left + right + 1) div 2"
    have m: "left < m" "m \<le> right" "m < length rs" using True "1.prems"(2) by (auto simp: m_def)
    show ?thesis
    proof (cases "tr_min_key (rs ! m) < k")
      case lt: True
      from "1.IH"(1) [OF True m_def _ lt] m lt "1.prems"
      have "\<exists>p. search_left rs k m right = Some p \<and> p < length rs \<and> (p = 0 \<or> tr_min_key (rs ! p) < k) \<and>
          (\<forall>i < length rs. p < i \<longrightarrow> k \<le> tr_min_key (rs ! i))"
        by (auto simp: idx_def)
      then show ?thesis
        using True m lt unfolding m_def by (subst search_left.simps) (simp add: Let_def idx_def)
    next
      case ge: False
      have up: "\<forall>i < length rs. m - 1 < i \<longrightarrow> k \<le> tr_min_key (rs ! i)"
      proof (intro allI impI)
        fix i assume i: "i < length rs" "m - 1 < i"
        show "k \<le> tr_min_key (rs ! i)"
        proof (cases "i = m")
          case False
          then have "m < i" using i m(1) by simp
          from readers_sorted_nth(2) [OF "1.prems"(3) this i(1)] ge show ?thesis by order
        qed (use ge in simp)
      qed
      from "1.IH"(2) [OF True m_def _ ge] m up "1.prems"
      have "\<exists>p. search_left rs k left (m - 1) = Some p \<and> p < length rs \<and> (p = 0 \<or> tr_min_key (rs ! p) < k) \<and>
          (\<forall>i < length rs. p < i \<longrightarrow> k \<le> tr_min_key (rs ! i))"
        by (auto simp: idx_def)
      then show ?thesis
        using True m ge unfolding m_def by (subst search_left.simps) (simp add: Let_def idx_def)
    qed
  qed
qed

lemma scan_readers_ok:
  "readers_sorted rs \<Longrightarrow> scan_readers rs i k = filter (\<lambda>j. in_range (rs ! (j - i)) k) [i..<i + length rs]"
proof (induction rs i k rule: scan_readers.induct)
  case (2 r rs i k)
  have rs: "readers_sorted rs" using "2.prems" by (simp add: readers_sorted_def)
  have up: "[i..<i + length (r # rs)] = i # [Suc i..<Suc i + length rs]" by (simp add: upt_rec)
  have shift: "filter (\<lambda>j. in_range ((r # rs) ! (j - i)) k) [Suc i..<Suc i + length rs] =
      filter (\<lambda>j. in_range (rs ! (j - Suc i)) k) [Suc i..<Suc i + length rs]"
    by (rule filter_cong) (auto simp: nth_Cons' )
  have rest: "filter (\<lambda>j. in_range ((r # rs) ! (j - i)) k) [i..<i + length (r # rs)] =
      (if in_range r k then [i] else []) @ filter (\<lambda>j. in_range (rs ! (j - Suc i)) k) [Suc i..<Suc i + length rs]"
    unfolding up filter.simps shift by simp
  consider "in_range r k" | "\<not> in_range r k" "tr_min_key r > k" | "\<not> in_range r k" "\<not> tr_min_key r > k" by blast
  then show ?case
  proof cases
    case 1
    with "2.IH"(1) [OF 1 rs] show ?thesis unfolding rest by simp
  next
    case 3
    with "2.IH"(2) [OF 3 rs] show ?thesis unfolding rest by simp
  next
    case 2
    have "\<not> in_range (rs ! (j - Suc i)) k" if "j \<in> set [Suc i..<Suc i + length rs]" for j
    proof -
      have "j - Suc i < length rs" using that by auto
      from readers_sorted_nth(2) [OF "2.prems", of 0 "Suc (j - Suc i)"] this 2(2) show ?thesis
        by (auto simp: in_range_def)
    qed
    then have "filter (\<lambda>j. in_range (rs ! (j - Suc i)) k) [Suc i..<Suc i + length rs] = []"
      by (simp add: filter_empty_conv)
    with 2 show ?thesis unfolding rest by simp
  qed
qed simp

text \<open>On a sorted level without overlaps the search returns exactly the readers whose range
  holds the key.\<close>

lemma search_sorted:
  assumes "readers_sorted rs" "rs \<noteq> []"
  shows "\<exists>p. search_left rs k 0 (length rs - 1) = Some p \<and>
    scan_readers (drop p rs) p k = filter (\<lambda>i. in_range (rs ! i) k) [0..<length rs]"
proof -
  obtain p where p: "search_left rs k 0 (length rs - 1) = Some p" "p < length rs"
    "p = 0 \<or> tr_min_key (rs ! p) < k"
    using search_left_ok [of 0 "length rs - 1" rs k] assms by (auto simp: less_diff_conv2)
  have "readers_sorted (drop p rs)"
    using assms(1) by (auto simp: readers_sorted_def intro: sorted_wrt_drop dest: in_set_dropD)
  from scan_readers_ok [OF this, of p k]
  have "scan_readers (drop p rs) p k = filter (\<lambda>i. in_range (rs ! i) k) [p..<length rs]"
    using p(2) by (auto intro!: filter_cong)
  moreover have "filter (\<lambda>i. in_range (rs ! i) k) [0..<p] = []"
    unfolding filter_empty_conv
  proof
    fix i assume "i \<in> set [0..<p]"
    then have i: "i < p" by simp
    then have "tr_min_key (rs ! p) < k" using p(3) by auto
    with readers_sorted_nth(1) [OF assms(1) i p(2)] show "\<not> in_range (rs ! i) k"
      by (auto simp: in_range_def)
  qed
  moreover have "[0..<length rs] = [0..<p] @ [p..<length rs]"
    using upt_add_eq_append [of 0 p "length rs - p"] p(2) by simp
  ultimately show ?thesis using p(1) by auto
qed

lemma first_hit_filter:
  "(\<And>x. x \<in> set xs \<Longrightarrow> \<not> P x \<Longrightarrow> map_of (f x) k = None) \<Longrightarrow>
   first_hit (map f (filter P xs)) k = first_hit (map f xs) k"
  by (induction xs) (auto split: option.splits)

lemma miss_count_refl: "\<exists>n. r = r\<lparr>tr_seek_miss_count := n\<rparr>"
  by (rule exI [of _ "tr_seek_miss_count r"]) simp

lemma get_in_readers_ok:
  assumes "cache_agrees L M c" "list_all2 (reader_ok L I M) rs ls" "\<forall>i \<in> set is. i < length rs"
  shows "\<exists>rs' c'. get_in_readers L rs is c k = Some (first_hit (map (\<lambda>i. ls ! i) is) k, rs', c') \<and>
     list_all2 (\<lambda>r' r. \<exists>n. r' = r\<lparr>tr_seek_miss_count := n\<rparr>) rs' rs \<and> cache_agrees L M c' \<and> cache_id c' = cache_id c"
  using assms
proof (induction "is" arbitrary: rs c)
  case Nil
  have "list_all2 (\<lambda>r' r. \<exists>n. r' = r\<lparr>tr_seek_miss_count := n\<rparr>) rs rs"
    by (rule list_all2_refl) (rule miss_count_refl)
  with Nil show ?case by simp
next
  case (Cons i "is")
  have i: "i < length rs" and r: "reader_ok L I M (rs ! i) (ls ! i)"
    using Cons.prems(2,3) by (auto simp: list_all2_conv_all_nth)
  obtain n c1 where g: "tr_get L (rs ! i) c k = Some (map_of (ls ! i) k, (rs ! i)\<lparr>tr_seek_miss_count := n\<rparr>, c1)"
    "cache_agrees L M c1" "cache_id c1 = cache_id c" using reader_get [OF r Cons.prems(1)] by blast
  let ?rs = "rs[i := (rs ! i)\<lparr>tr_seek_miss_count := n\<rparr>]"
  have upd: "list_all2 (\<lambda>r' r. \<exists>n. r' = r\<lparr>tr_seek_miss_count := n\<rparr>) ?rs rs"
    unfolding list_all2_conv_all_nth
  proof (intro conjI allI impI)
    fix j assume "j < length ?rs"
    then show "\<exists>m. ?rs ! j = (rs ! j)\<lparr>tr_seek_miss_count := m\<rparr>"
      by (cases "j = i") (auto intro: miss_count_refl)
  qed simp
  show ?case
  proof (cases "map_of (ls ! i) k")
    case (Some v)
    with g i upd show ?thesis by (auto simp: idx_def)
  next
    case None
    have "list_all2 (reader_ok L I M) ?rs ls"
      using list_all2_update_cong [OF Cons.prems(2), of "(rs ! i)\<lparr>tr_seek_miss_count := n\<rparr>" "ls ! i" i] r by simp
    from Cons.IH [OF g(2) this] Cons.prems(3) obtain rs' c' where
      *: "get_in_readers L ?rs is c1 k = Some (first_hit (map (\<lambda>i. ls ! i) is) k, rs', c')"
      "list_all2 (\<lambda>r' r. \<exists>n. r' = r\<lparr>tr_seek_miss_count := n\<rparr>) rs' ?rs" "cache_agrees L M c'" "cache_id c' = cache_id c1"
      by auto
    have "list_all2 (\<lambda>r' r. \<exists>n. r' = r\<lparr>tr_seek_miss_count := n\<rparr>) rs' rs"
      by (rule list_all2_trans [OF _ *(2) upd]) auto
    with *(1,3,4) g None i show ?thesis by (simp add: idx_def)
  qed
qed

subsection \<open>Searching all levels\<close>

text \<open>Readers that differ in their counts of misses only.\<close>

definition same_but_misses :: "'f table_reader \<Rightarrow> 'f table_reader \<Rightarrow> bool" where
  "same_but_misses r' r \<longleftrightarrow> (\<exists>n. r' = r\<lparr>tr_seek_miss_count := n\<rparr>)"

abbreviation same_readers :: "'f table_reader list list \<Rightarrow> 'f table_reader list list \<Rightarrow> bool" where
  "same_readers \<equiv> list_all2 (list_all2 same_but_misses)"

lemma same_but_misses_refl [simp]: "same_but_misses r r"
  unfolding same_but_misses_def by (rule miss_count_refl)

lemma same_but_misses_trans: "same_but_misses a b \<Longrightarrow> same_but_misses b c \<Longrightarrow> same_but_misses a c"
  by (auto simp: same_but_misses_def)

lemma same_readers_refl [simp]: "same_readers rss rss"
  by (auto intro!: list_all2_refl)

lemma same_readers_trans: "same_readers a b \<Longrightarrow> same_readers b c \<Longrightarrow> same_readers a c"
  by (rule list_all2_trans [of "list_all2 same_but_misses"])
    (auto intro: list_all2_trans [of same_but_misses] same_but_misses_trans)

lemma same_but_misses_fields:
  assumes "same_but_misses r' r"
  shows "tr_file_name r' = tr_file_name r" "tr_file r' = tr_file r" "tr_min_key r' = tr_min_key r"
    "tr_max_key r' = tr_max_key r" "tr_size r' = tr_size r" "reader_ok L I M r' es = reader_ok L I M r es"
  using assms by (auto simp: same_but_misses_def)

lemma same_map: "list_all2 same_but_misses rs' rs \<Longrightarrow> map tr_file_name rs' = map tr_file_name rs"
  by (induction rule: list_all2_induct) (auto simp: same_but_misses_fields)

lemma same_readers_rel:
  "list_all2 same_but_misses rs' rs \<Longrightarrow> list_all2 (reader_ok L I M) rs ls \<Longrightarrow> list_all2 (reader_ok L I M) rs' ls"
  by (rule list_all2_trans [of same_but_misses]) (auto simp: same_but_misses_fields)

lemma same_readers_rels:
  "same_readers rss' rss \<Longrightarrow> list_all2 (list_all2 (reader_ok L I M)) rss lss \<Longrightarrow>
   list_all2 (list_all2 (reader_ok L I M)) rss' lss"
  by (rule list_all2_trans [of "list_all2 same_but_misses"]) (auto intro: same_readers_rel)

text \<open>The order in which a lookup sees the tables: level 0 newest first, then the levels one
  after the other.\<close>

definition level_view :: "entry list list list \<Rightarrow> nat \<Rightarrow> entry list list" where
  "level_view lss i = (if i = 0 then rev (lss ! i) else lss ! i)"

definition tables_view :: "entry list list list \<Rightarrow> entry list list" where
  "tables_view lss = concat (map (level_view lss) [0..<length lss])"

definition levels_ok ::
  "('f, 'c) libs \<Rightarrow> nat \<Rightarrow> (bytes \<rightharpoonup> bytes) \<Rightarrow> 'f table_reader list list \<Rightarrow> entry list list list \<Rightarrow> bool" where
  "levels_ok L I M rss lss \<longleftrightarrow> list_all2 (list_all2 (reader_ok L I M)) rss lss \<and>
     (\<forall>i < length lss. 0 < i \<longrightarrow> disjoint_sorted (lss ! i))"

lemma levels_okD:
  assumes "levels_ok L I M rss lss"
  shows "length rss = length lss" "\<And>i. i < length lss \<Longrightarrow> list_all2 (reader_ok L I M) (rss ! i) (lss ! i)"
    "\<And>i. i < length lss \<Longrightarrow> 0 < i \<Longrightarrow> disjoint_sorted (lss ! i)"
  using assms by (auto simp: levels_ok_def list_all2_conv_all_nth)

lemma levels_ok_mono: "levels_ok L I M rss lss \<Longrightarrow> M \<subseteq>\<^sub>m M' \<Longrightarrow> levels_ok L I M' rss lss"
  by (auto simp: levels_ok_def elim!: list_all2_mono intro: reader_ok_mono)

lemma search_readers_ok:
  assumes lv: "levels_ok L I M (sr_readers sr) lss" and n: "length lss = max_level (sr_opt sr)" and i: "i < length lss"
  shows "\<exists>is. search_readers sr i k = Some is \<and> (\<forall>j \<in> set is. j < length (sr_readers sr ! i)) \<and>
     first_hit (map (\<lambda>j. lss ! i ! j) is) k = first_hit (level_view lss i) k"
proof -
  let ?rs = "sr_readers sr ! i" and ?ls = "lss ! i"
  note d = levels_okD [OF lv]
  have gr: "get_readers sr i = Some ?rs" using i n d(1) by (simp add: get_readers_def idx_def)
  have len: "length ?rs = length ?ls" using d(2) [OF i] by (rule list_all2_lengthD)
  have out: "map_of (?ls ! j) k = None" if "j < length ?rs" "\<not> in_range (?rs ! j) k" for j
    using not_in_range that d(2) [OF i] by (fastforce simp: list_all2_conv_all_nth)
  have eq: "first_hit (map (\<lambda>j. ?ls ! j) (filter (\<lambda>j. in_range (?rs ! j) k) js)) k = first_hit (map (\<lambda>j. ?ls ! j) js) k"
    if "set js \<subseteq> {..<length ?rs}" for js
    using that out by (intro first_hit_filter) auto
  have "sr_readers sr \<noteq> [] \<and> \<not> length (sr_readers sr) \<le> i" using i d(1) by auto
  note nl = conjunct2 [OF this]
  show ?thesis
  proof (cases "i = 0")
    case True
    have "map (\<lambda>j. ?ls ! j) (rev [0..<length ?rs]) = rev ?ls" unfolding len rev_map [symmetric] map_nth ..
    with eq [of "rev [0..<length ?rs]"] True gr nl show ?thesis
      by (auto simp: search_readers_def level_view_def lessThan_atLeast0)
  next
    case False
    have e: "first_hit (map (\<lambda>j. ?ls ! j) (filter (\<lambda>j. in_range (?rs ! j) k) [0..<length ?rs])) k = first_hit ?ls k"
      using eq [of "[0..<length ?rs]"] len by (simp add: map_nth lessThan_atLeast0)
    show ?thesis
    proof (cases "?rs = []")
      case True
      with False gr nl len show ?thesis by (auto simp: search_readers_def level_view_def)
    next
      case ne: False
      have "readers_sorted ?rs" using readers_sortedI [OF d(2) [OF i] d(3) [OF i]] False by simp
      then obtain p where p: "search_left ?rs k 0 (length ?rs - 1) = Some p"
        "scan_readers (drop p ?rs) p k = filter (\<lambda>j. in_range (?rs ! j) k) [0..<length ?rs]"
        using search_sorted ne by blast
      with False ne gr nl have "search_readers sr i k = Some (filter (\<lambda>j. in_range (?rs ! j) k) [0..<length ?rs])"
        by (simp add: search_readers_def)
      with e False show ?thesis by (auto simp: level_view_def)
    qed
  qed
qed

lemma first_hit_append: "first_hit (xs @ ys) k = (case first_hit xs k of None \<Rightarrow> first_hit ys k | Some v \<Rightarrow> Some v)"
  by (induction xs) (auto split: option.splits)

lemma get_in_levels_ok:
  assumes "cache_agrees L M c" "levels_ok L I M (sr_readers sr) lss" "length lss = max_level (sr_opt sr)"
    "\<forall>i \<in> set is. i < length lss"
  shows "\<exists>rss c'. get_in_levels L sr is c k =
       Some (first_hit (concat (map (level_view lss) is)) k, sr\<lparr>sr_readers := rss\<rparr>, c') \<and>
     same_readers rss (sr_readers sr) \<and> cache_agrees L M c' \<and> cache_id c' = cache_id c"
  using assms
proof (induction "is" arbitrary: sr c)
  case Nil
  have "sr = sr\<lparr>sr_readers := sr_readers sr\<rparr>" by simp
  moreover have "same_readers (sr_readers sr) (sr_readers sr)" by (rule same_readers_refl)
  ultimately show ?case using Nil(1) by (metis concat.simps(1) first_hit.simps(1) get_in_levels.simps(1) list.simps(8))
next
  case (Cons i "is")
  have i: "i < length lss" using Cons.prems(4) by simp
  note d = levels_okD [OF Cons.prems(2)]
  obtain js where js: "search_readers sr i k = Some js" "\<forall>j \<in> set js. j < length (sr_readers sr ! i)"
    "first_hit (map (\<lambda>j. lss ! i ! j) js) k = first_hit (level_view lss i) k"
    using search_readers_ok [OF Cons.prems(2,3) i] by blast
  obtain rs c1 where g: "get_in_readers L (sr_readers sr ! i) js c k = Some (first_hit (level_view lss i) k, rs, c1)"
    "list_all2 same_but_misses rs (sr_readers sr ! i)" "cache_agrees L M c1" "cache_id c1 = cache_id c"
    using get_in_readers_ok [OF Cons.prems(1) d(2) [OF i] js(2), of k] js(3)
    unfolding same_but_misses_def [abs_def] by auto
  let ?sr = "sr\<lparr>sr_readers := (sr_readers sr)[i := rs]\<rparr>"
  have same: "same_readers (sr_readers ?sr) (sr_readers sr)"
    using list_all2_update_cong [OF same_readers_refl [of "sr_readers sr"] g(2), of i] by simp
  have step: "get_in_levels L sr (i # is) c k =
      (if first_hit (level_view lss i) k \<noteq> None then Some (first_hit (level_view lss i) k, ?sr, c1)
       else get_in_levels L ?sr is c1 k)"
    using js(1) g(1) i d(1) by simp
  show ?case
  proof (cases "first_hit (level_view lss i) k")
    case (Some v)
    then show ?thesis using step same g(3,4) by (auto simp: first_hit_append)
  next
    case None
    have lv: "levels_ok L I M (sr_readers ?sr) lss"
      using same_readers_rels [OF same] Cons.prems(2) by (auto simp: levels_ok_def)
    from Cons.IH [OF g(3) lv] Cons.prems(3,4) obtain rss c' where
      *: "get_in_levels L ?sr is c1 k = Some (first_hit (concat (map (level_view lss) is)) k, ?sr\<lparr>sr_readers := rss\<rparr>, c')"
      "same_readers rss (sr_readers ?sr)" "cache_agrees L M c'" "cache_id c' = cache_id c1" by auto
    have "same_readers rss (sr_readers sr)" by (rule same_readers_trans [OF *(2) same])
    with * step None g(4) show ?thesis by (auto simp: first_hit_append)
  qed
qed

text \<open>A lookup answers as the first table, in this order, that has the key.\<close>

lemma sr_get_ok:
  assumes "cache_agrees (tlibs S) M c" "levels_ok (tlibs S) I M (sr_readers sr) lss"
    "length lss = max_level (sr_opt sr)"
  shows "\<exists>rss c'. sr_get S sr c k = Some (first_hit (tables_view lss) k, sr\<lparr>sr_readers := rss\<rparr>, c') \<and>
     same_readers rss (sr_readers sr) \<and> cache_agrees (tlibs S) M c' \<and> cache_id c' = cache_id c"
  using get_in_levels_ok [OF assms, of "[0..<length lss]" k] assms(3)
  by (simp add: sr_get_def tables_view_def)

end
