(* ===== verification/Table_Files.thy ===== *)
theory Table_Files
  imports Levels Wal "HOL-Library.Multiset"
begin

text \<open>
  The tables of all levels together with the files and the manifest they live in: the
  invariant of \<open>SstableReader\<close>, kept by adding and removing readers and restored by loading.
\<close>

subsection \<open>What has been written\<close>

text \<open>The history of writes, oldest first.  Every table holds entries from it, so a bound on its
  size bounds every table.\<close>

definition writes_ok :: "entry list \<Rightarrow> bool" where
  "writes_ok W \<longleftrightarrow> keys_nonempty W \<and> enc_size W < u32_bound \<and>
     (\<forall>a \<in> fst ` set W. a @ [0] \<notin> fst ` set W)"

lemma enc_size_subset:
  assumes "distinct es" "set es \<subseteq> set W"
  shows "enc_size es \<le> enc_size W"
proof -
  let ?f = "\<lambda>e :: entry. length (fst e) + length (snd e) + 64"
  have s: "enc_size xs = sum_list (map ?f xs)" for xs by (simp add: enc_size_def case_prod_beta')
  have "enc_size es = sum ?f (set es)" unfolding s by (rule sum_list_distinct_conv_sum_set [OF assms(1)])
  also have "\<dots> \<le> sum ?f (set W)" by (rule sum_mono2 [OF _ assms(2)]) auto
  also have "\<dots> \<le> enc_size W"
    unfolding s
  proof (induction W)
    case (Cons e W)
    have "sum ?f (set (e # W)) \<le> ?f e + sum ?f (set W)" by (cases "e \<in> set W") (auto simp: insert_absorb)
    with Cons show ?case by simp
  qed simp
  finally show ?thesis .
qed

lemma writes_okD:
  assumes W: "writes_ok W" and es: "sorted_kv es" "set es \<subseteq> set W"
  shows "sorted_wrt (<) (map fst es)" "keys_nonempty es" "enc_size es < u32_bound" "zero_extension_free es"
proof -
  show so: "sorted_wrt (<) (map fst es)" using es(1) by (simp add: sorted_kv_def)
  show "keys_nonempty es" using W es(2) by (auto simp: writes_ok_def keys_nonempty_def)
  have "distinct es" using so by (simp add: strict_sorted_iff distinct_map)
  from enc_size_subset [OF this es(2)] W show "enc_size es < u32_bound" by (simp add: writes_ok_def)
  have "fst (es ! Suc i) \<noteq> fst (es ! i) @ [0]" if "Suc i < length es" for i
  proof -
    have "es ! i \<in> set W" "es ! Suc i \<in> set W" using es(2) that by (auto dest: nth_mem)
    then have "fst (es ! i) \<in> fst ` set W" "fst (es ! Suc i) \<in> fst ` set W" by blast+
    with W show ?thesis unfolding writes_ok_def by metis
  qed
  then show "zero_extension_free es" by (simp add: zero_extension_free_def)
qed

subsection \<open>Building a table\<close>

definition opt_ok :: "server_options \<Rightarrow> bool" where
  "opt_ok opt \<longleftrightarrow> 0 < block_restart_interval (table_opt opt) \<and> 8 \<le> block_size (table_opt opt)"

abbreviation restart_interval :: "server_options \<Rightarrow> nat" where
  "restart_interval opt \<equiv> block_restart_interval (table_opt opt)"

definition files_fit :: "fs \<Rightarrow> bool" where
  "files_fit d \<longleftrightarrow> (\<forall>(n, f) \<in> set d. drop (length n - 4) n = ''.sst'' \<longrightarrow> length f < usize_bound)"

lemma files_fitD: "files_fit d \<Longrightarrow> map_of d (make_file_name n ''sst'') = Some f \<Longrightarrow> length f < usize_bound"
  by (force simp: files_fit_def make_file_name_def dest: map_of_SomeD)

lemma built_sst_file:
  assumes "table_libs_ok L" "opt_ok opt" "writes_ok W" "sorted_kv es" "set es \<subseteq> set W" "es \<noteq> []"
    and "tb_add_all L (tb_new L path (table_opt opt)) es = Some (Inr t1)" "tb_flush L t1 = Some (Inr t2)"
    and "length (tb_file t2) < usize_bound"
  shows "sst_file L (restart_interval opt) (tb_file t2) es"
proof -
  note w = writes_okD [OF assms(3,4,5)]
  have o: "0 < restart_interval opt" "8 \<le> block_size (table_opt opt)" using assms(2) by (auto simp: opt_ok_def)
  from build_open [OF assms(1) o w(1,2) assms(6) w(3) assms(7-9)] show ?thesis
    unfolding sst_file_def by blast
qed

lemma open_table_ok:
  assumes "sst_file (tlibs S) I f es" "zero_extension_free es" "fixed_ok (tlibs S)" "cache_ok (tlibs S) M c"
    and "cache_id c + 1 < usize_bound" "map_of d name = Some f"
  shows "\<exists>r M'. open_table S opt name d c = Some (Inr (r, snd (new_cache_id c))) \<and>
     reader_ok (tlibs S) I M' r es \<and> tr_file_name r = name \<and> tr_file r = f \<and>
     cache_ok (tlibs S) M' (snd (new_cache_id c)) \<and> M \<subseteq>\<^sub>m M'"
  using open_file [OF assms(1-5), of name "table_opt opt"] assms(6) by (auto simp: open_table_def)

text \<open>If the skip list converts to a table, the table holds the entries of the list.\<close>

lemma skiplist_to_sstable_ok:
  fixes m :: "(bytes, bytes, 'g) skiplist"
  assumes L: "table_libs_ok (tlibs S)" and o: "opt_ok opt" and W: "writes_ok W" and m: "sl_rel m es"
    and sub: "set es \<subseteq> set W" and c: "cache_ok (tlibs S) M c" and d: "sorted_kv d"
    and r: "skiplist_to_sstable S m opt path d c = Some (Inr (x, d', c'))"
    and lim: "\<And>f. map_of d' path = Some f \<Longrightarrow> length f < usize_bound" "cache_id c' < usize_bound"
  shows "sorted_kv d' \<and> (\<forall>n. n \<noteq> path \<longrightarrow> map_of d' n = map_of d n) \<and>
     (if es = [] then x = None \<and> d' = d \<and> c' = c
      else \<exists>t M'. x = Some (path, t) \<and> reader_ok (tlibs S) (restart_interval opt) M' t es \<and>
        tr_file_name t = path \<and> map_of d' path = Some (tr_file t) \<and> cache_ok (tlibs S) M' c' \<and> M \<subseteq>\<^sub>m M' \<and>
        cache_id c' = cache_id c + 1)"
proof (cases "es = []")
  case True
  then have "slen m = 0" using m sl_rel_length [of m es] by simp
  with r True d show ?thesis by (simp add: skiplist_to_sstable_def)
next
  case False
  then have n: "slen m \<noteq> 0" using m sl_rel_length [of m es] by simp
  have it: "sl_iter m = Some es" by (rule iter_ok [OF m])
  obtain t1 t2 t where t: "tb_add_all (tlibs S) (tb_new (tlibs S) path (table_opt opt)) es = Some (Inr t1)"
    "tb_flush (tlibs S) t1 = Some (Inr t2)" "d' = fs_write path (tb_file t2) d"
    "open_table S opt path d' c = Some (Inr (t, c'))" "x = Some (path, t)"
    using r n it by (auto simp: skiplist_to_sstable_def tryO_eq_Ok Let_def)
  have d': "map_of d' = (map_of d)(path \<mapsto> tb_file t2)" "sorted_kv d'"
    using t(3) d by (simp_all add: fs_write_def map_of_ins_kv sorted_ins_kv)
  have so: "sorted_kv es" using m by (rule sl_rel_sorted)
  have "length (tb_file t2) < usize_bound" using lim(1) d'(1) by simp
  then have f: "sst_file (tlibs S) (restart_interval opt) (tb_file t2) es"
    by (rule built_sst_file [OF L o W so sub False t(1,2)])
  have fx: "fixed_ok (tlibs S)" using L by (simp add: table_libs_ok_def)
  have "c' = snd (new_cache_id c)"
    using t(4) f unfolding sst_file_def open_table_def d'(1) by (auto split: option.splits) (metis Pair_inject option.inject sum.inject(2))
  then have id: "cache_id c' = cache_id c + 1" by (simp add: new_cache_id_def)
  from open_table_ok [OF f writes_okD(4) [OF W so sub] fx c, of d' path opt] id lim(2) d'(1) t(4,5) False d'
  show ?thesis by auto
qed

subsection \<open>Sorting a level\<close>

lemma insort_key_map: "insort_key f (g x) (map g xs) = map g (insort_key (\<lambda>y. f (g y)) x xs)"
  by (induction xs) auto

lemma sort_key_map: "sort_key f (map g xs) = map g (sort_key (f \<circ> g) xs)"
  by (induction xs) (simp_all add: insort_key_map comp_def)

text \<open>Tables whose key ranges do not meet.\<close>

definition apart :: "entry list \<Rightarrow> entry list \<Rightarrow> bool" where
  "apart a b \<longleftrightarrow> fst (last a) < fst (hd b) \<or> fst (last b) < fst (hd a)"

definition disjoint_tables :: "entry list list \<Rightarrow> bool" where
  "disjoint_tables ls \<longleftrightarrow> distinct ls \<and> (\<forall>a \<in> set ls. \<forall>b \<in> set ls. a \<noteq> b \<longrightarrow> apart a b)"

definition tables_ok :: "entry list list \<Rightarrow> bool" where
  "tables_ok ls \<longleftrightarrow> (\<forall>a \<in> set ls. a \<noteq> [] \<and> sorted_kv a)"

lemma hd_le_last: "sorted_kv a \<Longrightarrow> a \<noteq> [] \<Longrightarrow> fst (hd a) \<le> fst (last a)"
  using sorted_range(2) [of a "fst (hd a)"] by simp

lemma disjoint_tables_sorted:
  assumes "tables_ok ls" "disjoint_sorted ls"
  shows "disjoint_tables ls" "sorted (map (fst \<circ> hd) ls)"
proof -
  have lt: "fst (last (ls ! i)) < fst (hd (ls ! j))" if "i < j" "j < length ls" for i j
    using assms(2) that by (auto simp: disjoint_sorted_def sorted_wrt_iff_nth_less)
  have le: "fst (hd (ls ! i)) \<le> fst (last (ls ! i))" if "i < length ls" for i
    using assms(1) that by (auto simp: tables_ok_def intro: hd_le_last)
  have ne: "ls ! i \<noteq> ls ! j" if "i < j" "j < length ls" for i j
    using lt [OF that] le [of j] that by auto
  have "distinct ls"
    unfolding distinct_conv_nth using ne by (metis linorder_neqE_nat)
  moreover have "apart a b" if "a \<in> set ls" "b \<in> set ls" "a \<noteq> b" for a b
  proof -
    from that obtain i j where "i < length ls" "j < length ls" "a = ls ! i" "b = ls ! j"
      by (auto simp: in_set_conv_nth)
    with that lt [of i j] lt [of j i] show ?thesis unfolding apart_def by (metis linorder_neqE_nat)
  qed
  ultimately show "disjoint_tables ls" by (simp add: disjoint_tables_def)
  have "fst (hd (ls ! i)) \<le> fst (hd (ls ! j))" if "i < j" "j < length ls" for i j
  proof -
    have "fst (hd (ls ! i)) \<le> fst (last (ls ! i))" using le that by simp
    with lt [OF that] show ?thesis by order
  qed
  then show "sorted (map (fst \<circ> hd) ls)" by (auto simp: sorted_iff_nth_mono_less)
qed

lemma disjoint_sortedI:
  assumes "tables_ok ls" "disjoint_tables ls" "sorted (map (fst \<circ> hd) ls)"
  shows "disjoint_sorted ls"
  unfolding disjoint_sorted_def sorted_wrt_iff_nth_less
proof (intro allI impI)
  fix i j assume ij: "i < j" "j < length ls"
  have "ls ! i \<noteq> ls ! j" using assms(2) ij by (auto simp: disjoint_tables_def nth_eq_iff_index_eq)
  then have "apart (ls ! i) (ls ! j)" using assms(2) ij by (auto simp: disjoint_tables_def)
  moreover have "fst (hd (ls ! i)) \<le> fst (hd (ls ! j))"
    using assms(3) ij by (auto simp: sorted_iff_nth_mono_less)
  moreover have "fst (hd (ls ! j)) \<le> fst (last (ls ! j))"
    using assms(1) ij by (auto simp: tables_ok_def intro: hd_le_last)
  ultimately show "fst (last (ls ! i)) < fst (hd (ls ! j))"
    unfolding apart_def by (elim disjE) order+
qed

lemma disjoint_tables_mset: "mset ls = mset ls' \<Longrightarrow> disjoint_tables ls \<Longrightarrow> disjoint_tables ls'"
  unfolding disjoint_tables_def using mset_eq_setD mset_eq_imp_distinct_iff by blast

lemma tables_ok_readers: "list_all2 (reader_ok L I M) rs ls \<Longrightarrow> tables_ok ls"
  by (induction rule: list_all2_induct) (auto simp: tables_ok_def dest: reader_okD(1,2))

text \<open>Two lists of the same tables, both in key order, are equal.\<close>

lemma disjoint_sorted_unique:
  assumes "mset ls = mset ls'" "tables_ok ls" "disjoint_sorted ls" "sorted (map (fst \<circ> hd) ls')"
  shows "ls' = ls"
proof -
  have s: "sorted (map (fst \<circ> hd) ls)" by (rule disjoint_tables_sorted(2) [OF assms(2,3)])
  have "inj_on (fst \<circ> hd) (set ls)"
  proof (rule inj_onI)
    fix a b assume ab: "a \<in> set ls" "b \<in> set ls" "(fst \<circ> hd) a = (fst \<circ> hd) b"
    show "a = b"
    proof (rule ccontr)
      assume "a \<noteq> b"
      then have "apart a b" using disjoint_tables_sorted(1) [OF assms(2,3)] ab by (auto simp: disjoint_tables_def)
      moreover have "fst (hd a) \<le> fst (last a)" "fst (hd b) \<le> fst (last b)"
        using assms(2) ab(1,2) by (auto simp: tables_ok_def intro: hd_le_last)
      moreover have "fst (hd a) = fst (hd b)" using ab(3) by simp
      ultimately show False unfolding apart_def by (elim disjE) order+
    qed
  qed
  moreover have "set ls' = set ls" "distinct ls'"
    using assms(1) disjoint_tables_sorted(1) [OF assms(2,3)] disjoint_tables_mset [of ls ls']
    by (auto simp: disjoint_tables_def dest: mset_eq_setD)
  moreover have "distinct ls" using disjoint_tables_sorted(1) [OF assms(2,3)] by (simp add: disjoint_tables_def)
  ultimately show ?thesis
    using s assms(4) by (intro map_sorted_distinct_set_unique [where f = "fst \<circ> hd"]) (auto simp: distinct_map)
qed

end

