(* ===== verification/Table_Set_Inv.thy ===== *)
theory Table_Set_Inv
  imports Table_Files
begin

text \<open>
  The invariant of the set of tables: readers, files and manifest agree.  Adding and removing
  readers keep it, and loading from the files restores it.
\<close>

subsection \<open>The invariant\<close>

definition manifest_agrees :: "manifest \<Rightarrow> 'f table_reader list list \<Rightarrow> bool" where
  "manifest_agrees m rss \<longleftrightarrow>
     (\<forall>i. mset (level_names m i) = mset (map tr_file_name (if i < length rss then rss ! i else []))) \<and>
     (rss \<noteq> [] \<longrightarrow> level_names m 0 = map tr_file_name (rss ! 0))"

definition reader_stored :: "fs \<Rightarrow> nat \<Rightarrow> 'f table_reader \<Rightarrow> bool" where
  "reader_stored d N r \<longleftrightarrow> (\<exists>n < N. tr_file_name r = make_file_name n ''sst'') \<and>
     map_of d (tr_file_name r) = Some (tr_file r)"

definition sr_inv ::
  "('f, 'c) server_libs \<Rightarrow> server_options \<Rightarrow> (bytes \<rightharpoonup> bytes) \<Rightarrow> 'f sstable_reader \<Rightarrow> fs \<Rightarrow> nat \<Rightarrow>
   entry list list list \<Rightarrow> bool" where
  "sr_inv S opt M sr d N lss \<longleftrightarrow>
     sr_opt sr = opt \<and> mfb_opt (sr_manifest sr) = opt \<and> length lss = max_level opt \<and> N \<le> usize_bound \<and>
     levels_ok (tlibs S) (restart_interval opt) M (sr_readers sr) lss \<and>
     distinct (map tr_file_name (concat (sr_readers sr))) \<and>
     (\<forall>r \<in> set (concat (sr_readers sr)). reader_stored d N r) \<and>
     manifest_agrees (mfb_manifest (sr_manifest sr)) (sr_readers sr) \<and>
     manifest_load S d = Some (Inr (mfb_manifest (sr_manifest sr)))"

lemma sr_invD:
  assumes "sr_inv S opt M sr d N lss"
  shows "sr_opt sr = opt" "mfb_opt (sr_manifest sr) = opt" "length lss = max_level opt" "N \<le> usize_bound"
    "levels_ok (tlibs S) (restart_interval opt) M (sr_readers sr) lss"
    "distinct (map tr_file_name (concat (sr_readers sr)))"
    "\<And>r. r \<in> set (concat (sr_readers sr)) \<Longrightarrow> reader_stored d N r"
    "manifest_agrees (mfb_manifest (sr_manifest sr)) (sr_readers sr)"
    "manifest_load S d = Some (Inr (mfb_manifest (sr_manifest sr)))"
    "length (sr_readers sr) = max_level opt"
  using assms levels_okD(1) [of "tlibs S" "restart_interval opt" M "sr_readers sr" lss]
  by (auto simp: sr_inv_def)

lemma manifest_name: "make_file_name n e \<noteq> MANIFEST_FILENAME"
proof
  assume "make_file_name n e = MANIFEST_FILENAME"
  then have "CHR ''.'' \<in> set MANIFEST_FILENAME" by (metis make_file_name_def in_set_conv_decomp append_Cons append_Nil)
  then show False by (simp add: MANIFEST_FILENAME_def)
qed

lemmas manifest_name_simps [simp] = manifest_name manifest_name [symmetric]

text \<open>Other files may change, counters and \<open>M\<close> may grow, misses may be counted.\<close>

lemma sr_inv_frame:
  assumes "sr_inv S opt M sr d N lss" "M \<subseteq>\<^sub>m M'" "N \<le> N'" "N' \<le> usize_bound"
    and "map_of d' MANIFEST_FILENAME = map_of d MANIFEST_FILENAME"
    and "\<And>n. n < N \<Longrightarrow> map_of d' (make_file_name n ''sst'') = map_of d (make_file_name n ''sst'')"
  shows "sr_inv S opt M' sr d' N' lss"
proof -
  have "manifest_load S d' = manifest_load S d" by (simp add: manifest_load_def assms(5))
  moreover have "reader_stored d' N' r" if "reader_stored d N r" for r
    using that assms(3,6) by (auto simp: reader_stored_def intro: order.strict_trans2)
  then have "\<forall>r \<in> set (concat (sr_readers sr)). reader_stored d' N' r" using sr_invD(7) [OF assms(1)] by blast
  ultimately show ?thesis
    using sr_invD(1-3,5,6,8,9) [OF assms(1)] assms(4) levels_ok_mono [OF sr_invD(5) [OF assms(1)] assms(2)]
    unfolding sr_inv_def by simp
qed

lemma sr_inv_misses:
  assumes "sr_inv S opt M sr d N lss" "same_readers rss (sr_readers sr)"
  shows "sr_inv S opt M (sr\<lparr>sr_readers := rss\<rparr>) d N lss"
proof -
  have names: "map (map tr_file_name) rss = map (map tr_file_name) (sr_readers sr)"
    using assms(2) by (induction rule: list_all2_induct) (auto simp: same_map)
  have len: "length rss = length (sr_readers sr)" using assms(2) by (rule list_all2_lengthD)
  have nth: "map tr_file_name (rss ! i) = map tr_file_name (sr_readers sr ! i)" if "i < length rss" for i
    using names that len by (metis nth_map)
  have "manifest_agrees m rss = manifest_agrees m (sr_readers sr)" for m
  proof -
    have e: "map tr_file_name (if i < length rss then rss ! i else []) =
        map tr_file_name (if i < length (sr_readers sr) then sr_readers sr ! i else [])" for i
      using nth [of i] len by auto
    have "rss \<noteq> [] \<Longrightarrow> map tr_file_name (rss ! 0) = map tr_file_name (sr_readers sr ! 0)" using nth [of 0] by auto
    then show ?thesis unfolding manifest_agrees_def e using len by auto
  qed
  moreover have "map tr_file_name (concat rss) = map tr_file_name (concat (sr_readers sr))"
    by (simp add: map_concat names)
  moreover have "reader_stored d N r'" if "r' \<in> set (concat rss)" for r'
  proof -
    from that obtain i j where ij: "i < length rss" "j < length (rss ! i)" "r' = rss ! i ! j"
      by (auto simp: in_set_conv_nth)
    then have l: "list_all2 same_but_misses (rss ! i) (sr_readers sr ! i)"
      using assms(2) by (auto simp: list_all2_conv_all_nth)
    then have "same_but_misses r' (sr_readers sr ! i ! j)" "j < length (sr_readers sr ! i)"
      using ij by (auto simp: list_all2_conv_all_nth)
    moreover have "sr_readers sr ! i ! j \<in> set (concat (sr_readers sr))"
      using calculation(2) ij(1) len by (auto intro!: bexI [of _ "sr_readers sr ! i"])
    ultimately show ?thesis
      using sr_invD(7) [OF assms(1)] by (auto simp: reader_stored_def same_but_misses_fields)
  qed
  ultimately show ?thesis
    using assms same_readers_rels [OF assms(2)] by (auto simp: sr_inv_def levels_ok_def)
qed

lemma flush_ok:
  assumes "bincode_manifest_ok S" "sorted_kv d" "mfb_flush S mb d = Some (Inr d')"
  shows "sorted_kv d'" "manifest_load S d' = Some (Inr (mfb_manifest mb))"
    "\<And>n. n \<noteq> MANIFEST_FILENAME \<Longrightarrow> map_of d' n = map_of d n"
proof -
  obtain y where y: "serialize_manifest S (mfb_manifest mb) = Inr y" "d' = fs_write MANIFEST_FILENAME y d"
    using assms(3) by (auto simp: mfb_flush_def split: sum.splits)
  show "sorted_kv d'" "\<And>n. n \<noteq> MANIFEST_FILENAME \<Longrightarrow> map_of d' n = map_of d n"
    using assms(2) by (simp_all add: y(2) fs_write_def sorted_ins_kv map_of_ins_kv)
  have "deserialize_manifest S y = Inr (mfb_manifest mb)" using assms(1) y(1) by (simp add: bincode_manifest_ok_def)
  then show "manifest_load S d' = Some (Inr (mfb_manifest mb))"
    using assms(2) by (simp add: manifest_load_def y(2) fs_write_def map_of_ins_kv)
qed

subsection \<open>Adding readers\<close>

lemma mset_update_concat:
  assumes "i < length xss"
  shows "mset (concat (xss[i := ys])) + mset (xss ! i) = mset (concat xss) + mset ys"
proof -
  let ?a = "take i xss" and ?b = "drop (Suc i) xss"
  have "mset (concat xss) = mset (concat (?a @ xss ! i # ?b))" using id_take_nth_drop [OF assms] by simp
  moreover have "xss[i := ys] = ?a @ ys # ?b" using assms by (rule upd_conv_take_nth_drop)
  ultimately show ?thesis by simp
qed

lemma sort_readers_rel:
  assumes "list_all2 (reader_ok L I M) rs ls"
  shows "\<exists>ls'. list_all2 (reader_ok L I M) (sort_readers rs) ls' \<and> mset ls' = mset ls \<and> sorted (map (fst \<circ> hd) ls')"
proof -
  let ?ps = "sort_key (\<lambda>p. tr_min_key (fst p)) (zip rs ls)"
  have len: "length rs = length ls" using assms by (rule list_all2_lengthD)
  have "sort_readers rs = map fst ?ps"
    using sort_key_map [of tr_min_key fst "zip rs ls"] len by (simp add: sort_readers_def comp_def)
  moreover have ok: "reader_ok L I M (fst p) (snd p)" if "p \<in> set ?ps" for p
    using that assms by (auto simp: list_all2_iff)
  ultimately have "list_all2 (reader_ok L I M) (sort_readers rs) (map snd ?ps)"
    by (simp add: list.rel_map list_all2_same)
  moreover have "mset (map snd ?ps) = mset ls"
  proof -
    have "mset (map snd ?ps) = mset (map snd (zip rs ls))" by (simp only: mset_map mset_sort)
    then show ?thesis using len by simp
  qed
  moreover have "map (fst \<circ> hd) (map snd ?ps) = map (\<lambda>p. tr_min_key (fst p)) ?ps"
    using reader_okD(4) [OF ok] by auto
  ultimately show ?thesis by (intro exI [of _ "map snd ?ps"]) (simp del: map_map)
qed

lemma push_readers_ok:
  assumes "l < max_level opt" "length (sr_readers sr) = max_level opt" "mfb_opt (sr_manifest sr) = opt"
    and "list_all2 (reader_ok L I M) (sr_readers sr ! l) ls" "list_all2 (reader_ok L I M) rs es"
    and "l \<noteq> 0 \<Longrightarrow> sorted (map (fst \<circ> hd) ls)"
  shows "\<exists>m rs' ls'. push_readers sr l rs = Some (sr\<lparr>sr_manifest := (sr_manifest sr)\<lparr>mfb_manifest := m\<rparr>,
        sr_readers := (sr_readers sr)[l := rs']\<rparr>) \<and>
     list_all2 (reader_ok L I M) rs' ls' \<and> mset rs' = mset (sr_readers sr ! l) + mset rs \<and>
     mset ls' = mset ls + mset es \<and> (l = 0 \<longrightarrow> rs' = sr_readers sr ! l @ rs \<and> ls' = ls @ es) \<and>
     (l \<noteq> 0 \<longrightarrow> sorted (map (fst \<circ> hd) ls')) \<and>
     (\<forall>j. level_names m j = level_names (mfb_manifest (sr_manifest sr)) j @ (if j = l then map tr_file_name rs else []))"
  using assms
proof (induction rs arbitrary: sr ls es)
  case Nil
  have "sr\<lparr>sr_manifest := (sr_manifest sr)\<lparr>mfb_manifest := mfb_manifest (sr_manifest sr)\<rparr>,
      sr_readers := (sr_readers sr)[l := sr_readers sr ! l]\<rparr> = sr" by simp
  with Nil show ?case
    by (intro exI [of _ "mfb_manifest (sr_manifest sr)"] exI [of _ "sr_readers sr ! l"] exI [of _ ls]) auto
next
  case (Cons r rs)
  obtain e es' where es: "es = e # es'" "reader_ok L I M r e" "list_all2 (reader_ok L I M) rs es'"
    using Cons.prems(5) by (auto simp: list_all2_Cons1)
  let ?m = "m_add_file_meta (mfb_manifest (sr_manifest sr)) l (table_reader_to_file_meta r)"
  have app: "list_all2 (reader_ok L I M) (sr_readers sr ! l @ [r]) (ls @ [e])"
    using Cons.prems(4) es(2) by (intro list_all2_appendI) auto
  obtain r1 l1 where r1: "r1 = (if l \<noteq> 0 then sort_readers (sr_readers sr ! l @ [r]) else sr_readers sr ! l @ [r])"
    "list_all2 (reader_ok L I M) r1 l1" "mset l1 = mset ls + {#e#}" "l \<noteq> 0 \<Longrightarrow> sorted (map (fst \<circ> hd) l1)"
    "l = 0 \<Longrightarrow> l1 = ls @ [e]"
  proof (cases "l = 0")
    case True
    with that [of "sr_readers sr ! l @ [r]" "ls @ [e]"] app show ?thesis by simp
  next
    case False
    from sort_readers_rel [OF app] obtain l1 where "list_all2 (reader_ok L I M) (sort_readers (sr_readers sr ! l @ [r])) l1"
      "mset l1 = mset (ls @ [e])" "sorted (map (fst \<circ> hd) l1)" by blast
    with that [of "sort_readers (sr_readers sr ! l @ [r])" l1] False show ?thesis by simp
  qed
  have mr: "mset r1 = mset (sr_readers sr ! l) + {#r#}" unfolding r1(1) by (simp add: sort_readers_def)
  let ?sr = "sr\<lparr>sr_manifest := (sr_manifest sr)\<lparr>mfb_manifest := ?m\<rparr>, sr_readers := (sr_readers sr)[l := r1]\<rparr>"
  have ll: "l < length (sr_readers sr)" using Cons.prems(1,2) by simp
  have step: "push_readers sr l (r # rs) = push_readers ?sr l rs"
    using Cons.prems(1,3) ll r1(1) by (simp add: mfb_add_file_meta_def idx_def Let_def)
  have h: "list_all2 (reader_ok L I M) (sr_readers ?sr ! l) l1" "length (sr_readers ?sr) = max_level opt"
    "mfb_opt (sr_manifest ?sr) = opt" using ll r1(2) Cons.prems(2,3) by simp_all
  from Cons.IH [OF Cons.prems(1) h(2,3,1) es(3) r1(4)] obtain m rs' ls' where ih: "push_readers ?sr l rs = Some (?sr\<lparr>sr_manifest := (sr_manifest ?sr)\<lparr>mfb_manifest := m\<rparr>,
        sr_readers := (sr_readers ?sr)[l := rs']\<rparr>)"
     "list_all2 (reader_ok L I M) rs' ls'" "mset rs' = mset (sr_readers ?sr ! l) + mset rs"
     "mset ls' = mset l1 + mset es'" "l = 0 \<longrightarrow> rs' = sr_readers ?sr ! l @ rs \<and> ls' = l1 @ es'"
     "l \<noteq> 0 \<longrightarrow> sorted (map (fst \<circ> hd) ls')"
     "\<forall>j. level_names m j = level_names (mfb_manifest (sr_manifest ?sr)) j @ (if j = l then map tr_file_name rs else [])"
    by blast
  have "push_readers sr l (r # rs) = Some (sr\<lparr>sr_manifest := (sr_manifest sr)\<lparr>mfb_manifest := m\<rparr>,
      sr_readers := (sr_readers sr)[l := rs']\<rparr>)"
    using ih(1) step by simp
  moreover have "level_names m j = level_names (mfb_manifest (sr_manifest sr)) j @
      (if j = l then map tr_file_name (r # rs) else [])" for j
    using ih(7) by (simp add: level_names_add table_reader_to_file_meta_def)
  moreover have "mset rs' = mset (sr_readers sr ! l) + mset (r # rs)" using ih(3) mr ll by simp
  moreover have "mset ls' = mset ls + mset es" using ih(4) r1(3) es(1) by simp
  moreover have "rs' = sr_readers sr ! l @ (r # rs) \<and> ls' = ls @ es" if "l = 0"
    using ih(5) r1(1,5) that ll es(1) by simp
  ultimately show ?case using ih(2,6) by blast
qed

text \<open>What adding needs of the new readers, and what it gives.\<close>

lemma add_readers_ok:
  assumes S: "bincode_manifest_ok S" and inv: "sr_inv S opt M sr d N lss" and d: "sorted_kv d" and l: "l < max_level opt"
    and rs: "list_all2 (reader_ok (tlibs S) (restart_interval opt) M) rs es"
    and st: "\<And>r. r \<in> set rs \<Longrightarrow> reader_stored d N r"
    and di: "distinct (map tr_file_name (concat (sr_readers sr) @ rs))"
    and dj: "l \<noteq> 0 \<Longrightarrow> disjoint_tables (lss ! l @ es)"
    and a: "add_readers S sr l rs d = Some (Inr (sr', d'))"
  shows "\<exists>ls'. sr_inv S opt M sr' d' N (lss[l := ls']) \<and> mset ls' = mset (lss ! l) + mset es \<and>
     (l = 0 \<longrightarrow> ls' = lss ! l @ es) \<and> sorted_kv d' \<and>
     (l = 0 \<longrightarrow> sr_readers sr' = (sr_readers sr)[l := sr_readers sr ! l @ rs]) \<and>
     (\<forall>n. n \<noteq> MANIFEST_FILENAME \<longrightarrow> map_of d' n = map_of d n)"
proof -
  note v = sr_invD [OF inv]
  note lv = levels_okD [OF v(5)]
  have ll: "l < length lss" "l < length (sr_readers sr)" using l v(3,10) by simp_all
  have sl: "l \<noteq> 0 \<Longrightarrow> sorted (map (fst \<circ> hd) (lss ! l))"
    using disjoint_tables_sorted(2) [OF tables_ok_readers [OF lv(2) [OF ll(1)]] lv(3) [OF ll(1)]] by simp
  from push_readers_ok [OF l v(10,2) lv(2) [OF ll(1)] rs sl] obtain m rs' ls' where
    p: "push_readers sr l rs = Some (sr\<lparr>sr_manifest := (sr_manifest sr)\<lparr>mfb_manifest := m\<rparr>,
        sr_readers := (sr_readers sr)[l := rs']\<rparr>)"
     "list_all2 (reader_ok (tlibs S) (restart_interval opt) M) rs' ls'" "mset rs' = mset (sr_readers sr ! l) + mset rs"
     "mset ls' = mset (lss ! l) + mset es" "l = 0 \<longrightarrow> rs' = sr_readers sr ! l @ rs \<and> ls' = lss ! l @ es"
     "l \<noteq> 0 \<longrightarrow> sorted (map (fst \<circ> hd) ls')"
     "\<forall>j. level_names m j = level_names (mfb_manifest (sr_manifest sr)) j @ (if j = l then map tr_file_name rs else [])"
    by blast
  let ?rss = "(sr_readers sr)[l := rs']"
  have sr': "sr' = sr\<lparr>sr_manifest := (sr_manifest sr)\<lparr>mfb_manifest := m\<rparr>, sr_readers := ?rss\<rparr>"
    and fl: "mfb_flush S ((sr_manifest sr)\<lparr>mfb_manifest := m\<rparr>) d = Some (Inr d')"
    using a p(1) l v(1) by (auto simp: add_readers_def tryO_eq_Ok split: if_splits)
  note f = flush_ok [OF S d fl]
  have lvl: "levels_ok (tlibs S) (restart_interval opt) M ?rss (lss[l := ls'])"
    unfolding levels_ok_def
  proof (intro conjI allI impI)
    show "list_all2 (list_all2 (reader_ok (tlibs S) (restart_interval opt) M)) ?rss (lss[l := ls'])"
      using v(5) p(2) by (intro list_all2_update_cong) (auto simp: levels_ok_def)
    fix i assume i: "i < length (lss[l := ls'])" "0 < i"
    show "disjoint_sorted (lss[l := ls'] ! i)"
    proof (cases "i = l")
      case True
      have "disjoint_tables ls'" by (rule disjoint_tables_mset [OF _ dj]) (use p(4) True i in auto)
      with True i p(6) ll(1) tables_ok_readers [OF p(2)] show ?thesis by (auto intro: disjoint_sortedI)
    qed (use lv(3) i in auto)
  qed
  have mc: "mset (concat ?rss) = mset (concat (sr_readers sr) @ rs)"
    using mset_update_concat [OF ll(2), of rs'] p(3) by simp
  have ds: "distinct (map tr_file_name (concat ?rss))"
    using di mc by (metis mset_eq_imp_distinct_iff mset_map)
  have stored: "reader_stored d' N r" if "r \<in> set (concat ?rss)" for r
  proof -
    have "r \<in> set (concat (sr_readers sr)) \<union> set rs" using that mset_eq_setD [OF mc] by auto
    then have "reader_stored d N r" using v(7) st by blast
    then show ?thesis using f(3) manifest_name by (auto simp: reader_stored_def)
  qed
  have ag: "manifest_agrees m ?rss"
    unfolding manifest_agrees_def
  proof (intro conjI allI impI)
    fix i
    show "mset (level_names m i) = mset (map tr_file_name (if i < length ?rss then ?rss ! i else []))"
      using v(8) p(3,7) ll(2) by (cases "i = l") (auto simp: manifest_agrees_def nth_list_update)
  next
    assume "?rss \<noteq> []"
    then show "level_names m 0 = map tr_file_name (?rss ! 0)"
      using v(8) p(5,7) ll(2) by (cases "l = 0") (auto simp: manifest_agrees_def)
  qed
  have "sr_inv S opt M sr' d' N (lss[l := ls'])"
    unfolding sr_inv_def using v(1-4) lvl ds stored ag f(2) sr' by simp
  then show ?thesis using p(4,5) f(1,3) sr' by auto
qed

subsection \<open>Removing readers\<close>

lemma remove_files_ok:
  assumes "distinct names" "sorted_kv d" "\<forall>n \<in> set names. map_of d n \<noteq> None"
  shows "\<exists>d'. remove_files names d = Inr d' \<and> sorted_kv d' \<and>
    (\<forall>n. map_of d' n = (if n \<in> set names then None else map_of d n))"
  using assms
proof (induction names arbitrary: d)
  case (Cons n names)
  obtain f where "map_of d n = Some f" using Cons.prems(3) by auto
  then have r: "remove_file n d = Inr (del_kv n d)" by (simp add: remove_file_def)
  have m: "map_of (del_kv n d) = (map_of d)(n := None)" by (rule map_of_del_kv [OF Cons.prems(2)])
  have "\<forall>x \<in> set names. map_of (del_kv n d) x \<noteq> None" using Cons.prems(1,3) m by auto
  from Cons.IH [OF _ sorted_del_kv [OF Cons.prems(2)] this] Cons.prems(1) obtain d' where
    "remove_files names (del_kv n d) = Inr d'" "sorted_kv d'"
    "\<forall>x. map_of d' x = (if x \<in> set names then None else map_of (del_kv n d) x)" by auto
  with r m show ?case by auto
qed simp

text \<open>The entries of the readers that stay.\<close>

definition kept :: "'f table_reader list \<Rightarrow> entry list list \<Rightarrow> string list \<Rightarrow> entry list list" where
  "kept rs ls names = map snd (filter (\<lambda>p. tr_file_name (fst p) \<notin> set names) (zip rs ls))"

lemma kept_rel:
  assumes "list_all2 P rs ls"
  shows "list_all2 P (filter (\<lambda>r. tr_file_name r \<notin> set names) rs) (kept rs ls names)"
  using assms by (induction rule: list_all2_induct) (auto simp: kept_def)

lemma kept_sorted: "length rs = length ls \<Longrightarrow> disjoint_sorted ls \<Longrightarrow> disjoint_sorted (kept rs ls names)"
proof -
  assume l: "length rs = length ls" and s: "disjoint_sorted ls"
  have "sorted_wrt (\<lambda>a b. fst (last (snd a)) < fst (hd (snd b))) (zip rs ls)"
    using s l by (auto simp: disjoint_sorted_def sorted_wrt_iff_nth_less)
  then show ?thesis by (auto simp: disjoint_sorted_def kept_def sorted_wrt_map intro: sorted_wrt_filter)
qed

lemma mset_cancel: "A + R = D + C \<Longrightarrow> R = B + C \<Longrightarrow> A + B = (D :: 'a multiset)"
  by (simp add: add.assoc [symmetric])

lemma level_kept:
  assumes "distinct (map tr_file_name (concat rss))" "l < length rss" "set names \<subseteq> tr_file_name ` set (rss ! l)"
  defines "rss' \<equiv> rss[l := filter (\<lambda>r. tr_file_name r \<notin> set names) (rss ! l)]"
  shows "distinct (map tr_file_name (concat rss'))" "set (concat rss') \<subseteq> set (concat rss)"
    "r \<in> set (concat rss') \<Longrightarrow> tr_file_name r \<notin> set names"
proof -
  let ?rs = "rss ! l" and ?rs' = "filter (\<lambda>r. tr_file_name r \<notin> set names) (rss ! l)"
  let ?out = "filter (\<lambda>r. tr_file_name r \<in> set names) ?rs"
  have "mset (concat rss') + mset ?out = mset (concat rss)"
  proof (rule mset_cancel)
    show "mset (concat rss') + mset ?rs = mset (concat rss) + mset ?rs'"
      unfolding rss'_def by (rule mset_update_concat [OF assms(2)])
    show "mset ?rs = mset ?out + mset ?rs'"
      using multiset_partition [of "mset ?rs" "\<lambda>r. tr_file_name r \<in> set names"] by (simp only: mset_filter)
  qed
  then have mo: "mset (concat rss' @ ?out) = mset (concat rss)" by (simp only: mset_append)
  have "mset (map tr_file_name (concat rss' @ ?out)) = mset (map tr_file_name (concat rss))" unfolding mset_map mo ..
  then have ds: "distinct (map tr_file_name (concat rss' @ ?out))" using assms(1) mset_eq_imp_distinct_iff by blast
  then show "distinct (map tr_file_name (concat rss'))" by simp
  show "set (concat rss') \<subseteq> set (concat rss)" using mset_eq_setD [OF mo] by auto
  assume r: "r \<in> set (concat rss')"
  show "tr_file_name r \<notin> set names"
  proof
    assume "tr_file_name r \<in> set names"
    then have "tr_file_name r \<in> tr_file_name ` set ?out" using assms(3) by auto
    moreover have "tr_file_name r \<in> set (map tr_file_name (concat rss'))" using r by (metis image_eqI set_map)
    ultimately show False using ds unfolding map_append distinct_append by auto
  qed
qed

lemma levels_ok_kept:
  assumes lv: "levels_ok L n M rss lss" and l: "l < length lss"
  shows "levels_ok L n M (rss[l := filter (\<lambda>r. tr_file_name r \<notin> set names) (rss ! l)])
     (lss[l := kept (rss ! l) (lss ! l) names])" (is "levels_ok L n M ?rss ?lss")
  unfolding levels_ok_def
proof (intro conjI allI impI)
  note d = levels_okD [OF lv]
  show "list_all2 (list_all2 (reader_ok L n M)) ?rss ?lss"
    using lv kept_rel [OF d(2) [OF l]] by (intro list_all2_update_cong) (auto simp: levels_ok_def)
  fix i assume i: "i < length ?lss" "0 < i"
  show "disjoint_sorted (?lss ! i)"
    using d(3) i kept_sorted [OF list_all2_lengthD [OF d(2) [OF l]]] by (cases "i = l") auto
qed

lemma manifest_agrees_remove:
  assumes ag: "manifest_agrees m rss" and l: "l < length rss"
  shows "manifest_agrees (m_remove_by_file_names m l names) (rss[l := filter (\<lambda>r. tr_file_name r \<notin> set names) (rss ! l)])"
    (is "manifest_agrees ?m ?rss")
  unfolding manifest_agrees_def
proof (intro conjI allI impI)
  have fm: "filter (\<lambda>x. x \<notin> set names) (map tr_file_name xs) = map tr_file_name (filter (\<lambda>r. tr_file_name r \<notin> set names) xs)" for xs
    by (simp add: filter_map comp_def)
  have ml: "mset (level_names m l) = mset (map tr_file_name (rss ! l))" using ag l by (simp add: manifest_agrees_def)
  fix i
  show "mset (level_names ?m i) = mset (map tr_file_name (if i < length ?rss then ?rss ! i else []))"
  proof (cases "i = l")
    case True
    have "mset (filter (\<lambda>x. x \<notin> set names) (level_names m l)) = mset (filter (\<lambda>x. x \<notin> set names) (map tr_file_name (rss ! l)))"
      by (simp only: mset_filter ml)
    with True l show ?thesis unfolding fm by (simp add: level_names_remove)
  qed (use ag in \<open>auto simp: manifest_agrees_def level_names_remove\<close>)
next
  assume "?rss \<noteq> []"
  then show "level_names ?m 0 = map tr_file_name (?rss ! 0)"
    using ag l by (cases "l = 0") (auto simp: manifest_agrees_def level_names_remove filter_map comp_def)
qed

lemma remove_by_file_names_Ok:
  assumes "remove_by_file_names S sr l names d = Some (Inr (sr', d'))" "l < max_level (sr_opt sr)" "l < length (sr_readers sr)"
    and "mfb_opt (sr_manifest sr) = sr_opt sr"
  obtains d1 where "mfb_flush S ((sr_manifest sr)\<lparr>mfb_manifest := m_remove_by_file_names (mfb_manifest (sr_manifest sr)) l names\<rparr>) d = Some (Inr d1)"
    "remove_files names d1 = Inr d'"
    "sr' = sr\<lparr>sr_manifest := (sr_manifest sr)\<lparr>mfb_manifest := m_remove_by_file_names (mfb_manifest (sr_manifest sr)) l names\<rparr>,
      sr_readers := (sr_readers sr)[l := filter (\<lambda>r. tr_file_name r \<notin> set names) (sr_readers sr ! l)]\<rparr>"
proof -
  let ?mb = "(sr_manifest sr)\<lparr>mfb_manifest := m_remove_by_file_names (mfb_manifest (sr_manifest sr)) l names\<rparr>"
  let ?sr = "sr\<lparr>sr_manifest := ?mb, sr_readers := (sr_readers sr)[l := filter (\<lambda>r. tr_file_name r \<notin> set names) (sr_readers sr ! l)]\<rparr>"
  have "remove_by_file_names S sr l names d = tryO (mfb_flush S ?mb d)
      (\<lambda>d1. case remove_files names d1 of Inl e \<Rightarrow> Some (Inl e) | Inr d2 \<Rightarrow> Some (Inr (?sr, d2)))"
    using assms(2-4) by (simp add: remove_by_file_names_def mfb_remove_by_file_names_def idx_def Let_def)
  with assms(1) obtain d1 where fl: "mfb_flush S ?mb d = Some (Inr d1)"
    and c: "(case remove_files names d1 of Inl e \<Rightarrow> Some (Inl e) | Inr d2 \<Rightarrow> Some (Inr (?sr, d2))) = Some (Inr (sr', d'))"
    by (auto simp: tryO_eq_Ok)
  show ?thesis using fl c by (cases "remove_files names d1") (auto intro: that)
qed

lemma remove_by_file_names_ok:
  assumes S: "bincode_manifest_ok S" and inv: "sr_inv S opt M sr d N lss" and d: "sorted_kv d" and l: "l < max_level opt"
    and n: "distinct names" "set names \<subseteq> tr_file_name ` set (sr_readers sr ! l)"
    and a: "remove_by_file_names S sr l names d = Some (Inr (sr', d'))"
  shows "sr_inv S opt M sr' d' N (lss[l := kept (sr_readers sr ! l) (lss ! l) names]) \<and> sorted_kv d' \<and>
     sr_readers sr' = (sr_readers sr)[l := filter (\<lambda>r. tr_file_name r \<notin> set names) (sr_readers sr ! l)] \<and>
     (\<forall>x. x \<noteq> MANIFEST_FILENAME \<longrightarrow> x \<notin> set names \<longrightarrow> map_of d' x = map_of d x)"
proof -
  note v = sr_invD [OF inv]
  have ll: "l < length lss" "l < length (sr_readers sr)" using l v(3,10) by simp_all
  let ?rss = "(sr_readers sr)[l := filter (\<lambda>r. tr_file_name r \<notin> set names) (sr_readers sr ! l)]"
  let ?m = "m_remove_by_file_names (mfb_manifest (sr_manifest sr)) l names"
  obtain d1 where fl: "mfb_flush S ((sr_manifest sr)\<lparr>mfb_manifest := ?m\<rparr>) d = Some (Inr d1)" and rm: "remove_files names d1 = Inr d'"
    and sr': "sr' = sr\<lparr>sr_manifest := (sr_manifest sr)\<lparr>mfb_manifest := ?m\<rparr>, sr_readers := ?rss\<rparr>"
    by (rule remove_by_file_names_Ok [OF a, unfolded v(1,2), OF l ll(2) refl])
  note f = flush_ok [OF S d fl] and k = level_kept [OF v(6) ll(2) n(2)]
  have st: "x \<noteq> MANIFEST_FILENAME \<and> map_of d x \<noteq> None" if "x \<in> set names" for x
  proof -
    from that n(2) obtain r where r: "r \<in> set (sr_readers sr ! l)" "x = tr_file_name r" by auto
    then have "reader_stored d N r" using v(7) ll(2) nth_mem by fastforce
    with r(2) show ?thesis using manifest_name by (auto simp: reader_stored_def)
  qed
  have "map_of d1 x \<noteq> None" if "x \<in> set names" for x using st [OF that] f(3) by simp
  with remove_files_ok [OF n(1) f(1)] rm have d': "sorted_kv d'"
    "\<And>x. map_of d' x = (if x \<in> set names then None else map_of d1 x)" by auto
  have mf: "manifest_load S d' = Some (Inr ?m)" using f(2) d'(2) [of MANIFEST_FILENAME] st by (auto simp: manifest_load_def)
  have stored: "reader_stored d' N r" if "r \<in> set (concat ?rss)" for r
  proof -
    have "reader_stored d N r" using that k(2) by (intro v(7)) auto
    with k(3) [OF that] show ?thesis using f(3) d'(2) manifest_name by (auto simp: reader_stored_def)
  qed
  have "sr_inv S opt M sr' d' N (lss[l := kept (sr_readers sr ! l) (lss ! l) names])"
    unfolding sr_inv_def
    using v(1-4) levels_ok_kept [OF v(5) ll(1)] k(1) stored manifest_agrees_remove [OF v(8) ll(2)] mf sr' by simp
  then show ?thesis using d' f(3) sr' by simp
qed

subsection \<open>Loading\<close>

lemma mset_map_exists: "mset ys = mset (map f xs) \<Longrightarrow> \<exists>zs. map f zs = ys \<and> mset zs = mset xs"
proof (induction ys arbitrary: xs)
  case (Cons y ys)
  then have "y \<in> set (map f xs)" by (metis list.set_intros(1) mset_eq_setD)
  then obtain x where x: "x \<in> set xs" "y = f x" by auto
  have "mset ys = mset (map f (remove1 x xs))"
  proof -
    have "mset xs = add_mset x (mset (remove1 x xs))" using x(1) by simp
    then have "mset (map f xs) = add_mset (f x) (mset (map f (remove1 x xs)))"
      by (metis image_mset_add_mset mset_map)
    with Cons.prems x(2) show ?thesis by simp
  qed
  from Cons.IH [OF this] obtain zs where "map f zs = ys" "mset zs = mset (remove1 x xs)" by blast
  then have "map f (x # zs) = y # ys" "mset (x # zs) = mset xs" using x by (simp_all add: insert_DiffM)
  then show ?case by metis
qed simp

definition ident :: "'f table_reader \<Rightarrow> string \<times> bytes" where
  "ident r = (tr_file_name r, tr_file r)"

lemma load_readers_ok:
  assumes L: "fixed_ok (tlibs S)"
  shows "list_all2 (\<lambda>fm q. file_name fm = fst (ident (fst q)) \<and> map_of d (file_name fm) = Some (snd (ident (fst q))) \<and>
      reader_ok (tlibs S) I M0 (fst q) (snd q)) fms qs \<Longrightarrow> cache_ok (tlibs S) M c \<Longrightarrow>
    cache_id c + length fms < usize_bound \<Longrightarrow>
    \<exists>rs c' M'. load_readers S opt fms d c = Some (Inr (rs, c')) \<and>
      list_all2 (reader_ok (tlibs S) I M') rs (map snd qs) \<and> map ident rs = map (ident \<circ> fst) qs \<and>
      cache_ok (tlibs S) M' c' \<and> M \<subseteq>\<^sub>m M' \<and> cache_id c' = cache_id c + length fms"
proof (induction fms qs arbitrary: c M rule: list_all2_induct)
  case Nil
  have "M \<subseteq>\<^sub>m M" by simp
  with Nil show ?case by auto
next
  case (Cons fm fms q qs)
  have z: "sst_file (tlibs S) I (tr_file (fst q)) (snd q)" "zero_extension_free (snd q)"
    using Cons.hyps(1) by (auto simp: reader_ok_def)
  have m: "map_of d (file_name fm) = Some (tr_file (fst q))" "file_name fm = tr_file_name (fst q)"
    using Cons.hyps(1) by (auto simp: ident_def)
  obtain r M1 where r: "open_table S opt (file_name fm) d c = Some (Inr (r, snd (new_cache_id c)))"
    "reader_ok (tlibs S) I M1 r (snd q)" "tr_file_name r = file_name fm" "tr_file r = tr_file (fst q)"
    "cache_ok (tlibs S) M1 (snd (new_cache_id c))" "M \<subseteq>\<^sub>m M1"
    using open_table_ok [OF z L Cons.prems(1) _ m(1), of opt] Cons.prems(2) by auto
  have "cache_id (snd (new_cache_id c)) + length fms < usize_bound"
    using Cons.prems(2) by (simp add: new_cache_id_def)
  from Cons.IH [OF r(5) this] obtain rs c' M' where
    rs: "load_readers S opt fms d (snd (new_cache_id c)) = Some (Inr (rs, c'))"
      "list_all2 (reader_ok (tlibs S) I M') rs (map snd qs)" "map ident rs = map (ident \<circ> fst) qs"
      "cache_ok (tlibs S) M' c'" "M1 \<subseteq>\<^sub>m M'" "cache_id c' = cache_id (snd (new_cache_id c)) + length fms" by blast
  have "M \<subseteq>\<^sub>m M'" by (rule map_le_trans [OF r(6) rs(5)])
  moreover have "ident r = ident (fst q)" using r(3,4) m(2) by (simp add: ident_def)
  ultimately show ?case
    using r(1) rs reader_ok_mono [OF r(2) rs(5)] by (auto simp: new_cache_id_def)
qed

text \<open>One level: the readers of its names, sorted unless it is level 0.\<close>

lemma map_fst_of_zip: "length xs = length ys \<Longrightarrow> map (\<lambda>q. f (fst q)) (zip xs ys) = map f xs"
  by (induction xs ys rule: list_induct2) simp_all

lemma matching:
  assumes "mset ns = mset (map f zs)" "same \<Longrightarrow> ns = map f zs"
  obtains qs where "map f qs = ns" "mset qs = mset zs" "same \<Longrightarrow> qs = zs"
proof (cases same)
  case True
  with assms(2) show ?thesis by (intro that [of zs]) auto
next
  case False
  with mset_map_exists [OF assms(1)] that show ?thesis by blast
qed

text \<open>The readers of a level and their entries, in the order of the manifest.\<close>

lemma level_in_manifest:
  assumes inv: "sr_inv S opt M0 sr d N lss" and i: "i < max_level opt"
  obtains qs where "map (\<lambda>q. tr_file_name (fst q)) qs = level_names (mfb_manifest (sr_manifest sr)) i"
    "mset (map snd qs) = mset (lss ! i)" "mset (map (ident \<circ> fst) qs) = mset (map ident (sr_readers sr ! i))"
    "i = 0 \<Longrightarrow> map fst qs = sr_readers sr ! i \<and> map snd qs = lss ! i"
    "\<And>q. q \<in> set qs \<Longrightarrow> reader_ok (tlibs S) (restart_interval opt) M0 (fst q) (snd q) \<and>
        map_of d (tr_file_name (fst q)) = Some (tr_file (fst q))"
proof -
  note v = sr_invD [OF inv]
  let ?rs = "sr_readers sr ! i" and ?ls = "lss ! i" and ?ns = "level_names (mfb_manifest (sr_manifest sr)) i"
  have il: "i < length lss" "i < length (sr_readers sr)" using i v(3,10) by simp_all
  have rel: "list_all2 (reader_ok (tlibs S) (restart_interval opt) M0) ?rs ?ls" by (rule levels_okD(2) [OF v(5) il(1)])
  then have len: "length ?rs = length ?ls" by (rule list_all2_lengthD)
  have fz: "map (\<lambda>q. tr_file_name (fst q)) (zip ?rs ?ls) = map tr_file_name ?rs"
    by (rule map_fst_of_zip [OF len])
  have "mset ?ns = mset (map (\<lambda>q. tr_file_name (fst q)) (zip ?rs ?ls))"
    unfolding fz using v(8) il(2) by (simp add: manifest_agrees_def)
  moreover have "?ns = map (\<lambda>q. tr_file_name (fst q)) (zip ?rs ?ls)" if "i = 0"
    unfolding fz using that v(8) il(2) by (auto simp: manifest_agrees_def)
  ultimately obtain qs where qs: "map (\<lambda>q. tr_file_name (fst q)) qs = ?ns" "mset qs = mset (zip ?rs ?ls)" "i = 0 \<Longrightarrow> qs = zip ?rs ?ls"
    by (rule matching [where same = "i = 0"]) (assumption, rule that)
  have "mset (map snd qs) = mset ?ls" using qs(2) len by (metis map_snd_zip mset_map)
  moreover have "mset (map (ident \<circ> fst) qs) = mset (map ident ?rs)"
    using qs(2) map_fst_of_zip [OF len, of ident] by (simp add: comp_def) (metis mset_map)
  moreover have "map fst qs = ?rs \<and> map snd qs = ?ls" if "i = 0" using qs(3) [OF that] len by simp
  moreover have "reader_ok (tlibs S) (restart_interval opt) M0 (fst q) (snd q) \<and> map_of d (tr_file_name (fst q)) = Some (tr_file (fst q))"
    if "q \<in> set qs" for q
  proof -
    have q: "q \<in> set (zip ?rs ?ls)" using that qs(2) by (metis mset_eq_setD)
    then have "fst q \<in> set ?rs" by (metis prod.collapse set_zip_leftD)
    then have "fst q \<in> set (concat (sr_readers sr))" using il(2) nth_mem by fastforce
    from v(7) [OF this] q rel show ?thesis by (auto simp: list_all2_iff reader_stored_def)
  qed
  ultimately show ?thesis using that qs(1) by blast
qed

lemma metas_match:
  assumes "map file_name fms = map (\<lambda>q. tr_file_name (fst q)) qs"
    and "\<And>q. q \<in> set qs \<Longrightarrow> reader_ok L n M (fst q) (snd q) \<and> map_of d (tr_file_name (fst q)) = Some (tr_file (fst q))"
  shows "list_all2 (\<lambda>fm q. file_name fm = fst (ident (fst q)) \<and> map_of d (file_name fm) = Some (snd (ident (fst q))) \<and>
     reader_ok L n M (fst q) (snd q)) fms qs"
  using assms
proof (induction fms arbitrary: qs)
  case (Cons fm fms)
  then show ?case by (cases qs) (auto simp: ident_def)
qed auto

lemma sort_level:
  fixes i :: nat
  assumes rs: "list_all2 (reader_ok L n M) rs es" and ls: "list_all2 (reader_ok L n M0) rs0 ls" "mset es = mset ls"
    and i: "i = 0 \<Longrightarrow> es = ls" "i \<noteq> 0 \<Longrightarrow> disjoint_sorted ls"
  shows "list_all2 (reader_ok L n M) (if i \<noteq> 0 then sort_readers rs else rs) ls"
proof (cases "i = 0")
  case True
  with rs i(1) show ?thesis by simp
next
  case False
  from sort_readers_rel [OF rs] obtain ls' where ls': "list_all2 (reader_ok L n M) (sort_readers rs) ls'"
    "mset ls' = mset es" "sorted (map (fst \<circ> hd) ls')" by blast
  have "ls' = ls"
    by (rule disjoint_sorted_unique [OF _ tables_ok_readers [OF ls(1)] i(2) [OF False] ls'(3)]) (use ls'(2) ls(2) in simp)
  with ls'(1) False show ?thesis by simp
qed

lemma load_level_ok:
  assumes L: "fixed_ok (tlibs S)" and inv: "sr_inv S opt M0 sr d N lss" and i: "i < max_level opt"
    and c: "cache_ok (tlibs S) M c" "cache_id c + length (lss ! i) < usize_bound"
  shows "\<exists>rs c' M'. (case mfb_file_metas \<lparr>mfb_opt = opt, mfb_manifest = mfb_manifest (sr_manifest sr)\<rparr> i of
        None \<Rightarrow> Some (Inr ([], c))
      | Some fms \<Rightarrow> tryO (load_readers S opt fms d c) (\<lambda>(rs, c1).
          Some (Inr (if i \<noteq> 0 then sort_readers rs else rs, c1)))) = Some (Inr (rs, c')) \<and>
     list_all2 (reader_ok (tlibs S) (restart_interval opt) M') rs (lss ! i) \<and>
     mset (map ident rs) = mset (map ident (sr_readers sr ! i)) \<and>
     (i = 0 \<longrightarrow> map ident rs = map ident (sr_readers sr ! i)) \<and>
     cache_ok (tlibs S) M' c' \<and> M \<subseteq>\<^sub>m M' \<and> cache_id c' = cache_id c + length (lss ! i)"
proof -
  note v = sr_invD [OF inv]
  note lv = levels_okD [OF v(5)]
  let ?m = "mfb_manifest (sr_manifest sr)" and ?rs = "sr_readers sr ! i" and ?ls = "lss ! i"
  have il: "i < length lss" using i v(3) by simp
  obtain qs where qs: "map (\<lambda>q. tr_file_name (fst q)) qs = level_names ?m i" "mset (map snd qs) = mset ?ls"
    "mset (map (ident \<circ> fst) qs) = mset (map ident ?rs)" "i = 0 \<Longrightarrow> map fst qs = ?rs \<and> map snd qs = ?ls"
    "\<And>q. q \<in> set qs \<Longrightarrow> reader_ok (tlibs S) (restart_interval opt) M0 (fst q) (snd q) \<and>
        map_of d (tr_file_name (fst q)) = Some (tr_file (fst q))"
    using inv i by (rule level_in_manifest) (rule that)
  show ?thesis
  proof (cases "length (level_metas ?m) \<le> i")
    case True
    then have "qs = []" using qs(1) by (simp add: level_names_def)
    then have e: "?ls = []" "?rs = []" using qs(2,3) by auto
    have "M \<subseteq>\<^sub>m M" by simp
    with True e c(1) show ?thesis by (auto simp: mfb_file_metas_def m_file_metas_def)
  next
    case False
    let ?fms = "file_metas (level_metas ?m ! i)"
    have nm: "map file_name ?fms = map (\<lambda>q. tr_file_name (fst q)) qs" using qs(1) False by (simp add: level_names_def)
    have lf: "length ?fms = length qs" "length qs = length ?ls"
      using nm qs(2) by (metis length_map, metis length_map size_mset)
    have "list_all2 (\<lambda>fm q. file_name fm = fst (ident (fst q)) \<and> map_of d (file_name fm) = Some (snd (ident (fst q))) \<and>
      reader_ok (tlibs S) (restart_interval opt) M0 (fst q) (snd q)) ?fms qs"
      by (rule metas_match [OF nm qs(5)])
    from load_readers_ok [OF L this c(1), of opt] c(2) lf obtain rs c' M' where
      r: "load_readers S opt ?fms d c = Some (Inr (rs, c'))"
        "list_all2 (reader_ok (tlibs S) (restart_interval opt) M') rs (map snd qs)" "map ident rs = map (ident \<circ> fst) qs"
        "cache_ok (tlibs S) M' c'" "M \<subseteq>\<^sub>m M'" "cache_id c' = cache_id c + length ?ls" by auto
    let ?rs' = "if i \<noteq> 0 then sort_readers rs else rs"
    have "list_all2 (reader_ok (tlibs S) (restart_interval opt) M') ?rs' ?ls"
      by (rule sort_level [OF r(2) lv(2) [OF il] qs(2)]) (use qs(4) lv(3) [OF il] in auto)
    moreover have "mset (map ident ?rs') = mset (map ident ?rs)" unfolding qs(3) [symmetric] r(3) [symmetric] by (simp add: sort_readers_def)
    moreover have "map ident ?rs' = map ident ?rs" if "i = 0" using r(3) qs(4) [OF that] that by (simp del: map_map add: map_map [symmetric])
    ultimately show ?thesis using r(1,4-6) False by (auto simp: mfb_file_metas_def m_file_metas_def)
  qed
qed

lemma load_levels_ok:
  assumes L: "fixed_ok (tlibs S)" and inv: "sr_inv S opt M0 sr d N lss"
  shows "\<forall>i \<in> set is. i < max_level opt \<Longrightarrow> cache_ok (tlibs S) M c \<Longrightarrow>
    cache_id c + length (concat (map (\<lambda>i. lss ! i) is)) < usize_bound \<Longrightarrow>
    \<exists>rss c' M'. load_levels S \<lparr>mfb_opt = opt, mfb_manifest = mfb_manifest (sr_manifest sr)\<rparr> opt is d c = Some (Inr (rss, c')) \<and>
      list_all2 (\<lambda>rs i. list_all2 (reader_ok (tlibs S) (restart_interval opt) M') rs (lss ! i) \<and>
        mset (map ident rs) = mset (map ident (sr_readers sr ! i)) \<and>
        (i = 0 \<longrightarrow> map ident rs = map ident (sr_readers sr ! i))) rss is \<and>
      cache_ok (tlibs S) M' c' \<and> M \<subseteq>\<^sub>m M' \<and> cache_id c' = cache_id c + length (concat (map (\<lambda>i. lss ! i) is))"
proof (induction "is" arbitrary: c M)
  case Nil
  have "M \<subseteq>\<^sub>m M" by simp
  with Nil show ?case by auto
next
  case (Cons i "is")
  have i: "i < max_level opt" "cache_id c + length (lss ! i) < usize_bound" using Cons.prems by simp_all
  from load_level_ok [OF L inv i(1) Cons.prems(2) i(2)] obtain rs c1 M1 where
    r: "(case mfb_file_metas \<lparr>mfb_opt = opt, mfb_manifest = mfb_manifest (sr_manifest sr)\<rparr> i of
        None \<Rightarrow> Some (Inr ([], c))
      | Some fms \<Rightarrow> tryO (load_readers S opt fms d c) (\<lambda>(rs, c1).
          Some (Inr (if i \<noteq> 0 then sort_readers rs else rs, c1)))) = Some (Inr (rs, c1))"
     "list_all2 (reader_ok (tlibs S) (restart_interval opt) M1) rs (lss ! i)"
     "mset (map ident rs) = mset (map ident (sr_readers sr ! i))"
     "i = 0 \<longrightarrow> map ident rs = map ident (sr_readers sr ! i)"
     "cache_ok (tlibs S) M1 c1" "M \<subseteq>\<^sub>m M1" "cache_id c1 = cache_id c + length (lss ! i)" by blast
  have "\<forall>i \<in> set is. i < max_level opt" "cache_id c1 + length (concat (map (\<lambda>i. lss ! i) is)) < usize_bound"
    using Cons.prems(1,3) r(7) by simp_all
  from Cons.IH [OF this(1) r(5) this(2)] obtain rss c' M' where
    s: "load_levels S \<lparr>mfb_opt = opt, mfb_manifest = mfb_manifest (sr_manifest sr)\<rparr> opt is d c1 = Some (Inr (rss, c'))"
      "list_all2 (\<lambda>rs i. list_all2 (reader_ok (tlibs S) (restart_interval opt) M') rs (lss ! i) \<and>
        mset (map ident rs) = mset (map ident (sr_readers sr ! i)) \<and>
        (i = 0 \<longrightarrow> map ident rs = map ident (sr_readers sr ! i))) rss is"
      "cache_ok (tlibs S) M' c'" "M1 \<subseteq>\<^sub>m M'" "cache_id c' = cache_id c1 + length (concat (map (\<lambda>i. lss ! i) is))" by blast
  have "load_levels S \<lparr>mfb_opt = opt, mfb_manifest = mfb_manifest (sr_manifest sr)\<rparr> opt (i # is) d c = Some (Inr (rs # rss, c'))"
    unfolding load_levels.simps r(1) using s(1) by simp
  moreover have "list_all2 (reader_ok (tlibs S) (restart_interval opt) M') rs (lss ! i)"
    using r(2) by (rule list_all2_mono) (rule reader_ok_mono [OF _ s(4)])
  moreover have "M \<subseteq>\<^sub>m M'" by (rule map_le_trans [OF r(6) s(4)])
  ultimately show ?case using r(3,4,7) s by auto
qed

lemma ident_names: "mset (map ident rs) = mset (map ident rs') \<Longrightarrow> mset (map tr_file_name rs) = mset (map tr_file_name rs')"
proof -
  assume "mset (map ident rs) = mset (map ident rs')"
  then have "image_mset fst (mset (map ident rs)) = image_mset fst (mset (map ident rs'))" by simp
  then show ?thesis by (simp add: ident_def image_mset.compositionality comp_def)
qed

text \<open>Readers with the same names and files, over the same entries, are as good.\<close>

lemma sr_inv_ident:
  assumes inv: "sr_inv S opt M0 sr d N lss" and len: "length rss = max_level opt"
    and lv: "\<And>i. i < max_level opt \<Longrightarrow> list_all2 (reader_ok (tlibs S) (restart_interval opt) M) (rss ! i) (lss ! i)"
    and id: "\<And>i. i < max_level opt \<Longrightarrow> mset (map ident (rss ! i)) = mset (map ident (sr_readers sr ! i))"
    and id0: "0 < max_level opt \<Longrightarrow> map ident (rss ! 0) = map ident (sr_readers sr ! 0)"
  shows "sr_inv S opt M \<lparr>sr_opt = opt, sr_readers = rss,
     sr_manifest = \<lparr>mfb_opt = opt, mfb_manifest = mfb_manifest (sr_manifest sr)\<rparr>\<rparr> d N lss"
proof -
  note v = sr_invD [OF inv]
  have levels: "levels_ok (tlibs S) (restart_interval opt) M rss lss"
    using lv len v(3) levels_okD(3) [OF v(5)] by (simp add: levels_ok_def list_all2_conv_all_nth)
  have "map (mset \<circ> map ident) rss = map (mset \<circ> map ident) (sr_readers sr)"
    using id len v(10) by (intro nth_equalityI) auto
  then have "sum_list (map (mset \<circ> map ident) rss) = sum_list (map (mset \<circ> map ident) (sr_readers sr))" by simp
  then have c: "mset (map ident (concat rss)) = mset (map ident (concat (sr_readers sr)))"
    by (simp add: mset_concat map_concat comp_def)
  have "distinct (map tr_file_name (concat rss))" using v(6) ident_names [OF c] mset_eq_imp_distinct_iff by blast
  moreover have "reader_stored d N r" if "r \<in> set (concat rss)" for r
  proof -
    have "ident r \<in> set (map ident (concat rss))" using that by (metis image_eqI set_map)
    then have "ident r \<in> set (map ident (concat (sr_readers sr)))" using mset_eq_setD [OF c] by simp
    then obtain r' where "r' \<in> set (concat (sr_readers sr))" "ident r = ident r'" unfolding set_map by blast
    with v(7) show ?thesis by (auto simp: reader_stored_def ident_def)
  qed
  moreover have "manifest_agrees (mfb_manifest (sr_manifest sr)) rss"
    unfolding manifest_agrees_def
  proof (intro conjI allI impI)
    fix i
    show "mset (level_names (mfb_manifest (sr_manifest sr)) i) = mset (map tr_file_name (if i < length rss then rss ! i else []))"
      using v(8,10) len ident_names [OF id, of i] by (auto simp: manifest_agrees_def)
  next
    assume "rss \<noteq> []"
    then have p: "0 < max_level opt" using len by (metis length_greater_0_conv)
    have "map tr_file_name (rss ! 0) = map fst (map ident (rss ! 0))" by (simp add: ident_def comp_def)
    also have "\<dots> = map tr_file_name (sr_readers sr ! 0)" unfolding id0 [OF p] by (simp add: ident_def comp_def)
    finally show "level_names (mfb_manifest (sr_manifest sr)) 0 = map tr_file_name (rss ! 0)"
      using v(8,10) p by (auto simp: manifest_agrees_def)
  qed
  ultimately show ?thesis using v(3,4,9) levels by (simp add: sr_inv_def)
qed

text \<open>Loading from the files gives back the tables.\<close>

lemma sr_new_ok:
  assumes L: "fixed_ok (tlibs S)" and inv: "sr_inv S opt M0 sr d N lss"
    and c: "cache_ok (tlibs S) M c" "cache_id c + length (concat lss) < usize_bound"
  shows "\<exists>sr' c' M'. sr_new S opt d c = Some (Inr (sr', c')) \<and> sr_inv S opt M' sr' d N lss \<and>
     sr_manifest sr' = \<lparr>mfb_opt = opt, mfb_manifest = mfb_manifest (sr_manifest sr)\<rparr> \<and>
     cache_ok (tlibs S) M' c' \<and> M \<subseteq>\<^sub>m M' \<and> cache_id c' = cache_id c + length (concat lss)"
proof -
  note v = sr_invD [OF inv]
  let ?is = "[0..<max_level opt]"
  have lc: "map (\<lambda>i. lss ! i) ?is = lss" using v(3) by (metis map_nth)
  have mb: "mfb_new S opt d = Some (Inr \<lparr>mfb_opt = opt, mfb_manifest = mfb_manifest (sr_manifest sr)\<rparr>)"
    by (simp add: mfb_new_def v(9))
  have "\<forall>i \<in> set ?is. i < max_level opt" by simp
  from load_levels_ok [OF L inv this c(1)] c(2) obtain rss c' M' where
    r: "load_levels S \<lparr>mfb_opt = opt, mfb_manifest = mfb_manifest (sr_manifest sr)\<rparr> opt ?is d c = Some (Inr (rss, c'))"
      "list_all2 (\<lambda>rs i. list_all2 (reader_ok (tlibs S) (restart_interval opt) M') rs (lss ! i) \<and>
        mset (map ident rs) = mset (map ident (sr_readers sr ! i)) \<and>
        (i = 0 \<longrightarrow> map ident rs = map ident (sr_readers sr ! i))) rss ?is"
      "cache_ok (tlibs S) M' c'" "M \<subseteq>\<^sub>m M'" "cache_id c' = cache_id c + length (concat lss)"
    unfolding lc by blast
  have len: "length rss = max_level opt" using list_all2_lengthD [OF r(2)] by simp
  have nth: "list_all2 (reader_ok (tlibs S) (restart_interval opt) M') (rss ! i) (lss ! i)"
    "mset (map ident (rss ! i)) = mset (map ident (sr_readers sr ! i))"
    "i = 0 \<longrightarrow> map ident (rss ! i) = map ident (sr_readers sr ! i)" if "i < max_level opt" for i
    using r(2) that len by (auto simp: list_all2_conv_all_nth)
  have "sr_inv S opt M' \<lparr>sr_opt = opt, sr_readers = rss,
     sr_manifest = \<lparr>mfb_opt = opt, mfb_manifest = mfb_manifest (sr_manifest sr)\<rparr>\<rparr> d N lss"
    by (rule sr_inv_ident [OF inv len]) (use nth in auto)
  then show ?thesis using r(1,3-5) mb by (auto simp: sr_new_def)
qed

end
