(* ===== verification/Dm_Inv.thy ===== *)
theory Dm_Inv
  imports Data_Manager Table_Set_Inv
begin

text \<open>
  The invariant of the data manager.  A view holds, for every memtable, segment of the log and
  table, the entries in it; \<open>W\<close> is the history of writes.  The invariant says that the view
  describes the state, that files, manifest and log agree with it, and that looking a key up
  through the view gives the last write.
\<close>

record view =
  v_mut :: "entry list"
  v_imm :: "entry list list"
  v_pend :: nat
  v_levels :: "entry list list list"
  v_segs :: "entry list list"

text \<open>Lookup order; \<open>v_pend\<close> is the number of oldest immutable memtables that are tables
  already, between the two halves of the minor compaction.\<close>

definition db_view :: "view \<Rightarrow> entry list list" where
  "db_view v = v_mut v # v_imm v @ tables_view (v_levels v)"

definition pending :: "view \<Rightarrow> entry list list" where
  "pending v = drop (length (v_imm v) - v_pend v) (v_imm v)"

definition unflushed :: "view \<Rightarrow> entry list list" where
  "unflushed v = take (length (v_imm v) - v_pend v) (v_imm v)"

definition hist_inv :: "view \<Rightarrow> entry list \<Rightarrow> bool" where
  "hist_inv v W \<longleftrightarrow>
     first_hit (db_view v) = map_of (rev W) \<and>
     (\<forall>es \<in> set (v_mut v # v_imm v @ concat (v_levels v)). set es \<subseteq> set W) \<and>
     first_hit (pending v @ tables_view (v_levels v)) = first_hit (tables_view (v_levels v))"

definition wal_inv :: "('f, 'c) libs \<Rightarrow> wal \<Rightarrow> fs \<Rightarrow> view \<Rightarrow> bool" where
  "wal_inv L w d v \<longleftrightarrow>
     wal_holds L w d (v_segs v) \<and> v_pend v \<le> length (v_imm v) \<and>
     (if v_segs v = [] then v_mut v = [] \<and> v_imm v = []
      else map (\<lambda>es. put_all es []) (v_segs v) = rev (unflushed v) @ [v_mut v])"

definition dm_inv ::
  "('f, 'c) server_libs \<Rightarrow> (bytes \<rightharpoonup> bytes) \<Rightarrow> ('f, 'c) data_manager \<Rightarrow> view \<Rightarrow> entry list \<Rightarrow> bool" where
  "dm_inv S M dm v W \<longleftrightarrow>
     sorted_kv (dm_fs dm) \<and> cache_ok (tlibs S) M (dm_cache dm) \<and> dm_last_compact_keys dm = [] \<and>
     0 < max_level (dm_opt dm) \<and> mt_rel (dm_mut dm) (v_mut v) \<and> ml_rel (dm_imm dm) (v_imm v) \<and>
     wal_inv (tlibs S) (dm_wal dm) (dm_fs dm) v \<and>
     sr_inv S (dm_opt dm) M (dm_readers dm) (dm_fs dm) (dm_next_file_number dm) (v_levels v) \<and>
     hist_inv v W"

lemma dm_invD:
  assumes "dm_inv S M dm v W"
  shows "sorted_kv (dm_fs dm)" "cache_ok (tlibs S) M (dm_cache dm)" "dm_last_compact_keys dm = []"
    "0 < max_level (dm_opt dm)" "mt_rel (dm_mut dm) (v_mut v)" "ml_rel (dm_imm dm) (v_imm v)"
    "wal_inv (tlibs S) (dm_wal dm) (dm_fs dm) v"
    "sr_inv S (dm_opt dm) M (dm_readers dm) (dm_fs dm) (dm_next_file_number dm) (v_levels v)" "hist_inv v W"
  using assms by (auto simp: dm_inv_def)

definition server_libs_ok :: "('f, 'c) server_libs \<Rightarrow> bool" where
  "server_libs_ok S \<longleftrightarrow> table_libs_ok (tlibs S) \<and> bincode_manifest_ok S \<and> bincode_value_ok S \<and> glob_ok S"

text \<open>No counter has run over, and no file is larger than an offset can say.\<close>

definition limits :: "('f, 'c) data_manager \<Rightarrow> bool" where
  "limits dm \<longleftrightarrow> files_fit (dm_fs dm) \<and> cache_id (dm_cache dm) < usize_bound \<and>
     dm_next_file_number dm < usize_bound"

text \<open>Room for \<open>n\<close> more files and readers.\<close>

definition room :: "nat \<Rightarrow> ('f, 'c) data_manager \<Rightarrow> bool" where
  "room n dm \<longleftrightarrow> dm_next_file_number dm + n < usize_bound \<and> cache_id (dm_cache dm) + n < usize_bound"

lemma room_le: "room m dm \<Longrightarrow> n \<le> m \<Longrightarrow> room n dm"
  by (simp add: room_def)

lemma room_0: "limits dm \<Longrightarrow> room 0 dm"
  by (simp add: limits_def room_def)

subsection \<open>Reading\<close>

lemma wal_sst_names: "make_file_name n ''wal'' \<noteq> make_file_name m ''sst''"
proof
  assume "make_file_name n ''wal'' = make_file_name m ''sst''"
  moreover have "last (make_file_name n ''wal'') = CHR ''l''" "last (make_file_name m ''sst'') = CHR ''t''"
    by (simp_all add: make_file_name_def)
  ultimately show False by simp
qed

lemma wal_ext_other: "has_ext ''wal'' x \<Longrightarrow> x \<noteq> make_file_name n ''sst'' \<and> x \<noteq> MANIFEST_FILENAME"
proof -
  assume "has_ext ''wal'' x"
  then have "last x = CHR ''l''" "CHR ''.'' \<in> set x" by (auto simp: has_ext_def)
  moreover have "last (make_file_name n ''sst'') = CHR ''t''" by (simp add: make_file_name_def)
  ultimately show ?thesis by (auto simp: MANIFEST_FILENAME_def)
qed

lemma files_fit_sst:
  assumes "files_fit d" "sorted_kv d'"
    and "\<And>x f. drop (length x - 4) x = ''.sst'' \<Longrightarrow> map_of d' x = Some f \<Longrightarrow> map_of d x = Some f"
  shows "files_fit d'"
  unfolding files_fit_def
proof (intro ballI, clarify)
  fix n f assume nf: "(n, f) \<in> set d'" and e: "drop (length n - 4) n = ''.sst''"
  have "map_of d' n = Some f" using nf assms(2) by (simp add: sorted_kv_def strict_sorted_iff map_of_is_SomeI)
  then have "(n, f) \<in> set d" by (intro map_of_SomeD assms(3) [OF e])
  then show "length f < usize_bound" using assms(1) e by (auto simp: files_fit_def)
qed

lemma files_fit_wal:
  assumes "files_fit d" "sorted_kv d'" "\<And>x. \<forall>i. x \<noteq> make_file_name i ''wal'' \<Longrightarrow> map_of d' x = map_of d x"
  shows "files_fit d'"
proof (rule files_fit_sst [OF assms(1,2)])
  fix n f assume e: "drop (length n - 4) n = ''.sst''" and m: "map_of d' n = Some f"
  have "n \<noteq> make_file_name i ''wal''" for i using e by (auto simp: make_file_name_def)
  then show "map_of d n = Some f" using assms(3) [of n] m by simp
qed

lemma dm_get_ok:
  assumes inv: "dm_inv S M dm v W"
  shows "\<exists>dm'. dm_inv S M dm' v W \<and> dm_fs dm' = dm_fs dm \<and> dm_wal dm' = dm_wal dm \<and> dm_opt dm' = dm_opt dm \<and>
     dm_next_file_number dm' = dm_next_file_number dm \<and> cache_id (dm_cache dm') = cache_id (dm_cache dm) \<and>
     dm_imm dm' = dm_imm dm \<and>
     (\<exists>rss. same_readers rss (sr_readers (dm_readers dm)) \<and> dm_readers dm' = (dm_readers dm)\<lparr>sr_readers := rss\<rparr>) \<and>
     (\<forall>x d. dm_get S dm k = Some (Inr (x, d)) \<longrightarrow> d = dm') \<and>
     (case map_of (rev W) k of
        None \<Rightarrow> dm_get S dm k = Some (Inr (None, dm'))
      | Some b \<Rightarrow> (\<forall>x. deserialize_value S b = Inr x \<longrightarrow> dm_get S dm k = Some (Inr (x, dm'))))"
proof -
  note d = dm_invD [OF inv]
  note sv = sr_invD [OF d(8)]
  have g1: "mt_get (dm_mut dm) k = Some (map_of (v_mut v) k)" by (rule mt.get_spec [OF d(5)])
  have g2: "ml_get (dm_imm dm) k = Some (first_hit (v_imm v) k)" by (rule ml_get_ok [OF d(6)])
  have m: "map_of (rev W) k = first_hit (v_mut v # v_imm v @ tables_view (v_levels v)) k"
    using d(9) by (simp add: hist_inv_def db_view_def)
  have nlv: "length (v_levels v) = max_level (sr_opt (dm_readers dm))" using sv(1,3) by simp
  obtain rss c' where g3: "sr_get S (dm_readers dm) (dm_cache dm) k =
      Some (first_hit (tables_view (v_levels v)) k, (dm_readers dm)\<lparr>sr_readers := rss\<rparr>, c')"
    "same_readers rss (sr_readers (dm_readers dm))" "cache_agrees (tlibs S) M c'" "cache_id c' = cache_id (dm_cache dm)"
    using sr_get_ok [OF cache_ok_agrees [OF d(2)] sv(5) nlv] by blast
  show ?thesis
  proof (cases "first_hit (v_mut v # v_imm v) k")
    case (Some b)
    have "\<exists>rss. same_readers rss (sr_readers (dm_readers dm)) \<and> dm_readers dm = (dm_readers dm)\<lparr>sr_readers := rss\<rparr>"
      by (rule exI [of _ "sr_readers (dm_readers dm)"]) simp
    moreover have "map_of (rev W) k = Some b"
      using Some m by (simp add: first_hit_append split: option.splits)
    moreover have "dm_get S dm k = (case deserialize_value S b of Inl e \<Rightarrow> Some (Inl (from_bincode e)) | Inr v \<Rightarrow> Some (Inr (v, dm)))"
      using Some g1 g2 by (auto simp: dm_get_def split: option.splits)
    ultimately show ?thesis using inv by (intro exI [of _ dm]) (simp split: sum.splits)
  next
    case None
    let ?dm = "dm\<lparr>dm_readers := (dm_readers dm)\<lparr>sr_readers := rss\<rparr>, dm_cache := c'\<rparr>"
    have "dm_inv S M ?dm v W"
      using d sr_inv_misses [OF d(8) g3(2)] cache_ok_same [OF d(2) g3(3,4)] by (simp add: dm_inv_def)
    moreover have "map_of (rev W) k = first_hit (tables_view (v_levels v)) k"
      using None m by (simp add: first_hit_append split: option.splits)
    moreover have n: "map_of (v_mut v) k = None" "first_hit (v_imm v) k = None"
      using None by (auto split: option.splits)
    moreover have "dm_get S dm k = (case first_hit (tables_view (v_levels v)) k of
        None \<Rightarrow> Some (Inr (None, ?dm))
      | Some b \<Rightarrow> (case deserialize_value S b of Inl _ \<Rightarrow> None | Inr v \<Rightarrow> Some (Inr (v, ?dm))))"
      using n g1 g2 g3(1) by (simp add: dm_get_def Let_def)
    ultimately show ?thesis using g3(2,4) by (intro exI [of _ ?dm]) (auto split: option.splits sum.splits)
  qed
qed

subsection \<open>Writing\<close>

definition put :: "bytes \<Rightarrow> bytes \<Rightarrow> view \<Rightarrow> view" where
  "put k b v = v\<lparr>v_mut := ins_kv k b (v_mut v),
     v_segs := (if v_segs v = [] then [[(k, b)]] else butlast (v_segs v) @ [last (v_segs v) @ [(k, b)]])\<rparr>"

definition rotate :: "view \<Rightarrow> view" where
  "rotate v = v\<lparr>v_mut := [], v_imm := v_mut v # v_imm v, v_segs := v_segs v @ [[]]\<rparr>"

lemma unflushed_put [simp]: "unflushed (put k b v) = unflushed v"
  by (simp add: unflushed_def put_def)

lemma wal_inv_put:
  assumes "wal_inv L w d v" "wal_holds L w' d' (v_segs (put k b v))"
  shows "wal_inv L w' d' (put k b v)"
proof (cases "v_segs v" rule: rev_cases)
  case Nil
  with assms show ?thesis by (auto simp: wal_inv_def put_def unflushed_def)
next
  case (snoc ess es)
  have e: "map (\<lambda>es. put_all es []) ess @ [put_all es []] = rev (unflushed v) @ [v_mut v]"
    using assms(1) snoc by (simp add: wal_inv_def)
  have s: "v_segs (put k b v) = ess @ [es @ [(k, b)]]" using snoc by (simp add: put_def)
  have m: "v_mut (put k b v) = ins_kv k b (v_mut v)" "v_imm (put k b v) = v_imm v" "v_pend (put k b v) = v_pend v"
    by (simp_all add: put_def)
  from e have "map (\<lambda>es. put_all es []) (v_segs (put k b v)) = rev (unflushed v) @ [ins_kv k b (v_mut v)]"
    by (simp add: s)
  then show ?thesis using assms s m by (simp add: wal_inv_def)
qed

lemma first_hit_ins: "sorted_kv m \<Longrightarrow> first_hit (ins_kv k b m # X) = (first_hit (m # X))(k \<mapsto> b)"
  by (auto simp: map_of_ins_kv)

lemma set_ins_subset: "set (ins_kv k b es) \<subseteq> insert (k, b) (set es)"
  by (induction k b es rule: ins_kv.induct) auto

lemma hist_inv_put:
  assumes "hist_inv v W" "sorted_kv (v_mut v)"
  shows "hist_inv (put k b v) (W @ [(k, b)])"
proof -
  have "first_hit (db_view (put k b v)) = (first_hit (db_view v))(k \<mapsto> b)"
    unfolding db_view_def put_def by (simp add: first_hit_ins [OF assms(2)] del: first_hit.simps)
  then show ?thesis
    using assms(1) set_ins_subset [of k b "v_mut v"]
    by (auto simp: hist_inv_def pending_def put_def map_add_def)
qed

lemma wal_inv_rotate:
  assumes "wal_inv L w d v" "v_segs v \<noteq> []" "wal_holds L w' d' (v_segs v @ [[]])"
  shows "wal_inv L w' d' (rotate v)"
  using assms by (auto simp: wal_inv_def rotate_def unflushed_def Suc_diff_le)

lemma hist_inv_rotate: "hist_inv v W \<Longrightarrow> v_pend v \<le> length (v_imm v) \<Longrightarrow> hist_inv (rotate v) W"
  by (auto simp: hist_inv_def db_view_def rotate_def pending_def Suc_diff_le fun_eq_iff)

lemma put_segs [simp]: "v_segs (put k b v) \<noteq> []"
  by (simp add: put_def)

text \<open>The record is in the log and the entry in the memtable.\<close>

lemma insert_logged:
  assumes L: "fixed_ok (tlibs S)" and inv: "dm_inv S M dm v W" and lg: "loggable (tlibs S) (k, b)"
    and n: "current_file_num (dm_wal dm) + 1 < usize_bound"
  obtains w d m where "wal_append (tlibs S) (dm_wal dm) k b (dm_fs dm) = Some (Inr (w, d))"
    "mt_insert (dm_mut dm) k b = Some (map_of (v_mut v) k, m)"
    "dm_inv S M (dm\<lparr>dm_wal := w, dm_fs := d, dm_mut := m\<rparr>) (put k b v) (W @ [(k, b)])"
    "current_file_num w = current_file_num (dm_wal dm) + (if v_segs v = [] then 1 else 0)"
    "\<And>x. \<forall>i. x \<noteq> make_file_name i ''wal'' \<Longrightarrow> map_of d x = map_of (dm_fs dm) x"
proof -
  note d = dm_invD [OF inv]
  let ?L = "tlibs S" and ?v = "put k b v"
  have wh: "wal_holds ?L (dm_wal dm) (dm_fs dm) (v_segs v)" using d(7) by (simp add: wal_inv_def)
  from wal_append_any [OF L wh lg] n obtain w1 d1 where
    w1: "wal_append ?L (dm_wal dm) k b (dm_fs dm) = Some (Inr (w1, d1))" "wal_holds ?L w1 d1 (v_segs ?v)"
      "current_file_num w1 = current_file_num (dm_wal dm) + (if v_segs v = [] then 1 else 0)"
      "\<And>x. \<forall>i. x \<noteq> make_file_name i ''wal'' \<Longrightarrow> map_of d1 x = map_of (dm_fs dm) x"
    by (auto simp: put_def)
  obtain m1 where m1: "mt_insert (dm_mut dm) k b = Some (map_of (v_mut v) k, m1)" "mt_rel m1 (v_mut ?v)"
    using mt_insert_ok [OF d(5)] by (auto simp: put_def)
  have wi: "wal_inv ?L w1 d1 ?v" by (rule wal_inv_put [OF d(7) w1(2)])
  have hi: "hist_inv ?v (W @ [(k, b)])" by (rule hist_inv_put [OF d(9) mt.rel_sorted [OF d(5)]])
  have sri: "sr_inv S (dm_opt dm) M (dm_readers dm) d1 (dm_next_file_number dm) (v_levels v)"
    by (rule sr_inv_frame [OF d(8)]) (use w1(4) wal_sst_names [symmetric] sr_invD(4) [OF d(8)] in auto)
  have sk: "sorted_kv d1" using w1(2) by (simp add: wal_holds_def)
  have im: "v_imm ?v = v_imm v" "v_levels ?v = v_levels v" by (simp_all add: put_def)
  have "dm_inv S M (dm\<lparr>dm_wal := w1, dm_fs := d1, dm_mut := m1\<rparr>) ?v (W @ [(k, b)])"
    using d sk m1(2) wi hi sri im by (simp add: dm_inv_def)
  then show ?thesis using w1 m1(1) by (intro that)
qed

text \<open>The memtable has become immutable and the log a new segment.\<close>

lemma rotate_ok:
  assumes inv: "dm_inv S M dm v W" and s: "v_segs v \<noteq> []" and n: "current_file_num (dm_wal dm) < usize_bound"
    and t: "mt_rel cl (v_mut v)" "mt_rel m []" and w: "new_seg (dm_wal dm) (dm_fs dm) = (w, d)"
  shows "dm_inv S M (dm\<lparr>dm_wal := w, dm_fs := d, dm_mut := m, dm_imm := ml_add (dm_imm dm) cl, dm_rngs := r\<rparr>) (rotate v) W"
    "current_file_num w = Suc (current_file_num (dm_wal dm))"
    "\<And>x. \<forall>i. x \<noteq> make_file_name i ''wal'' \<Longrightarrow> map_of d x = map_of (dm_fs dm) x"
proof -
  note i = dm_invD [OF inv]
  let ?L = "tlibs S"
  have wh: "wal_holds ?L (dm_wal dm) (dm_fs dm) (v_segs v)" and pn: "v_pend v \<le> length (v_imm v)"
    using i(7) by (simp_all add: wal_inv_def)
  from new_seg_ok [OF wh n] w have w2: "wal_holds ?L w d (v_segs v @ [[]])" "current_file_num w = Suc (current_file_num (dm_wal dm))"
    "\<And>x. \<forall>i. x \<noteq> make_file_name i ''wal'' \<Longrightarrow> map_of d x = map_of (dm_fs dm) x" by auto
  then show "current_file_num w = Suc (current_file_num (dm_wal dm))"
    "\<And>x. \<forall>i. x \<noteq> make_file_name i ''wal'' \<Longrightarrow> map_of d x = map_of (dm_fs dm) x" by blast+
  have "wal_inv ?L w d (rotate v)" by (rule wal_inv_rotate [OF i(7) s w2(1)])
  moreover have "hist_inv (rotate v) W" by (rule hist_inv_rotate [OF i(9) pn])
  moreover have "ml_rel (ml_add (dm_imm dm) cl) (v_mut v # v_imm v)" by (rule ml_add_rel [OF i(6) t(1)])
  moreover have "sorted_kv d" using w2(1) by (simp add: wal_holds_def)
  moreover have "sr_inv S (dm_opt dm) M (dm_readers dm) d (dm_next_file_number dm) (v_levels v)"
    by (rule sr_inv_frame [OF i(8)]) (use w2(3) wal_sst_names [symmetric] sr_invD(4) [OF i(8)] in auto)
  ultimately show "dm_inv S M (dm\<lparr>dm_wal := w, dm_fs := d, dm_mut := m, dm_imm := ml_add (dm_imm dm) cl, dm_rngs := r\<rparr>) (rotate v) W"
    using i t(2) by (simp add: dm_inv_def rotate_def)
qed

lemma insert_raw_ok:
  assumes L: "fixed_ok (tlibs S)" and inv: "dm_inv S M dm v W" and lg: "loggable (tlibs S) (k, b)"
    and n: "current_file_num (dm_wal dm) + 1 < usize_bound"
  shows "\<exists>dm' v'. insert_raw S dm k b = Some (Inr (map_of (v_mut v) k, dm')) \<and> dm_inv S M dm' v' (W @ [(k, b)]) \<and>
     v' \<in> {put k b v, rotate (put k b v)} \<and> (mem_table_max_size (dm_opt dm) = 0 \<longrightarrow> v' = rotate (put k b v)) \<and>
     dm_readers dm' = dm_readers dm \<and> dm_cache dm' = dm_cache dm \<and> dm_opt dm' = dm_opt dm \<and>
     dm_next_file_number dm' = dm_next_file_number dm \<and>
     (\<forall>x. (\<forall>i. x \<noteq> make_file_name i ''wal'') \<longrightarrow> map_of (dm_fs dm') x = map_of (dm_fs dm) x) \<and>
     current_file_num (dm_wal dm') \<le> current_file_num (dm_wal dm) + (if v_segs v = [] then 2 else 1)"
proof -
  let ?v = "put k b v"
  obtain w d m where l: "wal_append (tlibs S) (dm_wal dm) k b (dm_fs dm) = Some (Inr (w, d))"
    "mt_insert (dm_mut dm) k b = Some (map_of (v_mut v) k, m)"
    "dm_inv S M (dm\<lparr>dm_wal := w, dm_fs := d, dm_mut := m\<rparr>) ?v (W @ [(k, b)])"
    "current_file_num w = current_file_num (dm_wal dm) + (if v_segs v = [] then 1 else 0)"
    "\<And>x. \<forall>i. x \<noteq> make_file_name i ''wal'' \<Longrightarrow> map_of d x = map_of (dm_fs dm) x"
    using L inv lg n by (rule insert_logged) (rule that)
  let ?dm = "dm\<lparr>dm_wal := w, dm_fs := d, dm_mut := m\<rparr>"
  show ?thesis
  proof (cases "current_seg_size w \<ge> mem_table_max_size (dm_opt dm)")
    case False
    then have "insert_raw S dm k b = Some (Inr (map_of (v_mut v) k, ?dm))" using l(1,2) by (simp add: insert_raw_def)
    then show ?thesis using l(3-5) False by (intro exI [of _ ?dm] exI [of _ ?v]) auto
  next
    case True
    have m: "mt_rel m (v_mut ?v)" using dm_invD(5) [OF l(3)] by simp
    obtain cl where cl: "mt_clone m (shd (dm_rngs dm)) = Some cl" "mt_rel cl (v_mut ?v)" using mt_clone_ok [OF m] by blast
    obtain mt' where mt': "mt_clear slice_glue m = Some mt'" "mt_rel mt' []" using mt_clear_ok [OF m] by blast
    obtain w2 d2 where w2: "new_seg w d = (w2, d2)" by (cases "new_seg w d")
    let ?dm' = "?dm\<lparr>dm_wal := w2, dm_fs := d2, dm_mut := mt', dm_imm := ml_add (dm_imm dm) cl, dm_rngs := stl (dm_rngs dm)\<rparr>"
    have r: "insert_raw S dm k b = Some (Inr (map_of (v_mut v) k, ?dm'))"
      using l(1,2) True cl(1) mt'(1) w2 by (simp add: insert_raw_def)
    have n': "current_file_num (dm_wal ?dm) < usize_bound" using l(4) n by simp
    have "new_seg (dm_wal ?dm) (dm_fs ?dm) = (w2, d2)" using w2 by simp
    note q = rotate_ok [OF l(3) put_segs n' cl(2) mt'(2) this]
    show ?thesis
      by (intro exI [of _ ?dm'] exI [of _ "rotate ?v"]) (use r q l(4,5) in auto)
  qed
qed

end
