(* ===== verification/Dm_Minor.thy ===== *)
theory Dm_Minor
  imports Dm_Inv
begin

text \<open>
  The minor compaction keeps the invariant: the oldest memtable that is not a table yet becomes
  the newest table of level 0 and its log segment goes; later the memtables that have become
  tables leave the list.
\<close>

subsection \<open>Frames\<close>

lemma wal_holds_frame:
  assumes "wal_holds L w d ess" "sorted_kv d'"
    and f: "\<And>x. has_ext ''wal'' x \<Longrightarrow> map_of d' x = map_of d x"
  shows "wal_holds L w d' ess"
proof -
  have "list_all2 (\<lambda>s es. seg_holds L s d' es) (segs w) ess"
  proof (rule segs_hold_frame)
    show "list_all2 (\<lambda>s es. seg_holds L s d es) (segs w) ess" using assms(1) by (simp add: wal_holds_def)
    show "map_of d' (seg_path s) = map_of d (seg_path s)" if "s \<in> set (segs w)" for s
      using wal_holds_named [OF assms(1) that] f by auto
  qed
  moreover have "wal_files w d" using assms(1) by (simp add: wal_holds_def)
  then have "wal_files w d'" by (rule wal_files_same) (simp_all add: f)
  ultimately show ?thesis using assms(1,2) f by (simp add: wal_holds_def wal_fresh_def)
qed

lemma consume_seg_frame:
  assumes "wal_holds L w d (es # ess)"
  shows "\<exists>w' d'. consume_seg w d = Inr (w', d') \<and> wal_holds L w' d' ess \<and>
     current_file_num w' = current_file_num w \<and>
     (\<forall>m. (\<forall>i. m \<noteq> make_file_name i ''wal'') \<longrightarrow> map_of d' m = map_of d m)"
proof -
  obtain w' d' where c: "consume_seg w d = Inr (w', d')" "wal_holds L w' d' ess" "current_file_num w' = current_file_num w"
    "\<And>m. m \<notin> seg_path ` set (segs w) \<Longrightarrow> map_of d' m = map_of d m"
    using consume_seg_ok [OF assms] by blast
  moreover have "m \<notin> seg_path ` set (segs w)" if "\<forall>i. m \<noteq> make_file_name i ''wal''" for m
    using wal_holds_named [OF assms] that by fastforce
  ultimately show ?thesis by blast
qed

lemma fresh_name:
  assumes "sr_inv S opt M sr d N lss" "N \<le> n" "n < usize_bound"
  shows "make_file_name n ''sst'' \<notin> tr_file_name ` set (concat (sr_readers sr))"
proof
  assume "make_file_name n ''sst'' \<in> tr_file_name ` set (concat (sr_readers sr))"
  then obtain r where "r \<in> set (concat (sr_readers sr))" "tr_file_name r = make_file_name n ''sst''" by (metis imageE)
  with sr_invD(7) [OF assms(1), of r] obtain m where "m < N" "make_file_name m ''sst'' = make_file_name n ''sst''"
    by (auto simp: reader_stored_def)
  with make_file_name_inj [of m "''sst''" n "''sst''"] assms(2,3) show False by auto
qed

subsection \<open>The view\<close>

definition add_table :: "entry list \<Rightarrow> entry list list list \<Rightarrow> entry list list list" where
  "add_table es lss = (if es = [] then lss else lss[0 := lss ! 0 @ [es]])"

definition flushed :: "view \<Rightarrow> view" where
  "flushed v = v\<lparr>v_pend := v_pend v + 1, v_levels := add_table (last (unflushed v)) (v_levels v), v_segs := tl (v_segs v)\<rparr>"

lemma tables_view_level0: "0 < length lss \<Longrightarrow> tables_view lss = rev (lss ! 0) @ concat (map (level_view lss) [1..<length lss])"
  by (simp add: tables_view_def level_view_def upt_conv_Cons)

lemma tables_view_push: "0 < length lss \<Longrightarrow> tables_view (lss[0 := lss ! 0 @ es]) = rev es @ tables_view lss"
proof -
  have "map (level_view (lss[0 := lss ! 0 @ es])) [1..<length lss] = map (level_view lss) [1..<length lss]"
    by (rule map_cong) (auto simp: level_view_def)
  then show "0 < length lss \<Longrightarrow> ?thesis" by (simp add: tables_view_level0 del: map_eq_conv)
qed

lemma first_hit_add_table: "0 < length lss \<Longrightarrow> first_hit (tables_view (add_table es lss)) = first_hit (es # tables_view lss)"
  by (auto simp: add_table_def tables_view_push)

lemma first_hit_append_cong: "first_hit ys = first_hit zs \<Longrightarrow> first_hit (xs @ ys) = first_hit (xs @ zs)"
  by (rule ext) (simp add: first_hit_append split: option.split)

text \<open>A table that is asked again later may go.\<close>

lemma first_hit_again: "first_hit (es # xs @ es # ys) = first_hit (es # xs @ ys)"
  by (auto simp: fun_eq_iff first_hit_append split: option.splits)

lemma unflushed_split:
  assumes "unflushed v = us @ [es]" "v_pend v \<le> length (v_imm v)"
  shows "v_imm v = us @ es # pending v" "unflushed (flushed v) = us" "pending (flushed v) = es # pending v"
    "v_pend v + 1 \<le> length (v_imm v)"
proof -
  show i: "v_imm v = us @ es # pending v"
    using assms(1) append_take_drop_id [of "length (v_imm v) - v_pend v" "v_imm v"] by (simp add: unflushed_def pending_def)
  have l: "length (pending v) = v_pend v" using assms(2) by (simp add: pending_def)
  have n: "length (v_imm v) = length us + 1 + v_pend v" using arg_cong [OF i, of length] l by simp
  then show "v_pend v + 1 \<le> length (v_imm v)" by simp
  have m: "length (v_imm v) - (v_pend v + 1) = length us" using n by simp
  show "unflushed (flushed v) = us" "pending (flushed v) = es # pending v"
    unfolding unflushed_def pending_def [of "flushed v"] using m i
    by (simp_all add: flushed_def del: pending_def)
qed

lemma set_add_table: "0 < length lss \<Longrightarrow> set (concat (add_table es lss)) \<subseteq> insert es (set (concat lss))"
  by (cases lss) (auto simp: add_table_def)

lemma hist_inv_flushed:
  assumes h: "hist_inv v W" and u: "unflushed v = us @ [es]" "v_pend v \<le> length (v_imm v)" and n: "0 < length (v_levels v)"
  shows "hist_inv (flushed v) W"
proof -
  note s = unflushed_split [OF u]
  let ?T = "tables_view (v_levels v)" and ?T' = "tables_view (v_levels (flushed v))"
  have le: "v_levels (flushed v) = add_table es (v_levels v)" using u(1) by (simp add: flushed_def)
  have t: "first_hit ?T' = first_hit (es # ?T)" unfolding le by (rule first_hit_add_table [OF n])
  have mi: "v_mut (flushed v) = v_mut v" "v_imm (flushed v) = v_imm v" by (simp_all add: flushed_def)
  have "first_hit (db_view (flushed v)) = first_hit ((v_mut v # us) @ es # pending v @ ?T')"
    by (simp add: db_view_def mi s(1))
  also have "\<dots> = first_hit ((v_mut v # us) @ es # pending v @ es # ?T)"
    using first_hit_append_cong [OF t, of "(v_mut v # us) @ es # pending v"] by simp
  also have "\<dots> = first_hit ((v_mut v # us) @ es # pending v @ ?T)"
    by (rule first_hit_append_cong) (rule first_hit_again)
  also have "\<dots> = map_of (rev W)" using h s(1) by (simp add: hist_inv_def db_view_def)
  finally have a: "first_hit (db_view (flushed v)) = map_of (rev W)" .
  have "first_hit (pending (flushed v) @ ?T') = first_hit (es # pending v @ es # ?T)"
    using first_hit_append_cong [OF t, of "es # pending v"] by (simp add: s(3))
  also have "\<dots> = first_hit ([es] @ pending v @ ?T)" by (simp add: first_hit_again)
  also have "\<dots> = first_hit ([es] @ ?T)" by (rule first_hit_append_cong) (use h in \<open>simp add: hist_inv_def\<close>)
  finally have b: "first_hit (pending (flushed v) @ ?T') = first_hit ?T'" by (simp add: t)
  have "set x \<subseteq> set W" if "x \<in> set (v_mut v # v_imm v @ concat (v_levels (flushed v)))" for x
  proof -
    have "x \<in> set (v_mut v # v_imm v @ concat (v_levels v))"
      using that set_add_table [OF n, of es] s(1) le by auto
    then show ?thesis using h unfolding hist_inv_def by blast
  qed
  with a b mi show ?thesis by (simp add: hist_inv_def)
qed

lemma wal_inv_flushed:
  assumes w: "wal_inv L w d v" and u: "unflushed v = us @ [es]"
  shows "\<exists>s ss. v_segs v = s # ss \<and> put_all s [] = es \<and>
    (\<forall>w' d'. wal_holds L w' d' ss \<longrightarrow> wal_inv L w' d' (flushed v))"
proof -
  have p: "v_pend v \<le> length (v_imm v)" using w by (simp add: wal_inv_def)
  note sp = unflushed_split [OF u p]
  have "v_imm v \<noteq> []" using sp(1) by simp
  then have m: "map (\<lambda>es. put_all es []) (v_segs v) = (es # rev us) @ [v_mut v]"
    using w u by (auto simp: wal_inv_def split: if_splits)
  then obtain s ss where s: "v_segs v = s # ss" "put_all s [] = es" "map (\<lambda>es. put_all es []) ss = rev us @ [v_mut v]"
    by (cases "v_segs v") auto
  have "ss \<noteq> []" using s(3) by auto
  then show ?thesis using s sp(2,4) by (auto simp: wal_inv_def flushed_def)
qed

subsection \<open>One memtable\<close>

lemma skiplist_to_sstable_fs:
  "skiplist_to_sstable S m opt path d c = Some (Inr (x, d', c')) \<Longrightarrow> d' = d \<or> (\<exists>f. d' = fs_write path f d)"
  by (auto simp: skiplist_to_sstable_def tryO_eq_Ok Let_def split: if_splits bind_splits)

lemma add_readers_fs: "add_readers S sr l rs d = Some (Inr (sr', d')) \<Longrightarrow> \<exists>y. d' = fs_write MANIFEST_FILENAME y d"
  by (auto simp: add_readers_def tryO_eq_Ok mfb_flush_def split: if_splits bind_splits sum.splits)

lemma consume_seg_fs:
  "consume_seg w d = Inr (w', d') \<Longrightarrow> d' = d \<or> (\<exists>s \<in> set (segs w). d' = del_kv (seg_path s) d)"
  by (auto simp: consume_seg_def seg_delete_def remove_file_def split: list.splits option.splits)

lemma map_of_fs_write: "sorted_kv d \<Longrightarrow> map_of (fs_write p f d) = (map_of d)(p \<mapsto> f) \<and> sorted_kv (fs_write p f d)"
  by (simp add: fs_write_def map_of_ins_kv sorted_ins_kv)

lemma minor_one_Ok:
  assumes "minor_one S t dm = Some (Inr dm')"
  obtains x d1 c1 sr d2 w d3 where
    "skiplist_to_sstable S (mt_map t) (dm_opt dm) (make_file_name (dm_next_file_number dm) ''sst'') (dm_fs dm) (dm_cache dm) = Some (Inr (x, d1, c1))"
    "(case x of None \<Rightarrow> Some (Inr (dm_readers dm, d1)) | Some (_, reader) \<Rightarrow> sr_add S (dm_readers dm) 0 reader d1) = Some (Inr (sr, d2))"
    "consume_seg (dm_wal dm) d2 = Inr (w, d3)"
    "dm' = dm\<lparr>dm_next_file_number := dm_next_file_number dm + 1, dm_readers := sr, dm_wal := w, dm_fs := d3, dm_cache := c1\<rparr>"
  using assms by (auto simp: minor_one_def new_file_number_def mt_build_sstable_def tryO_eq_Ok Let_def cong: option.case_cong)

text \<open>The table of a memtable has become part of level 0.\<close>

definition table_added ::
  "('f, 'c) server_libs \<Rightarrow> (bytes \<rightharpoonup> bytes) \<Rightarrow> ('f, 'c) data_manager \<Rightarrow> view \<Rightarrow> entry list \<Rightarrow> 'f sstable_reader \<Rightarrow> fs \<Rightarrow> 'c cache \<Rightarrow>
   (bytes \<rightharpoonup> bytes) \<Rightarrow> 'f table_reader list \<Rightarrow> bool" where
  "table_added S M dm v es sr d c M' rs \<longleftrightarrow> M \<subseteq>\<^sub>m M' \<and> sorted_kv d \<and> cache_ok (tlibs S) M' c \<and>
     sr_inv S (dm_opt dm) M' sr d (Suc (dm_next_file_number dm)) (add_table es (v_levels v)) \<and>
     sr_readers sr = (sr_readers (dm_readers dm))[0 := sr_readers (dm_readers dm) ! 0 @ rs] \<and>
     length rs = (if es = [] then 0 else 1) \<and> (\<forall>r \<in> set rs. tr_file_name r = make_file_name (dm_next_file_number dm) ''sst'') \<and>
     (\<forall>n. n \<noteq> make_file_name (dm_next_file_number dm) ''sst'' \<longrightarrow> n \<noteq> MANIFEST_FILENAME \<longrightarrow> map_of d n = map_of (dm_fs dm) n)"

lemma minor_table_added:
  assumes S: "server_libs_ok S" and inv: "dm_inv S M dm v W" and o: "opt_ok (dm_opt dm)" and W: "writes_ok W"
    and t: "mt_rel t es" "set es \<subseteq> set W" and N: "dm_next_file_number dm < usize_bound"
    and b: "skiplist_to_sstable S (mt_map t) (dm_opt dm) (make_file_name (dm_next_file_number dm) ''sst'') (dm_fs dm) (dm_cache dm) = Some (Inr (x, d1, c1))"
    and a: "(case x of None \<Rightarrow> Some (Inr (dm_readers dm, d1)) | Some (_, reader) \<Rightarrow> sr_add S (dm_readers dm) 0 reader d1) = Some (Inr (sr, d2))"
    and fit: "\<And>f. map_of d1 (make_file_name (dm_next_file_number dm) ''sst'') = Some f \<Longrightarrow> length f < usize_bound"
    and id: "cache_id c1 < usize_bound"
  shows "\<exists>M' rs. table_added S M dm v es sr d2 c1 M' rs"
proof -
  note d = dm_invD [OF inv]
  let ?N = "dm_next_file_number dm" and ?L = "tlibs S" and ?I = "restart_interval (dm_opt dm)"
  let ?p = "make_file_name ?N ''sst''"
  have tl: "table_libs_ok ?L" and bm: "bincode_manifest_ok S" using S by (simp_all add: server_libs_ok_def)
  have sm: "sl_rel (mt_map t) es" using t(1) by (simp add: mt_rel_def)
  note q = skiplist_to_sstable_ok [OF tl o W sm t(2) d(2,1) b fit id]
  show ?thesis
  proof (cases "es = []")
    case True
    then have e: "x = None" "d1 = dm_fs dm" "c1 = dm_cache dm" using q by simp_all
    then have e2: "sr = dm_readers dm" "d2 = dm_fs dm" using a by simp_all
    have "sr_inv S (dm_opt dm) M (dm_readers dm) (dm_fs dm) (Suc ?N) (add_table es (v_levels v))"
      unfolding add_table_def if_P [OF True] by (rule sr_inv_frame [OF d(8)]) (use N in auto)
    then show ?thesis unfolding table_added_def by (intro exI [of _ M] exI [of _ "[]"]) (use True e e2 d(1,2) in auto)
  next
    case False
    from q False obtain r M' where q': "sorted_kv d1" "\<And>n. n \<noteq> ?p \<Longrightarrow> map_of d1 n = map_of (dm_fs dm) n"
      "x = Some (?p, r)" "reader_ok ?L ?I M' r es" "tr_file_name r = ?p" "map_of d1 ?p = Some (tr_file r)"
      "cache_ok ?L M' c1" "M \<subseteq>\<^sub>m M'" by auto
    have old: "map_of d1 (make_file_name n ''sst'') = map_of (dm_fs dm) (make_file_name n ''sst'')" if "n < ?N" for n
      using make_file_name_inj [of n "''sst''" ?N "''sst''"] that N by (intro q'(2)) auto
    have i1: "sr_inv S (dm_opt dm) M' (dm_readers dm) d1 (Suc ?N) (v_levels v)"
      by (rule sr_inv_frame [OF d(8) q'(8)]) (use N old q'(2) in auto)
    have st: "reader_stored d1 (Suc ?N) r" using q'(5,6) by (auto simp: reader_stored_def)
    have di: "distinct (map tr_file_name (concat (sr_readers (dm_readers dm)) @ [r]))"
      using sr_invD(6) [OF d(8)] fresh_name [OF d(8) order.refl N] q'(5) by simp
    have "add_readers S (dm_readers dm) 0 [r] d1 = Some (Inr (sr, d2))" using a q'(3) by (simp add: sr_add_def)
    from add_readers_ok [OF bm i1 q'(1) d(4) _ _ di _ this, of "[es]"] q'(4) st obtain
      "sr_inv S (dm_opt dm) M' sr d2 (Suc ?N) ((v_levels v)[0 := v_levels v ! 0 @ [es]])" "sorted_kv d2"
      "sr_readers sr = (sr_readers (dm_readers dm))[0 := sr_readers (dm_readers dm) ! 0 @ [r]]"
      "\<And>n. n \<noteq> MANIFEST_FILENAME \<Longrightarrow> map_of d2 n = map_of d1 n" by auto
    then show ?thesis unfolding table_added_def
      by (intro exI [of _ M'] exI [of _ "[r]"]) (use q' False in \<open>auto simp: add_table_def\<close>)
  qed
qed

text \<open>The file of the table is among the files in the end, so it fits.\<close>

lemma minor_file_kept:
  assumes b: "skiplist_to_sstable S (mt_map t) (dm_opt dm) p (dm_fs dm) (dm_cache dm) = Some (Inr (x, d1, c1))" and d: "sorted_kv (dm_fs dm)"
    and a: "(case x of None \<Rightarrow> Some (Inr (dm_readers dm, d1)) | Some (_, reader) \<Rightarrow> sr_add S (dm_readers dm) 0 reader d1) = Some (Inr (sr, d2))"
    and c: "consume_seg (dm_wal dm) d2 = Inr (w, d3)" and wh: "wal_holds L (dm_wal dm) (dm_fs dm) ss"
    and p: "p = make_file_name n ''sst''"
  shows "map_of d3 p = map_of d1 p"
proof -
  have s1: "sorted_kv d1" using skiplist_to_sstable_fs [OF b] d by (auto simp: map_of_fs_write)
  have s2: "sorted_kv d2 \<and> (\<forall>n. n \<noteq> MANIFEST_FILENAME \<longrightarrow> map_of d2 n = map_of d1 n)"
    using a s1 by (auto simp: sr_add_def map_of_fs_write split: option.splits dest!: add_readers_fs)
  have "\<forall>s \<in> set (segs (dm_wal dm)). seg_path s \<noteq> p" unfolding p using wal_holds_named [OF wh] wal_sst_names by metis
  then have "map_of d3 p = map_of d2 p" using consume_seg_fs [OF c] s2 by (auto simp: map_of_del_kv)
  then show ?thesis using s2 p by simp
qed

lemma minor_one_ok:
  assumes S: "server_libs_ok S" and inv: "dm_inv S M dm v W" and o: "opt_ok (dm_opt dm)" and W: "writes_ok W"
    and u: "unflushed v = us @ [es]" and t: "mt_rel t es" and r: "minor_one S t dm = Some (Inr dm')"
    and lim: "limits dm'"
  shows "\<exists>M'. M \<subseteq>\<^sub>m M' \<and> dm_inv S M' dm' (flushed v) W \<and> dm_opt dm' = dm_opt dm \<and> dm_imm dm' = dm_imm dm \<and>
     dm_next_file_number dm' = Suc (dm_next_file_number dm) \<and>
     (\<exists>rs. sr_readers (dm_readers dm') = (sr_readers (dm_readers dm))[0 := sr_readers (dm_readers dm) ! 0 @ rs] \<and>
        length rs = (if es = [] then 0 else 1) \<and> (\<forall>r \<in> set rs. tr_file_name r = make_file_name (dm_next_file_number dm) ''sst'')) \<and>
     (\<forall>n < dm_next_file_number dm. map_of (dm_fs dm') (make_file_name n ''sst'') = map_of (dm_fs dm) (make_file_name n ''sst''))"
proof -
  note d = dm_invD [OF inv]
  let ?N = "dm_next_file_number dm" and ?L = "tlibs S"
  let ?p = "make_file_name ?N ''sst''"
  obtain x d1 c1 sr d2 w d3 where
    b: "skiplist_to_sstable S (mt_map t) (dm_opt dm) ?p (dm_fs dm) (dm_cache dm) = Some (Inr (x, d1, c1))" and
    a: "(case x of None \<Rightarrow> Some (Inr (dm_readers dm, d1)) | Some (_, reader) \<Rightarrow> sr_add S (dm_readers dm) 0 reader d1) = Some (Inr (sr, d2))" and
    c: "consume_seg (dm_wal dm) d2 = Inr (w, d3)" and
    dm': "dm' = dm\<lparr>dm_next_file_number := ?N + 1, dm_readers := sr, dm_wal := w, dm_fs := d3, dm_cache := c1\<rparr>"
    using r by (rule minor_one_Ok) (rule that)
  have N: "?N < usize_bound" and id: "cache_id c1 < usize_bound" using lim by (simp_all add: limits_def dm')
  have pl: "v_pend v \<le> length (v_imm v)" using d(7) by (simp add: wal_inv_def)
  have sub: "set es \<subseteq> set W" using d(9) unflushed_split(1) [OF u pl] by (simp add: hist_inv_def)
  have n0: "0 < length (v_levels v)" using sr_invD(3) [OF d(8)] d(4) by simp
  have lv: "v_levels (flushed v) = add_table es (v_levels v)" using u by (simp add: flushed_def)
  obtain s ss where ss: "v_segs v = s # ss" "\<And>w' d'. wal_holds ?L w' d' ss \<Longrightarrow> wal_inv ?L w' d' (flushed v)"
    using wal_inv_flushed [OF d(7) u] by blast
  have wh: "wal_holds ?L (dm_wal dm) (dm_fs dm) (s # ss)" using d(7) ss(1) by (simp add: wal_inv_def)
  have "length f < usize_bound" if f: "map_of d1 ?p = Some f" for f
    using lim f minor_file_kept [OF b d(1) a c wh refl] by (intro files_fitD [of d3]) (simp_all add: limits_def dm')
  from minor_table_added [OF S inv o W t sub N b a this id] obtain M' rs where g: "M \<subseteq>\<^sub>m M'" "sorted_kv d2" "cache_ok ?L M' c1"
      "sr_inv S (dm_opt dm) M' sr d2 (Suc ?N) (v_levels (flushed v))"
      "sr_readers sr = (sr_readers (dm_readers dm))[0 := sr_readers (dm_readers dm) ! 0 @ rs]"
      "length rs = (if es = [] then 0 else 1)" "\<forall>r \<in> set rs. tr_file_name r = ?p"
      "\<And>n. n \<noteq> ?p \<Longrightarrow> n \<noteq> MANIFEST_FILENAME \<Longrightarrow> map_of d2 n = map_of (dm_fs dm) n"
    unfolding table_added_def lv [symmetric] by blast
  have "wal_holds ?L (dm_wal dm) d2 (s # ss)"
    by (rule wal_holds_frame [OF wh g(2)], rule g(8)) (use wal_ext_other in blast)+
  from consume_seg_frame [OF this] c have w: "wal_holds ?L w d3 ss" "current_file_num w = current_file_num (dm_wal dm)"
    "\<And>m. \<forall>i. m \<noteq> make_file_name i ''wal'' \<Longrightarrow> map_of d3 m = map_of d2 m" by auto
  have fr: "map_of d3 (make_file_name n ''sst'') = map_of d2 (make_file_name n ''sst'')" for n
    by (rule w(3)) (use wal_sst_names [symmetric] in blast)
  have old: "map_of d2 (make_file_name n ''sst'') = map_of (dm_fs dm) (make_file_name n ''sst'')" if "n < ?N" for n
    using make_file_name_inj [of n "''sst''" ?N "''sst''"] that N by (intro g(8)) auto
  have "sr_inv S (dm_opt dm) M' sr d3 (Suc ?N) (v_levels (flushed v))"
    by (rule sr_inv_frame [OF g(4)]) (use fr w(3) N in auto)
  then have "dm_inv S M' dm' (flushed v) W"
    using d g(3) w(1) ss(2) [OF w(1)] hist_inv_flushed [OF d(9) u pl n0]
    unfolding dm_inv_def dm' by (simp add: wal_holds_def) (simp add: flushed_def)
  then show ?thesis using g(1,5-7) fr old by (intro exI [of _ M']) (auto simp: dm')
qed

subsection \<open>All memtables\<close>

text \<open>What a step leaves alone, whatever it finds.\<close>

definition wal_named :: "wal \<Rightarrow> bool" where
  "wal_named w \<longleftrightarrow> (\<forall>s \<in> set (segs w). \<exists>i. seg_path s = make_file_name i ''wal'')"

definition fs_keeps :: "string set \<Rightarrow> fs \<Rightarrow> fs \<Rightarrow> bool" where
  "fs_keeps X d d' \<longleftrightarrow>
     (\<forall>x. x \<noteq> MANIFEST_FILENAME \<longrightarrow> (\<forall>i. x \<noteq> make_file_name i ''wal'') \<longrightarrow> x \<notin> X \<longrightarrow> map_of d' x = map_of d x)"

lemma open_table_cache_id:
  "open_table S opt p d c = Some (Inr (r, c')) \<Longrightarrow> cache_id c' = Suc (cache_id c)"
  by (auto simp: open_table_def tr_new_def new_cache_id_def tryO_eq_Ok Let_def
      split: option.splits bind_splits if_splits prod.splits)

lemma skiplist_to_sstable_cache_id:
  "skiplist_to_sstable S m opt path d c = Some (Inr (x, d', c')) \<Longrightarrow> cache_id c \<le> cache_id c'"
  by (auto simp: skiplist_to_sstable_def tryO_eq_Ok Let_def split: if_splits bind_splits dest!: open_table_cache_id)

lemma minor_one_frame:
  assumes "sorted_kv (dm_fs dm)" "wal_named (dm_wal dm)" "minor_one S t dm = Some (Inr dm')"
  shows "sorted_kv (dm_fs dm') \<and> wal_named (dm_wal dm') \<and>
     dm_next_file_number dm' = Suc (dm_next_file_number dm) \<and> cache_id (dm_cache dm) \<le> cache_id (dm_cache dm') \<and>
     current_file_num (dm_wal dm') = current_file_num (dm_wal dm) \<and>
     fs_keeps {make_file_name (dm_next_file_number dm) ''sst''} (dm_fs dm) (dm_fs dm')"
proof -
  let ?p = "make_file_name (dm_next_file_number dm) ''sst''"
  obtain x d1 c1 sr d2 w d3 where
    b: "skiplist_to_sstable S (mt_map t) (dm_opt dm) ?p (dm_fs dm) (dm_cache dm) = Some (Inr (x, d1, c1))" and
    a: "(case x of None \<Rightarrow> Some (Inr (dm_readers dm, d1)) | Some (_, reader) \<Rightarrow> sr_add S (dm_readers dm) 0 reader d1) = Some (Inr (sr, d2))" and
    c: "consume_seg (dm_wal dm) d2 = Inr (w, d3)" and
    dm': "dm' = dm\<lparr>dm_next_file_number := dm_next_file_number dm + 1, dm_readers := sr, dm_wal := w, dm_fs := d3, dm_cache := c1\<rparr>"
    using assms(3) by (auto simp: minor_one_def new_file_number_def mt_build_sstable_def tryO_eq_Ok Let_def cong: option.case_cong)
  have s1: "sorted_kv d1 \<and> (\<forall>n. n \<noteq> ?p \<longrightarrow> map_of d1 n = map_of (dm_fs dm) n)"
    using skiplist_to_sstable_fs [OF b] assms(1) by (auto simp: map_of_fs_write)
  have s2: "sorted_kv d2 \<and> (\<forall>n. n \<noteq> MANIFEST_FILENAME \<longrightarrow> map_of d2 n = map_of d1 n)"
    using a s1 by (auto simp: sr_add_def map_of_fs_write split: option.splits dest!: add_readers_fs)
  have s3: "sorted_kv d3 \<and> (\<forall>n. (\<forall>i. n \<noteq> make_file_name i ''wal'') \<longrightarrow> map_of d3 n = map_of d2 n)"
    using consume_seg_fs [OF c] s2 assms(2) unfolding wal_named_def
    by (elim disjE) (simp, metis (no_types, lifting) map_of_del_kv fun_upd_other sorted_del_kv)
  have w: "wal_named w \<and> current_file_num w = current_file_num (dm_wal dm)"
    using c assms(2) by (auto simp: consume_seg_def wal_named_def split: list.splits sum.splits)
  have "fs_keeps {?p} (dm_fs dm) d3" using s1 s2 s3 by (simp add: fs_keeps_def)
  then show ?thesis using s3 w skiplist_to_sstable_cache_id [OF b] by (simp add: dm')
qed

subsection \<open>Dropping memtables\<close>

definition dropped :: "view \<Rightarrow> view" where
  "dropped v = v\<lparr>v_imm := butlast (v_imm v), v_pend := v_pend v - 1\<rparr>"

lemma first_hit_shadow:
  assumes "first_hit (xs @ ys @ T) = first_hit T"
  shows "first_hit (xs @ T) = first_hit T"
proof
  fix k
  have "first_hit (xs @ ys @ T) k = first_hit T k" using assms by simp
  then show "first_hit (xs @ T) k = first_hit T k" by (auto simp: first_hit_append split: option.splits)
qed

lemma dropped_inv:
  assumes h: "hist_inv v W" and w: "wal_inv L wl d v" and p: "0 < v_pend v"
  shows "hist_inv (dropped v) W" "wal_inv L wl d (dropped v)"
proof -
  have pl: "v_pend v \<le> length (v_imm v)" using w by (simp add: wal_inv_def)
  obtain ps e where ps: "pending v = ps @ [e]"
    using p pl by (cases "pending v" rule: rev_cases) (auto simp: pending_def)
  have lp: "length (pending v) = v_pend v" using pl by (simp add: pending_def)
  have im: "v_imm v = unflushed v @ ps @ [e]" unfolding unflushed_def ps [symmetric] pending_def by simp
  have n: "length (v_imm v) - v_pend v = length (unflushed v)" using pl by (simp add: unflushed_def)
  have bl: "v_imm (dropped v) = unflushed v @ ps" using im by (simp add: dropped_def butlast_append)
  have ln: "length (v_imm (dropped v)) - v_pend (dropped v) = length (unflushed v)"
    using arg_cong [OF ps, of length] lp by (simp add: bl) (simp add: dropped_def)
  have un: "unflushed (dropped v) = unflushed v" "pending (dropped v) = ps"
    unfolding unflushed_def [of "dropped v"] pending_def ln by (simp_all add: bl)
  let ?T = "tables_view (v_levels v)"
  have t: "v_levels (dropped v) = v_levels v" "v_mut (dropped v) = v_mut v" "v_segs (dropped v) = v_segs v"
    by (simp_all add: dropped_def)
  have sh: "first_hit (ps @ [e] @ ?T) = first_hit ?T" using h ps by (simp add: hist_inv_def)
  have p1: "first_hit (ps @ ?T) = first_hit ?T" by (rule first_hit_shadow [OF sh])
  have "first_hit ((v_mut v # unflushed v) @ ps @ ?T) = first_hit ((v_mut v # unflushed v) @ ps @ [e] @ ?T)"
    by (rule first_hit_append_cong) (simp only: p1 sh)
  also have "\<dots> = map_of (rev W)" using h by (simp add: hist_inv_def db_view_def im)
  finally have "first_hit (db_view (dropped v)) = map_of (rev W)" by (simp add: db_view_def bl t)
  then show "hist_inv (dropped v) W"
    using h p1 im unfolding hist_inv_def un(2) bl t by auto
  have "v_pend (dropped v) \<le> length (v_imm (dropped v))" using pl by (simp add: dropped_def)
  moreover have "v_imm v \<noteq> []" using im by simp
  ultimately show "wal_inv L wl d (dropped v)"
    using w unfolding wal_inv_def un(1) t by (auto split: if_splits)
qed

lemma minor_consume_imm: "\<exists>i. minor_consume n dm = dm\<lparr>dm_imm := i\<rparr>"
proof (induction n arbitrary: dm)
  case 0
  show ?case by (rule exI [of _ "dm_imm dm"]) simp
next
  case (Suc n)
  show ?case using Suc [of "dm\<lparr>dm_imm := snd (ml_consume (dm_imm dm))\<rparr>"] by auto
qed

lemma minor_consume_tables:
  "ml_tables (dm_imm (minor_consume n dm)) = take (length (ml_tables (dm_imm dm)) - n) (ml_tables (dm_imm dm))"
  by (induction n arbitrary: dm) (auto simp: ml_consume_def butlast_conv_take min_def)

lemma minor_consume_view:
  assumes "dm_inv S M dm v W" "c \<le> v_pend v"
  shows "dm_inv S M (minor_consume c dm) (v\<lparr>v_imm := take (length (v_imm v) - c) (v_imm v), v_pend := v_pend v - c\<rparr>) W"
  using assms
proof (induction c arbitrary: dm v)
  case 0
  then show ?case by simp
next
  case (Suc c)
  note d = dm_invD [OF Suc.prems(1)]
  have pl: "v_pend v \<le> length (v_imm v)" using d(7) by (simp add: wal_inv_def)
  then obtain xs e where xs: "v_imm v = xs @ [e]" using Suc.prems(2) by (cases "v_imm v" rule: rev_cases) auto
  obtain t l where l: "ml_consume (dm_imm dm) = (Some t, l)" "ml_rel l xs"
    using ml_consume_rel [OF d(6) [unfolded xs]] by blast
  let ?dm = "dm\<lparr>dm_imm := l\<rparr>"
  have "dm_inv S M ?dm (dropped v) W"
    using d l(2) dropped_inv [OF d(9,7)] Suc.prems(2) by (simp add: dm_inv_def) (simp add: dropped_def xs)
  moreover have "c \<le> v_pend (dropped v)" using Suc.prems(2) by (simp add: dropped_def)
  ultimately show ?case using Suc.IH [of ?dm "dropped v"] l(1) by (simp add: dropped_def xs)
qed

lemma minor_consume_ok:
  assumes "dm_inv S M dm v W" "c \<le> v_pend v"
  shows "\<exists>v'. dm_inv S M (minor_consume c dm) v' W \<and> v_pend v' = v_pend v - c \<and> v_levels v' = v_levels v \<and>
     length (v_imm v') = length (v_imm v) - c"
  using minor_consume_view [OF assms] by fastforce

end
