(* ===== verification/Dm_Swap.thy ===== *)
theory Dm_Swap
  imports Dm_Minor
begin

text \<open>
  The second half of the major compaction: the inputs leave their two levels and the merged
  tables enter the lower one.  \<open>swap_ok\<close> says what the first half has prepared; it speaks of
  readers by their names only, so that the steps that happen in between keep it.
\<close>

subsection \<open>Lookups in tables with disjoint keys\<close>

definition keys_disjoint :: "entry list list \<Rightarrow> bool" where
  "keys_disjoint ls \<longleftrightarrow> distinct ls \<and>
     (\<forall>a \<in> set ls. \<forall>b \<in> set ls. a \<noteq> b \<longrightarrow> fst ` set a \<inter> fst ` set b = {})"

lemma apart_keys:
  assumes "apart a b" "sorted_kv a" "sorted_kv b"
  shows "fst ` set a \<inter> fst ` set b = {}"
proof -
  have r: "fst (hd x) \<le> k \<and> k \<le> fst (last x)" if "sorted_kv x" "k \<in> fst ` set x" for x :: "entry list" and k
    using sorted_range [OF that(1), of k] that(2) by auto
  show ?thesis
  proof (rule equals0I)
    fix k assume "k \<in> fst ` set a \<inter> fst ` set b"
    then have "fst (hd a) \<le> k \<and> k \<le> fst (last a)" "fst (hd b) \<le> k \<and> k \<le> fst (last b)"
      using r [OF assms(2)] r [OF assms(3)] by blast+
    with assms(1) show False unfolding apart_def by (elim disjE conjE) order+
  qed
qed

lemma disjoint_tables_keys: "disjoint_tables ls \<Longrightarrow> tables_ok ls \<Longrightarrow> keys_disjoint ls"
  unfolding disjoint_tables_def keys_disjoint_def tables_ok_def by (simp add: apart_keys)

lemma first_hit_in:
  assumes "keys_disjoint ls" "es \<in> set ls" "map_of es k = Some x"
  shows "first_hit ls k = Some x"
  using assms
proof (induction ls)
  case (Cons a ls)
  have k: "k \<in> fst ` set es" using Cons.prems(3) by (metis map_of_eq_None_iff option.distinct(1))
  show ?case
  proof (cases "es = a")
    case True
    with Cons.prems show ?thesis by simp
  next
    case False
    then have "fst ` set es \<inter> fst ` set a = {}" using Cons.prems(1,2) by (simp add: keys_disjoint_def)
    with k have "k \<notin> fst ` set a" by blast
    then have "map_of a k = None" by (simp add: map_of_eq_None_iff)
    moreover have "keys_disjoint ls" using Cons.prems(1) by (auto simp: keys_disjoint_def)
    ultimately show ?thesis using Cons.IH Cons.prems(2,3) False by simp
  qed
qed simp

lemma first_hit_SomeD: "first_hit ls k = Some x \<Longrightarrow> \<exists>es \<in> set ls. map_of es k = Some x"
  by (induction ls) (auto split: option.splits)

lemma first_hit_perm:
  assumes "keys_disjoint ls" "set ls = set ls'"  "distinct ls'"
  shows "first_hit ls' = first_hit ls"
proof
  fix k
  have k': "keys_disjoint ls'" using assms by (simp add: keys_disjoint_def)
  show "first_hit ls' k = first_hit ls k"
  proof (cases "first_hit ls k")
    case (Some x)
    then show ?thesis using first_hit_SomeD [OF Some] first_hit_in [OF k'] assms(2) by auto
  next
    case None
    show ?thesis
    proof (cases "first_hit ls' k")
      case (Some y)
      then show ?thesis using first_hit_SomeD [OF Some] first_hit_in [OF assms(1)] assms(2) None by auto
    qed (simp add: None)
  qed
qed

lemma first_hit_mset: "keys_disjoint ls \<Longrightarrow> mset ls' = mset ls \<Longrightarrow> first_hit ls' = first_hit ls"
  by (rule first_hit_perm) (auto simp: keys_disjoint_def dest: mset_eq_setD mset_eq_imp_distinct_iff)

subsection \<open>What the first half prepares\<close>

definition swap_ok ::
  "('f, 'c) server_libs \<Rightarrow> (bytes \<rightharpoonup> bytes) \<Rightarrow> ('f, 'c) data_manager \<Rightarrow> view \<Rightarrow> entry list \<Rightarrow> 'f swap \<Rightarrow> bool" where
  "swap_ok S M dm v W sw \<longleftrightarrow>
     (let l = sw_level sw; rss = sr_readers (dm_readers dm); lss = v_levels v;
          kept1 = kept (rss ! Suc l) (lss ! Suc l) (sw_names1 sw)
      in Suc l < max_level (dm_opt dm) \<and> distinct (sw_names0 sw) \<and> distinct (sw_names1 sw) \<and>
         set (sw_names1 sw) \<subseteq> tr_file_name ` set (rss ! Suc l) \<and>
         (\<forall>r \<in> set (sw_readers sw). reader_stored (dm_fs dm) (dm_next_file_number dm) r) \<and>
         distinct (map tr_file_name (concat rss @ sw_readers sw)) \<and>
         (\<exists>a news. a \<le> length (lss ! l) \<and> (l \<noteq> 0 \<longrightarrow> a = length (lss ! l)) \<and>
            set (sw_names0 sw) = set (take a (map tr_file_name (rss ! l))) \<and>
            list_all2 (reader_ok (tlibs S) (restart_interval (dm_opt dm)) M) (sw_readers sw) news \<and>
            disjoint_tables (kept1 @ news) \<and> (\<forall>es \<in> set news. set es \<subseteq> set W) \<and>
            first_hit (rev (take a (lss ! l)) @ lss ! Suc l) = first_hit (news @ kept1)))"

lemma kept_drop:
  assumes "distinct (map tr_file_name rs)" "length rs = length ls" "a \<le> length ls" "set names = set (take a (map tr_file_name rs))"
  shows "kept rs ls names = drop a ls" "filter (\<lambda>r. tr_file_name r \<notin> set names) rs = drop a rs"
proof -
  let ?P = "\<lambda>r. tr_file_name r \<notin> set names"
  have t: "\<not> ?P r" if "r \<in> set (take a rs)" for r using that assms(4) by (simp add: take_map)
  have "distinct (map tr_file_name (take a rs @ drop a rs))" using assms(1) by simp
  then have d: "?P r" if "r \<in> set (drop a rs)" for r
    using that assms(4) unfolding map_append distinct_append take_map by (metis disjoint_iff imageI set_map)
  have z: "zip rs ls = zip (take a rs) (take a ls) @ zip (drop a rs) (drop a ls)"
    by (metis append_take_drop_id length_take assms(2) zip_append)
  have "filter (\<lambda>p. ?P (fst p)) (zip (take a rs) (take a ls)) = []"
    using t by (auto simp: filter_empty_conv dest!: set_zip_leftD)
  moreover have "filter (\<lambda>p. ?P (fst p)) (zip (drop a rs) (drop a ls)) = zip (drop a rs) (drop a ls)"
    using d by (auto simp: filter_id_conv dest!: set_zip_leftD)
  ultimately show "kept rs ls names = drop a ls" using assms(2) by (simp add: kept_def z)
  have "filter ?P (take a rs @ drop a rs) = drop a rs"
    unfolding filter_append using t d by (auto simp: filter_empty_conv filter_id_conv)
  then show "filter ?P rs = drop a rs" by simp
qed

text \<open>Two neighbouring levels in the order of a lookup.\<close>

lemma tables_view_two:
  assumes "Suc l < length lss"
  shows "tables_view lss = concat (map (level_view lss) [0..<l]) @ level_view lss l @ lss ! Suc l @
     concat (map (level_view lss) [Suc (Suc l)..<length lss])"
proof -
  have "[0..<length lss] = [0..<l] @ [l..<length lss]" using assms upt_add_eq_append [of 0 l "length lss - l"] by simp
  moreover have "[l..<length lss] = l # Suc l # [Suc (Suc l)..<length lss]" using assms by (simp add: upt_conv_Cons)
  ultimately show ?thesis by (simp add: tables_view_def level_view_def)
qed

lemma first_hit_cong_left: "first_hit xs = first_hit xs' \<Longrightarrow> first_hit (xs @ ys) = first_hit (xs' @ ys)"
  by (rule ext) (simp only: first_hit_append)

lemma tables_view_swap:
  assumes l: "Suc l < length lss" and a: "l \<noteq> 0 \<Longrightarrow> a = length (lss ! l)" and k: "l \<noteq> 0 \<Longrightarrow> keys_disjoint (lss ! l)"
    and f: "first_hit (rev (take a (lss ! l)) @ lss ! Suc l) = first_hit ls'"
  shows "first_hit (tables_view (lss[l := drop a (lss ! l), Suc l := ls'])) = first_hit (tables_view lss)"
proof -
  let ?n = "lss[l := drop a (lss ! l), Suc l := ls']"
  let ?A = "concat (map (level_view lss) [0..<l])" and ?B = "concat (map (level_view lss) [Suc (Suc l)..<length lss])"
  have eq: "map (level_view ?n) xs = map (level_view lss) xs" if "l \<notin> set xs" "Suc l \<notin> set xs" for xs
  proof (rule map_cong)
    fix x assume "x \<in> set xs"
    then have "x \<noteq> l" "x \<noteq> Suc l" using that by auto
    then have "?n ! x = lss ! x" by simp
    then show "level_view ?n x = level_view lss x" by (simp only: level_view_def)
  qed simp
  have n: "tables_view ?n = ?A @ level_view ?n l @ ls' @ ?B"
    using tables_view_two [of l ?n] l eq [of "[0..<l]"] eq [of "[Suc (Suc l)..<length lss]"] by simp
  have v: "first_hit (level_view ?n l @ X) = first_hit (rev (drop a (lss ! l)) @ X)" for X
  proof -
    have "?n ! l = drop a (lss ! l)" using l by simp
    then show ?thesis using a by (cases "l = 0") (simp_all only: level_view_def, simp_all)
  qed
  have o: "first_hit (level_view lss l @ X) = first_hit (rev (drop a (lss ! l)) @ rev (take a (lss ! l)) @ X)" for X
  proof (cases "l = 0")
    case True
    have "rev (lss ! l) = rev (drop a (lss ! l)) @ rev (take a (lss ! l))" by (metis append_take_drop_id rev_append)
    with True show ?thesis by (simp add: level_view_def)
  next
    case False
    have "first_hit (rev (lss ! l)) = first_hit (lss ! l)" by (rule first_hit_mset [OF k [OF False]]) simp
    with False a show ?thesis by (auto simp: level_view_def fun_eq_iff first_hit_append split: option.split)
  qed
  have "first_hit (level_view ?n l @ ls' @ ?B) = first_hit (rev (drop a (lss ! l)) @ ls' @ ?B)" by (rule v)
  also have "\<dots> = first_hit (rev (drop a (lss ! l)) @ (rev (take a (lss ! l)) @ lss ! Suc l) @ ?B)"
    by (rule first_hit_append_cong) (rule first_hit_cong_left [OF f [symmetric]])
  also have "\<dots> = first_hit (level_view lss l @ lss ! Suc l @ ?B)" by (simp add: o)
  finally show ?thesis
    unfolding n tables_view_two [OF l] by (rule first_hit_append_cong)
qed

subsection \<open>The swap\<close>

lemma hist_inv_levels:
  assumes h: "hist_inv v W" and t: "first_hit (tables_view lss) = first_hit (tables_view (v_levels v))"
    and s: "\<And>es. es \<in> set (concat lss) \<Longrightarrow> set es \<subseteq> set W"
  shows "hist_inv (v\<lparr>v_levels := lss\<rparr>) W"
proof -
  let ?v = "v\<lparr>v_levels := lss\<rparr>"
  have "first_hit (db_view ?v) = first_hit (db_view v)"
    using first_hit_append_cong [OF t, of "v_mut v # v_imm v"] by (simp add: db_view_def)
  moreover have p: "pending ?v = pending v" by (simp add: pending_def)
  have "first_hit (pending ?v @ tables_view lss) = first_hit (pending v @ tables_view (v_levels v))"
    unfolding p by (rule first_hit_append_cong [OF t])
  ultimately show ?thesis using h t s unfolding hist_inv_def by auto
qed

lemma concat_split: "i < length xss \<Longrightarrow> concat xss = concat (take i xss) @ xss ! i @ concat (drop (Suc i) xss)"
  using id_take_nth_drop [of i xss] by (metis concat.simps(2) concat_append)

lemma set_kept: "set (kept rs ls names) \<subseteq> set ls"
  by (auto simp: kept_def dest: set_zip_rightD)

lemma set_concat_update: "x \<in> set (concat (xss[i := ys])) \<Longrightarrow> x \<in> set (concat xss) \<or> x \<in> set ys"
  by (auto dest!: set_update_subset_insert [THEN subsetD])

lemma stored_after_removal:
  assumes "reader_stored d N r" "tr_file_name r \<notin> X"
    and "\<And>x. x \<noteq> MANIFEST_FILENAME \<Longrightarrow> x \<notin> X \<Longrightarrow> map_of d' x = map_of d x"
  shows "reader_stored d' N r"
  using assms manifest_name by (auto simp: reader_stored_def)

lemma swap_okE:
  assumes "swap_ok S M dm v W sw"
  obtains a news where "Suc (sw_level sw) < max_level (dm_opt dm)" "distinct (sw_names0 sw)" "distinct (sw_names1 sw)"
    "set (sw_names1 sw) \<subseteq> tr_file_name ` set (sr_readers (dm_readers dm) ! Suc (sw_level sw))"
    "\<And>r. r \<in> set (sw_readers sw) \<Longrightarrow> reader_stored (dm_fs dm) (dm_next_file_number dm) r"
    "distinct (map tr_file_name (concat (sr_readers (dm_readers dm)) @ sw_readers sw))"
    "a \<le> length (v_levels v ! sw_level sw)" "sw_level sw \<noteq> 0 \<Longrightarrow> a = length (v_levels v ! sw_level sw)"
    "set (sw_names0 sw) = set (take a (map tr_file_name (sr_readers (dm_readers dm) ! sw_level sw)))"
    "list_all2 (reader_ok (tlibs S) (restart_interval (dm_opt dm)) M) (sw_readers sw) news"
    "disjoint_tables (kept (sr_readers (dm_readers dm) ! Suc (sw_level sw)) (v_levels v ! Suc (sw_level sw)) (sw_names1 sw) @ news)"
    "\<And>es. es \<in> set news \<Longrightarrow> set es \<subseteq> set W"
    "first_hit (rev (take a (v_levels v ! sw_level sw)) @ v_levels v ! Suc (sw_level sw)) =
       first_hit (news @ kept (sr_readers (dm_readers dm) ! Suc (sw_level sw)) (v_levels v ! Suc (sw_level sw)) (sw_names1 sw))"
  using assms unfolding swap_ok_def Let_def by blast

text \<open>The three steps on the tables and files.\<close>

lemma swap_steps:
  assumes S: "bincode_manifest_ok S" and inv: "sr_inv S opt M sr d N lss" and d: "sorted_kv d" and l: "Suc l < max_level opt"
    and dn: "distinct ns0" "distinct ns1" and n0: "set ns0 \<subseteq> tr_file_name ` set (sr_readers sr ! l)"
    and n1: "set ns1 \<subseteq> tr_file_name ` set (sr_readers sr ! Suc l)"
    and st: "\<And>r. r \<in> set rs \<Longrightarrow> reader_stored d N r" and di: "distinct (map tr_file_name (concat (sr_readers sr) @ rs))"
    and rs: "list_all2 (reader_ok (tlibs S) (restart_interval opt) M) rs news"
    and dj: "disjoint_tables (kept (sr_readers sr ! Suc l) (lss ! Suc l) ns1 @ news)"
    and s1: "remove_by_file_names S sr l ns0 d = Some (Inr (sr1, d1))"
    and s2: "remove_by_file_names S sr1 (Suc l) ns1 d1 = Some (Inr (sr2, d2))"
    and s3: "add_readers S sr2 (Suc l) rs d2 = Some (Inr (sr3, d3))"
  shows "\<exists>ls. sr_inv S opt M sr3 d3 N (lss[l := kept (sr_readers sr ! l) (lss ! l) ns0, Suc l := ls]) \<and>
     mset ls = mset (kept (sr_readers sr ! Suc l) (lss ! Suc l) ns1 @ news) \<and> sorted_kv d3 \<and>
     (\<forall>x. x \<noteq> MANIFEST_FILENAME \<longrightarrow> x \<notin> set ns0 \<union> set ns1 \<longrightarrow> map_of d3 x = map_of d x)"
proof -
  let ?rss = "sr_readers sr" and ?k1 = "kept (sr_readers sr ! Suc l) (lss ! Suc l) ns1"
  let ?lss1 = "lss[l := kept (sr_readers sr ! l) (lss ! l) ns0]"
  note v = sr_invD [OF inv]
  have ll: "Suc l < length lss" "l < length ?rss" "Suc l < length ?rss" using l v(3,10) by simp_all
  have r1: "sr_inv S opt M sr1 d1 N ?lss1" "sorted_kv d1"
    "sr_readers sr1 = ?rss[l := filter (\<lambda>r. tr_file_name r \<notin> set ns0) (?rss ! l)]"
    "\<And>x. x \<noteq> MANIFEST_FILENAME \<Longrightarrow> x \<notin> set ns0 \<Longrightarrow> map_of d1 x = map_of d x"
    using remove_by_file_names_ok [OF S inv d _ dn(1) n0 s1] l by auto
  have e1: "sr_readers sr1 ! Suc l = ?rss ! Suc l" "?lss1 ! Suc l = lss ! Suc l" by (simp_all add: r1(3))
  have r2: "sr_inv S opt M sr2 d2 N (?lss1[Suc l := ?k1])" "sorted_kv d2"
    "sr_readers sr2 = (sr_readers sr1)[Suc l := filter (\<lambda>r. tr_file_name r \<notin> set ns1) (?rss ! Suc l)]"
    "\<And>x. x \<noteq> MANIFEST_FILENAME \<Longrightarrow> x \<notin> set ns1 \<Longrightarrow> map_of d2 x = map_of d1 x"
    using remove_by_file_names_ok [OF S r1(1,2) l dn(2) _ s2] n1 by (simp_all add: e1)
  have up: "set (?rss ! l) \<union> set (?rss ! Suc l) \<subseteq> set (concat ?rss)" using ll nth_mem by fastforce
  have sub: "set (concat (sr_readers sr2)) \<subseteq> set (concat ?rss)"
  proof
    fix x assume "x \<in> set (concat (sr_readers sr2))"
    then have "x \<in> set (concat ?rss) \<or> x \<in> set (?rss ! l) \<or> x \<in> set (?rss ! Suc l)"
      unfolding r2(3) r1(3) by (auto dest!: set_concat_update simp del: set_concat)
    then show "x \<in> set (concat ?rss)" using up by blast
  qed
  have nn: "tr_file_name r \<notin> set ns0 \<union> set ns1" if "r \<in> set rs" for r
  proof -
    have "tr_file_name r \<notin> tr_file_name ` set (concat ?rss)" using di that by auto
    then show ?thesis using n0 n1 up by blast
  qed
  have st2: "reader_stored d2 N r" if "r \<in> set rs" for r
    by (rule stored_after_removal [OF st [OF that] nn [OF that]]) (use r1(4) r2(4) in simp)
  have di2: "distinct (map tr_file_name (concat (sr_readers sr2) @ rs))" using di sr_invD(6) [OF r2(1)] sub by auto
  have k1: "?lss1[Suc l := ?k1] ! Suc l = ?k1" using ll by simp
  from add_readers_ok [OF S r2(1,2) l rs st2 di2 _ s3] show ?thesis
    unfolding k1 using dj r1(4) r2(4) by auto
qed

text \<open>What the tables say is the same, and they say nothing that was not written.\<close>

lemma swap_view:
  assumes lv: "levels_ok L n M rss lss" and ll: "Suc l < length lss" and a: "l \<noteq> 0 \<Longrightarrow> a = length (lss ! l)"
    and rs: "list_all2 (reader_ok L n M) rs news" and dj: "disjoint_tables (kept (rss ! Suc l) (lss ! Suc l) ns @ news)"
    and fh: "first_hit (rev (take a (lss ! l)) @ lss ! Suc l) = first_hit (news @ kept (rss ! Suc l) (lss ! Suc l) ns)"
    and ls: "mset ls = mset (kept (rss ! Suc l) (lss ! Suc l) ns @ news)"
  shows "first_hit (tables_view (lss[l := drop a (lss ! l), Suc l := ls])) = first_hit (tables_view lss)"
proof -
  let ?k = "kept (rss ! Suc l) (lss ! Suc l) ns"
  note d = levels_okD [OF lv]
  have l: "l < length lss" using ll by simp
  have "tables_ok (?k @ news)"
    using tables_ok_readers [OF rs] tables_ok_readers [OF d(2) [OF ll]] set_kept [of "rss ! Suc l" "lss ! Suc l" ns]
    unfolding tables_ok_def by auto
  then have kd: "keys_disjoint (?k @ news)" by (rule disjoint_tables_keys [OF dj])
  have "first_hit ls = first_hit (?k @ news)" "first_hit (news @ ?k) = first_hit (?k @ news)"
    using ls by (auto intro!: first_hit_mset [OF kd])
  with fh have f: "first_hit (rev (take a (lss ! l)) @ lss ! Suc l) = first_hit ls" by simp
  have kl: "keys_disjoint (lss ! l)" if "l \<noteq> 0"
    using that d(2,3) [OF l] by (intro disjoint_tables_keys disjoint_tables_sorted(1)) (auto intro: tables_ok_readers)
  show ?thesis by (rule tables_view_swap [OF ll a kl f])
qed

lemma swap_entries:
  assumes ll: "Suc l < length lss" and ls: "mset ls = mset (kept rs (lss ! Suc l) ns @ news)"
    and P: "\<And>es. es \<in> set (concat lss) \<Longrightarrow> P es" "\<And>es. es \<in> set news \<Longrightarrow> P es"
    and es: "es \<in> set (concat (lss[l := drop a (lss ! l), Suc l := ls]))"
  shows "P es"
proof -
  have "es \<in> set (concat lss) \<or> es \<in> set (drop a (lss ! l)) \<or> es \<in> set ls"
    using set_concat_update [OF es] set_concat_update [of es lss l "drop a (lss ! l)"] by blast
  moreover have "set ls = set (kept rs (lss ! Suc l) ns) \<union> set news" using mset_eq_setD [OF ls] by simp
  moreover have "set (kept rs (lss ! Suc l) ns) \<subseteq> set (lss ! Suc l)" by (rule set_kept)
  moreover have "set (drop a (lss ! l)) \<subseteq> set (lss ! l)" by (rule set_drop_subset)
  moreover have "set (lss ! l) \<union> set (lss ! Suc l) \<subseteq> set (concat lss)" using ll nth_mem by fastforce
  ultimately show ?thesis using P by blast
qed

lemma size_swap_ok:
  assumes S: "bincode_manifest_ok S" and inv: "dm_inv S M dm v W" and sw: "swap_ok S M dm v W sw"
    and r: "size_swap S sw dm = Some (Inr dm')"
  shows "\<exists>lss. dm_inv S M dm' (v\<lparr>v_levels := lss\<rparr>) W \<and> (\<exists>sr d. dm' = dm\<lparr>dm_readers := sr, dm_fs := d\<rparr>)"
proof -
  note d = dm_invD [OF inv]
  note v = sr_invD [OF d(8)]
  let ?l = "sw_level sw" and ?rss = "sr_readers (dm_readers dm)" and ?lss = "v_levels v"
  let ?k1 = "kept (?rss ! Suc ?l) (?lss ! Suc ?l) (sw_names1 sw)"
  obtain a news where s: "Suc ?l < max_level (dm_opt dm)" "distinct (sw_names0 sw)" "distinct (sw_names1 sw)"
    "set (sw_names1 sw) \<subseteq> tr_file_name ` set (?rss ! Suc ?l)"
    "\<And>r. r \<in> set (sw_readers sw) \<Longrightarrow> reader_stored (dm_fs dm) (dm_next_file_number dm) r"
    "distinct (map tr_file_name (concat ?rss @ sw_readers sw))"
    "a \<le> length (?lss ! ?l)" "?l \<noteq> 0 \<Longrightarrow> a = length (?lss ! ?l)"
    "set (sw_names0 sw) = set (take a (map tr_file_name (?rss ! ?l)))"
    "list_all2 (reader_ok (tlibs S) (restart_interval (dm_opt dm)) M) (sw_readers sw) news"
    "disjoint_tables (?k1 @ news)" "\<And>es. es \<in> set news \<Longrightarrow> set es \<subseteq> set W"
    "first_hit (rev (take a (?lss ! ?l)) @ ?lss ! Suc ?l) = first_hit (news @ ?k1)"
    using sw by (rule swap_okE) (rule that)
  obtain sr1 d1 sr2 d2 sr3 d3 where
    q: "remove_by_file_names S (dm_readers dm) ?l (sw_names0 sw) (dm_fs dm) = Some (Inr (sr1, d1))"
      "remove_by_file_names S sr1 (Suc ?l) (sw_names1 sw) d1 = Some (Inr (sr2, d2))"
      "add_readers S sr2 (Suc ?l) (sw_readers sw) d2 = Some (Inr (sr3, d3))"
    and dm': "dm' = dm\<lparr>dm_readers := sr3, dm_fs := d3\<rparr>"
    using r by (auto simp: size_swap_def tryO_eq_Ok)
  have ll: "Suc ?l < length ?lss" "?l < length ?rss" "Suc ?l < length ?rss" using s(1) v(3,10) by simp_all
  have "distinct (map tr_file_name (?rss ! ?l))" using v(6) unfolding concat_split [OF ll(2)] by simp
  then have kd: "kept (?rss ! ?l) (?lss ! ?l) (sw_names0 sw) = drop a (?lss ! ?l)"
    using list_all2_lengthD [OF levels_okD(2) [OF v(5), of ?l]] ll(1) s(7,9) by (intro kept_drop(1)) auto
  have n0: "set (sw_names0 sw) \<subseteq> tr_file_name ` set (?rss ! ?l)"
    using s(9) set_take_subset [of a] by (auto simp: take_map dest: in_set_takeD)
  obtain ls where w: "sr_inv S (dm_opt dm) M sr3 d3 (dm_next_file_number dm) (?lss[?l := drop a (?lss ! ?l), Suc ?l := ls])"
    "mset ls = mset (?k1 @ news)" "sorted_kv d3"
    "\<And>x. x \<noteq> MANIFEST_FILENAME \<Longrightarrow> x \<notin> set (sw_names0 sw) \<union> set (sw_names1 sw) \<Longrightarrow> map_of d3 x = map_of (dm_fs dm) x"
    using swap_steps [OF S d(8,1) s(1-3) n0 s(4-6) s(10,11) q] unfolding kd by blast
  let ?new = "?lss[?l := drop a (?lss ! ?l), Suc ?l := ls]"
  have "set es \<subseteq> set W" if "es \<in> set (concat ?lss)" for es using d(9) that by (auto simp: hist_inv_def)
  then have "set es \<subseteq> set W" if "es \<in> set (concat ?new)" for es
    using swap_entries [where P = "\<lambda>es. set es \<subseteq> set W", OF ll(1) w(2) _ s(12) that] by blast
  from hist_inv_levels [OF d(9) swap_view [OF v(5) ll(1) s(8,10,11,13) w(2)] this]
  have h: "hist_inv (v\<lparr>v_levels := ?new\<rparr>) W" .
  have "map_of d3 x = map_of (dm_fs dm) x" if x: "has_ext ''wal'' x" for x
  proof (rule w(4))
    have "x \<notin> tr_file_name ` set (concat ?rss)" using v(7) wal_ext_other [OF x] unfolding reader_stored_def by fastforce
    moreover have "set (?rss ! ?l) \<union> set (?rss ! Suc ?l) \<subseteq> set (concat ?rss)" using ll nth_mem by fastforce
    ultimately show "x \<notin> set (sw_names0 sw) \<union> set (sw_names1 sw)" using n0 s(4) by blast
  qed (use wal_ext_other [OF x] in simp)
  then have "wal_holds (tlibs S) (dm_wal dm) d3 (v_segs v)"
    using d(7) by (intro wal_holds_frame [OF _ w(3)]) (simp_all add: wal_inv_def)
  then have "wal_inv (tlibs S) (dm_wal dm) d3 (v\<lparr>v_levels := ?new\<rparr>)" using d(7) by (simp add: wal_inv_def unflushed_def)
  then have "dm_inv S M dm' (v\<lparr>v_levels := ?new\<rparr>) W" using d w(1,3) h by (simp add: dm_inv_def dm')
  then show ?thesis using dm' by blast
qed

end
