(* ===== verification/Dm_Merge.thy ===== *)
theory Dm_Merge
  imports Dm_Swap
begin

text \<open>
  The first half of the major compaction: the loop that merges the inputs and cuts the merged
  entries into tables.  The loop ends, writes no file but those it numbers, and the tables hold
  the merged entries in order.
\<close>

abbreviation sst_name :: "nat \<Rightarrow> string" where
  "sst_name n \<equiv> make_file_name n ''sst''"

subsection \<open>New names\<close>

lemma old_name: "n < N \<Longrightarrow> m < usize_bound \<Longrightarrow> N \<le> m \<Longrightarrow> sst_name n \<notin> sst_name ` {N..<m}"
proof
  assume a: "n < N" "m < usize_bound" "N \<le> m" and "sst_name n \<in> sst_name ` {N..<m}"
  then obtain j where "sst_name n = sst_name j" "N \<le> j" "j < m" by auto
  with make_file_name_inj [of n "''sst''" j "''sst''"] a show False by auto
qed

lemma other_names: "MANIFEST_FILENAME \<notin> sst_name ` X" "has_ext ''wal'' x \<Longrightarrow> x \<notin> sst_name ` X"
  using manifest_name wal_ext_other by fastforce+

text \<open>Readers over the files from number \<open>N\<close> on.\<close>

lemma new_names_distinct:
  assumes "sr_inv S opt M sr d N lss" "n < usize_bound" "map tr_file_name rs = map sst_name [N..<n]"
  shows "distinct (map tr_file_name (concat (sr_readers sr) @ rs))"
proof -
  have "distinct (map sst_name [N..<n])"
    using make_file_name_inj [of _ "''sst''" _ "''sst''"] assms(2) by (force simp: distinct_map inj_on_def)
  moreover have "x \<notin> set (map tr_file_name (concat (sr_readers sr)))" if x: "x \<in> set (map sst_name [N..<n])" for x
  proof -
    obtain i where "x = sst_name i" "N \<le> i" "i < n" using x by auto
    then show ?thesis using fresh_name [OF assms(1), of i] assms(2) by simp
  qed
  then have "set (map tr_file_name (concat (sr_readers sr))) \<inter> set (map sst_name [N..<n]) = {}" by blast
  ultimately show ?thesis using sr_invD(6) [OF assms(1)] by (simp only: map_append assms(3) distinct_append)
qed

lemma new_names_stored:
  assumes "map tr_file_name rs = map sst_name [N..<n]" "r \<in> set rs" "map_of d (tr_file_name r) = Some (tr_file r)"
  shows "reader_stored d n r"
proof -
  have "tr_file_name r \<in> sst_name ` {N..<n}" using assms(2) arg_cong [OF assms(1), of set] by auto
  then show ?thesis using assms(3) by (auto simp: reader_stored_def)
qed

subsection \<open>Starting the merge\<close>

lemma ti_pos_mono:
  assumes "M \<subseteq>\<^sub>m M'"
  shows "ti_pos L I M t bs cid s es p \<Longrightarrow> ti_pos L I M' t bs cid s es p"
    "ti_finished L I M t bs cid s es \<Longrightarrow> ti_finished L I M' t bs cid s es"
  using assms cache_agrees_mono [of L M _ M']
  by (auto simp: ti_pos_def ti_inv_def in_block_def ti_finished_def table_in_def map_le_def dom_def split: option.splits)

lemma it_rem_mono: "it_rem L I M x r \<Longrightarrow> M \<subseteq>\<^sub>m M' \<Longrightarrow> it_rem L I M' x r"
  by (auto simp: it_rem_def it_pos_def dest: ti_pos_mono)

lemma mg_inv_cache:
  assumes "mg_inv L I M cid m rs" "M \<subseteq>\<^sub>m M'" "cache_agrees L M' c"
  shows "mg_inv L I M' (cache_id c) (m\<lparr>mg_cache := c\<rparr>) rs"
  using assms by (auto simp: mg_inv_def elim!: list.rel_mono_strong intro: it_rem_mono)

lemma new_iters_ok:
  assumes "list_all2 (reader_ok L I M) rs ess" "cache_agrees L M c"
  shows "\<exists>its. new_iters L c rs = Some its \<and> mg_inv L I M (cache_id c) (mg_new its c) ess"
  using assms
proof (induction rs arbitrary: ess)
  case (Cons r rs)
  obtain es ess' where es: "ess = es # ess'" "reader_ok L I M r es" "list_all2 (reader_ok L I M) rs ess'"
    using Cons.prems(1) by (auto simp: list_all2_Cons1)
  obtain bs where "table_ok L I r bs" "table_in L M r bs" "table_entries bs = es"
    using es(2) by (auto simp: reader_ok_def)
  with ti_new_ok [OF _ _ Cons.prems(2)] obtain it where it: "ti_new L r c = Some it"
    "ti_pos L I M r bs (cache_id c) it es 0" by metis
  have "it_rem L I M (r, it) es"
    unfolding it_rem_def it_pos_def using it(2) by (metis append_Nil fst_conv list.size(3) snd_conv)
  with Cons.IH [OF es(3) Cons.prems(2)] it(1) es(1) show ?case by (auto simp: mg_inv_def mg_new_def)
qed (simp add: mg_inv_def mg_new_def)

subsection \<open>The loop\<close>

lemma tb_path_kept:
  "write_data_block L t k = Some (Inr t') \<Longrightarrow> tb_path t' = tb_path t"
  "tb_add L t k v = Some (Inr t') \<Longrightarrow> tb_path t' = tb_path t"
  "tb_flush L t = Some (Inr t') \<Longrightarrow> tb_path t' = tb_path t"
proof -
  show w: "write_data_block L t k = Some (Inr t') \<Longrightarrow> tb_path t' = tb_path t" for t t' k
    by (auto simp: write_data_block_def tryO_eq_Ok Let_def bind_eq_Some_conv)
  show "tb_add L t k v = Some (Inr t') \<Longrightarrow> tb_path t' = tb_path t"
    by (clarsimp simp: tb_add_def tryO_eq_Ok Let_def bind_eq_Some_conv split del: if_split)
      (auto split: if_splits sum.splits dest!: w)
  show "tb_flush L t = Some (Inr t') \<Longrightarrow> tb_path t' = tb_path t"
    by (auto simp: tb_flush_def tryO_eq_Ok Let_def bind_eq_Some_conv dest!: w)
qed

text \<open>Files from \<open>cp_lo\<close> on are still to be written.\<close>

definition cp_lo :: "('f, 'c) compaction \<Rightarrow> nat" where
  "cp_lo s = (if cp_table s = None then cp_next s else cp_next s - 1)"

definition cp_wf :: "('f, 'c) compaction \<Rightarrow> bool" where
  "cp_wf s \<longleftrightarrow> sorted_kv (cp_fs s) \<and>
     (\<forall>t. cp_table s = Some t \<longrightarrow> 0 < cp_next s \<and> tb_path t = sst_name (cp_next s - 1))"

definition cp_later :: "('f, 'c) compaction \<Rightarrow> ('f, 'c) compaction \<Rightarrow> bool" where
  "cp_later s s' \<longleftrightarrow> cp_wf s' \<and> cp_lo s \<le> cp_lo s' \<and> cp_next s \<le> cp_next s' \<and>
     cache_id (mg_cache (cp_merger s)) \<le> cache_id (mg_cache (cp_merger s')) \<and>
     (\<forall>x. x \<notin> sst_name ` {cp_lo s ..< cp_next s'} \<longrightarrow> map_of (cp_fs s') x = map_of (cp_fs s) x)"

lemma cp_later_refl: "cp_wf s \<Longrightarrow> cp_later s s"
  by (simp add: cp_later_def)

lemma cp_lo_next: "cp_wf s \<Longrightarrow> cp_lo s \<le> cp_next s"
  by (auto simp: cp_wf_def cp_lo_def)

lemma cp_later_trans:
  assumes a: "cp_later s1 s2" and b: "cp_later s2 s3"
  shows "cp_later s1 s3"
proof -
  have "sst_name ` {cp_lo s1 ..< cp_next s2} \<union> sst_name ` {cp_lo s2 ..< cp_next s3} \<subseteq> sst_name ` {cp_lo s1 ..< cp_next s3}"
    using a b unfolding cp_later_def by (intro Un_least image_mono) auto
  then have "map_of (cp_fs s3) x = map_of (cp_fs s1) x" if "x \<notin> sst_name ` {cp_lo s1 ..< cp_next s3}" for x
  proof -
    have "x \<notin> sst_name ` {cp_lo s1 ..< cp_next s2}" "x \<notin> sst_name ` {cp_lo s2 ..< cp_next s3}"
      using \<open>_ \<union> _ \<subseteq> _\<close> that by blast+
    then have "map_of (cp_fs s2) x = map_of (cp_fs s1) x" "map_of (cp_fs s3) x = map_of (cp_fs s2) x"
      using a b unfolding cp_later_def by blast+
    then show ?thesis by simp
  qed
  with a b show ?thesis by (simp add: cp_later_def)
qed

text \<open>Closing a table: what happens, and what stays.\<close>

lemma compact_close_Ok:
  assumes "compact_close S opt t s = Some (Inr s')"
  obtains t' r where "tb_flush (tlibs S) t = Some (Inr t')" "tb_path t' = tb_path t"
    "open_table S opt (tb_path t) (fs_write (tb_path t) (tb_file t') (cp_fs s)) (mg_cache (cp_merger s)) =
       Some (Inr (r, snd (new_cache_id (mg_cache (cp_merger s)))))"
    "s' = s\<lparr>cp_table := None, cp_readers := cp_readers s @ [r], cp_fs := fs_write (tb_path t) (tb_file t') (cp_fs s),
       cp_merger := (cp_merger s)\<lparr>mg_cache := snd (new_cache_id (mg_cache (cp_merger s)))\<rparr>\<rparr>"
proof -
  obtain t' r c where t': "tb_flush (tlibs S) t = Some (Inr t')"
    "open_table S opt (tb_path t') (fs_write (tb_path t') (tb_file t') (cp_fs s)) (mg_cache (cp_merger s)) = Some (Inr (r, c))"
    "s' = s\<lparr>cp_table := None, cp_readers := cp_readers s @ [r], cp_fs := fs_write (tb_path t') (tb_file t') (cp_fs s),
       cp_merger := (cp_merger s)\<lparr>mg_cache := c\<rparr>\<rparr>"
    using assms by (auto simp: compact_close_def tryO_eq_Ok Let_def)
  have "c = snd (new_cache_id (mg_cache (cp_merger s)))"
    using t'(2) by (auto simp: open_table_def tr_new_def new_cache_id_def tryO_eq_Ok Let_def split: option.splits if_splits)
  with that t' tb_path_kept(3) [OF t'(1)] show thesis by simp
qed

lemma compact_close_later:
  assumes "compact_close S opt t s = Some (Inr s')" "sorted_kv (cp_fs s)" "0 < cp_next s" "tb_path t = sst_name (cp_next s - 1)"
  shows "cp_wf s'" "cp_next s' = cp_next s" "cp_lo s' = cp_next s"
    "cache_id (mg_cache (cp_merger s')) = Suc (cache_id (mg_cache (cp_merger s)))"
    "\<And>x. x \<noteq> sst_name (cp_next s - 1) \<Longrightarrow> map_of (cp_fs s') x = map_of (cp_fs s) x"
  using assms by (auto elim!: compact_close_Ok simp: cp_wf_def cp_lo_def map_of_fs_write new_cache_id_def)

definition cp_open :: "('f, 'c) server_libs \<Rightarrow> server_options \<Rightarrow> ('f, 'c) compaction \<Rightarrow> ('f, 'c) compaction" where
  "cp_open S opt s =
     (if cp_table s = None
      then s\<lparr>cp_table := Some (tb_new (tlibs S) (sst_name (cp_next s)) (table_opt opt)), cp_next := cp_next s + 1,
             cp_fs := fs_write (sst_name (cp_next s)) [] (cp_fs s)\<rparr>
      else s)"

lemma compact_add_Ok:
  assumes "compact_add S opt e s = Some (Inr s')"
  obtains t t' where "cp_table (cp_open S opt s) = Some t" "tb_add (tlibs S) t (fst e) (snd e) = Some (Inr t')"
    "s' = (cp_open S opt s)\<lparr>cp_table := Some t'\<rparr> \<or> compact_close S opt t' (cp_open S opt s) = Some (Inr s')"
  using assms unfolding compact_add_def cp_open_def [symmetric] Let_def
  by (auto simp: tryO_eq_Ok split: option.splits if_splits)

lemma cp_open_later:
  assumes "cp_wf s"
  shows "cp_wf (cp_open S opt s)" "cp_lo (cp_open S opt s) = cp_lo s" "cp_next s \<le> cp_next (cp_open S opt s)"
    "cp_next (cp_open S opt s) = Suc (cp_lo s)" "cp_merger (cp_open S opt s) = cp_merger s"
    "\<And>x. x \<noteq> sst_name (cp_lo s) \<Longrightarrow> map_of (cp_fs (cp_open S opt s)) x = map_of (cp_fs s) x"
  using assms by (auto simp: cp_wf_def cp_lo_def cp_open_def map_of_fs_write tb_new_def)

lemma compact_add_later:
  assumes w: "cp_wf s" and a: "compact_add S opt e s = Some (Inr s')"
  shows "cp_later s s'" "cache_id (mg_cache (cp_merger s')) \<le> Suc (cache_id (mg_cache (cp_merger s)))"
proof -
  note o = cp_open_later [OF w, where S = S and opt = opt]
  obtain t t' where t: "cp_table (cp_open S opt s) = Some t" "tb_add (tlibs S) t (fst e) (snd e) = Some (Inr t')"
    and c: "s' = (cp_open S opt s)\<lparr>cp_table := Some t'\<rparr> \<or> compact_close S opt t' (cp_open S opt s) = Some (Inr s')"
    using a by (rule compact_add_Ok)
  have p: "tb_path t' = sst_name (cp_lo s)" using tb_path_kept(2) [OF t(2)] o(1,4) t(1) by (simp add: cp_wf_def)
  have "cp_later s s' \<and> cache_id (mg_cache (cp_merger s')) \<le> Suc (cache_id (mg_cache (cp_merger s)))"
    using c
  proof
    assume s': "s' = (cp_open S opt s)\<lparr>cp_table := Some t'\<rparr>"
    then show ?thesis using o p by (auto simp: cp_later_def cp_wf_def cp_lo_def)
  next
    assume s': "compact_close S opt t' (cp_open S opt s) = Some (Inr s')"
    have "sorted_kv (cp_fs (cp_open S opt s))" using o(1) by (simp add: cp_wf_def)
    note q = compact_close_later [OF s' this]
    show ?thesis using q o p cp_lo_next [OF w] by (auto simp: cp_later_def)
  qed
  then show "cp_later s s'" "cache_id (mg_cache (cp_merger s')) \<le> Suc (cache_id (mg_cache (cp_merger s)))" by simp_all
qed

text \<open>What is left to merge shrinks with every round, so the loop ends; each round starts with
  the next merged entry.\<close>

lemma compact_loop_unfold:
  assumes m: "mg_inv (tlibs S) I M cid (cp_merger s) rs"
  obtains m' rs' where "mg_inv (tlibs S) I M cid m' rs'" "merge_all rs' = tl (merge_all rs)"
    "compact_loop S opt s = (case merge_all rs of
        [] \<Rightarrow> Some (Inr (s\<lparr>cp_merger := m'\<rparr>))
      | e # _ \<Rightarrow> tryO (compact_add S opt e (s\<lparr>cp_merger := m'\<rparr>)) (compact_loop S opt))"
proof -
  obtain m' rs' where n: "mg_next (tlibs S) (cp_merger s) = Some ((case merge_all rs of [] \<Rightarrow> None | e # _ \<Rightarrow> Some e), m')"
    "mg_inv (tlibs S) I M cid m' rs'" "merge_all rs' = tl (merge_all rs)"
    using mg_next_ok [OF m] by blast
  have "compact_loop S opt s = (case merge_all rs of
        [] \<Rightarrow> Some (Inr (s\<lparr>cp_merger := m'\<rparr>))
      | e # _ \<Rightarrow> tryO (compact_add S opt e (s\<lparr>cp_merger := m'\<rparr>)) (compact_loop S opt))"
    using n(1) by (subst compact_loop.simps) (auto simp: tryO_def split: list.splits option.splits sum.splits)
  with that n(2,3) show thesis by blast
qed

lemma compact_add_merger:
  assumes "compact_add S opt e s = Some (Inr s')" "mg_inv (tlibs S) I M cid (cp_merger s) rs"
  shows "\<exists>cid'. mg_inv (tlibs S) I M cid' (cp_merger s') rs"
proof -
  obtain t t' where c: "s' = (cp_open S opt s)\<lparr>cp_table := Some t'\<rparr> \<or> compact_close S opt t' (cp_open S opt s) = Some (Inr s')"
    using assms(1) by (rule compact_add_Ok)
  have o: "cp_merger (cp_open S opt s) = cp_merger s" by (simp add: cp_open_def)
  have "cache_agrees (tlibs S) M (snd (new_cache_id (mg_cache (cp_merger s))))"
    using assms(2) by (simp add: mg_inv_def cache_agrees_def new_cache_id_def)
  from mg_inv_cache [OF assms(2) map_le_refl this] c o assms(2) show ?thesis by (auto elim!: compact_close_Ok)
qed

lemma compact_loop_later:
  assumes "mg_inv (tlibs S) I M cid (cp_merger s) rs" "cp_wf s" "compact_loop S opt s = Some (Inr s')"
  shows "cp_later s s' \<and> (\<exists>cid rs'. mg_inv (tlibs S) I M cid (cp_merger s') rs')"
  using assms
proof (induction "length (merge_all rs)" arbitrary: s rs cid)
  case 0
  obtain m' rs' where m: "mg_inv (tlibs S) I M cid m' rs'" "compact_loop S opt s = Some (Inr (s\<lparr>cp_merger := m'\<rparr>))"
    by (rule compact_loop_unfold [OF "0.prems"(1), of opt]) (use "0.hyps" in auto)
  then have "s' = s\<lparr>cp_merger := m'\<rparr>" using "0.prems"(3) by simp
  then show ?case using m "0.prems"(1,2) by (auto simp: cp_later_def cp_wf_def cp_lo_def mg_inv_def)
next
  case (Suc n)
  then obtain e es where es: "merge_all rs = e # es" by (cases "merge_all rs") auto
  obtain m' rs' where m: "mg_inv (tlibs S) I M cid m' rs'" "merge_all rs' = es"
    "compact_loop S opt s = tryO (compact_add S opt e (s\<lparr>cp_merger := m'\<rparr>)) (compact_loop S opt)"
    using compact_loop_unfold [OF Suc.prems(1), of opt] es by auto
  let ?s = "s\<lparr>cp_merger := m'\<rparr>"
  obtain s2 where s2: "compact_add S opt e ?s = Some (Inr s2)" "compact_loop S opt s2 = Some (Inr s')"
    using trans [OF m(3) [symmetric] Suc.prems(3)] by (auto simp: tryO_eq_Ok)
  have w: "cp_wf ?s" "cp_later s ?s"
    using Suc.prems(1,2) m(1) by (auto simp: cp_later_def cp_wf_def cp_lo_def mg_inv_def)
  note l2 = compact_add_later(1) [OF w(1) s2(1)]
  obtain cid' where m2: "mg_inv (tlibs S) I M cid' (cp_merger s2) rs'"
    using compact_add_merger [OF s2(1), of I M cid rs'] m(1) by auto
  have w2: "cp_wf s2" using l2 by (simp add: cp_later_def)
  have "n = length (merge_all rs')" using Suc.hyps(2) es m(2) by simp
  from Suc.hyps(1) [OF this m2 w2 s2(2)] cp_later_trans [OF w(2) cp_later_trans [OF l2]] show ?case by blast
qed

subsection \<open>What the tables hold\<close>

text \<open>The tables closed so far hold \<open>news\<close>, the open one holds \<open>pend\<close>.\<close>

definition cp_inv ::
  "('f, 'c) server_libs \<Rightarrow> server_options \<Rightarrow> (bytes \<rightharpoonup> bytes) \<Rightarrow> nat \<Rightarrow> ('f, 'c) compaction \<Rightarrow>
   entry list list \<Rightarrow> entry list \<Rightarrow> bool" where
  "cp_inv S opt M N s news pend \<longleftrightarrow>
     cp_wf s \<and> cache_ok (tlibs S) M (mg_cache (cp_merger s)) \<and> N \<le> cp_lo s \<and>
     list_all2 (reader_ok (tlibs S) (restart_interval opt) M) (cp_readers s) news \<and>
     map tr_file_name (cp_readers s) = map sst_name [N..<cp_lo s] \<and>
     (\<forall>r \<in> set (cp_readers s). map_of (cp_fs s) (tr_file_name r) = Some (tr_file r)) \<and>
     (case cp_table s of
        None \<Rightarrow> pend = []
      | Some t \<Rightarrow> pend \<noteq> [] \<and>
          tb_add_all (tlibs S) (tb_new (tlibs S) (sst_name (cp_lo s)) (table_opt opt)) pend = Some (Inr t))"

text \<open>The files written and the numbers given out are within their bounds.\<close>

definition cp_limits :: "('f, 'c) compaction \<Rightarrow> bool" where
  "cp_limits s \<longleftrightarrow> cp_next s < usize_bound \<and> cache_id (mg_cache (cp_merger s)) < usize_bound \<and>
     (\<forall>n f. n < cp_lo s \<longrightarrow> map_of (cp_fs s) (sst_name n) = Some f \<longrightarrow> length f < usize_bound)"

lemma cp_limits_earlier:
  assumes "cp_later s s'" "cp_limits s'" "cp_wf s"
  shows "cp_limits s"
proof -
  have "map_of (cp_fs s') (sst_name n) = map_of (cp_fs s) (sst_name n)" if "n < cp_lo s" for n
  proof -
    have "sst_name n \<noteq> sst_name m" if "m \<in> {cp_lo s ..< cp_next s'}" for m
      using make_file_name_inj [of n "''sst''" m "''sst''"] that \<open>n < cp_lo s\<close> assms(2) by (auto simp: cp_limits_def)
    then have "sst_name n \<notin> sst_name ` {cp_lo s ..< cp_next s'}" by blast
    then show ?thesis using assms(1) unfolding cp_later_def by blast
  qed
  moreover have "cp_lo s \<le> cp_lo s'" "cp_next s \<le> cp_next s'" using assms(1) by (simp_all add: cp_later_def)
  moreover have "cache_id (mg_cache (cp_merger s)) \<le> cache_id (mg_cache (cp_merger s'))" using assms(1) by (simp add: cp_later_def)
  moreover have "length f < usize_bound" if n: "n < cp_lo s" "map_of (cp_fs s) (sst_name n) = Some f" for n f
  proof -
    have "n < cp_lo s'" "map_of (cp_fs s') (sst_name n) = Some f" using calculation(1-2) n by auto
    then show ?thesis using assms(2) unfolding cp_limits_def by blast
  qed
  ultimately show ?thesis using assms(2) unfolding cp_limits_def by auto
qed

lemma tb_add_all_snoc:
  "tb_add_all L t (es @ [e]) = tryO (tb_add_all L t es) (\<lambda>t'. tb_add L t' (fst e) (snd e))"
  by (induction L t es rule: tb_add_all.induct) (cases e, auto simp: tryO_def split: option.splits sum.splits)+

lemma cp_inv_close:
  assumes L: "table_libs_ok (tlibs S)" and o: "opt_ok opt" and W: "writes_ok W" and i: "cp_inv S opt M N s news pend"
    and t: "cp_table s = Some t" and c: "compact_close S opt t s = Some (Inr s')" and lim: "cp_limits s'"
    and p: "sorted_kv pend" "set pend \<subseteq> set W"
  shows "\<exists>M'. M \<subseteq>\<^sub>m M' \<and> cp_inv S opt M' N s' (news @ [pend]) []"
proof -
  let ?L = "tlibs S" and ?c = "mg_cache (cp_merger s)" and ?p = "sst_name (cp_lo s)"
  have wf: "cp_wf s" and co: "cache_ok ?L M ?c" and N: "N \<le> cp_lo s"
    and rs: "list_all2 (reader_ok ?L (restart_interval opt) M) (cp_readers s) news"
    and nm: "map tr_file_name (cp_readers s) = map sst_name [N..<cp_lo s]"
    and st: "\<And>r. r \<in> set (cp_readers s) \<Longrightarrow> map_of (cp_fs s) (tr_file_name r) = Some (tr_file r)"
    and pe: "pend \<noteq> []" and ta: "tb_add_all ?L (tb_new ?L ?p (table_opt opt)) pend = Some (Inr t)"
    using i t by (auto simp: cp_inv_def)
  have lo: "tb_path t = ?p" "cp_next s = Suc (cp_lo s)" using wf t by (auto simp: cp_wf_def cp_lo_def)
  obtain t' r where f: "tb_flush ?L t = Some (Inr t')"
    "open_table S opt ?p (fs_write ?p (tb_file t') (cp_fs s)) ?c = Some (Inr (r, snd (new_cache_id ?c)))"
    "s' = s\<lparr>cp_table := None, cp_readers := cp_readers s @ [r], cp_fs := fs_write ?p (tb_file t') (cp_fs s),
       cp_merger := (cp_merger s)\<lparr>mg_cache := snd (new_cache_id ?c)\<rparr>\<rparr>"
    using c lo(1) by (auto elim: compact_close_Ok)
  have fs: "map_of (cp_fs s') = (map_of (cp_fs s))(?p \<mapsto> tb_file t')" "sorted_kv (cp_fs s')"
    using wf f(3) by (simp_all add: cp_wf_def map_of_fs_write)
  have lo': "cp_lo s' = Suc (cp_lo s)" using f(3) lo(2) by (simp add: cp_lo_def)
  have "length (tb_file t') < usize_bound" using lim fs(1) lo' by (auto simp: cp_limits_def)
  then have sf: "sst_file ?L (restart_interval opt) (tb_file t') pend"
    by (rule built_sst_file [OF L o W p pe ta f(1)])
  have "cache_id ?c + 1 < usize_bound" using lim f(3) by (simp add: cp_limits_def new_cache_id_def)
  then obtain M' where M': "reader_ok ?L (restart_interval opt) M' r pend" "tr_file_name r = ?p" "tr_file r = tb_file t'"
    "cache_ok ?L M' (snd (new_cache_id ?c))" "M \<subseteq>\<^sub>m M'"
    using open_table_ok [OF sf writes_okD(4) [OF W p] _ co, of "cp_fs s'" ?p opt] L f(2,3) fs(1)
    by (auto simp: table_libs_ok_def)
  have b: "cp_lo s < usize_bound" using lim f(3) lo(2) by (simp add: cp_limits_def)
  have "map_of (cp_fs s') (tr_file_name x) = Some (tr_file x)" if "x \<in> set (cp_readers s)" for x
  proof -
    have "tr_file_name x \<in> sst_name ` {N..<cp_lo s}" using that arg_cong [OF nm, of set] by auto
    then have "tr_file_name x \<noteq> ?p" using make_file_name_inj [of _ "''sst''" "cp_lo s" "''sst''"] b by force
    then show ?thesis using st [OF that] fs(1) by simp
  qed
  moreover have "list_all2 (reader_ok ?L (restart_interval opt) M') (cp_readers s @ [r]) (news @ [pend])"
    using list_all2_mono [OF rs reader_ok_mono [OF _ M'(5)]] M'(1) by (intro list_all2_appendI) auto
  moreover have "cp_wf s'" using fs(2) f(3) by (simp add: cp_wf_def)
  ultimately have "cp_inv S opt M' N s' (news @ [pend]) []"
    unfolding cp_inv_def lo' using M' nm N fs(1) f(3) by auto
  with M'(5) show ?thesis by blast
qed

lemma cp_inv_open:
  assumes i: "cp_inv S opt M N s news pend" and b: "Suc (cp_lo s) < usize_bound"
    and t: "cp_table (cp_open S opt s) = Some t" "tb_add (tlibs S) t (fst e) (snd e) = Some (Inr t')"
  shows "cp_inv S opt M N ((cp_open S opt s)\<lparr>cp_table := Some t'\<rparr>) news (pend @ [e])"
proof -
  let ?L = "tlibs S" and ?o = "cp_open S opt s"
  have wf: "cp_wf s" using i by (simp add: cp_inv_def)
  note o = cp_open_later [OF wf, where S = S and opt = opt]
  let ?s = "?o\<lparr>cp_table := Some t'\<rparr>"
  have lo: "cp_lo ?s = cp_lo s" using o(2,4) t(1) by (simp add: cp_lo_def)
  have add: "tb_add_all ?L (tb_new ?L (sst_name (cp_lo s)) (table_opt opt)) (pend @ [e]) = Some (Inr t')"
  proof (cases "cp_table s")
    case None
    then have "t = tb_new ?L (sst_name (cp_lo s)) (table_opt opt)" "pend = []"
      using t(1) i by (simp_all add: cp_open_def cp_lo_def cp_inv_def)
    then show ?thesis using t(2) by (cases e) simp
  next
    case (Some t0)
    then show ?thesis using t i by (auto simp: cp_open_def cp_inv_def tb_add_all_snoc)
  qed
  have "map_of (cp_fs ?o) (tr_file_name x) = Some (tr_file x)" if "x \<in> set (cp_readers s)" for x
  proof -
    have "map tr_file_name (cp_readers s) = map sst_name [N..<cp_lo s]" using i by (simp add: cp_inv_def)
    then have "tr_file_name x \<in> sst_name ` {N..<cp_lo s}" using that by (metis imageI set_map set_upt)
    then have "tr_file_name x \<noteq> sst_name (cp_lo s)" using make_file_name_inj [of _ "''sst''" "cp_lo s" "''sst''"] b by force
    then show ?thesis using i that o(6) by (simp add: cp_inv_def)
  qed
  moreover have "cp_wf ?s" using o(1,4) tb_path_kept(2) [OF t(2)] t(1) by (simp add: cp_wf_def)
  moreover have "cp_readers ?o = cp_readers s" by (simp add: cp_open_def)
  ultimately show ?thesis using i lo add o(5) by (simp add: cp_inv_def)
qed

lemma compact_close_table: "compact_close S opt t (s\<lparr>cp_table := x\<rparr>) = compact_close S opt t s"
  by (simp add: compact_close_def Let_def)

lemma cp_inv_add:
  assumes L: "table_libs_ok (tlibs S)" and o: "opt_ok opt" and W: "writes_ok W" and i: "cp_inv S opt M N s news pend"
    and a: "compact_add S opt e s = Some (Inr s')" and lim: "cp_limits s'"
    and p: "sorted_kv (pend @ [e])" "set (pend @ [e]) \<subseteq> set W"
  shows "\<exists>M'. M \<subseteq>\<^sub>m M' \<and> (cp_inv S opt M' N s' news (pend @ [e]) \<or> cp_inv S opt M' N s' (news @ [pend @ [e]]) [])"
proof -
  obtain t t' where t: "cp_table (cp_open S opt s) = Some t" "tb_add (tlibs S) t (fst e) (snd e) = Some (Inr t')"
    and c: "s' = (cp_open S opt s)\<lparr>cp_table := Some t'\<rparr> \<or> compact_close S opt t' (cp_open S opt s) = Some (Inr s')"
    using a by (rule compact_add_Ok)
  have wf: "cp_wf s" using i by (simp add: cp_inv_def)
  have "Suc (cp_lo s) \<le> cp_next s'"
    using c cp_open_later(4) [OF wf, where S = S and opt = opt] by (auto elim!: compact_close_Ok)
  then have "Suc (cp_lo s) < usize_bound" using lim by (simp add: cp_limits_def)
  note oi = cp_inv_open [OF i this t]
  from c show ?thesis
  proof
    assume "s' = (cp_open S opt s)\<lparr>cp_table := Some t'\<rparr>"
    with oi show ?thesis by (intro exI [of _ M]) simp
  next
    assume "compact_close S opt t' (cp_open S opt s) = Some (Inr s')"
    then have "compact_close S opt t' ((cp_open S opt s)\<lparr>cp_table := Some t'\<rparr>) = Some (Inr s')"
      by (simp add: compact_close_table)
    from cp_inv_close [OF L o W oi _ this lim p] show ?thesis by auto
  qed
qed

lemma cp_inv_same:
  assumes "cp_inv S opt M N s news pend" "mg_inv (tlibs S) I M (cache_id (mg_cache (cp_merger s))) m rs"
  shows "cp_inv S opt M N (s\<lparr>cp_merger := m\<rparr>) news pend" "cp_later s (s\<lparr>cp_merger := m\<rparr>)"
proof -
  have w: "cp_wf s" and c: "cache_ok (tlibs S) M (mg_cache (cp_merger s))" using assms(1) by (simp_all add: cp_inv_def)
  have "cache_ok (tlibs S) M (mg_cache m)" using cache_ok_same [OF c] assms(2) by (simp add: mg_inv_def)
  moreover have "cp_wf (s\<lparr>cp_merger := m\<rparr>)" "cp_lo (s\<lparr>cp_merger := m\<rparr>) = cp_lo s"
    using w by (simp_all add: cp_wf_def cp_lo_def)
  ultimately show "cp_inv S opt M N (s\<lparr>cp_merger := m\<rparr>) news pend" "cp_later s (s\<lparr>cp_merger := m\<rparr>)"
    using assms by (simp_all add: cp_inv_def cp_later_def mg_inv_def cong: option.case_cong)
qed

lemma compact_loop_inv:
  assumes L: "table_libs_ok (tlibs S)" and o: "opt_ok opt" and W: "writes_ok W"
    and "mg_inv (tlibs S) (restart_interval opt) M (cache_id (mg_cache (cp_merger s))) (cp_merger s) rs"
    and "cp_inv S opt M N s news pend" "compact_loop S opt s = Some (Inr s')" "cp_limits s'"
    and "sorted_kv (pend @ merge_all rs)" "set (pend @ merge_all rs) \<subseteq> set W"
  shows "\<exists>M' news' pend'. M \<subseteq>\<^sub>m M' \<and> cp_inv S opt M' N s' news' pend' \<and>
     concat news' @ pend' = concat news @ pend @ merge_all rs \<and> sorted_kv pend' \<and> set pend' \<subseteq> set W"
  using assms(4-9)
proof (induction "length (merge_all rs)" arbitrary: s rs M news pend)
  case 0
  have e: "merge_all rs = []" using "0.hyps" by simp
  obtain m' rs' where m: "mg_inv (tlibs S) (restart_interval opt) M (cache_id (mg_cache (cp_merger s))) m' rs'"
    "compact_loop S opt s = Some (Inr (s\<lparr>cp_merger := m'\<rparr>))"
    by (rule compact_loop_unfold [OF "0.prems"(1), of opt]) (use e in auto)
  have "s' = s\<lparr>cp_merger := m'\<rparr>" using m(2) "0.prems"(3) by simp
  with cp_inv_same(1) [OF "0.prems"(2) m(1)] "0.prems"(5,6) e show ?case
    by (intro exI [of _ M] exI [of _ news] exI [of _ pend]) simp
next
  case (Suc n)
  then obtain e es where es: "merge_all rs = e # es" by (cases "merge_all rs") auto
  let ?L = "tlibs S" and ?I = "restart_interval opt"
  obtain m' rs' where m: "mg_inv ?L ?I M (cache_id (mg_cache (cp_merger s))) m' rs'" "merge_all rs' = es"
    "compact_loop S opt s = tryO (compact_add S opt e (s\<lparr>cp_merger := m'\<rparr>)) (compact_loop S opt)"
    using compact_loop_unfold [OF Suc.prems(1), of opt] es by auto
  let ?s = "s\<lparr>cp_merger := m'\<rparr>"
  obtain s2 where s2: "compact_add S opt e ?s = Some (Inr s2)" "compact_loop S opt s2 = Some (Inr s')"
    using trans [OF m(3) [symmetric] Suc.prems(3)] by (auto simp: tryO_eq_Ok)
  note i = cp_inv_same [OF Suc.prems(2) m(1)]
  have wf: "cp_wf ?s" using i(1) by (simp add: cp_inv_def)
  have w2: "cp_wf s2" using compact_add_later(1) [OF wf s2(1)] by (simp add: cp_later_def)
  obtain cid' where m2: "mg_inv ?L ?I M cid' (cp_merger s2) rs'"
    using compact_add_merger [OF s2(1), of ?I M "cache_id (mg_cache (cp_merger s))" rs'] m(1) by auto
  have "cp_later s2 s'" using compact_loop_later [OF m2 w2 s2(2)] by blast
  then have lim: "cp_limits s2" by (rule cp_limits_earlier [OF _ Suc.prems(4) w2])
  have p: "sorted_kv (pend @ [e])" "set (pend @ [e]) \<subseteq> set W" "sorted_kv es" "set es \<subseteq> set W"
    using Suc.prems(5,6) es by (auto simp: sorted_kv_def sorted_wrt_append)
  obtain M1 where M1: "M \<subseteq>\<^sub>m M1" "cp_inv S opt M1 N s2 news (pend @ [e]) \<or> cp_inv S opt M1 N s2 (news @ [pend @ [e]]) []"
    using cp_inv_add [OF L o W i(1) s2(1) lim p(1,2)] by blast
  have "cache_agrees ?L M1 (mg_cache (cp_merger s2))" using M1(2) by (auto simp: cp_inv_def cache_ok_def)
  from mg_inv_cache [OF m2 M1(1) this]
  have m3: "mg_inv ?L ?I M1 (cache_id (mg_cache (cp_merger s2))) (cp_merger s2) rs'" by simp
  have n: "n = length (merge_all rs')" using Suc.hyps(2) es m(2) by simp
  from M1(2) obtain news2 pend2 where c: "cp_inv S opt M1 N s2 news2 pend2" "concat news2 @ pend2 = concat news @ pend @ [e]"
    "sorted_kv (pend2 @ es)" "set (pend2 @ es) \<subseteq> set W"
  proof
    assume "cp_inv S opt M1 N s2 news (pend @ [e])"
    with that Suc.prems(5,6) es show thesis by auto
  next
    assume "cp_inv S opt M1 N s2 (news @ [pend @ [e]]) []"
    with that p(3,4) show thesis by auto
  qed
  from Suc.hyps(1) [OF n m3 c(1) s2(2) Suc.prems(4)] c(3,4) m(2) obtain M' news' pend' where
    "M1 \<subseteq>\<^sub>m M'" "cp_inv S opt M' N s' news' pend'" "concat news' @ pend' = concat news2 @ pend2 @ es"
    "sorted_kv pend'" "set pend' \<subseteq> set W" by auto
  moreover have "concat news2 @ pend2 @ es = concat news @ pend @ merge_all rs" using c(2) es by (metis append.assoc append_Cons append_Nil)
  ultimately show ?case using M1(1) by (metis map_le_trans)
qed

lemma compact_tables_later:
  assumes m: "mg_inv (tlibs S) I M cid (cp_merger s) rs" and wf: "cp_wf s"
    and r: "compact_tables S opt s = Some (Inr s')"
  shows "\<exists>s1. compact_loop S opt s = Some (Inr s1) \<and>
     (case cp_table s1 of None \<Rightarrow> Some (Inr s1) | Some t \<Rightarrow> compact_close S opt t s1) = Some (Inr s') \<and>
     cp_wf s1 \<and> cp_later s s1 \<and> cp_later s1 s'"
proof -
  obtain s1 where s1: "compact_loop S opt s = Some (Inr s1)"
    "(case cp_table s1 of None \<Rightarrow> Some (Inr s1) | Some t \<Rightarrow> compact_close S opt t s1) = Some (Inr s')"
    using r by (auto simp: compact_tables_def tryO_eq_Ok)
  have l1: "cp_later s s1" using compact_loop_later [OF m wf s1(1)] by blast
  then have w1: "cp_wf s1" by (simp add: cp_later_def)
  have l2: "cp_later s1 s'"
  proof (cases "cp_table s1")
    case None
    then show ?thesis using s1(2) cp_later_refl [OF w1] by simp
  next
    case (Some t)
    then have c: "compact_close S opt t s1 = Some (Inr s')" using s1(2) by simp
    have t: "0 < cp_next s1" "tb_path t = sst_name (cp_next s1 - 1)" "sorted_kv (cp_fs s1)" using w1 Some by (auto simp: cp_wf_def)
    note q = compact_close_later [OF c t(3,1,2)]
    have "map_of (cp_fs s') x = map_of (cp_fs s1) x" if "x \<notin> sst_name ` {cp_lo s1 ..< cp_next s'}" for x
      using that q(2) t(1) Some by (intro q(5)) (auto simp: cp_lo_def)
    then show ?thesis using q(1-4) cp_lo_next [OF w1] by (simp add: cp_later_def)
  qed
  show ?thesis using s1 w1 l1 l2 by blast
qed

lemma compact_tables_inv:
  assumes L: "table_libs_ok (tlibs S)" and o: "opt_ok opt" and W: "writes_ok W"
    and m: "mg_inv (tlibs S) (restart_interval opt) M (cache_id (mg_cache (cp_merger s))) (cp_merger s) rs"
    and i: "cp_inv S opt M N s [] []" and r: "compact_tables S opt s = Some (Inr s')" and lim: "cp_limits s'"
    and sub: "set (merge_all rs) \<subseteq> set W"
  shows "\<exists>M' news. M \<subseteq>\<^sub>m M' \<and> cp_inv S opt M' N s' news [] \<and> concat news = merge_all rs \<and> cp_later s s' \<and> cp_table s' = None"
proof -
  have wf: "cp_wf s" using i by (simp add: cp_inv_def)
  obtain s1 where s1: "compact_loop S opt s = Some (Inr s1)"
    "(case cp_table s1 of None \<Rightarrow> Some (Inr s1) | Some t \<Rightarrow> compact_close S opt t s1) = Some (Inr s')"
    and w1: "cp_wf s1" and l1: "cp_later s s1" and l2: "cp_later s1 s'"
    using compact_tables_later [OF m wf r] by blast
  have lim1: "cp_limits s1" by (rule cp_limits_earlier [OF l2 lim w1])
  obtain M1 news1 pend1 where i1: "M \<subseteq>\<^sub>m M1" "cp_inv S opt M1 N s1 news1 pend1" "concat news1 @ pend1 = merge_all rs"
    "sorted_kv pend1" "set pend1 \<subseteq> set W"
    using compact_loop_inv [OF L o W m i s1(1) lim1] sorted_merge_all sub by auto
  show ?thesis
  proof (cases "cp_table s1")
    case None
    then have "s' = s1" "pend1 = []" using s1(2) i1(2) by (simp_all add: cp_inv_def)
    then show ?thesis using i1 None l1 by (intro exI [of _ M1] exI [of _ news1]) simp
  next
    case (Some t)
    then have c: "compact_close S opt t s1 = Some (Inr s')" using s1(2) by simp
    from cp_inv_close [OF L o W i1(2) Some c lim i1(4,5)] obtain M' where
      "M1 \<subseteq>\<^sub>m M'" "cp_inv S opt M' N s' (news1 @ [pend1]) []" by blast
    moreover have "cp_table s' = None" using c by (auto elim: compact_close_Ok)
    ultimately show ?thesis
      using i1(1,3) cp_later_trans [OF l1 l2] by (intro exI [of _ M'] exI [of _ "news1 @ [pend1]"]) (auto intro: map_le_trans)
  qed
qed

end
