(* ===== verification/Dm_Major.thy ===== *)
theory Dm_Major
  imports Dm_Merge
begin

text \<open>
  The major compaction keeps the invariant and the outcome of every lookup: the inputs of the
  lower level are those that meet the range of the upper ones, and what stays lies below or
  above everything that is merged.
\<close>

subsection \<open>Choosing the inputs\<close>

lemma get_other_filter:
  "readers_sorted rs \<Longrightarrow> get_other_readers mn mx rs = filter (\<lambda>r. tr_min_key r \<le> mx \<and> mn \<le> tr_max_key r) rs"
proof (induction rs)
  case (Cons r rs)
  have s: "readers_sorted rs" using Cons.prems by (simp add: readers_sorted_def)
  show ?case
  proof (cases "tr_min_key r \<le> mx")
    case True
    with Cons.IH [OF s] show ?thesis by (simp add: get_other_readers_def)
  next
    case False
    have "tr_min_key r < tr_min_key x" if "x \<in> set rs" for x
      using Cons.prems that unfolding readers_sorted_def by (auto intro: order.strict_trans1)
    then have "filter (\<lambda>r. tr_min_key r \<le> mx \<and> mn \<le> tr_max_key r) rs = []"
      using False by (force simp: filter_empty_conv)
    with False show ?thesis by (simp add: get_other_readers_def)
  qed
qed (simp add: get_other_readers_def)

lemma key_range_snoc:
  "key_range (rs @ [r]) = (case key_range rs of
      Some (mx, mn) \<Rightarrow> Some (max mx (tr_max_key r), min mn (tr_min_key r))
    | None \<Rightarrow> Some (tr_max_key r, tr_min_key r))"
  by (simp add: key_range_def)

lemma key_range_bounds:
  "key_range rs = Some (mx, mn) \<Longrightarrow> r \<in> set rs \<Longrightarrow> mn \<le> tr_min_key r \<and> tr_max_key r \<le> mx"
proof (induction rs arbitrary: mx mn rule: rev_induct)
  case (snoc x rs)
  show ?case
  proof (cases "key_range rs")
    case None
    then have "rs = []" by (cases rs rule: rev_cases) (auto simp: key_range_snoc split: option.splits)
    with snoc.prems show ?thesis by (auto simp: key_range_def)
  next
    case (Some p)
    obtain a b where p: "p = (a, b)" by fastforce
    have m: "mx = max a (tr_max_key x)" "mn = min b (tr_min_key x)"
      using snoc.prems(1) Some p by (simp_all add: key_range_snoc)
    show ?thesis
    proof (cases "r = x")
      case False
      with snoc.IH [of a b] Some p snoc.prems(2) m show ?thesis by (auto simp: le_max_iff_disj min_le_iff_disj)
    qed (use m in auto)
  qed
qed simp

text \<open>The tables a predicate on the readers picks, and the others.\<close>

definition picked :: "('f table_reader \<Rightarrow> bool) \<Rightarrow> 'f table_reader list \<Rightarrow> entry list list \<Rightarrow> entry list list" where
  "picked P rs ls = map snd (filter (\<lambda>p. P (fst p)) (zip rs ls))"

lemma picked_rel: "list_all2 Q rs ls \<Longrightarrow> list_all2 Q (filter P rs) (picked P rs ls)"
  by (induction rule: list_all2_induct) (auto simp: picked_def)

lemma picked_mset: "length rs = length ls \<Longrightarrow> mset ls = mset (picked P rs ls) + mset (picked (\<lambda>r. \<not> P r) rs ls)"
  by (induction rs ls rule: list_induct2) (auto simp: picked_def)

lemma picked_in: "list_all2 Q rs ls \<Longrightarrow> x \<in> set (picked P rs ls) \<Longrightarrow> \<exists>r \<in> set rs. P r \<and> Q r x"
  unfolding picked_def list_all2_iff by (fastforce dest: set_zip_leftD)

lemma set_picked: "set (picked P rs ls) \<subseteq> set ls"
  by (auto simp: picked_def dest: set_zip_rightD)

lemma kept_picked:
  assumes "distinct (map tr_file_name rs)" "set names = tr_file_name ` set (filter P rs)"
  shows "kept rs ls names = picked (\<lambda>r. \<not> P r) rs ls"
proof -
  have "tr_file_name r \<notin> set names \<longleftrightarrow> \<not> P r" if "r \<in> set rs" for r
  proof
    assume "\<not> P r"
    show "tr_file_name r \<notin> set names"
    proof
      assume "tr_file_name r \<in> set names"
      then obtain x where "x \<in> set rs" "P x" "tr_file_name x = tr_file_name r" using assms(2) by auto
      then have "x = r" using assms(1) that by (auto simp: distinct_map dest: inj_onD)
      with \<open>P x\<close> \<open>\<not> P r\<close> show False by simp
    qed
  qed (use assms(2) that in auto)
  then show ?thesis
    unfolding kept_def picked_def by (intro arg_cong [of _ _ "map snd"] filter_cong) (auto dest: set_zip_leftD)
qed

subsection \<open>The new tables fit between those that stay\<close>

lemma first_hit_concat: "first_hit ls = map_of (concat ls)"
proof
  show "first_hit ls k = map_of (concat ls) k" for k
    by (induction ls) (auto simp: map_add_def split: option.splits)
qed

lemma sorted_kv_append: "sorted_kv (a @ b) \<longleftrightarrow> sorted_kv a \<and> sorted_kv b \<and> (\<forall>x \<in> set a. \<forall>y \<in> set b. fst x < fst y)"
  by (auto simp: sorted_kv_def sorted_wrt_append)

lemma concat_disjoint_sorted: "sorted_kv (concat ls) \<Longrightarrow> \<forall>l \<in> set ls. l \<noteq> [] \<Longrightarrow> disjoint_sorted ls \<and> tables_ok ls"
proof (induction ls)
  case (Cons l ls)
  have "fst (last l) < fst (hd x)" if "x \<in> set ls" for x
  proof -
    have "last l \<in> set l" "hd x \<in> set (concat ls)" using Cons.prems(2) that by (auto intro!: bexI [of _ x])
    then show ?thesis using Cons.prems(1) by (auto simp: sorted_kv_append)
  qed
  with Cons show ?case by (auto simp: disjoint_sorted_def tables_ok_def sorted_kv_append)
qed (simp add: disjoint_sorted_def tables_ok_def)

definition beside :: "bytes set \<Rightarrow> entry list \<Rightarrow> bool" where
  "beside X k \<longleftrightarrow> (\<forall>x \<in> X. fst (last k) < x) \<or> (\<forall>x \<in> X. x < fst (hd k))"

lemma not_apart_self: "sorted_kv a \<Longrightarrow> a \<noteq> [] \<Longrightarrow> \<not> apart a a"
  using hd_le_last [of a] by (auto simp: apart_def)

lemma new_tables_disjoint:
  assumes "disjoint_tables ks" "tables_ok ks" "\<forall>k \<in> set ks. beside X k"
    and "sorted_kv (concat news)" "\<forall>l \<in> set news. l \<noteq> []" "fst ` set (concat news) \<subseteq> X"
  shows "disjoint_tables (ks @ news)"
proof -
  have n: "disjoint_tables news" "tables_ok news"
    using concat_disjoint_sorted [OF assms(4,5)] disjoint_tables_sorted(1) by auto
  have ap: "apart k l \<and> apart l k \<and> k \<noteq> l" if "k \<in> set ks" "l \<in> set news" for k l
  proof -
    have "l \<noteq> []" using assms(5) that by blast
    then have "hd l \<in> set (concat news)" "last l \<in> set (concat news)" using that(2) by (auto intro!: bexI [of _ l])
    then have "fst (hd l) \<in> X" "fst (last l) \<in> X" using assms(6) by blast+
    moreover have "beside X k" using assms(3) that(1) by blast
    ultimately have "apart k l \<and> apart l k" by (auto simp: beside_def apart_def)
    moreover have "\<not> apart k k" using not_apart_self [of k] assms(2) that(1) by (simp add: tables_ok_def)
    ultimately show ?thesis by auto
  qed
  then have "set ks \<inter> set news = {}" by blast
  then show ?thesis using assms(1) n(1) ap unfolding disjoint_tables_def by auto
qed

lemma list_all2_in2: "list_all2 Q xs ys \<Longrightarrow> y \<in> set ys \<Longrightarrow> \<exists>x \<in> set xs. Q x y"
  by (induction rule: list_all2_induct) auto

lemma kept_beside:
  assumes r1: "list_all2 (reader_ok L I M) rs ls" and dj: "disjoint_tables ls"
    and i0: "list_all2 (reader_ok L I M) inputs0 i0" and kr: "key_range inputs0 = Some (mx, mn)"
    and P: "\<And>r. P r \<longleftrightarrow> tr_min_key r \<le> mx \<and> mn \<le> tr_max_key r"
    and k: "k \<in> set (picked (\<lambda>r. \<not> P r) rs ls)"
  shows "beside (fst ` set (concat (i0 @ picked P rs ls))) k"
proof -
  obtain rk where rk: "\<not> P rk" "reader_ok L I M rk k" using picked_in [OF r1 k] by blast
  note dk = reader_okD [OF rk(2)]
  have kl: "fst (hd k) \<le> fst (last k)" by (rule hd_le_last [OF dk(1,2)])
  have up: "mn \<le> x \<and> x \<le> mx" if "e \<in> set i0" "x \<in> fst ` set e" for e x
  proof -
    obtain r where r: "r \<in> set inputs0" "reader_ok L I M r e"
      using list_all2_in2 [OF i0 \<open>e \<in> set i0\<close>] by blast
    note d = reader_okD [OF r(2)]
    have "mn \<le> fst (hd e)" "fst (last e) \<le> mx" using key_range_bounds [OF kr r(1)] d(4,5) by simp_all
    with sorted_range [OF d(1) that(2)] show ?thesis by (auto intro: order.trans)
  qed
  have side: "(fst (last k) < mn \<longrightarrow> fst (last k) < x) \<and> (mx < fst (hd k) \<longrightarrow> x < fst (hd k))"
    if e: "e \<in> set (picked P rs ls)" "x \<in> fst ` set e" for e x
  proof -
    obtain re where re: "P re" "reader_ok L I M re e" using picked_in [OF r1 e(1)] by blast
    note de = reader_okD [OF re(2)]
    have h: "fst (hd e) \<le> mx" "mn \<le> fst (last e)" using re(1) de(4,5) P by simp_all
    have "e \<noteq> k" using h rk(1) dk(4,5) P by auto
    moreover have "e \<in> set ls" "k \<in> set ls" using e(1) k set_picked by blast+
    ultimately have a: "fst (last e) < fst (hd k) \<or> fst (last k) < fst (hd e)" using dj by (auto simp: disjoint_tables_def apart_def)
    note s = sorted_range [OF de(1) e(2)]
    show ?thesis
    proof (intro conjI impI)
      assume "fst (last k) < mn"
      with a h(2) kl s(1) show "fst (last k) < x" by (elim disjE) order+
    next
      assume "mx < fst (hd k)"
      with a h(1) kl s(2) show "x < fst (hd k)" by (elim disjE) order+
    qed
  qed
  have "fst (last k) < mn \<or> mx < fst (hd k)" using rk(1) dk(4,5) P by (auto simp: not_le)
  then show ?thesis
  proof
    assume l: "fst (last k) < mn"
    have "fst (last k) < x" if "x \<in> fst ` set (concat (i0 @ picked P rs ls))" for x
    proof -
      from that obtain e where "e \<in> set i0 \<or> e \<in> set (picked P rs ls)" "x \<in> fst ` set e" by auto
      with up [of e x] side [of e x] l show ?thesis by (auto intro: order.strict_trans2)
    qed
    then show ?thesis by (simp add: beside_def)
  next
    assume l: "mx < fst (hd k)"
    have "x < fst (hd k)" if "x \<in> fst ` set (concat (i0 @ picked P rs ls))" for x
    proof -
      from that obtain e where "e \<in> set i0 \<or> e \<in> set (picked P rs ls)" "x \<in> fst ` set e" by auto
      with up [of e x] side [of e x] l show ?thesis by (auto intro: order.strict_trans1)
    qed
    then show ?thesis by (simp add: beside_def)
  qed
qed

lemma merge_all_set:
  assumes "\<forall>r \<in> set rs. sorted_kv r"
  shows "set (merge_all rs) \<subseteq> set (concat rs)"
proof
  fix e assume e: "e \<in> set (merge_all rs)"
  obtain k v where kv: "e = (k, v)" by fastforce
  have "distinct (map fst (merge_all rs))" using sorted_merge_all [of rs] by (simp add: sorted_kv_def strict_sorted_iff)
  then have "map_of (merge_all rs) k = Some v" using e kv by simp
  then have "first_hit rs k = Some v" by (simp add: map_of_merge_all [OF assms])
  then show "e \<in> set (concat rs)" using first_hit_SomeD kv by (fastforce dest: map_of_SomeD)
qed

subsection \<open>The first half\<close>

text \<open>What a successful first half has done.\<close>

lemma size_build_Ok:
  assumes b: "size_build S levels dm = Some (Inr (Some sw, dm'))" and lk: "dm_last_compact_keys dm = []"
    and so: "sr_opt (dm_readers dm) = dm_opt dm" and len: "length (sr_readers (dm_readers dm)) = max_level (dm_opt dm)"
  obtains l mx mn its s where "Suc l < max_level (dm_opt dm)" "sr_readers (dm_readers dm) ! l \<noteq> []"
    "key_range (if l = 0 then rev (sr_readers (dm_readers dm) ! l) else sr_readers (dm_readers dm) ! l) = Some (mx, mn)"
    "new_iters (tlibs S) (dm_cache dm) ((if l = 0 then rev (sr_readers (dm_readers dm) ! l) else sr_readers (dm_readers dm) ! l) @
        get_other_readers mn mx (sr_readers (dm_readers dm) ! Suc l)) = Some its"
    "compact_tables S (dm_opt dm) \<lparr>cp_merger = mg_new its (dm_cache dm), cp_table = None, cp_readers = [],
        cp_next = dm_next_file_number dm, cp_fs = dm_fs dm\<rparr> = Some (Inr s)"
    "sw_level sw = l" "set (sw_names0 sw) = tr_file_name ` set (sr_readers (dm_readers dm) ! l)" "distinct (sw_names0 sw)"
    "set (sw_names1 sw) = tr_file_name ` set (get_other_readers mn mx (sr_readers (dm_readers dm) ! Suc l))"
    "distinct (sw_names1 sw)" "sw_readers sw = cp_readers s"
    "dm' = dm\<lparr>dm_next_file_number := cp_next s, dm_fs := cp_fs s, dm_cache := mg_cache (cp_merger s)\<rparr>"
proof -
  let ?rss = "sr_readers (dm_readers dm)"
  obtain l where l: "idx levels 0 = Some l" using b by (cases "idx levels 0") (auto simp: size_build_def)
  have ll: "Suc l < max_level (dm_opt dm)" using b l by (auto simp: size_build_def split: if_splits)
  let ?i0 = "if l = 0 then rev (?rss ! l) else ?rss ! l"
  have g: "get_readers (dm_readers dm) l = Some (?rss ! l)" "get_readers (dm_readers dm) (Suc l) = Some (?rss ! Suc l)"
    using ll so len by (simp_all add: get_readers_def idx_def)
  have ne: "?rss ! l \<noteq> []"
  proof
    assume e: "?rss ! l = []"
    then have "select_inputs0 (dm_last_compact_keys dm) l (?rss ! l) = (if l = 0 then Some [] else None)"
      using lk by (auto simp: select_inputs0_def idx_def)
    then show False using b l ll g(1) by (auto simp: size_build_def key_range_def split: if_splits)
  qed
  have sel: "select_inputs0 (dm_last_compact_keys dm) l (?rss ! l) = Some ?i0"
    using ne lk by (auto simp: select_inputs0_def idx_def Let_def)
  have nl: "\<not> max_level (dm_opt dm) - 1 \<le> l" using ll by simp
  obtain mx mn where kr: "key_range ?i0 = Some (mx, mn)"
    using b l nl g sel by (cases "key_range ?i0") (auto simp: size_build_def)
  obtain its where its: "new_iters (tlibs S) (dm_cache dm) (?i0 @ get_other_readers mn mx (?rss ! Suc l)) = Some its"
    using b l nl g sel kr
    by (cases "new_iters (tlibs S) (dm_cache dm) (?i0 @ get_other_readers mn mx (?rss ! Suc l))") (auto simp: size_build_def Let_def)
  obtain s where
    "compact_tables S (dm_opt dm) \<lparr>cp_merger = mg_new its (dm_cache dm), cp_table = None, cp_readers = [],
        cp_next = dm_next_file_number dm, cp_fs = dm_fs dm\<rparr> = Some (Inr s)"
    "sw = \<lparr>sw_level = l, sw_names0 = remdups (map tr_file_name ?i0),
       sw_names1 = remdups (map tr_file_name (get_other_readers mn mx (?rss ! Suc l))), sw_readers = cp_readers s\<rparr>"
    "dm' = dm\<lparr>dm_next_file_number := cp_next s, dm_fs := cp_fs s, dm_cache := mg_cache (cp_merger s)\<rparr>"
    using b l nl g sel kr its unfolding size_build_def
    by (simp add: Let_def tryO_eq_Ok del: if_split_asm split del: if_split) blast
  with ll ne kr its that [of l mx mn its s] show thesis by simp
qed

text \<open>The merged tables stand for their inputs.\<close>

lemma merged_tables:
  assumes r0: "list_all2 (reader_ok L I M) rs0 ls0" and r1: "list_all2 (reader_ok L I M) rs1 ls1"
    and d1: "disjoint_tables ls1" and kr: "key_range inputs0 = Some (mx, mn)"
    and in0: "inputs0 = rev rs0 \<and> i0 = rev ls0 \<or> inputs0 = rs0 \<and> i0 = ls0 \<and> disjoint_tables ls0"
    and P: "\<And>r. P r \<longleftrightarrow> tr_min_key r \<le> mx \<and> mn \<le> tr_max_key r"
    and news: "concat news = merge_all (i0 @ picked P rs1 ls1)" "\<forall>l \<in> set news. l \<noteq> []"
  shows "disjoint_tables (picked (\<lambda>r. \<not> P r) rs1 ls1 @ news)"
    "first_hit (rev ls0 @ ls1) = first_hit (news @ picked (\<lambda>r. \<not> P r) rs1 ls1)"
proof -
  let ?i1 = "picked P rs1 ls1" and ?k1 = "picked (\<lambda>r. \<not> P r) rs1 ls1"
  have i0: "list_all2 (reader_ok L I M) inputs0 i0" using in0 r0 by auto
  have ok1: "tables_ok ls1" "tables_ok ls0" "tables_ok i0"
    using tables_ok_readers [OF r1] tables_ok_readers [OF r0] tables_ok_readers [OF i0] by simp_all
  have so: "\<forall>r \<in> set (i0 @ ?i1). sorted_kv r" using ok1 set_picked [of P rs1 ls1] by (auto simp: tables_ok_def)
  have len: "length rs1 = length ls1" using r1 by (rule list_all2_lengthD)
  note ms = picked_mset [OF len, of P]
  have kd: "keys_disjoint ls1" by (rule disjoint_tables_keys [OF d1 ok1(1)])
  have sub: "fst ` set (concat news) \<subseteq> fst ` set (concat (i0 @ ?i1))"
    unfolding news(1) by (rule image_mono [OF merge_all_set [OF so]])
  have di: "distinct ls1" "distinct (?i1 @ ?k1)"
    using d1 mset_eq_imp_distinct_iff [of ls1 "?i1 @ ?k1"] ms by (auto simp: disjoint_tables_def)
  have "disjoint_tables ?k1"
    using d1 di(2) set_picked [of "\<lambda>r. \<not> P r" rs1 ls1] unfolding disjoint_tables_def by auto
  moreover have "tables_ok ?k1" using ok1(1) set_picked [of "\<lambda>r. \<not> P r" rs1 ls1] by (auto simp: tables_ok_def)
  moreover have "\<forall>k \<in> set ?k1. beside (fst ` set (concat (i0 @ ?i1))) k"
    using kept_beside [OF r1 d1 i0 kr P] by blast
  moreover have "sorted_kv (concat news)" unfolding news(1) by (rule sorted_merge_all)
  ultimately show "disjoint_tables (?k1 @ news)" using new_tables_disjoint news(2) sub by blast
  have "first_hit news = first_hit (i0 @ ?i1)"
    by (simp only: first_hit_concat [of news] news(1) map_of_merge_all [OF so])
  then have n: "first_hit (news @ ?k1) = first_hit (i0 @ ?i1 @ ?k1)" using first_hit_cong_left by fastforce
  have l1: "first_hit ls1 = first_hit (?i1 @ ?k1)" by (rule first_hit_mset [OF kd, symmetric]) (simp add: ms)
  have "first_hit (rev ls0) = first_hit i0"
    using in0 first_hit_mset [OF disjoint_tables_keys [OF _ ok1(2)], of "rev ls0"] by auto
  then have "first_hit (rev ls0 @ ls1) = first_hit (i0 @ ls1)" by (rule first_hit_cong_left)
  also have "\<dots> = first_hit (i0 @ ?i1 @ ?k1)" by (rule first_hit_append_cong [OF l1])
  finally show "first_hit (rev ls0 @ ls1) = first_hit (news @ ?k1)" using n by simp
qed

text \<open>The inputs of the merge: the tables of the level, and those of the next one that overlap.\<close>

definition overlaps :: "bytes \<Rightarrow> bytes \<Rightarrow> 'f table_reader \<Rightarrow> bool" where
  "overlaps mx mn r \<longleftrightarrow> tr_min_key r \<le> mx \<and> mn \<le> tr_max_key r"

abbreviation newest_first :: "nat \<Rightarrow> 'a list \<Rightarrow> 'a list" where
  "newest_first l xs \<equiv> (if l = 0 then rev xs else xs)"

abbreviation merge_start :: "('f, 'c) data_manager \<Rightarrow> ('f table_reader \<times> 'c table_iter) list \<Rightarrow> ('f, 'c) compaction" where
  "merge_start dm its \<equiv> \<lparr>cp_merger = mg_new its (dm_cache dm), cp_table = None, cp_readers = [],
     cp_next = dm_next_file_number dm, cp_fs = dm_fs dm\<rparr>"

lemma size_build_inputs:
  fixes l mx mn and dm :: "('f, 'c) data_manager" and v :: view
  defines "rss \<equiv> sr_readers (dm_readers dm)" and "lss \<equiv> v_levels v"
  defines "ins \<equiv> newest_first l (lss ! l) @ picked (overlaps mx mn) (rss ! Suc l) (lss ! Suc l)"
  assumes inv: "dm_inv S M dm v W" and l: "Suc l < max_level (dm_opt dm)"
  shows "get_other_readers mn mx (rss ! Suc l) = filter (overlaps mx mn) (rss ! Suc l)"
    "\<exists>its. new_iters (tlibs S) (dm_cache dm) (newest_first l (rss ! l) @ get_other_readers mn mx (rss ! Suc l)) = Some its \<and>
       mg_inv (tlibs S) (restart_interval (dm_opt dm)) M (cache_id (dm_cache dm)) (mg_new its (dm_cache dm)) ins"
    "cp_inv S (dm_opt dm) M (dm_next_file_number dm) (merge_start dm its) [] []" "set (merge_all ins) \<subseteq> set W"
proof -
  note d = dm_invD [OF inv]
  note sv = sr_invD [OF d(8), folded rss_def lss_def]
  note lv = levels_okD [OF sv(5)]
  let ?i0 = "newest_first l (lss ! l)" and ?i1 = "picked (overlaps mx mn) (rss ! Suc l) (lss ! Suc l)"
  let ?L = "tlibs S" and ?I = "restart_interval (dm_opt dm)"
  have ll: "l < length lss" "Suc l < length lss" "l < length rss" "Suc l < length rss" using l sv(3,10) by simp_all
  note r0 = lv(2) [OF ll(1)] and r1 = lv(2) [OF ll(2)]
  show go: "get_other_readers mn mx (rss ! Suc l) = filter (overlaps mx mn) (rss ! Suc l)"
    unfolding overlaps_def by (rule get_other_filter [OF readers_sortedI [OF r1 lv(3) [OF ll(2)]]]) simp
  have rin: "list_all2 (reader_ok ?L ?I M) (newest_first l (rss ! l) @ filter (overlaps mx mn) (rss ! Suc l)) (?i0 @ ?i1)"
    using r0 picked_rel [OF r1] by (intro list_all2_appendI) auto
  show "\<exists>its. new_iters ?L (dm_cache dm) (newest_first l (rss ! l) @ get_other_readers mn mx (rss ! Suc l)) = Some its \<and>
       mg_inv ?L ?I M (cache_id (dm_cache dm)) (mg_new its (dm_cache dm)) ins"
    using new_iters_ok [OF rin cache_ok_agrees [OF d(2)]] unfolding go ins_def .
  show "cp_inv S (dm_opt dm) M (dm_next_file_number dm) (merge_start dm its) [] []"
    using d(1,2) by (simp add: cp_inv_def cp_wf_def cp_lo_def mg_new_def)
  have "set (?i0 @ ?i1) \<subseteq> set (lss ! l) \<union> set (lss ! Suc l)" using set_picked [of "overlaps mx mn"] by auto
  also have "\<dots> \<subseteq> set (concat lss)" using ll nth_mem by fastforce
  finally have "set (concat (?i0 @ ?i1)) \<subseteq> set W" using d(9) by (fastforce simp: hist_inv_def lss_def)
  moreover have "\<forall>r \<in> set (?i0 @ ?i1). sorted_kv r" using tables_ok_readers [OF rin] by (auto simp: tables_ok_def)
  ultimately show "set (merge_all ins) \<subseteq> set W" unfolding ins_def using merge_all_set by blast
qed

text \<open>The merge leaves everything as it was but for new files.\<close>

lemma merged_state:
  assumes inv: "dm_inv S M dm v W" and M': "M \<subseteq>\<^sub>m M'" and i: "cp_inv S (dm_opt dm) M' (dm_next_file_number dm) s news []"
    and la: "cp_later (merge_start dm its) s" and t: "cp_table s = None" and b: "cp_next s < usize_bound"
  shows "dm_inv S M' (dm\<lparr>dm_next_file_number := cp_next s, dm_fs := cp_fs s, dm_cache := mg_cache (cp_merger s)\<rparr>) v W"
proof -
  note d = dm_invD [OF inv]
  let ?N = "dm_next_file_number dm" and ?L = "tlibs S"
  have lo: "cp_lo (merge_start dm its) = ?N" by (simp add: cp_lo_def)
  have keep: "map_of (cp_fs s) x = map_of (dm_fs dm) x" if "x \<notin> sst_name ` {?N ..< cp_next s}" for x
    using la that lo unfolding cp_later_def by simp
  have Nb: "?N \<le> cp_next s" using la by (simp add: cp_later_def)
  have old: "sst_name n \<notin> sst_name ` {?N ..< cp_next s}" if "n < ?N" for n by (rule old_name [OF that b Nb])
  have wn: "x \<notin> sst_name ` {?N ..< cp_next s}" if "has_ext ''wal'' x" for x by (rule other_names(2) [OF that])
  have mf: "MANIFEST_FILENAME \<notin> sst_name ` {?N ..< cp_next s}" by (rule other_names(1))
  have sk: "sorted_kv (cp_fs s)" using i by (simp add: cp_inv_def cp_wf_def)
  have sri: "sr_inv S (dm_opt dm) M' (dm_readers dm) (cp_fs s) (cp_next s) (v_levels v)"
    by (rule sr_inv_frame [OF d(8) M']) (use b Nb keep old mf in auto)
  have "wal_holds ?L (dm_wal dm) (cp_fs s) (v_segs v)"
    using d(7) by (intro wal_holds_frame [OF _ sk]) (simp_all add: wal_inv_def keep wn)
  then have wi: "wal_inv ?L (dm_wal dm) (cp_fs s) v" using d(7) by (simp add: wal_inv_def)
  show ?thesis using d sk i sri wi by (simp add: dm_inv_def cp_inv_def)
qed

lemma size_build_ok:
  assumes S: "server_libs_ok S" and inv: "dm_inv S M dm v W" and o: "opt_ok (dm_opt dm)" and W: "writes_ok W"
    and b: "size_build S levels dm = Some (Inr (Some sw, dm'))" and lim: "limits dm'"
  shows "\<exists>M'. M \<subseteq>\<^sub>m M' \<and> dm_inv S M' dm' v W \<and> swap_ok S M' dm' v W sw \<and> dm_opt dm' = dm_opt dm"
proof -
  note d = dm_invD [OF inv]
  note sv = sr_invD [OF d(8)]
  note lv = levels_okD [OF sv(5)]
  let ?rss = "sr_readers (dm_readers dm)" and ?lss = "v_levels v" and ?L = "tlibs S" and ?opt = "dm_opt dm"
  let ?N = "dm_next_file_number dm" and ?I = "restart_interval (dm_opt dm)"
  obtain l mx mn its s where l: "Suc l < max_level ?opt" and kr: "key_range (newest_first l (?rss ! l)) = Some (mx, mn)"
    and its: "new_iters ?L (dm_cache dm) (newest_first l (?rss ! l) @ get_other_readers mn mx (?rss ! Suc l)) = Some its"
    and ct: "compact_tables S ?opt (merge_start dm its) = Some (Inr s)"
    and sw: "sw_level sw = l" "set (sw_names0 sw) = tr_file_name ` set (?rss ! l)" "distinct (sw_names0 sw)"
      "set (sw_names1 sw) = tr_file_name ` set (get_other_readers mn mx (?rss ! Suc l))"
      "distinct (sw_names1 sw)" "sw_readers sw = cp_readers s"
    and dm': "dm' = dm\<lparr>dm_next_file_number := cp_next s, dm_fs := cp_fs s, dm_cache := mg_cache (cp_merger s)\<rparr>"
    using size_build_Ok [OF b d(3) sv(1,10)] .
  let ?P = "overlaps mx mn" and ?i0 = "newest_first l (?lss ! l)"
  let ?i1 = "picked ?P (?rss ! Suc l) (?lss ! Suc l)"
  note ib = size_build_inputs(1,2,4) [OF inv l, where mx = mx and mn = mn]
  have mi: "mg_inv ?L ?I M (cache_id (dm_cache dm)) (mg_new its (dm_cache dm)) (?i0 @ ?i1)" using ib(2) its by auto
  have tb: "table_libs_ok ?L" using S by (simp add: server_libs_ok_def)
  have clim: "cp_limits s" using lim files_fitD unfolding cp_limits_def by (fastforce simp: limits_def dm')
  obtain M' news where M': "M \<subseteq>\<^sub>m M'" "cp_inv S ?opt M' ?N s news []" "concat news = merge_all (?i0 @ ?i1)"
    "cp_later (merge_start dm its) s" "cp_table s = None"
    using compact_tables_inv [OF tb o W _ size_build_inputs(3) [OF inv l] ct clim ib(3)] mi by (auto simp: mg_new_def)
  have Nb: "cp_next s < usize_bound" using clim by (simp add: cp_limits_def)
  have di: "dm_inv S M' dm' v W" unfolding dm' by (rule merged_state [OF inv M'(1,2,4,5) Nb])
  have lo: "cp_lo s = cp_next s" using M'(5) by (simp add: cp_lo_def)
  have rd: "list_all2 (reader_ok ?L ?I M') (cp_readers s) news" and nm: "map tr_file_name (cp_readers s) = map sst_name [?N..<cp_next s]"
    and st: "\<And>r. r \<in> set (cp_readers s) \<Longrightarrow> map_of (cp_fs s) (tr_file_name r) = Some (tr_file r)"
    using M'(2) lo by (simp_all add: cp_inv_def)
  have nn: "\<forall>x \<in> set news. x \<noteq> []" using tables_ok_readers [OF rd] by (simp add: tables_ok_def)
  have ll: "l < length ?lss" "Suc l < length ?lss" "Suc l < length ?rss" using l sv(3,10) by simp_all
  note r0 = lv(2) [OF ll(1)] and r1 = lv(2) [OF ll(2)]
  have dj: "disjoint_tables (?lss ! Suc l)" "l \<noteq> 0 \<Longrightarrow> disjoint_tables (?lss ! l)"
    using disjoint_tables_sorted(1) [OF tables_ok_readers [OF r1] lv(3) [OF ll(2)]]
      disjoint_tables_sorted(1) [OF tables_ok_readers [OF r0] lv(3) [OF ll(1)]] by simp_all
  have in0: "newest_first l (?rss ! l) = rev (?rss ! l) \<and> ?i0 = rev (?lss ! l) \<or>
      newest_first l (?rss ! l) = ?rss ! l \<and> ?i0 = ?lss ! l \<and> disjoint_tables (?lss ! l)"
    using dj(2) by auto
  note mt = merged_tables [OF r0 r1 dj(1) kr in0 overlaps_def M'(3) nn]
  have dn: "distinct (map tr_file_name (?rss ! Suc l))" using sv(6) unfolding concat_split [OF ll(3)] by simp
  have k1: "kept (?rss ! Suc l) (?lss ! Suc l) (sw_names1 sw) = picked (\<lambda>r. \<not> ?P r) (?rss ! Suc l) (?lss ! Suc l)"
    by (rule kept_picked [OF dn]) (simp add: sw(4) ib(1))
  have stored: "reader_stored (cp_fs s) (cp_next s) r" if "r \<in> set (cp_readers s)" for r
    by (rule new_names_stored [OF nm that st [OF that]])
  have dis: "distinct (map tr_file_name (concat ?rss @ cp_readers s))" by (rule new_names_distinct [OF d(8) Nb nm])
  have nW: "\<forall>es \<in> set news. set es \<subseteq> set W" using ib(3) unfolding M'(3) [symmetric] by auto
  have n0: "set (sw_names0 sw) = set (take (length (?lss ! l)) (map tr_file_name (?rss ! l)))"
    using sw(2) list_all2_lengthD [OF r0] by simp
  have n1: "set (sw_names1 sw) \<subseteq> tr_file_name ` set (?rss ! Suc l)" using sw(4) ib(1) by auto
  have "\<exists>a news. a \<le> length (?lss ! l) \<and> (l \<noteq> 0 \<longrightarrow> a = length (?lss ! l)) \<and>
      set (sw_names0 sw) = set (take a (map tr_file_name (?rss ! l))) \<and> list_all2 (reader_ok ?L ?I M') (cp_readers s) news \<and>
      disjoint_tables (kept (?rss ! Suc l) (?lss ! Suc l) (sw_names1 sw) @ news) \<and> (\<forall>es \<in> set news. set es \<subseteq> set W) \<and>
      first_hit (rev (take a (?lss ! l)) @ ?lss ! Suc l) = first_hit (news @ kept (?rss ! Suc l) (?lss ! Suc l) (sw_names1 sw))"
    by (rule exI [of _ "length (?lss ! l)"], rule exI [of _ news]) (use n0 rd nW mt k1 in simp)
  then have "swap_ok S M' dm' v W sw"
    unfolding swap_ok_def Let_def sw(1,6) using l sw(3,5) n1 stored dis by (simp add: dm')
  with di M'(1) show ?thesis by (auto simp: dm')
qed

end
