(* ===== verification/Wal_Recovery.thy ===== *)
theory Wal_Recovery
  imports Wal Manifest
begin

text \<open>
  Opening the log again: the names of the segments sort as their numbers do, so the segments
  come back in the order they were written; empty ones are removed.
\<close>

subsection \<open>The order of the names\<close>

definition dval :: "nat \<Rightarrow> string \<Rightarrow> nat" where
  "dval acc s = foldl (\<lambda>a c. a * 10 + digit_val c) acc s"

lemma digits_val_dval: "digits_val s acc = Some n \<Longrightarrow> n = dval acc s"
  by (induction s acc rule: digits_val.induct) (auto simp: dval_def Let_def split: if_splits)

lemma dval_less_acc:
  assumes "length xs = length ys" "acc < acc'" "\<forall>c \<in> set xs. is_digit c"
  shows "dval acc xs < dval acc' ys"
  using assms
proof (induction xs ys arbitrary: acc acc' rule: list_induct2)
  case (Cons x xs y ys)
  have "digit_val x < 10" using Cons.prems(2) by (auto simp: is_digit_def digit_val_def)
  then have "acc * 10 + digit_val x < acc' * 10 + digit_val y" using Cons.prems(1) by linarith
  with Cons show ?case by (simp add: dval_def)
qed (simp add: dval_def)

lemma dval_less:
  assumes "length xs = length ys" "xs < ys" "\<forall>c \<in> set xs. is_digit c" "\<forall>c \<in> set ys. is_digit c"
  shows "dval acc xs < dval acc ys"
  using assms
proof (induction xs ys arbitrary: acc rule: list_induct2)
  case (Cons x xs y ys)
  show ?case
  proof (cases "x = y")
    case True
    with Cons show ?thesis by (simp add: dval_def)
  next
    case False
    then have "x < y" using Cons.prems(1) by simp
    then have "digit_val x < digit_val y"
      using Cons.prems(2,3) by (auto simp: is_digit_def digit_val_def less_char_def)
    then show ?thesis using dval_less_acc [OF Cons.hyps(1)] Cons.prems(2) by (simp add: dval_def)
  qed
qed simp

lemma pad8_digits: "\<forall>c \<in> set (pad8 n). is_digit c"
  using show_nat_digits [of n] by (auto simp: pad8_def Let_def is_digit_def)

lemma length_show_nat: "n < 10 ^ k \<Longrightarrow> 0 < k \<Longrightarrow> length (show_nat n) \<le> k"
proof (induction n arbitrary: k rule: show_nat.induct)
  case (1 n)
  show ?case
  proof (cases "n < 10")
    case True
    then show ?thesis using "1.prems"(2) by (subst show_nat.simps) simp
  next
    case False
    obtain j where j: "k = Suc j" using "1.prems"(2) by (cases k) auto
    have "0 < j" using False "1.prems"(1) j by (cases j) auto
    moreover have "n div 10 < 10 ^ j" using "1.prems"(1) j by (simp add: div_less_iff_less_mult mult.commute)
    ultimately have "length (show_nat (n div 10)) \<le> j" using "1.IH" False by blast
    then show ?thesis using False j by (subst show_nat.simps) simp
  qed
qed

lemma length_pad8: "n < 10 ^ 8 \<Longrightarrow> length (pad8 n) = 8"
  using length_show_nat [of n 8] by (simp add: pad8_def Let_def)

lemma pad8_less:
  assumes "n < m" "m < 10 ^ 8"
  shows "pad8 n < pad8 m"
proof (rule ccontr)
  assume "\<not> pad8 n < pad8 m"
  then have c: "pad8 m = pad8 n \<or> pad8 m < pad8 n" by auto
  have b: "n < usize_bound" "m < usize_bound" "n < 10 ^ 8" using assms by simp_all
  have v: "dval 0 (pad8 i) = i" if "i < usize_bound" for i
  proof -
    have "pad8 i \<noteq> []" by (simp add: pad8_def Let_def)
    then have "digits_val (pad8 i) 0 = Some i" using parse_pad8 [OF that] parse_digits [OF _ pad8_digits] by simp
    then show ?thesis by (auto dest: digits_val_dval)
  qed
  have "length (pad8 m) = length (pad8 n)" using length_pad8 b(3) assms(2) by simp
  then have "dval 0 (pad8 m) \<le> dval 0 (pad8 n)"
    using c dval_less [of "pad8 m" "pad8 n" 0] pad8_digits by auto
  then show False using v b assms(1) by simp
qed

lemma append_less: "length xs = length ys \<Longrightarrow> xs < ys \<Longrightarrow> xs @ us < ys @ (vs :: string)"
  by (induction xs ys rule: list_induct2) auto

lemma make_file_name_less: "n < m \<Longrightarrow> m < 10 ^ 8 \<Longrightarrow> make_file_name n e < make_file_name m e"
  unfolding make_file_name_def by (rule append_less) (simp_all add: length_pad8 pad8_less)

subsection \<open>Opening the segments\<close>

lemma list_all2_in: "list_all2 Q xs ys \<Longrightarrow> x \<in> set xs \<Longrightarrow> \<exists>y \<in> set ys. Q x y"
  by (induction rule: list_all2_induct) auto

definition file_holds :: "('f, 'c) libs \<Rightarrow> string \<Rightarrow> fs \<Rightarrow> entry list \<Rightarrow> bool" where
  "file_holds L p d es \<longleftrightarrow> (\<exists>zs. list_all2 (rec_ok L) es zs \<and> map_of d p = Some (log_bytes L zs))"

lemma file_holds_empty: "fixed_ok L \<Longrightarrow> file_holds L p d es \<Longrightarrow> \<exists>b. map_of d p = Some b \<and> (b = [] \<longleftrightarrow> es = [])"
  by (auto simp: file_holds_def)

lemma file_holds_frame: "file_holds L p d es \<Longrightarrow> map_of d' p = map_of d p \<Longrightarrow> file_holds L p d' es"
  by (simp add: file_holds_def)

text \<open>The segments on the disk: their names in order, and what each holds.\<close>

definition log_files :: "('f, 'c) libs \<Rightarrow> fs \<Rightarrow> string list \<Rightarrow> entry list list \<Rightarrow> bool" where
  "log_files L d ps ess \<longleftrightarrow>
     sorted_kv d \<and> list_all2 (\<lambda>p es. file_holds L p d es) ps ess \<and> sorted_wrt (<) ps \<and>
     (\<forall>x. x \<in> set ps \<longleftrightarrow> has_ext ''wal'' x \<and> map_of d x \<noteq> None)"

lemma log_filesD:
  assumes "log_files L d ps ess"
  shows "sorted_kv d" "list_all2 (\<lambda>p es. file_holds L p d es) ps ess" "sorted_wrt (<) ps" "distinct ps"
    "\<And>x. x \<in> set ps \<longleftrightarrow> has_ext ''wal'' x \<and> map_of d x \<noteq> None"
  using assms by (simp_all add: log_files_def strict_sorted_iff)

lemma log_files_frame:
  assumes "log_files L d ps ess" "sorted_kv d'" "\<And>x. has_ext ''wal'' x \<Longrightarrow> map_of d' x = map_of d x"
  shows "log_files L d' ps ess"
proof -
  note l = log_filesD [OF assms(1)]
  have "list_all2 (\<lambda>p es. file_holds L p d' es) ps ess"
    using l(2) by (rule list.rel_mono_strong) (use l(5) assms(3) in \<open>auto simp: file_holds_def\<close>)
  then show ?thesis unfolding log_files_def using l(3,5) assms(2,3) by auto
qed

lemma log_files_wal:
  assumes h: "wal_holds L w d ess" and n: "current_file_num w \<le> 10 ^ 8"
  shows "log_files L d (map seg_path (segs w)) ess"
proof -
  let ?ps = "map seg_path (segs w)"
  have wf: "wal_files w d" and sg: "list_all2 (\<lambda>s es. seg_holds L s d es) (segs w) ess" using h by (simp_all add: wal_holds_def)
  obtain ns where ns: "?ps = map (\<lambda>n. make_file_name n ''wal'') ns" "sorted_wrt (<) ns" "\<forall>n \<in> set ns. n < current_file_num w"
    using wf by (auto simp: wal_files_def)
  have "sorted_wrt (\<lambda>a b. make_file_name a ''wal'' < make_file_name b ''wal'') ns"
    using ns(2,3) n by (intro sorted_wrt_mono_rel [OF _ ns(2)] make_file_name_less) auto
  then have "sorted_wrt (<) ?ps" unfolding ns(1) by (simp add: sorted_wrt_map)
  moreover have "has_ext ''wal'' p" if "p \<in> set ?ps" for p using that unfolding ns(1) by auto
  moreover have "map_of d p \<noteq> None" if "p \<in> set ?ps" for p using that list_all2_in [OF sg] by (auto simp: seg_holds_def)
  moreover have "list_all2 (\<lambda>p es. file_holds L p d es) ?ps ess"
    unfolding list.rel_map using sg by (rule list_all2_mono) (auto simp: seg_holds_def file_holds_def)
  ultimately show ?thesis using wf h unfolding log_files_def wal_files_def wal_holds_def by auto
qed

text \<open>Without segments the log is empty.\<close>

lemma log_files_Nil: "log_files L d [] [] \<longleftrightarrow> sorted_kv d \<and> (\<forall>x. has_ext ''wal'' x \<longrightarrow> map_of d x = None)"
  by (auto simp: log_files_def)

lemma wal_holds_none: "log_files L d [] [] \<Longrightarrow> wal_holds L \<lparr>segs = [], current_file_num = 0\<rparr> d []"
  by (auto simp: log_files_Nil wal_holds_def wal_fresh_def wal_files_def)

lemma wal_open_segs_ok:
  assumes "fixed_ok L" "list_all2 (\<lambda>p es. file_holds L p d es) ps ess" "distinct ps" "sorted_kv d"
  shows "\<exists>ss d'. wal_open_segs ps d = Some (ss, d') \<and>
     list_all2 (\<lambda>s es. file_holds L (seg_path s) d' es) ss (filter (\<lambda>es. es \<noteq> []) ess) \<and> sorted_kv d' \<and>
     (\<forall>x. x \<notin> set ps \<longrightarrow> map_of d' x = map_of d x) \<and>
     (\<forall>p \<in> set ps. map_of d' p \<noteq> None \<longrightarrow> p \<in> seg_path ` set ss) \<and> map seg_path ss = filter (\<lambda>p. map_of d p \<noteq> Some []) ps"
  using assms(2-4)
proof (induction ps arbitrary: ess d)
  case (Cons p ps)
  obtain es ess' where es: "ess = es # ess'" "file_holds L p d es" "list_all2 (\<lambda>p es. file_holds L p d es) ps ess'"
    using Cons.prems(1) by (auto simp: list_all2_Cons1)
  obtain b where b: "map_of d p = Some b" "b = [] \<longleftrightarrow> es = []" using file_holds_empty [OF assms(1) es(2)] by blast
  have sn: "seg_new p d = (\<lparr>seg_size = 0, seg_path = p\<rparr>, d)" using b(1) by (simp add: seg_new_def fs_create_def)
  have pn: "p \<notin> set ps" "distinct ps" using Cons.prems(2) by simp_all
  show ?case
  proof (cases "b = []")
    case True
    let ?d = "del_kv p d"
    have m: "map_of ?d = (map_of d)(p := None)" by (rule map_of_del_kv [OF Cons.prems(3)])
    have l: "list_all2 (\<lambda>p es. file_holds L p ?d es) ps ess'"
      using es(3) by (rule list.rel_mono_strong) (use pn(1) in \<open>auto simp: file_holds_def m\<close>)
    from Cons.IH [OF l pn(2) sorted_del_kv [OF Cons.prems(3)]] obtain ss d' where ih:
      "wal_open_segs ps ?d = Some (ss, d')" "list_all2 (\<lambda>s es. file_holds L (seg_path s) d' es) ss (filter (\<lambda>es. es \<noteq> []) ess')"
      "sorted_kv d'" "\<And>x. x \<notin> set ps \<Longrightarrow> map_of d' x = map_of ?d x"
      "\<forall>p \<in> set ps. map_of d' p \<noteq> None \<longrightarrow> p \<in> seg_path ` set ss" "map seg_path ss = filter (\<lambda>p. map_of ?d p \<noteq> Some []) ps"
      by blast
    have o: "wal_open_segs (p # ps) d = Some (ss, d')"
      using True b(1) sn ih(1) by (simp add: remove_file_def Let_def)
    have g: "map_of d' p = None" using ih(4) [OF pn(1)] m by simp
    have "map seg_path ss = filter (\<lambda>p. map_of d p \<noteq> Some []) ps"
      unfolding ih(6) by (rule filter_cong) (use pn(1) in \<open>auto simp: m\<close>)
    then show ?thesis
      by (intro exI [of _ ss] exI [of _ d']) (use o ih(2-5) m g True b es(1) in auto)
  next
    case False
    from Cons.IH [OF es(3) pn(2) Cons.prems(3)] obtain ss d' where ih:
      "wal_open_segs ps d = Some (ss, d')" "list_all2 (\<lambda>s es. file_holds L (seg_path s) d' es) ss (filter (\<lambda>es. es \<noteq> []) ess')"
      "sorted_kv d'" "\<And>x. x \<notin> set ps \<Longrightarrow> map_of d' x = map_of d x"
      "\<forall>p \<in> set ps. map_of d' p \<noteq> None \<longrightarrow> p \<in> seg_path ` set ss" "map seg_path ss = filter (\<lambda>p. map_of d p \<noteq> Some []) ps"
      by blast
    let ?s = "\<lparr>seg_size = 0, seg_path = p\<rparr>"
    have o: "wal_open_segs (p # ps) d = Some (?s # ss, d')" using False b(1) sn ih(1) by (simp add: Let_def)
    have "file_holds L p d' es" by (rule file_holds_frame [OF es(2) ih(4) [OF pn(1)]])
    then show ?thesis
      by (intro exI [of _ "?s # ss"] exI [of _ d']) (use o ih False b es(1) pn in auto)
  qed
qed simp

lemma wal_reopen:
  assumes L: "fixed_ok L" and g: "glob_ok S" and l: "log_files L d ps ess"
  obtains ss d' where "wal_new (glob_wal S) d = Some (\<lparr>segs = ss, current_file_num = 0\<rparr>, d')"
    "log_files L d' (map seg_path ss) (filter (\<lambda>es. es \<noteq> []) ess)" "\<And>x. \<not> has_ext ''wal'' x \<Longrightarrow> map_of d' x = map_of d x"
proof -
  note f = log_filesD [OF l]
  have "distinct (map fst d)" using f(1) by (simp add: sorted_kv_def strict_sorted_iff)
  then have gl: "distinct (glob_wal S d)" "set (glob_wal S d) = {x \<in> fst ` set d. has_ext ''wal'' x}"
    using g by (auto simp: glob_ok_def)
  have "x \<in> fst ` set d \<longleftrightarrow> map_of d x \<noteq> None" for x by (simp add: map_of_eq_None_iff)
  then have "set (glob_wal S d) = set ps" unfolding gl(2) using f(5) by blast
  then have so: "sort (glob_wal S d) = ps"
    using gl(1) f(4) strict_sorted_imp_sorted [OF f(3)] by (intro sorted_distinct_set_unique) auto
  obtain ss d' where r: "wal_open_segs ps d = Some (ss, d')"
     "list_all2 (\<lambda>s es. file_holds L (seg_path s) d' es) ss (filter (\<lambda>es. es \<noteq> []) ess)" "sorted_kv d'"
     "\<forall>x. x \<notin> set ps \<longrightarrow> map_of d' x = map_of d x" "\<forall>p \<in> set ps. map_of d' p \<noteq> None \<longrightarrow> p \<in> seg_path ` set ss"
     "map seg_path ss = filter (\<lambda>p. map_of d p \<noteq> Some []) ps"
    using wal_open_segs_ok [OF L f(2,4,1)] by (elim exE conjE) (rule that)
  have sub: "seg_path ` set ss \<subseteq> set ps" using arg_cong [OF r(6), of set] by auto
  have "x \<in> set (map seg_path ss) \<longleftrightarrow> has_ext ''wal'' x \<and> map_of d' x \<noteq> None" for x
  proof
    assume "x \<in> set (map seg_path ss)"
    then show "has_ext ''wal'' x \<and> map_of d' x \<noteq> None"
      using list_all2_in [OF r(2)] sub f(5) by (fastforce simp: file_holds_def)
  next
    assume x: "has_ext ''wal'' x \<and> map_of d' x \<noteq> None"
    then show "x \<in> set (map seg_path ss)" using r(4,5) f(5) [of x] by (cases "x \<in> set ps") auto
  qed
  moreover have "list_all2 (\<lambda>p es. file_holds L p d' es) (map seg_path ss) (filter (\<lambda>es. es \<noteq> []) ess)"
    using r(2) by (simp add: list.rel_map)
  moreover have "sorted_wrt (<) (map seg_path ss)" unfolding r(6) by (rule sorted_wrt_filter [OF f(3)])
  ultimately have "log_files L d' (map seg_path ss) (filter (\<lambda>es. es \<noteq> []) ess)" unfolding log_files_def using r(3) by blast
  moreover have "map_of d' x = map_of d x" if "\<not> has_ext ''wal'' x" for x using that f(5) r(4) by blast
  ultimately show ?thesis using r(1) so by (intro that [of ss d']) (simp_all add: wal_new_def)
qed

end
