(* ===== verification/Dm_Recovery.thy ===== *)
theory Dm_Recovery
  imports Dm_Major Wal_Recovery
begin

text \<open>
  Starting again from the files: the tables of the manifest are opened, every segment of the
  log becomes a table of level 0, and the log is emptied.  What was written is there again.  All
  of it rests on \<open>disk_inv\<close>, which speaks of the files alone; it holds between any two steps of
  the data manager, and between the steps of recovery itself.
\<close>

subsection \<open>Segments to tables\<close>

lemma unwrap_Some [simp]: "unwrap m = Some x \<longleftrightarrow> m = Some (Inr x)"
  by (auto simp: unwrap_def split: option.splits sum.splits)

lemma to_skiplist_file:
  assumes L: "fixed_ok L" "snappy_ok L" and h: "file_holds L (seg_path s) d es" and ne: "es \<noteq> []"
  shows "\<exists>m. to_skiplist L ht rng s d = Some (Inr m) \<and> sl_rel m (put_all es [])"
proof -
  obtain zs where zs: "list_all2 (rec_ok L) es zs" "map_of d (seg_path s) = Some (log_bytes L zs)"
    using h by (auto simp: file_holds_def)
  let ?s = "s\<lparr>seg_size := length (log_bytes L zs)\<rparr>"
  have "seg_holds L ?s d es" using zs by (auto simp: seg_holds_def)
  from to_skiplist_ok [OF L this ne] show ?thesis by (simp add: to_skiplist_def)
qed

text \<open>What the building of tables leaves alone.\<close>

lemma redo_build_later:
  assumes "redo_build S opt ss n d c rngs = Some (ps, n', d', c', rngs')" "sorted_kv d"
    and "\<forall>s \<in> set ss. map_of d (seg_path s) \<noteq> None \<and> has_ext ''wal'' (seg_path s)"
  shows "n' = n + length ss \<and> cache_id c \<le> cache_id c' \<and> sorted_kv d' \<and>
     (\<forall>x. x \<notin> sst_name ` {n..<n'} \<longrightarrow> map_of d' x = map_of d x)"
  using assms
proof (induction ss arbitrary: n d c rngs ps)
  case (Cons s ss)
  have cl: "seg_clone s d = (\<lparr>seg_size = 0, seg_path = seg_path s\<rparr>, d)"
    using Cons.prems(3) by (auto simp: seg_clone_def seg_new_def fs_create_def)
  obtain r d2 c2 ps2 where b: "seg_build_sstable S (shd rngs) \<lparr>seg_size = 0, seg_path = seg_path s\<rparr> opt (sst_name n) d c = Some (Inr (r, d2, c2))"
    "redo_build S opt ss (n + 1) d2 c2 (stl rngs) = Some (ps2, n', d', c', rngs')"
    using Cons.prems(1) cl by (auto simp: bind_eq_Some_conv Let_def)
  obtain m :: "(bytes, bytes, nat stream) skiplist" where m: "skiplist_to_sstable S m opt (sst_name n) d c = Some (Inr (r, d2, c2))"
    using b(1) by (auto simp: seg_build_sstable_def tryO_eq_Ok)
  have d2: "sorted_kv d2 \<and> (\<forall>x. x \<noteq> sst_name n \<longrightarrow> map_of d2 x = map_of d x)"
    using skiplist_to_sstable_fs [OF m] Cons.prems(2) by (auto simp: map_of_fs_write)
  have "\<forall>s \<in> set ss. map_of d2 (seg_path s) \<noteq> None \<and> has_ext ''wal'' (seg_path s)"
    using Cons.prems(3) d2 wal_ext_other by auto
  from Cons.IH [OF b(2) conjunct1 [OF d2] this] have ih: "n' = Suc n + length ss" "cache_id c2 \<le> cache_id c'" "sorted_kv d'"
    "\<And>x. x \<notin> sst_name ` {Suc n..<n'} \<Longrightarrow> map_of d' x = map_of d2 x" by auto
  have "map_of d' x = map_of d x" if x: "x \<notin> sst_name ` {n..<n'}" for x
  proof -
    have e: "{n..<n'} = insert n {Suc n..<n'}" using ih(1) by auto
    have "x \<noteq> sst_name n" "x \<notin> sst_name ` {Suc n..<n'}" using x unfolding e by blast+
    then show ?thesis using ih(4) d2 by simp
  qed
  then show ?case using ih(1-3) skiplist_to_sstable_cache_id [OF m] by simp
qed simp

lemma put_all_Nil: "put_all es [] = [] \<longleftrightarrow> es = []"
proof
  assume "put_all es [] = []"
  then have "map_of (rev es) = Map.empty" using map_of_put_all [of "[]" es] by simp
  then show "es = []" by (cases es rule: rev_cases) (auto simp: fun_eq_iff split: if_splits)
qed simp

lemma redo_build_ok:
  assumes L: "table_libs_ok (tlibs S)" and o: "opt_ok opt" and W: "writes_ok W"
    and "redo_build S opt ss n d c rngs = Some (ps, n', d', c', rngs')" "sorted_kv d" "cache_ok (tlibs S) M c"
    and "list_all2 (\<lambda>s es. file_holds (tlibs S) (seg_path s) d es \<and> has_ext ''wal'' (seg_path s)) ss ess"
    and "\<forall>es \<in> set ess. es \<noteq> [] \<and> set (put_all es []) \<subseteq> set W"
    and "n' < usize_bound" "cache_id c' < usize_bound"
    and "\<forall>i f. map_of d' (sst_name i) = Some f \<longrightarrow> length f < usize_bound"
  shows "\<exists>M'. M \<subseteq>\<^sub>m M' \<and> cache_ok (tlibs S) M' c' \<and> ps = map sst_name [n..<n'] \<and>
     list_all2 (\<lambda>p es. \<exists>f. map_of d' p = Some f \<and> sst_file (tlibs S) (restart_interval opt) f (put_all es [])) ps ess"
  using assms(4-11)
proof (induction ss arbitrary: n d c rngs ps M ess)
  case Nil
  then show ?case by (intro exI [of _ M]) auto
next
  case (Cons s ss)
  let ?L = "tlibs S" and ?s = "\<lparr>seg_size = 0, seg_path = seg_path s\<rparr>"
  obtain es ess' where es: "ess = es # ess'" "file_holds ?L (seg_path s) d es" "has_ext ''wal'' (seg_path s)"
    and ess': "list_all2 (\<lambda>s es. file_holds ?L (seg_path s) d es \<and> has_ext ''wal'' (seg_path s)) ss ess'"
    using Cons.prems(4) by (auto simp: list_all2_Cons1)
  have ex: "map_of d (seg_path s) \<noteq> None" using es(2) by (auto simp: file_holds_def)
  then have cl: "seg_clone s d = (?s, d)" by (auto simp: seg_clone_def seg_new_def fs_create_def)
  obtain r d2 c2 ps2 where b: "seg_build_sstable S (shd rngs) ?s opt (sst_name n) d c = Some (Inr (r, d2, c2))"
    "redo_build S opt ss (n + 1) d2 c2 (stl rngs) = Some (ps2, n', d', c', rngs')"
    and ps: "ps = (case r of None \<Rightarrow> ps2 | Some _ \<Rightarrow> sst_name n # ps2)"
    using Cons.prems(1) cl by (auto simp: bind_eq_Some_conv Let_def)
  have Ls: "fixed_ok ?L" "snappy_ok ?L" using L by (simp_all add: table_libs_ok_def)
  have ne: "es \<noteq> []" and sub: "set (put_all es []) \<subseteq> set W" using Cons.prems(5) es(1) by auto
  obtain m where m: "to_skiplist ?L (mem_table_max_height opt) (shd rngs) ?s d = Some (Inr m)" "sl_rel m (put_all es [])"
    using to_skiplist_file [OF Ls, of ?s d es] es(2) ne by auto
  have sk: "skiplist_to_sstable S m opt (sst_name n) d c = Some (Inr (r, d2, c2))"
    using b(1) m(1) by (simp add: seg_build_sstable_def)
  have d2: "sorted_kv d2 \<and> (\<forall>x. x \<noteq> sst_name n \<longrightarrow> map_of d2 x = map_of d x)"
    using skiplist_to_sstable_fs [OF sk] Cons.prems(2) by (auto simp: map_of_fs_write)
  have l2: "list_all2 (\<lambda>s es. file_holds ?L (seg_path s) d2 es \<and> has_ext ''wal'' (seg_path s)) ss ess'"
    using ess'
  proof (rule list_all2_mono)
    fix x y assume "file_holds ?L (seg_path x) d y \<and> has_ext ''wal'' (seg_path x)"
    then show "file_holds ?L (seg_path x) d2 y \<and> has_ext ''wal'' (seg_path x)"
      using d2 wal_ext_other [of "seg_path x" n] by (simp add: file_holds_def)
  qed
  have "\<forall>s \<in> set ss. map_of d2 (seg_path s) \<noteq> None \<and> has_ext ''wal'' (seg_path s)"
    using list_all2_in [OF l2] by (auto simp: file_holds_def)
  note la = redo_build_later [OF b(2) conjunct1 [OF d2] this]
  have nn: "sst_name n \<notin> sst_name ` {n + 1..<n'}"
  proof
    assume "sst_name n \<in> sst_name ` {n + 1..<n'}"
    then obtain j where "sst_name n = sst_name j" "n < j" "j < n'" by auto
    with make_file_name_inj [of n "''sst''" j "''sst''"] Cons.prems(6) show False by auto
  qed
  then have e2: "map_of d' (sst_name n) = map_of d2 (sst_name n)" using la by blast
  have fit: "\<And>f. map_of d2 (sst_name n) = Some f \<Longrightarrow> length f < usize_bound" using Cons.prems(8) e2 by auto
  have c2: "cache_id c2 < usize_bound" using la Cons.prems(7) by simp
  have pne: "put_all es [] \<noteq> []" using ne by (simp add: put_all_Nil)
  from skiplist_to_sstable_ok [OF L o W m(2) sub Cons.prems(3,2) sk fit c2] pne obtain t M1 where
    t: "r = Some (sst_name n, t)" "reader_ok ?L (restart_interval opt) M1 t (put_all es [])" "map_of d2 (sst_name n) = Some (tr_file t)"
      "cache_ok ?L M1 c2" "M \<subseteq>\<^sub>m M1" by auto
  have es5: "\<forall>es \<in> set ess'. es \<noteq> [] \<and> set (put_all es []) \<subseteq> set W" using Cons.prems(5) es(1) by simp
  from Cons.IH [OF b(2) conjunct1 [OF d2] t(4) l2 es5 Cons.prems(6-8)] obtain M' where
    ih: "M1 \<subseteq>\<^sub>m M'" "cache_ok ?L M' c'" "ps2 = map sst_name [n + 1..<n']"
     "list_all2 (\<lambda>p es. \<exists>f. map_of d' p = Some f \<and> sst_file ?L (restart_interval opt) f (put_all es [])) ps2 ess'" by blast
  have "n < n'" using la by simp
  then have "ps = map sst_name [n..<n']" using ps t(1) ih(3) by (simp add: upt_conv_Cons)
  moreover have "sst_file ?L (restart_interval opt) (tr_file t) (put_all es [])" using t(2) by (simp add: reader_ok_def)
  ultimately show ?case
    using ih ps t(1,3,5) e2 es(1) by (intro exI [of _ M']) (auto intro: map_le_trans)
qed

lemma redo_open_cache_id: "redo_open S opt ps d c = Some (rs, c') \<Longrightarrow> cache_id c \<le> cache_id c'"
  by (induction ps arbitrary: c rs) (fastforce simp: bind_eq_Some_conv dest: open_table_cache_id)+

lemma redo_open_ok:
  assumes L: "fixed_ok (tlibs S)" and W: "writes_ok W"
    and "list_all2 (\<lambda>p es. \<exists>f. map_of d p = Some f \<and> sst_file (tlibs S) I f es) ps ess"
    and "\<forall>es \<in> set ess. sorted_kv es \<and> set es \<subseteq> set W" "cache_ok (tlibs S) M c"
    and "redo_open S opt ps d c = Some (rs, c')" "cache_id c' < usize_bound"
  shows "\<exists>M'. M \<subseteq>\<^sub>m M' \<and> cache_ok (tlibs S) M' c' \<and> list_all2 (reader_ok (tlibs S) I M') rs ess \<and>
     map tr_file_name rs = ps \<and> (\<forall>r \<in> set rs. map_of d (tr_file_name r) = Some (tr_file r)) \<and> cache_id c \<le> cache_id c'"
  using assms(3-7)
proof (induction ps arbitrary: ess M c rs)
  case Nil
  then show ?case by (intro exI [of _ M]) auto
next
  case (Cons p ps)
  let ?L = "tlibs S"
  obtain es ess' f where es: "ess = es # ess'" "map_of d p = Some f" "sst_file ?L I f es"
    and ess': "list_all2 (\<lambda>p es. \<exists>f. map_of d p = Some f \<and> sst_file ?L I f es) ps ess'"
    using Cons.prems(1) by (auto simp: list_all2_Cons1)
  obtain r c1 rs1 where o: "open_table S opt p d c = Some (Inr (r, c1))" "redo_open S opt ps d c1 = Some (rs1, c')" "rs = r # rs1"
    using Cons.prems(4) by (auto simp: bind_eq_Some_conv)
  have id: "cache_id c1 = Suc (cache_id c)" using o(1) by (rule open_table_cache_id)
  have z: "zero_extension_free es" using writes_okD(4) [OF W] Cons.prems(2) es(1) by simp
  have b: "cache_id c + 1 < usize_bound" using redo_open_cache_id [OF o(2)] id Cons.prems(5) by simp
  from open_table_ok [OF es(3) z L Cons.prems(3) b es(2), of opt] o(1) obtain M1 where
    M1: "reader_ok ?L I M1 r es" "tr_file_name r = p" "tr_file r = f" "cache_ok ?L M1 c1" "M \<subseteq>\<^sub>m M1" by auto
  have e': "\<forall>es \<in> set ess'. sorted_kv es \<and> set es \<subseteq> set W" using Cons.prems(2) es(1) by simp
  from Cons.IH [OF ess' e' M1(4) o(2) Cons.prems(5)] obtain M' where
    ih: "M1 \<subseteq>\<^sub>m M'" "cache_ok ?L M' c'" "list_all2 (reader_ok ?L I M') rs1 ess'" "map tr_file_name rs1 = ps"
      "\<forall>r \<in> set rs1. map_of d (tr_file_name r) = Some (tr_file r)" "cache_id c1 \<le> cache_id c'" by blast
  then show ?case using M1 es(1,2) o(3) id
    by (intro exI [of _ M']) (auto intro: map_le_trans reader_ok_mono)
qed

lemma delete_segs_log:
  assumes "log_files L d (map seg_path (ss @ us)) (xs @ ys)" "length xs = length ss"
  shows "\<exists>d'. delete_segs ss d = Inr d' \<and> log_files L d' (map seg_path us) ys \<and>
    (\<forall>x. \<not> has_ext ''wal'' x \<longrightarrow> map_of d' x = map_of d x)"
  using assms
proof (induction ss arbitrary: d xs)
  case (Cons s ss)
  obtain es xs' where xs: "xs = es # xs'" "length xs' = length ss" using Cons.prems(2) by (cases xs) auto
  let ?p = "seg_path s" and ?d = "del_kv (seg_path s) d"
  note l = log_filesD [OF Cons.prems(1)]
  have m: "map_of ?d = (map_of d)(?p := None)" by (rule map_of_del_kv [OF l(1)])
  have p: "has_ext ''wal'' ?p" "map_of d ?p \<noteq> None" using l(5) [of ?p] by simp_all
  have r: "seg_delete s d = Inr ?d" using p(2) by (auto simp: seg_delete_def remove_file_def)
  have n: "?p \<notin> set (map seg_path (ss @ us))" using l(4) by auto
  have "list_all2 (\<lambda>p es. file_holds L p d es) (map seg_path (ss @ us)) (xs' @ ys)" using l(2) xs(1) by simp
  then have "list_all2 (\<lambda>p es. file_holds L p ?d es) (map seg_path (ss @ us)) (xs' @ ys)"
    by (rule list.rel_mono_strong) (use n in \<open>auto simp: file_holds_def m\<close>)
  moreover have "x \<in> set (map seg_path (ss @ us)) \<longleftrightarrow> has_ext ''wal'' x \<and> map_of ?d x \<noteq> None" for x
    using l(5) [of x] n by (auto simp: m)
  ultimately have "log_files L ?d (map seg_path (ss @ us)) (xs' @ ys)"
    using l(1,3) sorted_del_kv unfolding log_files_def by auto
  from Cons.IH [OF this xs(2)] obtain d' where "delete_segs ss ?d = Inr d'" "log_files L d' (map seg_path us) ys"
    "\<forall>x. \<not> has_ext ''wal'' x \<longrightarrow> map_of d' x = map_of ?d x" by blast
  then show ?case using r p(1) by (auto simp: m)
qed simp

text \<open>A directory without log files gives an empty log.\<close>

lemma wal_new_none:
  assumes "glob_ok S" "log_files L d [] []"
  shows "wal_new (glob_wal S) d = Some (\<lparr>segs = [], current_file_num = 0\<rparr>, d)"
proof -
  note l = log_filesD [OF assms(2)]
  have "distinct (map fst d)" using l(1) by (simp add: sorted_kv_def strict_sorted_iff)
  then have "set (glob_wal S d) = {x \<in> fst ` set d. has_ext ''wal'' x}" using assms(1) by (simp add: glob_ok_def)
  also have "\<dots> = {}" using l(5) by (auto simp: map_of_eq_None_iff)
  finally show ?thesis by (simp add: wal_new_def)
qed

lemma manifest_names:
  assumes "manifest_agrees m rss"
  shows "set (all_names m) = tr_file_name ` set (concat rss)"
proof -
  have "set (level_names m i) = tr_file_name ` set (if i < length rss then rss ! i else [])" for i
    using assms unfolding manifest_agrees_def by (metis mset_eq_setD set_map)
  then have "set (all_names m) = (\<Union>i < length rss. tr_file_name ` set (rss ! i))"
    unfolding all_names_levels by (auto split: if_splits)
  also have "\<dots> = tr_file_name ` set (concat rss)"
    unfolding set_concat set_conv_nth [of rss] by auto
  finally show ?thesis .
qed

text \<open>The number after the largest of the manifest is as good as the counter was.\<close>

lemma sr_inv_next_number:
  assumes "sr_inv S opt M sr d N lss"
  shows "\<exists>n. mfb_next_file_number (sr_manifest sr) = Some n \<and> (n \<le> usize_bound \<longrightarrow> sr_inv S opt M sr d n lss)"
proof -
  note v = sr_invD [OF assms]
  let ?m = "mfb_manifest (sr_manifest sr)"
  note names = manifest_names [OF v(8)]
  have "\<forall>n \<in> set (all_names ?m). \<exists>i < usize_bound. n = sst_name i"
    unfolding names
  proof (rule ballI, elim imageE)
    fix n r assume "n = tr_file_name r" "r \<in> set (concat (sr_readers sr))"
    with v(7) [of r] v(4) show "\<exists>i < usize_bound. n = sst_name i" by (auto simp: reader_stored_def intro: order.strict_trans2)
  qed
  from next_file_number_ok [OF this] obtain n where n: "next_file_number ?m = Some n"
    "\<And>i. i < usize_bound \<Longrightarrow> sst_name i \<in> set (all_names ?m) \<Longrightarrow> i < n" by auto
  have "reader_stored d n r" if r: "r \<in> set (concat (sr_readers sr))" for r
  proof -
    obtain i where i: "i < N" "tr_file_name r = sst_name i" "map_of d (tr_file_name r) = Some (tr_file r)"
      using v(7) [OF r] by (auto simp: reader_stored_def)
    have "sst_name i \<in> set (all_names ?m)" unfolding names using r i(2) by (metis imageI)
    then show ?thesis using n(2) [of i] i v(4) by (auto simp: reader_stored_def)
  qed
  then have "n \<le> usize_bound \<longrightarrow> sr_inv S opt M sr d n lss" using v unfolding sr_inv_def by blast
  then show ?thesis using n(1) by (simp add: mfb_next_file_number_def)
qed

lemma max_file_number_bound:
  "max_file_number fms m = Some r \<Longrightarrow> \<forall>fm \<in> set fms. \<forall>n. file_number fm = Some n \<longrightarrow> n < B \<Longrightarrow>
   (\<forall>x. m = Some x \<longrightarrow> x < B) \<Longrightarrow> (\<forall>x. r = Some x \<longrightarrow> x < B)"
proof (induction fms m rule: max_file_number.induct)
  case (2 fm fms m)
  from "2.prems"(1) obtain n where n: "file_number fm = Some n"
    "max_file_number fms (case m of Some x \<Rightarrow> if n > x then Some n else m | None \<Rightarrow> Some n) = Some r"
    by (auto simp: bind_eq_Some_conv)
  have "n < B" using "2.prems"(2) n(1) by simp
  then have "\<forall>x. (case m of Some x \<Rightarrow> if n > x then Some n else m | None \<Rightarrow> Some n) = Some x \<longrightarrow> x < B"
    using "2.prems"(3) by (cases m) auto
  with "2.IH" [OF n] "2.prems"(2) show ?case by simp
qed simp

lemma next_file_number_bound:
  assumes "sr_inv S opt M sr d N lss" "mfb_next_file_number (sr_manifest sr) = Some n"
  shows "n \<le> N"
proof -
  note v = sr_invD [OF assms(1)]
  let ?m = "mfb_manifest (sr_manifest sr)"
  have "file_number fm = Some i \<Longrightarrow> i < N" if fm: "fm \<in> set (concat (map file_metas (level_metas ?m)))" for fm i
  proof -
    have "file_name fm \<in> set (all_names ?m)" using fm by (auto simp: all_names_def)
    then obtain r where r: "r \<in> set (concat (sr_readers sr))" "file_name fm = tr_file_name r"
      unfolding manifest_names [OF v(8)] by auto
    then obtain j where j: "j < N" "file_name fm = sst_name j" using v(7) [OF r(1)] by (auto simp: reader_stored_def)
    then have "file_number fm = Some j" using file_number_name [of j "''sst''"] v(4) by (simp add: file_number_def)
    then show "file_number fm = Some i \<Longrightarrow> i < N" using j(1) by simp
  qed
  then show ?thesis
    using assms(2) max_file_number_bound [of "concat (map file_metas (level_metas ?m))" None _ N]
    by (fastforce simp: mfb_next_file_number_def next_file_number_def bind_eq_Some_conv split: option.splits)
qed

subsection \<open>The disk\<close>

lemma first_hit_nonempty: "first_hit (filter (\<lambda>es. es \<noteq> []) ls) = first_hit ls"
proof
  show "first_hit (filter (\<lambda>es. es \<noteq> []) ls) k = first_hit ls k" for k by (induction ls) (auto split: option.splits)
qed

lemma first_hit_prefix: "first_hit (xs @ ys @ zs) = first_hit zs \<Longrightarrow> first_hit (xs @ zs) = first_hit zs"
  by (auto simp: fun_eq_iff first_hit_append split: option.splits)

abbreviation seg_tables :: "entry list list \<Rightarrow> entry list list" where
  "seg_tables ess \<equiv> map (\<lambda>es. put_all es []) ess"

text \<open>What a start relies on: the tables the manifest lists are there, the log files hold
  \<open>ess\<close>, and both together give the history.\<close>

definition disk_inv ::
  "('f, 'c) server_libs \<Rightarrow> server_options \<Rightarrow> (bytes \<rightharpoonup> bytes) \<Rightarrow> 'f sstable_reader \<Rightarrow> fs \<Rightarrow> nat \<Rightarrow> entry list list list \<Rightarrow>
   string list \<Rightarrow> entry list list \<Rightarrow> entry list \<Rightarrow> bool" where
  "disk_inv S opt M sr d N lss ps ess W \<longleftrightarrow>
     0 < max_level opt \<and> sr_inv S opt M sr d N lss \<and> log_files (tlibs S) d ps ess \<and>
     first_hit (rev (seg_tables ess) @ tables_view lss) = map_of (rev W) \<and>
     (\<forall>es \<in> set (seg_tables ess) \<union> set (concat lss). set es \<subseteq> set W)"

lemma disk_invD:
  assumes "disk_inv S opt M sr d N lss ps ess W"
  shows "0 < max_level opt" "sr_inv S opt M sr d N lss" "log_files (tlibs S) d ps ess"
    "first_hit (rev (seg_tables ess) @ tables_view lss) = map_of (rev W)"
    "\<And>es. es \<in> set (seg_tables ess) \<union> set (concat lss) \<Longrightarrow> set es \<subseteq> set W" "0 < length lss"
  using assms by (auto simp: disk_inv_def sr_inv_def)

lemma dm_inv_disk:
  assumes inv: "dm_inv S M dm v W" and n: "current_file_num (dm_wal dm) \<le> 10 ^ 8"
  shows "disk_inv S (dm_opt dm) M (dm_readers dm) (dm_fs dm) (dm_next_file_number dm) (v_levels v)
    (map seg_path (segs (dm_wal dm))) (v_segs v) W"
proof -
  note i = dm_invD [OF inv]
  let ?T = "tables_view (v_levels v)" and ?ts = "seg_tables (v_segs v)"
  have im: "v_imm v = unflushed v @ pending v" by (simp add: unflushed_def pending_def)
  have p: "first_hit (pending v @ ?T) = first_hit ?T" using i(9) by (simp add: hist_inv_def)
  have m: "rev ?ts = (if v_segs v = [] then [] else v_mut v # unflushed v)"
    using i(7) by (auto simp: wal_inv_def rev_map [symmetric])
  have e: "v_segs v = [] \<Longrightarrow> v_mut v = [] \<and> v_imm v = []" using i(7) by (simp add: wal_inv_def)
  have "first_hit (rev ?ts @ ?T) = first_hit ((v_mut v # unflushed v) @ ?T)" using e im unfolding m by auto
  also have "\<dots> = first_hit ((v_mut v # unflushed v) @ pending v @ ?T)" by (rule first_hit_append_cong [OF p [symmetric]])
  also have "\<dots> = map_of (rev W)" using i(9) by (simp add: hist_inv_def db_view_def im)
  finally have f: "first_hit (rev ?ts @ ?T) = map_of (rev W)" .
  have "set (rev ?ts) \<subseteq> set (v_mut v # v_imm v)" unfolding m im by auto
  then have "set ?ts \<union> set (concat (v_levels v)) \<subseteq> set (v_mut v # v_imm v @ concat (v_levels v))" by (simp only: set_rev) auto
  then have "\<forall>es \<in> set ?ts \<union> set (concat (v_levels v)). set es \<subseteq> set W" using i(9) unfolding hist_inv_def by blast
  moreover have "log_files (tlibs S) (dm_fs dm) (map seg_path (segs (dm_wal dm))) (v_segs v)"
    by (rule log_files_wal [OF _ n]) (use i(7) in \<open>simp add: wal_inv_def\<close>)
  ultimately show ?thesis using i(4,8) f by (simp add: disk_inv_def)
qed

text \<open>Only the manifest, its tables and the log matter, and empty segments do not.\<close>

lemma disk_inv_frame:
  assumes v: "disk_inv S opt M sr d N lss ps ess W" and s: "sorted_kv d'" and M: "M \<subseteq>\<^sub>m M'" and N: "N \<le> N'" "N' \<le> usize_bound"
    and w: "\<And>x. has_ext ''wal'' x \<Longrightarrow> map_of d' x = map_of d x" and m: "map_of d' MANIFEST_FILENAME = map_of d MANIFEST_FILENAME"
    and t: "\<And>n. n < N \<Longrightarrow> map_of d' (sst_name n) = map_of d (sst_name n)"
  shows "disk_inv S opt M' sr d' N' lss ps ess W"
  unfolding disk_inv_def
  using disk_invD(1,4,5) [OF v] sr_inv_frame [OF disk_invD(2) [OF v] M N m t] log_files_frame [OF disk_invD(3) [OF v] s w] by blast

text \<open>When the tables have everything, the oldest segments may go.\<close>

definition covered :: "entry list list list \<Rightarrow> entry list \<Rightarrow> bool" where
  "covered lss W \<longleftrightarrow> first_hit (tables_view lss) = map_of (rev W)"

lemma disk_inv_delete:
  assumes v: "disk_inv S opt M sr d N lss (map seg_path ss) ess W" and c: "covered lss W"
  shows "\<exists>d'. delete_segs (take k ss) d = Inr d' \<and> disk_inv S opt M sr d' N lss (map seg_path (drop k ss)) (drop k ess) W \<and>
    (\<forall>x. \<not> has_ext ''wal'' x \<longrightarrow> map_of d' x = map_of d x)"
proof -
  note i = disk_invD [OF v]
  have len: "length ess = length ss" using log_filesD(2) [OF i(3)] by (auto dest: list_all2_lengthD)
  have "log_files (tlibs S) d (map seg_path (take k ss @ drop k ss)) (take k ess @ drop k ess)" using i(3) by simp
  from delete_segs_log [OF this] len obtain d' where d': "delete_segs (take k ss) d = Inr d'"
    "log_files (tlibs S) d' (map seg_path (drop k ss)) (drop k ess)" "\<And>x. \<not> has_ext ''wal'' x \<Longrightarrow> map_of d' x = map_of d x" by auto
  have nw: "\<not> has_ext ''wal'' (sst_name n)" "\<not> has_ext ''wal'' MANIFEST_FILENAME" for n using wal_ext_other by blast+
  have "sr_inv S opt M sr d' N lss"
    by (rule sr_inv_frame [OF i(2)]) (use sr_invD(4) [OF i(2)] d'(3) nw in auto)
  moreover have "rev (seg_tables ess) = rev (seg_tables (drop k ess)) @ rev (seg_tables (take k ess))"
    by (metis append_take_drop_id map_append rev_append)
  then have "first_hit (rev (seg_tables (drop k ess)) @ tables_view lss) = map_of (rev W)"
    using first_hit_prefix [of "rev (seg_tables (drop k ess))" "rev (seg_tables (take k ess))" "tables_view lss"] i(4) c
    by (simp add: covered_def)
  moreover have "set (seg_tables (drop k ess)) \<subseteq> set (seg_tables ess)" using set_drop_subset [of k ess] by auto
  ultimately have "disk_inv S opt M sr d' N lss (map seg_path (drop k ss)) (drop k ess) W"
    unfolding disk_inv_def using i(1,5) d'(2) by blast
  with d' show ?thesis by blast
qed

subsection \<open>Starting again\<close>

text \<open>The tables of the log's segments are listed on top of level 0.\<close>

abbreviation with_segs :: "entry list list list \<Rightarrow> entry list list \<Rightarrow> entry list list list" where
  "with_segs lss ess \<equiv> lss[0 := lss ! 0 @ seg_tables ess]"

lemma disk_segs:
  assumes "disk_inv S opt M sr d N lss (map seg_path ss) ess W" "\<forall>es \<in> set ess. es \<noteq> []"
  shows "list_all2 (\<lambda>s es. file_holds (tlibs S) (seg_path s) d es \<and> has_ext ''wal'' (seg_path s)) ss ess"
    "\<forall>es \<in> set ess. es \<noteq> [] \<and> set (put_all es []) \<subseteq> set W"
    "\<forall>s \<in> set ss. map_of d (seg_path s) \<noteq> None \<and> has_ext ''wal'' (seg_path s)" "length ess = length ss" "sorted_kv d"
proof -
  note i = disk_invD [OF assms(1)]
  note lf = log_filesD [OF i(3)]
  show "list_all2 (\<lambda>s es. file_holds (tlibs S) (seg_path s) d es \<and> has_ext ''wal'' (seg_path s)) ss ess"
    using lf(2) unfolding list.rel_map by (rule list.rel_mono_strong) (use lf(5) in auto)
  show "\<forall>es \<in> set ess. es \<noteq> [] \<and> set (put_all es []) \<subseteq> set W" using assms(2) i(5) by auto
  show "\<forall>s \<in> set ss. map_of d (seg_path s) \<noteq> None \<and> has_ext ''wal'' (seg_path s)" using lf(5) by auto
  show "length ess = length ss" "sorted_kv d" using list_all2_lengthD [OF lf(2)] lf(1) by simp_all
qed

text \<open>New files with numbers that were not in use change nothing.\<close>

lemma redo_build_disk:
  assumes v: "disk_inv S opt M sr d N lss (map seg_path ss) ess W" and ne: "\<forall>es \<in> set ess. es \<noteq> []" and M: "M \<subseteq>\<^sub>m M'"
    and b: "redo_build S opt ss N d c rngs = Some (ps, n, d1, c1, rngs')" and n: "n < usize_bound"
  shows "disk_inv S opt M' sr d1 n lss (map seg_path ss) ess W" "disk_inv S opt M' sr d1 N lss (map seg_path ss) ess W"
proof -
  note la = redo_build_later [OF b disk_segs(5,3) [OF v ne]]
  have s: "sorted_kv d1" and Nn: "N \<le> n" using la by simp_all
  have frame: "map_of d1 x = map_of d x" if "x \<notin> sst_name ` {N..<n}" for x using la that by blast
  show "disk_inv S opt M' sr d1 n lss (map seg_path ss) ess W" "disk_inv S opt M' sr d1 N lss (map seg_path ss) ess W"
    using n Nn by (auto intro!: disk_inv_frame [OF v s M] frame other_names old_name [OF _ n Nn])
qed

lemma redo_opens:
  assumes S: "server_libs_ok S" and o: "opt_ok opt" and W: "writes_ok W"
    and v: "disk_inv S opt M sr d N lss (map seg_path ss) ess W" and c: "cache_ok (tlibs S) M c" and ne: "\<forall>es \<in> set ess. es \<noteq> []"
    and b: "redo_build S opt ss N d c rngs = Some (ps, n, d1, c1, rngs')" and op: "redo_open S opt ps d1 c1 = Some (rs, c2)"
    and nb: "n < usize_bound" "cache_id c2 < usize_bound" "\<forall>i f. map_of d1 (sst_name i) = Some f \<longrightarrow> length f < usize_bound"
  shows "\<exists>M'. M \<subseteq>\<^sub>m M' \<and> cache_ok (tlibs S) M' c2 \<and> list_all2 (reader_ok (tlibs S) (restart_interval opt) M') rs (seg_tables ess) \<and>
    map tr_file_name rs = map sst_name [N..<n] \<and> (\<forall>r \<in> set rs. map_of d1 (tr_file_name r) = Some (tr_file r))"
proof -
  let ?L = "tlibs S" and ?I = "restart_interval opt" and ?ts = "seg_tables ess"
  note sg = disk_segs [OF v ne]
  have Ls: "table_libs_ok ?L" "fixed_ok ?L" using S by (simp_all add: server_libs_ok_def table_libs_ok_def)
  have cb: "cache_id c1 < usize_bound" using redo_open_cache_id [OF op] nb(2) by simp
  obtain M1 where M1: "M \<subseteq>\<^sub>m M1" "cache_ok ?L M1 c1" "ps = map sst_name [N..<n]"
    "list_all2 (\<lambda>p es. \<exists>f. map_of d1 p = Some f \<and> sst_file ?L ?I f (put_all es [])) ps ess"
    using redo_build_ok [OF Ls(1) o W b sg(5) c sg(1,2) nb(1) cb nb(3)] by blast
  have l2: "list_all2 (\<lambda>p es. \<exists>f. map_of d1 p = Some f \<and> sst_file ?L ?I f es) ps ?ts" using M1(4) by (simp add: list.rel_map)
  have tW: "\<forall>es \<in> set ?ts. sorted_kv es \<and> set es \<subseteq> set W" using sg(2) by (auto simp: put_all_sorted)
  from redo_open_ok [OF Ls(2) W l2 tW M1(2) op nb(2)] M1(1,3) show ?thesis by (auto intro: map_le_trans)
qed

lemma redo_lists:
  assumes S: "server_libs_ok S" and o: "opt_ok opt" and W: "writes_ok W"
    and v: "disk_inv S opt M sr d N lss (map seg_path ss) ess W" and c: "cache_ok (tlibs S) M c" and ne: "\<forall>es \<in> set ess. es \<noteq> []"
    and b: "redo_build S opt ss N d c rngs = Some (ps, n, d1, c1, rngs')" and op: "redo_open S opt ps d1 c1 = Some (rs, c2)"
    and a: "add_readers S sr 0 rs d1 = Some (Inr (sr2, d2))"
    and nb: "n < usize_bound" "cache_id c2 < usize_bound" "\<forall>i f. map_of d1 (sst_name i) = Some f \<longrightarrow> length f < usize_bound"
  shows "\<exists>M'. cache_ok (tlibs S) M' c2 \<and> disk_inv S opt M' sr2 d2 n (with_segs lss ess) (map seg_path ss) ess W \<and>
    covered (with_segs lss ess) W"
proof -
  let ?L = "tlibs S" and ?ts = "seg_tables ess"
  note i = disk_invD [OF v]
  obtain M2 where M2: "M \<subseteq>\<^sub>m M2" "cache_ok ?L M2 c2" "list_all2 (reader_ok ?L (restart_interval opt) M2) rs ?ts"
    "map tr_file_name rs = map sst_name [N..<n]" "\<forall>r \<in> set rs. map_of d1 (tr_file_name r) = Some (tr_file r)"
    using redo_opens [OF S o W v c ne b op nb] by (elim exE conjE) (rule that)
  note v1 = redo_build_disk(1) [OF v ne M2(1) b nb(1)]
  have bm: "bincode_manifest_ok S" using S by (simp add: server_libs_ok_def)
  have s1: "sorted_kv d1" using log_filesD(1) [OF disk_invD(3) [OF v1]] .
  have st: "reader_stored d1 n x" if "x \<in> set rs" for x by (rule new_names_stored [OF M2(4) that]) (use M2(5) that in blast)
  have r: "sr_inv S opt M2 sr2 d2 n (with_segs lss ess) \<and> sorted_kv d2 \<and> (\<forall>x. x \<noteq> MANIFEST_FILENAME \<longrightarrow> map_of d2 x = map_of d1 x)"
    using add_readers_ok [OF bm disk_invD(2) [OF v1] s1 i(1) M2(3) st new_names_distinct [OF i(2) nb(1) M2(4)] _ a] by auto
  have t: "tables_view (with_segs lss ess) = rev ?ts @ tables_view lss" by (rule tables_view_push [OF i(6)])
  then have cv: "covered (with_segs lss ess) W" using i(4) by (simp add: covered_def)
  have f: "first_hit (rev ?ts @ tables_view (with_segs lss ess)) = map_of (rev W)"
    unfolding t i(4) [symmetric] by (rule ext) (simp add: first_hit_append split: option.split)
  have "log_files ?L d2 (map seg_path ss) ess"
    by (rule log_files_frame [OF disk_invD(3) [OF v1]]) (use r wal_ext_other in auto)
  moreover have "set es \<subseteq> set W" if "es \<in> set (concat (with_segs lss ess))" for es
    using set_concat_update [OF that] concat_split [OF i(6)] i(5) by auto
  ultimately have "disk_inv S opt M2 sr2 d2 n (with_segs lss ess) (map seg_path ss) ess W"
    using r i(1,5) f unfolding disk_inv_def by blast
  then show ?thesis using M2(2) cv by blast
qed

text \<open>A start opens the tables and the log.\<close>

lemma dm_new_opens:
  assumes S: "server_libs_ok S" and v: "disk_inv S opt M0 sr0 d N0 lss ps ess W"
    and c: "cache_ok (tlibs S) M c" "cache_id c + length (concat lss) < usize_bound"
  obtains sr c1 M1 N ss d1 where "sr_new S opt d c = Some (Inr (sr, c1))" "mfb_next_file_number (sr_manifest sr) = Some N" "N \<le> N0"
    "wal_new (glob_wal S) d = Some (\<lparr>segs = ss, current_file_num = 0\<rparr>, d1)"
    "disk_inv S opt M1 sr d1 N lss (map seg_path ss) (filter (\<lambda>es. es \<noteq> []) ess) W" "cache_ok (tlibs S) M1 c1"
    "cache_id c1 = cache_id c + length (concat lss)" "\<And>x. \<not> has_ext ''wal'' x \<Longrightarrow> map_of d1 x = map_of d x"
proof -
  note i = disk_invD [OF v]
  let ?ess = "filter (\<lambda>es. es \<noteq> []) ess"
  have Ls: "fixed_ok (tlibs S)" "glob_ok S" using S by (simp_all add: server_libs_ok_def table_libs_ok_def)
  obtain sr c1 M1 where n: "sr_new S opt d c = Some (Inr (sr, c1))" "sr_inv S opt M1 sr d N0 lss" "cache_ok (tlibs S) M1 c1"
    "cache_id c1 = cache_id c + length (concat lss)" using sr_new_ok [OF Ls(1) i(2) c] by (elim exE conjE) (rule that)
  obtain N where N: "mfb_next_file_number (sr_manifest sr) = Some N" "N \<le> usize_bound \<longrightarrow> sr_inv S opt M1 sr d N lss"
    using sr_inv_next_number [OF n(2)] by blast
  have Nb: "N \<le> N0" by (rule next_file_number_bound [OF n(2) N(1)])
  have Nu: "N \<le> usize_bound" using Nb sr_invD(4) [OF n(2)] by simp
  obtain ss d1 where w: "wal_new (glob_wal S) d = Some (\<lparr>segs = ss, current_file_num = 0\<rparr>, d1)"
    "log_files (tlibs S) d1 (map seg_path ss) ?ess" "\<And>x. \<not> has_ext ''wal'' x \<Longrightarrow> map_of d1 x = map_of d x"
    using Ls i(3) by (rule wal_reopen) (rule that)
  have nw: "\<not> has_ext ''wal'' (sst_name n)" "\<not> has_ext ''wal'' MANIFEST_FILENAME" for n using wal_ext_other by blast+
  have "sr_inv S opt M1 sr d1 N lss"
    by (rule sr_inv_frame [OF N(2) [rule_format, OF Nu]]) (use Nu w(3) nw in auto)
  moreover have ts: "seg_tables ?ess = filter (\<lambda>es. es \<noteq> []) (seg_tables ess)" by (simp add: filter_map comp_def put_all_Nil)
  moreover have "first_hit (rev (seg_tables ?ess) @ tables_view lss) = map_of (rev W)"
    unfolding ts i(4) [symmetric] by (rule first_hit_cong_left) (simp only: rev_filter first_hit_nonempty)
  ultimately have "disk_inv S opt M1 sr d1 N lss (map seg_path ss) ?ess W"
    using i(1,5) w(2) unfolding disk_inv_def by auto
  with n N(1) Nb w show ?thesis by (intro that [of sr c1 N ss d1 M1])
qed

lemma redo_ok:
  assumes S: "server_libs_ok S" and o: "opt_ok (dm_opt dm)" and W: "writes_ok W"
    and v: "disk_inv S (dm_opt dm) M (dm_readers dm) (dm_fs dm) (dm_next_file_number dm) lss (map seg_path (segs (dm_wal dm))) ess W"
    and c: "cache_ok (tlibs S) M (dm_cache dm)" and ne: "\<forall>es \<in> set ess. es \<noteq> []" and w: "current_file_num (dm_wal dm) = 0"
    and r: "redo S dm = Some (Inr dm')" and lim: "limits dm'"
  shows "\<exists>M'. disk_inv S (dm_opt dm) M' (dm_readers dm') (dm_fs dm') (dm_next_file_number dm') (with_segs lss ess) [] [] W \<and>
     cache_ok (tlibs S) M' (dm_cache dm') \<and> dm_wal dm' = \<lparr>segs = [], current_file_num = 0\<rparr> \<and>
     dm_mut dm' = dm_mut dm \<and> dm_imm dm' = dm_imm dm \<and> dm_opt dm' = dm_opt dm \<and> dm_last_compact_keys dm' = dm_last_compact_keys dm"
proof (cases "segs (dm_wal dm) = []")
  case True
  then have "dm' = dm" using r by (simp add: redo_def seg_count_def)
  moreover have "ess = []" using log_filesD(2) [OF disk_invD(3) [OF v]] True by simp
  moreover have "dm_wal dm = \<lparr>segs = [], current_file_num = 0\<rparr>" using True w by (intro wal.equality) simp_all
  ultimately show ?thesis using v c by (intro exI [of _ M]) simp
next
  case False
  let ?ss = "segs (dm_wal dm)" and ?opt = "dm_opt dm"
  obtain ps n d1 c1 rngs rs c2 sr2 d2 d3 w d4 where
    b: "redo_build S ?opt ?ss (dm_next_file_number dm) (dm_fs dm) (dm_cache dm) (dm_rngs dm) = Some (ps, n, d1, c1, rngs)" and
    op: "redo_open S ?opt ps d1 c1 = Some (rs, c2)" and a: "add_readers S (dm_readers dm) 0 rs d1 = Some (Inr (sr2, d2))" and
    de: "delete_segs ?ss d2 = Inr d3" and wn: "wal_new (glob_wal S) d3 = Some (w, d4)" and
    dm': "dm' = dm\<lparr>dm_readers := sr2, dm_wal := w, dm_next_file_number := n, dm_fs := d4, dm_cache := c2, dm_rngs := rngs\<rparr>"
    using r False by (auto simp: redo_def seg_count_def bind_eq_Some_conv tryO_eq_Ok split: if_splits)
  have nb: "n < usize_bound" "cache_id c2 < usize_bound" "files_fit d4" using lim by (simp_all add: limits_def dm')
  note lf = log_filesD [OF disk_invD(3) [OF v]]
  have ex: "\<forall>s \<in> set ?ss. map_of (dm_fs dm) (seg_path s) \<noteq> None \<and> has_ext ''wal'' (seg_path s)" using lf(5) by auto
  note la = redo_build_later [OF b lf(1) ex]
  have s2: "sorted_kv d2 \<and> (\<forall>x. x \<noteq> MANIFEST_FILENAME \<longrightarrow> map_of d2 x = map_of d1 x)"
    using add_readers_fs [OF a] map_of_fs_write la by auto
  have "map_of d2 x = map_of (dm_fs dm) x" if "has_ext ''wal'' x" for x using s2 la wal_ext_other [OF that] by auto
  then have "log_files (tlibs S) d2 (map seg_path ?ss) ess" using s2 by (intro log_files_frame [OF disk_invD(3) [OF v]]) simp_all
  from delete_segs_log [of _ d2 ?ss "[]" ess "[]"] this list_all2_lengthD [OF lf(2)] de
  have d3: "log_files (tlibs S) d3 [] []" "\<And>x. \<not> has_ext ''wal'' x \<Longrightarrow> map_of d3 x = map_of d2 x" by auto
  have "glob_ok S" using S by (simp add: server_libs_ok_def)
  from wal_new_none [OF this d3(1)] wn have w0: "w = \<lparr>segs = [], current_file_num = 0\<rparr>" "d4 = d3" by simp_all
  have "map_of d4 (sst_name i) = map_of d1 (sst_name i)" for i
    using d3(2) [of "sst_name i"] s2 wal_ext_other [of "sst_name i"] w0(2) by auto
  then have fit: "\<forall>i f. map_of d1 (sst_name i) = Some f \<longrightarrow> length f < usize_bound" using files_fitD [OF nb(3)] by metis
  from redo_lists [OF S o W v c ne b op a nb(1,2) fit] obtain M' where M': "cache_ok (tlibs S) M' c2"
    "disk_inv S ?opt M' sr2 d2 n (with_segs lss ess) (map seg_path ?ss) ess W" "covered (with_segs lss ess) W" by blast
  from disk_inv_delete [OF M'(2,3), of "length ?ss"] de list_all2_lengthD [OF lf(2)]
  have "disk_inv S ?opt M' sr2 d3 n (with_segs lss ess) [] [] W" by simp
  then show ?thesis using M'(1) w0 by (intro exI [of _ M']) (simp add: dm')
qed

definition recovered :: "entry list list list \<Rightarrow> entry list list \<Rightarrow> view" where
  "recovered lss ess = \<lparr>v_mut = [], v_imm = [], v_pend = 0, v_levels = with_segs lss (filter (\<lambda>es. es \<noteq> []) ess), v_segs = []\<rparr>"

text \<open>A start from the files of a data manager that stopped, at any point between its steps,
  gives a data manager with the same history.\<close>

lemma disk_start_ok:
  assumes S: "server_libs_ok S" and v: "disk_inv S opt M0 sr0 d N0 lss ps ess W" and o: "opt_ok opt" and W: "writes_ok W"
    and c: "cache_ok (tlibs S) M c" "cache_id c + length (concat lss) < usize_bound"
    and r: "dm_new S opt d c rngs = Some (Inr dm')" and lim: "limits dm'"
  shows "\<exists>M'. dm_inv S M' dm' (recovered lss ess) W \<and> dm_opt dm' = opt"
proof -
  let ?ess = "filter (\<lambda>es. es \<noteq> []) ess" and ?L = "tlibs S"
  obtain sr c1 M1 N ss d1 where n: "sr_new S opt d c = Some (Inr (sr, c1))" "mfb_next_file_number (sr_manifest sr) = Some N"
    "wal_new (glob_wal S) d = Some (\<lparr>segs = ss, current_file_num = 0\<rparr>, d1)" "disk_inv S opt M1 sr d1 N lss (map seg_path ss) ?ess W"
    "cache_ok ?L M1 c1" using S v c by (rule dm_new_opens) (rule that)
  define dm0 where "dm0 = \<lparr>dm_mut = mt_new (mem_table_max_size opt) (mem_table_max_height opt) (shd rngs),
     dm_imm = ml_new (imm_mem_table_max_count opt) (mem_table_max_size opt) (mem_table_max_height opt),
     dm_readers = sr, dm_wal = \<lparr>segs = ss, current_file_num = 0\<rparr>, dm_opt = opt, dm_next_file_number = N,
     dm_last_compact_keys = [], dm_fs = d1, dm_cache = c1, dm_rngs = stl rngs\<rparr>"
  have f: "dm_opt dm0 = opt" "dm_readers dm0 = sr" "dm_fs dm0 = d1" "dm_next_file_number dm0 = N" "dm_cache dm0 = c1"
    "segs (dm_wal dm0) = ss" "current_file_num (dm_wal dm0) = 0" "dm_last_compact_keys dm0 = []"
    "mt_rel (dm_mut dm0) []" "ml_rel (dm_imm dm0) []" by (simp_all add: dm0_def)
  have re: "redo S dm0 = Some (Inr dm')" using r n(1-3) by (simp add: dm_new_def dm0_def)
  obtain M' where M': "disk_inv S opt M' (dm_readers dm') (dm_fs dm') (dm_next_file_number dm') (with_segs lss ?ess) [] [] W"
    "cache_ok ?L M' (dm_cache dm')" "dm_wal dm' = \<lparr>segs = [], current_file_num = 0\<rparr>" "dm_mut dm' = dm_mut dm0" "dm_imm dm' = dm_imm dm0"
    "dm_opt dm' = opt" "dm_last_compact_keys dm' = []"
    using redo_ok [of S dm0 W M1 lss ?ess dm', unfolded f, OF S o W n(4,5) _ refl re lim] by auto
  note i = disk_invD [OF M'(1)]
  have "hist_inv (recovered lss ess) W"
    using i(4,5) by (auto simp: hist_inv_def db_view_def pending_def recovered_def fun_eq_iff)
  moreover have "wal_inv ?L (dm_wal dm') (dm_fs dm') (recovered lss ess)"
    using wal_holds_none [OF i(3)] by (simp add: wal_inv_def M'(3)) (simp add: recovered_def)
  ultimately have "dm_inv S M' dm' (recovered lss ess) W"
    using i(1,2) log_filesD(1) [OF i(3)] M'(2-7) f(9,10) by (simp add: dm_inv_def) (simp add: recovered_def)
  then show ?thesis using M'(6) by blast
qed

lemma levels_length:
  assumes "sr_inv S opt M sr d N lss"
  shows "length (concat lss) = length (concat (sr_readers sr))"
proof -
  have "list_all2 (list_all2 (reader_ok (tlibs S) (restart_interval opt) M)) (sr_readers sr) lss"
    using sr_invD(5) [OF assms] by (simp add: levels_ok_def)
  then have "map length (sr_readers sr) = map length lss"
    by (induction rule: list_all2_induct) (auto dest: list_all2_lengthD)
  then show ?thesis by (simp add: length_concat)
qed

lemma dm_new_ok:
  assumes S: "server_libs_ok S" and inv: "dm_inv S M0 dm v W" and o: "opt_ok (dm_opt dm)" and W: "writes_ok W"
    and c: "cache_ok (tlibs S) M c" "cache_id c + length (concat (sr_readers (dm_readers dm))) < usize_bound"
    and cn: "current_file_num (dm_wal dm) \<le> 10 ^ 8"
    and r: "dm_new S (dm_opt dm) (dm_fs dm) c rngs = Some (Inr dm')" and lim: "limits dm'"
  shows "\<exists>M'. dm_inv S M' dm' (recovered (v_levels v) (v_segs v)) W \<and> dm_opt dm' = dm_opt dm"
  using disk_start_ok [OF S dm_inv_disk [OF inv cn] o W c(1) _ r lim] levels_length [OF dm_invD(8) [OF inv]] c(2) by simp

end
