(* ===== verification/Dm_System.thy ===== *)
theory Dm_System
  imports Dm_Recovery
begin

text \<open>
  The data manager with its two background threads.  A state is reached from an empty directory
  by writes, reads, the steps of the minor compaction (counting the memtables, one table per
  memtable, dropping the memtables), the two halves of the major compaction, in any order, and
  by stopping between steps and starting again from the files.  Each step is a stretch of the
  code under its locks; the locks forbid some of the orders allowed here.
\<close>

inductive reaches ::
  "('f, 'c) server_libs \<Rightarrow> server_options \<Rightarrow> ('f, 'c) data_manager \<Rightarrow> (nat \<times> nat) option \<Rightarrow> 'f swap option \<Rightarrow> entry list \<Rightarrow> bool"
  for S opt where
  Start: "cache_new (tlibs S) cap = Some c \<Longrightarrow> dm_new S opt [] c rngs = Some (Inr dm) \<Longrightarrow> reaches S opt dm None None []"
| Write: "reaches S opt dm mi ma W \<Longrightarrow> loggable (tlibs S) (k, b) \<Longrightarrow> writes_ok (W @ [(k, b)]) \<Longrightarrow>
    insert_raw S dm k b = Some (Inr (r, dm')) \<Longrightarrow> limits dm' \<Longrightarrow> reaches S opt dm' mi ma (W @ [(k, b)])"
| Read: "reaches S opt dm mi ma W \<Longrightarrow> dm_get S dm k = Some (Inr (x, dm')) \<Longrightarrow> reaches S opt dm' mi ma W"
| Minor_begin: "reaches S opt dm None ma W \<Longrightarrow> reaches S opt dm (Some (0, ml_table_count (dm_imm dm))) ma W"
| Minor_table: "reaches S opt dm (Some (i, c)) ma W \<Longrightarrow> i < c \<Longrightarrow> idx (rev (ml_tables (dm_imm dm))) i = Some t \<Longrightarrow>
    minor_one S t dm = Some (Inr dm') \<Longrightarrow> limits dm' \<Longrightarrow> reaches S opt dm' (Some (Suc i, c)) ma W"
| Minor_end: "reaches S opt dm (Some (c, c)) ma W \<Longrightarrow> reaches S opt (minor_consume c dm) None ma W"
| Major_build: "reaches S opt dm mi None W \<Longrightarrow> size_build S levels dm = Some (Inr (sw, dm')) \<Longrightarrow> limits dm' \<Longrightarrow>
    reaches S opt dm' mi sw W"
| Major_swap: "reaches S opt dm mi (Some sw) W \<Longrightarrow> size_swap S sw dm = Some (Inr dm') \<Longrightarrow> limits dm' \<Longrightarrow> reaches S opt dm' mi None W"
| Restart: "reaches S opt dm mi ma W \<Longrightarrow> cache_new (tlibs S) cap = Some c \<Longrightarrow>
    length (concat (sr_readers (dm_readers dm))) < usize_bound \<Longrightarrow>
    dm_new S opt (dm_fs dm) c rngs = Some (Inr dm') \<Longrightarrow> limits dm' \<Longrightarrow> reaches S opt dm' None None W"

subsection \<open>The first start\<close>

lemma cache_new_ok:
  assumes "lru_ok L" "cache_new L cap = Some c"
  shows "cache_ok L Map.empty c" "cache_id c = 0"
proof -
  have c: "c = \<lparr>cache_inner = lru_new L cap, cache_id = 0\<rparr>" using assms(2) by (auto simp: cache_new_def split: if_splits)
  show "cache_id c = 0" by (simp add: c)
  have "fst (lru_get L (lru_new L cap) k) = None" for k using assms(1) by (simp add: lru_ok_def)
  then show "cache_ok L Map.empty c" by (simp add: cache_ok_def cache_agrees_def c)
qed

lemma load_levels_empty:
  "mfb_manifest mb = manifest_new \<Longrightarrow> load_levels S mb opt is d c = Some (Inr (replicate (length is) [], c))"
  by (induction "is") (simp_all add: mfb_file_metas_def m_file_metas_def manifest_new_def)

definition start_view :: "server_options \<Rightarrow> view" where
  "start_view opt = \<lparr>v_mut = [], v_imm = [], v_pend = 0, v_levels = replicate (max_level opt) [], v_segs = []\<rparr>"

lemma first_hit_all_empty: "(\<forall>es \<in> set ls. es = []) \<Longrightarrow> first_hit ls = Map.empty"
proof
  show "(\<forall>es \<in> set ls. es = []) \<Longrightarrow> first_hit ls k = None" for k by (induction ls) auto
qed

lemma tables_view_empty: "tables_view (replicate n []) = []"
  by (auto simp: tables_view_def level_view_def)

lemma dm_new_empty:
  assumes g: "glob_ok S" and ml: "0 < max_level opt" and c: "cache_ok (tlibs S) M c"
  shows "\<exists>dm. dm_new S opt [] c rngs = Some (Inr dm) \<and> dm_inv S M dm (start_view opt) [] \<and> dm_opt dm = opt \<and>
     dm_cache dm = c \<and> dm_next_file_number dm = 0 \<and> dm_fs dm = [] \<and> current_file_num (dm_wal dm) = 0"
proof -
  let ?mb = "\<lparr>mfb_opt = opt, mfb_manifest = manifest_new\<rparr>"
  let ?sr = "\<lparr>sr_opt = opt, sr_readers = replicate (max_level opt) [], sr_manifest = ?mb\<rparr>"
  let ?w = "\<lparr>segs = [], current_file_num = 0\<rparr>"
  let ?dm = "\<lparr>dm_mut = mt_new (mem_table_max_size opt) (mem_table_max_height opt) (shd rngs),
     dm_imm = ml_new (imm_mem_table_max_count opt) (mem_table_max_size opt) (mem_table_max_height opt),
     dm_readers = ?sr, dm_wal = ?w, dm_opt = opt, dm_next_file_number = 0,
     dm_last_compact_keys = [], dm_fs = [], dm_cache = c, dm_rngs = stl rngs\<rparr>"
  have sr: "sr_new S opt [] c = Some (Inr (?sr, c))"
    by (simp add: sr_new_def mfb_new_def manifest_load_def load_levels_empty)
  have w: "wal_new (glob_wal S) [] = Some (?w, [])" "wal_holds (tlibs S) ?w [] []"
    using wal_new_none [OF g, of "tlibs S" "[]"] wal_holds_none [of "tlibs S" "[]"] by (simp_all add: log_files_Nil)
  have nm: "all_names manifest_new = []" by (simp add: all_names_def manifest_new_def)
  have n: "mfb_next_file_number ?mb = Some 0"
    by (simp add: mfb_next_file_number_def next_file_number_def manifest_new_def)
  have "dm_new S opt [] c rngs = Some (Inr ?dm)"
    using sr w(1) n by (simp add: dm_new_def redo_def seg_count_def)
  moreover have "sr_inv S opt M ?sr [] 0 (replicate (max_level opt) [])"
    by (auto simp: sr_inv_def levels_ok_def disjoint_sorted_def manifest_agrees_def level_names_def manifest_new_def
        manifest_load_def list_all2_conv_all_nth)
  then have "dm_inv S M ?dm (start_view opt) []"
    using c ml w(2) by (simp add: dm_inv_def start_view_def wal_inv_def hist_inv_def db_view_def pending_def
        tables_view_empty first_hit_all_empty)
  ultimately show ?thesis by (intro exI [of _ ?dm]) simp
qed

subsection \<open>A prepared swap stays prepared\<close>

lemma kept_alt: "kept rs ls ns = map snd (filter (\<lambda>p. fst p \<notin> set ns) (zip (map tr_file_name rs) ls))"
  unfolding kept_def by (induction rs ls rule: list_induct2') auto

lemma kept_names: "map tr_file_name rs' = map tr_file_name rs \<Longrightarrow> kept rs' ls ns = kept rs ls ns"
  by (simp add: kept_alt)

text \<open>The levels may be read, and level 0 may grow.\<close>

lemma swap_ok_frame:
  fixes S :: "('f, 'c) server_libs"
  assumes sw: "swap_ok S M dm v W sw" and M: "M \<subseteq>\<^sub>m M'" and opt: "dm_opt dm' = dm_opt dm" and W: "set W \<subseteq> set W'"
    and st: "\<And>r :: 'f table_reader. reader_stored (dm_fs dm) (dm_next_file_number dm) r \<Longrightarrow> reader_stored (dm_fs dm') (dm_next_file_number dm') r"
    and nm: "\<And>i. i < max_level (dm_opt dm) \<Longrightarrow> map tr_file_name (sr_readers (dm_readers dm') ! i) =
        map tr_file_name (sr_readers (dm_readers dm) ! i) @ (if i = 0 then ns else [])"
    and lv: "\<And>i. i < max_level (dm_opt dm) \<Longrightarrow> v_levels v' ! i = v_levels v ! i @ (if i = 0 then xs else [])"
    and di: "distinct (map tr_file_name (concat (sr_readers (dm_readers dm')) @ sw_readers sw))"
    and len: "\<And>i. i < max_level (dm_opt dm) \<Longrightarrow> length (sr_readers (dm_readers dm) ! i) = length (v_levels v ! i)"
  shows "swap_ok S M' dm' v' W' sw"
proof -
  define l where "l = sw_level sw"
  let ?rss = "sr_readers (dm_readers dm)" and ?lss = "v_levels v" and ?rss' = "sr_readers (dm_readers dm')" and ?lss' = "v_levels v'"
  let ?k = "kept (?rss ! Suc l) (?lss ! Suc l) (sw_names1 sw)"
  obtain a news where l: "Suc l < max_level (dm_opt dm)" and dn: "distinct (sw_names0 sw)" "distinct (sw_names1 sw)"
    and n1: "set (sw_names1 sw) \<subseteq> tr_file_name ` set (?rss ! Suc l)"
    and stored: "\<forall>r \<in> set (sw_readers sw). reader_stored (dm_fs dm) (dm_next_file_number dm) r"
    and a: "a \<le> length (?lss ! l)" "l \<noteq> 0 \<longrightarrow> a = length (?lss ! l)"
    and n0: "set (sw_names0 sw) = set (take a (map tr_file_name (?rss ! l)))"
    and rs: "list_all2 (reader_ok (tlibs S) (restart_interval (dm_opt dm)) M) (sw_readers sw) news"
    and dj: "disjoint_tables (?k @ news)" and nW: "\<forall>es \<in> set news. set es \<subseteq> set W"
    and fh: "first_hit (rev (take a (?lss ! l)) @ ?lss ! Suc l) = first_hit (news @ ?k)"
    using sw unfolding swap_ok_def Let_def l_def by blast
  have ll: "l < max_level (dm_opt dm)" using l by simp
  have e1: "map tr_file_name (?rss' ! Suc l) = map tr_file_name (?rss ! Suc l)" "?lss' ! Suc l = ?lss ! Suc l"
    using nm [OF l] lv [OF l] by simp_all
  have n1': "set (sw_names1 sw) \<subseteq> tr_file_name ` set (?rss' ! Suc l)" using n1 arg_cong [OF e1(1), of set] by simp
  have k: "kept (?rss' ! Suc l) (?lss' ! Suc l) (sw_names1 sw) = ?k" unfolding e1(2) by (rule kept_names [OF e1(1)])
  have t: "take a (map tr_file_name (?rss' ! l)) = take a (map tr_file_name (?rss ! l))" "take a (?lss' ! l) = take a (?lss ! l)"
    using nm [OF ll] lv [OF ll] len [OF ll] a(1) by simp_all
  have rs': "list_all2 (reader_ok (tlibs S) (restart_interval (dm_opt dm)) M') (sw_readers sw) news"
    using rs by (rule list_all2_mono) (rule reader_ok_mono [OF _ M])
  have stored': "\<forall>r \<in> set (sw_readers sw). reader_stored (dm_fs dm') (dm_next_file_number dm') r" using st stored by simp
  have "\<exists>a news. a \<le> length (?lss' ! l) \<and> (l \<noteq> 0 \<longrightarrow> a = length (?lss' ! l)) \<and>
      set (sw_names0 sw) = set (take a (map tr_file_name (?rss' ! l))) \<and>
      list_all2 (reader_ok (tlibs S) (restart_interval (dm_opt dm)) M') (sw_readers sw) news \<and>
      disjoint_tables (?k @ news) \<and> (\<forall>es \<in> set news. set es \<subseteq> set W') \<and>
      first_hit (rev (take a (?lss' ! l)) @ ?lss' ! Suc l) = first_hit (news @ ?k)"
    using a lv [OF ll] n0 rs' dj nW W fh t e1(2) by (intro exI [of _ a] exI [of _ news]) auto
  then show ?thesis
    unfolding swap_ok_def Let_def l_def [symmetric] k opt using l dn n1' stored' di by (intro conjI)
qed

lemma readers_length:
  assumes "dm_inv S M dm v W" "i < max_level (dm_opt dm)"
  shows "length (sr_readers (dm_readers dm) ! i) = length (v_levels v ! i)"
proof -
  note sv = sr_invD [OF dm_invD(8) [OF assms(1)]]
  show ?thesis using levels_okD(2) [OF sv(5), of i] sv(3) assms(2) by (auto dest: list_all2_lengthD)
qed

lemma reader_stored_frame:
  assumes "N \<le> N'" "\<And>n. n < N \<Longrightarrow> map_of d' (sst_name n) = map_of d (sst_name n)" "reader_stored d N r"
  shows "reader_stored d' N' r"
  using assms by (auto simp: reader_stored_def intro: order.strict_trans2)

lemma swap_ok_distinct: "swap_ok S M dm v W sw \<Longrightarrow>
    distinct (map tr_file_name (concat (sr_readers (dm_readers dm)) @ sw_readers sw)) \<and>
    (\<forall>r \<in> set (sw_readers sw). reader_stored (dm_fs dm) (dm_next_file_number dm) r)"
  by (auto simp: swap_ok_def Let_def)

text \<open>The levels as they are.\<close>

lemma swap_ok_same:
  assumes "swap_ok S M dm v W sw" "dm_opt dm' = dm_opt dm" "set W \<subseteq> set W'" "dm_inv S M dm v W"
    and "\<And>n. map_of (dm_fs dm') (sst_name n) = map_of (dm_fs dm) (sst_name n)"
    and "dm_next_file_number dm' = dm_next_file_number dm" "v_levels v' = v_levels v"
    and "map (map tr_file_name) (sr_readers (dm_readers dm')) = map (map tr_file_name) (sr_readers (dm_readers dm))"
  shows "swap_ok S M dm' v' W' sw"
proof (rule swap_ok_frame [OF assms(1) map_le_refl assms(2,3), where ns = "[]" and xs = "[]"])
  have l: "length (sr_readers (dm_readers dm')) = length (sr_readers (dm_readers dm))"
    using assms(8) by (metis length_map)
  show "map tr_file_name (sr_readers (dm_readers dm') ! i) =
      map tr_file_name (sr_readers (dm_readers dm) ! i) @ (if i = 0 then [] else [])" if "i < max_level (dm_opt dm)" for i
    using arg_cong [OF assms(8), of "\<lambda>x. x ! i"] that l sr_invD(10) [OF dm_invD(8) [OF assms(4)]] by simp
  show "distinct (map tr_file_name (concat (sr_readers (dm_readers dm')) @ sw_readers sw))"
    using swap_ok_distinct [OF assms(1)] by (simp only: map_append map_concat assms(8))
  show "reader_stored (dm_fs dm') (dm_next_file_number dm') r" if "reader_stored (dm_fs dm) (dm_next_file_number dm) r" for r
    using reader_stored_frame [OF _ assms(5) that] assms(6) by simp
  show "v_levels v' ! i = v_levels v ! i @ (if i = 0 then [] else [])" for i by (simp add: assms(7))
qed (rule readers_length [OF assms(4)])

text \<open>Level 0 gets a new table.\<close>

lemma swap_ok_push:
  assumes sw: "swap_ok S M dm v W sw" and inv: "dm_inv S M dm v W" and inv': "dm_inv S M' dm' v' W"
    and M: "M \<subseteq>\<^sub>m M'" and opt: "dm_opt dm' = dm_opt dm" and n: "dm_next_file_number dm' = Suc (dm_next_file_number dm)"
    and rs: "sr_readers (dm_readers dm') = (sr_readers (dm_readers dm))[0 := sr_readers (dm_readers dm) ! 0 @ rs]"
    and rn: "\<forall>r \<in> set rs. tr_file_name r = sst_name (dm_next_file_number dm)" and nb: "dm_next_file_number dm < usize_bound"
    and fs: "\<forall>n < dm_next_file_number dm. map_of (dm_fs dm') (sst_name n) = map_of (dm_fs dm) (sst_name n)"
    and lv: "v_levels v' = add_table es (v_levels v)"
  shows "swap_ok S M' dm' v' W sw"
proof -
  let ?N = "dm_next_file_number dm" and ?rss = "sr_readers (dm_readers dm)"
  note sv = sr_invD [OF dm_invD(8) [OF inv]] and sv' = sr_invD [OF dm_invD(8) [OF inv']]
  have len: "length ?rss = max_level (dm_opt dm)" using sv(10) .
  have lvl: "v_levels v' ! i = v_levels v ! i @ (if i = 0 then (if es = [] then [] else [es]) else [])" if "i < max_level (dm_opt dm)" for i
    using that sv(3) lv by (auto simp: add_table_def)
  have nm: "map tr_file_name (sr_readers (dm_readers dm') ! i) =
      map tr_file_name (?rss ! i) @ (if i = 0 then map tr_file_name rs else [])" if "i < max_level (dm_opt dm)" for i
    using that len rs by auto
  have st: "reader_stored (dm_fs dm') (dm_next_file_number dm') r" if "reader_stored (dm_fs dm) ?N r" for r
    using reader_stored_frame [OF _ _ that, of "dm_next_file_number dm'" "dm_fs dm'"] n fs by simp
  have swd: "distinct (map tr_file_name (sw_readers sw))" "tr_file_name ` set (concat ?rss) \<inter> tr_file_name ` set (sw_readers sw) = {}"
    and stored: "\<And>r. r \<in> set (sw_readers sw) \<Longrightarrow> reader_stored (dm_fs dm) ?N r"
    using swap_ok_distinct [OF sw] by auto
  have sub: "set (concat (sr_readers (dm_readers dm'))) \<subseteq> set (concat ?rss) \<union> set rs"
  proof
    fix x assume "x \<in> set (concat (sr_readers (dm_readers dm')))"
    then have "x \<in> set (concat ?rss) \<or> x \<in> set (?rss ! 0 @ rs)" unfolding rs by (rule set_concat_update)
    then show "x \<in> set (concat ?rss) \<union> set rs"
      using concat_split [of 0 ?rss] len dm_invD(4) [OF inv] by auto
  qed
  have ne: "tr_file_name r \<noteq> tr_file_name x" if "r \<in> set rs" "x \<in> set (sw_readers sw)" for r x
  proof -
    from that(2) obtain m where "m < ?N" "tr_file_name x = sst_name m"
      using stored [of x] by (auto simp: reader_stored_def)
    with rn \<open>r \<in> set rs\<close> make_file_name_inj [of m "''sst''" ?N "''sst''"] nb show ?thesis by auto
  qed
  have "tr_file_name ` set rs \<inter> tr_file_name ` set (sw_readers sw) = {}" using ne by blast
  then have "(tr_file_name ` (set (concat ?rss) \<union> set rs)) \<inter> tr_file_name ` set (sw_readers sw) = {}"
    using swd(2) by (simp only: image_Un Int_Un_distrib2 Un_empty)
  then have "tr_file_name ` set (concat (sr_readers (dm_readers dm'))) \<inter> tr_file_name ` set (sw_readers sw) = {}"
    using image_mono [OF sub, of tr_file_name] by blast
  then have di: "distinct (map tr_file_name (concat (sr_readers (dm_readers dm')) @ sw_readers sw))"
    using swd(1) sv'(6) by (simp only: map_append distinct_append set_map)
  show ?thesis
    by (rule swap_ok_frame [OF sw M opt subset_refl st nm lvl di]) (auto intro: readers_length [OF inv])
qed

subsection \<open>The numbers of the log's segments\<close>

text \<open>Between two starts, a write makes at most one new segment, and the first write two; so the
  number of a segment is bounded by the number of writes, which the sizes of the entries bound.\<close>

definition log_ok :: "('f, 'c) data_manager \<Rightarrow> entry list \<Rightarrow> bool" where
  "log_ok dm W \<longleftrightarrow> current_file_num (dm_wal dm) + (if segs (dm_wal dm) = [] then 1 else 0) \<le> Suc (length W)"

lemma log_okI: "current_file_num (dm_wal dm) \<le> length W \<or> current_file_num (dm_wal dm) \<le> Suc (length W) \<and> segs (dm_wal dm) \<noteq> [] \<Longrightarrow> log_ok dm W"
  by (auto simp: log_ok_def)

lemma log_ok_le: "log_ok dm W \<Longrightarrow> current_file_num (dm_wal dm) \<le> Suc (length W)"
  by (simp add: log_ok_def split: if_splits)

lemma writes_bound: "writes_ok W \<Longrightarrow> length W < 2 ^ 26"
proof -
  have "64 * length W \<le> enc_size W" by (induction W) auto
  then show "writes_ok W \<Longrightarrow> length W < 2 ^ 26" by (simp add: writes_ok_def)
qed

lemma log_bound:
  assumes "log_ok dm W" "writes_ok W"
  shows "current_file_num (dm_wal dm) \<le> 10 ^ 8" "current_file_num (dm_wal dm) + 1 < usize_bound"
  using log_ok_le [OF assms(1)] writes_bound [OF assms(2)] by simp_all

lemma view_segs: "dm_inv S M dm v W \<Longrightarrow> segs (dm_wal dm) = [] \<longleftrightarrow> v_segs v = []"
  by (auto simp: dm_inv_def wal_inv_def wal_holds_def dest: list_all2_lengthD)

lemma size_build_wal: "size_build S levels dm = Some (Inr (x, dm')) \<Longrightarrow> dm_wal dm' = dm_wal dm"
  by (auto simp: size_build_def bind_eq_Some_conv tryO_eq_Ok Let_def split: if_splits)

lemma dm_new_log: "dm_new S opt d c rngs = Some (Inr dm) \<Longrightarrow> log_ok dm W"
  by (auto simp: dm_new_def redo_def wal_new_def bind_eq_Some_conv tryO_eq_Ok Let_def log_ok_def split: if_splits)

subsection \<open>The invariant\<close>

definition sys_inv ::
  "('f, 'c) server_libs \<Rightarrow> server_options \<Rightarrow> ('f, 'c) data_manager \<Rightarrow> (nat \<times> nat) option \<Rightarrow> 'f swap option \<Rightarrow> entry list \<Rightarrow> bool" where
  "sys_inv S opt dm mi ma W \<longleftrightarrow>
     dm_opt dm = opt \<and> limits dm \<and> writes_ok W \<and> log_ok dm W \<and>
     (\<exists>M v. dm_inv S M dm v W \<and>
        (case mi of None \<Rightarrow> v_pend v = 0 | Some (i, c) \<Rightarrow> v_pend v = i \<and> i \<le> c \<and> c \<le> length (v_imm v)) \<and>
        (\<forall>sw. ma = Some sw \<longrightarrow> swap_ok S M dm v W sw))"

lemma sys_invI:
  assumes "dm_opt dm = opt" "limits dm" "writes_ok W" "dm_inv S M dm v W"
    and "case mi of None \<Rightarrow> v_pend v = 0 | Some (i, c) \<Rightarrow> v_pend v = i \<and> i \<le> c \<and> c \<le> length (v_imm v)"
    and "\<And>sw. ma = Some sw \<Longrightarrow> swap_ok S M dm v W sw" and "log_ok dm W"
  shows "sys_inv S opt dm mi ma W"
  unfolding sys_inv_def using assms by blast

lemma sys_invE:
  assumes "sys_inv S opt dm mi ma W"
  obtains M v where "dm_opt dm = opt" "limits dm" "writes_ok W" "dm_inv S M dm v W"
    "case mi of None \<Rightarrow> v_pend v = 0 | Some (i, c) \<Rightarrow> v_pend v = i \<and> i \<le> c \<and> c \<le> length (v_imm v)"
    "\<And>sw. ma = Some sw \<Longrightarrow> swap_ok S M dm v W sw" "log_ok dm W"
  using assms unfolding sys_inv_def by blast

lemma sys_inv_write:
  assumes S: "server_libs_ok S" and inv: "sys_inv S opt dm mi ma W" and lg: "loggable (tlibs S) (k, b)"
    and W: "writes_ok (W @ [(k, b)])" and r: "insert_raw S dm k b = Some (Inr (x, dm'))" and lim: "limits dm'"
  shows "sys_inv S opt dm' mi ma (W @ [(k, b)])"
proof -
  obtain M v where v: "dm_opt dm = opt" "dm_inv S M dm v W"
    "case mi of None \<Rightarrow> v_pend v = 0 | Some (i, c) \<Rightarrow> v_pend v = i \<and> i \<le> c \<and> c \<le> length (v_imm v)"
    "\<And>sw. ma = Some sw \<Longrightarrow> swap_ok S M dm v W sw" and lg0: "writes_ok W" "log_ok dm W" using inv by (rule sys_invE) (rule that)
  have L: "fixed_ok (tlibs S)" using S by (simp add: server_libs_ok_def table_libs_ok_def)
  from insert_raw_ok [OF L v(2) lg log_bound(2) [OF lg0(2,1)]] r obtain v' where v': "dm_inv S M dm' v' (W @ [(k, b)])"
    "v' \<in> {put k b v, rotate (put k b v)}" "dm_readers dm' = dm_readers dm" "dm_opt dm' = dm_opt dm"
    "dm_next_file_number dm' = dm_next_file_number dm"
    "\<And>x. \<forall>i. x \<noteq> make_file_name i ''wal'' \<Longrightarrow> map_of (dm_fs dm') x = map_of (dm_fs dm) x"
    "current_file_num (dm_wal dm') \<le> current_file_num (dm_wal dm) + (if v_segs v = [] then 2 else 1)" by auto
  have vp: "v_pend v' = v_pend v" "length (v_imm v) \<le> length (v_imm v')" "v_levels v' = v_levels v" "v_segs v' \<noteq> []"
    using v'(2) by (auto simp: put_def rotate_def split: if_splits)
  have lg': "log_ok dm' (W @ [(k, b)])"
    using lg0(2) v'(7) vp(4) view_segs [OF v(2)] view_segs [OF v'(1)] by (simp add: log_ok_def split: if_splits)
  have fs: "map_of (dm_fs dm') (sst_name n) = map_of (dm_fs dm) (sst_name n)" for n
    using wal_sst_names [symmetric] by (intro v'(6)) blast
  show ?thesis
  proof (rule sys_invI [OF _ lim W v'(1)])
    show "case mi of None \<Rightarrow> v_pend v' = 0 | Some (i, c) \<Rightarrow> v_pend v' = i \<and> i \<le> c \<and> c \<le> length (v_imm v')"
      using v(3) vp(1,2) by (auto split: option.splits)
    show "swap_ok S M dm' v' (W @ [(k, b)]) sw" if "ma = Some sw" for sw
      by (rule swap_ok_same [OF v(4) [OF that] v'(4) _ v(2) fs v'(5) vp(3)]) (auto simp: v'(3))
  qed (simp_all add: v(1) v'(4) lg')
qed

lemma sys_inv_read:
  assumes inv: "sys_inv S opt dm mi ma W" and r: "dm_get S dm k = Some (Inr (x, dm'))"
  shows "sys_inv S opt dm' mi ma W"
proof -
  obtain M v where v: "dm_opt dm = opt" "limits dm" "writes_ok W" "dm_inv S M dm v W"
    "case mi of None \<Rightarrow> v_pend v = 0 | Some (i, c) \<Rightarrow> v_pend v = i \<and> i \<le> c \<and> c \<le> length (v_imm v)"
    "\<And>sw. ma = Some sw \<Longrightarrow> swap_ok S M dm v W sw" "log_ok dm W" using inv by (rule sys_invE) (rule that)
  from dm_get_ok [OF v(4), of k] r obtain rss where g: "dm_inv S M dm' v W" "dm_fs dm' = dm_fs dm" "dm_wal dm' = dm_wal dm"
    "dm_opt dm' = dm_opt dm" "dm_next_file_number dm' = dm_next_file_number dm" "cache_id (dm_cache dm') = cache_id (dm_cache dm)"
    "same_readers rss (sr_readers (dm_readers dm))" "dm_readers dm' = (dm_readers dm)\<lparr>sr_readers := rss\<rparr>"
    by blast
  have n: "map (map tr_file_name) (sr_readers (dm_readers dm')) = map (map tr_file_name) (sr_readers (dm_readers dm))"
    using g(7) unfolding g(8) by (simp, induction rule: list_all2_induct) (auto simp: same_map)
  show ?thesis
  proof (rule sys_invI [OF _ _ v(3) g(1) v(5)])
    show "limits dm'" using v(2) g(2,3,5,6) by (simp add: limits_def)
    show "swap_ok S M dm' v W sw" if "ma = Some sw" for sw
      by (rule swap_ok_same [OF v(6) [OF that] g(4) subset_refl v(4) _ g(5) refl n]) (simp add: g(2))
  qed (use v(7) in \<open>simp_all add: v(1) g(3,4) log_ok_def\<close>)
qed

lemma next_memtable:
  assumes inv: "dm_inv S M dm v W" and t: "idx (rev (ml_tables (dm_imm dm))) (v_pend v) = Some t" and p: "v_pend v < length (v_imm v)"
  obtains us es where "unflushed v = us @ [es]" "mt_rel t es"
proof -
  have ml: "list_all2 mt_rel (ml_tables (dm_imm dm)) (v_imm v)" using dm_invD(6) [OF inv] by (simp add: ml_rel_def)
  let ?j = "length (v_imm v) - Suc (v_pend v)"
  have len: "length (ml_tables (dm_imm dm)) = length (v_imm v)" using list_all2_lengthD [OF ml] .
  have "ml_tables (dm_imm dm) ! ?j = t" using t len p by (auto simp: idx_def rev_nth split: if_splits)
  then have mt: "mt_rel t (v_imm v ! ?j)" using ml p len by (auto simp: list_all2_conv_all_nth)
  have "length (v_imm v) - v_pend v = Suc ?j" using p by simp
  then have "unflushed v = take ?j (v_imm v) @ [v_imm v ! ?j]" unfolding unflushed_def using p by (simp add: take_Suc_conv_app_nth)
  then show ?thesis using mt by (rule that)
qed

lemma sys_inv_minor_table:
  assumes S: "server_libs_ok S" and o: "opt_ok opt" and inv: "sys_inv S opt dm (Some (i, c)) ma W" and ic: "i < c"
    and t: "idx (rev (ml_tables (dm_imm dm))) i = Some t" and r: "minor_one S t dm = Some (Inr dm')" and lim: "limits dm'"
  shows "sys_inv S opt dm' (Some (Suc i, c)) ma W"
proof -
  obtain M v where v: "dm_opt dm = opt" "limits dm" "writes_ok W" "dm_inv S M dm v W"
    "case Some (i, c) of None \<Rightarrow> v_pend v = 0 | Some (i, c) \<Rightarrow> v_pend v = i \<and> i \<le> c \<and> c \<le> length (v_imm v)"
    "\<And>sw. ma = Some sw \<Longrightarrow> swap_ok S M dm v W sw" "log_ok dm W" using inv by (rule sys_invE) (rule that)
  have p: "v_pend v = i" "c \<le> length (v_imm v)" using v(5) by simp_all
  then obtain us es where u: "unflushed v = us @ [es]" and mt: "mt_rel t es" 
    using next_memtable [OF v(4), of t] t ic by auto
  have o': "opt_ok (dm_opt dm)" using o v(1) by simp
  from minor_one_ok [OF S v(4) o' v(3) u mt r lim] obtain M' rs where
    m: "M \<subseteq>\<^sub>m M'" "dm_inv S M' dm' (flushed v) W" "dm_opt dm' = dm_opt dm" "dm_next_file_number dm' = Suc (dm_next_file_number dm)"
      "sr_readers (dm_readers dm') = (sr_readers (dm_readers dm))[0 := sr_readers (dm_readers dm) ! 0 @ rs]"
      "\<forall>r \<in> set rs. tr_file_name r = sst_name (dm_next_file_number dm)"
      "\<forall>n < dm_next_file_number dm. map_of (dm_fs dm') (sst_name n) = map_of (dm_fs dm) (sst_name n)" by blast
  have nb: "dm_next_file_number dm < usize_bound" using v(2) by (simp add: limits_def)
  have "v_imm (flushed v) \<noteq> []" using p(2) ic by (auto simp: flushed_def)
  then have "v_segs (flushed v) \<noteq> []" using dm_invD(7) [OF m(2)] by (auto simp: wal_inv_def)
  moreover have "current_file_num (dm_wal dm') = current_file_num (dm_wal dm)"
  proof -
    have "wal_named (dm_wal dm)" using dm_invD(7) [OF v(4)] wal_holds_named by (auto simp: wal_inv_def wal_named_def)
    with minor_one_frame [OF dm_invD(1) [OF v(4)] _ r] show ?thesis by simp
  qed
  ultimately have lg: "log_ok dm' W" using log_ok_le [OF v(7)] view_segs [OF m(2)] by (intro log_okI) simp
  show ?thesis
  proof (rule sys_invI [OF _ lim v(3) m(2)])
    show "swap_ok S M' dm' (flushed v) W sw" if "ma = Some sw" for sw
      by (rule swap_ok_push [OF v(6) [OF that] v(4) m(2,1,3,4,5,6) nb m(7)]) (simp add: flushed_def)
  qed (use v(1) m(3) ic p lg in \<open>simp_all add: flushed_def\<close>)
qed

lemma sys_inv_minor_end:
  assumes inv: "sys_inv S opt dm (Some (c, c)) ma W"
  shows "sys_inv S opt (minor_consume c dm) None ma W"
proof -
  obtain M v where v: "dm_opt dm = opt" "limits dm" "writes_ok W" "dm_inv S M dm v W"
    "case Some (c, c) of None \<Rightarrow> v_pend v = 0 | Some (i, c) \<Rightarrow> v_pend v = i \<and> i \<le> c \<and> c \<le> length (v_imm v)"
    "\<And>sw. ma = Some sw \<Longrightarrow> swap_ok S M dm v W sw" "log_ok dm W" using inv by (rule sys_invE) (rule that)
  obtain i where i: "minor_consume c dm = dm\<lparr>dm_imm := i\<rparr>" using minor_consume_imm by blast
  obtain v' where v': "dm_inv S M (minor_consume c dm) v' W" "v_pend v' = 0" "v_levels v' = v_levels v"
    using minor_consume_ok [OF v(4), of c] v(5) by auto
  show ?thesis
  proof (rule sys_invI [OF _ _ v(3) v'(1)])
    show "swap_ok S M (minor_consume c dm) v' W sw" if "ma = Some sw" for sw
      by (rule swap_ok_same [OF v(6) [OF that] _ subset_refl v(4) _ _ v'(3)]) (simp_all add: i)
  qed (use v(1,2,7) v'(2) in \<open>simp_all add: i limits_def log_ok_def\<close>)
qed

lemma sys_inv_major:
  assumes S: "server_libs_ok S" and o: "opt_ok opt"
  shows "sys_inv S opt dm mi None W \<Longrightarrow> size_build S levels dm = Some (Inr (swo, dm')) \<Longrightarrow> limits dm' \<Longrightarrow> sys_inv S opt dm' mi swo W"
    and "sys_inv S opt dm mi (Some sw) W \<Longrightarrow> size_swap S sw dm = Some (Inr dm') \<Longrightarrow> limits dm' \<Longrightarrow> sys_inv S opt dm' mi None W"
proof -
  assume inv: "sys_inv S opt dm mi None W" and b: "size_build S levels dm = Some (Inr (swo, dm'))" and lim: "limits dm'"
  obtain M v where v: "dm_opt dm = opt" "limits dm" "writes_ok W" "dm_inv S M dm v W"
    "case mi of None \<Rightarrow> v_pend v = 0 | Some (i, c) \<Rightarrow> v_pend v = i \<and> i \<le> c \<and> c \<le> length (v_imm v)" "log_ok dm W"
    using inv by (rule sys_invE) (rule that)
  show "sys_inv S opt dm' mi swo W"
  proof (cases swo)
    case None
    then have "dm' = dm" using b by (auto simp: size_build_def bind_eq_Some_conv tryO_eq_Ok Let_def split: if_splits)
    with inv None show ?thesis by simp
  next
    case (Some sw)
    have o': "opt_ok (dm_opt dm)" using o v(1) by simp
    obtain M' where M': "dm_inv S M' dm' v W" "swap_ok S M' dm' v W sw" "dm_opt dm' = dm_opt dm"
      using size_build_ok [OF S v(4) o' v(3) b [unfolded Some] lim] by blast
    show ?thesis by (rule sys_invI [OF _ lim v(3) M'(1) v(5)]) (use v(1,6) M'(2,3) Some size_build_wal [OF b] in \<open>auto simp: log_ok_def\<close>)
  qed
next
  assume inv: "sys_inv S opt dm mi (Some sw) W" and b: "size_swap S sw dm = Some (Inr dm')" and lim: "limits dm'"
  obtain M v where v: "dm_opt dm = opt" "writes_ok W" "dm_inv S M dm v W"
    "case mi of None \<Rightarrow> v_pend v = 0 | Some (i, c) \<Rightarrow> v_pend v = i \<and> i \<le> c \<and> c \<le> length (v_imm v)"
    "swap_ok S M dm v W sw" "log_ok dm W"
    using inv by (rule sys_invE) (rule that, auto)
  have bm: "bincode_manifest_ok S" using S by (simp add: server_libs_ok_def)
  obtain lss sr d where l: "dm_inv S M dm' (v\<lparr>v_levels := lss\<rparr>) W" "dm' = dm\<lparr>dm_readers := sr, dm_fs := d\<rparr>"
    using size_swap_ok [OF bm v(3,5) b] by blast
  show "sys_inv S opt dm' mi None W"
    by (rule sys_invI [OF _ lim v(2) l(1)]) (use v(1,4,6) l(2) in \<open>auto simp: log_ok_def split: option.splits\<close>)
qed

theorem reaches_inv:
  assumes S: "server_libs_ok S" and o: "opt_ok opt" "0 < max_level opt" and r: "reaches S opt dm mi ma W"
  shows "sys_inv S opt dm mi ma W"
  using r
proof induction
  case (Start cap c rngs dm)
  have lru: "lru_ok (tlibs S)" using S by (simp add: server_libs_ok_def table_libs_ok_def)
  note c = cache_new_ok [OF lru Start(1)]
  from dm_new_empty [OF _ o(2) c(1), of rngs] Start(2) S have
    "dm_inv S Map.empty dm (start_view opt) []" "dm_opt dm = opt" "dm_cache dm = c" "dm_next_file_number dm = 0" "dm_fs dm = []"
    "current_file_num (dm_wal dm) = 0" by (auto simp: server_libs_ok_def)
  moreover have "v_pend (start_view opt) = 0" by (simp add: start_view_def)
  ultimately show ?case
    using c(2) by (intro sys_invI [where v = "start_view opt" and M = Map.empty])
      (simp_all add: limits_def files_fit_def writes_ok_def keys_nonempty_def enc_size_def log_ok_def)
next
  case (Write dm mi ma W k b r dm')
  show ?case by (rule sys_inv_write [OF S Write.IH Write(2-5)])
next
  case (Read dm mi ma W k x dm')
  then show ?case using sys_inv_read by blast
next
  case (Minor_begin dm ma W)
  obtain M v where v: "dm_opt dm = opt" "limits dm" "writes_ok W" "dm_inv S M dm v W"
    "case None of None \<Rightarrow> v_pend v = 0 | Some (i, c) \<Rightarrow> v_pend v = i \<and> i \<le> c \<and> c \<le> length (v_imm v)"
    "\<And>sw. ma = Some sw \<Longrightarrow> swap_ok S M dm v W sw" "log_ok dm W" using Minor_begin.IH by (rule sys_invE) (rule that)
  have "ml_table_count (dm_imm dm) = length (v_imm v)"
    using dm_invD(6) [OF v(4)] by (auto simp: ml_rel_def ml_table_count_def dest: list_all2_lengthD)
  then show ?case using v(5,7) by (intro sys_invI [OF v(1-4) _ v(6)]) simp_all
next
  case (Minor_table dm i c ma W t dm')
  then show ?case using sys_inv_minor_table [OF S o(1)] by blast
next
  case (Minor_end dm c ma W)
  then show ?case using sys_inv_minor_end by blast
next
  case (Major_build dm mi W levels sw dm')
  then show ?case using sys_inv_major(1) [OF S o(1)] by blast
next
  case (Major_swap dm mi sw W dm')
  then show ?case using sys_inv_major(2) [OF S o(1)] by blast
next
  case (Restart dm mi ma W cap c rngs dm')
  obtain M v where v: "dm_opt dm = opt" "limits dm" "writes_ok W" "dm_inv S M dm v W"
    and lg: "log_ok dm W" using Restart.IH by (rule sys_invE) (rule that)
  have lru: "lru_ok (tlibs S)" using S by (simp add: server_libs_ok_def table_libs_ok_def)
  note c = cache_new_ok [OF lru Restart(2)]
  have n: "cache_id c + length (concat (sr_readers (dm_readers dm))) < usize_bound" using c(2) Restart(3) by simp
  obtain M' where M': "dm_inv S M' dm' (recovered (v_levels v) (v_segs v)) W" "dm_opt dm' = opt"
    using dm_new_ok [OF S v(4) _ v(3) c(1) n log_bound(1) [OF lg v(3)]] Restart(4,5) v(1) o(1) by auto
  show ?case by (rule sys_invI [OF M'(2) Restart(5) v(3) M'(1)]) (simp_all add: recovered_def dm_new_log [OF Restart(4)])
qed

end
