(* ===== verification/Server_Instance.thy ===== *)
theory Server_Instance
  imports Lib_Instance Dm_Inv
begin

text \<open>
  A concrete instance of the crates the server relies on: a value is its fixed-width fields
  followed by its data, a manifest is nested lists in which a byte says whether another element
  follows, and the pattern \<open>*.wal\<close> filters the names.  It satisfies every hypothesis about the
  crates.
\<close>

subsection \<open>Lists\<close>

definition enc_list :: "('a \<Rightarrow> bytes) \<Rightarrow> 'a list \<Rightarrow> bytes" where
  "enc_list e xs = concat (map (\<lambda>x. 1 # e x) xs) @ [0]"

fun dec_list :: "(bytes \<Rightarrow> ('a \<times> bytes) option) \<Rightarrow> nat \<Rightarrow> bytes \<Rightarrow> ('a list \<times> bytes) option" where
  "dec_list p (Suc n) (t # r) =
     (if t = 0 then Some ([], r)
      else do { (x, q) \<leftarrow> p r; (xs, q') \<leftarrow> dec_list p n q; Some (x # xs, q') })"
| "dec_list p _ _ = None"

lemma dec_enc_list:
  assumes "\<And>x r. x \<in> set xs \<Longrightarrow> p (e x @ r) = Some (x, r)" "length xs < n"
  shows "dec_list p n (enc_list e xs @ r) = Some (xs, r)"
  using assms
proof (induction xs arbitrary: n)
  case Nil
  then show ?case by (cases n) (simp_all add: enc_list_def)
next
  case (Cons x xs)
  obtain m where n: "n = Suc m" using Cons.prems(2) by (cases n) auto
  have "dec_list p m (enc_list e xs @ r) = Some (xs, r)" using Cons n by simp
  then show ?case using Cons.prems(1) [of x "enc_list e xs @ r"] n by (simp add: enc_list_def)
qed

lemma length_enc_list: "length xs < length (enc_list e xs)"
  by (induction xs) (simp_all add: enc_list_def)

definition dec_all :: "(bytes \<Rightarrow> ('a \<times> bytes) option) \<Rightarrow> bytes \<Rightarrow> ('a list \<times> bytes) option" where
  "dec_all p bs = dec_list p (length bs) bs"

lemma dec_all_enc: "(\<And>x r. p (e x @ r) = Some (x, r)) \<Longrightarrow> dec_all p (enc_list e xs @ r) = Some (xs, r)"
  unfolding dec_all_def using length_enc_list [of xs e] by (intro dec_enc_list) auto

subsection \<open>The manifest\<close>

definition enc_char :: "char \<Rightarrow> bytes" where
  "enc_char c = [of_nat (of_char c)]"

definition dec_char :: "bytes \<Rightarrow> (char \<times> bytes) option" where
  "dec_char bs = (case bs of [] \<Rightarrow> None | b # r \<Rightarrow> Some (char_of (unat b), r))"

lemma dec_char_enc: "dec_char (enc_char c @ r) = Some (c, r)"
proof -
  have "(of_char c :: nat) < 256"
    using of_char_mod_256 [of c, where 'a = nat] by (metis mod_less_divisor zero_less_numeral)
  then have "unat (of_nat (of_char c) :: u8) = of_char c" by (simp add: unat_of_nat)
  then show ?thesis by (simp add: dec_char_def enc_char_def)
qed

definition dec_map :: "('a \<Rightarrow> 'b) \<Rightarrow> (bytes \<Rightarrow> ('a \<times> bytes) option) \<Rightarrow> bytes \<Rightarrow> ('b \<times> bytes) option" where
  "dec_map f p bs = map_option (\<lambda>(x, r). (f x, r)) (p bs)"

definition enc_manifest :: "manifest \<Rightarrow> bytes" where
  "enc_manifest m = enc_list (\<lambda>l. enc_list (\<lambda>fm. enc_list enc_char (file_name fm)) (file_metas l)) (level_metas m)"

definition dec_manifest :: "bytes \<Rightarrow> (manifest \<times> bytes) option" where
  "dec_manifest =
     dec_map (\<lambda>ls. \<lparr>level_metas = ls\<rparr>) (dec_all (dec_map (\<lambda>fs. \<lparr>file_metas = fs\<rparr>)
       (dec_all (dec_map (\<lambda>s. \<lparr>file_name = s\<rparr>) (dec_all dec_char)))))"

lemma dec_manifest_enc: "dec_manifest (enc_manifest m @ r) = Some (m, r)"
proof -
  have n: "dec_map (\<lambda>s. \<lparr>file_name = s\<rparr>) (dec_all dec_char) (enc_list enc_char (file_name fm) @ r) = Some (fm, r)" for fm r
    using dec_all_enc [of dec_char enc_char "file_name fm" r] dec_char_enc by (simp add: dec_map_def)
  have l: "dec_map (\<lambda>fs. \<lparr>file_metas = fs\<rparr>) (dec_all (dec_map (\<lambda>s. \<lparr>file_name = s\<rparr>) (dec_all dec_char)))
      (enc_list (\<lambda>fm. enc_list enc_char (file_name fm)) (file_metas l) @ r) = Some (l, r)" for l r
    using dec_all_enc [OF n, of "file_metas l" r] by (simp add: dec_map_def [of "\<lambda>fs. \<lparr>file_metas = fs\<rparr>"])
  show ?thesis
    using dec_all_enc [OF l, of "level_metas m" r]
    by (simp add: dec_manifest_def enc_manifest_def dec_map_def [of "\<lambda>ls. \<lparr>level_metas = ls\<rparr>"])
qed

subsection \<open>Values\<close>

definition enc_value :: "store_payload option \<Rightarrow> string + bytes" where
  "enc_value v =
     (case v of
        None \<Rightarrow> Inr [0]
      | Some p \<Rightarrow>
          if sp_bytes p < usize_bound
          then Inr (1 # encode_fixed32 demo_libs (sp_flags p) @ encode_fixed32 demo_libs (sp_ttl p) @
            encode_fixed64 demo_libs (of_nat (sp_bytes p)) @ encode_fixed64 demo_libs (sp_created_at p) @ sp_data p)
          else Inl ''number too large'')"

definition dec_value :: "bytes \<Rightarrow> string + store_payload option" where
  "dec_value bs =
     (case bs of
        [] \<Rightarrow> Inl ''unexpected end of file''
      | t # r \<Rightarrow>
          if t = 0 then Inr None
          else if length r < 24 then Inl ''unexpected end of file''
          else Inr (Some \<lparr>sp_data = drop 24 r, sp_flags = decode_fixed32 demo_libs (take 4 r),
            sp_ttl = decode_fixed32 demo_libs (take 4 (drop 4 r)),
            sp_bytes = unat (decode_fixed64 demo_libs (take 8 (drop 8 r))),
            sp_created_at = decode_fixed64 demo_libs (take 8 (drop 16 r))\<rparr>))"

lemma dec_value_enc: "enc_value v = Inr y \<Longrightarrow> dec_value y = Inr v"
proof (cases v)
  case (Some p)
  assume "enc_value v = Inr y"
  then have n: "sp_bytes p < usize_bound" and y: "y = 1 # encode_fixed32 demo_libs (sp_flags p) @ encode_fixed32 demo_libs (sp_ttl p) @
            encode_fixed64 demo_libs (of_nat (sp_bytes p)) @ encode_fixed64 demo_libs (sp_created_at p) @ sp_data p"
    using Some by (auto simp: enc_value_def split: if_splits)
  note f = demo_fixed_ok
  have u: "unat (of_nat (sp_bytes p) :: u64) = sp_bytes p" using n by (simp add: unat_of_nat)
  show ?thesis
    using f u by (simp add: dec_value_def y Some fixed_okD [OF f])
qed (auto simp: enc_value_def dec_value_def)

subsection \<open>The instance\<close>

definition demo_server :: "(unit, (bytes \<times> block) list) server_libs" where
  "demo_server = \<lparr>tlibs = demo_libs, serialize_value = enc_value, deserialize_value = dec_value,
     serialize_manifest = (\<lambda>m. Inr (enc_manifest m)),
     deserialize_manifest = (\<lambda>b. case dec_manifest b of None \<Rightarrow> Inl ''unexpected end of file'' | Some (m, _) \<Rightarrow> Inr m),
     glob_wal = (\<lambda>d. filter (\<lambda>n. 4 \<le> length n \<and> drop (length n - 4) n = ''.wal'') (map fst d))\<rparr>"

lemma has_ext_wal: "has_ext ''wal'' n \<longleftrightarrow> 4 \<le> length n \<and> drop (length n - 4) n = ''.wal''"
proof
  assume "4 \<le> length n \<and> drop (length n - 4) n = ''.wal''"
  then show "has_ext ''wal'' n" unfolding has_ext_def by (metis append_Cons append_Nil append_take_drop_id)
qed (auto simp: has_ext_def)

lemma demo_server_ok: "server_libs_ok demo_server"
  using demo_ok dec_value_enc dec_manifest_enc [where r = "[]"]
  by (auto simp: server_libs_ok_def table_libs_ok_def demo_server_def bincode_manifest_ok_def bincode_value_ok_def
      glob_ok_def has_ext_wal)

end
