(* ===== verification/Dm_Db.thy ===== *)
theory Dm_Db
  imports Dm_System Server_Instance
begin

text \<open>
  What the data manager promises its client: it is a map from keys to payloads, given by a
  history of insertions and removals.  The contract is a locale; the data manager of
  \<open>Dm_System\<close>, compactions and restarts included, is its instance.
\<close>

subsection \<open>The contract\<close>

type_synonym history = "(bytes \<times> store_payload option) list"

definition db_lookup :: "history \<Rightarrow> bytes \<Rightarrow> store_payload option" where
  "db_lookup H k = Option.bind (map_of (rev H) k) (\<lambda>v. v)"

lemma db_lookup_simps [simp]:
  "db_lookup [] k = None"
  "db_lookup (H @ [(k', v)]) k = (if k = k' then v else db_lookup H k)"
  by (simp_all add: db_lookup_def)

locale payload_db =
  fixes rel :: "'s \<Rightarrow> history \<Rightarrow> bool"
    and accepts :: "history \<Rightarrow> bytes \<Rightarrow> store_payload option \<Rightarrow> bool"
    and getp :: "'s \<Rightarrow> bytes \<Rightarrow> (status, store_payload option \<times> 's) fallible"
    and insp :: "'s \<Rightarrow> bytes \<Rightarrow> store_payload \<Rightarrow> (status, store_payload option \<times> 's) fallible"
    and remp :: "'s \<Rightarrow> bytes \<Rightarrow> (status, store_payload option \<times> 's) fallible"
  assumes get_law: "rel s H \<Longrightarrow> \<exists>s'. getp s k = Some (Inr (db_lookup H k, s')) \<and> rel s' H"
    and ins_law: "rel s H \<Longrightarrow> accepts H k (Some p) \<Longrightarrow> \<exists>r s'. insp s k p = Some (Inr (r, s')) \<and> rel s' (H @ [(k, Some p)])"
    and rem_law: "rel s H \<Longrightarrow> accepts H k None \<Longrightarrow>
      \<exists>s'. remp s k = Some (Inr (db_lookup H k, s')) \<and> rel s' (if db_lookup H k = None then H else H @ [(k, None)])"
begin

lemma get_after_insert:
  assumes "rel s H" "accepts H k (Some p)"
  shows "\<exists>r s1 s2. insp s k p = Some (Inr (r, s1)) \<and> getp s1 j = Some (Inr ((if j = k then Some p else db_lookup H j), s2))"
proof -
  obtain r s1 where i: "insp s k p = Some (Inr (r, s1))" "rel s1 (H @ [(k, Some p)])" using ins_law [OF assms] by blast
  obtain s2 where "getp s1 j = Some (Inr (db_lookup (H @ [(k, Some p)]) j, s2))" using get_law [OF i(2)] by blast
  with i(1) show ?thesis by auto
qed

lemma get_after_remove:
  assumes "rel s H" "accepts H k None"
  shows "\<exists>s1 s2. remp s k = Some (Inr (db_lookup H k, s1)) \<and> getp s1 j = Some (Inr ((if j = k then None else db_lookup H j), s2))"
proof -
  let ?H = "if db_lookup H k = None then H else H @ [(k, None)]"
  obtain s1 where i: "remp s k = Some (Inr (db_lookup H k, s1))" "rel s1 ?H" using rem_law [OF assms] by blast
  obtain s2 where "getp s1 j = Some (Inr (db_lookup ?H j, s2))" using get_law [OF i(2)] by blast
  moreover have "db_lookup ?H j = (if j = k then None else db_lookup H j)" by auto
  ultimately show ?thesis using i(1) by auto
qed

end

subsection \<open>The data manager\<close>

definition encoded :: "('f, 'c) server_libs \<Rightarrow> entry \<Rightarrow> bytes \<times> store_payload option \<Rightarrow> bool" where
  "encoded S e h \<longleftrightarrow> fst e = fst h \<and> serialize_value S (snd h) = Inr (snd e)"

text \<open>A state with a history, at a point of the two compactions and with room for some files, and at
  any point.\<close>

definition db_at ::
  "('f, 'c) server_libs \<Rightarrow> (nat \<times> nat) option \<Rightarrow> 'f swap option \<Rightarrow> nat \<Rightarrow> ('f, 'c) data_manager \<Rightarrow> history \<Rightarrow> bool" where
  "db_at S mi ma n dm H \<longleftrightarrow> server_libs_ok S \<and> opt_ok (dm_opt dm) \<and> 0 < max_level (dm_opt dm) \<and> room n dm \<and>
     (\<exists>W. reaches S (dm_opt dm) dm mi ma W \<and> list_all2 (encoded S) W H)"

definition db_rel :: "('f, 'c) server_libs \<Rightarrow> ('f, 'c) data_manager \<Rightarrow> history \<Rightarrow> bool" where
  "db_rel S dm H \<longleftrightarrow> (\<exists>mi ma. db_at S mi ma 0 dm H)"

text \<open>A write is accepted when the value can be encoded, the log can hold it, the keys stay
  clear of each other and of the sizes of a block.\<close>

definition db_accepts :: "('f, 'c) server_libs \<Rightarrow> history \<Rightarrow> bytes \<Rightarrow> store_payload option \<Rightarrow> bool" where
  "db_accepts S H k v \<longleftrightarrow>
     (\<exists>b. serialize_value S v = Inr b \<and> loggable (tlibs S) (k, b) \<and>
        (\<forall>W. list_all2 (encoded S) W H \<longrightarrow> writes_ok (W @ [(k, b)])))"

lemma encoded_map_of:
  "list_all2 (encoded S) W H \<Longrightarrow> bincode_value_ok S \<Longrightarrow>
   (case map_of W k of
      None \<Rightarrow> map_of H k = None
    | Some b \<Rightarrow> \<exists>v. map_of H k = Some v \<and> deserialize_value S b = Inr v)"
  by (induction rule: list_all2_induct) (auto simp: encoded_def bincode_value_ok_def split: option.splits)

lemma db_at_le: "db_at S mi ma m dm H \<Longrightarrow> n \<le> m \<Longrightarrow> db_at S mi ma n dm H"
  using room_le [of m dm n] by (auto simp: db_at_def)

lemma db_relI: "db_at S mi ma n dm H \<Longrightarrow> db_rel S dm H"
  using db_at_le [of S mi ma n dm H 0] by (auto simp: db_rel_def)

lemma db_at_reaches:
  assumes "server_libs_ok S" "opt_ok opt" "0 < max_level opt" "reaches S opt dm mi ma W" "list_all2 (encoded S) W H"
  shows "room n dm \<Longrightarrow> db_at S mi ma n dm H" "db_at S mi ma 0 dm H"
proof -
  have "dm_opt dm = opt" "limits dm" using reaches_inv [OF assms(1-4)] by (simp_all add: sys_inv_def)
  then show "room n dm \<Longrightarrow> db_at S mi ma n dm H" "db_at S mi ma 0 dm H" using assms room_0 [of dm] by (auto simp: db_at_def)
qed

lemma db_at_libs: "db_at S mi ma n dm H \<Longrightarrow> server_libs_ok S \<and> bincode_value_ok S \<and> fixed_ok (tlibs S)"
  by (auto simp: db_at_def server_libs_ok_def table_libs_ok_def)

lemma db_atE:
  assumes "db_at S mi ma n dm H"
  obtains W M v where "room n dm" "reaches S (dm_opt dm) dm mi ma W" "list_all2 (encoded S) W H" "limits dm" "dm_inv S M dm v W"
    "writes_ok W" "log_ok dm W"
proof -
  obtain W where r: "reaches S (dm_opt dm) dm mi ma W" "list_all2 (encoded S) W H"
    and n: "room n dm" using assms unfolding db_at_def by blast
  have "sys_inv S (dm_opt dm) dm mi ma W" using assms r(1) by (intro reaches_inv) (auto simp: db_at_def)
  then show ?thesis using that n r by (auto elim!: sys_invE)
qed

lemma dm_inv_get:
  assumes inv: "dm_inv S M dm v W" and S: "bincode_value_ok S" and e: "list_all2 (encoded S) W H"
  shows "\<exists>dm'. dm_get S dm k = Some (Inr (db_lookup H k, dm')) \<and> dm_opt dm' = dm_opt dm \<and>
     (\<forall>n. room n dm \<longrightarrow> room n dm')"
proof -
  have l: "case map_of (rev W) k of None \<Rightarrow> map_of (rev H) k = None
    | Some b \<Rightarrow> \<exists>v. map_of (rev H) k = Some v \<and> deserialize_value S b = Inr v"
    using encoded_map_of [of S "rev W" "rev H" k] e S by simp
  obtain dm' where g: "dm_opt dm' = dm_opt dm" "dm_next_file_number dm' = dm_next_file_number dm"
    "cache_id (dm_cache dm') = cache_id (dm_cache dm)"
    "case map_of (rev W) k of None \<Rightarrow> dm_get S dm k = Some (Inr (None, dm'))
      | Some b \<Rightarrow> (\<forall>x. deserialize_value S b = Inr x \<longrightarrow> dm_get S dm k = Some (Inr (x, dm')))"
    using dm_get_ok [OF inv, of k] by (elim exE conjE) (rule that)
  have "dm_get S dm k = Some (Inr (db_lookup H k, dm'))" using g(4) l by (auto simp: db_lookup_def split: option.splits)
  then show ?thesis using g(1-3) by (auto simp: room_def)
qed

lemma dm_get_law:
  assumes d: "db_at S mi ma n dm H"
  shows "\<exists>dm'. dm_get S dm k = Some (Inr (db_lookup H k, dm')) \<and> db_at S mi ma n dm' H"
proof -
  obtain W M v where n: "room n dm" and r: "reaches S (dm_opt dm) dm mi ma W" "list_all2 (encoded S) W H" "dm_inv S M dm v W"
    using d by (rule db_atE) (rule that)
  obtain dm' where e: "dm_get S dm k = Some (Inr (db_lookup H k, dm'))" and g: "room n dm'" "dm_opt dm' = dm_opt dm"
    using dm_inv_get [OF r(3) _ r(2), of k] db_at_libs [OF d] n by blast
  have "reaches S (dm_opt dm') dm' mi ma W" unfolding g(2) by (rule Read [OF r(1) e])
  then have "db_at S mi ma n dm' H" using d r(2) g by (auto simp: db_at_def)
  then show ?thesis using e by blast
qed

lemma insert_with_option_law:
  assumes d: "db_at S mi ma n dm H" and a: "db_accepts S H k v"
  shows "\<exists>r dm'. insert_with_option S dm k v = Some (Inr (r, dm')) \<and> db_at S mi ma n dm' (H @ [(k, v)])"
proof -
  obtain W M vw where rn: "room n dm" and r: "reaches S (dm_opt dm) dm mi ma W" "list_all2 (encoded S) W H" "limits dm" "dm_inv S M dm vw W"
    and lg: "writes_ok W" "log_ok dm W" using d by (rule db_atE) (rule that)
  obtain b where b: "serialize_value S v = Inr b" "loggable (tlibs S) (k, b)" "writes_ok (W @ [(k, b)])" using a r(2) unfolding db_accepts_def by blast
  note n = log_bound(2) [OF lg(2,1)]
  have L: "fixed_ok (tlibs S)" using db_at_libs [OF d] by blast
  obtain dm' v' where i: "insert_raw S dm k b = Some (Inr (map_of (v_mut vw) k, dm'))" "dm_inv S M dm' v' (W @ [(k, b)])"
    "dm_cache dm' = dm_cache dm" "dm_opt dm' = dm_opt dm" "dm_next_file_number dm' = dm_next_file_number dm"
    "\<forall>x. (\<forall>i. x \<noteq> make_file_name i ''wal'') \<longrightarrow> map_of (dm_fs dm') x = map_of (dm_fs dm) x"
    using insert_raw_ok [OF L r(4) b(2) n] by (elim exE conjE) (rule that)
  have ff: "files_fit (dm_fs dm')"
    by (rule files_fit_wal [OF _ dm_invD(1) [OF i(2)]]) (use r(3) i(6) in \<open>auto simp: limits_def\<close>)
  have "limits dm'"
    unfolding limits_def using ff r(3) i(3,5) by (simp add: limits_def)
  then have "reaches S (dm_opt dm') dm' mi ma (W @ [(k, b)])" unfolding i(4) by (rule Write [OF r(1) b(2,3) i(1)])
  moreover have "list_all2 (encoded S) (W @ [(k, b)]) (H @ [(k, v)])"
    using r(2) b(1) by (simp add: list_all2_appendI encoded_def)
  ultimately have "db_at S mi ma n dm' (H @ [(k, v)])" using d i(3-5) rn unfolding db_at_def by (auto simp: room_def)
  then show ?thesis using i(1) b(1) by (auto simp: insert_with_option_def)
qed

lemma dm_remove_law:
  assumes d: "db_at S mi ma n dm H" and a: "db_accepts S H k None"
  shows "\<exists>dm'. dm_remove S dm k = Some (Inr (db_lookup H k, dm')) \<and>
     db_at S mi ma n dm' (if db_lookup H k = None then H else H @ [(k, None)])"
proof -
  obtain dm1 where g: "dm_get S dm k = Some (Inr (db_lookup H k, dm1))" "db_at S mi ma n dm1 H"
    using dm_get_law [OF d] by blast
  show ?thesis
  proof (cases "db_lookup H k = None")
    case True
    then show ?thesis using g(1,2) by (simp add: dm_remove_def)
  next
    case False
    obtain r dm2 where "insert_with_option S dm1 k None = Some (Inr (r, dm2))" "db_at S mi ma n dm2 (H @ [(k, None)])"
      using insert_with_option_law [OF g(2) a] by blast
    then show ?thesis using False g(1) by (auto simp: dm_remove_def)
  qed
qed

interpretation dmat: payload_db "db_at S mi ma n" "db_accepts S" "dm_get S" "dm_insert S" "dm_remove S" for S mi ma n
proof
  show "\<exists>s'. dm_get S s k = Some (Inr (db_lookup H k, s')) \<and> db_at S mi ma n s' H"
    if "db_at S mi ma n s H" for s H k using that by (rule dm_get_law)
  show "\<exists>r s'. dm_insert S s k p = Some (Inr (r, s')) \<and> db_at S mi ma n s' (H @ [(k, Some p)])"
    if "db_at S mi ma n s H" "db_accepts S H k (Some p)" for s H k p
    using insert_with_option_law [OF that] by (simp add: dm_insert_def)
  show "\<exists>s'. dm_remove S s k = Some (Inr (db_lookup H k, s')) \<and> db_at S mi ma n s' (if db_lookup H k = None then H else H @ [(k, None)])"
    if "db_at S mi ma n s H" "db_accepts S H k None" for s H k using that by (rule dm_remove_law)
qed

text \<open>The contract holds at any point of the compactions.\<close>

interpretation dmdb: payload_db "db_rel S" "db_accepts S" "dm_get S" "dm_insert S" "dm_remove S" for S
proof
  show "\<exists>s'. dm_get S s k = Some (Inr (db_lookup H k, s')) \<and> db_rel S s' H" if "db_rel S s H" for s H k
    using that dmat.get_law unfolding db_rel_def by meson
  show "\<exists>r s'. dm_insert S s k p = Some (Inr (r, s')) \<and> db_rel S s' (H @ [(k, Some p)])"
    if "db_rel S s H" "db_accepts S H k (Some p)" for s H k p
    using that dmat.ins_law unfolding db_rel_def by meson
  show "\<exists>s'. dm_remove S s k = Some (Inr (db_lookup H k, s')) \<and> db_rel S s' (if db_lookup H k = None then H else H @ [(k, None)])"
    if "db_rel S s H" "db_accepts S H k None" for s H k
    using that dmat.rem_law unfolding db_rel_def by meson
qed

end
