(* ===== verification/Sstable_Total.thy ===== *)
theory Sstable_Total
  imports Sstable_Build
begin

text \<open>
  Building a table succeeds.  The only ways it can fail are the ways the crates below it can
  fail; \<open>crates_serve\<close> says that they do not on the keys at hand: varints grow by one byte
  every seven bits, a compressed buffer respects the documented bound of snappy, the filter
  has room for the keys, and the meta block can be serialized.
\<close>

subsection \<open>What the crates have to provide\<close>

fun cf_add_all :: "('f, 'c) libs \<Rightarrow> 'f \<Rightarrow> bytes list \<Rightarrow> string + 'f" where
  "cf_add_all L f [] = Inr f"
| "cf_add_all L f (k # ks) = (case cf_add L f k of Inl e \<Rightarrow> Inl e | Inr f' \<Rightarrow> cf_add_all L f' ks)"

definition varint_grows :: "('f, 'c) libs \<Rightarrow> bool" where
  "varint_grows L \<longleftrightarrow> (\<forall>j n. 0 < j \<longrightarrow> n < 128 ^ j \<longrightarrow> length (encode_var L n) \<le> j)"

definition snappy_bounded :: "('f, 'c) libs \<Rightarrow> bool" where
  "snappy_bounded L \<longleftrightarrow>
     (\<forall>x. length x < u32_bound \<longrightarrow> (\<exists>y. compress_vec L x = Inr y \<and> length y \<le> 32 + length x + length x div 6))"

definition filter_serves :: "('f, 'c) libs \<Rightarrow> bytes set \<Rightarrow> bool" where
  "filter_serves L K \<longleftrightarrow>
     (\<forall>ks. distinct ks \<longrightarrow> set ks \<subseteq> K \<longrightarrow>
        (\<exists>f. cf_add_all L (cf_new L) ks = Inr f \<and>
          (\<forall>mx \<in> K. \<forall>mn \<in> K. \<exists>y. serialize_meta L (mb_new mx mn (cf_export L f)) = Inr y \<and> length y < u32_bound)))"

definition crates_serve :: "('f, 'c) libs \<Rightarrow> bytes set \<Rightarrow> bool" where
  "crates_serve L K \<longleftrightarrow> varint_grows L \<and> snappy_bounded L \<and> filter_serves L K"

lemma crates_serve_mono: "crates_serve L K \<Longrightarrow> K' \<subseteq> K \<Longrightarrow> crates_serve L K'"
  unfolding crates_serve_def filter_serves_def by (meson subset_trans subsetD)

lemma cf_add_all_snoc:
  "cf_add_all L f (ks @ [k]) = (case cf_add_all L f ks of Inl e \<Rightarrow> Inl e | Inr f' \<Rightarrow> cf_add L f' k)"
  by (induction ks arbitrary: f) (auto split: sum.splits)

subsection \<open>Sizes\<close>

lemma length_finish:
  assumes "fixed_ok L" "bb_inv L I es b"
  shows "length (bb_finish L b) \<le> length (buffer b) + 4 * length es + 8"
proof -
  have "sum_list (map length (map (encode_fixed32 L) ws)) = 4 * length ws" for ws :: "u32 list"
    using assms(1) by (induction ws) simp_all
  then have "length (concat (map (encode_fixed32 L) (restarts b))) = 4 * length (restarts b)" by (simp add: length_concat)
  moreover have "(length es - 1) div I \<le> length es" using div_le_dividend [of "length es - 1" I] by linarith
  then have "length (restarts b) \<le> length es + 1" using assms(2) by (simp add: bb_inv_def restart_list_def restart_total_def)
  ultimately show ?thesis using assms(1) by (simp add: bb_finish_def)
qed

lemma bb_flush_total:
  assumes L: "fixed_ok L" "snappy_bounded L" and sz: "length (bb_finish L b) < u32_bound"
  shows "\<exists>w h b'. bb_flush L b f (length f) = Inr (f @ w, h, b') \<and> h = bh (length f) (length w) \<and>
     length w \<le> 37 + length (bb_finish L b) + length (bb_finish L b) div 6"
proof (cases "compress_type (bb_opt b)")
  case CNone
  then show ?thesis using L(1) by (simp add: bb_flush_def Let_def bb_seal_def BLOCK_CTYPE_LEN_def)
next
  case CSnappy
  obtain y where "compress_vec L (bb_finish L b) = Inr y"
    "length y \<le> 32 + length (bb_finish L b) + length (bb_finish L b) div 6"
    using L(2) sz unfolding snappy_bounded_def by blast
  then show ?thesis using L(1) CSnappy by (simp add: bb_flush_def Let_def bb_seal_def BLOCK_CTYPE_LEN_def)
qed

lemma handle_fits:
  assumes "varint_grows L" "offset h < 2 ^ 35" "bh_size h < 2 ^ 35"
  shows "length (bh_bytes L h) \<le> 10" "bh_wf h"
proof -
  have p: "(128 :: nat) ^ 5 = 2 ^ 35" by simp
  have "length (encode_var L (offset h)) \<le> 5" "length (encode_var L (bh_size h)) \<le> 5"
    using assms unfolding varint_grows_def p [symmetric] by simp_all
  then show "length (bh_bytes L h) \<le> 10" by (simp add: bh_bytes_def)
  show "bh_wf h" using assms(2,3) by (simp add: bh_wf_def)
qed

subsection \<open>Writing a data block\<close>

text \<open>The builder with its filter, and a bound on what it has written.\<close>

definition tb_total :: "('f, 'c) libs \<Rightarrow> options \<Rightarrow> 'f table_builder \<Rightarrow> tblk list \<Rightarrow> entry list \<Rightarrow> bool" where
  "tb_total L opt t bs cur \<longleftrightarrow> tb_inv L opt t bs cur \<and>
     cf_add_all L (cf_new L) (map fst (table_entries bs @ cur)) = Inr (tb_filter t) \<and>
     length (tb_file t) \<le> 2 * enc_size (table_entries bs)"

lemma write_data_block_total:
  assumes L: "table_libs_ok L" "varint_grows L" "snappy_bounded L" and I: "0 < block_restart_interval opt"
    and inv: "tb_inv L opt t bs cur" and len: "length (tb_file t) \<le> 2 * enc_size (table_entries bs)"
    and ne: "cur \<noteq> []" and nk: "fst (last cur) < nk" and so: "sorted (map fst cur)"
    and sz: "enc_size (table_entries bs @ cur) < u32_bound"
  shows "\<exists>t'. write_data_block L t nk = Some (Inr t') \<and> tb_filter t' = tb_filter t \<and>
     length (tb_file t') \<le> 2 * enc_size (table_entries bs @ cur)"
proof -
  let ?I = "block_restart_interval opt" and ?F = "length (bb_finish L (data_block t))"
  have lib: "varint_ok L" "fixed_ok L" using L(1) by (auto simp: table_libs_ok_def)
  note v = tb_invD [OF inv]
  have sc: "enc_size cur < u32_bound" using sz by simp
  have n: "1 \<le> length cur" using ne by (simp add: Suc_le_eq)
  have ok: "entries_ok cur" using sc by (intro enc_size_entries_ok) simp
  have "length (buffer (data_block t)) + 34 * length cur \<le> enc_size cur"
    using body_length_le [OF lib(1) ok order_refl, of ?I] v(5) by (simp add: bb_inv_def)
  then have F: "?F + 22 \<le> enc_size cur" using length_finish [OF lib(2) v(5)] n by linarith
  have "64 \<le> enc_size cur" using ne by (cases cur) auto
  then have b: "37 + ?F + ?F div 6 \<le> 2 * enc_size cur" using F by linarith
  obtain w h b' where fl: "bb_flush L (data_block t) (tb_file t) (length (tb_file t)) = Inr (tb_file t @ w, h, b')"
    "h = bh (length (tb_file t)) (length w)" "length w \<le> 37 + ?F + ?F div 6"
    using bb_flush_total [OF lib(2) L(3), of "data_block t" "tb_file t"] F sc by fastforce
  have h: "offset h < 2 ^ 35" "bh_size h < 2 ^ 35" using fl(2,3) b len sz by (simp_all add: bh_def)
  note hf = handle_fits [OF L(2) h]
  have enc: "bh_encode_to L h (replicate 16 0) =
      Some (bh_bytes L h @ drop (length (bh_bytes L h)) (replicate 16 0), length (bh_bytes L h))"
    using hf by (intro bh_encode_to_bytes [OF lib(1)]) simp_all
  define sep where "sep = find_shortest_sep (last_key (data_block t)) nk"
  have lk: "last_key (data_block t) = fst (last cur)" using v(5) ne by (simp add: bb_inv_def)
  have "fst (last cur) < sep" using find_shortest_sep_between [OF nk] by (simp add: sep_def lk)
  then obtain ib where ib: "bb_add L (index_block t) sep (bh_bytes L h) = Some ib"
    using bb_add_inv [OF I v(6), of sep "bh_bytes L h"] sep_above_index [OF inv ne so] by blast
  have "write_data_block L t nk =
      Some (Inr (t\<lparr>tb_file := tb_file t @ w, tb_offset := offset h + bh_size h, index_block := ib, data_block := bb_new (tb_opt t)\<rparr>))"
    using fl(1) v(4) enc ib by (simp add: write_data_block_def sep_def [symmetric] subslice_def)
  then show ?thesis using fl(3) b len by auto
qed

subsection \<open>Adding and flushing\<close>

lemma tb_add_body:
  assumes L: "table_libs_ok L" and I: "0 < block_restart_interval opt" and inv: "tb_inv L opt t bs cur"
    and srt: "cur \<noteq> [] \<Longrightarrow> fst (last cur) \<le> k"
    and sep: "bs \<noteq> [] \<Longrightarrow> cur = [] \<Longrightarrow> sep_upto (fst (last (tk_entries (last bs)))) (tk_sep (last bs)) k"
    and f: "cf_add L (tb_filter t) k = Inr f"
  shows "\<exists>db t'. bb_add L (data_block t) k v = Some db \<and> tb_inv L opt t' bs (cur @ [(k, v)]) \<and>
     t' = t\<lparr>data_block := db, tb_filter := f,
       tb_min_key := (if tb_min_key t = None then Some k else tb_min_key t), tb_max_key := Some k\<rparr>"
proof -
  obtain db where db: "bb_add L (data_block t) k v = Some db"
    using bb_add_inv [OF I tb_invD(5) [OF inv] srt, of v] by blast
  have "filter_ok L" using L by (simp add: table_libs_ok_def)
  from tb_inv_add [OF I inv this srt sep db f] db show ?thesis by blast
qed

lemma tb_add_total:
  assumes L: "table_libs_ok L" "crates_serve L K" and I: "0 < block_restart_interval opt" "8 \<le> block_size opt"
    and t: "tb_total L opt t bs cur" and ne: "cur = [] \<Longrightarrow> bs = []"
    and so: "sorted_wrt (<) (map fst (table_entries bs @ cur @ [(k, v)]))"
    and K: "fst ` set (table_entries bs @ cur @ [(k, v)]) \<subseteq> K"
    and sz: "enc_size (table_entries bs @ cur) < u32_bound"
  shows "\<exists>t' bs' cur'. tb_add L t k v = Some (Inr t') \<and> tb_total L opt t' bs' cur' \<and> cur' \<noteq> [] \<and>
     table_entries bs' @ cur' = table_entries bs @ cur @ [(k, v)]"
proof -
  let ?ks = "map fst (table_entries bs @ cur)"
  define t1 where "t1 = t\<lparr>tb_total_size_estimate := tb_total_size_estimate t + (length k + length v)\<rparr>"
  have inv: "tb_inv L opt t bs cur" and fa: "cf_add_all L (cf_new L) ?ks = Inr (tb_filter t)"
    and len: "length (tb_file t) \<le> 2 * enc_size (table_entries bs)" using t by (auto simp: tb_total_def)
  have inv1: "tb_inv L opt t1 bs cur" using inv by (simp add: t1_def)
  have cs: "varint_grows L" "snappy_bounded L" "filter_serves L K" using L(2) by (auto simp: crates_serve_def)
  have lt: "cur \<noteq> [] \<Longrightarrow> fst (last cur) < k" and sc: "sorted (map fst cur)"
    using so by (auto simp: sorted_wrt_append intro: strict_sorted_imp_sorted)
  have "distinct (map fst (table_entries bs @ cur @ [(k, v)]))" using so by (simp only: strict_sorted_iff)
  then have "distinct (?ks @ [k])" by simp
  moreover have "set (?ks @ [k]) \<subseteq> K" using K by auto
  ultimately obtain f where "cf_add_all L (cf_new L) (?ks @ [k]) = Inr f"
    using cs(3) unfolding filter_serves_def by blast
  then have f: "cf_add L (tb_filter t) k = Inr f" "cf_add_all L (cf_new L) (?ks @ [k]) = Inr f"
    using fa by (simp_all only: cf_add_all_snoc sum.case)
  show ?thesis
  proof (cases "size_estimate (data_block t1) > block_size (tb_opt t1)")
    case True
    have cne: "cur \<noteq> []"
    proof
      assume "cur = []"
      then have "size_estimate (data_block t1) = 8"
        using tb_invD(5) [OF inv1] by (simp add: size_estimate_def bb_inv_def restart_list_def restart_total_def)
      with True tb_invD(1) [OF inv1] I(2) show False by simp
    qed
    have len1: "length (tb_file t1) \<le> 2 * enc_size (table_entries bs)" using len by (simp add: t1_def)
    obtain t2 where t2: "write_data_block L t1 k = Some (Inr t2)" "tb_filter t2 = tb_filter t"
      "length (tb_file t2) \<le> 2 * enc_size (table_entries bs @ cur)"
      using write_data_block_total [OF L(1) cs(1,2) I(1) inv1 len1 cne lt [OF cne] sc sz] by (auto simp: t1_def)
    obtain b where b: "tk_entries b = cur" "sep_upto (fst (last cur)) (tk_sep b) k" "tb_inv L opt t2 (bs @ [b]) []"
      using write_data_block_inv [OF L(1) I(1) inv1 cne lt [OF cne] sc sz t2(1)] by blast
    obtain db t' where db: "bb_add L (data_block t2) k v = Some db" "tb_inv L opt t' (bs @ [b]) ([] @ [(k, v)])"
      "t' = t2\<lparr>data_block := db, tb_filter := f,
        tb_min_key := (if tb_min_key t2 = None then Some k else tb_min_key t2), tb_max_key := Some k\<rparr>"
      using tb_add_body [OF L(1) I(1) b(3), of k f v] b(1,2) f(1) t2(2) by auto
    have "tb_add L t k v = Some (Inr t')"
      using True t2(1,2) db(1,3) f(1) by (simp add: tb_add_def t1_def [symmetric])
    moreover have "tb_total L opt t' (bs @ [b]) [(k, v)]"
      using db(2,3) f(2) t2(3) b(1) by (simp add: tb_total_def)
    ultimately show ?thesis using b(1) by (intro exI [of _ t'] exI [of _ "bs @ [b]"] exI [of _ "[(k, v)]"]) simp
  next
    case False
    have k: "cur \<noteq> [] \<Longrightarrow> fst (last cur) \<le> k" using lt by (simp add: less_imp_le)
    have f1: "cf_add L (tb_filter t1) k = Inr f" using f(1) by (simp add: t1_def)
    obtain db t' where db: "bb_add L (data_block t1) k v = Some db" "tb_inv L opt t' bs (cur @ [(k, v)])"
      "t' = t1\<lparr>data_block := db, tb_filter := f,
        tb_min_key := (if tb_min_key t1 = None then Some k else tb_min_key t1), tb_max_key := Some k\<rparr>"
      using tb_add_body [OF L(1) I(1) inv1 k _ f1, of v] ne by blast
    have "tb_add L t k v = Some (Inr t')"
      using False db(1,3) f1 by (simp add: tb_add_def t1_def [symmetric])
    moreover have "tb_total L opt t' bs (cur @ [(k, v)])"
      using db(2,3) f(2) len by (simp add: tb_total_def t1_def)
    ultimately show ?thesis by (intro exI [of _ t'] exI [of _ bs] exI [of _ "cur @ [(k, v)]"]) simp
  qed
qed

lemma tb_add_all_total:
  assumes L: "table_libs_ok L" "crates_serve L K" and I: "0 < block_restart_interval opt" "8 \<le> block_size opt"
    and "tb_total L opt t bs cur" "cur = [] \<Longrightarrow> bs = []"
    and "sorted_wrt (<) (map fst (table_entries bs @ cur @ es))" "fst ` set (table_entries bs @ cur @ es) \<subseteq> K"
    and "enc_size (table_entries bs @ cur @ es) < u32_bound"
  shows "\<exists>t' bs' cur'. tb_add_all L t es = Some (Inr t') \<and> tb_total L opt t' bs' cur' \<and> (cur' = [] \<longrightarrow> bs' = []) \<and>
     table_entries bs' @ cur' = table_entries bs @ cur @ es"
  using assms(5-)
proof (induction es arbitrary: t bs cur)
  case (Cons e es)
  obtain k v where e: "e = (k, v)" by fastforce
  have so: "sorted_wrt (<) (map fst (table_entries bs @ cur @ [(k, v)]))"
    using Cons.prems(3) by (auto simp: e sorted_wrt_append)
  have K: "fst ` set (table_entries bs @ cur @ [(k, v)]) \<subseteq> K" using Cons.prems(4) by (auto simp: e)
  have sz: "enc_size (table_entries bs @ cur) < u32_bound" using Cons.prems(5) by (simp add: e)
  obtain t1 bs1 cur1 where t1: "tb_add L t k v = Some (Inr t1)" "tb_total L opt t1 bs1 cur1" "cur1 \<noteq> []"
    "table_entries bs1 @ cur1 = table_entries bs @ cur @ [(k, v)]"
    using tb_add_total [OF L I Cons.prems(1,2) so K sz] by blast
  have eq: "table_entries bs1 @ cur1 @ es = table_entries bs @ cur @ e # es"
    using t1(4) by (metis append.assoc append_Cons append_Nil e)
  show ?case using Cons.IH [OF t1(2)] t1(1,3) Cons.prems(3-5) unfolding eq by (simp add: e)
qed auto

lemma tb_flush_total:
  assumes L: "table_libs_ok L" "crates_serve L K" and I: "0 < block_restart_interval opt"
    and t: "tb_total L opt t1 bs0 cur" "cur \<noteq> []" and es: "table_entries bs0 @ cur = es"
    and so: "sorted_wrt (<) (map fst es)" and K: "fst ` set es \<subseteq> K" and sz: "enc_size es < u32_bound"
  shows "\<exists>t2. tb_flush L t1 = Some (Inr t2) \<and> length (tb_file t2) < usize_bound"
proof -
  have lib: "varint_ok L" "fixed_ok L" "varint_grows L" "snappy_bounded L" "filter_serves L K"
    using L by (auto simp: table_libs_ok_def crates_serve_def)
  have inv1: "tb_inv L opt t1 bs0 cur" and fa: "cf_add_all L (cf_new L) (map fst es) = Inr (tb_filter t1)"
    and len: "length (tb_file t1) \<le> 2 * enc_size (table_entries bs0)" using t(1) es by (auto simp: tb_total_def)
  have lk: "last_key (data_block t1) = fst (last cur)" using tb_invD(5) [OF inv1] t(2) by (simp add: bb_inv_def)
  have sc: "sorted (map fst cur)" using so es by (metis map_append sorted_wrt_append strict_sorted_imp_sorted)
  have sz1: "enc_size (table_entries bs0 @ cur) < u32_bound" using sz es by simp
  obtain t where w: "write_data_block L t1 (find_short_succ (fst (last cur))) = Some (Inr t)" "tb_filter t = tb_filter t1"
    "length (tb_file t) \<le> 2 * enc_size es"
    using write_data_block_total [OF L(1) lib(3,4) I inv1 len t(2) find_short_succ_greater sc sz1] es by auto
  obtain b where b: "tk_entries b = cur" "tb_inv L opt t (bs0 @ [b]) []"
    using write_data_block_inv [OF L(1) I inv1 t(2) find_short_succ_greater sc sz1 w(1)] by blast
  note v = tb_invD [OF b(2)]
  have te: "table_entries (bs0 @ [b]) = es" using b(1) es by simp
  have ne: "es \<noteq> []" using es t(2) by auto
  define mx mn where "mx = fst (last es)" and "mn = fst (hd es)"
  have mm: "tb_max_key t = Some mx" "tb_min_key t = Some mn" using v(12,13) ne unfolding te by (simp_all add: mx_def mn_def)
  have "mx \<in> K" "mn \<in> K" using K ne by (auto simp: mx_def mn_def)
  moreover have "distinct (map fst es)" using so by (simp only: strict_sorted_iff)
  ultimately obtain y where y: "serialize_meta L (mb_new mx mn (cf_export L (tb_filter t))) = Inr y" "length y < u32_bound"
    using lib(5) fa K w(2) unfolding filter_serves_def by (metis set_map sum.inject(2))
  obtain z where z: "compress_vec L y = Inr z" "length z \<le> 32 + length y + length y div 6"
    using lib(4) y(2) unfolding snappy_bounded_def by blast
  let ?f = "tb_file t @ z"
  let ?F = "length (bb_finish L (index_block t))"
  have mf: "mb_flush L (mb_new mx mn (cf_export L (tb_filter t))) (tb_file t) (tb_offset t) =
      Inr (?f, bh (length (tb_file t)) (length z), mb_reset (mb_new mx mn (cf_export L (tb_filter t))))"
    using y(1) z(1) v(4) by (simp add: mb_flush_def)
  have "enc_size (table_entries (bs0 @ [b])) < u32_bound" using sz te by simp
  note ib = index_buffer [OF lib(1) b(2) this]
  have "?F \<le> length (buffer (index_block t)) + 4 * length (bs0 @ [b]) + 8"
    using length_finish [OF lib(2) v(6)] by (simp add: index_entries_def)
  then have F: "?F < u32_bound" using ib(2) [unfolded te] sz by simp
  obtain w2 h b' where bf: "bb_flush L (index_block t) ?f (length ?f) = Inr (?f @ w2, h, b')" "h = bh (length ?f) (length w2)"
    "length w2 \<le> 37 + ?F + ?F div 6"
    using bb_flush_total [OF lib(2,4) F, of ?f] by blast
  let ?ft = "\<lparr>meta_index = bh (length (tb_file t)) (length z), footer_index = h\<rparr>"
  have small: "length (tb_file t) < 2 ^ 33" "length z < 2 ^ 34" "length w2 < 2 ^ 34"
    using w(3) sz z(2) y(2) bf(3) F by simp_all
  have wf: "footer_wf ?ft" using small bf(2) by (simp add: footer_wf_def bh_wf_def bh_def)
  have "tb_flush L t1 = Some (Inr (t\<lparr>tb_file := (?f @ w2) @ footer_bytes L ?ft, tb_offset := offset h + bh_size h, index_block := b'\<rparr>))"
    using w(1) mm mf bf(1) footer_encode_bytes [OF lib(1) wf]
    by (simp add: tb_flush_def lk bh_def Let_def footer_flush_def)
  moreover have "length ((?f @ w2) @ footer_bytes L ?ft) < usize_bound"
    using small length_footer_bytes [OF lib(1) wf] by (simp add: FULL_FOOTER_LENGTH_def FOOTER_LENGTH_def)
  ultimately show ?thesis by auto
qed

text \<open>A table of sorted entries can always be built.\<close>

lemma build_total:
  assumes L: "table_libs_ok L" "crates_serve L K" and I: "0 < block_restart_interval opt" "8 \<le> block_size opt"
    and so: "sorted_wrt (<) (map fst es)" and ne: "es \<noteq> []" and K: "fst ` set es \<subseteq> K" and sz: "enc_size es < u32_bound"
  shows "\<exists>t1 t2. tb_add_all L (tb_new L path opt) es = Some (Inr t1) \<and> tb_flush L t1 = Some (Inr t2) \<and>
     length (tb_file t2) < usize_bound"
proof -
  have t0: "tb_total L opt (tb_new L path opt) [] []"
    using tb_inv_new [OF I(1)] by (simp add: tb_total_def table_entries_def tb_new_def)
  obtain t1 bs cur where t1: "tb_add_all L (tb_new L path opt) es = Some (Inr t1)" "tb_total L opt t1 bs cur"
    "cur = [] \<longrightarrow> bs = []" "table_entries bs @ cur = es"
    using tb_add_all_total [OF L I t0, of es] so K sz by (auto simp: table_entries_def)
  have cur: "cur \<noteq> []" using t1(3,4) ne by (auto simp: table_entries_def)
  from tb_flush_total [OF L I(1) t1(2) cur t1(4) so K sz] t1(1) show ?thesis by blast
qed

end
