(* ===== verification/Dm_Total.thy ===== *)
theory Dm_Total
  imports Dm_System Sstable_Total
begin

text \<open>
  The operations of the data manager succeed: when the crates serve the keys that were written
  and the counters have room, the minor compaction writes its tables and drops the memtables
  it wrote.
\<close>

subsection \<open>What is needed\<close>

definition server_serves :: "('f, 'c) server_libs \<Rightarrow> entry list \<Rightarrow> bool" where
  "server_serves S W \<longleftrightarrow> crates_serve (tlibs S) (fst ` set W) \<and> (\<forall>m. \<exists>y. serialize_manifest S m = Inr y)"

lemma server_servesD:
  assumes "server_serves S W"
  shows "crates_serve (tlibs S) (fst ` set W)" "\<And>mb d. \<exists>y. mfb_flush S mb d = Some (Inr (fs_write MANIFEST_FILENAME y d))"
proof -
  show "\<exists>y. mfb_flush S mb d = Some (Inr (fs_write MANIFEST_FILENAME y d))" for mb d
  proof -
    obtain y where "serialize_manifest S (mfb_manifest mb) = Inr y" using assms unfolding server_serves_def by blast
    then show ?thesis by (auto simp: mfb_flush_def)
  qed
qed (use assms in \<open>simp add: server_serves_def\<close>)

lemma files_fit_write:
  assumes "files_fit d" "sorted_kv d" "drop (length n - 4) n = ''.sst'' \<Longrightarrow> length f < usize_bound"
  shows "files_fit (fs_write n f d)"
proof -
  have "set (ins_kv n f d) \<subseteq> insert (n, f) (set d)"
    by (induction n f d rule: ins_kv.induct) auto
  then show ?thesis using assms(1,3) unfolding files_fit_def fs_write_def by fastforce
qed

lemma manifest_not_sst: "drop (length MANIFEST_FILENAME - 4) MANIFEST_FILENAME \<noteq> ''.sst''"
  by (simp add: MANIFEST_FILENAME_def)

subsection \<open>Tables\<close>

lemma build_table_total:
  assumes S: "server_libs_ok S" "server_serves S W" and o: "opt_ok opt" and W: "writes_ok W"
    and es: "sorted_kv es" "set es \<subseteq> set W" "es \<noteq> []"
  shows "\<exists>t1 t2. tb_add_all (tlibs S) (tb_new (tlibs S) path (table_opt opt)) es = Some (Inr t1) \<and>
     tb_flush (tlibs S) t1 = Some (Inr t2) \<and> length (tb_file t2) < usize_bound"
proof -
  have L: "table_libs_ok (tlibs S)" using S(1) by (simp add: server_libs_ok_def)
  have I: "0 < block_restart_interval (table_opt opt)" "8 \<le> block_size (table_opt opt)" using o by (auto simp: opt_ok_def)
  note w = writes_okD [OF W es(1,2)]
  have K: "fst ` set es \<subseteq> fst ` set W" using es(2) by blast
  show ?thesis by (rule build_total [OF L server_servesD(1) [OF S(2)] I w(1) es(3) K w(3)])
qed

lemma skiplist_to_sstable_total:
  fixes m :: "(bytes, bytes, 'g) skiplist"
  assumes S: "server_libs_ok S" "server_serves S W" and o: "opt_ok opt" and W: "writes_ok W"
    and m: "sl_rel m es" "set es \<subseteq> set W" and c: "cache_ok (tlibs S) M c" "cache_id c + 1 < usize_bound" and d: "sorted_kv d"
  shows "\<exists>x d' c'. skiplist_to_sstable S m opt path d c = Some (Inr (x, d', c')) \<and> cache_id c' \<le> cache_id c + 1 \<and>
     (d' = d \<or> (\<exists>f. length f < usize_bound \<and> d' = fs_write path f d))"
proof (cases "es = []")
  case True
  then have "slen m = 0" using m(1) sl_rel_length [of m es] by simp
  then show ?thesis by (simp add: skiplist_to_sstable_def)
next
  case False
  have L: "table_libs_ok (tlibs S)" "fixed_ok (tlibs S)" using S(1) by (simp_all add: server_libs_ok_def table_libs_ok_def)
  have n: "slen m \<noteq> 0" using False m(1) sl_rel_length [of m es] by simp
  have it: "sl_iter m = Some es" by (rule iter_ok [OF m(1)])
  have so: "sorted_kv es" by (rule sl_rel_sorted [OF m(1)])
  obtain t1 t2 where t: "tb_add_all (tlibs S) (tb_new (tlibs S) path (table_opt opt)) es = Some (Inr t1)"
    "tb_flush (tlibs S) t1 = Some (Inr t2)" "length (tb_file t2) < usize_bound"
    using build_table_total [OF S o W so m(2) False] by blast
  have f: "sst_file (tlibs S) (restart_interval opt) (tb_file t2) es" by (rule built_sst_file [OF L(1) o W so m(2) False t])
  have "map_of (fs_write path (tb_file t2) d) path = Some (tb_file t2)" using d by (simp add: fs_write_def map_of_ins_kv)
  from open_table_ok [OF f writes_okD(4) [OF W so m(2)] L(2) c this, of opt] obtain r where
    "open_table S opt path (fs_write path (tb_file t2) d) c = Some (Inr (r, snd (new_cache_id c)))" by blast
  then show ?thesis using n it t by (auto simp: skiplist_to_sstable_def Let_def new_cache_id_def)
qed

subsection \<open>Readers\<close>

lemma add_readers_total:
  assumes S: "server_serves S W" and inv: "sr_inv S opt M sr d N lss" and l: "l < max_level opt"
    and rs: "list_all2 (reader_ok (tlibs S) (restart_interval opt) M) rs es"
  shows "\<exists>sr' y. add_readers S sr l rs d = Some (Inr (sr', fs_write MANIFEST_FILENAME y d))"
proof -
  note v = sr_invD [OF inv]
  note lv = levels_okD [OF v(5)]
  have ll: "l < length lss" using l v(3) by simp
  have sl: "l \<noteq> 0 \<Longrightarrow> sorted (map (fst \<circ> hd) (lss ! l))"
    using disjoint_tables_sorted(2) [OF tables_ok_readers [OF lv(2) [OF ll]] lv(3) [OF ll]] by simp
  from push_readers_ok [OF l v(10,2) lv(2) [OF ll] rs sl] obtain sr' where p: "push_readers sr l rs = Some sr'" by blast
  obtain y where "mfb_flush S (sr_manifest sr') d = Some (Inr (fs_write MANIFEST_FILENAME y d))"
    using server_servesD(2) [OF S] by blast
  then show ?thesis using p l v(1) by (auto simp: add_readers_def)
qed

lemma names_stored:
  assumes inv: "sr_inv S opt M sr d N lss" and l: "l < max_level opt" and n: "x \<in> tr_file_name ` set (sr_readers sr ! l)"
  shows "x \<noteq> MANIFEST_FILENAME" "map_of d x \<noteq> None"
proof -
  note v = sr_invD [OF inv]
  from n obtain r where r: "r \<in> set (sr_readers sr ! l)" "x = tr_file_name r" by auto
  then have "reader_stored d N r" using v(7,10) l nth_mem by fastforce
  with r(2) show "x \<noteq> MANIFEST_FILENAME" "map_of d x \<noteq> None" using manifest_name by (auto simp: reader_stored_def)
qed

lemma remove_by_file_names_total:
  assumes S: "server_serves S W" and inv: "sr_inv S opt M sr d N lss" and d: "sorted_kv d" and l: "l < max_level opt"
    and n: "distinct names" "set names \<subseteq> tr_file_name ` set (sr_readers sr ! l)" and ff: "files_fit d"
  shows "\<exists>sr' d'. remove_by_file_names S sr l names d = Some (Inr (sr', d')) \<and> files_fit d'"
proof -
  note v = sr_invD [OF inv]
  let ?mb = "(sr_manifest sr)\<lparr>mfb_manifest := m_remove_by_file_names (mfb_manifest (sr_manifest sr)) l names\<rparr>"
  obtain y where fl: "mfb_flush S ?mb d = Some (Inr (fs_write MANIFEST_FILENAME y d))" using server_servesD(2) [OF S] by blast
  let ?d = "fs_write MANIFEST_FILENAME y d"
  have m: "map_of ?d = (map_of d)(MANIFEST_FILENAME \<mapsto> y)" "sorted_kv ?d"
    using d by (simp_all add: fs_write_def map_of_ins_kv sorted_ins_kv)
  have "\<forall>x \<in> set names. map_of ?d x \<noteq> None"
  proof
    fix x assume "x \<in> set names"
    then have "map_of d x \<noteq> None" using names_stored(2) [OF inv l] n(2) by blast
    then show "map_of ?d x \<noteq> None" unfolding m(1) by simp
  qed
  from remove_files_ok [OF n(1) m(2) this] obtain d' where r: "remove_files names ?d = Inr d'" "sorted_kv d'"
    "\<forall>x. map_of d' x = (if x \<in> set names then None else map_of ?d x)" by blast
  have "files_fit d'"
  proof (rule files_fit_sst [OF ff r(2)])
    fix x f assume "drop (length x - 4) x = ''.sst''" "map_of d' x = Some f"
    moreover from this(1) have "x \<noteq> MANIFEST_FILENAME" using manifest_not_sst by metis
    ultimately show "map_of d x = Some f" using r(3) m(1) by (simp split: if_splits)
  qed
  then show ?thesis
    using fl r(1) l v(1,2,10) by (simp add: remove_by_file_names_def mfb_remove_by_file_names_def idx_def Let_def)
qed

subsection \<open>The minor compaction\<close>

lemma minor_one_total:
  assumes S: "server_libs_ok S" "server_serves S W" and inv: "dm_inv S M dm v W" and o: "opt_ok (dm_opt dm)" and W: "writes_ok W"
    and u: "unflushed v = us @ [es]" and t: "mt_rel t es" and lim: "limits dm" "room 1 dm"
  shows "\<exists>dm'. minor_one S t dm = Some (Inr dm') \<and> limits dm' \<and> cache_id (dm_cache dm') \<le> cache_id (dm_cache dm) + 1"
proof -
  note d = dm_invD [OF inv]
  let ?N = "dm_next_file_number dm" and ?L = "tlibs S"
  let ?p = "make_file_name ?N ''sst''" and ?I = "restart_interval (dm_opt dm)"
  have sm: "sl_rel (mt_map t) es" using t by (simp add: mt_rel_def)
  have pl: "v_pend v \<le> length (v_imm v)" using d(7) by (simp add: wal_inv_def)
  have sub: "set es \<subseteq> set W" using d(9) unflushed_split(1) [OF u pl] by (simp add: hist_inv_def)
  have tl: "table_libs_ok ?L" using S by (simp add: server_libs_ok_def)
  have N: "?N < usize_bound" and ci: "cache_id (dm_cache dm) + 1 < usize_bound" using lim(2) by (simp_all add: room_def)
  obtain x d1 c1 where b: "skiplist_to_sstable S (mt_map t) (dm_opt dm) ?p (dm_fs dm) (dm_cache dm) = Some (Inr (x, d1, c1))"
    "cache_id c1 \<le> cache_id (dm_cache dm) + 1" "d1 = dm_fs dm \<or> (\<exists>f. length f < usize_bound \<and> d1 = fs_write ?p f (dm_fs dm))"
    using skiplist_to_sstable_total [OF S o W sm sub d(2) ci d(1)] by blast
  have fit: "length f < usize_bound" if "map_of d1 ?p = Some f" for f
    using b(3) that lim(1) files_fitD [of "dm_fs dm" ?N f] d(1) by (auto simp: limits_def fs_write_def map_of_ins_kv)
  have c1: "cache_id c1 < usize_bound" using b(2) ci by simp
  note q = skiplist_to_sstable_ok [OF tl o W sm sub d(2,1) b(1) fit c1]
  have ff1: "files_fit d1" using b(3) lim(1) d(1) files_fit_write by (auto simp: limits_def)
  obtain sr d2 where a: "(case x of None \<Rightarrow> Some (Inr (dm_readers dm, d1)) | Some (_, reader) \<Rightarrow> sr_add S (dm_readers dm) 0 reader d1) = Some (Inr (sr, d2))"
    "d2 = d1 \<or> (\<exists>y. d2 = fs_write MANIFEST_FILENAME y d1)"
  proof (cases "es = []")
    case True
    then show ?thesis using q that by simp
  next
    case False
    from q False obtain r M' where r: "x = Some (?p, r)" "reader_ok ?L ?I M' r es" "M \<subseteq>\<^sub>m M'" "sorted_kv d1"
      "\<And>n. n \<noteq> ?p \<Longrightarrow> map_of d1 n = map_of (dm_fs dm) n" by auto
    have i1: "sr_inv S (dm_opt dm) M' (dm_readers dm) d1 (Suc ?N) (v_levels v)"
    proof (rule sr_inv_frame [OF d(8) r(3)])
      show "map_of d1 (make_file_name n ''sst'') = map_of (dm_fs dm) (make_file_name n ''sst'')" if "n < ?N" for n
        using make_file_name_inj [of n "''sst''" ?N "''sst''"] that N by (intro r(5)) auto
    qed (use N r(5) in auto)
    from add_readers_total [OF S(2) i1 d(4), of "[r]" "[es]"] r(2) obtain sr y where
      "add_readers S (dm_readers dm) 0 [r] d1 = Some (Inr (sr, fs_write MANIFEST_FILENAME y d1))" by auto
    then show ?thesis using r(1) by (intro that) (auto simp: sr_add_def)
  qed
  have s1: "sorted_kv d1" using b(3) d(1) by (auto simp: fs_write_def sorted_ins_kv)
  have s2: "sorted_kv d2" "files_fit d2"
    using a(2) s1 ff1 files_fit_write [OF ff1 s1] manifest_not_sst by (auto simp: fs_write_def sorted_ins_kv)
  obtain s ss where ss: "v_segs v = s # ss" using wal_inv_flushed [OF d(7) u] by blast
  have wh: "wal_holds ?L (dm_wal dm) (dm_fs dm) (s # ss)" using d(7) ss(1) by (simp add: wal_inv_def)
  have "wal_holds ?L (dm_wal dm) d2 (s # ss)"
  proof (rule wal_holds_frame [OF wh s2(1)])
    fix n assume "has_ext ''wal'' n"
    then have "n \<noteq> ?p" "n \<noteq> MANIFEST_FILENAME" using wal_ext_other by blast+
    then show "map_of d2 n = map_of (dm_fs dm) n"
      using a(2) b(3) d(1) s1 by (auto simp: fs_write_def map_of_ins_kv sorted_ins_kv)
  qed
  from consume_seg_frame [OF this] obtain w d3 where c: "consume_seg (dm_wal dm) d2 = Inr (w, d3)" "wal_holds ?L w d3 ss"
    "current_file_num w = current_file_num (dm_wal dm)"
    "\<And>m. \<forall>i. m \<noteq> make_file_name i ''wal'' \<Longrightarrow> map_of d3 m = map_of d2 m" by blast
  have "files_fit d3" by (rule files_fit_wal [OF s2(2) _ c(4)]) (use c(2) in \<open>simp add: wal_holds_def\<close>)
  then show ?thesis
    using b(1,2) a(1) c(1,3) lim c1
    by (auto simp: minor_one_def new_file_number_def mt_build_sstable_def Let_def limits_def room_def cong: option.case_cong)
qed

end
