(* ===== verification/Dm_Major_Total.thy ===== *)
theory Dm_Major_Total
  imports Dm_Total
begin

text \<open>
  The major compaction succeeds: the merge loop ends with its tables written and opened, the
  files of the inputs are there to be removed, and the manifest is written.
\<close>

subsection \<open>The merge\<close>

definition cp_room :: "nat \<Rightarrow> ('f, 'c) compaction \<Rightarrow> bool" where
  "cp_room n s \<longleftrightarrow> files_fit (cp_fs s) \<and> cp_next s + n < usize_bound \<and> cache_id (mg_cache (cp_merger s)) + n < usize_bound"

lemma cp_room_limits: "cp_room n s \<Longrightarrow> cp_limits s"
  using files_fitD unfolding cp_limits_def cp_room_def by (fastforce simp: cp_room_def)

lemma cp_room_le: "cp_room n s \<Longrightarrow> m \<le> n \<Longrightarrow> cp_room m s"
  by (simp add: cp_room_def)

lemma compact_close_total:
  assumes S: "server_libs_ok S" "server_serves S W" and o: "opt_ok opt" and W: "writes_ok W"
    and i: "cp_inv S opt M N s news pend" and t: "cp_table s = Some t" and p: "sorted_kv pend" "set pend \<subseteq> set W"
    and r: "files_fit (cp_fs s)" "cache_id (mg_cache (cp_merger s)) + 1 < usize_bound"
  shows "\<exists>s'. compact_close S opt t s = Some (Inr s') \<and> files_fit (cp_fs s')"
proof -
  let ?L = "tlibs S" and ?c = "mg_cache (cp_merger s)" and ?p = "sst_name (cp_lo s)"
  have L: "table_libs_ok ?L" "fixed_ok ?L" using S(1) by (simp_all add: server_libs_ok_def table_libs_ok_def)
  have wf: "cp_wf s" and co: "cache_ok ?L M ?c" and pe: "pend \<noteq> []"
    and ta: "tb_add_all ?L (tb_new ?L ?p (table_opt opt)) pend = Some (Inr t)"
    using i t by (auto simp: cp_inv_def)
  have lo: "tb_path t = ?p" using wf t by (auto simp: cp_wf_def cp_lo_def)
  obtain t' where f: "tb_flush ?L t = Some (Inr t')" "length (tb_file t') < usize_bound"
    using build_table_total [OF S o W p pe, of ?p] ta by auto
  let ?d = "fs_write ?p (tb_file t') (cp_fs s)"
  have sk: "sorted_kv (cp_fs s)" using wf by (simp add: cp_wf_def)
  have sf: "sst_file ?L (restart_interval opt) (tb_file t') pend" by (rule built_sst_file [OF L(1) o W p pe ta f])
  have "map_of ?d ?p = Some (tb_file t')" using sk by (simp add: map_of_fs_write)
  then obtain rd where "open_table S opt ?p ?d ?c = Some (Inr (rd, snd (new_cache_id ?c)))"
    using open_table_ok [OF sf writes_okD(4) [OF W p] L(2) co r(2), of ?d ?p opt] by blast
  moreover have "files_fit ?d" by (rule files_fit_write [OF r(1) sk f(2)])
  ultimately show ?thesis using f(1) tb_path_kept(3) [OF f(1)] lo by (simp add: compact_close_def Let_def)
qed

lemma compact_add_total:
  assumes S: "server_libs_ok S" "server_serves S W" and o: "opt_ok opt" and W: "writes_ok W"
    and i: "cp_inv S opt M N s news pend" and p: "sorted_kv (pend @ [e])" "set (pend @ [e]) \<subseteq> set W"
    and r: "cp_room (Suc n) s"
  shows "\<exists>s'. compact_add S opt e s = Some (Inr s') \<and> cp_room n s'"
proof -
  let ?L = "tlibs S" and ?o = "cp_open S opt s"
  have wf: "cp_wf s" using i by (simp add: cp_inv_def)
  note op = cp_open_later [OF wf, where S = S and opt = opt]
  have lo: "cp_lo s \<le> cp_next s" by (rule cp_lo_next [OF wf])
  obtain t where t: "cp_table ?o = Some t" by (cases "cp_table s") (auto simp: cp_open_def)
  have at: "tb_add_all ?L (tb_new ?L (sst_name (cp_lo s)) (table_opt opt)) pend = Some (Inr t)"
    using i t by (auto simp: cp_inv_def cp_open_def cp_lo_def split: if_splits option.splits)
  have ne: "pend @ [e] \<noteq> []" by simp
  obtain t' where t': "tb_add ?L t (fst e) (snd e) = Some (Inr t')"
    using build_table_total [OF S o W p ne, of "sst_name (cp_lo s)"] at by (auto simp: tb_add_all_snoc)
  have b: "Suc (cp_lo s) < usize_bound" using r lo by (simp add: cp_room_def)
  note oi = cp_inv_open [OF i b t t']
  let ?s = "?o\<lparr>cp_table := Some t'\<rparr>"
  have sk: "sorted_kv (cp_fs s)" using wf by (simp add: cp_wf_def)
  have "files_fit (cp_fs ?o)"
    using r files_fit_write [OF _ sk, of "sst_name (cp_next s)" "[]"] by (simp add: cp_open_def cp_room_def)
  then have rs: "files_fit (cp_fs ?s)" "cp_next ?s \<le> Suc (cp_next s)" "cp_merger ?s = cp_merger s"
    using op(4,5) lo by simp_all
  have r1: "cache_id (mg_cache (cp_merger ?s)) + 1 < usize_bound" using rs(3) r by (simp add: cp_room_def)
  obtain s' where s': "compact_close S opt t' ?s = Some (Inr s')" "files_fit (cp_fs s')"
    using compact_close_total [OF S o W oi _ p rs(1) r1] by auto
  show ?thesis
  proof (cases "tb_total_size_estimate t' \<ge> sst_max_size opt")
    case True
    then have "compact_add S opt e s = Some (Inr s')"
      using t t' s'(1) unfolding compact_add_def cp_open_def [symmetric] Let_def by (simp add: compact_close_table)
    moreover have "cp_next s' = cp_next ?s" "cache_id (mg_cache (cp_merger s')) = Suc (cache_id (mg_cache (cp_merger ?s)))"
      using s'(1) by (auto elim!: compact_close_Ok simp: new_cache_id_def)
    ultimately show ?thesis using r rs s'(2) by (intro exI [of _ s']) (simp add: cp_room_def)
  next
    case False
    then have "compact_add S opt e s = Some (Inr ?s)"
      using t t' unfolding compact_add_def cp_open_def [symmetric] Let_def by simp
    then show ?thesis using r rs by (intro exI [of _ ?s]) (simp add: cp_room_def)
  qed
qed

lemma compact_loop_total:
  assumes S: "server_libs_ok S" "server_serves S W" and o: "opt_ok opt" and W: "writes_ok W"
    and "mg_inv (tlibs S) (restart_interval opt) M (cache_id (mg_cache (cp_merger s))) (cp_merger s) rs"
    and "cp_inv S opt M N s news pend" "sorted_kv (pend @ merge_all rs)" "set (pend @ merge_all rs) \<subseteq> set W"
    and "cp_room (length (merge_all rs) + n) s"
  shows "\<exists>s'. compact_loop S opt s = Some (Inr s') \<and> cp_room n s'"
  using assms(5-9)
proof (induction "length (merge_all rs)" arbitrary: s rs M news pend)
  case 0
  obtain m' rs' where m: "mg_inv (tlibs S) (restart_interval opt) M (cache_id (mg_cache (cp_merger s))) m' rs'"
    "compact_loop S opt s = Some (Inr (s\<lparr>cp_merger := m'\<rparr>))"
    by (rule compact_loop_unfold [OF "0.prems"(1), of opt]) (use "0.hyps" in auto)
  have "cache_id (mg_cache m') = cache_id (mg_cache (cp_merger s))" using m(1) by (simp add: mg_inv_def)
  then show ?case using m(2) "0.prems"(5) "0.hyps" by (auto simp: cp_room_def)
next
  case (Suc k)
  then obtain e es where es: "merge_all rs = e # es" by (cases "merge_all rs") auto
  let ?L = "tlibs S" and ?I = "restart_interval opt"
  have L: "table_libs_ok ?L" using S(1) by (simp add: server_libs_ok_def)
  obtain m' rs' where m: "mg_inv ?L ?I M (cache_id (mg_cache (cp_merger s))) m' rs'" "merge_all rs' = es"
    "compact_loop S opt s = tryO (compact_add S opt e (s\<lparr>cp_merger := m'\<rparr>)) (compact_loop S opt)"
    using compact_loop_unfold [OF Suc.prems(1), of opt] es by auto
  let ?s = "s\<lparr>cp_merger := m'\<rparr>"
  note i = cp_inv_same [OF Suc.prems(2) m(1)]
  have p: "sorted_kv (pend @ [e])" "set (pend @ [e]) \<subseteq> set W" "sorted_kv es" "set es \<subseteq> set W"
    using Suc.prems(3,4) es by (auto simp: sorted_kv_def sorted_wrt_append)
  have "cache_id (mg_cache m') = cache_id (mg_cache (cp_merger s))" using m(1) by (simp add: mg_inv_def)
  then have "cp_room (Suc (length es + n)) ?s" using Suc.prems(5) es by (simp add: cp_room_def)
  from compact_add_total [OF S o W i(1) p(1,2) this] obtain s2 where
    s2: "compact_add S opt e ?s = Some (Inr s2)" "cp_room (length es + n) s2" by blast
  obtain M1 where M1: "M \<subseteq>\<^sub>m M1" "cp_inv S opt M1 N s2 news (pend @ [e]) \<or> cp_inv S opt M1 N s2 (news @ [pend @ [e]]) []"
    using cp_inv_add [OF L o W i(1) s2(1) cp_room_limits [OF s2(2)] p(1,2)] by blast
  obtain cid' where m2: "mg_inv ?L ?I M cid' (cp_merger s2) rs'"
    using compact_add_merger [OF s2(1), of ?I M "cache_id (mg_cache (cp_merger s))" rs'] m(1) by auto
  have "cache_agrees ?L M1 (mg_cache (cp_merger s2))" using M1(2) by (auto simp: cp_inv_def cache_ok_def)
  from mg_inv_cache [OF m2 M1(1) this]
  have m3: "mg_inv ?L ?I M1 (cache_id (mg_cache (cp_merger s2))) (cp_merger s2) rs'" by simp
  have n: "k = length (merge_all rs')" using Suc.hyps(2) es m(2) by simp
  obtain news2 pend2 where c: "cp_inv S opt M1 N s2 news2 pend2" "sorted_kv (pend2 @ merge_all rs')" "set (pend2 @ merge_all rs') \<subseteq> set W"
    using M1(2)
  proof
    assume "cp_inv S opt M1 N s2 news (pend @ [e])"
    with that [of news "pend @ [e]"] Suc.prems(3,4) es m(2) show thesis by auto
  next
    assume "cp_inv S opt M1 N s2 (news @ [pend @ [e]]) []"
    with that [of "news @ [pend @ [e]]" "[]"] p(3,4) m(2) show thesis by auto
  qed
  from Suc.hyps(1) [OF n m3 c] s2 m(2,3) show ?case by auto
qed

lemma compact_tables_total:
  assumes S: "server_libs_ok S" "server_serves S W" and o: "opt_ok opt" and W: "writes_ok W"
    and m: "mg_inv (tlibs S) (restart_interval opt) M (cache_id (mg_cache (cp_merger s))) (cp_merger s) rs"
    and i: "cp_inv S opt M N s [] []" and sub: "set (merge_all rs) \<subseteq> set W" and r: "cp_room (length (merge_all rs) + Suc n) s"
  shows "\<exists>s'. compact_tables S opt s = Some (Inr s') \<and> cp_room n s'"
proof -
  have L: "table_libs_ok (tlibs S)" using S(1) by (simp add: server_libs_ok_def)
  have so: "sorted_kv ([] @ merge_all rs)" "set ([] @ merge_all rs) \<subseteq> set W" using sorted_merge_all sub by simp_all
  obtain s1 where s1: "compact_loop S opt s = Some (Inr s1)" "cp_room (Suc n) s1"
    using compact_loop_total [OF S o W m i so r] by blast
  obtain M1 news1 pend1 where i1: "cp_inv S opt M1 N s1 news1 pend1" "sorted_kv pend1" "set pend1 \<subseteq> set W"
    using compact_loop_inv [OF L o W m i s1(1) cp_room_limits [OF s1(2)] so] by blast
  show ?thesis
  proof (cases "cp_table s1")
    case None
    then show ?thesis using s1 cp_room_le [OF s1(2)] by (auto simp: compact_tables_def)
  next
    case (Some t)
    obtain s' where s': "compact_close S opt t s1 = Some (Inr s')" "files_fit (cp_fs s')"
      using compact_close_total [OF S o W i1(1) Some i1(2,3)] s1(2) by (auto simp: cp_room_def)
    moreover have "cp_next s' = cp_next s1" "cache_id (mg_cache (cp_merger s')) = Suc (cache_id (mg_cache (cp_merger s1)))"
      using s'(1) by (auto elim!: compact_close_Ok simp: new_cache_id_def)
    ultimately show ?thesis using s1 Some by (auto simp: compact_tables_def cp_room_def)
  qed
qed

subsection \<open>The levels to compact\<close>

lemma insort_score_set: "set (insort_score x ys) = insert x (set ys)"
  by (induction x ys rule: insort_score.induct) auto

lemma level_score_empty: "\<not> f64_ge (level_score opt i []) (F64_Fin 1)"
  by (simp add: level_score_def f64_zero_div)

lemma compute_scores_total:
  assumes "length (sr_readers sr) = max_level (sr_opt sr)" "\<forall>i \<in> set is. i < max_level (sr_opt sr)"
  shows "\<exists>ss. compute_scores sr is = Some ss \<and> (\<forall>x \<in> set ss. fst x < max_level (sr_opt sr) \<and> sr_readers sr ! fst x \<noteq> [])"
  using assms(2)
proof (induction "is")
  case (Cons i "is")
  then obtain ss where ss: "compute_scores sr is = Some ss" "\<forall>x \<in> set ss. fst x < max_level (sr_opt sr) \<and> sr_readers sr ! fst x \<noteq> []"
    by auto
  have "get_readers sr i = Some (sr_readers sr ! i)" using Cons.prems assms(1) by (simp add: get_readers_def idx_def)
  moreover have "f64_ge (level_score (sr_opt sr) i (sr_readers sr ! i)) (F64_Fin 1) \<Longrightarrow> sr_readers sr ! i \<noteq> []"
    using level_score_empty by metis
  ultimately show ?case using ss Cons.prems by (simp add: Let_def)
qed simp

lemma compaction_levels_total:
  assumes "length (sr_readers sr) = max_level (sr_opt sr)"
  shows "\<exists>ls. compute_compaction_levels sr = Some ls \<and> (\<forall>l \<in> set ls. l < max_level (sr_opt sr) \<and> sr_readers sr ! l \<noteq> [])"
proof -
  obtain ss where ss: "compute_scores sr [0..<max_level (sr_opt sr)] = Some ss"
    "\<forall>x \<in> set ss. fst x < max_level (sr_opt sr) \<and> sr_readers sr ! fst x \<noteq> []"
    using compute_scores_total [OF assms, of "[0..<max_level (sr_opt sr)]"] by auto
  have "set (foldr insort_score xs []) = set xs" for xs by (induction xs) (simp_all add: insort_score_set)
  then show ?thesis using ss by (simp add: compute_compaction_levels_def)
qed

subsection \<open>The two halves\<close>

lemma key_range_total: "rs \<noteq> [] \<Longrightarrow> \<exists>mx mn. key_range rs = Some (mx, mn)"
  by (induction rs rule: rev_induct) (auto simp: key_range_snoc split: option.splits)

lemma merge_all_length:
  assumes "set (merge_all rs) \<subseteq> set W"
  shows "length (merge_all rs) \<le> length W"
proof -
  have "distinct (map fst (merge_all rs))" using sorted_merge_all [of rs] by (simp add: sorted_kv_def strict_sorted_iff)
  then have "distinct (merge_all rs)" by (simp add: distinct_map)
  then have "length (merge_all rs) = card (set (merge_all rs))" by (simp add: distinct_card)
  also have "\<dots> \<le> card (set W)" using assms by (simp add: card_mono)
  finally show ?thesis using card_length [of W] by simp
qed

lemma size_build_total:
  assumes S: "server_libs_ok S" "server_serves S W" and inv: "dm_inv S M dm v W" and o: "opt_ok (dm_opt dm)" and W: "writes_ok W"
    and lim: "limits dm" "room (length W + 1 + n) dm" and l: "idx levels 0 = Some l" "sr_readers (dm_readers dm) ! l \<noteq> []"
  shows "\<exists>sw dm'. size_build S levels dm = Some (Inr (sw, dm')) \<and> limits dm' \<and> room n dm'"
proof (cases "max_level (dm_opt dm) - 1 \<le> l")
  case True
  then show ?thesis using l(1) lim by (simp add: size_build_def room_def)
next
  case False
  then have ll: "Suc l < max_level (dm_opt dm)" by simp
  note d = dm_invD [OF inv]
  note sv = sr_invD [OF d(8)]
  let ?rss = "sr_readers (dm_readers dm)"
  have g: "get_readers (dm_readers dm) l = Some (?rss ! l)" "get_readers (dm_readers dm) (Suc l) = Some (?rss ! Suc l)"
    using ll sv(1,10) by (simp_all add: get_readers_def idx_def)
  have sel: "select_inputs0 (dm_last_compact_keys dm) l (?rss ! l) = Some (newest_first l (?rss ! l))"
    using l(2) d(3) by (auto simp: select_inputs0_def idx_def Let_def)
  have "newest_first l (?rss ! l) \<noteq> []" using l(2) by auto
  then obtain mx mn where kr: "key_range (newest_first l (?rss ! l)) = Some (mx, mn)" using key_range_total by blast
  note ib = size_build_inputs(1,2,4) [OF inv ll, where mx = mx and mn = mn]
  from ib(2) obtain its where its: "new_iters (tlibs S) (dm_cache dm)
      (newest_first l (?rss ! l) @ get_other_readers mn mx (?rss ! Suc l)) = Some its"
    and mi: "mg_inv (tlibs S) (restart_interval (dm_opt dm)) M (cache_id (mg_cache (cp_merger (merge_start dm its))))
      (cp_merger (merge_start dm its)) (newest_first l (v_levels v ! l) @ picked (overlaps mx mn) (?rss ! Suc l) (v_levels v ! Suc l))"
    by (auto simp: mg_new_def)
  have "cp_room (length (merge_all (newest_first l (v_levels v ! l) @ picked (overlaps mx mn) (?rss ! Suc l) (v_levels v ! Suc l))) + Suc n)
      (merge_start dm its)"
    using lim merge_all_length [OF ib(3)] by (simp add: cp_room_def room_def limits_def mg_new_def)
  from compact_tables_total [OF S o W mi size_build_inputs(3) [OF inv ll] ib(3) this] obtain s where
    s: "compact_tables S (dm_opt dm) (merge_start dm its) = Some (Inr s)" "cp_room n s" by blast
  let ?dm = "dm\<lparr>dm_next_file_number := cp_next s, dm_fs := cp_fs s, dm_cache := mg_cache (cp_merger s)\<rparr>"
  have "limits ?dm" "room n ?dm" using s(2) lim(1) by (simp_all add: limits_def cp_room_def room_def)
  then show ?thesis using False l(1) g sel kr its s(1) by (simp add: size_build_def Let_def)
qed

lemma size_swap_total:
  assumes S: "server_libs_ok S" "server_serves S W" and inv: "dm_inv S M dm v W" and sw: "swap_ok S M dm v W sw" and lim: "limits dm"
  shows "\<exists>dm'. size_swap S sw dm = Some (Inr dm') \<and> limits dm' \<and> (\<forall>n. room n dm \<longrightarrow> room n dm')"
proof -
  note d = dm_invD [OF inv]
  note sv = sr_invD [OF d(8)]
  let ?l = "sw_level sw" and ?N = "dm_next_file_number dm" and ?opt = "dm_opt dm" and ?rss = "sr_readers (dm_readers dm)"
  have bm: "bincode_manifest_ok S" using S(1) by (simp add: server_libs_ok_def)
  obtain a news where l: "Suc ?l < max_level ?opt" and dn: "distinct (sw_names0 sw)" "distinct (sw_names1 sw)"
    and n1: "set (sw_names1 sw) \<subseteq> tr_file_name ` set (?rss ! Suc ?l)"
    and n0: "set (sw_names0 sw) = set (take a (map tr_file_name (?rss ! ?l)))"
    and rs: "list_all2 (reader_ok (tlibs S) (restart_interval ?opt) M) (sw_readers sw) news"
    using sw unfolding swap_ok_def Let_def by blast
  have n0s: "set (sw_names0 sw) \<subseteq> tr_file_name ` set (?rss ! ?l)" using n0 set_take_subset [of a "map tr_file_name (?rss ! ?l)"] by simp
  have ll: "?l < max_level ?opt" using l by simp
  have ff: "files_fit (dm_fs dm)" using lim by (simp add: limits_def)
  obtain sr1 d1 where s1: "remove_by_file_names S (dm_readers dm) ?l (sw_names0 sw) (dm_fs dm) = Some (Inr (sr1, d1))" "files_fit d1"
    using remove_by_file_names_total [OF S(2) d(8,1) ll dn(1) n0s ff] by blast
  note r1 = remove_by_file_names_ok [OF bm d(8,1) ll dn(1) n0s s1(1)]
  have n1': "set (sw_names1 sw) \<subseteq> tr_file_name ` set (sr_readers sr1 ! Suc ?l)" using n1 r1 by simp
  obtain sr2 d2 where s2: "remove_by_file_names S sr1 (Suc ?l) (sw_names1 sw) d1 = Some (Inr (sr2, d2))" "files_fit d2"
    using remove_by_file_names_total [OF S(2) conjunct1 [OF r1] _ l dn(2) n1' s1(2)] r1 by blast
  note r2 = remove_by_file_names_ok [OF bm conjunct1 [OF r1] _ l dn(2) n1' s2(1)]
  have i2: "\<exists>lss. sr_inv S ?opt M sr2 d2 ?N lss" "sorted_kv d2" using r1 r2 by blast+
  then obtain sr3 y where s3: "add_readers S sr2 (Suc ?l) (sw_readers sw) d2 = Some (Inr (sr3, fs_write MANIFEST_FILENAME y d2))"
    using add_readers_total [OF S(2) _ l rs] by blast
  have "files_fit (fs_write MANIFEST_FILENAME y d2)" by (rule files_fit_write [OF s2(2) i2(2)]) (simp add: manifest_not_sst)
  then show ?thesis using s1(1) s2(1) s3 lim by (simp add: size_swap_def limits_def room_def)
qed

subsection \<open>The whole compaction\<close>

lemma major_reaches:
  assumes S: "server_libs_ok S" "server_serves S W" and o: "opt_ok opt" "0 < max_level opt"
    and r: "reaches S opt dm mi None W" and n: "room (length W + 1 + n) dm"
  shows "\<exists>dm'. major_compaction S dm = Some (Inr dm') \<and> reaches S opt dm' mi None W \<and> room n dm'"
proof -
  obtain M v where v: "dm_opt dm = opt" "limits dm" "writes_ok W" "dm_inv S M dm v W"
    using reaches_inv [OF S(1) o r] by (rule sys_invE) (rule that)
  have o': "opt_ok (dm_opt dm)" using o(1) v(1) by simp
  note sv = sr_invD [OF dm_invD(8) [OF v(4)]]
  obtain ls where ls: "compute_compaction_levels (dm_readers dm) = Some ls" "\<forall>l \<in> set ls. sr_readers (dm_readers dm) ! l \<noteq> []"
    using compaction_levels_total [of "dm_readers dm"] sv(1,10) by auto
  show ?thesis
  proof (cases ls)
    case Nil
    then show ?thesis using ls(1) r n by (simp add: major_compaction_def seek_compaction_def room_def)
  next
    case (Cons l ls')
    then have "idx ls 0 = Some l" "sr_readers (dm_readers dm) ! l \<noteq> []" using ls(2) by (simp_all add: idx_def)
    from size_build_total [OF S v(4) o' v(3,2) n this] obtain sw dm1 where
      b: "size_build S ls dm = Some (Inr (sw, dm1))" "limits dm1" "room n dm1" by blast
    have r1: "reaches S opt dm1 mi sw W" by (rule Major_build [OF r b(1,2)])
    have "\<exists>dm'. (case sw of None \<Rightarrow> Some (Inr dm1) | Some w \<Rightarrow> size_swap S w dm1) = Some (Inr dm') \<and> reaches S opt dm' mi None W \<and> room n dm'"
    proof (cases sw)
      case None
      then show ?thesis using r1 b(3) by simp
    next
      case (Some w)
      obtain M' where "dm_inv S M' dm1 v W" "swap_ok S M' dm1 v W w"
        using size_build_ok [OF S(1) v(4) o' v(3) b(1) [unfolded Some] b(2)] by blast
      from size_swap_total [OF S this b(2)] obtain dm' where d: "size_swap S w dm1 = Some (Inr dm')" "limits dm'" "room n dm'"
        using b(3) by blast
      from Major_swap [OF r1 [unfolded Some] d(1,2)] d(1,3) Some show ?thesis by simp
    qed
    then show ?thesis using ls(1) Cons b(1) by (auto simp: major_compaction_def size_compaction_def)
  qed
qed

subsection \<open>The whole minor compaction\<close>

lemma minor_one_imm: "minor_one S t dm = Some (Inr dm') \<Longrightarrow> dm_imm dm' = dm_imm dm \<and> dm_mut dm' = dm_mut dm"
  by (auto simp: minor_one_def new_file_number_def tryO_eq_Ok Let_def cong: option.case_cong)

lemma minor_all_reaches:
  assumes S: "server_libs_ok S" "server_serves S W" and o: "opt_ok opt" "0 < max_level opt"
  shows "reaches S opt dm (Some (i, c)) ma W \<Longrightarrow> ts = drop i (rev (ml_tables (dm_imm dm))) \<Longrightarrow> c = length (ml_tables (dm_imm dm)) \<Longrightarrow> i \<le> c \<Longrightarrow>
    room (length ts + n) dm \<Longrightarrow>
    \<exists>dm'. minor_all S ts dm = Some (Inr dm') \<and> reaches S opt dm' (Some (c, c)) ma W \<and> room n dm' \<and> dm_imm dm' = dm_imm dm"
proof (induction ts arbitrary: dm i)
  case Nil
  then have "i = c" by simp
  with Nil show ?case by simp
next
  case (Cons t ts)
  obtain M v where v: "dm_opt dm = opt" "limits dm" "writes_ok W" "dm_inv S M dm v W"
    "case Some (i, c) of None \<Rightarrow> v_pend v = 0 | Some (i, c) \<Rightarrow> v_pend v = i \<and> i \<le> c \<and> c \<le> length (v_imm v)"
    using reaches_inv [OF S(1) o Cons.prems(1)] by (rule sys_invE) (rule that)
  let ?ts = "rev (ml_tables (dm_imm dm))"
  have ic: "i < c"
  proof (rule ccontr)
    assume "\<not> i < c"
    then have "drop i ?ts = []" using Cons.prems(3) by simp
    with Cons.prems(2) show False by simp
  qed
  have "?ts ! i # drop (Suc i) ?ts = t # ts" using Cons_nth_drop_Suc [of i ?ts] Cons.prems(2,3) ic by simp
  then have t: "idx ?ts i = Some t" "ts = drop (Suc i) ?ts" using Cons.prems(3) ic by (auto simp: idx_def)
  obtain us es where u: "unflushed v = us @ [es]" "mt_rel t es" using next_memtable [OF v(4), of t] t(1) ic v(5) by auto
  have o': "opt_ok (dm_opt dm)" using o(1) v(1) by simp
  have r1: "room 1 dm" using Cons.prems(5) by (simp add: room_def)
  obtain dm1 where dm1: "minor_one S t dm = Some (Inr dm1)" "limits dm1" "cache_id (dm_cache dm1) \<le> cache_id (dm_cache dm) + 1"
    using minor_one_total [OF S v(4) o' v(3) u v(2) r1] by blast
  have nx: "dm_next_file_number dm1 = Suc (dm_next_file_number dm)"
    using minor_one_ok [OF S(1) v(4) o' v(3) u dm1(1,2)] by blast
  have im: "dm_imm dm1 = dm_imm dm" using minor_one_imm [OF dm1(1)] by simp
  have "reaches S opt dm1 (Some (Suc i, c)) ma W" by (rule Minor_table [OF Cons.prems(1) ic t(1) dm1(1,2)])
  moreover have "room (length ts + n) dm1" using Cons.prems(5) nx dm1(3) by (simp add: room_def)
  ultimately have "\<exists>dm'. minor_all S ts dm1 = Some (Inr dm') \<and> reaches S opt dm' (Some (c, c)) ma W \<and> room n dm' \<and> dm_imm dm' = dm_imm dm1"
    using t(2) im Cons.prems(3) Suc_leI [OF ic] by (intro Cons.IH) simp_all
  then show ?case using dm1(1) im by simp
qed

lemma minor_reaches:
  assumes S: "server_libs_ok S" "server_serves S W" and o: "opt_ok opt" "0 < max_level opt"
    and r: "reaches S opt dm None ma W" and n: "room (length (ml_tables (dm_imm dm)) + n) dm"
  shows "\<exists>dm'. minor_compaction S dm = Some (Inr dm') \<and> reaches S opt dm' None ma W \<and> room n dm' \<and> ml_tables (dm_imm dm') = []"
proof (cases "ml_tables (dm_imm dm) = []")
  case True
  then show ?thesis using r n by (simp add: minor_compaction_def ml_table_count_def)
next
  case False
  let ?c = "length (ml_tables (dm_imm dm))"
  have "reaches S opt dm (Some (0, ?c)) ma W" using Minor_begin [OF r] by (simp add: ml_table_count_def)
  from minor_all_reaches [OF S o this, of "rev (ml_tables (dm_imm dm))"] n obtain dm1 where
    d: "minor_all S (rev (ml_tables (dm_imm dm))) dm = Some (Inr dm1)" "reaches S opt dm1 (Some (?c, ?c)) ma W" "room n dm1" "dm_imm dm1 = dm_imm dm" by auto
  obtain i where i: "minor_consume ?c dm1 = dm1\<lparr>dm_imm := i\<rparr>" using minor_consume_imm by blast
  have "room n (minor_consume ?c dm1)" using d(3) by (simp add: i room_def)
  moreover have "ml_tables (dm_imm (minor_consume ?c dm1)) = []" using d(4) by (simp add: minor_consume_tables)
  ultimately show ?thesis
    using Minor_end [OF d(2)] d(1) False by (simp add: minor_compaction_def minor_build_def ml_table_count_def Let_def)
qed

text \<open>The segments of the log have numbers of their own, and the immutable memtables a segment each;
  so there are no more of them than writes.\<close>

lemma segs_bound:
  assumes "wal_holds L w d ess"
  shows "length (segs w) \<le> current_file_num w" "length (segs w) = length ess"
proof -
  obtain ns where ns: "map seg_path (segs w) = map (\<lambda>n. make_file_name n ''wal'') ns" "sorted_wrt (<) ns"
    "\<forall>n \<in> set ns. n < current_file_num w" using assms by (auto simp: wal_holds_def wal_files_def)
  have "card (set ns) \<le> card {..< current_file_num w}" using ns(3) by (intro card_mono) auto
  moreover have "card (set ns) = length ns" using ns(2) by (simp add: distinct_card strict_sorted_iff)
  ultimately show "length (segs w) \<le> current_file_num w" using arg_cong [OF ns(1), of length] by simp
  show "length (segs w) = length ess" using assms by (auto simp: wal_holds_def dest: list_all2_lengthD)
qed

lemma segments_bound:
  assumes "server_libs_ok S" "opt_ok opt" "0 < max_level opt" "reaches S opt dm mi ma W"
  shows "length (segs (dm_wal dm)) \<le> Suc (length W)"
proof -
  obtain M v where v: "dm_inv S M dm v W" "log_ok dm W" using reaches_inv [OF assms] by (rule sys_invE) (rule that)
  have "wal_holds (tlibs S) (dm_wal dm) (dm_fs dm) (v_segs v)" using dm_invD(7) [OF v(1)] by (simp add: wal_inv_def)
  from segs_bound(1) [OF this] log_ok_le [OF v(2)] show ?thesis by simp
qed

lemma memtables_bound:
  assumes S: "server_libs_ok S" and o: "opt_ok opt" "0 < max_level opt" and r: "reaches S opt dm None ma W"
  shows "length (ml_tables (dm_imm dm)) \<le> length W"
proof -
  obtain M v where v: "dm_inv S M dm v W" "v_pend v = 0"
    using reaches_inv [OF S o r] by (rule sys_invE) (auto intro: that)
  have len: "length (ml_tables (dm_imm dm)) = length (v_imm v)" using dm_invD(6) [OF v(1)] by (auto simp: ml_rel_def dest: list_all2_lengthD)
  have w: "wal_inv (tlibs S) (dm_wal dm) (dm_fs dm) v" by (rule dm_invD(7) [OF v(1)])
  show ?thesis
  proof (cases "v_segs v = []")
    case True
    then show ?thesis using w len by (simp add: wal_inv_def)
  next
    case False
    then have "map (\<lambda>es. put_all es []) (v_segs v) = rev (v_imm v) @ [v_mut v]" using w v(2) by (simp add: wal_inv_def unflushed_def)
    then have "length (v_segs v) = Suc (length (v_imm v))" by (metis length_append_singleton length_map length_rev)
    moreover have "length (segs (dm_wal dm)) = length (v_segs v)" using w segs_bound(2) by (auto simp: wal_inv_def)
    ultimately show ?thesis using len segments_bound [OF S o r] by simp
  qed
qed

end
