(* ===== verification/Dm_Restart_Total.thy ===== *)
theory Dm_Restart_Total
  imports Dm_Major_Total
begin

text \<open>
  Starting again succeeds: the tables of the manifest are opened, every segment of the log
  becomes a table, and the log is emptied.
\<close>

subsection \<open>Tables from segments\<close>

lemma redo_build_total:
  assumes S: "server_libs_ok S" "server_serves S W" and o: "opt_ok opt" and W: "writes_ok W"
    and "sorted_kv d" "cache_ok (tlibs S) M c"
    and "list_all2 (\<lambda>s es. file_holds (tlibs S) (seg_path s) d es \<and> has_ext ''wal'' (seg_path s)) ss ess"
    and "\<forall>es \<in> set ess. es \<noteq> [] \<and> set (put_all es []) \<subseteq> set W"
    and "files_fit d" "cache_id c + length ss < usize_bound"
  shows "\<exists>ps n' d' c' rngs'. redo_build S opt ss n d c rngs = Some (ps, n', d', c', rngs') \<and> files_fit d' \<and>
     cache_id c' \<le> cache_id c + length ss"
  using assms(5-10)
proof (induction ss arbitrary: n d c rngs M ess)
  case (Cons s ss)
  let ?L = "tlibs S" and ?s = "\<lparr>seg_size = 0, seg_path = seg_path s\<rparr>" and ?p = "sst_name n"
  obtain es ess' where es: "ess = es # ess'" "file_holds ?L (seg_path s) d es" "has_ext ''wal'' (seg_path s)"
    and ess': "list_all2 (\<lambda>s es. file_holds ?L (seg_path s) d es \<and> has_ext ''wal'' (seg_path s)) ss ess'"
    using Cons.prems(3) by (auto simp: list_all2_Cons1)
  have ex: "map_of d (seg_path s) \<noteq> None" using es(2) by (auto simp: file_holds_def)
  then have cl: "seg_clone s d = (?s, d)" by (auto simp: seg_clone_def seg_new_def fs_create_def)
  have Ls: "table_libs_ok ?L" "fixed_ok ?L" "snappy_ok ?L" using S(1) by (simp_all add: server_libs_ok_def table_libs_ok_def)
  have ne: "es \<noteq> []" and sub: "set (put_all es []) \<subseteq> set W" using Cons.prems(4) es(1) by auto
  obtain m where m: "to_skiplist ?L (mem_table_max_height opt) (shd rngs) ?s d = Some (Inr m)" "sl_rel m (put_all es [])"
    using to_skiplist_file [OF Ls(2,3), of ?s d es] es(2) ne by auto
  have ci: "cache_id c + 1 < usize_bound" using Cons.prems(6) by simp
  obtain x d2 c2 where b: "skiplist_to_sstable S m opt ?p d c = Some (Inr (x, d2, c2))" "cache_id c2 \<le> cache_id c + 1"
    "d2 = d \<or> (\<exists>f. length f < usize_bound \<and> d2 = fs_write ?p f d)"
    using skiplist_to_sstable_total [OF S o W m(2) sub Cons.prems(2) ci Cons.prems(1)] by blast
  have ff: "files_fit d2" using b(3) Cons.prems(5) files_fit_write [OF Cons.prems(5,1)] by auto
  have fit: "length f < usize_bound" if "map_of d2 ?p = Some f" for f using files_fitD [OF ff that] .
  have c2: "cache_id c2 < usize_bound" using b(2) ci by simp
  have pne: "put_all es [] \<noteq> []" using ne by (simp add: put_all_Nil)
  from skiplist_to_sstable_ok [OF Ls(1) o W m(2) sub Cons.prems(2,1) b(1) fit c2] pne obtain t M1 where
    t: "x = Some (?p, t)" "cache_ok ?L M1 c2" "sorted_kv d2" "\<And>n. n \<noteq> ?p \<Longrightarrow> map_of d2 n = map_of d n" by auto
  have l2: "list_all2 (\<lambda>s es. file_holds ?L (seg_path s) d2 es \<and> has_ext ''wal'' (seg_path s)) ss ess'"
    using ess'
  proof (rule list_all2_mono)
    fix x y assume "file_holds ?L (seg_path x) d y \<and> has_ext ''wal'' (seg_path x)"
    then show "file_holds ?L (seg_path x) d2 y \<and> has_ext ''wal'' (seg_path x)"
      using t(4) wal_ext_other [of "seg_path x" n] by (simp add: file_holds_def)
  qed
  have e': "\<forall>es \<in> set ess'. es \<noteq> [] \<and> set (put_all es []) \<subseteq> set W" using Cons.prems(4) es(1) by simp
  have ci2: "cache_id c2 + length ss < usize_bound" using Cons.prems(6) b(2) by simp
  obtain ps n' d' c' rngs' where "redo_build S opt ss (n + 1) d2 c2 (stl rngs) = Some (ps, n', d', c', rngs')" "files_fit d'"
    "cache_id c' \<le> cache_id c2 + length ss"
    using Cons.IH [OF t(3,2) l2 e' ff ci2] by blast
  then show ?case using cl m(1) b(1,2) by (simp add: seg_build_sstable_def unwrap_def)
qed simp

lemma redo_open_total:
  assumes L: "fixed_ok (tlibs S)" and W: "writes_ok W"
    and "list_all2 (\<lambda>p es. \<exists>f. map_of d p = Some f \<and> sst_file (tlibs S) I f es) ps ess"
    and "\<forall>es \<in> set ess. sorted_kv es \<and> set es \<subseteq> set W" "cache_ok (tlibs S) M c" "cache_id c + length ps < usize_bound"
  shows "\<exists>rs c'. redo_open S opt ps d c = Some (rs, c') \<and> cache_id c' = cache_id c + length ps"
  using assms(3-6)
proof (induction ps arbitrary: ess M c)
  case (Cons p ps)
  let ?L = "tlibs S"
  obtain es ess' f where es: "ess = es # ess'" "map_of d p = Some f" "sst_file ?L I f es"
    and ess': "list_all2 (\<lambda>p es. \<exists>f. map_of d p = Some f \<and> sst_file ?L I f es) ps ess'"
    using Cons.prems(1) by (auto simp: list_all2_Cons1)
  have z: "zero_extension_free es" using writes_okD(4) [OF W] Cons.prems(2) es(1) by simp
  have b: "cache_id c + 1 < usize_bound" using Cons.prems(4) by simp
  from open_table_ok [OF es(3) z L Cons.prems(3) b es(2), of opt] obtain r M1 where
    r: "open_table S opt p d c = Some (Inr (r, snd (new_cache_id c)))" "cache_ok ?L M1 (snd (new_cache_id c))" by blast
  have e': "\<forall>es \<in> set ess'. sorted_kv es \<and> set es \<subseteq> set W" using Cons.prems(2) es(1) by simp
  have "cache_id (snd (new_cache_id c)) + length ps < usize_bound" using Cons.prems(4) by (simp add: new_cache_id_def)
  from Cons.IH [OF ess' e' r(2) this] r(1) show ?case by (auto simp: new_cache_id_def unwrap_def)
qed simp

subsection \<open>The start\<close>

lemma files_fit_log:
  assumes "files_fit d" "sorted_kv d'" "\<And>x. \<not> has_ext ''wal'' x \<Longrightarrow> map_of d' x = map_of d x"
  shows "files_fit d'"
proof (rule files_fit_sst [OF assms(1,2)])
  fix x f assume "drop (length x - 4) x = ''.sst''" "map_of d' x = Some f"
  moreover from this(1) have "\<not> has_ext ''wal'' x" by (auto simp: has_ext_def)
  ultimately show "map_of d x = Some f" using assms(3) by simp
qed

text \<open>Every segment becomes a table, and the manifest lists them.\<close>

lemma redo_lists_total:
  assumes S: "server_libs_ok S" "server_serves S W" and o: "opt_ok opt" and W: "writes_ok W"
    and v: "disk_inv S opt M sr d N lss (map seg_path ss) ess W" and c: "cache_ok (tlibs S) M c" and ne: "\<forall>es \<in> set ess. es \<noteq> []"
    and ff: "files_fit d" and n: "N + length ss < usize_bound" "cache_id c + 2 * length ss < usize_bound"
  obtains ps d1 c1 rngs' rs c2 sr2 d2 where "redo_build S opt ss N d c rngs = Some (ps, N + length ss, d1, c1, rngs')"
    "redo_open S opt ps d1 c1 = Some (rs, c2)" "add_readers S sr 0 rs d1 = Some (Inr (sr2, d2))"
    "files_fit d1" "files_fit d2" "cache_id c2 \<le> cache_id c + 2 * length ss"
proof -
  let ?L = "tlibs S" and ?I = "restart_interval opt" and ?n = "N + length ss"
  note sg = disk_segs [OF v ne]
  have Ls: "table_libs_ok ?L" "fixed_ok ?L" using S by (simp_all add: server_libs_ok_def table_libs_ok_def)
  have c0: "cache_id c + length ss < usize_bound" using n by simp
  obtain ps n' d1 c1 rngs' where b: "redo_build S opt ss N d c rngs = Some (ps, n', d1, c1, rngs')" "files_fit d1"
    "cache_id c1 \<le> cache_id c + length ss" using redo_build_total [OF S o W sg(5) c sg(1,2) ff c0] by blast
  have n': "n' = ?n" and s1: "sorted_kv d1" using redo_build_later [OF b(1) sg(5,3)] by simp_all
  have c1: "cache_id c1 < usize_bound" "n' < usize_bound" using b(3) c0 n(1) n' by simp_all
  have fit: "\<forall>i f. map_of d1 (sst_name i) = Some f \<longrightarrow> length f < usize_bound" using files_fitD [OF b(2)] by blast
  obtain M1 where M1: "cache_ok ?L M1 c1" "ps = map sst_name [N..<n']"
    "list_all2 (\<lambda>p es. \<exists>f. map_of d1 p = Some f \<and> sst_file ?L ?I f (put_all es [])) ps ess"
    using redo_build_ok [OF Ls(1) o W b(1) sg(5) c sg(1,2) c1(2,1) fit] by blast
  have l2: "list_all2 (\<lambda>p es. \<exists>f. map_of d1 p = Some f \<and> sst_file ?L ?I f es) ps (seg_tables ess)" using M1(3) by (simp add: list.rel_map)
  have tW: "\<forall>es \<in> set (seg_tables ess). sorted_kv es \<and> set es \<subseteq> set W" using sg(2) by (auto simp: put_all_sorted)
  have lp: "cache_id c1 + length ps < usize_bound" "length ps = length ss" using b(3) n M1(2) n' by simp_all
  obtain rs c2 where op: "redo_open S opt ps d1 c1 = Some (rs, c2)" "cache_id c2 = cache_id c1 + length ps"
    using redo_open_total [OF Ls(2) W l2 tW M1(1) lp(1)] by blast
  have c2: "cache_id c2 < usize_bound" using op(2) lp(1) by simp
  obtain M2 where M2: "M \<subseteq>\<^sub>m M2" "list_all2 (reader_ok ?L ?I M2) rs (seg_tables ess)"
    using redo_opens [OF S(1) o W v c ne b(1) op(1) c1(2) c2 fit] by blast
  note v1 = redo_build_disk(1) [OF v ne M2(1) b(1) c1(2)]
  obtain sr2 y where a: "add_readers S sr 0 rs d1 = Some (Inr (sr2, fs_write MANIFEST_FILENAME y d1))"
    using add_readers_total [OF S(2) disk_invD(2,1) [OF v1] M2(2)] by blast
  have "files_fit (fs_write MANIFEST_FILENAME y d1)" by (rule files_fit_write [OF b(2) s1]) (simp add: manifest_not_sst)
  moreover have "cache_id c2 \<le> cache_id c + 2 * length ss" using op(2) b(3) lp(2) by simp
  ultimately show ?thesis by (rule that [OF b(1) [unfolded n'] op(1) a b(2)])
qed

lemma redo_total:
  assumes S: "server_libs_ok S" "server_serves S W" and o: "opt_ok (dm_opt dm)" and W: "writes_ok W"
    and v: "disk_inv S (dm_opt dm) M (dm_readers dm) (dm_fs dm) (dm_next_file_number dm) lss (map seg_path (segs (dm_wal dm))) ess W"
    and c: "cache_ok (tlibs S) M (dm_cache dm)" and ne: "\<forall>es \<in> set ess. es \<noteq> []"
    and ff: "files_fit (dm_fs dm)" and n: "dm_next_file_number dm + length (segs (dm_wal dm)) < usize_bound"
      "cache_id (dm_cache dm) + 2 * length (segs (dm_wal dm)) < usize_bound"
  shows "\<exists>dm'. redo S dm = Some (Inr dm') \<and> limits dm'"
proof (cases "segs (dm_wal dm) = []")
  case True
  then show ?thesis using n ff by (simp add: redo_def seg_count_def limits_def)
next
  case False
  let ?ss = "segs (dm_wal dm)"
  obtain ps d1 c1 rngs rs c2 sr2 d2 where
    b: "redo_build S (dm_opt dm) ?ss (dm_next_file_number dm) (dm_fs dm) (dm_cache dm) (dm_rngs dm) = Some (ps, dm_next_file_number dm + length ?ss, d1, c1, rngs)"
      "redo_open S (dm_opt dm) ps d1 c1 = Some (rs, c2)" "add_readers S (dm_readers dm) 0 rs d1 = Some (Inr (sr2, d2))"
    and f: "files_fit d1" "files_fit d2" "cache_id c2 \<le> cache_id (dm_cache dm) + 2 * length ?ss"
    using S o W v c ne ff n by (rule redo_lists_total) (rule that)
  have c2: "cache_id c2 < usize_bound" using f(3) n(2) by simp
  have fit: "\<forall>i f. map_of d1 (sst_name i) = Some f \<longrightarrow> length f < usize_bound" using files_fitD [OF f(1)] by blast
  obtain M' where M': "disk_inv S (dm_opt dm) M' sr2 d2 (dm_next_file_number dm + length ?ss) (with_segs lss ess) (map seg_path ?ss) ess W"
    "covered (with_segs lss ess) W" using redo_lists [OF S(1) o W v c ne b n(1) c2 fit] by blast
  from disk_inv_delete [OF M', of "length ?ss"] disk_segs(4) [OF v ne] obtain d3 where d3: "delete_segs ?ss d2 = Inr d3"
    "disk_inv S (dm_opt dm) M' sr2 d3 (dm_next_file_number dm + length ?ss) (with_segs lss ess) [] [] W"
    "\<And>x. \<not> has_ext ''wal'' x \<Longrightarrow> map_of d3 x = map_of d2 x" by auto
  have g: "glob_ok S" using S by (simp add: server_libs_ok_def)
  have "files_fit d3" by (rule files_fit_log [OF f(2) log_filesD(1) [OF disk_invD(3) [OF d3(2)]] d3(3)])
  then show ?thesis
    using False b d3(1) wal_new_none [OF g disk_invD(3) [OF d3(2)]] n c2 by (simp add: redo_def seg_count_def limits_def)
qed

lemma disk_start_total:
  assumes S: "server_libs_ok S" "server_serves S W" and v: "disk_inv S opt M0 sr0 d N0 lss ps ess W" and o: "opt_ok opt" and W: "writes_ok W"
    and c: "cache_ok (tlibs S) M c" and ff: "files_fit d"
    and n: "N0 + length ess < usize_bound" "cache_id c + length (concat lss) + 2 * length ess < usize_bound"
  shows "\<exists>dm'. dm_new S opt d c rngs = Some (Inr dm') \<and> limits dm'"
proof -
  let ?ess = "filter (\<lambda>es. es \<noteq> []) ess"
  have "cache_id c + length (concat lss) < usize_bound" using n(2) by simp
  then obtain sr c1 M1 N ss d1 where s: "sr_new S opt d c = Some (Inr (sr, c1))" "mfb_next_file_number (sr_manifest sr) = Some N" "N \<le> N0"
    "wal_new (glob_wal S) d = Some (\<lparr>segs = ss, current_file_num = 0\<rparr>, d1)" "disk_inv S opt M1 sr d1 N lss (map seg_path ss) ?ess W"
    "cache_ok (tlibs S) M1 c1" "cache_id c1 = cache_id c + length (concat lss)" "\<And>x. \<not> has_ext ''wal'' x \<Longrightarrow> map_of d1 x = map_of d x"
    by (rule dm_new_opens [OF S(1) v c]) (rule that)
  define dm0 where "dm0 = \<lparr>dm_mut = mt_new (mem_table_max_size opt) (mem_table_max_height opt) (shd rngs),
     dm_imm = ml_new (imm_mem_table_max_count opt) (mem_table_max_size opt) (mem_table_max_height opt),
     dm_readers = sr, dm_wal = \<lparr>segs = ss, current_file_num = 0\<rparr>, dm_opt = opt, dm_next_file_number = N,
     dm_last_compact_keys = [], dm_fs = d1, dm_cache = c1, dm_rngs = stl rngs\<rparr>"
  have f: "dm_opt dm0 = opt" "dm_readers dm0 = sr" "dm_fs dm0 = d1" "dm_next_file_number dm0 = N" "dm_cache dm0 = c1"
    "segs (dm_wal dm0) = ss" by (simp_all add: dm0_def)
  have ne: "\<forall>es \<in> set ?ess. es \<noteq> []" by simp
  have "length ss \<le> length ess" using disk_segs(4) [OF s(5) ne] length_filter_le [of "\<lambda>es. es \<noteq> []" ess] by simp
  then have sz: "N + length ss < usize_bound" "cache_id c1 + 2 * length ss < usize_bound" using n s(3,7) by linarith+
  have ff1: "files_fit d1" by (rule files_fit_log [OF ff disk_segs(5) [OF s(5) ne] s(8)])
  have "\<exists>dm'. redo S dm0 = Some (Inr dm') \<and> limits dm'"
    by (rule redo_total [of S W dm0, unfolded f, OF S o W s(5,6) ne ff1 sz])
  then show ?thesis using s(1,2,4) by (simp add: dm_new_def dm0_def)
qed

lemma dm_new_total:
  assumes S: "server_libs_ok S" "server_serves S W" and inv: "dm_inv S M0 dm v W" and o: "opt_ok (dm_opt dm)" and W: "writes_ok W"
    and c: "cache_ok (tlibs S) M c"
    and ci: "cache_id c + length (concat (sr_readers (dm_readers dm))) + 2 * length (segs (dm_wal dm)) < usize_bound"
    and cn: "current_file_num (dm_wal dm) \<le> 10 ^ 8" and lim: "limits dm" "dm_next_file_number dm + length (segs (dm_wal dm)) < usize_bound"
  shows "\<exists>dm'. dm_new S (dm_opt dm) (dm_fs dm) c rngs = Some (Inr dm') \<and> limits dm'"
proof -
  note v = dm_inv_disk [OF inv cn]
  have len: "length (v_segs v) = length (segs (dm_wal dm))"
    using list_all2_lengthD [OF log_filesD(2) [OF disk_invD(3) [OF v]]] by simp
  show ?thesis
    by (rule disk_start_total [OF S v o W c])
      (use lim ci levels_length [OF dm_invD(8) [OF inv]] in \<open>simp_all add: limits_def len\<close>)
qed

end
