(* ===== verification/Wal_Props.thy ===== *)
theory Wal_Props
  imports Wal Lib_Instance
begin

text \<open>
  The properties of the write-ahead log: what was appended is what recovery reads, segment by
  segment, through any sequence of appends, new segments and consumed segments; and what a
  record cut short or an empty segment does to recovery.
\<close>

subsection \<open>One segment\<close>

fun seg_append_all ::
  "('f, 'c) libs \<Rightarrow> wal_seg \<Rightarrow> entry list \<Rightarrow> fs \<Rightarrow> (status, wal_seg \<times> fs) fallible" where
  "seg_append_all L s [] d = Some (Inr (s, d))"
| "seg_append_all L s ((k, v) # es) d =
     tryO (seg_append L s k v d) (\<lambda>(s', d'). seg_append_all L s' es d')"

lemma seg_append_all_holds:
  assumes "fixed_ok L"
  shows "seg_holds L s d es0 \<Longrightarrow> sorted_kv d \<Longrightarrow> \<forall>e \<in> set es. loggable L e \<Longrightarrow>
    \<exists>s' d'. seg_append_all L s es d = Some (Inr (s', d')) \<and> seg_holds L s' d' (es0 @ es) \<and>
      seg_path s' = seg_path s \<and> sorted_kv d'"
proof (induction es arbitrary: s d es0)
  case (Cons e es)
  obtain k v where e: "e = (k, v)" by fastforce
  obtain kb vb where z: "compress_vec L k = Inr kb" "compress_vec L v = Inr vb"
    "length kb + length vb < u32_bound" using Cons.prems(3) e by (auto elim: loggableE)
  obtain s1 d1 where a: "seg_append L s k v d = Some (Inr (s1, d1))" "seg_holds L s1 d1 (es0 @ [(k, v)])" "sorted_kv d1" "seg_path s1 = seg_path s"
    using seg_append_holds [OF assms Cons.prems(1,2) z] by blast
  from Cons.IH [OF a(2,3)] Cons.prems(3) obtain s' d' where
    "seg_append_all L s1 es d1 = Some (Inr (s', d'))" "seg_holds L s' d' ((es0 @ [(k, v)]) @ es)" "seg_path s' = seg_path s" "sorted_kv d'" using a(4) by auto
  with a(1) e show ?case by auto
qed auto

text \<open>C21: a segment of the log is recovered completely.  Records appended to a new segment are
  read back by \<open>to_skiplist\<close>, which neither panics nor loops; the skip list it returns
  iterates over the keys in order, each with the value appended last.\<close>

theorem wal_segment_recovery:
  assumes "fixed_ok L" "snappy_ok L" "sorted_kv d" "map_of d p = None"
    and "es \<noteq> []" "\<forall>e \<in> set es. loggable L e"
  shows "\<exists>s d' m. seg_append_all L (fst (seg_new p d)) es (snd (seg_new p d)) = Some (Inr (s, d')) \<and>
     to_skiplist L ht rng s d' = Some (Inr m) \<and> sl_iter m = Some (put_all es [])"
proof -
  have "sorted_kv (snd (seg_new p d))"
    using assms(3) by (simp add: seg_new_def fs_create_def sorted_ins_kv split: option.splits)
  from seg_append_all_holds [OF assms(1) seg_holds_new [OF assms(3,4)] this assms(6)]
  obtain s d' where s: "seg_append_all L (fst (seg_new p d)) es (snd (seg_new p d)) = Some (Inr (s, d'))"
    "seg_holds L s d' es" by auto
  with to_skiplist_ok [OF assms(1,2) s(2) assms(5), of ht rng] show ?thesis
    using iter_ok by blast
qed

lemma demo_loggable [simp]: "length k + length v < 100 \<Longrightarrow> loggable demo_libs (k, v)"
  by (auto simp: loggable_def rec_ok_def demo_libs_def)

theorem wal_segment_recovery_witness:
  "\<exists>s d' m. seg_append_all demo_libs (fst (seg_new ''0.wal'' [])) [([98], [1]), ([97], [2]), ([98], [])]
       (snd (seg_new ''0.wal'' [])) = Some (Inr (s, d')) \<and>
     to_skiplist demo_libs 4 (sconst 0) s d' = Some (Inr m) \<and> sl_iter m = Some [([97], [2]), ([98], [])]"
  using wal_segment_recovery [OF demo_fixed_ok demo_snappy_ok, of "[]" "''0.wal''"
      "[([98], [1]), ([97], [2]), ([98], [])]" 4 "sconst 0"] by simp

text \<open>the padding of a record.  It is at most seven bytes, and makes the length of the
  record, with its two four-byte length fields, four more than a multiple of eight.\<close>

theorem wal_record_length:
  assumes "fixed_ok L"
  shows "\<exists>b. wal_record L kb vb = Some b \<and> padding (length kb + length vb) \<le> 7 \<and> length b mod 8 = 4 \<and>
     length b = 8 + length kb + length vb + padding (length kb + length vb)"
proof -
  let ?n = "length kb + length vb"
  have "(8 + n + padding n) mod 8 = 4" for n
  proof -
    have "(8 + n + padding n) mod 8 = (8 + n + (4 + 7 * n)) mod 8"
      unfolding padding_mod by (rule mod_add_right_eq)
    also have "8 + n + (4 + 7 * n) = 4 + (1 + n) * 8" by simp
    finally show ?thesis by (simp only: mod_mult_self1) simp
  qed
  from this [of ?n] have "(8 + ?n + padding ?n) mod 8 = 4" .
  with wal_record_eq [OF assms] length_rec_bytes [OF assms, of kb vb] padding_le [of ?n] show ?thesis
    by (metis add.assoc)
qed

theorem wal_record_length_witness:
  "\<exists>b. wal_record demo_libs [0, 97] [0, 1, 2] = Some b \<and> length b = 20"
  using wal_record_length [OF demo_fixed_ok, of "[0, 97]" "[0, 1, 2]"] by (auto simp: padding_mod)

lemma wi_next_end_of_data:
  assumes L: "fixed_ok L" "snappy_ok L" and z: "rec_ok L e (kb, vb)" and t: "8 + length kb + length vb \<le> t"
  shows "wi_collect L (wi_at (pre @ take t (rec_bytes L kb vb)) (length pre)) = Some [e]"
proof -
  let ?b = "pre @ take t (rec_bytes L kb vb)"
  have "length (rec_data L kb vb) \<le> t" using t L(1) by (simp add: rec_data_def)
  then obtain post where b: "?b = pre @ rec_data L kb vb @ post" by (simp add: rec_bytes_data)
  have "wi_next L (wi_at ?b (length pre)) = Some (Some e, wi_at ?b (length pre + length (rec_bytes L kb vb)))"
    using wi_next_data [OF L z, of ?b pre post] b by simp
  then show ?thesis by (subst wi_collect.simps) (simp add: wi_collect_end)
qed

lemma rec_ok_unique: "list_all2 (rec_ok L) es zs \<Longrightarrow> list_all2 (rec_ok L) es zs' \<Longrightarrow> zs = zs'"
proof (induction arbitrary: zs' rule: list_all2_induct)
  case (Cons e es z zs)
  from Cons.prems obtain y ys where y: "zs' = y # ys" "rec_ok L e y" "list_all2 (rec_ok L) es ys" by (auto simp: list_all2_Cons1)
  then have "z = y" using Cons.hyps(1) by (simp add: rec_ok_def prod_eq_iff)
  then show ?case using y(1) Cons.IH [OF y(3)] by simp
qed simp

lemma to_skiplist_cut:
  assumes L: "fixed_ok L" "snappy_ok L" and es: "list_all2 (rec_ok L) es zs" and z: "rec_ok L e (kb, vb)" and t: "0 < t"
    and f: "map_of d (seg_path s) = Some (log_bytes L zs @ take t (rec_bytes L kb vb))"
  shows "if t < 8 + length kb + length vb then to_skiplist L ht rng s d = None
     else \<exists>m. to_skiplist L ht rng s d = Some (Inr m) \<and> sl_iter m = Some (put_all (es @ [e]) [])"
proof -
  let ?f = "log_bytes L zs @ take t (rec_bytes L kb vb)"
  have ne: "?f \<noteq> []" using t length_rec_bytes [OF L(1), of kb vb] by auto
  have c: "wi_collect L (wi_at ?f 0) = map_option ((@) es) (wi_collect L (wi_at ?f (length (log_bytes L zs))))"
    using wi_collect_prefix [OF L es, of "[]"] by simp
  have "kb \<noteq> []" using z L(2) unfolding snappy_ok_def rec_ok_def by fastforce
  then have n: "length kb + length vb < u32_bound" "0 < length kb + length vb" using z by (simp_all add: rec_ok_def)
  show ?thesis
  proof (cases "t < 8 + length kb + length vb")
    case True
    from wi_next_torn [OF L(1) n t True refl] have "wi_collect L (wi_at ?f (length (log_bytes L zs))) = None"
      by (subst wi_collect.simps) simp
    then have "to_skiplist L ht rng s d = None" using c ne f by (simp add: to_skiplist_def wi_new_def wi_at_def)
    then show ?thesis using True by simp
  next
    case False
    then have "wi_collect L (wi_at ?f 0) = Some (es @ [e])" using c wi_next_end_of_data [OF L z] by simp
    from to_skiplist_collect [OF f ne this, of ht rng] obtain m where
      "to_skiplist L ht rng s d = Some (Inr m)" "sl_iter m = Some (put_all (es @ [e]) [])" using iter_ok by blast
    then show ?thesis using False by simp
  qed
qed

text \<open>C36: a torn tail.  When the machine stops in the middle of an append, so that only a part of
  the last record is in the file, what recovery does depends on where the record is cut.  Cut
  within its two lengths, its key or its value, reading the segment back panics instead of
  returning the complete records before it; cut within the at most seven bytes of padding at its
  end, the record is read in full, and so are those before it.\<close>

theorem wal_torn_tail:
  assumes "fixed_ok L" "snappy_ok L" "sorted_kv d" "map_of d p = None" "\<forall>e \<in> set es. loggable L e"
    and "compress_vec L k = Inr kb" "compress_vec L v = Inr vb" "length kb + length vb < u32_bound"
  shows "\<exists>s d1 s' d2 f b. seg_append_all L (fst (seg_new p d)) es (snd (seg_new p d)) = Some (Inr (s, d1)) \<and>
     map_of d1 p = Some f \<and> seg_append L s k v d1 = Some (Inr (s', d2)) \<and> map_of d2 p = Some (f @ b) \<and>
     length b = 8 + length kb + length vb + padding (length kb + length vb) \<and>
     (\<forall>t d3. 0 < t \<longrightarrow> t < length b \<longrightarrow> map_of d3 p = Some (f @ take t b) \<longrightarrow>
        (if t < 8 + length kb + length vb then to_skiplist L ht rng s' d3 = None
         else \<exists>m. to_skiplist L ht rng s' d3 = Some (Inr m) \<and> sl_iter m = Some (put_all (es @ [(k, v)]) [])))"
proof -
  note L = assms(1,2)
  have "sorted_kv (snd (seg_new p d))"
    using assms(3) by (simp add: seg_new_def fs_create_def sorted_ins_kv split: option.splits)
  from seg_append_all_holds [OF L(1) seg_holds_new [OF assms(3,4)] this assms(5)]
  obtain s d1 where s: "seg_append_all L (fst (seg_new p d)) es (snd (seg_new p d)) = Some (Inr (s, d1))"
    "seg_holds L s d1 es" "seg_path s = p" "sorted_kv d1" by (auto simp: seg_new_def)
  then obtain zs where zs: "list_all2 (rec_ok L) es zs" "map_of d1 p = Some (log_bytes L zs)" by (auto simp: seg_holds_def)
  obtain s' d2 where a: "seg_append L s k v d1 = Some (Inr (s', d2))" "seg_holds L s' d2 (es @ [(k, v)])" "seg_path s' = p"
    using seg_append_holds [OF L(1) s(2,4) assms(6-8)] s(3) by auto
  have z: "rec_ok L (k, v) (kb, vb)" using assms(6-8) by (simp add: rec_ok_def)
  have "list_all2 (rec_ok L) (es @ [(k, v)]) (zs @ [(kb, vb)])" using zs(1) z by (simp add: list_all2_appendI)
  moreover obtain zs2 where zs2: "list_all2 (rec_ok L) (es @ [(k, v)]) zs2" "map_of d2 p = Some (log_bytes L zs2)"
    using a(2,3) by (auto simp: seg_holds_def)
  ultimately have "zs2 = zs @ [(kb, vb)]" using rec_ok_unique by blast
  then have "map_of d2 p = Some (log_bytes L zs @ rec_bytes L kb vb)" using zs2(2) by (simp add: log_bytes_snoc)
  moreover note to_skiplist_cut [OF L zs(1) z, where s = s' and ht = ht and rng = rng, unfolded a(3)]
  ultimately show ?thesis using s(1) zs(2) a(1) length_rec_bytes [OF L(1), of kb vb] by blast
qed

theorem wal_torn_tail_witness:
  "\<exists>s' f b m. length b = 20 \<and> to_skiplist demo_libs 4 (sconst 0) s' [(''0.wal'', f @ take 12 b)] = None \<and>
     to_skiplist demo_libs 4 (sconst 0) s' [(''0.wal'', f @ take 15 b)] = Some (Inr m) \<and> sl_iter m = Some [([97], [1]), ([98], [2, 3])]"
proof -
  let ?cut = "\<lambda>f b t. [(''0.wal'', f @ take t b)]"
  let ?kb = "[0, 98] :: bytes" and ?vb = "[0, 2, 3] :: bytes"
  have c: "compress_vec demo_libs [98] = Inr ?kb" "compress_vec demo_libs [2, 3] = Inr ?vb" by (simp_all add: demo_libs_def)
  have h: "sorted_kv ([] :: fs)" "map_of ([] :: fs) ''0.wal'' = None" "\<forall>e \<in> set [([97], [1])]. loggable demo_libs e"
    "length ?kb + length ?vb < u32_bound" by simp_all
  obtain s' f b where l: "length b = 8 + length ?kb + length ?vb + padding (length ?kb + length ?vb)"
    and t: "\<forall>t d3. 0 < t \<longrightarrow> t < length b \<longrightarrow> map_of d3 ''0.wal'' = Some (f @ take t b) \<longrightarrow>
        (if t < 8 + length ?kb + length ?vb then to_skiplist demo_libs 4 (sconst 0) s' d3 = None
         else \<exists>m. to_skiplist demo_libs 4 (sconst 0) s' d3 = Some (Inr m) \<and> sl_iter m = Some (put_all ([([97], [1])] @ [([98], [2, 3])]) []))"
    using wal_torn_tail [OF demo_fixed_ok demo_snappy_ok h(1-3) c h(4), of 4 "sconst 0"] by (elim exE conjE) (rule that)
  have "length b = 20" using l by (simp add: padding_mod)
  then show ?thesis using t [rule_format, of 12 "?cut f b 12"] t [rule_format, of 15 "?cut f b 15"] by auto
qed

subsection \<open>The sequence of segments\<close>

datatype wal_op = Log bytes bytes | Rotate | Consume

definition wal_step ::
  "('f, 'c) libs \<Rightarrow> wal_op \<Rightarrow> wal \<times> fs \<Rightarrow> (status, wal \<times> fs) fallible" where
  "wal_step L a wd =
     (case a of
        Log k v \<Rightarrow> wal_append L (fst wd) k v (snd wd)
      | Rotate \<Rightarrow> Some (Inr (new_seg (fst wd) (snd wd)))
      | Consume \<Rightarrow> Some (consume_seg (fst wd) (snd wd)))"

fun wal_run :: "('f, 'c) libs \<Rightarrow> wal_op list \<Rightarrow> wal \<times> fs \<Rightarrow> (status, wal \<times> fs) fallible" where
  "wal_run L [] wd = Some (Inr wd)"
| "wal_run L (a # as) wd = tryO (wal_step L a wd) (wal_run L as)"

text \<open>The abstract log: a queue of lists of entries.\<close>

fun spec_wal :: "wal_op \<Rightarrow> entry list list \<Rightarrow> entry list list" where
  "spec_wal (Log k v) ess =
     (if ess = [] then [[(k, v)]] else butlast ess @ [last ess @ [(k, v)]])"
| "spec_wal Rotate ess = ess @ [[]]"
| "spec_wal Consume ess = tl ess"

fun op_ok :: "('f, 'c) libs \<Rightarrow> wal_op \<Rightarrow> bool" where
  "op_ok L (Log k v) = loggable L (k, v)"
| "op_ok L _ = True"

lemma wal_step_holds:
  assumes L: "fixed_ok L" and h: "wal_holds L w d ess" and a: "op_ok L a"
    and n: "current_file_num w < usize_bound"
  shows "\<exists>w' d'. wal_step L a (w, d) = Some (Inr (w', d')) \<and> wal_holds L w' d' (spec_wal a ess) \<and>
     current_file_num w' \<le> Suc (current_file_num w)"
proof (cases a)
  case (Log k v)
  with a have "loggable L (k, v)" by simp
  from wal_append_any [OF L h this n] show ?thesis
    by (elim exE, simp add: Log wal_step_def split del: if_split) simp
next
  case Rotate
  with new_seg_ok [OF h n] show ?thesis by (auto simp: wal_step_def)
next
  case Consume
  show ?thesis
  proof (cases ess)
    case Nil
    then have "segs w = []" using h by (simp add: wal_holds_def)
    with Nil Consume h show ?thesis by (simp add: wal_step_def consume_seg_def)
  next
    case (Cons es ess')
    with consume_seg_ok [OF h [unfolded Cons]] Consume show ?thesis by (auto simp: wal_step_def)
  qed
qed

lemma wal_run_holds:
  assumes "fixed_ok L"
  shows "wal_holds L w d ess \<Longrightarrow> \<forall>a \<in> set as. op_ok L a \<Longrightarrow> current_file_num w + length as < usize_bound \<Longrightarrow>
    \<exists>w' d'. wal_run L as (w, d) = Some (Inr (w', d')) \<and> wal_holds L w' d' (fold spec_wal as ess)"
proof (induction as arbitrary: w d ess)
  case (Cons a as)
  obtain w1 d1 where s: "wal_step L a (w, d) = Some (Inr (w1, d1))" "wal_holds L w1 d1 (spec_wal a ess)"
    "current_file_num w1 \<le> Suc (current_file_num w)"
    using wal_step_holds [OF assms Cons.prems(1), of a] Cons.prems(2,3) by auto
  from Cons.IH [OF s(2)] Cons.prems(2,3) s(1,3) show ?case by simp
qed simp

lemma wal_iter_holds:
  assumes L: "fixed_ok L" "snappy_ok L"
  shows "list_all2 (\<lambda>s es. seg_holds L s d es) ss ess \<Longrightarrow>
    wal_iter L ss d = (if [] \<in> set ess then None else Some (concat ess))"
proof (induction rule: list_all2_induct)
  case (Cons s ss es ess)
  then obtain zs where zs: "list_all2 (rec_ok L) es zs" "map_of d (seg_path s) = Some (log_bytes L zs)"
    by (auto simp: seg_holds_def)
  show ?case
  proof (cases "es = []")
    case True
    then have "wi_new (seg_path s) d = Inl (from_io KOther ''memory map must have a non-zero length'')"
      using zs by (simp add: wi_new_def log_bytes_def)
    with True show ?thesis by simp
  next
    case False
    then have "zs \<noteq> []" using zs(1) by auto
    then have "wi_new (seg_path s) d = Inr (wi_at (log_bytes L zs) 0)"
      using zs(2) L(1) by (simp add: wi_new_def wi_at_def)
    moreover have "wi_collect L (wi_at (log_bytes L zs) 0) = Some es"
      using wi_collect_log [OF L zs(1)] by simp
    ultimately show ?thesis using False Cons.IH by simp
  qed
qed simp

text \<open>C22: the log is a queue of segments.  Any sequence of appends, new segments and consumed
  segments, started on an empty directory, succeeds; afterwards the log has the segments the
  abstract queue has, and iterating over it returns their records in order, oldest first.  An
  empty segment among them (a new one that nothing was appended to yet) makes the iteration
  panic.\<close>

theorem wal_is_queue:
  assumes "fixed_ok L" "snappy_ok L" "\<forall>a \<in> set as. op_ok L a" "length as < usize_bound"
  shows "\<exists>w d w' d'. wal_new (\<lambda>_. []) [] = Some (w, d) \<and> wal_run L as (w, d) = Some (Inr (w', d')) \<and>
     seg_count w' = length (fold spec_wal as []) \<and>
     wal_iter L (segs w') d' =
       (if [] \<in> set (fold spec_wal as []) then None else Some (concat (fold spec_wal as [])))"
proof -
  let ?w = "\<lparr>segs = [], current_file_num = 0\<rparr>"
  have n: "wal_new (\<lambda>_. []) [] = Some (?w, [])" by (simp add: wal_new_def)
  have "wal_holds L ?w [] []" by (simp add: wal_holds_def wal_fresh_def wal_files_def)
  from wal_run_holds [OF assms(1) this assms(3)] assms(4) obtain w' d' where
    r: "wal_run L as (?w, []) = Some (Inr (w', d'))" "wal_holds L w' d' (fold spec_wal as [])" by auto
  then have l: "list_all2 (\<lambda>s es. seg_holds L s d' es) (segs w') (fold spec_wal as [])"
    by (simp add: wal_holds_def)
  from n r(1) wal_iter_holds [OF assms(1,2) l] list_all2_lengthD [OF l] show ?thesis
    by (simp add: seg_count_def)
qed

theorem wal_is_queue_witness:
  "\<exists>w d w' d'. wal_new (\<lambda>_. []) [] = Some (w, d) \<and>
     wal_run demo_libs [Log [97] [1], Rotate, Log [98] [2], Log [97] [3], Rotate, Log [99] [], Consume] (w, d) =
       Some (Inr (w', d')) \<and>
     seg_count w' = 2 \<and> wal_iter demo_libs (segs w') d' = Some [([98], [2]), ([97], [3]), ([99], [])]"
  using wal_is_queue [OF demo_fixed_ok demo_snappy_ok,
      of "[Log [97] [1], Rotate, Log [98] [2], Log [97] [3], Rotate, Log [99] [], Consume]"]
  by (simp del: wal_run.simps, simp only: numeral_2_eq_2)

end
