(* ===== verification/Sstable_Props.thy ===== *)
theory Sstable_Props
  imports Sstable_Total Lib_Instance
begin

text \<open>
  The properties of whole tables: what was added is what lookups and iteration return, with
  the shared block cache in between; and the one case in which a lookup misses a key that was
  added.
\<close>

subsection \<open>Looking up a sequence of keys\<close>

text \<open>Each lookup leaves the cache, and the reader's miss counter, to the next one.\<close>

fun tr_get_all ::
  "('f, 'c) libs \<Rightarrow> 'f table_reader \<Rightarrow> 'c cache \<Rightarrow> bytes list \<Rightarrow> bytes option list option" where
  "tr_get_all L t c [] = Some []"
| "tr_get_all L t c (k # ks) =
     Option.bind (tr_get L t c k) (\<lambda>(r, t', c').
       Option.bind (tr_get_all L t' c' ks) (\<lambda>rs. Some (r # rs)))"

lemma tr_get_all_ok:
  "table_ok L I t bs \<Longrightarrow> table_in L M t bs \<Longrightarrow> cache_agrees L M c \<Longrightarrow>
   tr_get_all L t c ks = Some (map (lookup_block bs) ks)"
proof (induction ks arbitrary: t c)
  case (Cons k ks)
  obtain n c' where g: "tr_get L t c k = Some (lookup_block bs k, t\<lparr>tr_seek_miss_count := n\<rparr>, c')"
    "cache_agrees L M c'" using tr_get_ok [OF Cons.prems] by blast
  with Cons.IH [of "t\<lparr>tr_seek_miss_count := n\<rparr>" c'] Cons.prems show ?case by simp
qed simp

lemma new_cache_agrees:
  assumes "lru_ok L" "cache_new L cap = Some c"
  shows "cache_agrees L M (snd (new_cache_id c))"
proof -
  have "fst (lru_get L (lru_new L cap) k) = None" for k using assms(1) unfolding lru_ok_def by blast
  then show ?thesis
    using assms(2) by (auto simp: cache_new_def new_cache_id_def cache_agrees_def split: if_splits)
qed

text \<open>C13: a table answers lookups as the map it was built from.  Adding entries in strictly
  increasing key order, flushing and opening the file again succeed, as long as the crates serve
  the keys and the entries are within the size of a table; any sequence of lookups then finds
  what was added and nothing else, whatever blocks the lookups leave in the cache, provided no
  two neighbouring keys differ by an appended zero byte only.\<close>

theorem sstable_lookup:
  assumes "table_libs_ok L" "crates_serve L (fst ` set es)" "0 < block_restart_interval opt" "8 \<le> block_size opt"
    and "sorted_wrt (<) (map fst es)" "keys_nonempty es" "es \<noteq> []" "enc_size es < u32_bound"
    and "cache_new L cap = Some c" "zero_extension_free es"
  shows "\<exists>t1 t2 r c'. tb_add_all L (tb_new L path opt) es = Some (Inr t1) \<and> tb_flush L t1 = Some (Inr t2) \<and>
           tr_new L name (tb_file t2) opt' c = Some (Inr (r, c')) \<and>
           tr_get_all L r c' ks = Some (map (map_of es) ks)"
proof -
  obtain t1 t2 where b: "tb_add_all L (tb_new L path opt) es = Some (Inr t1)" "tb_flush L t1 = Some (Inr t2)"
    "length (tb_file t2) < usize_bound" using build_total [OF assms(1-5,7) subset_refl assms(8)] by blast
  obtain r bs where r: "tr_new L name (tb_file t2) opt' c = Some (Inr (r, snd (new_cache_id c)))"
    "table_ok L (block_restart_interval opt) r bs" "table_entries bs = es"
    "distinct (map (offset \<circ> tk_handle) bs)"
    using build_open [OF assms(1,3-8) b] by blast
  have lib: "fixed_ok L" "lru_ok L" using assms(1) by (auto simp: table_libs_ok_def)
  have "tr_get_all L r (snd (new_cache_id c)) ks = Some (map (lookup_block bs) ks)"
    using tr_get_all_ok [OF r(2) table_in_map [OF lib(1) r(2,4)]] new_cache_agrees [OF lib(2) assms(9)] by blast
  then show ?thesis
    using b(1,2) r(1,3) zero_extension_lookup [OF r(2)] assms(10) by auto
qed

text \<open>A table of three entries in two blocks.\<close>

definition demo_table_opt :: options where
  "demo_table_opt = \<lparr>block_size = 12, block_restart_interval = 2, compress_type = CSnappy\<rparr>"

definition demo_table :: "entry list" where
  "demo_table = [([97], [1]), ([97, 98], [2, 2]), ([98], [3])]"

definition demo_cache :: "(bytes \<times> block) list cache" where
  "demo_cache = \<lparr>cache_inner = [], cache_id = 0\<rparr>"

lemma demo_table_ok:
  "0 < block_restart_interval demo_table_opt" "8 \<le> block_size demo_table_opt"
  "sorted_wrt (<) (map fst demo_table)" "keys_nonempty demo_table" "demo_table \<noteq> []"
  "enc_size demo_table < u32_bound" "zero_extension_free demo_table"
  "cache_new demo_libs 2048 = Some demo_cache" "table_libs_ok demo_libs"
  by (auto simp: demo_table_opt_def demo_table_def keys_nonempty_def zero_extension_free_def less_Suc_eq
      cache_new_def demo_cache_def table_libs_ok_def demo_ok)
    (simp_all add: demo_libs_def)

lemmas build_eval = tb_new_def tb_add_def bb_new_def bb_new_with_buffer_def size_estimate_def bb_add_def
  demo_libs_def entry_bytes_def leb_enc.simps resize_def Let_def write_data_block_def bb_flush_def
  bb_seal_def bb_finish_def bh_def bh_encode_to_def overwrite_def subslice_def find_shortest_sep_def
  sep_scan.simps BLOCK_CTYPE_LEN_def bb_reset_def tb_flush_def find_short_succ_def mb_flush_def
  mb_new_def mb_reset_def footer_flush_def footer_encode_def FULL_FOOTER_LENGTH_def FOOTER_LENGTH_def
  slice_from_def write_at_def

lemma demo_crates_serve: "crates_serve demo_libs {k. length k < 256}"
proof -
  have "varint_grows demo_libs" by (simp add: varint_grows_def demo_libs_def leb_length)
  moreover have "snappy_bounded demo_libs" by (simp add: snappy_bounded_def demo_libs_def)
  moreover have "\<exists>f. cf_add_all demo_libs f ks = Inr f" for f ks
    by (induction ks) (simp_all add: demo_libs_def)
  then have "cf_add_all demo_libs (cf_new demo_libs) ks = Inr ()" for ks by (metis unit.exhaust)
  then have "filter_serves demo_libs {k. length k < 256}"
    by (auto simp: filter_serves_def) (simp add: demo_libs_def mb_new_def)
  ultimately show ?thesis by (simp add: crates_serve_def)
qed

lemma demo_table_serve: "crates_serve demo_libs (fst ` set demo_table)"
  by (rule crates_serve_mono [OF demo_crates_serve]) (simp add: demo_table_def)

theorem sstable_lookup_witness:
  "\<exists>t1 t2 r c'. tb_add_all demo_libs (tb_new demo_libs ''t'' demo_table_opt) demo_table = Some (Inr t1) \<and>
     tb_flush demo_libs t1 = Some (Inr t2) \<and>
     tr_new demo_libs ''t'' (tb_file t2) demo_table_opt demo_cache = Some (Inr (r, c')) \<and>
     tr_get_all demo_libs r c' [[97, 98], [97], [98], [97, 97], [97, 98]] =
       Some [Some [2, 2], Some [1], Some [3], None, Some [2, 2]]"
  using sstable_lookup [OF demo_table_ok(9) demo_table_serve demo_table_ok(1-6,8,7), of "''t''" "''t''" demo_table_opt
      "[[97, 98], [97], [98], [97, 97], [97, 98]]"] by (simp add: demo_table_def)

text \<open>C15: iterating over a table returns its entries.  Adding entries in strictly increasing key
  order, flushing and opening the file again succeed, and the entries come out of the table
  iterator exactly as they went in, across the boundaries of the blocks; the iterator neither
  panics nor loops, and it stops.\<close>

theorem sstable_iteration:
  assumes "table_libs_ok L" "crates_serve L (fst ` set es)" "0 < block_restart_interval opt" "8 \<le> block_size opt"
    and "sorted_wrt (<) (map fst es)" "keys_nonempty es" "es \<noteq> []" "enc_size es < u32_bound" "cache_new L cap = Some c"
  shows "\<exists>t1 t2 r c' it it'. tb_add_all L (tb_new L path opt) es = Some (Inr t1) \<and> tb_flush L t1 = Some (Inr t2) \<and>
           tr_new L name (tb_file t2) opt' c = Some (Inr (r, c')) \<and> ti_new L r c' = Some it \<and>
           ss_drain (ti_advance L r) (ss_current_kv ti_valid ti_current_k ti_current_v) it [] = Some (es, it')"
proof -
  obtain t1 t2 where b: "tb_add_all L (tb_new L path opt) es = Some (Inr t1)" "tb_flush L t1 = Some (Inr t2)"
    "length (tb_file t2) < usize_bound" using build_total [OF assms(1-5,7) subset_refl assms(8)] by blast
  obtain r bs where r: "tr_new L name (tb_file t2) opt' c = Some (Inr (r, snd (new_cache_id c)))"
    "table_ok L (block_restart_interval opt) r bs" "table_entries bs = es"
    "distinct (map (offset \<circ> tk_handle) bs)"
    using build_open [OF assms(1,3-8) b] by blast
  have lib: "fixed_ok L" "lru_ok L" using assms(1) by (auto simp: table_libs_ok_def)
  obtain it where it: "ti_new L r (snd (new_cache_id c)) = Some it"
    "ti_pos L (block_restart_interval opt) (table_map L r bs) r bs (cache_id (snd (new_cache_id c))) it es 0"
    using ti_new_ok [OF r(2) table_in_map [OF lib(1) r(2,4)] new_cache_agrees [OF lib(2) assms(9)]] r(3) by blast
  then show ?thesis using b(1,2) r(1) ti.drain_from [OF it(2) assms(6), of "[]"] by auto
qed

theorem sstable_iteration_witness:
  "\<exists>t1 t2 r c' it it'. tb_add_all demo_libs (tb_new demo_libs ''t'' demo_table_opt) demo_table = Some (Inr t1) \<and>
     tb_flush demo_libs t1 = Some (Inr t2) \<and>
     tr_new demo_libs ''t'' (tb_file t2) demo_table_opt demo_cache = Some (Inr (r, c')) \<and>
     ti_new demo_libs r c' = Some it \<and>
     ss_drain (ti_advance demo_libs r) (ss_current_kv ti_valid ti_current_k ti_current_v) it [] = Some (demo_table, it')"
  by (rule sstable_iteration [OF demo_table_ok(9) demo_table_serve demo_table_ok(1-6,8)])

subsection \<open>The missed key\<close>

lemma between_zero_extension:
  fixes a s :: bytes
  shows "a < s \<Longrightarrow> s \<le> a @ [0] \<Longrightarrow> s = a @ [0]"
proof (induction a arbitrary: s)
  case Nil
  then show ?case by (cases s) auto
next
  case (Cons x a)
  then show ?case by (cases s) auto
qed

lemma tb_add_all_append:
  "tb_add_all L t (xs @ ys) = tryO (tb_add_all L t xs) (\<lambda>t'. tb_add_all L t' ys)"
  by (induction L t xs rule: tb_add_all.induct) (auto simp: tryO_def split: option.splits sum.splits)

lemma lookup_before_sep:
  assumes "\<not> tk_sep b < k" "\<forall>e \<in> set (table_entries (bs @ [b])). fst e < k"
  shows "lookup_block (bs @ b # cs) k = None"
proof -
  let ?j = "length (takeWhile (\<lambda>b. tk_sep b < k) (bs @ b # cs))"
  have j: "?j \<le> length bs" using assms(1) length_takeWhile_le [of _ bs] by (simp add: takeWhile_append)
  then have "(bs @ b # cs) ! ?j \<in> set (bs @ [b])" by (cases "?j = length bs") (auto simp: nth_append simp del: takeWhile_append)
  then have "set (tk_entries ((bs @ b # cs) ! ?j)) \<subseteq> set (table_entries (bs @ [b]))" by (auto simp: table_entries_def)
  then have "map_of (tk_entries ((bs @ b # cs) ! ?j)) k = None" using assms(2) by (fastforce simp: map_of_eq_None_iff)
  then show ?thesis by (simp add: lookup_block_def Let_def)
qed

text \<open>C35: a key can be lost to lookups.  When the block being built is full after the key \<open>a\<close> and
  the next key is \<open>a\<close> with a zero byte appended, the separator in the index equals that next key:
  the table is built and opened without an error, whatever entries come before and after, but a
  lookup of that next key goes to the block before its own and does not find it, although it was
  added.\<close>

theorem sstable_lookup_misses:
  assumes L: "table_libs_ok L" "crates_serve L (fst ` set es)" and I: "0 < block_restart_interval opt" "8 \<le> block_size opt"
    and es: "es = xs @ (a, v) # (a @ [0], w) # ys" and so: "sorted_wrt (<) (map fst es)" and kn: "keys_nonempty es"
    and sz: "enc_size es < u32_bound" and c: "cache_new L cap = Some c"
    and t0: "tb_add_all L (tb_new L path opt) (xs @ [(a, v)]) = Some (Inr t0)"
    and full: "block_size opt < size_estimate (data_block t0)"
  shows "\<exists>t1 t2 r c'. tb_add_all L (tb_new L path opt) es = Some (Inr t1) \<and> tb_flush L t1 = Some (Inr t2) \<and>
     tr_new L name (tb_file t2) opt' c = Some (Inr (r, c')) \<and> tr_get_all L r c' [a @ [0]] = Some [None]"
proof -
  have lib: "fixed_ok L" "lru_ok L" using L(1) by (auto simp: table_libs_ok_def)
  obtain t1 t2 where t1: "tb_add_all L (tb_new L path opt) es = Some (Inr t1)" "tb_flush L t1 = Some (Inr t2)"
    "length (tb_file t2) < usize_bound" using build_total [OF L I so _ subset_refl sz] es by blast
  have "tryO (tb_add L t0 (a @ [0]) w) (\<lambda>t'. tb_add_all L t' ys) = Some (Inr t1)"
    using t1(1) t0 tb_add_all_append [of L "tb_new L path opt" "xs @ [(a, v)]" "(a @ [0], w) # ys"] by (simp add: es)
  then obtain t' where t': "tb_add L t0 (a @ [0]) w = Some (Inr t')" "tb_add_all L t' ys = Some (Inr t1)" by (auto simp: tryO_eq_Ok)
  have so0: "sorted_wrt (<) (map fst (xs @ [(a, v)]))" using so by (auto simp: es sorted_wrt_append)
  obtain bs0 cur0 where i0: "tb_inv L opt t0 bs0 cur0" "cur0 = [] \<longrightarrow> bs0 = []" "table_entries bs0 @ cur0 = xs @ [(a, v)]"
    using tb_add_all_inv [OF L(1) I tb_inv_new [OF I(1), of L path] _ _ _ t0] so0 sz by (auto simp: table_entries_def es)
  have l: "cur0 \<noteq> []" "fst (last cur0) = a" using i0(2,3) by (auto simp: table_entries_def) (metis fst_conv last_appendR last_snoc)
  have "sorted_wrt (<) (map fst ((xs @ [(a, v)]) @ [(a @ [0], w)]))" using so by (auto simp: es sorted_wrt_append)
  then have "sorted_wrt (<) (map fst (table_entries bs0 @ cur0 @ [(a @ [0], w)]))" by (simp flip: i0(3))
  moreover have "enc_size (table_entries bs0 @ cur0) < u32_bound" using sz unfolding i0(3) by (simp add: es)
  ultimately obtain b where b: "tk_entries b = cur0" "tb_inv L opt t' (bs0 @ [b]) [(a @ [0], w)]"
    using tb_add_boundary [OF L(1) I(1) i0(1) l(1) _ _ full t'(1)] by blast
  have e1: "table_entries (bs0 @ [b]) = xs @ [(a, v)]" using b(1) i0(3) by (simp add: table_entries_def)
  obtain cs cur1 where i1: "tb_inv L opt t1 (bs0 @ [b] @ cs) cur1" "cur1 \<noteq> []" "table_entries (bs0 @ [b] @ cs) @ cur1 = es"
    using tb_add_all_inv [OF L(1) I b(2) _ _ _ t'(2)] so sz unfolding e1 by (auto simp: es)
  obtain r b' where r: "tr_new L name (tb_file t2) opt' c = Some (Inr (r, snd (new_cache_id c)))"
    "table_ok L (block_restart_interval opt) r ((bs0 @ [b] @ cs) @ [b'])"
    "distinct (map (offset \<circ> tk_handle) ((bs0 @ [b] @ cs) @ [b']))"
    using flush_open [OF L(1) I(1) i1 so kn sz t1(2,3), of name opt' c] by blast
  have "a < tk_sep b" using tb_invD(7) [OF b(2), of b] b(1) l(2) by (simp add: blk_built_def)
  moreover have "tk_sep b \<le> a @ [0]" using tb_invD(10) [OF b(2)] by (simp add: sep_upto_def)
  ultimately have "tk_sep b = a @ [0]" by (rule between_zero_extension)
  then have "\<not> tk_sep b < a @ [0]" by simp
  moreover have "\<forall>e \<in> set (table_entries (bs0 @ [b])). fst e < a @ [0]" using so unfolding e1 by (auto simp: es sorted_wrt_append)
  ultimately have "lookup_block ((bs0 @ [b] @ cs) @ [b']) (a @ [0]) = None" using lookup_before_sep by simp
  then show ?thesis
    using t1(1,2) r(1) tr_get_all_ok [OF r(2) table_in_map [OF lib(1) r(2,3)] new_cache_agrees [OF lib(2) c], of "[a @ [0]]"] by auto
qed

text \<open>Four entries; the second one fills the block.\<close>

lemma demo_miss_build:
  "\<exists>t0. tb_add_all demo_libs (tb_new demo_libs ''t'' \<lparr>block_size = 16, block_restart_interval = 2, compress_type = CNone\<rparr>)
      ([([96], [9])] @ [([97], [1])]) = Some (Inr t0) \<and> 16 < size_estimate (data_block t0)"
  by (simp add: build_eval tb_add_all.simps)

theorem sstable_lookup_misses_witness:
  "\<exists>t1 t2 r c'. tb_add_all demo_libs (tb_new demo_libs ''t'' \<lparr>block_size = 16, block_restart_interval = 2, compress_type = CNone\<rparr>)
      [([96], [9]), ([97], [1]), ([97, 0], [2]), ([98], [3])] = Some (Inr t1) \<and> tb_flush demo_libs t1 = Some (Inr t2) \<and>
     tr_new demo_libs ''t'' (tb_file t2) demo_table_opt demo_cache = Some (Inr (r, c')) \<and>
     tr_get_all demo_libs r c' [[97, 0]] = Some [None]"
proof -
  let ?opt = "\<lparr>block_size = 16, block_restart_interval = 2, compress_type = CNone\<rparr>"
  let ?es = "[([96], [9]), ([97], [1]), ([97, 0], [2]), ([98], [3])] :: entry list"
  obtain t0 where t0: "tb_add_all demo_libs (tb_new demo_libs ''t'' ?opt) ([([96], [9])] @ [([97], [1])]) = Some (Inr t0)"
    "block_size ?opt < size_estimate (data_block t0)" using demo_miss_build by auto
  have s: "crates_serve demo_libs (fst ` set ?es)" by (rule crates_serve_mono [OF demo_crates_serve]) simp
  have e: "?es = [([96], [9])] @ ([97], [1]) # ([97] @ [0], [2]) # [([98], [3])]" by simp
  have "0 < block_restart_interval ?opt" "8 \<le> block_size ?opt" "sorted_wrt (<) (map fst ?es)" "keys_nonempty ?es" "enc_size ?es < u32_bound"
    by (simp_all add: keys_nonempty_def)
  from sstable_lookup_misses [OF demo_table_ok(9) s this(1,2) e this(3-5) demo_table_ok(8) t0, of "''t''" demo_table_opt] show ?thesis by simp
qed

end
