(* ===== verification/Dm_Props.thy ===== *)
theory Dm_Props
  imports Dm_Db Dm_Restart_Total Wal_Props Sstable_Props
begin

text \<open>
  What the data manager guarantees, in every state that writes, compactions and restarts can
  reach.
\<close>

subsection \<open>A concrete server\<close>

lemma demo_server_serves: "\<forall>k \<in> fst ` set W. length k < 256 \<Longrightarrow> server_serves demo_server W"
  using crates_serve_mono [OF demo_crates_serve, of "fst ` set W"] by (auto simp: server_serves_def demo_server_def)

lemma db_rel_start:
  assumes S: "server_libs_ok S" "opt_ok opt" "0 < max_level opt" and c: "cache_new (tlibs S) cap = Some c"
  obtains dm where "dm_new S opt [] c rngs = Some (Inr dm)" "reaches S opt dm None None []" "db_rel S dm []"
    "dm_opt dm = opt" "\<And>n. n < usize_bound \<Longrightarrow> room n dm"
proof -
  have L: "lru_ok (tlibs S)" "glob_ok S" using S(1) by (simp_all add: server_libs_ok_def table_libs_ok_def)
  obtain dm where dm: "dm_new S opt [] c rngs = Some (Inr dm)" "dm_opt dm = opt" "dm_cache dm = c" "dm_next_file_number dm = 0"
    using dm_new_empty [OF L(2) S(3) cache_new_ok(1) [OF L(1) c], of rngs] by blast
  have r: "reaches S opt dm None None []" by (rule Start [OF c dm(1)])
  have "db_rel S dm []" using S r by (intro db_relI [OF db_at_reaches(2)]) simp_all
  moreover have "room n dm" if "n < usize_bound" for n using that dm(3,4) cache_new_ok(2) [OF L(1) c] by (simp add: room_def)
  ultimately show ?thesis using that dm(1,2) r by blast
qed

definition demo_payload :: store_payload where
  "demo_payload = \<lparr>sp_data = [7], sp_flags = 0, sp_ttl = 0, sp_bytes = 1, sp_created_at = 0\<rparr>"

definition demo_bytes :: bytes where
  "demo_bytes = 1 # replicate 8 0 @ 1 # replicate 15 0 @ [7]"

lemma demo_value: "serialize_value demo_server (Some demo_payload) = Inr demo_bytes"
proof -
  have z: "le_bytes k 0 = replicate k 0" for k by (induction k) simp_all
  have o: "le_bytes 8 (Suc 0) = 1 # replicate 7 0" using le_bytes.simps(2) [of 7 1] by (simp add: z)
  have r: "replicate 4 (0 :: u8) @ replicate 4 0 = replicate 8 0" "replicate 7 (0 :: u8) @ replicate 8 0 = replicate 15 0"
    by (simp_all flip: replicate_add)
  show ?thesis
    using r by (simp add: demo_server_def demo_payload_def enc_value_def demo_libs_def demo_bytes_def z o flip: append_assoc)
qed

lemma demo_options: "opt_ok server_options_default" "0 < max_level server_options_default"
  by (simp_all add: opt_ok_def server_options_default_def KB_def)

text \<open>The concrete server after its first start.\<close>

lemma demo_start:
  obtains dm where "reaches demo_server server_options_default dm None None []" "db_rel demo_server dm []"
    "dm_opt dm = server_options_default" "\<And>n. n < usize_bound \<Longrightarrow> room n dm"
proof -
  have "cache_new (tlibs demo_server) 10 = Some \<lparr>cache_inner = lru_new (tlibs demo_server) 10, cache_id = 0\<rparr>"
    by (simp add: cache_new_def)
  from db_rel_start [OF demo_server_ok demo_options this, of "sconst (sconst 0)"] show ?thesis using that by blast
qed

lemma demo_accepts: "db_accepts demo_server [] [97] (Some demo_payload)"
proof -
  have "loggable (tlibs demo_server) ([97], demo_bytes)" by (simp add: demo_server_def demo_bytes_def)
  moreover have "writes_ok ([] @ [([97], demo_bytes)])" by (simp add: writes_ok_def keys_nonempty_def enc_size_def demo_bytes_def)
  ultimately show ?thesis using demo_value by (auto simp: db_accepts_def)
qed

text \<open>The concrete server after a write.\<close>

abbreviation demo_history :: history where
  "demo_history \<equiv> [([97], Some demo_payload)]"

abbreviation demo_writes :: "entry list" where
  "demo_writes \<equiv> [([97], demo_bytes)]"

lemma demo_encoded: "list_all2 (encoded demo_server) demo_writes demo_history"
  by (simp add: encoded_def demo_value)

lemma demo_lookup: "db_lookup demo_history [97] = Some demo_payload"
  using db_lookup_simps(2) [of "[]" "[97]" "Some demo_payload"] by simp

lemma demo_writes_ok: "writes_ok demo_writes" "server_serves demo_server demo_writes" "loggable (tlibs demo_server) ([97], demo_bytes)"
  by (simp add: writes_ok_def keys_nonempty_def enc_size_def demo_bytes_def)
    (rule demo_server_serves, simp, simp add: demo_server_def demo_bytes_def)

lemma demo_written_with:
  assumes opt: "opt_ok opt" "0 < max_level opt"
  obtains dm where "reaches demo_server opt dm None None demo_writes" "dm_opt dm = opt"
    "dm_next_file_number dm = 0" "cache_id (dm_cache dm) = 0" "length (ml_tables (dm_imm dm)) \<le> 1"
    "mem_table_max_size opt = 0 \<Longrightarrow> mt_rel (dm_mut dm) [] \<and> list_all2 mt_rel (ml_tables (dm_imm dm)) [demo_writes]"
    "length (segs (dm_wal dm)) \<le> 2" "length (concat (sr_readers (dm_readers dm))) = 0"
proof -
  let ?S = demo_server and ?o = opt
  let ?c = "\<lparr>cache_inner = lru_new (tlibs ?S) 10, cache_id = 0\<rparr>"
  have L: "fixed_ok (tlibs ?S)" "lru_ok (tlibs ?S)" "glob_ok ?S"
    using demo_server_ok by (simp_all add: server_libs_ok_def table_libs_ok_def)
  have c: "cache_new (tlibs ?S) 10 = Some ?c" by (simp add: cache_new_def)
  obtain dm where dm: "dm_new ?S ?o [] ?c (sconst (sconst 0)) = Some (Inr dm)" "dm_inv ?S Map.empty dm (start_view ?o) []"
    "dm_opt dm = ?o" "dm_cache dm = ?c" "dm_next_file_number dm = 0" "dm_fs dm = []" "current_file_num (dm_wal dm) = 0"
    using dm_new_empty [OF L(3) opt(2) cache_new_ok(1) [OF L(2) c], of "sconst (sconst 0)"] by blast
  have n: "current_file_num (dm_wal dm) + 1 < usize_bound" using dm(7) by simp
  obtain dm' v' where i: "insert_raw ?S dm [97] demo_bytes = Some (Inr (None, dm'))" "dm_inv ?S Map.empty dm' v' ([] @ demo_writes)"
    "v' \<in> {put [97] demo_bytes (start_view ?o), rotate (put [97] demo_bytes (start_view ?o))}"
    "mem_table_max_size (dm_opt dm) = 0 \<longrightarrow> v' = rotate (put [97] demo_bytes (start_view ?o))"
    "dm_readers dm' = dm_readers dm" "dm_cache dm' = dm_cache dm" "dm_opt dm' = dm_opt dm"
    "dm_next_file_number dm' = dm_next_file_number dm"
    "\<forall>x. (\<forall>i. x \<noteq> make_file_name i ''wal'') \<longrightarrow> map_of (dm_fs dm') x = map_of (dm_fs dm) x"
    using insert_raw_ok [OF L(1) dm(2) demo_writes_ok(3) n] by (auto simp: start_view_def)
  note d = dm_invD [OF i(2)]
  have "files_fit (dm_fs dm)" by (simp add: dm(6) files_fit_def)
  then have "files_fit (dm_fs dm')" by (rule files_fit_wal [OF _ d(1)]) (use i(9) in blast)
  then have lim: "limits dm'" using i(6,8) dm(4,5) by (simp add: limits_def)
  have "reaches ?S ?o dm None None []" by (rule Start [OF c dm(1)])
  from Write [OF this demo_writes_ok(3) _ i(1) lim] have "reaches ?S ?o dm' None None demo_writes" using demo_writes_ok(1) by simp
  moreover have "length (ml_tables (dm_imm dm')) = length (v_imm v')"
    using d(6) by (auto simp: ml_rel_def dest: list_all2_lengthD)
  moreover have "length (segs (dm_wal dm')) = length (v_segs v')"
    using d(7) by (auto simp: wal_inv_def wal_holds_def dest: list_all2_lengthD)
  moreover have "length (v_imm v') \<le> 1" "length (v_segs v') \<le> 2" using i(3) by (auto simp: put_def rotate_def start_view_def)
  moreover have "mt_rel (dm_mut dm') [] \<and> list_all2 mt_rel (ml_tables (dm_imm dm')) [demo_writes]" if "mem_table_max_size opt = 0"
    using i(4) dm(3) that d(5,6) by (simp add: put_def rotate_def start_view_def ml_rel_def)
  moreover have "length (concat (sr_readers (dm_readers dm'))) = 0"
    unfolding i(5) using levels_length [OF dm_invD(8) [OF dm(2)]] by (simp add: start_view_def del: length_concat)
  ultimately show ?thesis using that [of dm'] i(6-8) dm by simp
qed

lemma demo_written:
  obtains dm where "reaches demo_server server_options_default dm None None demo_writes" "dm_opt dm = server_options_default"
    "dm_next_file_number dm = 0" "cache_id (dm_cache dm) = 0" "length (ml_tables (dm_imm dm)) \<le> 1"
    "length (segs (dm_wal dm)) \<le> 2" "length (concat (sr_readers (dm_readers dm))) = 0"
  using demo_options by (rule demo_written_with) (rule that)

subsection \<open>Reads and writes\<close>

text \<open>C1: In every state that writes, reads, the steps of both compactions in any order, and
  restarts can reach from an empty directory, reading a key returns the value of the last
  insertion of that key, and nothing when the last operation on it removed it; the read leaves a
  reachable state.\<close>

theorem db_reads_last_write:
  assumes "server_libs_ok S" "opt_ok opt" "0 < max_level opt" "reaches S opt dm mi ma W" "list_all2 (encoded S) W H"
  shows "\<exists>dm'. dm_get S dm k = Some (Inr (db_lookup H k, dm')) \<and> reaches S opt dm' mi ma W"
proof -
  from dm_get_law [OF db_at_reaches(2) [OF assms], of k] obtain dm' where g: "dm_get S dm k = Some (Inr (db_lookup H k, dm'))" by blast
  show ?thesis using g Read [OF assms(4) g] by blast
qed

theorem db_reads_last_write_witness:
  "\<exists>dm dm'. dm_get demo_server dm [97] = Some (Inr (Some demo_payload, dm'))"
proof -
  obtain dm where "reaches demo_server server_options_default dm None None demo_writes" by (rule demo_written) (rule that)
  from db_reads_last_write [OF demo_server_ok demo_options this demo_encoded, of "[97]"] show ?thesis
    using demo_lookup by auto
qed

text \<open>Inserting a payload that the log can hold succeeds, and afterwards its key reads as the
  payload while every other key reads as before.\<close>

theorem db_insert_then_get:
  assumes "db_rel S dm H" "db_accepts S H k (Some p)"
  shows "\<exists>r dm1 dm2. dm_insert S dm k p = Some (Inr (r, dm1)) \<and>
     dm_get S dm1 j = Some (Inr ((if j = k then Some p else db_lookup H j), dm2))"
  using assms by (rule dmdb.get_after_insert)

theorem db_insert_then_get_witness:
  "\<exists>dm r dm1 dm2. dm_insert demo_server dm [97] demo_payload = Some (Inr (r, dm1)) \<and>
     dm_get demo_server dm1 [97] = Some (Inr (Some demo_payload, dm2))"
proof -
  obtain dm where dm: "db_rel demo_server dm []" by (rule demo_start) (rule that)
  from db_insert_then_get [OF dm demo_accepts, of "[97]"] show ?thesis by (intro exI [of _ dm]) simp
qed

text \<open>Removing a key returns what it read as; afterwards it reads as absent, and every other
  key reads as before.\<close>

theorem db_remove_then_get:
  assumes "db_rel S dm H" "db_accepts S H k None"
  shows "\<exists>dm1 dm2. dm_remove S dm k = Some (Inr (db_lookup H k, dm1)) \<and>
     dm_get S dm1 j = Some (Inr ((if j = k then None else db_lookup H j), dm2))"
  using assms by (rule dmdb.get_after_remove)

theorem db_remove_then_get_witness:
  "\<exists>dm dm1 dm2. dm_remove demo_server dm [97] = Some (Inr (None, dm1)) \<and>
     dm_get demo_server dm1 [97] = Some (Inr (None, dm2))"
proof -
  obtain dm where dm: "db_rel demo_server dm []" by (rule demo_start) (rule that)
  have "serialize_value demo_server None = Inr [0]" by (simp add: demo_server_def enc_value_def)
  moreover have "loggable (tlibs demo_server) ([97], [0])" by (simp add: demo_server_def)
  ultimately have "db_accepts demo_server [] [97] None"
    by (simp add: db_accepts_def writes_ok_def keys_nonempty_def enc_size_def)
  from db_remove_then_get [OF dm this, of "[97]"] show ?thesis by auto
qed

subsection \<open>Compactions\<close>

text \<open>Reads after an operation that keeps the history.\<close>

lemma reads_after:
  assumes "server_libs_ok S" "dm_inv S M dm v W" "list_all2 (encoded S) W H"
  shows "\<forall>k. \<exists>dm'. dm_get S dm k = Some (Inr (db_lookup H k, dm'))"
  using dm_inv_get [OF assms(2) _ assms(3)] assms(1) by (auto simp: server_libs_ok_def)

lemma reaches_reads:
  assumes "server_libs_ok S" "opt_ok opt" "0 < max_level opt" "reaches S opt dm mi ma W" "list_all2 (encoded S) W H"
  shows "\<forall>k. \<exists>dm'. dm_get S dm k = Some (Inr (db_lookup H k, dm'))"
proof -
  obtain M v where "dm_inv S M dm v W" using reaches_inv [OF assms(1-4)] by (rule sys_invE) (rule that)
  from reads_after [OF assms(1) this assms(5)] show ?thesis .
qed

text \<open>C7: In every reachable state between two minor compactions, the minor compaction succeeds
  provided the crates serve the keys written and there is room for one file number and one
  reader for each immutable memtable; it leaves a reachable state with no immutable memtable, and
  every key reads as before.\<close>

theorem minor_compaction_keeps_data:
  assumes S: "server_libs_ok S" "server_serves S W" and o: "opt_ok opt" "0 < max_level opt"
    and r: "reaches S opt dm None ma W" and e: "list_all2 (encoded S) W H" and room: "room (length (ml_tables (dm_imm dm))) dm"
  shows "\<exists>dm'. minor_compaction S dm = Some (Inr dm') \<and> reaches S opt dm' None ma W \<and> ml_tables (dm_imm dm') = [] \<and>
     (\<forall>k. \<exists>dm''. dm_get S dm' k = Some (Inr (db_lookup H k, dm'')))"
proof -
  obtain dm' where dm': "minor_compaction S dm = Some (Inr dm')" "reaches S opt dm' None ma W" "ml_tables (dm_imm dm') = []"
    using minor_reaches [OF S o r, of 0] room by auto
  from reaches_reads [OF S(1) o dm'(2) e] dm' show ?thesis by blast
qed

theorem minor_compaction_keeps_data_witness:
  "\<exists>dm dm' dm''. minor_compaction demo_server dm = Some (Inr dm') \<and> dm_get demo_server dm' [97] = Some (Inr (Some demo_payload, dm''))"
proof -
  obtain dm where d: "reaches demo_server server_options_default dm None None demo_writes" "dm_next_file_number dm = 0"
    "cache_id (dm_cache dm) = 0" "length (ml_tables (dm_imm dm)) \<le> 1" by (rule demo_written) (rule that)
  have "room (length (ml_tables (dm_imm dm))) dm" using d(2-4) by (simp add: room_def)
  from minor_compaction_keeps_data [OF demo_server_ok demo_writes_ok(2) demo_options d(1) demo_encoded this] show ?thesis
    using demo_lookup by metis
qed

text \<open>C6: In every reachable state between two major compactions, the major compaction succeeds
  provided the crates serve the keys written and there is room for one file number and one
  reader for each write, and one more; it leaves a reachable state, and every key reads as
  before.\<close>

theorem major_compaction_keeps_data:
  assumes S: "server_libs_ok S" "server_serves S W" and o: "opt_ok opt" "0 < max_level opt"
    and r: "reaches S opt dm mi None W" and e: "list_all2 (encoded S) W H" and room: "room (length W + 1) dm"
  shows "\<exists>dm'. major_compaction S dm = Some (Inr dm') \<and> reaches S opt dm' mi None W \<and>
     (\<forall>k. \<exists>dm''. dm_get S dm' k = Some (Inr (db_lookup H k, dm'')))"
proof -
  obtain dm' where dm': "major_compaction S dm = Some (Inr dm')" "reaches S opt dm' mi None W"
    using major_reaches [OF S o r, of 0] room by auto
  from reaches_reads [OF S(1) o dm'(2) e] dm' show ?thesis by blast
qed

theorem major_compaction_keeps_data_witness:
  "\<exists>dm dm' dm''. major_compaction demo_server dm = Some (Inr dm') \<and> dm_get demo_server dm' [97] = Some (Inr (Some demo_payload, dm''))"
proof -
  obtain dm where d: "reaches demo_server server_options_default dm None None demo_writes" "dm_next_file_number dm = 0"
    "cache_id (dm_cache dm) = 0" by (rule demo_written) (rule that)
  have "room (length demo_writes + 1) dm" using d(2,3) by (simp add: room_def)
  from major_compaction_keeps_data [OF demo_server_ok demo_writes_ok(2) demo_options d(1) demo_encoded this] show ?thesis
    using demo_lookup by metis
qed

subsection \<open>Restarts\<close>

lemma restart_reaches:
  assumes S: "server_libs_ok S" "server_serves S W" and o: "opt_ok opt" "0 < max_level opt"
    and r: "reaches S opt dm mi ma W" and c: "cache_new (tlibs S) cap = Some c"
    and n: "dm_next_file_number dm + length (segs (dm_wal dm)) < usize_bound"
      "length (concat (sr_readers (dm_readers dm))) + 2 * length (segs (dm_wal dm)) < usize_bound"
  shows "\<exists>dm'. dm_new S opt (dm_fs dm) c rngs = Some (Inr dm') \<and> reaches S opt dm' None None W"
proof -
  obtain M v where v: "dm_opt dm = opt" "limits dm" "writes_ok W" "dm_inv S M dm v W" and lg: "log_ok dm W"
    using reaches_inv [OF S(1) o r] by (rule sys_invE) (rule that)
  have o': "opt_ok (dm_opt dm)" using o(1) v(1) by simp
  have lru: "lru_ok (tlibs S)" using S by (simp add: server_libs_ok_def table_libs_ok_def)
  note co = cache_new_ok [OF lru c]
  have ci: "cache_id c + length (concat (sr_readers (dm_readers dm))) + 2 * length (segs (dm_wal dm)) < usize_bound"
    using co(2) n(2) by simp
  obtain dm' where dm': "dm_new S opt (dm_fs dm) c rngs = Some (Inr dm')" "limits dm'"
    using dm_new_total [OF S v(4) o' v(3) co(1) ci log_bound(1) [OF lg v(3)] v(2) n(1)] v(1) by blast
  have "length (concat (sr_readers (dm_readers dm))) < usize_bound" using n(2) by simp
  from Restart [OF r c this dm'] have r': "reaches S opt dm' None None W" .
  with dm'(1) show ?thesis by blast
qed

text \<open>C5: Whenever the server stops between two steps, in the middle of a compaction or not, a
  start from the files it left succeeds and every key reads as before, provided the crates serve
  the keys written and the counters have room for the tables and the segments.\<close>

theorem restart_keeps_data:
  assumes S: "server_libs_ok S" "server_serves S W" and o: "opt_ok opt" "0 < max_level opt"
    and r: "reaches S opt dm mi ma W" and e: "list_all2 (encoded S) W H" and c: "cache_new (tlibs S) cap = Some c"
    and n: "dm_next_file_number dm + length (segs (dm_wal dm)) < usize_bound"
      "length (concat (sr_readers (dm_readers dm))) + 2 * length (segs (dm_wal dm)) < usize_bound"
  shows "\<exists>dm'. dm_new S opt (dm_fs dm) c rngs = Some (Inr dm') \<and> reaches S opt dm' None None W \<and>
     (\<forall>k. \<exists>dm''. dm_get S dm' k = Some (Inr (db_lookup H k, dm'')))"
proof -
  obtain dm' where dm': "dm_new S opt (dm_fs dm) c rngs = Some (Inr dm')" "reaches S opt dm' None None W"
    using restart_reaches [OF S o r c n] by blast
  from reaches_reads [OF S(1) o dm'(2) e] dm' show ?thesis by blast
qed

theorem restart_keeps_data_witness:
  "\<exists>dm c dm' dm''. reaches demo_server server_options_default dm None None demo_writes \<and>
     dm_new demo_server server_options_default (dm_fs dm) c (sconst (sconst 0)) = Some (Inr dm') \<and>
     dm_get demo_server dm' [97] = Some (Inr (Some demo_payload, dm''))"
proof -
  obtain dm where d: "reaches demo_server server_options_default dm None None demo_writes" "dm_next_file_number dm = 0"
    "length (segs (dm_wal dm)) \<le> 2" "length (concat (sr_readers (dm_readers dm))) = 0"
    by (rule demo_written) (rule that)
  have c: "cache_new (tlibs demo_server) 10 = Some \<lparr>cache_inner = lru_new (tlibs demo_server) 10, cache_id = 0\<rparr>"
    by (simp add: cache_new_def)
  have n: "dm_next_file_number dm + length (segs (dm_wal dm)) < usize_bound"
    "length (concat (sr_readers (dm_readers dm))) + 2 * length (segs (dm_wal dm)) < usize_bound" using d(2,3) unfolding d(4) by simp_all
  obtain dm' where a: "dm_new demo_server server_options_default (dm_fs dm)
      \<lparr>cache_inner = lru_new (tlibs demo_server) 10, cache_id = 0\<rparr> (sconst (sconst 0)) = Some (Inr dm')"
    "\<forall>k. \<exists>dm''. dm_get demo_server dm' k = Some (Inr (db_lookup demo_history k, dm''))"
    using restart_keeps_data [OF demo_server_ok demo_writes_ok(2) demo_options d(1) demo_encoded c n, of "sconst (sconst 0)"] by blast
  obtain dm'' where "dm_get demo_server dm' [97] = Some (Inr (Some demo_payload, dm''))" using a(2) demo_lookup by metis
  then show ?thesis using a(1) d(1) by blast
qed

subsection \<open>Files\<close>

text \<open>C16: In every reachable state the manifest on disk lists, level by level, exactly the tables
  that are open, in the same order on level 0; each of them is a file of the directory under a
  number that was given out, with the contents its reader has, and no two share a name.\<close>

theorem manifest_files_readers_agree:
  assumes "server_libs_ok S" "opt_ok opt" "0 < max_level opt" "reaches S opt dm mi ma W"
  shows "\<exists>m. manifest_load S (dm_fs dm) = Some (Inr m) \<and>
     level_names m 0 = map tr_file_name (sr_readers (dm_readers dm) ! 0) \<and>
     (\<forall>i < max_level opt. mset (level_names m i) = mset (map tr_file_name (sr_readers (dm_readers dm) ! i))) \<and>
     distinct (map tr_file_name (concat (sr_readers (dm_readers dm)))) \<and>
     (\<forall>r \<in> set (concat (sr_readers (dm_readers dm))).
        (\<exists>n < dm_next_file_number dm. tr_file_name r = make_file_name n ''sst'') \<and>
        map_of (dm_fs dm) (tr_file_name r) = Some (tr_file r))"
proof -
  obtain M v where v: "dm_opt dm = opt" "dm_inv S M dm v W" using reaches_inv [OF assms] by (rule sys_invE) (rule that)
  note sv = sr_invD [OF dm_invD(8) [OF v(2)], unfolded v(1)]
  let ?m = "mfb_manifest (sr_manifest (dm_readers dm))" and ?rss = "sr_readers (dm_readers dm)"
  have "?rss \<noteq> []" using sv(10) assms(3) by auto
  then have "level_names ?m 0 = map tr_file_name (?rss ! 0)" using sv(8) by (simp add: manifest_agrees_def)
  moreover have "mset (level_names ?m i) = mset (map tr_file_name (?rss ! i))" if "i < max_level opt" for i
    using sv(8,10) that by (simp add: manifest_agrees_def)
  ultimately show ?thesis using sv(6,9) sv(7) unfolding reader_stored_def by (intro exI [of _ ?m]) blast
qed

theorem manifest_files_readers_agree_witness:
  "\<exists>dm m. reaches demo_server server_options_default dm None None demo_writes \<and> manifest_load demo_server (dm_fs dm) = Some (Inr m) \<and>
     level_names m 0 = map tr_file_name (sr_readers (dm_readers dm) ! 0)"
proof -
  obtain dm where d: "reaches demo_server server_options_default dm None None demo_writes" by (rule demo_written) (rule that)
  from manifest_files_readers_agree [OF demo_server_ok demo_options d] d show ?thesis by blast
qed

text \<open>C17: In every reachable state there are as many levels as the options say, and the tables of
  every level but the first are in the order of their keys and do not overlap.\<close>

theorem levels_sorted_disjoint:
  assumes "server_libs_ok S" "opt_ok opt" "0 < max_level opt" "reaches S opt dm mi ma W"
  shows "length (sr_readers (dm_readers dm)) = max_level opt \<and>
     (\<forall>i a b. 0 < i \<longrightarrow> i < max_level opt \<longrightarrow> a < b \<longrightarrow> b < length (sr_readers (dm_readers dm) ! i) \<longrightarrow>
        tr_max_key (sr_readers (dm_readers dm) ! i ! a) < tr_min_key (sr_readers (dm_readers dm) ! i ! b))"
proof -
  obtain M v where v: "dm_opt dm = opt" "dm_inv S M dm v W" using reaches_inv [OF assms] by (rule sys_invE) (rule that)
  note sv = sr_invD [OF dm_invD(8) [OF v(2)], unfolded v(1)]
  note lv = levels_okD [OF sv(5)]
  have "readers_sorted (sr_readers (dm_readers dm) ! i)" if "0 < i" "i < max_level opt" for i
    using that sv(3) by (intro readers_sortedI [OF lv(2) lv(3)]) simp_all
  then show ?thesis using sv(10) readers_sorted_nth(1) by blast
qed

theorem levels_sorted_disjoint_witness:
  "\<exists>dm. reaches demo_server server_options_default dm None None demo_writes \<and> length (sr_readers (dm_readers dm)) = 7"
proof -
  obtain dm where d: "reaches demo_server server_options_default dm None None demo_writes" by (rule demo_written) (rule that)
  from levels_sorted_disjoint [OF demo_server_ok demo_options d] d show ?thesis by (auto simp: server_options_default_def)
qed

text \<open>Only the level with the highest score is looked at; when that is the last level, the
  compaction does nothing, however many other levels are due.\<close>

theorem last_level_stops_compaction:
  assumes "compute_compaction_levels (dm_readers dm) = Some (l # ls)" "l \<ge> max_level (dm_opt dm) - 1"
  shows "major_compaction S dm = Some (Inr dm)"
  using assms by (simp add: major_compaction_def size_compaction_def size_build_def idx_def)

end
