(* ===== verification/Server_Props.thy ===== *)
theory Server_Props
  imports Dm_Props
begin

text \<open>
  Properties of the parts below the data manager: which tables a lookup asks, when a level is
  due for compaction, and how file names are ordered.
\<close>

subsection \<open>Searching the tables of a level\<close>

text \<open>C28: In every reachable state the search for the tables of a level that may hold a key, by
  bisection and a scan on all levels but the first, finds exactly the tables whose range of keys
  contains the key, the newest first on level 0.\<close>

theorem search_readers_filter:
  assumes "server_libs_ok S" "opt_ok opt" "0 < max_level opt" "reaches S opt dm mi ma W" "i < max_level opt"
  shows "search_readers (dm_readers dm) i k =
     Some (filter (\<lambda>j. tr_min_key (sr_readers (dm_readers dm) ! i ! j) \<le> k \<and> k \<le> tr_max_key (sr_readers (dm_readers dm) ! i ! j))
       (if i = 0 then rev [0..<length (sr_readers (dm_readers dm) ! i)] else [0..<length (sr_readers (dm_readers dm) ! i)]))"
proof -
  obtain M v where v: "dm_opt dm = opt" "dm_inv S M dm v W" using reaches_inv [OF assms(1-4)] by (rule sys_invE) (rule that)
  note sv = sr_invD [OF dm_invD(8) [OF v(2)], unfolded v(1)]
  note lv = levels_okD [OF sv(5)]
  let ?sr = "dm_readers dm"
  let ?rs = "sr_readers ?sr ! i"
  have g: "get_readers ?sr i = Some ?rs" using assms(5) sv(1,10) by (simp add: get_readers_def idx_def)
  have r: "readers_sorted ?rs" if "i \<noteq> 0"
    using that assms(5) sv(3) by (intro readers_sortedI [OF lv(2) lv(3)]) simp_all
  show ?thesis
  proof (cases "i = 0 \<or> ?rs = []")
    case True
    then show ?thesis using g assms(5) sv(10) by (auto simp: search_readers_def in_range_def)
  next
    case False
    from search_sorted [OF r] False obtain p where "search_left ?rs k 0 (length ?rs - 1) = Some p"
      "scan_readers (drop p ?rs) p k = filter (\<lambda>i. in_range (?rs ! i) k) [0..<length ?rs]" by blast
    then show ?thesis using False g assms(5) sv(10) by (simp add: search_readers_def in_range_def)
  qed
qed

theorem search_readers_filter_witness:
  "\<exists>dm. reaches demo_server server_options_default dm None None demo_writes \<and> search_readers (dm_readers dm) 1 [97] = Some []"
proof -
  obtain dm where d: "reaches demo_server server_options_default dm None None demo_writes"
    "length (concat (sr_readers (dm_readers dm))) = 0" by (rule demo_written) (rule that)
  have l: "length (sr_readers (dm_readers dm)) = 7"
    using reaches_inv [OF demo_server_ok demo_options d(1)] by (auto elim!: sys_invE dest!: dm_invD(8) sr_invD(10) simp: server_options_default_def)
  have "sr_readers (dm_readers dm) ! 1 \<in> set (sr_readers (dm_readers dm))" using l by (intro nth_mem) simp
  then have e: "sr_readers (dm_readers dm) ! 1 = []" using d(2) by simp
  have "1 < max_level server_options_default" by (simp add: server_options_default_def)
  from search_readers_filter [OF demo_server_ok demo_options d(1) this, of "[97]"] e d(1) show ?thesis by auto
qed

subsection \<open>When level 0 is due\<close>

lemma compute_scores_levels:
  assumes "length (sr_readers sr) = max_level (sr_opt sr)" "\<forall>i \<in> set is. i < max_level (sr_opt sr)" "compute_scores sr is = Some ss"
  shows "fst ` set ss = {i \<in> set is. f64_ge (level_score (sr_opt sr) i (sr_readers sr ! i)) (F64_Fin 1)}"
  using assms(2,3)
proof (induction "is" arbitrary: ss)
  case (Cons i "is")
  have g: "get_readers sr i = Some (sr_readers sr ! i)" using Cons.prems(1) assms(1) by (simp add: get_readers_def idx_def)
  obtain ss' where ss': "compute_scores sr is = Some ss'" using Cons.prems(2) g by (auto simp: bind_eq_Some_conv Let_def)
  have "fst ` set ss' = {i \<in> set is. f64_ge (level_score (sr_opt sr) i (sr_readers sr ! i)) (F64_Fin 1)}"
    using Cons.IH [OF _ ss'] Cons.prems(1) by simp
  moreover have "fst ` set ss = (if f64_ge (level_score (sr_opt sr) i (sr_readers sr ! i)) (F64_Fin 1)
      then insert i (fst ` set ss') else fst ` set ss')"
    using Cons.prems(2) g ss' by (auto simp: Let_def split: if_splits)
  ultimately show ?case by auto
qed simp

text \<open>C29: The compaction scores are computed in floating point, and rounding does not change the
  decision about level 0: it is due for compaction exactly when it has at least as many tables
  as the trigger of the options says, for all counts below 2 to the 53.\<close>

theorem level0_compaction_due:
  assumes "length (sr_readers sr) = max_level (sr_opt sr)" "0 < max_level (sr_opt sr)"
    and "0 < l0_compaction_trigger (sr_opt sr)" "l0_compaction_trigger (sr_opt sr) < 2 ^ 53" "length (sr_readers sr ! 0) < 2 ^ 53"
  shows "\<exists>ls. compute_compaction_levels sr = Some ls \<and>
     (0 \<in> set ls \<longleftrightarrow> l0_compaction_trigger (sr_opt sr) \<le> length (sr_readers sr ! 0))"
proof -
  let ?is = "[0..<max_level (sr_opt sr)]"
  obtain ss where ss: "compute_scores sr ?is = Some ss" using compute_scores_total [OF assms(1), of ?is] by auto
  have "fst ` set ss = {i \<in> set ?is. f64_ge (level_score (sr_opt sr) i (sr_readers sr ! i)) (F64_Fin 1)}"
    by (rule compute_scores_levels [OF assms(1) _ ss]) simp
  then have "0 \<in> fst ` set ss \<longleftrightarrow> l0_compaction_trigger (sr_opt sr) \<le> length (sr_readers sr ! 0)"
    using assms(2) f64_ratio_ge_one [OF assms(5,4,3)] by (simp add: level_score_def)
  moreover have "set (foldr insort_score xs []) = set xs" for xs by (induction xs) (simp_all add: insort_score_set)
  ultimately show ?thesis using ss by (simp add: compute_compaction_levels_def)
qed

theorem level0_compaction_due_witness:
  "\<exists>ls. compute_compaction_levels
      \<lparr>sr_opt = server_options_default, sr_readers = replicate 7 [], sr_manifest = \<lparr>mfb_opt = server_options_default, mfb_manifest = manifest_new\<rparr>\<rparr> =
      Some ls \<and> 0 \<notin> set ls"
  using level0_compaction_due [of "\<lparr>sr_opt = server_options_default, sr_readers = replicate 7 [],
    sr_manifest = \<lparr>mfb_opt = server_options_default, mfb_manifest = manifest_new\<rparr>\<rparr>"]
  by (auto simp: server_options_default_def)

subsection \<open>The order of file names\<close>

text \<open>Names of files are padded to eight digits, so that they are ordered as their numbers are
  below 10 to the 8; the next name comes before its predecessor, and recovery, which takes the
  segments of the log in the order of their names, is only right up to there.\<close>

theorem file_names_ordered:
  assumes "n < m" "m < 10 ^ 8"
  shows "make_file_name n e < make_file_name m e \<and> make_file_name (10 ^ 8) e < make_file_name (10 ^ 8 - 1) e"
proof -
  have "(49 :: nat) = of_char (CHR ''1'')" "(48 :: nat) = of_char (CHR ''0'')" "(57 :: nat) = of_char (CHR ''9'')" by simp_all
  then have c: "char_of (49 :: nat) = CHR ''1''" "char_of (48 :: nat) = CHR ''0''" "char_of (57 :: nat) = CHR ''9''"
    by (simp_all only: char_of_char)
  have "show_nat 100000000 = ''100000000''" "show_nat 99999999 = ''99999999''"
    by (simp_all add: show_nat.simps digit_char_def c)
  then have "make_file_name (10 ^ 8) e < make_file_name (10 ^ 8 - 1) e"
    by (simp add: make_file_name_def pad8_def Let_def)
  with make_file_name_less [OF assms] show ?thesis by blast
qed

theorem file_names_ordered_witness: "make_file_name 9 ''wal'' < make_file_name 10 ''wal''"
  using file_names_ordered [of 9 10 "''wal''"] by simp

end
