(* ===== verification/Dm_Crash.thy ===== *)
theory Dm_Crash
  imports Dm_Props
begin

text \<open>
  Crashes in the midst of a step.  The steps of \<open>Dm_System\<close> write several files; a crash may come
  between two of these writes, and the next start finds the files as they were then.  A record in
  the log survives although the memtable never saw it; a table that no manifest lists is ignored,
  and its number used again; a table that the manifest lists while its segment of the log is still
  there is built a second time, without harm.  Only the second half of the major compaction has a
  point where a crash loses data.
\<close>

subsection \<open>Starting from a disk\<close>

text \<open>There is room for the tables, the segments, and one of each more.\<close>

definition restart_room :: "('f, 'c) data_manager \<Rightarrow> bool" where
  "restart_room dm \<longleftrightarrow> dm_next_file_number dm + length (segs (dm_wal dm)) + 1 < usize_bound \<and>
     length (concat (sr_readers (dm_readers dm))) + 2 * length (segs (dm_wal dm)) + 2 < usize_bound \<and>
     cache_id (dm_cache dm) + 1 < usize_bound"

lemma disk_reads:
  assumes S: "server_libs_ok S" "server_serves S W" and v: "disk_inv S opt M sr d N lss ps ess W" and o: "opt_ok opt" and W: "writes_ok W"
    and e: "list_all2 (encoded S) W H" and c: "cache_new (tlibs S) cap = Some c" and ff: "files_fit d"
    and n: "N + length ess < usize_bound" "length (concat lss) + 2 * length ess < usize_bound"
  shows "\<exists>dm'. dm_new S opt d c rngs = Some (Inr dm') \<and> (\<forall>k. \<exists>dm''. dm_get S dm' k = Some (Inr (db_lookup H k, dm'')))"
proof -
  have lru: "lru_ok (tlibs S)" using S by (simp add: server_libs_ok_def table_libs_ok_def)
  note co = cache_new_ok [OF lru c]
  have ci: "cache_id c + length (concat lss) + 2 * length ess < usize_bound" "cache_id c + length (concat lss) < usize_bound"
    using co(2) n(2) by simp_all
  obtain dm' where dm': "dm_new S opt d c rngs = Some (Inr dm')" "limits dm'"
    using disk_start_total [OF S v o W co(1) ff n(1) ci(1)] by blast
  obtain M' where "dm_inv S M' dm' (recovered lss ess) W" using disk_start_ok [OF S(1) v o W co(1) ci(2) dm'] by blast
  from reads_after [OF S(1) this e] dm'(1) show ?thesis by blast
qed

lemma segs_length: "dm_inv S M dm v W \<Longrightarrow> length (v_segs v) = length (segs (dm_wal dm))"
  by (auto simp: dm_inv_def wal_inv_def wal_holds_def dest!: list_all2_lengthD)

lemma restart_reads:
  assumes S: "server_libs_ok S" "server_serves S W" and inv: "dm_inv S M dm v W" and o: "opt_ok (dm_opt dm)" and W: "writes_ok W"
    and e: "list_all2 (encoded S) W H" and c: "cache_new (tlibs S) cap = Some c" and lim: "limits dm"
    and n: "current_file_num (dm_wal dm) \<le> 10 ^ 8" "dm_next_file_number dm + length (segs (dm_wal dm)) < usize_bound"
      "length (concat (sr_readers (dm_readers dm))) + 2 * length (segs (dm_wal dm)) < usize_bound"
  shows "\<exists>dm'. dm_new S (dm_opt dm) (dm_fs dm) c rngs = Some (Inr dm') \<and> (\<forall>k. \<exists>dm''. dm_get S dm' k = Some (Inr (db_lookup H k, dm'')))"
  by (rule disk_reads [OF S dm_inv_disk [OF inv n(1)] o W e c])
    (use lim n(2,3) segs_length [OF inv] levels_length [OF dm_invD(8) [OF inv]] in \<open>simp_all add: limits_def\<close>)

subsection \<open>The concrete server\<close>

lemma demo_room:
  assumes "opt_ok opt" "0 < max_level opt"
  obtains dm where "reaches demo_server opt dm None None demo_writes" "restart_room dm" "dm_opt dm = opt" "dm_next_file_number dm = 0"
    "cache_id (dm_cache dm) = 0" "mem_table_max_size opt = 0 \<Longrightarrow> mt_rel (dm_mut dm) [] \<and> list_all2 mt_rel (ml_tables (dm_imm dm)) [demo_writes]"
    "sorted_kv (dm_fs dm)" "limits dm"
proof -
  obtain dm where d: "reaches demo_server opt dm None None demo_writes" "dm_opt dm = opt"
    "dm_next_file_number dm = 0" "cache_id (dm_cache dm) = 0"
    "mem_table_max_size opt = 0 \<Longrightarrow> mt_rel (dm_mut dm) [] \<and> list_all2 mt_rel (ml_tables (dm_imm dm)) [demo_writes]"
    "length (segs (dm_wal dm)) \<le> 2" "length (concat (sr_readers (dm_readers dm))) = 0"
    using assms by (rule demo_written_with) (rule that)
  have m: "restart_room dm" unfolding restart_room_def d(3,4,7) using d(6) by simp
  obtain M v where v: "limits dm" "dm_inv demo_server M dm v demo_writes"
    using reaches_inv [OF demo_server_ok assms d(1)] by (rule sys_invE) (rule that)
  show ?thesis by (rule that [OF d(1) m d(2-5) dm_invD(1) [OF v(2)] v(1)])
qed

lemma demo_new_cache: "cache_new (tlibs demo_server) 10 = Some \<lparr>cache_inner = lru_new (tlibs demo_server) 10, cache_id = 0\<rparr>"
  by (simp add: cache_new_def)

subsection \<open>Unlisted tables\<close>

lemma dm_inv_unlisted:
  assumes inv: "dm_inv S M dm v W" and d: "sorted_kv d" and N: "dm_next_file_number dm < usize_bound"
    and same: "\<And>x. \<forall>n \<ge> dm_next_file_number dm. n < usize_bound \<longrightarrow> x \<noteq> make_file_name n ''sst'' \<Longrightarrow> map_of d x = map_of (dm_fs dm) x"
  shows "dm_inv S M (dm\<lparr>dm_fs := d\<rparr>) v W"
proof -
  note i = dm_invD [OF inv]
  have "map_of d x = map_of (dm_fs dm) x" if "has_ext ''wal'' x" for x using wal_ext_other [OF that] by (intro same) auto
  then have "wal_holds (tlibs S) (dm_wal dm) d (v_segs v)"
    using i(7) by (intro wal_holds_frame [OF _ d]) (auto simp: wal_inv_def)
  then have w: "wal_inv (tlibs S) (dm_wal dm) d v" using i(7) by (simp add: wal_inv_def)
  have "sr_inv S (dm_opt dm) M (dm_readers dm) d (dm_next_file_number dm) (v_levels v)"
  proof (rule sr_inv_frame [OF i(8)])
    show "map_of d MANIFEST_FILENAME = map_of (dm_fs dm) MANIFEST_FILENAME" by (rule same) simp
    fix n assume n: "n < dm_next_file_number dm"
    then have "make_file_name n ''sst'' \<noteq> make_file_name m ''sst''" if "dm_next_file_number dm \<le> m" "m < usize_bound" for m
      using make_file_name_inj [of n "''sst''" m "''sst''"] that by auto
    then show "map_of d (make_file_name n ''sst'') = map_of (dm_fs dm) (make_file_name n ''sst'')" by (intro same) blast
  qed (use N in auto)
  then show ?thesis using i w d by (simp add: dm_inv_def)
qed

lemma unlisted_reads:
  assumes S: "server_libs_ok S" "server_serves S W" and inv: "dm_inv S M dm v W" and o: "opt_ok (dm_opt dm)" and W: "writes_ok W"
    and e: "list_all2 (encoded S) W H" and c: "cache_new (tlibs S) cap = Some c" and lim: "limits dm" and n: "restart_room dm" and lg: "log_ok dm W"
    and d: "sorted_kv d" "files_fit d"
    and same: "\<And>x. \<forall>n \<ge> dm_next_file_number dm. n < usize_bound \<longrightarrow> x \<noteq> make_file_name n ''sst'' \<Longrightarrow> map_of d x = map_of (dm_fs dm) x"
  shows "\<exists>dm'. dm_new S (dm_opt dm) d c rngs = Some (Inr dm') \<and> (\<forall>k. \<exists>dm''. dm_get S dm' k = Some (Inr (db_lookup H k, dm'')))"
proof -
  have N: "dm_next_file_number dm < usize_bound" using lim by (simp add: limits_def)
  have i: "dm_inv S M (dm\<lparr>dm_fs := d\<rparr>) v W" by (rule dm_inv_unlisted [OF inv d(1) N same])
  have "limits (dm\<lparr>dm_fs := d\<rparr>)" using lim d(2) by (simp add: limits_def)
  from restart_reads [OF S i _ W e c this] o n log_bound(1) [OF lg W] show ?thesis by (simp add: restart_room_def)
qed

text \<open>C11: A crash while tables are being written, in either compaction or while the log is turned
  into tables, leaves files with numbers that were not in use and that no manifest lists, whole or
  in part.  A start succeeds whatever they hold, and every key reads as before.\<close>

theorem restart_ignores_unlisted_tables:
  assumes S: "server_libs_ok S" "server_serves S W" and o: "opt_ok opt" "0 < max_level opt"
    and r: "reaches S opt dm mi ma W" and e: "list_all2 (encoded S) W H" and c: "cache_new (tlibs S) cap = Some c"
    and n: "restart_room dm" and d: "sorted_kv d" "files_fit d"
    and same: "\<And>x. \<forall>n \<ge> dm_next_file_number dm. n < usize_bound \<longrightarrow> x \<noteq> make_file_name n ''sst'' \<Longrightarrow> map_of d x = map_of (dm_fs dm) x"
  shows "\<exists>dm'. dm_new S opt d c rngs = Some (Inr dm') \<and> (\<forall>k. \<exists>dm''. dm_get S dm' k = Some (Inr (db_lookup H k, dm'')))"
proof -
  obtain M v where v: "dm_opt dm = opt" "limits dm" "writes_ok W" "dm_inv S M dm v W" "log_ok dm W"
    using reaches_inv [OF S(1) o r] by (rule sys_invE) (rule that)
  from unlisted_reads [OF S v(4) _ v(3) e c v(2) n v(5) d same] o(1) v(1) show ?thesis by simp
qed

theorem restart_ignores_unlisted_tables_witness:
  "\<exists>dm c dm' dm''. reaches demo_server server_options_default dm None None demo_writes \<and> dm_next_file_number dm = 0 \<and>
     dm_new demo_server server_options_default (fs_write (make_file_name 0 ''sst'') [1, 2, 3] (dm_fs dm)) c (sconst (sconst 0)) = Some (Inr dm') \<and>
     dm_get demo_server dm' [97] = Some (Inr (Some demo_payload, dm''))"
proof -
  obtain dm where d: "reaches demo_server server_options_default dm None None demo_writes" "restart_room dm" "dm_next_file_number dm = 0"
    "sorted_kv (dm_fs dm)" "limits dm" using demo_options by (rule demo_room) (rule that)
  let ?d = "fs_write (make_file_name 0 ''sst'') [1, 2, 3] (dm_fs dm)"
  have s: "sorted_kv ?d" using d(4) by (simp add: fs_write_def sorted_ins_kv)
  have f: "files_fit ?d" by (rule files_fit_write) (use d(4,5) in \<open>simp_all add: limits_def\<close>)
  have e: "map_of ?d x = map_of (dm_fs dm) x" if "\<forall>n \<ge> dm_next_file_number dm. n < usize_bound \<longrightarrow> x \<noteq> make_file_name n ''sst''" for x
    using that d(3,4) by (simp add: fs_write_def map_of_ins_kv)
  obtain dm' where a: "dm_new demo_server server_options_default ?d
      \<lparr>cache_inner = lru_new (tlibs demo_server) 10, cache_id = 0\<rparr> (sconst (sconst 0)) = Some (Inr dm')"
    "\<forall>k. \<exists>dm''. dm_get demo_server dm' k = Some (Inr (db_lookup demo_history k, dm''))"
    using restart_ignores_unlisted_tables [OF demo_server_ok demo_writes_ok(2) demo_options d(1) demo_encoded demo_new_cache d(2) s f e] by blast
  obtain dm'' where "dm_get demo_server dm' [97] = Some (Inr (Some demo_payload, dm''))" using a(2) demo_lookup by metis
  then show ?thesis using a(1) d(1,3) by blast
qed

subsection \<open>Between the manifest and the log\<close>

lemma hist_inv_listed:
  assumes h: "hist_inv v W" and p: "v_pend v = 0" and im: "v_imm v = us @ [es]" and n: "0 < length (v_levels v)"
  shows "hist_inv (v\<lparr>v_levels := add_table es (v_levels v)\<rparr>) W"
proof -
  let ?T = "tables_view (v_levels v)" and ?T' = "tables_view (add_table es (v_levels v))"
  have t: "first_hit ?T' = first_hit (es # ?T)" by (rule first_hit_add_table [OF n])
  have "first_hit ((v_mut v # us @ [es]) @ ?T') = first_hit ((v_mut v # us @ [es]) @ es # ?T)" by (rule first_hit_append_cong [OF t])
  also have "\<dots> = first_hit ((v_mut v # us) @ es # [] @ es # ?T)" by simp
  also have "\<dots> = first_hit ((v_mut v # us) @ es # [] @ ?T)" by (rule first_hit_append_cong) (rule first_hit_again)
  also have "\<dots> = map_of (rev W)" using h im by (simp add: hist_inv_def db_view_def)
  finally have a: "first_hit (db_view (v\<lparr>v_levels := add_table es (v_levels v)\<rparr>)) = map_of (rev W)" by (simp add: db_view_def im)
  have "set x \<subseteq> set W" if "x \<in> set (v_mut v # v_imm v @ concat (add_table es (v_levels v)))" for x
  proof -
    have "x \<in> set (v_mut v # v_imm v @ concat (v_levels v))" using that set_add_table [OF n, of es] im by auto
    then show ?thesis using h unfolding hist_inv_def by blast
  qed
  then show ?thesis using a p by (simp add: hist_inv_def pending_def)
qed

lemma listed_inv:
  assumes inv: "dm_inv S M dm v W" and u: "unflushed v = us @ [es]" and a: "table_added S M dm v es sr d c M' rs"
  obtains dm' v' where "dm_inv S M' dm' v' W" "dm_fs dm' = d" "dm_opt dm' = dm_opt dm" "dm_wal dm' = dm_wal dm"
    "dm_next_file_number dm' = Suc (dm_next_file_number dm)" "dm_readers dm' = sr" "dm_cache dm' = c"
proof -
  note i = dm_invD [OF inv]
  let ?v = "v\<lparr>v_imm := unflushed v, v_pend := 0\<rparr>"
  let ?v' = "?v\<lparr>v_levels := add_table es (v_levels v)\<rparr>"
  obtain im where im: "minor_consume (v_pend v) dm = dm\<lparr>dm_imm := im\<rparr>" using minor_consume_imm by blast
  have "dm_inv S M (dm\<lparr>dm_imm := im\<rparr>) ?v W"
    using minor_consume_view [OF inv order.refl] unfolding im by (simp add: unflushed_def)
  note c = dm_invD [OF this, simplified]
  have n: "0 < length (v_levels v)" using sr_invD(3) [OF i(8)] i(4) by simp
  have h: "hist_inv ?v' W" using hist_inv_listed [OF c(9), of us es] u n by simp
  have t: "sorted_kv d" "cache_ok (tlibs S) M' c" "sr_inv S (dm_opt dm) M' sr d (Suc (dm_next_file_number dm)) (add_table es (v_levels v))"
    "\<And>n. n \<noteq> make_file_name (dm_next_file_number dm) ''sst'' \<Longrightarrow> n \<noteq> MANIFEST_FILENAME \<Longrightarrow> map_of d n = map_of (dm_fs dm) n"
    using a unfolding table_added_def by blast+
  have "wal_holds (tlibs S) (dm_wal dm) d (v_segs v)"
    using c(7) wal_ext_other by (intro wal_holds_frame [OF _ t(1) t(4)]) (auto simp: wal_inv_def)
  then have w: "wal_inv (tlibs S) (dm_wal dm) d ?v'"
    by (cases "v_segs v = []") (use c(7) in \<open>auto simp: wal_inv_def unflushed_def\<close>)
  let ?dm = "dm\<lparr>dm_imm := im, dm_fs := d, dm_readers := sr, dm_next_file_number := Suc (dm_next_file_number dm), dm_cache := c\<rparr>"
  have "dm_inv S M' ?dm ?v' W" unfolding dm_inv_def using i(3,4) c(5,6) t(1-3) h w by simp
  then show ?thesis by (rule that) simp_all
qed

lemma listed_reads:
  assumes S: "server_libs_ok S" "server_serves S W" and inv: "dm_inv S M dm v W" and o: "opt_ok (dm_opt dm)" and W: "writes_ok W"
    and e: "list_all2 (encoded S) W H" and c: "cache_new (tlibs S) cap = Some c" and m: "restart_room dm" and lg: "log_ok dm W"
    and u: "unflushed v = us @ [es]" and ta: "table_added S M dm v es sr d c1 M' rs" and f: "files_fit d" "cache_id c1 < usize_bound"
  shows "\<exists>dm'. dm_new S (dm_opt dm) d c rngs = Some (Inr dm') \<and> (\<forall>k. \<exists>dm''. dm_get S dm' k = Some (Inr (db_lookup H k, dm'')))"
proof -
  obtain dm' v' where l: "dm_inv S M' dm' v' W" "dm_fs dm' = d" "dm_opt dm' = dm_opt dm" "dm_wal dm' = dm_wal dm"
    "dm_next_file_number dm' = Suc (dm_next_file_number dm)" "dm_readers dm' = sr" "dm_cache dm' = c1"
    using inv u ta by (rule listed_inv) (rule that)
  let ?rss = "sr_readers (dm_readers dm)"
  have "sr_readers sr = ?rss[0 := ?rss ! 0 @ rs]" "length rs \<le> 1" using ta by (auto simp: table_added_def)
  then have len: "length (concat (sr_readers sr)) \<le> length (concat ?rss) + 1"
    by (cases ?rss) (auto simp: length_concat)
  have "limits dm'" unfolding limits_def l(2,5,7) using f m by (simp add: restart_room_def)
  moreover have "current_file_num (dm_wal dm') \<le> 10 ^ 8" using log_bound(1) [OF lg W] by (simp add: l(4))
  ultimately have "\<exists>x. dm_new S (dm_opt dm') (dm_fs dm') c rngs = Some (Inr x) \<and> (\<forall>k. \<exists>y. dm_get S x k = Some (Inr (db_lookup H k, y)))"
    using o m len by (intro restart_reads [OF S l(1) _ W e c]) (simp_all add: restart_room_def l)
  then show ?thesis by (simp add: l)
qed

text \<open>The disk after each file the minor compaction of one memtable writes, up to the segment it
  removes last.\<close>

definition minor_disks :: "('f, 'c) server_libs \<Rightarrow> (bytes, bytes) memtable \<Rightarrow> ('f, 'c) data_manager \<Rightarrow> fs list" where
  "minor_disks S t dm =
     (case mt_build_sstable S t (dm_opt dm) (make_file_name (dm_next_file_number dm) ''sst'') (dm_fs dm) (dm_cache dm) of
        Some (Inr (r, d1, c)) \<Rightarrow>
          d1 # (case (case r of
                        None \<Rightarrow> Some (Inr (dm_readers dm, d1))
                      | Some (_, reader) \<Rightarrow> sr_add S (dm_readers dm) 0 reader d1) of
                  Some (Inr (sr, d2)) \<Rightarrow> [d2]
                | _ \<Rightarrow> [])
      | _ \<Rightarrow> [])"

lemma minor_disksE:
  assumes "d \<in> set (minor_disks S t dm)"
  obtains x d1 c1 where
    "skiplist_to_sstable S (mt_map t) (dm_opt dm) (make_file_name (dm_next_file_number dm) ''sst'') (dm_fs dm) (dm_cache dm) = Some (Inr (x, d1, c1))"
    "d = d1 \<or> (\<exists>sr. (case x of None \<Rightarrow> Some (Inr (dm_readers dm, d1)) | Some (_, reader) \<Rightarrow> sr_add S (dm_readers dm) 0 reader d1) = Some (Inr (sr, d)))"
proof -
  let ?b = "skiplist_to_sstable S (mt_map t) (dm_opt dm) (make_file_name (dm_next_file_number dm) ''sst'') (dm_fs dm) (dm_cache dm)"
  obtain s where s: "?b = Some s" using assms by (cases ?b) (simp_all add: minor_disks_def mt_build_sstable_def)
  then obtain x d1 c1 where "s = Inr (x, d1, c1)"
    using assms by (cases s) (auto simp: minor_disks_def mt_build_sstable_def intro: that)
  with s have b: "?b = Some (Inr (x, d1, c1))" by simp
  let ?a = "case x of None \<Rightarrow> Some (Inr (dm_readers dm, d1)) | Some (_, reader) \<Rightarrow> sr_add S (dm_readers dm) 0 reader d1"
  have "d = d1 \<or> (\<exists>sr. ?a = Some (Inr (sr, d)))"
    using assms unfolding minor_disks_def mt_build_sstable_def b by (cases ?a) (auto split: sum.splits)
  with b show ?thesis by (rule that)
qed

text \<open>C9: A crash in the midst of the minor compaction of a memtable, after its table is written or
  after the manifest lists it but before its segment of the log is removed: a start succeeds and
  every key reads as before, although in the second case the same entries are on level 0 twice.\<close>

theorem crash_in_minor_compaction:
  assumes S: "server_libs_ok S" "server_serves S W" and o: "opt_ok opt" "0 < max_level opt"
    and r: "reaches S opt dm (Some (i, n)) ma W" "i < n" and t: "idx (rev (ml_tables (dm_imm dm))) i = Some t"
    and d: "d \<in> set (minor_disks S t dm)"
    and e: "list_all2 (encoded S) W H" and c: "cache_new (tlibs S) cap = Some c" and m: "restart_room dm"
  shows "\<exists>dm'. dm_new S opt d c rngs = Some (Inr dm') \<and> (\<forall>k. \<exists>dm''. dm_get S dm' k = Some (Inr (db_lookup H k, dm'')))"
proof -
  let ?p = "make_file_name (dm_next_file_number dm) ''sst''"
  obtain x d1 c1 where b:
    "skiplist_to_sstable S (mt_map t) (dm_opt dm) (make_file_name (dm_next_file_number dm) ''sst'') (dm_fs dm) (dm_cache dm) = Some (Inr (x, d1, c1))"
    and dd: "d = d1 \<or> (\<exists>sr. (case x of None \<Rightarrow> Some (Inr (dm_readers dm, d1)) | Some (_, reader) \<Rightarrow> sr_add S (dm_readers dm) 0 reader d1) = Some (Inr (sr, d)))"
    using d by (rule minor_disksE) (rule that)
  obtain M v where v: "dm_opt dm = opt" "limits dm" "writes_ok W" "dm_inv S M dm v W"
    "case Some (i, n) of None \<Rightarrow> v_pend v = 0 | Some (i, c) \<Rightarrow> v_pend v = i \<and> i \<le> c \<and> c \<le> length (v_imm v)"
    "log_ok dm W" using reaches_inv [OF S(1) o r(1)] by (rule sys_invE) (rule that)
  note iv = dm_invD [OF v(4)]
  have o': "opt_ok (dm_opt dm)" using o(1) v(1) by simp
  obtain us es where u: "unflushed v = us @ [es]" and mt: "mt_rel t es" using next_memtable [OF v(4), of t] t v(5) r(2) by auto
  have sm: "sl_rel (mt_map t) es" using mt by (simp add: mt_rel_def)
  have pl: "v_pend v \<le> length (v_imm v)" using iv(7) by (simp add: wal_inv_def)
  have sub: "set es \<subseteq> set W" using iv(9) unflushed_split(1) [OF u pl] by (simp add: hist_inv_def)
  have N: "dm_next_file_number dm < usize_bound" and ci: "cache_id (dm_cache dm) + 1 < usize_bound" using m by (simp_all add: restart_room_def)
  have f1: "cache_id c1 < usize_bound" "d1 = dm_fs dm \<or> (\<exists>f. length f < usize_bound \<and> d1 = fs_write ?p f (dm_fs dm))"
    using skiplist_to_sstable_total [OF S o' v(3) sm sub iv(2) ci iv(1), of ?p] b ci by auto
  have s1: "sorted_kv d1" "files_fit d1" using f1(2) iv(1) v(2) files_fit_write by (auto simp: fs_write_def sorted_ins_kv limits_def)
  show ?thesis
    using dd
  proof
    assume "d = d1"
    moreover have "map_of d1 x = map_of (dm_fs dm) x" if "\<forall>n \<ge> dm_next_file_number dm. n < usize_bound \<longrightarrow> x \<noteq> make_file_name n ''sst''" for x
      using that f1(2) iv(1) N by (auto simp: fs_write_def map_of_ins_kv)
    ultimately show ?thesis using unlisted_reads [OF S v(4) o' v(3) e c v(2) m v(6) s1] v(1) by auto
  next
    assume "\<exists>sr. (case x of None \<Rightarrow> Some (Inr (dm_readers dm, d1)) | Some (_, reader) \<Rightarrow> sr_add S (dm_readers dm) 0 reader d1) = Some (Inr (sr, d))"
    then obtain sr where a: "(case x of None \<Rightarrow> Some (Inr (dm_readers dm, d1)) | Some (_, reader) \<Rightarrow> sr_add S (dm_readers dm) 0 reader d1) = Some (Inr (sr, d))" by blast
    have fit: "length f < usize_bound" if "map_of d1 ?p = Some f" for f using files_fitD [OF s1(2) that] .
    obtain M' rs where ta: "table_added S M dm v es sr d c1 M' rs"
      using minor_table_added [OF S(1) v(4) o' v(3) mt sub N b a fit f1(1)] by blast
    have "d = d1 \<or> (\<exists>y. d = fs_write MANIFEST_FILENAME y d1)"
      using a by (auto simp: sr_add_def split: option.splits dest!: add_readers_fs)
    then have "files_fit d" using s1 files_fit_write [OF s1(2,1)] manifest_not_sst by auto
    from listed_reads [OF S v(4) o' v(3) e c m v(6) u ta this f1(1)] v(1) show ?thesis by simp
  qed
qed

text \<open>With memtables of size zero, every write makes its memtable immutable.\<close>

lemma demo_minor:
  defines "opt \<equiv> server_options_default\<lparr>mem_table_max_size := 0\<rparr>"
  obtains dm t d1 d2 where "reaches demo_server opt dm (Some (0, 1)) None demo_writes" "restart_room dm"
    "idx (rev (ml_tables (dm_imm dm))) 0 = Some t" "minor_disks demo_server t dm = [d1, d2]"
proof -
  have o: "opt_ok opt" "0 < max_level opt" using demo_options by (simp_all add: opt_def opt_ok_def)
  obtain dm where d: "reaches demo_server opt dm None None demo_writes" "restart_room dm" "dm_opt dm = opt" "dm_next_file_number dm = 0"
    "cache_id (dm_cache dm) = 0" "mem_table_max_size opt = 0 \<Longrightarrow> mt_rel (dm_mut dm) [] \<and> list_all2 mt_rel (ml_tables (dm_imm dm)) [demo_writes]" "limits dm"
    using o by (rule demo_room) (rule that)
  obtain t where t: "ml_tables (dm_imm dm) = [t]" using d(6) by (auto simp: opt_def list_all2_Cons2)
  have r: "reaches demo_server opt dm (Some (0, 1)) None demo_writes" using Minor_begin [OF d(1)] t by (simp add: ml_table_count_def)
  obtain M v where v: "dm_inv demo_server M dm v demo_writes" "v_pend v = 0"
    using reaches_inv [OF demo_server_ok o d(1)] by (rule sys_invE) (auto intro: that)
  have i: "idx (rev (ml_tables (dm_imm dm))) 0 = Some t" using t by (simp add: idx_def)
  have "length (v_imm v) = 1" using dm_invD(6) [OF v(1)] t by (auto simp: ml_rel_def dest: list_all2_lengthD)
  then obtain us es where u: "unflushed v = us @ [es]" "mt_rel t es" using next_memtable [OF v(1), of t] i v(2) by auto
  have "room 1 dm" using d(4,5) by (simp add: room_def)
  then obtain dm' where "minor_one demo_server t dm = Some (Inr dm')"
    using minor_one_total [OF demo_server_ok demo_writes_ok(2) v(1) _ demo_writes_ok(1) u d(7)] o(1) d(3) by blast
  then obtain x d1 c1 sr d2 where
    "skiplist_to_sstable demo_server (mt_map t) (dm_opt dm) (make_file_name (dm_next_file_number dm) ''sst'') (dm_fs dm) (dm_cache dm) = Some (Inr (x, d1, c1))"
    "(case x of None \<Rightarrow> Some (Inr (dm_readers dm, d1)) | Some (_, reader) \<Rightarrow> sr_add demo_server (dm_readers dm) 0 reader d1) = Some (Inr (sr, d2))"
    by (rule minor_one_Ok) (rule that)
  then have "minor_disks demo_server t dm = [d1, d2]" by (simp add: minor_disks_def mt_build_sstable_def cong: option.case_cong)
  with r d(2) i show ?thesis by (rule that)
qed

theorem crash_in_minor_compaction_witness:
  "\<exists>dm t d1 d2 c dm' dm''. reaches demo_server (server_options_default\<lparr>mem_table_max_size := 0\<rparr>) dm (Some (0, 1)) None demo_writes \<and>
     minor_disks demo_server t dm = [d1, d2] \<and>
     dm_new demo_server (server_options_default\<lparr>mem_table_max_size := 0\<rparr>) d2 c (sconst (sconst 0)) = Some (Inr dm') \<and>
     dm_get demo_server dm' [97] = Some (Inr (Some demo_payload, dm''))"
proof -
  let ?opt = "server_options_default\<lparr>mem_table_max_size := 0\<rparr>"
  have o: "opt_ok ?opt" "0 < max_level ?opt" using demo_options by (simp_all add: opt_ok_def)
  obtain dm t d1 d2 where d: "reaches demo_server ?opt dm (Some (0, 1)) None demo_writes" "restart_room dm"
    "idx (rev (ml_tables (dm_imm dm))) 0 = Some t" "minor_disks demo_server t dm = [d1, d2]" by (rule demo_minor) (rule that)
  obtain dm' where a: "dm_new demo_server ?opt d2 \<lparr>cache_inner = lru_new (tlibs demo_server) 10, cache_id = 0\<rparr> (sconst (sconst 0)) = Some (Inr dm')"
    "\<forall>k. \<exists>dm''. dm_get demo_server dm' k = Some (Inr (db_lookup demo_history k, dm''))"
    using crash_in_minor_compaction [OF demo_server_ok demo_writes_ok(2) o d(1) _ d(3) _ demo_encoded demo_new_cache d(2), of d2 "sconst (sconst 0)"] d(4)
    by (simp, elim exE conjE) (rule that)
  obtain dm'' where "dm_get demo_server dm' [97] = Some (Inr (Some demo_payload, dm''))" using a(2) demo_lookup by metis
  then show ?thesis using a(1) d(1,4) by blast
qed

subsection \<open>Between the log and the memtable\<close>

text \<open>C8: A write whose record has reached the log survives a crash before anything else of it is
  done: a start from the disk as it is then succeeds, the key reads as written and every other key
  as before.\<close>

theorem logged_write_survives:
  assumes S: "server_libs_ok S" "server_serves S (W @ [(k, b)])" and o: "opt_ok opt" "0 < max_level opt"
    and r: "reaches S opt dm mi ma W" and e: "list_all2 (encoded S) W H" "serialize_value S x = Inr b"
    and w: "loggable (tlibs S) (k, b)" "writes_ok (W @ [(k, b)])"
    and a: "wal_append (tlibs S) (dm_wal dm) k b (dm_fs dm) = Some (Inr (l, d))"
    and c: "cache_new (tlibs S) cap = Some c" and m: "restart_room dm"
  shows "\<exists>dm'. dm_new S opt d c rngs = Some (Inr dm') \<and>
     (\<forall>j. \<exists>dm''. dm_get S dm' j = Some (Inr (if j = k then x else db_lookup H j, dm'')))"
proof -
  obtain M v where v: "dm_opt dm = opt" "limits dm" "dm_inv S M dm v W" and lg: "writes_ok W" "log_ok dm W"
    using reaches_inv [OF S(1) o r] by (rule sys_invE) (rule that)
  have L: "fixed_ok (tlibs S)" using S(1) by (simp add: server_libs_ok_def table_libs_ok_def)
  note n = log_bound(2) [OF lg(2,1)]
  obtain w' d' m' where q: "wal_append (tlibs S) (dm_wal dm) k b (dm_fs dm) = Some (Inr (w', d'))"
    "dm_inv S M (dm\<lparr>dm_wal := w', dm_fs := d', dm_mut := m'\<rparr>) (put k b v) (W @ [(k, b)])"
    "current_file_num w' = current_file_num (dm_wal dm) + (if v_segs v = [] then 1 else 0)"
    "\<And>x. \<forall>i. x \<noteq> make_file_name i ''wal'' \<Longrightarrow> map_of d' x = map_of (dm_fs dm) x"
    using L v(3) w(1) n by (rule insert_logged) (rule that)
  then have eq: "w' = l" "d' = d" using a by simp_all
  let ?dm = "dm\<lparr>dm_wal := l, dm_fs := d, dm_mut := m'\<rparr>"
  note i = dm_invD [OF q(2)]
  have "files_fit d" using v(2) files_fit_wal [OF _ i(1), of "dm_fs dm"] q(4) eq by (simp add: limits_def)
  then have lim: "limits ?dm" using v(2) by (simp add: limits_def)
  have "length (segs l) = length (v_segs (put k b v))" "length (segs (dm_wal dm)) = length (v_segs v)"
    using i(7) dm_invD(7) [OF v(3)] eq by (auto simp: wal_inv_def wal_holds_def dest: list_all2_lengthD)
  then have ls: "length (segs l) \<le> length (segs (dm_wal dm)) + 1" by (auto simp: put_def)
  have e': "list_all2 (encoded S) (W @ [(k, b)]) (H @ [(k, x)])" using e by (simp add: list_all2_appendI encoded_def)
  have o': "opt_ok (dm_opt ?dm)" using o(1) v(1) by simp
  have "log_ok ?dm (W @ [(k, b)])" using lg(2) q(3) eq view_segs [OF v(3)] by (auto simp: log_ok_def split: if_splits)
  then have "current_file_num (dm_wal ?dm) \<le> 10 ^ 8" by (rule log_bound(1)) (rule w(2))
  moreover have "dm_next_file_number ?dm + length (segs (dm_wal ?dm)) < usize_bound"
    "length (concat (sr_readers (dm_readers ?dm))) + 2 * length (segs (dm_wal ?dm)) < usize_bound"
    using m ls by (simp_all add: restart_room_def)
  ultimately have "\<exists>dm'. dm_new S (dm_opt ?dm) (dm_fs ?dm) c rngs = Some (Inr dm') \<and>
      (\<forall>j. \<exists>dm''. dm_get S dm' j = Some (Inr (db_lookup (H @ [(k, x)]) j, dm'')))"
    by (rule restart_reads [OF S q(2) [unfolded eq] o' w(2) e' c lim])
  then show ?thesis using v(1) by simp
qed

theorem logged_write_survives_witness:
  "\<exists>dm l d c dm' dm''. reaches demo_server server_options_default dm None None demo_writes \<and>
     wal_append (tlibs demo_server) (dm_wal dm) [98] demo_bytes (dm_fs dm) = Some (Inr (l, d)) \<and>
     dm_new demo_server server_options_default d c (sconst (sconst 0)) = Some (Inr dm') \<and>
     dm_get demo_server dm' [98] = Some (Inr (Some demo_payload, dm''))"
proof -
  obtain dm where d: "reaches demo_server server_options_default dm None None demo_writes" "restart_room dm" using demo_options by (rule demo_room) (rule that)
  obtain M v where v: "dm_inv demo_server M dm v demo_writes" and lg: "writes_ok demo_writes" "log_ok dm demo_writes"
    using reaches_inv [OF demo_server_ok demo_options d(1)] by (rule sys_invE) (rule that)
  have L: "fixed_ok (tlibs demo_server)" using demo_server_ok by (simp add: server_libs_ok_def table_libs_ok_def)
  have g: "loggable (tlibs demo_server) ([98], demo_bytes)" by (simp add: demo_server_def demo_bytes_def)
  have W: "writes_ok (demo_writes @ [([98], demo_bytes)])" by (simp add: writes_ok_def keys_nonempty_def enc_size_def demo_bytes_def)
  have s: "server_serves demo_server (demo_writes @ [([98], demo_bytes)])" by (rule demo_server_serves) simp
  note n = log_bound(2) [OF lg(2,1)]
  obtain l dd where a: "wal_append (tlibs demo_server) (dm_wal dm) [98] demo_bytes (dm_fs dm) = Some (Inr (l, dd))"
    using L v g n by (rule insert_logged) (rule that)
  have "\<exists>dm'. dm_new demo_server server_options_default dd \<lparr>cache_inner = lru_new (tlibs demo_server) 10, cache_id = 0\<rparr> (sconst (sconst 0)) = Some (Inr dm') \<and>
     (\<forall>j. \<exists>dm''. dm_get demo_server dm' j = Some (Inr (if j = [98] then Some demo_payload else db_lookup demo_history j, dm'')))"
    by (rule logged_write_survives [OF demo_server_ok s demo_options d(1) demo_encoded demo_value g W a demo_new_cache d(2)])
  then obtain dm' where dm': "dm_new demo_server server_options_default dd \<lparr>cache_inner = lru_new (tlibs demo_server) 10, cache_id = 0\<rparr> (sconst (sconst 0)) = Some (Inr dm')"
    "\<forall>j. \<exists>dm''. dm_get demo_server dm' j = Some (Inr (if j = [98] then Some demo_payload else db_lookup demo_history j, dm''))" by blast
  obtain dm'' where "dm_get demo_server dm' [98] = Some (Inr (Some demo_payload, dm''))" using dm'(2) [THEN spec, of "[98]"] by auto
  then show ?thesis using dm'(1) d(1) a by blast
qed

subsection \<open>In the midst of recovery\<close>

text \<open>The disk after each file a start writes or removes: the empty segments of the log are gone,
  the tables of the others written, the manifest lists them, and the segments go one by one.\<close>

fun delete_disks :: "wal_seg list \<Rightarrow> fs \<Rightarrow> fs list" where
  "delete_disks [] d = [d]"
| "delete_disks (s # ss) d = d # (case seg_delete s d of Inl e \<Rightarrow> [] | Inr d' \<Rightarrow> delete_disks ss d')"

definition redo_disks ::
  "('f, 'c) server_libs \<Rightarrow> server_options \<Rightarrow> 'f sstable_reader \<Rightarrow> wal_seg list \<Rightarrow> nat \<Rightarrow> fs \<Rightarrow> 'c cache \<Rightarrow> nat stream stream \<Rightarrow> fs list" where
  "redo_disks S opt sr ss n d c rngs =
     (case redo_build S opt ss n d c rngs of None \<Rightarrow> [] | Some (ps, n', d1, c1, rngs') \<Rightarrow>
        d1 # (case redo_open S opt ps d1 c1 of None \<Rightarrow> [] | Some (rs, c2) \<Rightarrow>
          (case add_readers S sr 0 rs d1 of Some (Inr (sr', d2)) \<Rightarrow> delete_disks ss d2 | _ \<Rightarrow> [])))"

definition start_disks :: "('f, 'c) server_libs \<Rightarrow> server_options \<Rightarrow> fs \<Rightarrow> 'c cache \<Rightarrow> nat stream stream \<Rightarrow> fs list" where
  "start_disks S opt d c rngs =
     (case sr_new S opt d c of Some (Inr (sr, c1)) \<Rightarrow>
        (case (mfb_next_file_number (sr_manifest sr), wal_new (glob_wal S) d) of
           (Some n, Some (w, d1)) \<Rightarrow> d1 # (if seg_count w = 0 then [] else redo_disks S opt sr (segs w) n d1 c1 (stl rngs))
         | _ \<Rightarrow> [])
      | _ \<Rightarrow> [])"

lemma delete_disks_take: "d' \<in> set (delete_disks ss d) \<Longrightarrow> \<exists>k. delete_segs (take k ss) d = Inr d'"
proof (induction ss d rule: delete_disks.induct)
  case (2 s ss d)
  show ?case
  proof (cases "d' = d")
    case True
    then show ?thesis by (intro exI [of _ 0]) simp
  next
    case False
    then obtain d1 where d1: "seg_delete s d = Inr d1" "d' \<in> set (delete_disks ss d1)" using "2.prems" by (cases "seg_delete s d") auto
    from "2.IH" [OF d1] obtain k where "delete_segs (take k ss) d1 = Inr d'" by blast
    then show ?thesis using d1(1) by (intro exI [of _ "Suc k"]) simp
  qed
qed simp

text \<open>A disk from which a start gives the history \<open>W\<close>, with at most \<open>n\<close> as next number, \<open>t\<close> tables and
  \<open>s\<close> segments.\<close>

definition startable :: "('f, 'c) server_libs \<Rightarrow> server_options \<Rightarrow> entry list \<Rightarrow> fs \<Rightarrow> nat \<Rightarrow> nat \<Rightarrow> nat \<Rightarrow> bool" where
  "startable S opt W d n t s \<longleftrightarrow> (\<exists>M sr N lss ps ess. disk_inv S opt M sr d N lss ps ess W \<and> files_fit d \<and>
     N \<le> n \<and> length (concat lss) \<le> t \<and> length ess \<le> s)"

lemma startableI:
  "disk_inv S opt M sr d N lss ps ess W \<Longrightarrow> files_fit d \<Longrightarrow> N \<le> n \<Longrightarrow> length (concat lss) \<le> t \<Longrightarrow> length ess \<le> s \<Longrightarrow>
   startable S opt W d n t s"
  unfolding startable_def by blast

lemma redo_disks_startable:
  assumes S: "server_libs_ok S" "server_serves S W" and o: "opt_ok opt" and W: "writes_ok W"
    and v: "disk_inv S opt M sr d N lss (map seg_path ss) ess W" and c: "cache_ok (tlibs S) M c" and ne: "\<forall>es \<in> set ess. es \<noteq> []"
    and ff: "files_fit d" and n: "N + length ss < usize_bound" "cache_id c + 2 * length ss < usize_bound"
    and d': "d' \<in> set (redo_disks S opt sr ss N d c rngs)"
  shows "startable S opt W d' (N + length ss) (length (concat lss) + length ss) (length ss)"
proof -
  obtain ps d1 c1 rngs' rs c2 sr2 d2 where b: "redo_build S opt ss N d c rngs = Some (ps, N + length ss, d1, c1, rngs')"
      "redo_open S opt ps d1 c1 = Some (rs, c2)" "add_readers S sr 0 rs d1 = Some (Inr (sr2, d2))"
    and f: "files_fit d1" "files_fit d2" "cache_id c2 \<le> cache_id c + 2 * length ss"
    using S o W v c ne ff n by (rule redo_lists_total) (rule that)
  note len = disk_segs(4) [OF v ne]
  have "d' = d1 \<or> d' \<in> set (delete_disks ss d2)" using d' b by (simp add: redo_disks_def)
  then show ?thesis
  proof
    assume "d' = d1"
    then show ?thesis using startableI [OF redo_build_disk(2) [OF v ne map_le_refl b(1) n(1)] f(1)] len by simp
  next
    assume "d' \<in> set (delete_disks ss d2)"
    then obtain k where k: "delete_segs (take k ss) d2 = Inr d'" using delete_disks_take by blast
    have c2: "cache_id c2 < usize_bound" using f(3) n(2) by simp
    have fit: "\<forall>i f. map_of d1 (sst_name i) = Some f \<longrightarrow> length f < usize_bound" using files_fitD [OF f(1)] by blast
    obtain M' where M': "disk_inv S opt M' sr2 d2 (N + length ss) (with_segs lss ess) (map seg_path ss) ess W"
      "covered (with_segs lss ess) W" using redo_lists [OF S(1) o W v c ne b n(1) c2 fit] by blast
    have d: "disk_inv S opt M' sr2 d' (N + length ss) (with_segs lss ess) (map seg_path (drop k ss)) (drop k ess) W"
      "\<And>x. \<not> has_ext ''wal'' x \<Longrightarrow> map_of d' x = map_of d2 x" using disk_inv_delete [OF M', of k] k by auto
    have "files_fit d'" by (rule files_fit_log [OF f(2) log_filesD(1) [OF disk_invD(3) [OF d(1)]] d(2)])
    moreover have "length (concat (with_segs lss ess)) = length (concat lss) + length ss"
      using disk_invD(6) [OF v] len by (cases lss) simp_all
    ultimately show ?thesis using startableI [OF d(1)] len by simp
  qed
qed

lemma start_disks_startable:
  assumes S: "server_libs_ok S" "server_serves S W" and v: "disk_inv S opt M0 sr0 d N0 lss ps ess W" and o: "opt_ok opt" and W: "writes_ok W"
    and c: "cache_ok (tlibs S) M c" and ff: "files_fit d"
    and n: "N0 + length ess < usize_bound" "cache_id c + length (concat lss) + 2 * length ess < usize_bound"
    and d': "d' \<in> set (start_disks S opt d c rngs)"
  shows "startable S opt W d' (N0 + length ess) (length (concat lss) + length ess) (length ess)"
proof -
  let ?ess = "filter (\<lambda>es. es \<noteq> []) ess"
  have "cache_id c + length (concat lss) < usize_bound" using n(2) by simp
  then obtain sr c1 M1 N ss d1 where s: "sr_new S opt d c = Some (Inr (sr, c1))" "mfb_next_file_number (sr_manifest sr) = Some N" "N \<le> N0"
    "wal_new (glob_wal S) d = Some (\<lparr>segs = ss, current_file_num = 0\<rparr>, d1)" "disk_inv S opt M1 sr d1 N lss (map seg_path ss) ?ess W"
    "cache_ok (tlibs S) M1 c1" "cache_id c1 = cache_id c + length (concat lss)" "\<And>x. \<not> has_ext ''wal'' x \<Longrightarrow> map_of d1 x = map_of d x"
    by (rule dm_new_opens [OF S(1) v c]) (rule that)
  have ne: "\<forall>es \<in> set ?ess. es \<noteq> []" by simp
  have len: "length ss \<le> length ess" using disk_segs(4) [OF s(5) ne] length_filter_le [of "\<lambda>es. es \<noteq> []" ess] by simp
  then have sz: "N + length ss < usize_bound" "cache_id c1 + 2 * length ss < usize_bound" using n s(3,7) by linarith+
  have ff1: "files_fit d1" by (rule files_fit_log [OF ff disk_segs(5) [OF s(5) ne] s(8)])
  have "d' = d1 \<or> d' \<in> set (redo_disks S opt sr ss N d1 c1 (stl rngs))"
    using d' s(1,2,4) by (auto simp: start_disks_def split: if_splits)
  then show ?thesis
  proof
    assume "d' = d1"
    then show ?thesis using startableI [OF s(5) ff1] s(3) length_filter_le [of "\<lambda>es. es \<noteq> []" ess] by simp
  next
    assume "d' \<in> set (redo_disks S opt sr ss N d1 c1 (stl rngs))"
    from redo_disks_startable [OF S o W s(5,6) ne ff1 sz this] len s(3) show ?thesis
      unfolding startable_def by (meson add_le_mono le_trans order_refl)
  qed
qed

text \<open>C10: A crash in the midst of a start, after it has removed the empty segments of the log, after it
  has written the tables of the others, after the manifest lists them, or after it has removed any
  number of the segments: the next start succeeds, and every key reads as before.\<close>

theorem crash_in_recovery:
  assumes S: "server_libs_ok S" "server_serves S W" and o: "opt_ok opt" "0 < max_level opt"
    and r: "reaches S opt dm mi ma W" and e: "list_all2 (encoded S) W H"
    and n: "dm_next_file_number dm + 2 * length (segs (dm_wal dm)) < usize_bound"
      "length (concat (sr_readers (dm_readers dm))) + 3 * length (segs (dm_wal dm)) < usize_bound"
    and c: "cache_new (tlibs S) cap = Some c" and d: "d \<in> set (start_disks S opt (dm_fs dm) c rngs)"
    and c': "cache_new (tlibs S) cap' = Some c'"
  shows "\<exists>dm'. dm_new S opt d c' rngs' = Some (Inr dm') \<and> (\<forall>k. \<exists>dm''. dm_get S dm' k = Some (Inr (db_lookup H k, dm'')))"
proof -
  obtain M v where v: "dm_opt dm = opt" "limits dm" "writes_ok W" "dm_inv S M dm v W" "log_ok dm W"
    using reaches_inv [OF S(1) o r] by (rule sys_invE) (rule that)
  note disk = dm_inv_disk [OF v(4) log_bound(1) [OF v(5,3)], unfolded v(1)]
  note len = segs_length [OF v(4)] levels_length [OF dm_invD(8) [OF v(4)]]
  have lru: "lru_ok (tlibs S)" using S by (simp add: server_libs_ok_def table_libs_ok_def)
  note co = cache_new_ok [OF lru c]
  have "files_fit (dm_fs dm)" "dm_next_file_number dm + length (v_segs v) < usize_bound"
    "cache_id c + length (concat (v_levels v)) + 2 * length (v_segs v) < usize_bound"
    using v(2) n co(2) len by (simp_all add: limits_def)
  from start_disks_startable [OF S disk o(1) v(3) co(1) this d] obtain M' sr N lss ps ess where
    u: "disk_inv S opt M' sr d N lss ps ess W" "files_fit d" "N \<le> dm_next_file_number dm + length (v_segs v)"
      "length (concat lss) \<le> length (concat (v_levels v)) + length (v_segs v)" "length ess \<le> length (v_segs v)"
    unfolding startable_def by (elim exE conjE) (rule that)
  show ?thesis by (rule disk_reads [OF S u(1) o(1) v(3) e c' u(2)]) (use u(3-5) n len in linarith)+
qed

lemma start_disks_nonempty: "dm_new S opt d c rngs = Some (Inr dm') \<Longrightarrow> start_disks S opt d c rngs \<noteq> []"
  by (auto simp: dm_new_def start_disks_def tryO_eq_Ok bind_eq_Some_conv)

theorem crash_in_recovery_witness:
  "\<exists>dm c dm' dm''. reaches demo_server server_options_default dm None None demo_writes \<and>
     dm_new demo_server server_options_default (last (start_disks demo_server server_options_default (dm_fs dm) c (sconst (sconst 0)))) c
       (sconst (sconst 0)) = Some (Inr dm') \<and>
     dm_get demo_server dm' [97] = Some (Inr (Some demo_payload, dm''))"
proof -
  let ?S = demo_server and ?opt = server_options_default and ?c = "\<lparr>cache_inner = lru_new (tlibs demo_server) 10, cache_id = 0\<rparr>"
  obtain dm where d: "reaches ?S ?opt dm None None demo_writes" "dm_opt dm = ?opt" "dm_next_file_number dm = 0"
    "length (segs (dm_wal dm)) \<le> 2" "length (concat (sr_readers (dm_readers dm))) = 0"
    using demo_options by (rule demo_written_with) (rule that)
  have n: "dm_next_file_number dm + 2 * length (segs (dm_wal dm)) < usize_bound"
    "length (concat (sr_readers (dm_readers dm))) + 3 * length (segs (dm_wal dm)) < usize_bound" unfolding d(3,5) using d(4) by simp_all
  obtain M v where v: "limits dm" "writes_ok demo_writes" "dm_inv ?S M dm v demo_writes" "log_ok dm demo_writes"
    using reaches_inv [OF demo_server_ok demo_options d(1)] by (rule sys_invE) (rule that)
  have "\<exists>x. dm_new ?S (dm_opt dm) (dm_fs dm) ?c (sconst (sconst 0)) = Some (Inr x) \<and>
      (\<forall>k. \<exists>y. dm_get ?S x k = Some (Inr (db_lookup demo_history k, y)))"
    by (rule restart_reads [OF demo_server_ok demo_writes_ok(2) v(3) _ v(2) demo_encoded demo_new_cache v(1) log_bound(1) [OF v(4,2)]])
      (use n d(2) demo_options in simp_all)
  then obtain x where "dm_new ?S ?opt (dm_fs dm) ?c (sconst (sconst 0)) = Some (Inr x)" using d(2) by auto
  then have l: "last (start_disks ?S ?opt (dm_fs dm) ?c (sconst (sconst 0))) \<in> set (start_disks ?S ?opt (dm_fs dm) ?c (sconst (sconst 0)))"
    by (intro last_in_set start_disks_nonempty)
  obtain dm' where dm': "dm_new ?S ?opt (last (start_disks ?S ?opt (dm_fs dm) ?c (sconst (sconst 0)))) ?c (sconst (sconst 0)) = Some (Inr dm')"
    "\<forall>k. \<exists>dm''. dm_get ?S dm' k = Some (Inr (db_lookup demo_history k, dm''))"
    using crash_in_recovery [OF demo_server_ok demo_writes_ok(2) demo_options d(1) demo_encoded n demo_new_cache l demo_new_cache] by blast
  obtain dm'' where "dm_get ?S dm' [97] = Some (Inr (Some demo_payload, dm''))" using dm'(2) demo_lookup by metis
  then show ?thesis using d(1) dm'(1) by blast
qed

subsection \<open>In the midst of the major compaction\<close>

lemma kept_none: "tr_file_name ` set rs \<subseteq> set ns \<Longrightarrow> kept rs ls ns = []"
  using set_zip_leftD [of _ _ rs ls] by (fastforce simp: kept_def filter_empty_conv)

lemma empty_entries: "map_of es = Map.empty \<Longrightarrow> es = []"
  by (cases es) (auto simp: fun_eq_iff split: if_splits)

lemma emptied_inv:
  assumes S: "bincode_manifest_ok S" and inv: "dm_inv S M dm v W" and l: "l < max_level (dm_opt dm)"
    and m: "mt_rel (dm_mut dm) []" "ml_tables (dm_imm dm) = []"
    and n: "distinct ns" "set ns = tr_file_name ` set (sr_readers (dm_readers dm) ! l)"
    and o: "\<And>i. i < max_level (dm_opt dm) \<Longrightarrow> i \<noteq> l \<Longrightarrow> sr_readers (dm_readers dm) ! i = []"
    and a: "remove_by_file_names S (dm_readers dm) l ns (dm_fs dm) = Some (Inr (sr, d))"
  shows "dm_inv S M (dm\<lparr>dm_readers := sr, dm_fs := d\<rparr>) (v\<lparr>v_levels := replicate (max_level (dm_opt dm)) []\<rparr>) []"
proof -
  note i = dm_invD [OF inv]
  note sv = sr_invD [OF i(8)]
  let ?rss = "sr_readers (dm_readers dm)" and ?ls = "replicate (max_level (dm_opt dm)) []"
  have ns: "set ns \<subseteq> tr_file_name ` set (?rss ! l)" using n(2) by simp
  note r = remove_by_file_names_ok [OF S i(8,1) l n(1) ns a]
  have "(v_levels v)[l := kept (?rss ! l) (v_levels v ! l) ns] = ?ls"
  proof (rule nth_equalityI)
    fix j assume "j < length ((v_levels v)[l := kept (?rss ! l) (v_levels v ! l) ns])"
    then have j: "j < max_level (dm_opt dm)" using sv(3) by simp
    show "(v_levels v)[l := kept (?rss ! l) (v_levels v ! l) ns] ! j = ?ls ! j"
      using j sv(3) readers_length [OF inv j] o [OF j] kept_none [of "?rss ! l" ns "v_levels v ! l"] n(2)
      by (cases "j = l") auto
  qed (simp add: sv(3))
  then have sr: "sr_inv S (dm_opt dm) M sr d (dm_next_file_number dm) ?ls" and sk: "sorted_kv d"
    and same: "\<And>x. x \<noteq> MANIFEST_FILENAME \<Longrightarrow> x \<notin> set ns \<Longrightarrow> map_of d x = map_of (dm_fs dm) x" using r by auto
  have "x \<notin> set ns" if x: "has_ext ''wal'' x" for x
  proof
    assume "x \<in> set ns"
    then obtain rd where "rd \<in> set (?rss ! l)" "x = tr_file_name rd" using n(2) by auto
    then have "reader_stored (dm_fs dm) (dm_next_file_number dm) rd" using sv(7,10) l nth_mem by fastforce
    with \<open>x = tr_file_name rd\<close> wal_ext_other [OF x] show False by (auto simp: reader_stored_def)
  qed
  then have "wal_holds (tlibs S) (dm_wal dm) d (v_segs v)"
    using i(7) wal_ext_other by (intro wal_holds_frame [OF _ sk same]) (auto simp: wal_inv_def)
  then have w: "wal_inv (tlibs S) (dm_wal dm) d (v\<lparr>v_levels := ?ls\<rparr>)" using i(7) by (simp add: wal_inv_def unflushed_def)
  have "v_imm v = []" using i(6) m(2) by (simp add: ml_rel_def)
  moreover have "map_of (v_mut v) k = None" for k using mt.get_spec [OF i(5), of k] mt.get_spec [OF m(1), of k] by simp
  then have "v_mut v = []" by (intro empty_entries ext) simp
  ultimately have "hist_inv (v\<lparr>v_levels := ?ls\<rparr>) []"
    by (simp add: hist_inv_def db_view_def pending_def tables_view_empty first_hit_all_empty)
  then show ?thesis using i w sr sk by (simp add: dm_inv_def)
qed

text \<open>C12: The second half of the major compaction removes the merged tables, from the manifest and
  from the disk, before it lists the tables made of them.  When all data is on the level that is
  merged, a crash between the two loses all of it: the start succeeds, and every key reads as
  absent.\<close>

theorem crash_in_major_compaction_loses:
  assumes S: "server_libs_ok S" "server_serves S W" and o: "opt_ok opt" "0 < max_level opt"
    and r: "reaches S opt dm mi (Some sw) W" and c: "cache_new (tlibs S) cap = Some c" and n: "restart_room dm"
    and m: "mt_rel (dm_mut dm) []" "ml_tables (dm_imm dm) = []"
    and ns: "set (sw_names0 sw) = tr_file_name ` set (sr_readers (dm_readers dm) ! sw_level sw)"
    and e: "\<forall>i < max_level opt. i \<noteq> sw_level sw \<longrightarrow> sr_readers (dm_readers dm) ! i = []"
    and a: "remove_by_file_names S (dm_readers dm) (sw_level sw) (sw_names0 sw) (dm_fs dm) = Some (Inr (sr, d))"
  shows "\<exists>dm'. dm_new S opt d c rngs = Some (Inr dm') \<and> (\<forall>k. \<exists>dm''. dm_get S dm' k = Some (Inr (None, dm'')))"
proof -
  obtain M v where v: "dm_opt dm = opt" "limits dm" "writes_ok W" "dm_inv S M dm v W" "swap_ok S M dm v W sw" "log_ok dm W"
    using reaches_inv [OF S(1) o r] by (rule sys_invE) (rule that, simp_all)
  have bm: "bincode_manifest_ok S" using S(1) by (simp add: server_libs_ok_def)
  have l: "sw_level sw < max_level (dm_opt dm)" "distinct (sw_names0 sw)" using v(5) by (simp_all add: swap_ok_def Let_def)
  let ?dm = "dm\<lparr>dm_readers := sr, dm_fs := d\<rparr>" and ?v = "v\<lparr>v_levels := replicate (max_level (dm_opt dm)) []\<rparr>"
  have inv: "dm_inv S M ?dm ?v []" by (rule emptied_inv [OF bm v(4) l(1) m l(2) ns _ a]) (use e v(1) in simp)
  have "files_fit d"
    using remove_by_file_names_total [OF S(2) dm_invD(8,1) [OF v(4)] l] ns v(2) a by (auto simp: limits_def)
  then have lim: "limits ?dm" using v(2) by (simp add: limits_def)
  have z: "concat (sr_readers sr) = []" using levels_length [OF dm_invD(8) [OF inv]] by simp
  have "writes_ok []" "server_serves S []" using S(2) crates_serve_mono [of "tlibs S" "fst ` set W" "{}"]
    by (simp_all add: writes_ok_def keys_nonempty_def server_serves_def)
  moreover have "opt_ok (dm_opt ?dm)" using o(1) v(1) by simp
  moreover have "dm_next_file_number ?dm + length (segs (dm_wal ?dm)) < usize_bound"
    "length (concat (sr_readers (dm_readers ?dm))) + 2 * length (segs (dm_wal ?dm)) < usize_bound"
    using n by (simp_all add: restart_room_def z)
  ultimately have "\<exists>dm'. dm_new S (dm_opt ?dm) (dm_fs ?dm) c rngs = Some (Inr dm') \<and>
      (\<forall>k. \<exists>dm''. dm_get S dm' k = Some (Inr (db_lookup [] k, dm'')))"
    using log_bound(1) [OF v(6,3)] by (intro restart_reads [OF S(1) _ inv _ _ _ c lim]) simp_all
  then show ?thesis using v(1) by simp
qed

text \<open>The concrete server with memtables of size zero, after its write has become a table.\<close>

lemma demo_table:
  defines "opt \<equiv> server_options_default\<lparr>mem_table_max_size := 0\<rparr>"
  obtains dm r where "reaches demo_server opt dm None None demo_writes" "room 20 dm" "mt_rel (dm_mut dm) []" "ml_tables (dm_imm dm) = []"
    "sr_readers (dm_readers dm) = [r] # replicate 6 []" "limits dm"
proof -
  have o: "opt_ok opt" "0 < max_level opt" "max_level opt = 7" using demo_options by (simp_all add: opt_def opt_ok_def server_options_default_def)
  obtain dm where d: "reaches demo_server opt dm None None demo_writes" "dm_opt dm = opt" "dm_next_file_number dm = 0"
    "cache_id (dm_cache dm) = 0" "mem_table_max_size opt = 0 \<Longrightarrow> mt_rel (dm_mut dm) [] \<and> list_all2 mt_rel (ml_tables (dm_imm dm)) [demo_writes]"
    "length (concat (sr_readers (dm_readers dm))) = 0" using o(1,2) by (rule demo_written_with) (rule that)
  obtain t where t: "ml_tables (dm_imm dm) = [t]" "mt_rel t demo_writes" and m: "mt_rel (dm_mut dm) []"
    using d(5) by (auto simp: opt_def list_all2_Cons2)
  have r1: "reaches demo_server opt dm (Some (0, 1)) None demo_writes" using Minor_begin [OF d(1)] t(1) by (simp add: ml_table_count_def)
  obtain M v where v: "limits dm" "dm_inv demo_server M dm v demo_writes" "v_pend v = 0"
    using reaches_inv [OF demo_server_ok o(1,2) d(1)] by (rule sys_invE) (auto intro: that)
  have i: "idx (rev (ml_tables (dm_imm dm))) 0 = Some t" using t(1) by (simp add: idx_def)
  have "length (v_imm v) = 1" using dm_invD(6) [OF v(2)] t(1) by (auto simp: ml_rel_def dest: list_all2_lengthD)
  then obtain us es where u: "unflushed v = us @ [es]" "mt_rel t es" using next_memtable [OF v(2), of t] i v(3) by auto
  have "map_of es [97] = Some demo_bytes" using mt.get_spec [OF u(2), of "[97]"] mt.get_spec [OF t(2), of "[97]"] by simp
  then have ne: "es \<noteq> []" by auto
  have rm: "room 1 dm" using d(3,4) by (simp add: room_def)
  have o': "opt_ok (dm_opt dm)" using o(1) d(2) by simp
  obtain dm1 where dm1: "minor_one demo_server t dm = Some (Inr dm1)" "limits dm1" "cache_id (dm_cache dm1) \<le> cache_id (dm_cache dm) + 1"
    using minor_one_total [OF demo_server_ok demo_writes_ok(2) v(2) o' demo_writes_ok(1) u v(1) rm] by blast
  obtain rs where rs: "sr_readers (dm_readers dm1) = (sr_readers (dm_readers dm))[0 := sr_readers (dm_readers dm) ! 0 @ rs]"
    "length rs = 1" "dm_next_file_number dm1 = 1"
    using minor_one_ok [OF demo_server_ok v(2) o' demo_writes_ok(1) u dm1(1,2)] ne d(3) by auto
  have e: "sr_readers (dm_readers dm) = replicate 7 []"
    using d(6) sr_invD(10) [OF dm_invD(8) [OF v(2)]] d(2) o(3) by (intro replicate_eqI) auto
  obtain r where "rs = [r]" using rs(2) by (auto simp: length_Suc_conv)
  then have rr: "sr_readers (dm_readers dm1) = [r] # replicate 6 []" using rs(1) e by (simp add: numeral_eq_Suc)
  have r2: "reaches demo_server opt dm1 (Some (1, 1)) None demo_writes" using Minor_table [OF r1 _ i dm1(1,2)] by simp
  obtain im where im: "minor_consume 1 dm1 = dm1\<lparr>dm_imm := im\<rparr>" using minor_consume_imm by blast
  have mi: "dm_imm dm1 = dm_imm dm" "dm_mut dm1 = dm_mut dm" using minor_one_imm [OF dm1(1)] by simp_all
  let ?dm = "minor_consume 1 dm1"
  have "ml_tables (dm_imm ?dm) = []" unfolding minor_consume_tables mi(1) t(1) by simp
  moreover have "reaches demo_server opt ?dm None None demo_writes" by (rule Minor_end [OF r2])
  moreover have "room 20 ?dm" using rs(3) dm1(3) d(4) by (simp add: im room_def)
  moreover have "mt_rel (dm_mut ?dm) []" "sr_readers (dm_readers ?dm) = [r] # replicate 6 []" "limits ?dm"
    using m mi(2) rr dm1(2) by (simp_all add: im limits_def)
  ultimately show ?thesis by (intro that)
qed

theorem crash_in_major_compaction_loses_witness:
  "\<exists>dm sw sr d c dm' dm''. reaches demo_server (server_options_default\<lparr>mem_table_max_size := 0\<rparr>) dm None (Some sw) demo_writes \<and>
     db_lookup demo_history [97] = Some demo_payload \<and>
     remove_by_file_names demo_server (dm_readers dm) (sw_level sw) (sw_names0 sw) (dm_fs dm) = Some (Inr (sr, d)) \<and>
     dm_new demo_server (server_options_default\<lparr>mem_table_max_size := 0\<rparr>) d c (sconst (sconst 0)) = Some (Inr dm') \<and>
     dm_get demo_server dm' [97] = Some (Inr (None, dm''))"
proof -
  let ?opt = "server_options_default\<lparr>mem_table_max_size := 0\<rparr>" and ?S = demo_server and ?W = demo_writes
  have o: "opt_ok ?opt" "0 < max_level ?opt" "max_level ?opt = 7" using demo_options by (simp_all add: opt_ok_def server_options_default_def)
  obtain dm r where d: "reaches ?S ?opt dm None None ?W" "room 20 dm" "mt_rel (dm_mut dm) []" "ml_tables (dm_imm dm) = []"
    "sr_readers (dm_readers dm) = [r] # replicate 6 []" "limits dm" by (rule demo_table) (rule that)
  obtain M v where v: "dm_opt dm = ?opt" "dm_inv ?S M dm v ?W"
    using reaches_inv [OF demo_server_ok o(1,2) d(1)] by (rule sys_invE) (rule that)
  have o': "opt_ok (dm_opt dm)" using o(1) v(1) by simp
  have n: "room (length ?W + 1 + 10) dm" by (rule room_le [OF d(2)]) simp
  obtain x dm1 where b: "size_build ?S [0] dm = Some (Inr (x, dm1))" "limits dm1" "room 10 dm1"
    using size_build_total [OF demo_server_ok demo_writes_ok(2) v(2) o' demo_writes_ok(1) d(6) n, of "[0]" 0] d(5) by (auto simp: idx_def)
  have "x \<noteq> None" using b(1) v(1) o(3) by (auto simp: size_build_def idx_def bind_eq_Some_conv tryO_eq_Ok Let_def)
  then obtain sw where sw: "x = Some sw" by blast
  have r1: "reaches ?S ?opt dm1 None (Some sw) ?W" using Major_build [OF d(1) b(1,2)] sw by simp
  note sv = sr_invD [OF dm_invD(8) [OF v(2)]]
  obtain l where l: "sr_readers (dm_readers dm) ! l \<noteq> []" "Suc l < max_level (dm_opt dm)" "sw_level sw = l"
    "set (sw_names0 sw) = tr_file_name ` set (sr_readers (dm_readers dm) ! l)" "distinct (sw_names0 sw)"
    "dm_readers dm1 = dm_readers dm" "dm_mut dm1 = dm_mut dm" "dm_imm dm1 = dm_imm dm"
    by (rule size_build_Ok [OF b(1) [unfolded sw] dm_invD(3) [OF v(2)] sv(1,10)]) (rule that, simp_all)
  have l0: "l = 0" using l(1,2) d(5) v(1) o(3) by (cases l) auto
  obtain M1 v1 where v1: "dm_opt dm1 = ?opt" "dm_inv ?S M1 dm1 v1 ?W" using reaches_inv [OF demo_server_ok o(1,2) r1] by (rule sys_invE) (rule that)
  have ll: "sw_level sw < max_level (dm_opt dm1)" using v1(1) o(3) l(3) l0 by simp
  have ns: "set (sw_names0 sw) = tr_file_name ` set (sr_readers (dm_readers dm1) ! sw_level sw)" using l(3,4,6) by simp
  obtain sr dd where a: "remove_by_file_names ?S (dm_readers dm1) (sw_level sw) (sw_names0 sw) (dm_fs dm1) = Some (Inr (sr, dd))"
    using remove_by_file_names_total [OF demo_writes_ok(2) dm_invD(8,1) [OF v1(2)] ll l(5)] ns b(2) by (auto simp: limits_def)
  have rm: "restart_room dm1"
    using b(3) segments_bound [OF demo_server_ok o(1,2) r1] l(6) d(5) by (simp add: restart_room_def room_def)
  have e: "\<forall>i < max_level ?opt. i \<noteq> sw_level sw \<longrightarrow> sr_readers (dm_readers dm1) ! i = []"
    using l(3,6) l0 d(5) o(3) by (auto simp: nth_Cons split: nat.splits)
  have m: "mt_rel (dm_mut dm1) []" "ml_tables (dm_imm dm1) = []" using d(3,4) l(7,8) by simp_all
  obtain dm' where dm': "dm_new ?S ?opt dd \<lparr>cache_inner = lru_new (tlibs ?S) 10, cache_id = 0\<rparr> (sconst (sconst 0)) = Some (Inr dm')"
    "\<forall>k. \<exists>dm''. dm_get ?S dm' k = Some (Inr (None, dm''))"
    using crash_in_major_compaction_loses [OF demo_server_ok demo_writes_ok(2) o(1,2) r1 demo_new_cache rm m ns e a] by blast
  obtain dm'' where "dm_get ?S dm' [97] = Some (Inr (None, dm''))" using dm'(2) by blast
  then show ?thesis using r1 demo_lookup a dm'(1) by blast
qed

end
