(* ===== verification/Parser_Util.thy ===== *)
theory Parser_Util
  imports Server_Base
begin

text \<open>
  The parser combinators (\<open>mirdb-server/src/parser_util/macros.rs\<close>).  A parser takes the input
  and returns what is left and a value, an error, or how many bytes it misses; \<open>None\<close> is a
  panic or a loop without end.  The macros are functions here: \<open>chain!\<close> is \<open>ir_bind\<close>, and
  \<open>gen_parser!\<close> is the definition of a parser.
\<close>

subsection \<open>Text\<close>

text \<open>The well-formed byte sequences of UTF-8: how many bytes follow the first one, and the
  range of the next.\<close>

definition utf8_head :: "u8 \<Rightarrow> (nat \<times> u8 \<times> u8) option" where
  "utf8_head b =
     (if b < 0x80 then Some (0, 0, 0)
      else if 0xC2 \<le> b \<and> b \<le> 0xDF then Some (1, 0x80, 0xBF)
      else if b = 0xE0 then Some (2, 0xA0, 0xBF)
      else if b = 0xED then Some (2, 0x80, 0x9F)
      else if 0xE1 \<le> b \<and> b \<le> 0xEF then Some (2, 0x80, 0xBF)
      else if b = 0xF0 then Some (3, 0x90, 0xBF)
      else if 0xF1 \<le> b \<and> b \<le> 0xF3 then Some (3, 0x80, 0xBF)
      else if b = 0xF4 then Some (3, 0x80, 0x8F)
      else None)"

function utf8_valid :: "bytes \<Rightarrow> bool" where
  "utf8_valid [] = True"
| "utf8_valid (b # r) =
     (case utf8_head b of
        None \<Rightarrow> False
      | Some (n, lo, hi) \<Rightarrow>
          n \<le> length r \<and> (n > 0 \<longrightarrow> lo \<le> hd r \<and> hd r \<le> hi) \<and>
          list_all (\<lambda>c. 0x80 \<le> c \<and> c \<le> 0xBF) (take (n - 1) (drop 1 r)) \<and> utf8_valid (drop n r))"
  by pat_completeness auto
termination
  by (relation "measure length") auto

text \<open>A \<open>str\<close> literal as bytes, and bytes as a \<open>str\<close>.\<close>

definition bstr :: "string \<Rightarrow> bytes" where
  "bstr s = map (\<lambda>c. of_nat (of_char c)) s"

definition str_of :: "bytes \<Rightarrow> string" where
  "str_of b = map (\<lambda>x. char_of (unat x)) b"

subsection \<open>Results\<close>

datatype 'a ir_result = IrOk bytes 'a | IrErr string | Incomplete nat

type_synonym 'a parser = "bytes \<Rightarrow> 'a ir_result option"

datatype compare_result = COk | CErr | CIncomplete

definition compare :: "bytes \<Rightarrow> bytes \<Rightarrow> compare_result" where
  "compare i t =
     (if \<not> list_all (\<lambda>(a, b). a = b) (zip i t) then CErr
      else if length i \<ge> length t then COk else CIncomplete)"

text \<open>\<open>split_at\<close> panics beyond the end.\<close>

definition take_split :: "bytes \<Rightarrow> nat \<Rightarrow> (bytes \<times> bytes) option" where
  "take_split i n = (if n \<le> length i then Some (drop n i, take n i) else None)"

definition ir_take :: "bytes \<Rightarrow> nat \<Rightarrow> bytes ir_result option" where
  "ir_take i n = map_option (\<lambda>(r, o1). IrOk r o1) (take_split i n)"

definition position :: "('a \<Rightarrow> bool) \<Rightarrow> 'a list \<Rightarrow> nat option" where
  "position p xs =
     (let n = length (takeWhile (\<lambda>x. \<not> p x) xs) in if n < length xs then Some n else None)"

subsection \<open>The combinators\<close>

definition is_not :: "u8 list \<Rightarrow> bytes parser" where
  "is_not e i =
     (case position (\<lambda>x. x \<in> set e) i of
        None \<Rightarrow> ir_take i (length i)
      | Some v \<Rightarrow> if v > 0 then ir_take i v else Some (IrErr []))"

definition tag :: "bytes \<Rightarrow> bytes parser" where
  "tag t i =
     (case compare i t of
        COk \<Rightarrow> ir_take i (length t)
      | CErr \<Rightarrow> Some (IrErr (if utf8_valid i then str_of i else ''not a valid utf8''))
      | CIncomplete \<Rightarrow> Some (Incomplete (length t - length i)))"

definition take_n :: "nat \<Rightarrow> bytes parser" where
  "take_n n i = (if length i \<ge> n then ir_take i n else Some (Incomplete (n - length i)))"

text \<open>The loop of \<open>take_at_least!\<close> looks for the tag.\<close>

function find_tag :: "bytes \<Rightarrow> bytes \<Rightarrow> nat \<Rightarrow> nat option" where
  "find_tag ni t ii =
     (if ii < length ni - length t + 1 then
        if take (length t) (drop ii ni) = t then Some ii else find_tag ni t (ii + 1)
      else None)"
  by pat_completeness auto
termination
  by (relation "measure (\<lambda>(ni, t, ii). length ni - length t + 1 - ii)") auto

declare find_tag.simps [simp del]

definition take_at_least :: "nat \<Rightarrow> bytes \<Rightarrow> bytes parser" where
  "take_at_least n t i =
     (if length i \<ge> n then
        let ni = drop n i in
        (if length ni > 0 \<and> length t > 0 \<and> length ni \<ge> length t then
           case find_tag ni t 0 of Some ii \<Rightarrow> ir_take i (ii + n) | None \<Rightarrow> ir_take i (length i)
         else ir_take i (length i))
      else Some (Incomplete (n - length i)))"

definition split_end :: "bytes \<Rightarrow> 'a list \<Rightarrow> 'a list ir_result" where
  "split_end input res = (if length res > 0 then IrOk input res else IrErr [])"

partial_function (option) split_loop ::
  "'s parser \<Rightarrow> 'a parser \<Rightarrow> nat \<Rightarrow> bytes \<Rightarrow> 'a list \<Rightarrow> 'a list ir_result option" where
  "split_loop sep fn i input res =
     (if i mod 2 = 0 then
        Option.bind (fn input) (\<lambda>r. case r of
          Incomplete n \<Rightarrow> Some (Incomplete n)
        | IrErr _ \<Rightarrow> Some (split_end input res)
        | IrOk input' o1 \<Rightarrow> split_loop sep fn (i + 1) input' (res @ [o1]))
      else
        Option.bind (sep input) (\<lambda>r. case r of
          Incomplete n \<Rightarrow> Some (Incomplete n)
        | IrErr _ \<Rightarrow> Some (split_end input res)
        | IrOk input' _ \<Rightarrow> split_loop sep fn (i + 1) input' res))"

definition split :: "'s parser \<Rightarrow> 'a parser \<Rightarrow> 'a list parser" where
  "split sep fn i = split_loop sep fn 0 i []"

definition ir_bind :: "'a ir_result option \<Rightarrow> (bytes \<Rightarrow> 'a \<Rightarrow> 'b ir_result option) \<Rightarrow> 'b ir_result option" where
  "ir_bind m f =
     (case m of
        None \<Rightarrow> None
      | Some (IrErr e) \<Rightarrow> Some (IrErr e)
      | Some (Incomplete n) \<Rightarrow> Some (Incomplete n)
      | Some (IrOk i o1) \<Rightarrow> f i o1)"

definition optional :: "'a parser \<Rightarrow> 'a option parser" where
  "optional p i =
     (case p i of
        None \<Rightarrow> None
      | Some (IrOk i' o1) \<Rightarrow> Some (IrOk i' (Some o1))
      | Some (IrErr _) \<Rightarrow> Some (IrOk i None)
      | Some (Incomplete n) \<Rightarrow> Some (Incomplete n))"

fun alt :: "'a parser list \<Rightarrow> 'a parser" where
  "alt [] i = Some (IrErr [])"
| "alt (p # ps) i =
     (case p i of
        None \<Rightarrow> None
      | Some (IrOk i' o1) \<Rightarrow> Some (IrOk i' o1)
      | Some (Incomplete n) \<Rightarrow> Some (Incomplete n)
      | Some (IrErr _) \<Rightarrow> alt ps i)"

subsection \<open>Character classes\<close>

definition is_alphabetic :: "u8 \<Rightarrow> bool" where
  "is_alphabetic c \<longleftrightarrow> c \<ge> 0x41 \<and> c \<le> 0x5A \<or> c \<ge> 0x61 \<and> c \<le> 0x7A"

definition is_digit_u8 :: "u8 \<Rightarrow> bool" where
  "is_digit_u8 c \<longleftrightarrow> c \<ge> 0x30 \<and> c \<le> 0x39"

definition is_space :: "u8 \<Rightarrow> bool" where
  "is_space c \<longleftrightarrow> c = 0x20"

text \<open>What \<open>alpha\<close> and \<open>space\<close> share: the longest prefix of a class, which must not be empty.\<close>

definition class_prefix :: "(u8 \<Rightarrow> bool) \<Rightarrow> bytes parser" where
  "class_prefix p i =
     (if i = [] then Some (IrErr [])
      else case position (\<lambda>x. \<not> p x) i of
        None \<Rightarrow> ir_take i (length i)
      | Some v \<Rightarrow> if v > 0 then ir_take i v else Some (IrErr []))"

definition alpha :: "bytes parser" where
  "alpha = class_prefix is_alphabetic"

definition space :: "bytes parser" where
  "space = class_prefix is_space"

text \<open>\<open>FromStr\<close> of the unsigned integers below \<open>bound\<close>.\<close>

fun digits_below :: "nat \<Rightarrow> string \<Rightarrow> nat \<Rightarrow> nat option" where
  "digits_below bound [] acc = Some acc"
| "digits_below bound (c # cs) acc =
     (if is_digit c then
        let acc' = acc * 10 + digit_val c in if acc' < bound then digits_below bound cs acc' else None
      else None)"

definition from_str :: "nat \<Rightarrow> string \<Rightarrow> nat option" where
  "from_str bound s =
     (if s = [] then None
      else if hd s = CHR ''+'' then if tl s = [] then None else digits_below bound (tl s) 0
      else digits_below bound s 0)"

definition digit :: "nat \<Rightarrow> nat parser" where
  "digit bound i =
     ir_bind (class_prefix is_digit_u8 i) (\<lambda>i' o1.
       if \<not> utf8_valid o1 then Some (IrErr ''not a valid utf8 input'')
       else case from_str bound (str_of o1) of
         Some v \<Rightarrow> Some (IrOk i' v)
       | None \<Rightarrow> Some (IrErr []))"

definition u32_parser :: "u32 parser" where
  "u32_parser i = ir_bind (digit u32_bound i) (\<lambda>i' n. Some (IrOk i' (of_nat n)))"

definition usize_parser :: "nat parser" where
  "usize_parser = digit usize_bound"

subsection \<open>Well-behaved parsers\<close>

text \<open>A parser that always returns, and leaves a suffix of its input.\<close>

locale parser =
  fixes p :: "'a parser"
  assumes total: "\<exists>r. p i = Some r"
    and suffix: "p i = Some (IrOk i' x) \<Longrightarrow> \<exists>pre. i = pre @ i'"
begin

lemma shorter: "p i = Some (IrOk i' x) \<Longrightarrow> length i' \<le> length i"
  using suffix [of i i' x] by auto

lemma consumed: "p i = Some (IrOk i' x) \<Longrightarrow> i = take (length i - length i') i @ i'"
  using suffix [of i i' x] by auto

end

lemma ir_take_le: "n \<le> length i \<Longrightarrow> ir_take i n = Some (IrOk (drop n i) (take n i))"
  by (simp add: ir_take_def take_split_def)

lemma position_Some: "position p xs = Some n \<Longrightarrow> n < length xs"
  by (auto simp: position_def Let_def split: if_splits)

lemma position_take:
  assumes "position p i = Some n"
  shows "n \<le> length i" "ir_take i n = Some (IrOk (drop n i) (take n i))"
  using position_Some [OF assms] by (simp_all add: ir_take_le)

lemma find_tag_Some: "find_tag ni t ii = Some n \<Longrightarrow> n < length ni - length t + 1"
proof (induction ni t ii rule: find_tag.induct)
  case (1 ni t ii)
  then show ?case by (subst (asm) (2) find_tag.simps) (auto split: if_splits)
qed

lemma parserI:
  assumes "\<And>i. (\<exists>e. p i = Some (IrErr e)) \<or> (\<exists>n. p i = Some (Incomplete n)) \<or> (\<exists>n x. p i = Some (IrOk (drop n i) x))"
  shows "parser p"
proof
  show "\<exists>r. p i = Some r" for i using assms [of i] by auto
  show "\<exists>pre. i = pre @ i'" if "p i = Some (IrOk i' x)" for i i' x
    using assms [of i] that by auto (metis append_take_drop_id)
qed

lemma parser_ir_take_cases:
  "n \<le> length i \<Longrightarrow> \<exists>m x. ir_take i n = Some (IrOk (drop m i) x)"
  by (auto simp: ir_take_le)

lemma parser_is_not [intro, simp]: "parser (is_not e)"
  by (rule parserI) (auto simp: is_not_def ir_take_le position_take split: option.splits)

lemma parser_tag [intro, simp]: "parser (tag t)"
  by (rule parserI) (auto simp: tag_def compare_def ir_take_le split: if_splits compare_result.splits)

lemma parser_class_prefix [intro, simp]: "parser (class_prefix q)"
  by (rule parserI) (auto simp: class_prefix_def ir_take_le position_take split: option.splits)

lemma parser_take_n [intro, simp]: "parser (take_n n)"
  by (rule parserI) (auto simp: take_n_def ir_take_le)

lemma parser_take_at_least [intro, simp]: "parser (take_at_least n t)"
proof (rule parserI)
  fix i
  have "\<exists>m x. ir_take i (ii + n) = Some (IrOk (drop m i) x)"
    if "find_tag (drop n i) t 0 = Some ii" "n \<le> length i" "0 < length t" "length t \<le> length (drop n i)" for ii
    using find_tag_Some [OF that(1)] that(2-) by (intro parser_ir_take_cases) simp
  moreover have "\<exists>m x. ir_take i (length i) = Some (IrOk (drop m i) x)" by (rule parser_ir_take_cases) simp
  ultimately show "(\<exists>e. take_at_least n t i = Some (IrErr e)) \<or> (\<exists>m. take_at_least n t i = Some (Incomplete m)) \<or>
      (\<exists>m x. take_at_least n t i = Some (IrOk (drop m i) x))"
    by (simp add: take_at_least_def Let_def split: option.splits)
qed

lemma parser_alpha_space [intro, simp]: "parser alpha" "parser space"
  by (simp_all add: alpha_def space_def)

lemma parser_bind:
  assumes p: "parser p" and q: "\<And>x. parser (q x)"
  shows "parser (\<lambda>i. ir_bind (p i) (\<lambda>i' x. q x i'))"
proof
  show "\<exists>r. ir_bind (p i) (\<lambda>i' x. q x i') = Some r" for i
    using parser.total [OF p, of i] parser.total [OF q] by (auto simp: ir_bind_def split: ir_result.splits)
  show "\<exists>pre. i = pre @ i'" if "ir_bind (p i) (\<lambda>i' x. q x i') = Some (IrOk i' x)" for i i' x
  proof -
    from that obtain i1 y where "p i = Some (IrOk i1 y)" "q y i1 = Some (IrOk i' x)"
      by (auto simp: ir_bind_def split: option.splits ir_result.splits)
    then obtain a b where "i = a @ i1" "i1 = b @ i'" using parser.suffix [OF p] parser.suffix [OF q] by metis
    then have "i = (a @ b) @ i'" by simp
    then show ?thesis by blast
  qed
qed

lemma parser_return [intro, simp]: "parser (\<lambda>i. Some (IrOk i x))" "parser (\<lambda>i. Some (IrErr e))"
  by (unfold_locales) auto

lemma parser_digit [intro, simp]: "parser (digit n)"
proof -
  have "parser (\<lambda>i. if \<not> utf8_valid o1 then Some (IrErr ''not a valid utf8 input'')
       else case from_str n (str_of o1) of Some v \<Rightarrow> Some (IrOk i v) | None \<Rightarrow> Some (IrErr []))" for o1
    by (cases "utf8_valid o1"; cases "from_str n (str_of o1)") auto
  then show ?thesis unfolding digit_def by (intro parser_bind) auto
qed

lemma parser_numbers [intro, simp]: "parser u32_parser" "parser usize_parser"
proof -
  show "parser u32_parser" unfolding u32_parser_def by (rule parser_bind) auto
qed (simp add: usize_parser_def)

lemma parser_optional [intro, simp]: "parser p \<Longrightarrow> parser (optional p)"
proof
  assume p: "parser p"
  show "\<exists>r. optional p i = Some r" for i
    using parser.total [OF p, of i] by (auto simp: optional_def split: ir_result.splits)
  show "\<exists>pre. i = pre @ i'" if "optional p i = Some (IrOk i' x)" for i i' x
    using that parser.suffix [OF p] by (auto simp: optional_def split: option.splits ir_result.splits)
qed

lemma parser_alt [intro, simp]: "\<forall>p \<in> set ps. parser p \<Longrightarrow> parser (alt ps)"
proof (induction ps)
  case (Cons p ps)
  show ?case
  proof
    show "\<exists>r. alt (p # ps) i = Some r" for i
      using parser.total [of p i] parser.total [of "alt ps" i] Cons by (auto split: ir_result.splits)
    show "\<exists>pre. i = pre @ i'" if "alt (p # ps) i = Some (IrOk i' x)" for i i' x
      using that parser.suffix [of p] parser.suffix [of "alt ps"] Cons by (auto split: option.splits ir_result.splits)
  qed
qed (unfold_locales, auto)

lemma split_loop_ok:
  assumes s: "parser sep" and f: "parser fn" and d: "\<And>i i' x. sep i = Some (IrOk i' x) \<Longrightarrow> length i' < length i"
  shows "\<exists>r. split_loop sep fn n i res = Some r \<and> (\<forall>i' x. r = IrOk i' x \<longrightarrow> (\<exists>pre. i = pre @ i'))"
proof (induction "2 * length i + (if n mod 2 = 0 then 1 else 0)" arbitrary: n i res rule: less_induct)
  case less
  show ?case
  proof (cases "n mod 2 = 0")
    case True
    obtain r where r: "fn i = Some r" using parser.total [OF f] by blast
    show ?thesis
    proof (cases r)
      case (IrOk i' x)
      with r parser.suffix [OF f, of i i' x] obtain a where a: "i = a @ i'" by auto
      have "Suc n mod 2 \<noteq> 0" using True by presburger
      then obtain r' where "split_loop sep fn (Suc n) i' (res @ [x]) = Some r'" "\<forall>j y. r' = IrOk j y \<longrightarrow> (\<exists>pre. i' = pre @ j)"
        using less [of i' "Suc n" "res @ [x]"] True a by auto
      moreover have "split_loop sep fn n i res = split_loop sep fn (Suc n) i' (res @ [x])"
        using True r IrOk by (subst split_loop.simps) simp
      ultimately show ?thesis unfolding a by (metis append.assoc)
    qed (use True r in \<open>subst split_loop.simps, auto simp: split_end_def\<close>)+
  next
    case False
    obtain r where r: "sep i = Some r" using parser.total [OF s] by blast
    show ?thesis
    proof (cases r)
      case (IrOk i' x)
      with r parser.suffix [OF s, of i i' x] obtain a where a: "i = a @ i'" by auto
      have "length i' < length i" using d r IrOk by blast
      then have "2 * length i' + (if Suc n mod 2 = 0 then 1 else 0) < 2 * length i + (if n mod 2 = 0 then 1 else 0)" by simp
      then obtain r' where "split_loop sep fn (Suc n) i' res = Some r'" "\<forall>j y. r' = IrOk j y \<longrightarrow> (\<exists>pre. i' = pre @ j)"
        using less [of i' "Suc n" res] by blast
      moreover have "split_loop sep fn n i res = split_loop sep fn (Suc n) i' res"
        using False r IrOk by (subst split_loop.simps) simp
      ultimately show ?thesis unfolding a by (metis append.assoc)
    qed (use False r in \<open>subst split_loop.simps, auto simp: split_end_def\<close>)+
  qed
qed

lemma parser_split:
  assumes "parser sep" "parser fn" "\<And>i i' x. sep i = Some (IrOk i' x) \<Longrightarrow> length i' < length i"
  shows "parser (split sep fn)"
proof
  show "\<exists>r. split sep fn i = Some r" for i unfolding split_def using split_loop_ok [OF assms(1,2), where n = 0 and i = i and res = "[]"] assms(3) by blast
  show "\<exists>pre. i = pre @ i'" if "split sep fn i = Some (IrOk i' x)" for i i' x
    using that split_loop_ok [OF assms(1,2), where n = 0 and i = i and res = "[]"] assms(3) unfolding split_def by auto
qed

lemma class_prefix_shorter: "class_prefix p i = Some (IrOk i' x) \<Longrightarrow> length i' < length i"
  by (auto simp: class_prefix_def ir_take_le position_take split: option.splits if_splits)

subsection \<open>What a parser accepts\<close>

named_theorems parse_simps

lemma bind_Ok [simp]: "ir_bind (Some (IrOk i x)) f = f i x"
  by (simp add: ir_bind_def)

lemma compare_prefix: "compare (t @ r) t = COk"
  by (simp add: compare_def) (induction t, auto)

lemma tag_prefix [parse_simps]: "tag t (t @ r) = Some (IrOk r t)"
  by (simp add: tag_def compare_prefix ir_take_le)

lemma position_append:
  assumes "\<forall>x \<in> set k. \<not> p x"
  shows "position p (k @ r) = map_option (\<lambda>n. length k + n) (position p r)"
  using assms by (simp add: position_def takeWhile_append2 Let_def)

lemma position_none: "\<forall>x \<in> set k. \<not> p x \<Longrightarrow> position p k = None"
  using position_append [of k p "[]"] by (simp add: position_def)

lemma position_hd: "position p (c # r) = (if p c then Some 0 else map_option Suc (position p r))"
  by (simp add: position_def Let_def)

lemma is_not_prefix [parse_simps]:
  assumes "k \<noteq> []" "\<forall>x \<in> set k. x \<notin> set e" "r \<noteq> [] \<Longrightarrow> hd r \<in> set e"
  shows "is_not e (k @ r) = Some (IrOk r k)"
  using assms by (cases r) (simp_all add: is_not_def position_append position_hd position_none ir_take_le)

lemma class_prefix_prefix:
  assumes "k \<noteq> []" "\<forall>x \<in> set k. q x" "r \<noteq> [] \<Longrightarrow> \<not> q (hd r)"
  shows "class_prefix q (k @ r) = Some (IrOk r k)"
  using assms by (cases r) (simp_all add: class_prefix_def position_append position_hd position_none ir_take_le)

lemma class_prefix_none: "r = [] \<or> \<not> q (hd r) \<Longrightarrow> class_prefix q r = Some (IrErr [])"
  by (cases r) (auto simp: class_prefix_def position_hd)

lemma space_prefix [parse_simps]: "r \<noteq> [] \<Longrightarrow> hd r \<noteq> 0x20 \<Longrightarrow> space (0x20 # r) = Some (IrOk r [0x20])"
  using class_prefix_prefix [of "[0x20]" is_space r] by (simp add: space_def is_space_def)

lemma space_none [parse_simps]: "r = [] \<or> hd r \<noteq> 0x20 \<Longrightarrow> space r = Some (IrErr [])"
  unfolding space_def by (rule class_prefix_none) (auto simp: is_space_def)

lemma find_tag_here: "find_tag (t @ r) t 0 = Some 0"
  by (subst find_tag.simps) simp

lemma take_at_least_exact [parse_simps]:
  "t \<noteq> [] \<Longrightarrow> n = length x \<Longrightarrow> take_at_least n t (x @ t @ r) = Some (IrOk (t @ r) x)"
  by (simp add: take_at_least_def find_tag_here ir_take_le)

text \<open>At least as much as was asked for.\<close>

lemma take_at_least_length:
  assumes "take_at_least n t i = Some (IrOk i' x)"
  shows "n \<le> length x"
proof -
  have n: "n \<le> length i" using assms by (auto simp: take_at_least_def split: if_splits)
  have "length x = ii + n" if "find_tag (drop n i) t 0 = Some ii" "length t \<le> length (drop n i)" "0 < length t"
    "ir_take i (ii + n) = Some (IrOk i' x)" for ii
    using find_tag_Some [OF that(1)] that(2-) n by (auto simp: ir_take_le)
  moreover have "length x = length i" if "ir_take i (length i) = Some (IrOk i' x)" using that by (auto simp: ir_take_le)
  ultimately show ?thesis
    using assms n by (fastforce simp: take_at_least_def Let_def split: if_splits option.splits)
qed

subsection \<open>Numbers\<close>

lemma digit_u8_of: "is_digit c \<Longrightarrow> is_digit_u8 (of_nat (of_char c)) \<and> of_nat (of_char c) < (0x80 :: u8)"
proof -
  assume d: "is_digit c"
  then have n: "48 \<le> (of_char c :: nat)" "(of_char c :: nat) \<le> 57" by (simp_all add: is_digit_def)
  then have "unat (of_nat (of_char c) :: u8) = of_char c" by (simp add: unat_of_nat)
  with n show ?thesis by (simp add: is_digit_u8_def word_le_nat_alt word_less_nat_alt)
qed

lemma str_of_bstr: "str_of (bstr s) = s"
proof (induction s)
  case (Cons c s)
  have "(of_char c :: nat) < 256"
    using of_char_mod_256 [of c, where 'a = nat] by (metis mod_less_divisor zero_less_numeral)
  then have "unat (of_nat (of_char c) :: u8) = of_char c" by (simp add: unat_of_nat)
  with Cons show ?case by (simp add: str_of_def bstr_def)
qed (simp add: str_of_def bstr_def)

lemma utf8_ascii: "\<forall>b \<in> set bs. b < 0x80 \<Longrightarrow> utf8_valid bs"
  by (induction bs) (auto simp: utf8_head_def)

lemma digits_below_append:
  "digits_below m (xs @ ys) acc = Option.bind (digits_below m xs acc) (digits_below m ys)"
  by (induction xs arbitrary: acc) (auto simp: Let_def)

lemma digits_below_show: "n < m \<Longrightarrow> digits_below m (show_nat n) 0 = Some n"
proof (induction n rule: show_nat.induct)
  case (1 n)
  show ?case
  proof (cases "n < 10")
    case True
    then show ?thesis using 1 by (simp add: show_nat.simps [of n] digit_char_props)
  next
    case False
    then have "digits_below m (show_nat (n div 10)) 0 = Some (n div 10)" using 1 by simp
    then show ?thesis
      using False "1.prems" by (subst show_nat.simps) (simp add: digits_below_append digit_char_props Let_def)
  qed
qed

lemma from_str_show: "n < m \<Longrightarrow> from_str m (show_nat n) = Some n"
proof -
  assume n: "n < m"
  have "hd (show_nat n) \<noteq> CHR ''+''"
    using show_nat_digits [of n] show_nat_nonempty [of n] by (cases "show_nat n") (auto simp: is_digit_def)
  then show ?thesis using n by (simp add: from_str_def digits_below_show)
qed

lemma digit_show [parse_simps]:
  assumes "n < m" "r \<noteq> [] \<Longrightarrow> \<not> is_digit_u8 (hd r)"
  shows "digit m (bstr (show_nat n) @ r) = Some (IrOk r n)"
proof -
  have d: "is_digit_u8 x" "x < 0x80" if "x \<in> set (bstr (show_nat n))" for x
    using that show_nat_digits [of n] digit_u8_of by (auto simp: bstr_def)
  have "class_prefix is_digit_u8 (bstr (show_nat n) @ r) = Some (IrOk r (bstr (show_nat n)))"
    using assms(2) d(1) by (intro class_prefix_prefix) (auto simp: bstr_def)
  then show ?thesis using assms(1) d(2) by (simp add: digit_def utf8_ascii str_of_bstr from_str_show)
qed

end
