(* ===== verification/Config.thy ===== *)
theory Config
  imports Parser_Util Dm_Inv
begin

text \<open>
  The configuration (\<open>mirdb-server/src/config.rs\<close>): the fields of the configuration file, the
  sizes in it, which are a number followed by a unit, and the options the server runs with.  The
  \<open>toml\<close> crate, which reads the fields, is an argument.
\<close>

subsection \<open>Sizes\<close>

definition to_size_unit :: "bytes \<Rightarrow> nat option" where
  "to_size_unit x =
     (if x = bstr ''K'' then Some KB
      else if x = bstr ''M'' then Some MB
      else if x = bstr ''G'' then Some GB
      else if x = bstr ''T'' then Some TB
      else None)"

definition size_unit_parser :: "bytes parser" where
  "size_unit_parser = alt [tag (bstr ''K''), tag (bstr ''M''), tag (bstr ''G''), tag (bstr ''T'')]"

text \<open>The product of two \<open>usize\<close> panics on overflow in a build with overflow checks, as a debug build
  is, and wraps in one without.\<close>

definition usize_times :: "bool \<Rightarrow> nat \<Rightarrow> nat \<Rightarrow> nat option" where
  "usize_times checks a b = (if checks \<and> usize_bound \<le> a * b then None else Some (a * b mod usize_bound))"

definition size_parser :: "bool \<Rightarrow> nat parser" where
  "size_parser checks i =
     ir_bind (usize_parser i) (\<lambda>i1 sz.
       ir_bind (size_unit_parser i1) (\<lambda>i2 unit_text. do {
         u \<leftarrow> to_size_unit unit_text;
         n \<leftarrow> usize_times checks u sz;
         Some (IrOk i2 n)
       }))"

definition parse_size :: "bool \<Rightarrow> bytes \<Rightarrow> (status, nat) fallible" where
  "parse_size checks a = do {
     r \<leftarrow> size_parser checks a;
     case r of
       IrOk _ v \<Rightarrow> Some (Inr v)
     | IrErr e \<Rightarrow> err ConfigError e
     | Incomplete _ \<Rightarrow> err ConfigError ''incomplete!''
   }"

subsection \<open>The configuration and its options\<close>

record config =
  c_addr :: string
  c_max_level :: nat
  c_work_dir :: string
  c_sst_max_size :: string
  c_mem_table_max_size :: string
  c_mem_table_max_height :: nat
  c_imm_mem_table_max_count :: nat
  c_block_size :: string
  c_block_restart_interval :: nat
  c_l0_compaction_trigger :: nat
  c_thread_sleep_ms :: nat

definition to_options :: "bool \<Rightarrow> config \<Rightarrow> (status, server_options) fallible" where
  "to_options checks c =
     (let opt1 = server_options_default\<lparr>max_level := c_max_level c, work_dir := c_work_dir c\<rparr> in
      tryO (parse_size checks (bstr (c_sst_max_size c))) (\<lambda>a.
      tryO (parse_size checks (bstr (c_mem_table_max_size c))) (\<lambda>b.
      tryO (parse_size checks (bstr (c_block_size c))) (\<lambda>d.
        Some (Inr (opt1\<lparr>sst_max_size := a, mem_table_max_size := b,
          mem_table_max_height := c_mem_table_max_height c,
          imm_mem_table_max_count := c_imm_mem_table_max_count c,
          table_opt := (table_opt opt1)\<lparr>block_size := d, block_restart_interval := c_block_restart_interval c\<rparr>,
          l0_compaction_trigger := c_l0_compaction_trigger c,
          thread_sleep_ms := c_thread_sleep_ms c\<rparr>))))))"

text \<open>\<open>content\<close> is what the file holds, if there is one.\<close>

definition from_path :: "(string \<Rightarrow> string + config) \<Rightarrow> bytes option \<Rightarrow> (status, config) fallible" where
  "from_path toml_from_str content =
     (case content of
        None \<Rightarrow> err IOError ''cannot found the config file''
      | Some b \<Rightarrow>
          if \<not> utf8_valid b then Some (Inl (from_io KOther ''stream did not contain valid UTF-8''))
          else case toml_from_str (str_of b) of
            Inl _ \<Rightarrow> None
          | Inr c \<Rightarrow> Some (Inr c))"

subsection \<open>What a size means\<close>

definition digits_value :: "bytes \<Rightarrow> nat" where
  "digits_value ds = foldl (\<lambda>acc d. acc * 10 + (unat d - 48)) 0 ds"

definition unit_size :: "u8 \<Rightarrow> nat option" where
  "unit_size = [0x4B \<mapsto> 2 ^ 10, 0x4D \<mapsto> 2 ^ 20, 0x47 \<mapsto> 2 ^ 30, 0x54 \<mapsto> 2 ^ 40]"

lemma foldl_digits_ge: "(acc :: nat) \<le> foldl (\<lambda>acc d. acc * 10 + f d) acc ds"
  by (induction ds arbitrary: acc) (simp, fastforce intro: order_trans [rotated])

lemma is_digit_u8_char:
  assumes "is_digit_u8 x"
  shows "is_digit (char_of (unat x))" "digit_val (char_of (unat x)) = unat x - 48" "x < 0x80"
    "char_of (unat x) \<noteq> CHR ''+''"
proof -
  have n: "48 \<le> unat x" "unat x \<le> 57" using assms by (auto simp: is_digit_u8_def word_le_nat_alt)
  then have o: "(of_char (char_of (unat x)) :: nat) = unat x" by simp
  show "is_digit (char_of (unat x))" "digit_val (char_of (unat x)) = unat x - 48" using n o by (simp_all add: is_digit_def digit_val_def)
  show "x < 0x80" using n by (simp add: word_less_nat_alt)
  show "char_of (unat x) \<noteq> CHR ''+''"
  proof
    assume "char_of (unat x) = CHR ''+''"
    then have "(of_char (char_of (unat x)) :: nat) = 43" by simp
    with o n show False by simp
  qed
qed

lemma digits_below_value:
  "\<forall>x \<in> set ds. is_digit_u8 x \<Longrightarrow> acc < m \<Longrightarrow>
   digits_below m (str_of ds) acc =
     (let n = foldl (\<lambda>acc d. acc * 10 + (unat d - 48)) acc ds in if n < m then Some n else None)"
proof (induction ds arbitrary: acc)
  case (Cons d ds)
  let ?a = "acc * 10 + (unat d - 48)"
  show ?case
  proof (cases "?a < m")
    case True
    then show ?thesis using Cons is_digit_u8_char(1,2) [of d] by (simp add: str_of_def Let_def)
  next
    case False
    moreover have "?a \<le> foldl (\<lambda>acc d. acc * 10 + (unat d - 48)) ?a ds" by (rule foldl_digits_ge)
    ultimately show ?thesis using Cons.prems is_digit_u8_char(1,2) [of d] by (simp add: str_of_def Let_def)
  qed
qed (simp add: str_of_def)

lemma digit_meaning:
  assumes m: "0 < m"
  shows "digit m a =
    (let ds = takeWhile is_digit_u8 a; n = digits_value ds in
     if ds = [] \<or> m \<le> n then Some (IrErr []) else Some (IrOk (dropWhile is_digit_u8 a) n))"
proof (cases "takeWhile is_digit_u8 a = []")
  case True
  then have "a = [] \<or> \<not> is_digit_u8 (hd a)" by (cases a) (auto split: if_splits)
  then have "class_prefix is_digit_u8 a = Some (IrErr [])" by (rule class_prefix_none)
  with True show ?thesis by (simp add: digit_def ir_bind_def)
next
  case False
  let ?ds = "takeWhile is_digit_u8 a" and ?r = "dropWhile is_digit_u8 a"
  have d: "\<forall>x \<in> set ?ds. is_digit_u8 x" by (auto dest: set_takeWhileD)
  have "class_prefix is_digit_u8 (?ds @ ?r) = Some (IrOk ?r ?ds)"
    using False d hd_dropWhile [of is_digit_u8 a] by (intro class_prefix_prefix)
  moreover have "utf8_valid ?ds" using d is_digit_u8_char(3) by (intro utf8_ascii) blast
  moreover have "from_str m (str_of ?ds) = (if digits_value ?ds < m then Some (digits_value ?ds) else None)"
  proof -
    obtain x xs where x: "?ds = x # xs" using False by (cases ?ds) auto
    then have h: "hd (str_of ?ds) \<noteq> CHR ''+''" "str_of ?ds \<noteq> []" using d is_digit_u8_char(4) [of x] by (simp_all add: str_of_def)
    have "digits_below m (str_of ?ds) 0 = (if digits_value ?ds < m then Some (digits_value ?ds) else None)"
      using digits_below_value [OF d m] by (simp add: digits_value_def Let_def)
    then show ?thesis using h by (simp add: from_str_def)
  qed
  ultimately show ?thesis using False by (auto simp: digit_def Let_def)
qed

lemma units: "bstr ''K'' = [0x4B]" "bstr ''M'' = [0x4D]" "bstr ''G'' = [0x47]" "bstr ''T'' = [0x54]"
  by (simp_all add: bstr_def)

lemma tag_one: "tag [t] (c # r) = (if c = t then Some (IrOk r [t]) else Some (IrErr (if utf8_valid (c # r) then str_of (c # r) else ''not a valid utf8'')))"
  by (simp add: tag_def compare_def ir_take_def take_split_def)

lemma tag_one_empty: "tag [t] [] = Some (Incomplete 1)"
  by (simp add: tag_def compare_def)

lemma unit_meaning:
  "size_unit_parser r =
     (case r of
        [] \<Rightarrow> Some (Incomplete 1)
      | c # q \<Rightarrow> (case unit_size c of None \<Rightarrow> Some (IrErr []) | Some _ \<Rightarrow> Some (IrOk q [c])))"
  by (cases r) (auto simp: size_unit_parser_def units tag_one tag_one_empty unit_size_def)

lemma unit_size_text: "unit_size c = Some u \<Longrightarrow> to_size_unit [c] = Some u"
  by (auto simp: unit_size_def to_size_unit_def units KB_def MB_def GB_def TB_def split: if_splits)

text \<open>C33: The size of a configuration is parsed as a decimal number below 2 to the 64, then a letter
  K, M, G or T for the unit; whatever follows the letter is ignored, so that 4Kfoo is 4096.  No
  number, too large a number, an unknown unit and a missing unit are configuration errors.  The
  product with the unit wraps at 2 to the 64, or, in a build with overflow checks, panics; nothing
  else makes the parser panic.\<close>

theorem parse_size_meaning:
  "parse_size checks a =
     (let ds = takeWhile is_digit_u8 a; n = digits_value ds in
      if ds = [] \<or> usize_bound \<le> n then Some (Inl (status_new ConfigError []))
      else case dropWhile is_digit_u8 a of
        [] \<Rightarrow> Some (Inl (status_new ConfigError ''incomplete!''))
      | c # _ \<Rightarrow> (case unit_size c of
            None \<Rightarrow> Some (Inl (status_new ConfigError []))
          | Some u \<Rightarrow> if checks \<and> usize_bound \<le> u * n then None else Some (Inr (u * n mod usize_bound))))"
proof (cases "dropWhile is_digit_u8 a")
  case Nil
  then show ?thesis
    by (simp add: parse_size_def size_parser_def usize_parser_def digit_meaning unit_meaning ir_bind_def
        err_def Let_def del: dropWhile_eq_Nil_conv)
next
  case (Cons c r)
  then show ?thesis
    using unit_size_text [of c]
    by (cases "unit_size c") (simp_all add: parse_size_def size_parser_def usize_parser_def usize_times_def digit_meaning
        unit_meaning ir_bind_def err_def Let_def)
qed

text \<open>A text with something after the unit, and one whose product is 2 to the 64.\<close>

theorem parse_size_meaning_witness:
  "parse_size True (bstr ''4Kfoo'') = Some (Inr 4096) \<and>
   parse_size False (bstr ''16777216T'') = Some (Inr 0) \<and> parse_size True (bstr ''16777216T'') = None"
  unfolding parse_size_meaning
  by (simp add: bstr_def is_digit_u8_def unit_size_def digits_value_def Let_def)

subsection \<open>Options that fit the data manager\<close>

definition size_text :: "nat \<Rightarrow> char \<Rightarrow> string" where
  "size_text n u = show_nat n @ [u]"

definition unit_of :: "char \<Rightarrow> nat" where
  "unit_of u = (case unit_size (of_nat (of_char u)) of None \<Rightarrow> 0 | Some b \<Rightarrow> b)"

lemma parse_size_text:
  assumes "unit_of u \<noteq> 0" "n * unit_of u < usize_bound"
  shows "parse_size checks (bstr (size_text n u)) = Some (Inr (n * unit_of u))"
proof -
  obtain b where b: "unit_size (of_nat (of_char u)) = Some b" "unit_of u = b"
    using assms(1) by (auto simp: unit_of_def split: option.splits)
  have n: "n < usize_bound" using assms by (metis le_less_trans mult.right_neutral mult_le_mono2 not_less_eq_eq One_nat_def zero_less_iff_neq_zero le_zero_eq not_less)
  have u: "\<not> is_digit_u8 (of_nat (of_char u))"
    using b(1) by (auto simp: unit_size_def is_digit_u8_def split: if_splits)
  have t: "bstr (size_text n u) = bstr (show_nat n) @ [of_nat (of_char u)]" by (simp add: size_text_def bstr_def)
  show ?thesis
    unfolding parse_size_def size_parser_def usize_parser_def t
    using digit_show [OF n, of "[of_nat (of_char u)]"] u b assms(2) unit_size_text [OF b(1)]
    by (simp add: unit_meaning usize_times_def mult.commute)
qed

text \<open>C34: A configuration whose sizes are written as a number and a unit, without overflow, gives
  the options with exactly these sizes and the other fields copied; if its blocks have at least
  eight bytes and restart points, and there is at least one entry per restart point, the options
  are those the data manager needs.\<close>

theorem to_options_sizes:
  assumes "c_sst_max_size c = size_text a ua" "c_mem_table_max_size c = size_text b ub" "c_block_size c = size_text d ud"
    and "unit_of ua \<noteq> 0" "unit_of ub \<noteq> 0" "unit_of ud \<noteq> 0"
    and "a * unit_of ua < usize_bound" "b * unit_of ub < usize_bound" "d * unit_of ud < usize_bound"
  shows "\<exists>opt. to_options checks c = Some (Inr opt) \<and>
     sst_max_size opt = a * unit_of ua \<and> mem_table_max_size opt = b * unit_of ub \<and>
     block_size (table_opt opt) = d * unit_of ud \<and>
     max_level opt = c_max_level c \<and> work_dir opt = c_work_dir c \<and>
     mem_table_max_height opt = c_mem_table_max_height c \<and>
     imm_mem_table_max_count opt = c_imm_mem_table_max_count c \<and>
     block_restart_interval (table_opt opt) = c_block_restart_interval c \<and>
     l0_compaction_trigger opt = c_l0_compaction_trigger c \<and> thread_sleep_ms opt = c_thread_sleep_ms c \<and>
     (0 < d \<and> 0 < c_block_restart_interval c \<longrightarrow> opt_ok opt)"
proof -
  have "8 \<le> d * unit_of ud" if "0 < d"
    using that assms(6) mult_le_mono [of 1 d 8 "unit_of ud"]
    by (auto simp: unit_of_def unit_size_def split: option.splits if_splits)
  then show ?thesis
    using parse_size_text [OF assms(4,7), of checks] parse_size_text [OF assms(5,8), of checks] parse_size_text [OF assms(6,9), of checks]
    by (simp add: to_options_def assms(1-3) Let_def opt_ok_def)
qed

definition demo_config :: config where
  "demo_config = \<lparr>c_addr = ''0.0.0.0:12333'', c_max_level = 7, c_work_dir = ''/tmp/mirdbs'',
     c_sst_max_size = size_text 100 (CHR ''M''), c_mem_table_max_size = size_text 4 (CHR ''M''), c_mem_table_max_height = 32,
     c_imm_mem_table_max_count = 16, c_block_size = size_text 4 (CHR ''K''), c_block_restart_interval = 16,
     c_l0_compaction_trigger = 4, c_thread_sleep_ms = 500\<rparr>"

theorem to_options_sizes_witness:
  "\<exists>opt. to_options True demo_config = Some (Inr opt) \<and> sst_max_size opt = 100 * 2 ^ 20 \<and> opt_ok opt"
proof -
  have u: "unit_of (CHR ''M'') = 2 ^ 20" "unit_of (CHR ''K'') = 2 ^ 10" by (simp_all add: unit_of_def unit_size_def)
  from to_options_sizes [of demo_config 100 "CHR ''M''" 4 "CHR ''M''" 4 "CHR ''K''" True] show ?thesis
    by (simp add: u demo_config_def) blast
qed

end
