(* ===== verification/Protocol.thy ===== *)
theory Protocol
  imports Parser_Util
begin

text \<open>
  The memcached text protocol: requests (\<open>request.rs\<close>), their parser (\<open>parser.rs\<close>),
  responses and their text (\<open>response.rs\<close>), and the codec between the two and a connection's
  buffers (\<open>proto.rs\<close>).
\<close>

subsection \<open>Requests\<close>

datatype setter_type = Set | Add | Replace | Append | Prepend

datatype getter_type = Get | Gets

datatype request =
    Getter getter_type "bytes list"
  | Setter setter_type bytes u32 u32 nat bytes bool
  | Deleter bytes bool
  | Req_Info
  | Req_Error
  | MajorCompaction

subsection \<open>The parser\<close>

definition key_stops :: bytes where
  "key_stops = [0x20, 0x09, 0x0D, 0x0A, 0]"

definition CRLF :: bytes where
  "CRLF = [0x0D, 0x0A]"

definition key_parser :: "bytes parser" where
  "key_parser = is_not key_stops"

definition getter_name_parser :: "bytes parser" where
  "getter_name_parser = alt [tag (bstr ''gets''), tag (bstr ''get'')]"

definition setter_name_parser :: "bytes parser" where
  "setter_name_parser =
     alt [tag (bstr ''set''), tag (bstr ''add''), tag (bstr ''replace''), tag (bstr ''append''), tag (bstr ''prepend'')]"

definition unwrap_no_reply :: "bytes option \<Rightarrow> bool" where
  "unwrap_no_reply x \<longleftrightarrow> x \<noteq> None"

definition to_getter_type :: "bytes \<Rightarrow> getter_type option" where
  "to_getter_type x =
     (if x = bstr ''get'' then Some Get else if x = bstr ''gets'' then Some Gets else None)"

definition to_setter_type :: "bytes \<Rightarrow> setter_type option" where
  "to_setter_type x =
     (if x = bstr ''set'' then Some Set else if x = bstr ''add'' then Some Add
      else if x = bstr ''replace'' then Some Replace else if x = bstr ''append'' then Some Append
      else if x = bstr ''prepend'' then Some Prepend else None)"

definition getter :: "request parser" where
  "getter i =
     ir_bind (getter_name_parser i) (\<lambda>i g.
     ir_bind (space i) (\<lambda>i _.
     ir_bind (split space key_parser i) (\<lambda>i ks.
     ir_bind (tag CRLF i) (\<lambda>i _.
       map_option (\<lambda>t. IrOk i (Getter t ks)) (to_getter_type g)))))"

definition setter :: "request parser" where
  "setter i =
     ir_bind (setter_name_parser i) (\<lambda>i s.
     ir_bind (space i) (\<lambda>i _.
     ir_bind (key_parser i) (\<lambda>i k.
     ir_bind (space i) (\<lambda>i _.
     ir_bind (u32_parser i) (\<lambda>i flags.
     ir_bind (space i) (\<lambda>i _.
     ir_bind (u32_parser i) (\<lambda>i ttl.
     ir_bind (space i) (\<lambda>i _.
     ir_bind (usize_parser i) (\<lambda>i n.
     ir_bind (optional space i) (\<lambda>i _.
     ir_bind (optional (tag (bstr ''noreply'')) i) (\<lambda>i no_reply.
     ir_bind (tag CRLF i) (\<lambda>i _.
     ir_bind (take_at_least n CRLF i) (\<lambda>i payload.
     ir_bind (tag CRLF i) (\<lambda>i _.
       map_option (\<lambda>t. IrOk i (Setter t k flags ttl n payload (unwrap_no_reply no_reply)))
         (to_setter_type s)))))))))))))))"

definition deleter :: "request parser" where
  "deleter i =
     ir_bind (tag (bstr ''delete'') i) (\<lambda>i _.
     ir_bind (space i) (\<lambda>i _.
     ir_bind (key_parser i) (\<lambda>i k.
     ir_bind (optional space i) (\<lambda>i _.
     ir_bind (optional (tag (bstr ''noreply'')) i) (\<lambda>i no_reply.
     ir_bind (tag CRLF i) (\<lambda>i _.
       Some (IrOk i (Deleter k (unwrap_no_reply no_reply)))))))))"

definition info_parser :: "request parser" where
  "info_parser i = ir_bind (tag (bstr ''info'') i) (\<lambda>i _. ir_bind (tag CRLF i) (\<lambda>i _. Some (IrOk i Req_Info)))"

definition major_compaction_parser :: "request parser" where
  "major_compaction_parser i =
     ir_bind (tag (bstr ''major_compaction'') i) (\<lambda>i _. ir_bind (tag CRLF i) (\<lambda>i _. Some (IrOk i MajorCompaction)))"

definition parse :: "request parser" where
  "parse = alt [getter, setter, deleter, info_parser, major_compaction_parser]"

subsection \<open>Responses\<close>

record get_resp_item =
  ri_key :: bytes
  ri_data :: bytes
  ri_flags :: u32
  ri_bytes :: nat

datatype response =
    Stored | NotStored | Exists | Resp_NotFound
  | Resp_Get "get_resp_item list" | Resp_Gets "get_resp_item list"
  | Deleted | Touched | Resp_Ok
  | Busy bytes | Badclass bytes | Nospare bytes | Notfull bytes | Unsafe bytes | Same bytes
  | Resp_Error | ClientError string | ServerError string | Resp_Info string

text \<open>\<open>to_str\<close> panics on bytes that are not UTF-8.\<close>

definition to_str :: "bytes \<Rightarrow> bytes option" where
  "to_str b = (if utf8_valid b then Some b else None)"

text \<open>\<open>BufferWriter\<close> appends to the buffer.\<close>

definition bw_write :: "bytes \<Rightarrow> bytes \<Rightarrow> bytes" where
  "bw_write buf data = buf @ data"

fun write_items :: "get_resp_item list \<Rightarrow> bytes \<Rightarrow> bytes option" where
  "write_items [] w = Some w"
| "write_items (v # vs) w = do {
     k \<leftarrow> to_str (ri_key v);
     let w1 = bw_write w (bstr ''VALUE '' @ k @ bstr '' '' @ bstr (show_nat (unat (ri_flags v))) @ bstr '' '' @
                          bstr (show_nat (ri_bytes v)) @ CRLF);
     let w2 = bw_write w1 (ri_data v);
     write_items vs (bw_write w2 CRLF)
   }"

definition write_get :: "get_resp_item list \<Rightarrow> bytes \<Rightarrow> bytes option" where
  "write_get vs w = map_option (\<lambda>w'. bw_write w' (bstr ''END'' @ CRLF)) (write_items vs w)"

text \<open>The responses without a text are \<open>unimplemented!()\<close>.\<close>

fun resp_write :: "response \<Rightarrow> bytes \<Rightarrow> bytes option" where
  "resp_write Stored w = Some (bw_write w (bstr ''STORED'' @ CRLF))"
| "resp_write NotStored w = Some (bw_write w (bstr ''NOT_STORED'' @ CRLF))"
| "resp_write Exists w = Some (bw_write w (bstr ''EXISTS'' @ CRLF))"
| "resp_write Resp_NotFound w = Some (bw_write w (bstr ''NOT_FOUND'' @ CRLF))"
| "resp_write (Resp_Gets v) w = write_get v w"
| "resp_write (Resp_Get v) w = write_get v w"
| "resp_write Deleted w = Some (bw_write w (bstr ''DELETED'' @ CRLF))"
| "resp_write Touched w = Some (bw_write w (bstr ''TOUCHED'' @ CRLF))"
| "resp_write Resp_Ok w = Some (bw_write w (bstr ''OK'' @ CRLF))"
| "resp_write Resp_Error w = Some (bw_write w (bstr ''ERROR'' @ CRLF))"
| "resp_write (ClientError e) w = Some (bw_write w (bstr ''CLIENT_ERROR '' @ bstr e @ CRLF))"
| "resp_write (ServerError e) w = Some (bw_write w (bstr ''SERVER_ERROR '' @ bstr e @ CRLF))"
| "resp_write (Resp_Info s) w =
     Some (bw_write w (bstr ''INFO'' @ CRLF @ CRLF @ bstr s @ CRLF @ CRLF @ bstr ''END'' @ CRLF))"
| "resp_write _ w = None"

subsection \<open>The codec\<close>

definition codec_encode :: "response \<Rightarrow> bytes \<Rightarrow> bytes option" where
  "codec_encode item dst = resp_write item dst"

text \<open>The request, if there is one, and the buffer after it.\<close>

definition codec_decode :: "bytes \<Rightarrow> (request option \<times> bytes) option" where
  "codec_decode src = do {
     r \<leftarrow> parse src;
     let (result, src_used) =
       (case r of
          IrOk remaining req \<Rightarrow> (Some req, length src - length remaining)
        | IrErr _ \<Rightarrow> (Some Req_Error, length src)
        | Incomplete _ \<Rightarrow> (None, 0));
     Some (result, drop src_used src)
   }"

subsection \<open>The parser always returns\<close>

lemma parser_key [simp, intro]: "parser key_parser"
  by (simp add: key_parser_def)

lemma parser_names [simp, intro]: "parser getter_name_parser" "parser setter_name_parser"
  by (simp_all add: getter_name_parser_def setter_name_parser_def)

lemma parser_keys [simp, intro]: "parser (split space key_parser)"
  using class_prefix_shorter by (intro parser_split) (auto simp: space_def)

text \<open>A name that was accepted has a type.\<close>

lemma alt_tag_value: "alt (map tag ts) i = Some (IrOk i' x) \<Longrightarrow> x \<in> set ts"
proof (induction ts)
  case (Cons t ts)
  have "x = t" if "tag t i = Some (IrOk i' x)"
  proof -
    have c: "compare i t = COk" using that by (auto simp: tag_def split: compare_result.splits)
    then have l: "length t \<le> length i" and z: "list_all (\<lambda>(a, b). a = b) (zip i t)"
      by (auto simp: compare_def split: if_splits)
    have "x = take (length t) i" using that c l by (simp add: tag_def ir_take_le)
    moreover have "take (length t) i = t"
      using l z by (intro nth_equalityI) (auto simp: list_all_length)
    ultimately show ?thesis by simp
  qed
  with Cons show ?case by (auto split: option.splits ir_result.splits)
qed simp

lemma parser_bind_map:
  assumes p: "parser p" and q: "\<And>i i' x. p i = Some (IrOk i' x) \<Longrightarrow> parser (q x)"
  shows "parser (\<lambda>i. ir_bind (p i) (\<lambda>i' x. q x i'))"
proof -
  let ?q = "\<lambda>x. if parser (q x) then q x else (\<lambda>i. Some (IrErr []))"
  have "ir_bind (p i) (\<lambda>i' x. q x i') = ir_bind (p i) (\<lambda>i' x. ?q x i')" for i
    using q [of i] by (auto simp: ir_bind_def split: option.splits ir_result.splits)
  moreover have "parser (\<lambda>i. ir_bind (p i) (\<lambda>i' x. ?q x i'))" by (rule parser_bind [OF p]) auto
  ultimately show ?thesis by simp
qed

lemma getter_names: "getter_name_parser i = Some (IrOk i' g) \<Longrightarrow> \<exists>t. to_getter_type g = Some t"
  using alt_tag_value [of "[bstr ''gets'', bstr ''get'']" i i' g]
  by (auto simp: getter_name_parser_def to_getter_type_def)

lemma setter_names: "setter_name_parser i = Some (IrOk i' s) \<Longrightarrow> \<exists>t. to_setter_type s = Some t"
  using alt_tag_value [of "[bstr ''set'', bstr ''add'', bstr ''replace'', bstr ''append'', bstr ''prepend'']" i i' s]
  by (auto simp: setter_name_parser_def to_setter_type_def)

lemma parser_getter [simp, intro]: "parser getter"
proof -
  have "parser (\<lambda>i. map_option (\<lambda>t. IrOk i (Getter t ks)) (to_getter_type g))" if "getter_name_parser i = Some (IrOk i' g)" for i i' g ks
    using getter_names [OF that] by auto
  then show ?thesis unfolding getter_def by (intro parser_bind_map [OF parser_names(1)] parser_bind) auto
qed

lemma parser_setter [simp, intro]: "parser setter"
proof -
  have "parser (\<lambda>i. map_option (\<lambda>t. IrOk i (Setter t k f tt n p r)) (to_setter_type s))" if "setter_name_parser i = Some (IrOk i' s)" for i i' s k f tt n p r
    using setter_names [OF that] by auto
  then show ?thesis unfolding setter_def by (intro parser_bind_map [OF parser_names(2)] parser_bind) auto
qed

lemma parser_others [simp, intro]: "parser deleter" "parser info_parser" "parser major_compaction_parser"
  unfolding deleter_def info_parser_def major_compaction_parser_def by (intro parser_bind; auto)+

interpretation request_parser: parser parse
  unfolding parse_def by (rule parser_alt) simp

end
