(* ===== verification/Protocol_Props.thy ===== *)
theory Protocol_Props
  imports Protocol
begin

text \<open>
  The properties of the protocol: the text a client sends for a request is parsed as that
  request, one request after the other; the parser returns on every input and what it
  accepts can be applied; and what happens to a command that arrives in two pieces.
\<close>

subsection \<open>The text of a request\<close>

fun setter_name :: "setter_type \<Rightarrow> bytes" where
  "setter_name Set = bstr ''set''"
| "setter_name Add = bstr ''add''"
| "setter_name Replace = bstr ''replace''"
| "setter_name Append = bstr ''append''"
| "setter_name Prepend = bstr ''prepend''"

fun getter_name :: "getter_type \<Rightarrow> bytes" where
  "getter_name Get = bstr ''get''"
| "getter_name Gets = bstr ''gets''"

abbreviation SP :: u8 where "SP \<equiv> 0x20"

definition number :: "nat \<Rightarrow> bytes" where
  "number n = bstr (show_nat n)"

definition noreply_text :: "bool \<Rightarrow> bytes" where
  "noreply_text b = (if b then SP # bstr ''noreply'' else [])"

fun keys_text :: "bytes list \<Rightarrow> bytes" where
  "keys_text [] = []"
| "keys_text [k] = k"
| "keys_text (k # ks) = k @ SP # keys_text ks"

fun request_text :: "request \<Rightarrow> bytes" where
  "request_text (Getter g ks) = getter_name g @ SP # keys_text ks @ CRLF"
| "request_text (Setter s k f t n p r) =
     setter_name s @ SP # k @ SP # number (unat f) @ SP # number (unat t) @ SP # number n @ noreply_text r @ CRLF @ p @ CRLF"
| "request_text (Deleter k r) = bstr ''delete'' @ SP # k @ noreply_text r @ CRLF"
| "request_text Req_Info = bstr ''info'' @ CRLF"
| "request_text MajorCompaction = bstr ''major_compaction'' @ CRLF"
| "request_text Req_Error = CRLF"

definition valid_key :: "bytes \<Rightarrow> bool" where
  "valid_key k \<longleftrightarrow> k \<noteq> [] \<and> (\<forall>x \<in> set k. x \<notin> set key_stops)"

fun valid_request :: "request \<Rightarrow> bool" where
  "valid_request (Getter g ks) \<longleftrightarrow> ks \<noteq> [] \<and> (\<forall>k \<in> set ks. valid_key k)"
| "valid_request (Setter s k f t n p r) \<longleftrightarrow> valid_key k \<and> n = length p \<and> n < usize_bound"
| "valid_request (Deleter k r) \<longleftrightarrow> valid_key k"
| "valid_request Req_Error \<longleftrightarrow> False"
| "valid_request _ \<longleftrightarrow> True"

subsection \<open>Steps of the parser\<close>

lemma valid_key_hd: "valid_key k \<Longrightarrow> k @ r \<noteq> [] \<and> hd (k @ r) \<noteq> SP"
  by (cases k) (auto simp: valid_key_def key_stops_def)

lemma key_parser_prefix [parse_simps]:
  "valid_key k \<Longrightarrow> r \<noteq> [] \<Longrightarrow> hd r \<in> set key_stops \<Longrightarrow> key_parser (k @ r) = Some (IrOk r k)"
  unfolding key_parser_def by (rule is_not_prefix) (auto simp: valid_key_def)

lemma space_key [parse_simps]: "valid_key k \<Longrightarrow> space (SP # k @ r) = Some (IrOk (k @ r) [SP])"
  using valid_key_hd [of k r] by (intro space_prefix) auto

lemma number_hd: "number n \<noteq> [] \<and> is_digit_u8 (hd (number n))"
proof -
  obtain c s where c: "show_nat n = c # s" by (cases "show_nat n") auto
  then have "is_digit c" using show_nat_digits [of n] by simp
  then show ?thesis using digit_u8_of by (simp add: number_def c bstr_def)
qed

lemma digit_not: "\<not> is_digit_u8 SP" "\<not> is_digit_u8 0x0D" "is_digit_u8 x \<Longrightarrow> x \<noteq> SP"
  by (auto simp: is_digit_u8_def)

lemma space_number [parse_simps]: "space (SP # number n @ r) = Some (IrOk (number n @ r) [SP])"
  using number_hd [of n] digit_not(3) by (intro space_prefix) (auto simp: hd_append)

lemma u32_number [parse_simps]: "u32_parser (number (unat w) @ SP # r) = Some (IrOk (SP # r) w)"
proof -
  have "unat w < u32_bound" using unsigned_less [of w, where ?'a = nat] by simp
  then show ?thesis by (simp add: u32_parser_def number_def digit_show digit_not)
qed

lemma usize_number [parse_simps]:
  "n < usize_bound \<Longrightarrow> r \<noteq> [] \<Longrightarrow> \<not> is_digit_u8 (hd r) \<Longrightarrow> usize_parser (number n @ r) = Some (IrOk r n)"
  by (simp add: usize_parser_def number_def digit_show)

text \<open>The optional \<open>noreply\<close> before the end of the line.\<close>

lemma tag_mismatch: "i \<noteq> [] \<Longrightarrow> t \<noteq> [] \<Longrightarrow> hd i \<noteq> hd t \<Longrightarrow> \<exists>e. tag t i = Some (IrErr e)"
  by (cases i; cases t) (auto simp: tag_def compare_def)

lemma crlf_hd: "hd (CRLF @ r) = 0x0D" "CRLF @ r \<noteq> []" "0x0D \<in> set key_stops"
  by (simp_all add: CRLF_def key_stops_def)

lemma noreply_parse:
  "\<exists>i y x. optional space (noreply_text b @ CRLF @ r) = Some (IrOk i y) \<and>
     optional (tag (bstr ''noreply'')) i = Some (IrOk (CRLF @ r) x) \<and> unwrap_no_reply x = b"
proof (cases b)
  case True
  have n: "bstr ''noreply'' \<noteq> []" "hd (bstr ''noreply'' @ CRLF @ r) \<noteq> SP" by (simp_all add: bstr_def)
  have "optional space (SP # bstr ''noreply'' @ CRLF @ r) = Some (IrOk (bstr ''noreply'' @ CRLF @ r) (Some [SP]))"
    using space_prefix [of "bstr ''noreply'' @ CRLF @ r"] n by (simp add: optional_def)
  then show ?thesis using True by (simp add: noreply_text_def optional_def tag_prefix unwrap_no_reply_def)
next
  case False
  have "optional space (CRLF @ r) = Some (IrOk (CRLF @ r) None)"
    using space_none [of "CRLF @ r"] crlf_hd(1) by (simp add: optional_def)
  moreover obtain e where "tag (bstr ''noreply'') (CRLF @ r) = Some (IrErr e)"
    using tag_mismatch [of "CRLF @ r" "bstr ''noreply''"] by (auto simp: CRLF_def bstr_def)
  ultimately show ?thesis using False by (simp add: noreply_text_def optional_def unwrap_no_reply_def)
qed

text \<open>The keys of a getter.\<close>

lemma keys_text_hd: "ks \<noteq> [] \<Longrightarrow> \<forall>k \<in> set ks. valid_key k \<Longrightarrow> keys_text ks @ r \<noteq> [] \<and> hd (keys_text ks @ r) \<noteq> SP"
  by (cases ks rule: keys_text.cases) (auto dest: valid_key_hd)

lemma split_keys:
  "ks \<noteq> [] \<Longrightarrow> \<forall>k \<in> set ks. valid_key k \<Longrightarrow> n mod 2 = 0 \<Longrightarrow>
   split_loop space key_parser n (keys_text ks @ CRLF @ r) res = Some (IrOk (CRLF @ r) (res @ ks))"
proof (induction ks arbitrary: n res rule: keys_text.induct)
  case (2 k)
  have "Suc n mod 2 \<noteq> 0" using 2 by presburger
  then have "split_loop space key_parser (Suc n) (CRLF @ r) (res @ [k]) = Some (IrOk (CRLF @ r) (res @ [k]))"
    using space_none [of "CRLF @ r"] crlf_hd(1) by (subst split_loop.simps) (simp add: split_end_def)
  then show ?case
    using 2 key_parser_prefix [of k "CRLF @ r"] crlf_hd by (subst split_loop.simps) simp
next
  case (3 k k' ks)
  let ?rest = "keys_text (k' # ks) @ CRLF @ r"
  have "Suc n mod 2 \<noteq> 0" "Suc (Suc n) mod 2 = 0" using 3 by presburger+
  moreover have "space (SP # ?rest) = Some (IrOk ?rest [SP])"
    using keys_text_hd [of "k' # ks" "CRLF @ r"] 3(3) by (intro space_prefix) auto
  ultimately have "split_loop space key_parser (Suc n) (SP # ?rest) (res @ [k]) = Some (IrOk (CRLF @ r) (res @ [k] @ k' # ks))"
    using 3 by (subst split_loop.simps) simp
  then show ?case
    using 3 key_parser_prefix [of k "SP # ?rest"] by (subst split_loop.simps) (simp add: key_stops_def)
qed simp

subsection \<open>Whole requests\<close>

lemma names_disjoint:
  "\<exists>e. getter (setter_name s @ r) = Some (IrErr e)" "\<exists>e. getter (bstr ''delete'' @ r) = Some (IrErr e)"
  "\<exists>e. getter (bstr ''info'' @ r) = Some (IrErr e)" "\<exists>e. getter (bstr ''major_compaction'' @ r) = Some (IrErr e)"
  "\<exists>e. setter (bstr ''delete'' @ r) = Some (IrErr e)" "\<exists>e. setter (bstr ''info'' @ r) = Some (IrErr e)"
  "\<exists>e. setter (bstr ''major_compaction'' @ r) = Some (IrErr e)"
  "\<exists>e. deleter (bstr ''info'' @ r) = Some (IrErr e)" "\<exists>e. deleter (bstr ''major_compaction'' @ r) = Some (IrErr e)"
  "\<exists>e. info_parser (bstr ''major_compaction'' @ r) = Some (IrErr e)"
  by (cases s) (simp_all add: getter_def setter_def deleter_def info_parser_def getter_name_parser_def setter_name_parser_def tag_def
      compare_def bstr_def ir_bind_def)

lemma getter_name_ok: "getter_name_parser (getter_name g @ SP # r) = Some (IrOk (SP # r) (getter_name g))"
  "to_getter_type (getter_name g) = Some g"
  by (cases g; simp add: getter_name_parser_def tag_def compare_def bstr_def ir_take_le to_getter_type_def)+

lemma setter_name_ok: "setter_name_parser (setter_name s @ SP # r) = Some (IrOk (SP # r) (setter_name s))"
  "to_setter_type (setter_name s) = Some s"
  by (cases s; simp add: setter_name_parser_def tag_def compare_def bstr_def ir_take_le to_setter_type_def)+

lemma getter_text:
  assumes "valid_request (Getter g ks)"
  shows "getter (request_text (Getter g ks) @ rest) = Some (IrOk rest (Getter g ks))"
proof -
  have "space (SP # keys_text ks @ CRLF @ rest) = Some (IrOk (keys_text ks @ CRLF @ rest) [SP])"
    using keys_text_hd [of ks "CRLF @ rest"] assms by (intro space_prefix) auto
  then show ?thesis
    using assms split_keys [of ks 0 rest "[]"] by (simp add: getter_def getter_name_ok tag_prefix split_def)
qed

lemma noreply_text_hd: "noreply_text b @ CRLF @ r \<noteq> []" "hd (noreply_text b @ CRLF @ r) \<in> set key_stops"
  "\<not> is_digit_u8 (hd (noreply_text b @ CRLF @ r))"
  by (auto simp: noreply_text_def crlf_hd digit_not) (simp_all add: key_stops_def CRLF_def is_digit_u8_def)

lemma setter_text:
  assumes "valid_request (Setter s k f t n p b)"
  shows "setter (request_text (Setter s k f t n p b) @ rest) = Some (IrOk rest (Setter s k f t n p b))"
proof -
  have v: "valid_key k" "n = length p" "n < usize_bound" using assms by simp_all
  have c: "SP \<in> set key_stops" "CRLF \<noteq> []" by (simp_all add: key_stops_def CRLF_def)
  obtain i y x where "optional space (noreply_text b @ CRLF @ p @ CRLF @ rest) = Some (IrOk i y)"
    "optional (tag (bstr ''noreply'')) i = Some (IrOk (CRLF @ p @ CRLF @ rest) x)" "unwrap_no_reply x = b"
    using noreply_parse by blast
  then show ?thesis
    using v c noreply_text_hd [of b "p @ CRLF @ rest"] take_at_least_exact [of CRLF n p rest]
    by (simp add: setter_def setter_name_ok parse_simps)
qed

lemma deleter_text:
  assumes "valid_request (Deleter k b)"
  shows "deleter (request_text (Deleter k b) @ rest) = Some (IrOk rest (Deleter k b))"
proof -
  obtain i y x where "optional space (noreply_text b @ CRLF @ rest) = Some (IrOk i y)"
    "optional (tag (bstr ''noreply'')) i = Some (IrOk (CRLF @ rest) x)" "unwrap_no_reply x = b"
    using noreply_parse by blast
  then show ?thesis using assms noreply_text_hd [of b rest] by (simp add: deleter_def parse_simps)
qed

lemma parse_text:
  assumes "valid_request r"
  shows "parse (request_text r @ rest) = Some (IrOk rest r)"
proof (cases r)
  case (Getter g ks)
  then show ?thesis using assms getter_text by (simp add: parse_def)
next
  case (Setter s k f t n p b)
  then obtain e where "getter (request_text r @ rest) = Some (IrErr e)" using names_disjoint(1) by fastforce
  then show ?thesis using assms setter_text Setter by (simp add: parse_def)
next
  case (Deleter k b)
  then obtain e e' where "getter (request_text r @ rest) = Some (IrErr e)" "setter (request_text r @ rest) = Some (IrErr e')"
    using names_disjoint(2,5) by fastforce
  then show ?thesis using assms deleter_text Deleter by (simp add: parse_def)
next
  case Req_Info
  then show ?thesis using names_disjoint(3) [of "CRLF @ rest"] names_disjoint(6) [of "CRLF @ rest"] names_disjoint(8) [of "CRLF @ rest"]
    by (auto simp: parse_def info_parser_def tag_prefix)
next
  case MajorCompaction
  then show ?thesis
    using names_disjoint(4) [of "CRLF @ rest"] names_disjoint(7) [of "CRLF @ rest"] names_disjoint(9) [of "CRLF @ rest"]
      names_disjoint(10) [of "CRLF @ rest"]
    by (auto simp: parse_def major_compaction_parser_def tag_prefix)
qed (use assms in simp)

subsection \<open>Progress\<close>

definition progress :: "'a parser \<Rightarrow> bool" where
  "progress p \<longleftrightarrow> (\<forall>i i' x. p i = Some (IrOk i' x) \<longrightarrow> length i' < length i)"

lemma progress_tag: "t \<noteq> [] \<Longrightarrow> progress (tag t)"
  by (auto simp: progress_def tag_def compare_def ir_take_le split: compare_result.splits if_splits)
    (metis diff_less length_greater_0_conv order_less_le_trans)

lemma progress_alt: "\<forall>p \<in> set ps. progress p \<Longrightarrow> progress (alt ps)"
  unfolding progress_def by (induction ps) (auto split: option.splits ir_result.splits)

lemma progress_bind:
  assumes p: "progress p" and q: "\<And>i i' x j y. p i = Some (IrOk i' x) \<Longrightarrow> q i' x = Some (IrOk j y) \<Longrightarrow> length j \<le> length i'"
  shows "progress (\<lambda>i. ir_bind (p i) q)"
  unfolding progress_def
proof (intro allI impI)
  fix i j y assume "ir_bind (p i) q = Some (IrOk j y)"
  then obtain i' x where "p i = Some (IrOk i' x)" "q i' x = Some (IrOk j y)"
    by (auto simp: ir_bind_def split: option.splits ir_result.splits)
  with p q show "length j < length i" unfolding progress_def by (meson le_less_trans)
qed

lemma bind_shorter:
  assumes "ir_bind (p i) q = Some (IrOk j y)" "parser p"
    and "\<And>i' x. p i = Some (IrOk i' x) \<Longrightarrow> q i' x = Some (IrOk j y) \<Longrightarrow> length j \<le> length i'"
  shows "length j \<le> length i"
proof -
  from assms(1) obtain i' x where "p i = Some (IrOk i' x)" "q i' x = Some (IrOk j y)"
    by (auto simp: ir_bind_def split: option.splits ir_result.splits)
  then show ?thesis using assms(3) parser.shorter [OF assms(2)] by (meson le_trans)
qed

lemma progress_parse: "progress parse"
proof -
  have n: "progress getter_name_parser" "progress setter_name_parser"
    unfolding getter_name_parser_def setter_name_parser_def
    by (intro progress_alt; auto intro!: progress_tag simp: bstr_def)+
  have nn: "bstr ''delete'' \<noteq> []" "bstr ''info'' \<noteq> []" "bstr ''major_compaction'' \<noteq> []" by (simp_all add: bstr_def)
  have "progress getter" unfolding getter_def
    by (rule progress_bind [OF n(1)]) (elim bind_shorter; auto)
  moreover have "progress setter" unfolding setter_def
    by (rule progress_bind [OF n(2)]) (elim bind_shorter; auto)
  moreover have "progress deleter" unfolding deleter_def
    by (rule progress_bind [OF progress_tag [OF nn(1)]]) (elim bind_shorter; auto)
  moreover have "progress info_parser" unfolding info_parser_def
    by (rule progress_bind [OF progress_tag [OF nn(2)]]) (elim bind_shorter; auto)
  moreover have "progress major_compaction_parser" unfolding major_compaction_parser_def
    by (rule progress_bind [OF progress_tag [OF nn(3)]]) (elim bind_shorter; auto)
  ultimately show ?thesis unfolding parse_def by (intro progress_alt) simp
qed

lemma parse_empty: "\<exists>n. parse [] = Some (Incomplete n)"
  by (simp add: parse_def getter_def getter_name_parser_def tag_def compare_def bstr_def ir_bind_def)

lemma codec_decode_Ok: "parse src = Some (IrOk rest q) \<Longrightarrow> codec_decode src = Some (Some q, rest)"
  using request_parser.consumed [of src rest q] request_parser.shorter [of src rest q]
  by (simp add: codec_decode_def) (metis append_eq_conv_conj length_take min.absorb2 diff_le_self)

subsection \<open>Properties\<close>

text \<open>Decoding \<open>n\<close> requests from a buffer.\<close>

fun decode_many :: "nat \<Rightarrow> bytes \<Rightarrow> (request list \<times> bytes) option" where
  "decode_many 0 src = Some ([], src)"
| "decode_many (Suc n) src = do {
     (q, src') \<leftarrow> codec_decode src;
     case q of
       None \<Rightarrow> Some ([], src')
     | Some r \<Rightarrow> do { (rs, src'') \<leftarrow> decode_many n src'; Some (r # rs, src'') }
   }"

text \<open>C26: requests survive the wire.  The texts of any number of well-formed requests, one after
  the other in the buffer and followed by anything, are decoded as those requests, in order,
  and what follows them stays in the buffer.\<close>

theorem requests_roundtrip:
  assumes "\<forall>r \<in> set rs. valid_request r"
  shows "decode_many (length rs) (concat (map request_text rs) @ rest) = Some (rs, rest)"
  using assms
proof (induction rs)
  case (Cons r rs)
  have "codec_decode (request_text r @ concat (map request_text rs) @ rest) = Some (Some r, concat (map request_text rs) @ rest)"
    using parse_text [of r] Cons.prems by (intro codec_decode_Ok) simp
  with Cons show ?case by simp
qed simp

lemma number_eval: "number 0 = [48]" "number 4 = [52]" "number 5 = [53]"
  by (simp_all add: number_def show_nat.simps [of 0] show_nat.simps [of 4] show_nat.simps [of 5] digit_char_def bstr_def)

theorem requests_roundtrip_witness:
  "decode_many 3
     (bstr ''set k 5 0 4'' @ CRLF @ [13, 10, 0, 255] @ CRLF @ bstr ''gets k j'' @ CRLF @ bstr ''delete k noreply'' @ CRLF @ bstr ''ge'') =
   Some ([Setter Set (bstr ''k'') 5 0 4 [13, 10, 0, 255] False, Getter Gets [bstr ''k'', bstr ''j''], Deleter (bstr ''k'') True],
     bstr ''ge'')"
  using requests_roundtrip [of "[Setter Set (bstr ''k'') 5 0 4 [13, 10, 0, 255] False, Getter Gets [bstr ''k'', bstr ''j''],
    Deleter (bstr ''k'') True]" "bstr ''ge''"]
  by (simp add: valid_key_def key_stops_def bstr_def CRLF_def number_eval noreply_text_def numeral_3_eq_3 del: decode_many.simps)

lemma decode_cases:
  "codec_decode src = Some (None, src) \<or>
   (\<exists>q n. codec_decode src = Some (Some q, drop n src) \<and> length (drop n src) < length src)"
proof -
  obtain r where r: "parse src = Some r" using request_parser.total by blast
  show ?thesis
  proof (cases r)
    case (IrOk rest q)
    moreover from this r have "src = take (length src - length rest) src @ rest" "length rest < length src"
      using request_parser.consumed [of src rest q] progress_parse by (auto simp: progress_def)
    moreover from this have "drop (length src - length rest) src = rest" by (metis append_take_drop_id same_append_eq)
    ultimately show ?thesis using codec_decode_Ok r by metis
  next
    case (IrErr e)
    then have "src \<noteq> []" using r parse_empty by auto
    moreover have "codec_decode src = Some (Some Req_Error, drop (length src) src)"
      using IrErr r by (simp add: codec_decode_def)
    ultimately show ?thesis by (intro disjI2 exI [of _ Req_Error] exI [of _ "length src"]) simp
  qed (use r in \<open>simp add: codec_decode_def\<close>)
qed

lemma decode_shorter: "codec_decode src = Some (Some q, src') \<Longrightarrow> length src' < length src"
  using decode_cases [of src] by auto

text \<open>C27: decoding ends.  On every buffer the decoder returns; either it waits for more and
  leaves the buffer as it is, or it returns a request and the buffer gets shorter.\<close>

theorem decode_progress:
  "codec_decode src = Some (None, src) \<or>
   (\<exists>q n. codec_decode src = Some (Some q, drop n src) \<and> length (drop n src) < length src)"
  by (rule decode_cases)

text \<open>C37: a storage command that arrives in pieces is lost.  When the buffer ends right after
  the key, the decoder does not wait for the rest: it reports an error and drops the bytes,
  while a retrieval command cut at the same place waits.\<close>

theorem cut_setter_is_dropped:
  assumes "valid_key k"
  shows "codec_decode (setter_name s @ SP # k) = Some (Some Req_Error, []) \<and>
    codec_decode (getter_name g @ SP # k) = Some (None, getter_name g @ SP # k)"
proof
  have kp: "key_parser k = Some (IrOk [] k)"
    unfolding key_parser_def using is_not_prefix [of k key_stops "[]"] assms by (simp add: valid_key_def)
  have sk: "space (SP # k) = Some (IrOk k [SP])" using space_key [OF assms, of "[]"] by simp
  have se: "space [] = Some (IrErr [])" by (rule space_none) simp
  let ?i = "setter_name s @ SP # k"
  obtain e where "getter ?i = Some (IrErr e)" using names_disjoint(1) by blast
  moreover have "setter ?i = Some (IrErr [])"
    using kp sk se by (simp add: setter_def setter_name_ok) (simp add: ir_bind_def)
  moreover have "\<exists>e. deleter ?i = Some (IrErr e)" "\<exists>e. info_parser ?i = Some (IrErr e)" "\<exists>e. major_compaction_parser ?i = Some (IrErr e)"
    by (cases s; simp add: deleter_def info_parser_def major_compaction_parser_def tag_def compare_def bstr_def ir_bind_def)+
  ultimately show "codec_decode ?i = Some (Some Req_Error, [])" by (auto simp: codec_decode_def parse_def)
  have "split space key_parser k = Some (IrOk [] [k])"
    unfolding split_def using kp se by (subst split_loop.simps, simp) (subst split_loop.simps, simp add: split_end_def)
  then have "getter (getter_name g @ SP # k) = Some (Incomplete 2)"
    using sk by (simp add: getter_def getter_name_ok) (simp add: tag_def compare_def CRLF_def ir_bind_def)
  then show "codec_decode (getter_name g @ SP # k) = Some (None, getter_name g @ SP # k)"
    by (simp add: codec_decode_def parse_def)
qed

theorem cut_setter_is_dropped_witness:
  "codec_decode (bstr ''set k'') = Some (Some Req_Error, []) \<and> codec_decode (bstr ''get k'') = Some (None, bstr ''get k'')"
  using cut_setter_is_dropped [of "bstr ''k''" Set Get] by (simp add: valid_key_def key_stops_def bstr_def)

subsection \<open>What an accepted request looks like\<close>

lemma bind_OkD: "ir_bind m f = Some (IrOk j y) \<Longrightarrow> \<exists>i x. m = Some (IrOk i x) \<and> f i x = Some (IrOk j y)"
  by (auto simp: ir_bind_def split: option.splits ir_result.splits)

lemma bind_OkE:
  assumes "ir_bind m f = Some (IrOk j y)"
  obtains i x where "m = Some (IrOk i x)" "f i x = Some (IrOk j y)"
  using bind_OkD [OF assms] by blast

text \<open>A key that is followed by anything is valid.\<close>

lemma position_prefix: "position p xs = Some n \<Longrightarrow> \<forall>x \<in> set (take n xs). \<not> p x"
  using set_takeWhileD by (fastforce simp: position_def Let_def takeWhile_eq_take [symmetric] split: if_splits)

lemma key_parser_valid: "key_parser i = Some (IrOk j k) \<Longrightarrow> j \<noteq> [] \<Longrightarrow> valid_key k"
  using position_prefix [of "\<lambda>x. x \<in> set key_stops" i]
  by (auto simp: key_parser_def is_not_def valid_key_def position_take ir_take_le split: option.splits if_splits)

lemma tag_nonempty: "t \<noteq> [] \<Longrightarrow> tag t i = Some (IrOk j x) \<Longrightarrow> i \<noteq> []"
  by (auto simp: tag_def compare_def split: if_splits)

lemma space_nonempty: "space i = Some (IrOk j x) \<Longrightarrow> i \<noteq> []"
  using class_prefix_shorter by (force simp: space_def)

definition keys_read :: "'s parser \<Rightarrow> bytes parser \<Rightarrow> bytes \<Rightarrow> bytes list \<Rightarrow> bytes list ir_result \<Rightarrow> bool" where
  "keys_read sep fn i res r \<longleftrightarrow> (parser sep \<longrightarrow> fn = key_parser \<longrightarrow> (\<forall>k \<in> set res. valid_key k) \<or> i = [] \<longrightarrow>
     (\<forall>j ks. r = IrOk j ks \<longrightarrow> j = [] \<or> ks \<noteq> [] \<and> (\<forall>k \<in> set ks. valid_key k)))"

lemma keys_readI:
  assumes "parser p" "p i = Some (IrOk j x)" "keys_read sep fn j res' r"
    and "(\<forall>k \<in> set res. valid_key k) \<Longrightarrow> fn = key_parser \<Longrightarrow> (\<forall>k \<in> set res'. valid_key k) \<or> j = []"
  shows "keys_read sep fn i res r"
proof -
  have "i = [] \<Longrightarrow> j = []" using parser.suffix [OF assms(1,2)] by auto
  with assms(3,4) show ?thesis unfolding keys_read_def by blast
qed

lemma split_end_keys: "keys_read sep fn i res (split_end i res)" "keys_read sep fn i res (Incomplete m)"
  by (auto simp: keys_read_def split_end_def)

lemma split_loop_keys:
  assumes "split_loop sep fn n i res = Some r" "parser sep" "fn = key_parser"
  shows "keys_read sep fn i res r"
proof -
  have "parser sep \<longrightarrow> fn = key_parser \<longrightarrow> keys_read sep fn i res r" using assms(1)
  proof (rule split_loop.raw_induct [rotated], goal_cases)
    case (1 self sep fn n i res r)
    note IH = 1(1) [rule_format]
    show ?case
    proof (intro impI)
      assume s: "parser sep" and f: "fn = key_parser"
      have f': "parser fn" using f by simp
      show "keys_read sep fn i res r"
      proof (cases "n mod 2 = 0")
        case True
        then obtain x where x: "fn i = Some x" using 1(2) by (auto simp: bind_eq_Some_conv)
        show ?thesis
        proof (cases x)
          case (IrOk j k)
          have "self sep fn (n + 1) j (res @ [k]) = Some r" using 1(2) True x IrOk by simp
          from IH [OF this s f] show ?thesis
            by (rule keys_readI [OF f' x [unfolded IrOk]]) (use key_parser_valid [of i j k] x IrOk f in auto)
        qed (use 1(2) True x in \<open>auto intro: split_end_keys\<close>)
      next
        case False
        then obtain x where x: "sep i = Some x" using 1(2) by (auto simp: bind_eq_Some_conv)
        show ?thesis
        proof (cases x)
          case (IrOk j k)
          have "self sep fn (n + 1) j res = Some r" using 1(2) False x IrOk by simp
          from IH [OF this s f] show ?thesis by (rule keys_readI [OF s x [unfolded IrOk]]) simp
        qed (use 1(2) False x in \<open>auto intro: split_end_keys\<close>)
      qed
    qed
  qed
  then show ?thesis using assms by blast
qed

lemma digits_below_less: "digits_below b s acc = Some n \<Longrightarrow> acc < b \<Longrightarrow> n < b"
  by (induction b s acc rule: digits_below.induct) (auto simp: Let_def split: if_splits)

lemma usize_parser_less: "usize_parser i = Some (IrOk j n) \<Longrightarrow> n < usize_bound"
  by (auto simp: usize_parser_def digit_def from_str_def dest!: bind_OkD digits_below_less split: if_splits option.splits)

text \<open>The requests the parser makes: there is a key, no key is empty or has a separator or a zero
  byte in it, and the block of a storage command is no shorter than it says.\<close>

fun typed_request :: "request \<Rightarrow> bool" where
  "typed_request (Getter g ks) \<longleftrightarrow> ks \<noteq> [] \<and> (\<forall>k \<in> set ks. valid_key k)"
| "typed_request (Setter s k f t n p r) \<longleftrightarrow> valid_key k \<and> n \<le> length p \<and> n < usize_bound"
| "typed_request (Deleter k r) \<longleftrightarrow> valid_key k"
| "typed_request _ \<longleftrightarrow> True"

lemma getter_typed:
  assumes "getter i = Some (IrOk j q)"
  shows "typed_request q"
proof -
  obtain i1 i2 g ks x where s: "split space key_parser i1 = Some (IrOk i2 ks)" "tag CRLF i2 = Some (IrOk j x)"
    and q: "q = Getter g ks"
    using assms unfolding getter_def by (elim bind_OkE) (auto intro: that)
  have "keys_read space key_parser i1 [] (IrOk i2 ks)" using s(1) by (auto simp: split_def intro: split_loop_keys)
  then show ?thesis using tag_nonempty [OF _ s(2)] q by (auto simp: keys_read_def CRLF_def)
qed

lemma setter_typed:
  assumes "setter i = Some (IrOk j q)"
  shows "typed_request q"
proof -
  obtain i1 i2 k i3 x i4 n i5 i6 p where k: "key_parser i1 = Some (IrOk i2 k)" "space i2 = Some (IrOk i3 x)"
    and n: "usize_parser i4 = Some (IrOk i5 n)" "\<exists>i6 i7. take_at_least n CRLF i6 = Some (IrOk i7 p)"
    and q: "\<exists>s f t r. q = Setter s k f t n p r"
    using assms unfolding setter_def by (elim bind_OkE) (rule that, assumption+, blast, auto)
  show ?thesis
    using key_parser_valid [OF k(1) space_nonempty [OF k(2)]] usize_parser_less [OF n(1)] n(2) q
    by (auto dest: take_at_least_length)
qed

lemma deleter_typed:
  assumes "deleter i = Some (IrOk j q)"
  shows "typed_request q"
proof -
  obtain i1 i2 k i3 x i4 y where k: "key_parser i1 = Some (IrOk i2 k)" "optional space i2 = Some (IrOk i3 x)"
    "optional (tag (bstr ''noreply'')) i3 = Some (IrOk i4 y)"  and e: "\<exists>z. tag CRLF i4 = Some (IrOk j z)" and q: "\<exists>b. q = Deleter k b"
    using assms unfolding deleter_def by (elim bind_OkE) (auto intro: that)
  have "i4 \<noteq> []" using e tag_nonempty [of CRLF i4] by (auto simp: CRLF_def)
  then have "i2 \<noteq> []" using parser.suffix [of "optional space" i2 i3 x] parser.suffix [of "optional (tag (bstr ''noreply''))" i3 i4 y] k(2,3) by fastforce
  then show ?thesis using key_parser_valid [OF k(1)] q by auto
qed

lemma parsed_typed: "parse i = Some (IrOk j q) \<Longrightarrow> typed_request q"
  by (auto simp: parse_def getter_typed setter_typed deleter_typed info_parser_def major_compaction_parser_def
      dest!: bind_OkD split: option.splits ir_result.splits)

text \<open>C19: Whatever the bytes, a request the codec makes of them is well formed: a retrieval has a
  key, no key is empty or has a space, a tab, a line break or a zero byte in it, the length of a
  storage command is a machine word and its block is no shorter.\<close>

theorem decoded_requests_typed:
  assumes "codec_decode src = Some (Some req, rest)"
  shows "typed_request req"
proof -
  obtain r where r: "parse src = Some r" using request_parser.total by blast
  then show ?thesis using assms parsed_typed [of src] by (cases r) (auto simp: codec_decode_def)
qed

theorem decoded_requests_typed_witness:
  "codec_decode (request_text (Getter Gets [[97], [98, 99]])) = Some (Some (Getter Gets [[97], [98, 99]]), []) \<and>
     typed_request (Getter Gets [[97], [98, 99]])"
proof -
  let ?q = "Getter Gets [[97], [98, 99]]"
  have "valid_request ?q" by (simp add: valid_key_def key_stops_def)
  from codec_decode_Ok [OF parse_text [OF this, of "[]"]] have "codec_decode (request_text ?q) = Some (Some ?q, [])"
    by (simp del: request_text.simps)
  from this decoded_requests_typed [OF this] show ?thesis by (rule conjI)
qed

end
