(* ===== verification/Slice.thy ===== *)
theory Slice
  imports Prelude
begin

text \<open>
  Byte slices (\<open>mirdb-server/src/slice.rs\<close>), the type of keys and of stored data: a wrapper
  around \<open>Bytes\<close> of the \<open>bytes\<close> crate.  The crate is a record of operations with the laws its
  documentation gives, over any representation \<open>'b\<close> of a shared buffer; hashers and the formats
  of \<open>serde\<close> are arguments.  It is shown that a slice is its bytes: what the other theories take
  as a \<open>Slice\<close> is the list \<open>as_ref\<close> gives.
\<close>

subsection \<open>What slices are made of\<close>

text \<open>\<open>std::cmp::Ordering\<close> and the order of \<open>[u8]\<close>.\<close>

datatype ordering = Less | Equal | Greater

fun bytes_cmp :: "bytes \<Rightarrow> bytes \<Rightarrow> ordering" where
  "bytes_cmp [] [] = Equal"
| "bytes_cmp [] (y # ys) = Less"
| "bytes_cmp (x # xs) [] = Greater"
| "bytes_cmp (x # xs) (y # ys) = (if x < y then Less else if y < x then Greater else bytes_cmp xs ys)"

text \<open>\<open>std::hash::Hasher\<close>, and the hash of \<open>[u8]\<close>: the length, then the bytes.\<close>

record 'h hasher =
  write_usize :: "nat \<Rightarrow> 'h \<Rightarrow> 'h"
  write_bytes :: "bytes \<Rightarrow> 'h \<Rightarrow> 'h"

definition bytes_hash :: "'h hasher \<Rightarrow> bytes \<Rightarrow> 'h \<Rightarrow> 'h" where
  "bytes_hash h xs st = write_bytes h xs (write_usize h (length xs) st)"

text \<open>\<open>Bytes\<close>; slicing beyond the end panics.\<close>

record ('b, 'h) bytes_lib =
  b_with_capacity :: "nat \<Rightarrow> 'b"
  b_as_ref :: "'b \<Rightarrow> bytes"
  b_len :: "'b \<Rightarrow> nat"
  b_is_empty :: "'b \<Rightarrow> bool"
  b_slice :: "'b \<Rightarrow> nat \<Rightarrow> nat \<Rightarrow> 'b option"
  b_slice_from :: "'b \<Rightarrow> nat \<Rightarrow> 'b option"
  b_slice_to :: "'b \<Rightarrow> nat \<Rightarrow> 'b option"
  b_eq :: "'b \<Rightarrow> 'b \<Rightarrow> bool"
  b_cmp :: "'b \<Rightarrow> 'b \<Rightarrow> ordering"
  b_hash :: "'h hasher \<Rightarrow> 'b \<Rightarrow> 'h \<Rightarrow> 'h"
  b_into_iter :: "'b \<Rightarrow> bytes"
  b_extend :: "'b \<Rightarrow> bytes \<Rightarrow> 'b"
  b_fmt :: "'b \<Rightarrow> string"
  b_from_bytes_mut :: "bytes \<Rightarrow> 'b"
  b_from_vec :: "bytes \<Rightarrow> 'b"
  b_from_string :: "bytes \<Rightarrow> 'b"
  b_from_ref :: "bytes \<Rightarrow> 'b"
  b_from_str :: "bytes \<Rightarrow> 'b"

definition bytes_lib_ok :: "('b, 'h) bytes_lib \<Rightarrow> bool" where
  "bytes_lib_ok B \<longleftrightarrow>
     (\<forall>n. b_as_ref B (b_with_capacity B n) = []) \<and>
     (\<forall>b. b_len B b = length (b_as_ref B b)) \<and>
     (\<forall>b. b_is_empty B b \<longleftrightarrow> b_len B b = 0) \<and>
     (\<forall>b i j. map_option (b_as_ref B) (b_slice B b i j) = subslice (b_as_ref B b) i j) \<and>
     (\<forall>b i. b_slice_from B b i = b_slice B b i (b_len B b)) \<and>
     (\<forall>b j. b_slice_to B b j = b_slice B b 0 j) \<and>
     (\<forall>a b. b_eq B a b \<longleftrightarrow> b_as_ref B a = b_as_ref B b) \<and>
     (\<forall>a b. b_cmp B a b = bytes_cmp (b_as_ref B a) (b_as_ref B b)) \<and>
     (\<forall>h b st. b_hash B h b st = bytes_hash h (b_as_ref B b) st) \<and>
     (\<forall>b. b_into_iter B b = b_as_ref B b) \<and>
     (\<forall>b xs. b_as_ref B (b_extend B b xs) = b_as_ref B b @ xs) \<and>
     (\<forall>xs. b_as_ref B (b_from_bytes_mut B xs) = xs) \<and>
     (\<forall>xs. b_as_ref B (b_from_vec B xs) = xs) \<and>
     (\<forall>xs. b_as_ref B (b_from_string B xs) = xs) \<and>
     (\<forall>xs. b_as_ref B (b_from_ref B xs) = xs) \<and>
     (\<forall>xs. b_as_ref B (b_from_str B xs) = xs)"

subsection \<open>Slices\<close>

record 'b slice =
  slc_inner :: 'b

definition slc_with_capacity :: "('b, 'h) bytes_lib \<Rightarrow> nat \<Rightarrow> 'b slice" where
  "slc_with_capacity B cap = \<lparr>slc_inner = b_with_capacity B cap\<rparr>"

definition slc_default :: "('b, 'h) bytes_lib \<Rightarrow> 'b slice" where
  "slc_default B = slc_with_capacity B 0"

definition slc_new :: "('b, 'h) bytes_lib \<Rightarrow> 'b slice" where
  "slc_new B = slc_default B"

definition slc_len :: "('b, 'h) bytes_lib \<Rightarrow> 'b slice \<Rightarrow> nat" where
  "slc_len B s = b_len B (slc_inner s)"

definition slc_is_empty :: "('b, 'h) bytes_lib \<Rightarrow> 'b slice \<Rightarrow> bool" where
  "slc_is_empty B s = b_is_empty B (slc_inner s)"

definition slc_slice :: "('b, 'h) bytes_lib \<Rightarrow> 'b slice \<Rightarrow> nat \<Rightarrow> nat \<Rightarrow> 'b slice option" where
  "slc_slice B s begin_at end_at = do {
     b \<leftarrow> b_slice B (slc_inner s) begin_at end_at;
     Some \<lparr>slc_inner = b\<rparr>
   }"

definition slc_slice_from :: "('b, 'h) bytes_lib \<Rightarrow> 'b slice \<Rightarrow> nat \<Rightarrow> 'b slice option" where
  "slc_slice_from B s begin_at = do {
     b \<leftarrow> b_slice_from B (slc_inner s) begin_at;
     Some \<lparr>slc_inner = b\<rparr>
   }"

definition slc_slice_to :: "('b, 'h) bytes_lib \<Rightarrow> 'b slice \<Rightarrow> nat \<Rightarrow> 'b slice option" where
  "slc_slice_to B s end_at = do {
     b \<leftarrow> b_slice_to B (slc_inner s) end_at;
     Some \<lparr>slc_inner = b\<rparr>
   }"

definition slc_as_ref :: "('b, 'h) bytes_lib \<Rightarrow> 'b slice \<Rightarrow> bytes" where
  "slc_as_ref B s = b_as_ref B (slc_inner s)"

definition slc_borrow :: "('b, 'h) bytes_lib \<Rightarrow> 'b slice \<Rightarrow> bytes" where
  "slc_borrow B s = slc_as_ref B s"

text \<open>The derived comparisons of two slices, and those with \<open>&[u8]\<close> and \<open>Vec<u8>\<close>.\<close>

definition slc_eq :: "('b, 'h) bytes_lib \<Rightarrow> 'b slice \<Rightarrow> 'b slice \<Rightarrow> bool" where
  "slc_eq B s t = b_eq B (slc_inner s) (slc_inner t)"

definition slc_cmp :: "('b, 'h) bytes_lib \<Rightarrow> 'b slice \<Rightarrow> 'b slice \<Rightarrow> ordering" where
  "slc_cmp B s t = b_cmp B (slc_inner s) (slc_inner t)"

definition slc_eq_ref :: "('b, 'h) bytes_lib \<Rightarrow> 'b slice \<Rightarrow> bytes \<Rightarrow> bool" where
  "slc_eq_ref B s other \<longleftrightarrow> slc_as_ref B s = other"

definition slc_cmp_ref :: "('b, 'h) bytes_lib \<Rightarrow> 'b slice \<Rightarrow> bytes \<Rightarrow> ordering option" where
  "slc_cmp_ref B s other = Some (bytes_cmp (slc_as_ref B s) other)"

definition slc_eq_vec :: "('b, 'h) bytes_lib \<Rightarrow> 'b slice \<Rightarrow> bytes \<Rightarrow> bool" where
  "slc_eq_vec B s other \<longleftrightarrow> slc_as_ref B s = other"

definition slc_cmp_vec :: "('b, 'h) bytes_lib \<Rightarrow> 'b slice \<Rightarrow> bytes \<Rightarrow> ordering option" where
  "slc_cmp_vec B s other = Some (bytes_cmp (slc_as_ref B s) other)"

definition slc_hash :: "('b, 'h) bytes_lib \<Rightarrow> 'h hasher \<Rightarrow> 'b slice \<Rightarrow> 'h \<Rightarrow> 'h" where
  "slc_hash B h s st = b_hash B h (slc_inner s) st"

definition slc_fmt :: "('b, 'h) bytes_lib \<Rightarrow> 'b slice \<Rightarrow> string" where
  "slc_fmt B s = b_fmt B (slc_inner s)"

text \<open>Indexing by \<open>..\<close> and by \<open>..n\<close>, which panics beyond the end.\<close>

definition slc_index_full :: "('b, 'h) bytes_lib \<Rightarrow> 'b slice \<Rightarrow> bytes" where
  "slc_index_full B s = b_as_ref B (slc_inner s)"

definition range_to :: "bytes \<Rightarrow> nat \<Rightarrow> bytes option" where
  "range_to xs n = (if n \<le> length xs then Some (take n xs) else None)"

definition slc_index_to :: "('b, 'h) bytes_lib \<Rightarrow> 'b slice \<Rightarrow> nat \<Rightarrow> bytes option" where
  "slc_index_to B s n = range_to (b_as_ref B (slc_inner s)) n"

text \<open>The bytes the iterator gives, in order.\<close>

definition slc_into_iter :: "('b, 'h) bytes_lib \<Rightarrow> 'b slice \<Rightarrow> bytes" where
  "slc_into_iter B s = b_into_iter B (slc_inner s)"

definition slc_iter :: "('b, 'h) bytes_lib \<Rightarrow> 'b slice \<Rightarrow> bytes" where
  "slc_iter B s = b_into_iter B (slc_inner s)"

definition slc_extend :: "('b, 'h) bytes_lib \<Rightarrow> 'b slice \<Rightarrow> bytes \<Rightarrow> 'b slice" where
  "slc_extend B s xs = s\<lparr>slc_inner := b_extend B (slc_inner s) xs\<rparr>"

definition slc_extend_refs :: "('b, 'h) bytes_lib \<Rightarrow> 'b slice \<Rightarrow> bytes \<Rightarrow> 'b slice" where
  "slc_extend_refs B s xs = s\<lparr>slc_inner := b_extend B (slc_inner s) xs\<rparr>"

text \<open>Conversions; a string is its UTF-8 bytes.\<close>

definition slc_from_bytes_mut :: "('b, 'h) bytes_lib \<Rightarrow> bytes \<Rightarrow> 'b slice" where
  "slc_from_bytes_mut B src = \<lparr>slc_inner = b_from_bytes_mut B src\<rparr>"

definition impl_from :: "('t \<Rightarrow> 'b) \<Rightarrow> 't \<Rightarrow> 'b slice" where
  "impl_from conv src = \<lparr>slc_inner = conv src\<rparr>"

definition slc_from_vec :: "('b, 'h) bytes_lib \<Rightarrow> bytes \<Rightarrow> 'b slice" where
  "slc_from_vec B = impl_from (b_from_vec B)"

definition slc_from_string :: "('b, 'h) bytes_lib \<Rightarrow> bytes \<Rightarrow> 'b slice" where
  "slc_from_string B = impl_from (b_from_string B)"

definition slc_from_ref :: "('b, 'h) bytes_lib \<Rightarrow> bytes \<Rightarrow> 'b slice" where
  "slc_from_ref B = impl_from (b_from_ref B)"

definition slc_from_str :: "('b, 'h) bytes_lib \<Rightarrow> bytes \<Rightarrow> 'b slice" where
  "slc_from_str B = impl_from (b_from_str B)"

subsection \<open>Serialization\<close>

text \<open>A serializer gives its output for bytes; a deserializer hands what it reads to the method
  of the visitor for it.\<close>

record ('b, 'e) slice_visitor =
  visit_bytes :: "bytes \<Rightarrow> 'e + 'b slice"

definition SliceVisitor :: "('b, 'h) bytes_lib \<Rightarrow> ('b, 'e) slice_visitor" where
  "SliceVisitor B = \<lparr>visit_bytes = (\<lambda>v. Inr (slc_from_ref B v))\<rparr>"

definition slc_serialize :: "('b, 'h) bytes_lib \<Rightarrow> (bytes \<Rightarrow> 'e + 'o) \<Rightarrow> 'b slice \<Rightarrow> 'e + 'o" where
  "slc_serialize B serialize_bytes s = serialize_bytes (b_as_ref B (slc_inner s))"

definition slc_deserialize ::
  "('b, 'h) bytes_lib \<Rightarrow> (('b, 'e) slice_visitor \<Rightarrow> 'o \<Rightarrow> 'e + 'b slice) \<Rightarrow> 'o \<Rightarrow> 'e + 'b slice" where
  "slc_deserialize B deserialize_bytes i = deserialize_bytes (SliceVisitor B) i"

text \<open>A format for bytes: what was written for some bytes is read as these bytes.\<close>

definition format_ok :: "(bytes \<Rightarrow> 'e + 'o) \<Rightarrow> (('b, 'e) slice_visitor \<Rightarrow> 'o \<Rightarrow> 'e + 'b slice) \<Rightarrow> bool" where
  "format_ok ser de \<longleftrightarrow> (\<forall>v xs out. ser xs = Inr out \<longrightarrow> de v out = visit_bytes v xs)"

subsection \<open>A slice is its bytes\<close>

named_theorems slc_simps \<open>the operations of slices on their bytes\<close>

lemma bytes_cmp_Equal [slc_simps]: "bytes_cmp xs ys = Equal \<longleftrightarrow> xs = ys"
  by (induction xs ys rule: bytes_cmp.induct) auto

lemma bytes_cmp_Less [slc_simps]: "bytes_cmp xs ys = Less \<longleftrightarrow> xs < ys"
  by (induction xs ys rule: bytes_cmp.induct) auto

lemma bytes_cmp_swap: "bytes_cmp xs ys = Greater \<longleftrightarrow> bytes_cmp ys xs = Less"
  by (induction xs ys rule: bytes_cmp.induct) auto

lemma bytes_lib_okD:
  assumes "bytes_lib_ok B"
  shows "b_as_ref B (b_with_capacity B n) = []" "b_len B b = length (b_as_ref B b)"
    "b_is_empty B b \<longleftrightarrow> b_len B b = 0"
    "map_option (b_as_ref B) (b_slice B b i j) = subslice (b_as_ref B b) i j"
    "b_slice_from B b i = b_slice B b i (b_len B b)" "b_slice_to B b j = b_slice B b 0 j"
    "b_eq B a b \<longleftrightarrow> b_as_ref B a = b_as_ref B b" "b_cmp B a b = bytes_cmp (b_as_ref B a) (b_as_ref B b)"
    "b_hash B h b st = bytes_hash h (b_as_ref B b) st" "b_into_iter B b = b_as_ref B b"
    "b_as_ref B (b_extend B b xs) = b_as_ref B b @ xs"
    "b_as_ref B (b_from_bytes_mut B xs) = xs" "b_as_ref B (b_from_vec B xs) = xs"
    "b_as_ref B (b_from_string B xs) = xs" "b_as_ref B (b_from_ref B xs) = xs" "b_as_ref B (b_from_str B xs) = xs"
  using assms by (simp_all add: bytes_lib_ok_def)

lemma slc_slice_bytes:
  assumes "bytes_lib_ok B"
  shows "map_option (slc_as_ref B) (slc_slice B s i j) = subslice (slc_as_ref B s) i j"
    "map_option (slc_as_ref B) (slc_slice_from B s i) = slice_from (slc_as_ref B s) i"
    "map_option (slc_as_ref B) (slc_slice_to B s j) = range_to (slc_as_ref B s) j"
proof -
  note B = bytes_lib_okD [OF assms]
  have r: "map_option (slc_as_ref B) (do { b \<leftarrow> m; Some \<lparr>slc_inner = b\<rparr> }) = map_option (b_as_ref B) m" for m
    by (cases m) (simp_all add: slc_as_ref_def)
  show "map_option (slc_as_ref B) (slc_slice B s i j) = subslice (slc_as_ref B s) i j"
    unfolding slc_slice_def r B(4) by (simp add: slc_as_ref_def)
  show "map_option (slc_as_ref B) (slc_slice_from B s i) = slice_from (slc_as_ref B s) i"
    unfolding slc_slice_from_def r B(4,5) by (simp add: slc_as_ref_def B(2) subslice_def slice_from_def)
  show "map_option (slc_as_ref B) (slc_slice_to B s j) = range_to (slc_as_ref B s) j"
    unfolding slc_slice_to_def r B(4,6) by (simp add: slc_as_ref_def subslice_def range_to_def)
qed

text \<open>A slice behaves as the list of its bytes, whatever buffer of the \<open>bytes\<close> crate holds
  them: a new one is empty, its length is theirs, a part of it holds that part of them and asking
  for more panics, indexing, iteration, extension and every conversion agree with them.\<close>

theorem slice_is_its_bytes:
  assumes "bytes_lib_ok B"
  shows "slc_as_ref B (slc_new B) = [] \<and> slc_len B s = length (slc_as_ref B s) \<and> (slc_is_empty B s \<longleftrightarrow> slc_as_ref B s = []) \<and>
     map_option (slc_as_ref B) (slc_slice B s i j) = subslice (slc_as_ref B s) i j \<and>
     map_option (slc_as_ref B) (slc_slice_from B s i) = slice_from (slc_as_ref B s) i \<and>
     map_option (slc_as_ref B) (slc_slice_to B s j) = slc_index_to B s j \<and>
     slc_index_to B s j = subslice (slc_as_ref B s) 0 j \<and> slc_index_full B s = slc_as_ref B s \<and>
     slc_into_iter B s = slc_as_ref B s \<and> slc_iter B s = slc_as_ref B s \<and>
     slc_as_ref B (slc_extend B s xs) = slc_as_ref B s @ xs \<and> slc_as_ref B (slc_extend_refs B s xs) = slc_as_ref B s @ xs \<and>
     (\<forall>f \<in> {slc_from_bytes_mut B, slc_from_vec B, slc_from_string B, slc_from_ref B, slc_from_str B}. slc_as_ref B (f xs) = xs)"
proof -
  note B = bytes_lib_okD [OF assms]
  note d = slc_as_ref_def slc_new_def slc_default_def slc_with_capacity_def slc_len_def slc_is_empty_def slc_index_full_def
    slc_into_iter_def slc_iter_def slc_extend_def slc_extend_refs_def slc_from_bytes_mut_def slc_from_vec_def slc_from_string_def
    slc_from_ref_def slc_from_str_def impl_from_def
  have "slc_index_to B s j = range_to (slc_as_ref B s) j" "range_to (slc_as_ref B s) j = subslice (slc_as_ref B s) 0 j"
    by (simp_all add: slc_index_to_def range_to_def subslice_def slc_as_ref_def)
  then show ?thesis using slc_slice_bytes [OF assms] by (simp add: d B(1,2,3,10-16))
qed

text \<open>Slices are compared and hashed as their bytes: two slices are equal when their bytes
  are, the derived order is the lexicographic one, the comparisons with \<open>&[u8]\<close> and with
  \<open>Vec<u8>\<close> agree with it, and the hash is the one of the borrowed bytes, as a map that looks up a
  \<open>Slice\<close> by \<open>[u8]\<close> requires.\<close>

theorem slice_ordered_as_bytes:
  assumes "bytes_lib_ok B"
  shows "(slc_eq B s t \<longleftrightarrow> slc_borrow B s = slc_borrow B t) \<and>
     (slc_cmp B s t = Less \<longleftrightarrow> slc_borrow B s < slc_borrow B t) \<and>
     (slc_cmp B s t = Equal \<longleftrightarrow> slc_eq B s t) \<and>
     (slc_cmp B s t = Greater \<longleftrightarrow> slc_cmp B t s = Less) \<and>
     (slc_eq_ref B s xs \<longleftrightarrow> slc_eq B s (slc_from_ref B xs)) \<and> (slc_eq_vec B s xs \<longleftrightarrow> slc_eq B s (slc_from_vec B xs)) \<and>
     slc_cmp_ref B s xs = Some (slc_cmp B s (slc_from_ref B xs)) \<and> slc_cmp_vec B s xs = Some (slc_cmp B s (slc_from_vec B xs)) \<and>
     slc_hash B h s st = bytes_hash h (slc_borrow B s) st"
proof -
  note B = bytes_lib_okD [OF assms]
  note d = slc_as_ref_def slc_borrow_def slc_eq_def slc_cmp_def slc_eq_ref_def slc_eq_vec_def slc_cmp_ref_def slc_cmp_vec_def slc_hash_def
    slc_from_vec_def slc_from_ref_def impl_from_def
  show ?thesis by (simp add: d B(7,8,9,13,15) slc_simps bytes_cmp_swap [of "b_as_ref B (slc_inner s)"])
qed

text \<open>A slice written in any format for bytes is read back as a slice equal to it.\<close>

theorem slice_serde_roundtrip:
  assumes "bytes_lib_ok B" "format_ok ser de" "slc_serialize B ser s = Inr out"
  shows "\<exists>t. slc_deserialize B de out = Inr t \<and> slc_eq B t s"
proof -
  have "slc_deserialize B de out = Inr (slc_from_ref B (b_as_ref B (slc_inner s)))"
    using assms(2,3) by (simp add: format_ok_def slc_serialize_def slc_deserialize_def SliceVisitor_def)
  then show ?thesis using bytes_lib_okD [OF assms(1)] by (simp add: slc_eq_def slc_from_ref_def impl_from_def)
qed

subsection \<open>Buffers that are the bytes themselves\<close>

definition list_bytes :: "(bytes, nat list) bytes_lib" where
  "list_bytes = \<lparr>b_with_capacity = (\<lambda>n. []), b_as_ref = (\<lambda>b. b), b_len = length, b_is_empty = (\<lambda>b. b = []),
     b_slice = subslice, b_slice_from = slice_from, b_slice_to = range_to, b_eq = (=), b_cmp = bytes_cmp, b_hash = bytes_hash,
     b_into_iter = (\<lambda>b. b), b_extend = (@), b_fmt = (\<lambda>b. ''''), b_from_bytes_mut = (\<lambda>b. b), b_from_vec = (\<lambda>b. b),
     b_from_string = (\<lambda>b. b), b_from_ref = (\<lambda>b. b), b_from_str = (\<lambda>b. b)\<rparr>"

lemma list_bytes_ok: "bytes_lib_ok list_bytes"
  by (auto simp: bytes_lib_ok_def list_bytes_def option.map_ident subslice_def slice_from_def range_to_def fun_eq_iff)

theorem slice_is_its_bytes_witness:
  "slc_index_to list_bytes (slc_from_str list_bytes [1, 2, 3]) 2 = Some [1, 2]"
  using slice_is_its_bytes [OF list_bytes_ok, of "slc_from_str list_bytes [1, 2, 3]" 0 2 "[1, 2, 3]"] by (simp add: subslice_def)

theorem slice_ordered_as_bytes_witness:
  "slc_cmp list_bytes (slc_from_str list_bytes [97, 98, 99]) (slc_from_str list_bytes [97, 98, 100]) = Less"
  using slice_ordered_as_bytes [OF list_bytes_ok, of "slc_from_str list_bytes [97, 98, 99]" "slc_from_str list_bytes [97, 98, 100]"]
  by (simp add: slc_borrow_def slc_as_ref_def slc_from_str_def impl_from_def list_bytes_def)

theorem slice_serde_roundtrip_witness:
  "\<exists>t. slc_deserialize list_bytes visit_bytes [97, 98, 99] = (Inr t :: unit + bytes slice) \<and>
     slc_eq list_bytes t (slc_from_str list_bytes [97, 98, 99])"
  by (rule slice_serde_roundtrip [OF list_bytes_ok, where ser = Inr])
    (simp_all add: format_ok_def slc_serialize_def slc_from_str_def impl_from_def list_bytes_def)

end
