(* ===== verification/Store.thy ===== *)
theory Store
  imports Dm_Db Protocol_Props Slice
begin

text \<open>
  The store (\<open>store.rs\<close>) applies requests to the data manager; the service (\<open>main.rs\<close>) turns
  its errors into responses.  The handlers of the requests take the operations of the data
  manager they call as arguments, so that what they do is proved from the contract of
  \<open>Dm_Db\<close> alone; \<open>store_apply\<close> passes the data manager's own.
\<close>

subsection \<open>Payloads\<close>

definition sp_new :: "bytes \<Rightarrow> u32 \<Rightarrow> u32 \<Rightarrow> nat \<Rightarrow> u64 \<Rightarrow> store_payload" where
  "sp_new data flags ttl n created_at =
     \<lparr>sp_data = data, sp_flags = flags, sp_ttl = ttl, sp_bytes = n, sp_created_at = created_at\<rparr>"

text \<open>The sum is taken in 64 bits.\<close>

definition is_expired :: "store_payload \<Rightarrow> u64 \<Rightarrow> bool" where
  "is_expired p now =
     (if sp_ttl p = 0 then False else sp_created_at p + ucast (sp_ttl p) \<le> now)"

subsection \<open>The handlers\<close>

text \<open>\<open>clock i\<close> is the time when the expiry of the \<open>i\<close>-th key is checked.\<close>

fun apply_get ::
  "('s \<Rightarrow> bytes \<Rightarrow> (status, store_payload option \<times> 's) fallible) \<Rightarrow> (nat \<Rightarrow> u64) \<Rightarrow> nat \<Rightarrow> bytes list \<Rightarrow>
   get_resp_item list \<Rightarrow> 's \<Rightarrow> (status, get_resp_item list \<times> 's) fallible" where
  "apply_get getp clock i [] v s = Some (Inr (v, s))"
| "apply_get getp clock i (k # ks) v s =
     tryO (getp s k) (\<lambda>(r, s').
       apply_get getp clock (i + 1) ks
         (case r of
            None \<Rightarrow> v
          | Some p \<Rightarrow>
              if \<not> is_expired p (clock i)
              then v @ [\<lparr>ri_key = k, ri_data = sp_data p, ri_flags = sp_flags p, ri_bytes = sp_bytes p\<rparr>]
              else v) s')"

definition append_payload :: "store_payload \<Rightarrow> store_payload \<Rightarrow> store_payload" where
  "append_payload v sp = v\<lparr>sp_data := sp_data v @ sp_data sp, sp_ttl := sp_ttl sp, sp_created_at := sp_created_at sp,
     sp_bytes := (sp_bytes v + sp_bytes sp) mod usize_bound, sp_flags := sp_flags sp\<rparr>"

definition prepend_payload :: "store_payload \<Rightarrow> store_payload \<Rightarrow> store_payload" where
  "prepend_payload v sp = v\<lparr>sp_data := sp_data sp @ sp_data v, sp_ttl := sp_ttl sp, sp_created_at := sp_created_at sp,
     sp_bytes := (sp_bytes v + sp_bytes sp) mod usize_bound, sp_flags := sp_flags sp\<rparr>"

definition store_with ::
  "('s \<Rightarrow> bytes \<Rightarrow> store_payload \<Rightarrow> (status, store_payload option \<times> 's) fallible) \<Rightarrow> 's \<Rightarrow> bytes \<Rightarrow> store_payload \<Rightarrow>
   (status, response \<times> 's) fallible" where
  "store_with insp s k p = tryO (insp s k p) (\<lambda>(_, s'). Some (Inr (Stored, s')))"

fun apply_setter ::
  "('s \<Rightarrow> bytes \<Rightarrow> (status, store_payload option \<times> 's) fallible) \<Rightarrow>
   ('s \<Rightarrow> bytes \<Rightarrow> store_payload \<Rightarrow> (status, store_payload option \<times> 's) fallible) \<Rightarrow>
   setter_type \<Rightarrow> bytes \<Rightarrow> store_payload \<Rightarrow> 's \<Rightarrow> (status, response \<times> 's) fallible" where
  "apply_setter getp insp Set k sp s = store_with insp s k sp"
| "apply_setter getp insp Add k sp s =
     tryO (getp s k) (\<lambda>(r, s'). if r = None then store_with insp s' k sp else Some (Inr (NotStored, s')))"
| "apply_setter getp insp Replace k sp s =
     tryO (getp s k) (\<lambda>(r, s'). if r = None then Some (Inr (NotStored, s')) else store_with insp s' k sp)"
| "apply_setter getp insp Append k sp s =
     tryO (getp s k) (\<lambda>(r, s').
       case r of
         Some v \<Rightarrow> store_with insp s' k (append_payload v sp)
       | None \<Rightarrow> Some (Inr (NotStored, s')))"
| "apply_setter getp insp Prepend k sp s =
     tryO (getp s k) (\<lambda>(r, s').
       case r of
         Some v \<Rightarrow> store_with insp s' k (prepend_payload v sp)
       | None \<Rightarrow> Some (Inr (NotStored, s')))"

definition apply_set ::
  "('s \<Rightarrow> bytes \<Rightarrow> (status, store_payload option \<times> 's) fallible) \<Rightarrow>
   ('s \<Rightarrow> bytes \<Rightarrow> store_payload \<Rightarrow> (status, store_payload option \<times> 's) fallible) \<Rightarrow>
   u64 \<Rightarrow> setter_type \<Rightarrow> bytes \<Rightarrow> u32 \<Rightarrow> u32 \<Rightarrow> nat \<Rightarrow> bytes \<Rightarrow> 's \<Rightarrow> (status, response \<times> 's) fallible" where
  "apply_set getp insp now t k flags ttl n payload s =
     (if length payload > n then Some (Inr (ClientError ''bad data chunk'', s))
      else do {
        data \<leftarrow> range_to payload n;
        apply_setter getp insp t k (sp_new data flags ttl n now) s
      })"

definition apply_delete ::
  "('s \<Rightarrow> bytes \<Rightarrow> (status, store_payload option \<times> 's) fallible) \<Rightarrow> bytes \<Rightarrow> 's \<Rightarrow> (status, response \<times> 's) fallible" where
  "apply_delete remp k s =
     tryO (remp s k) (\<lambda>(r, s'). Some (Inr ((case r of Some _ \<Rightarrow> Deleted | None \<Rightarrow> Resp_NotFound), s')))"

subsection \<open>The store\<close>

fun store_apply ::
  "('f, 'c) server_libs \<Rightarrow> (nat \<Rightarrow> u64) \<Rightarrow> request \<Rightarrow> ('f, 'c) data_manager \<Rightarrow>
   (status, response \<times> ('f, 'c) data_manager) fallible" where
  "store_apply S clock (Getter t ks) dm =
     tryO (apply_get (dm_get S) clock 0 ks [] dm) (\<lambda>(v, dm').
       Some (Inr ((case t of Get \<Rightarrow> Resp_Get v | Gets \<Rightarrow> Resp_Gets v), dm')))"
| "store_apply S clock (Setter t k flags ttl n payload _) dm =
     apply_set (dm_get S) (dm_insert S) (clock 0) t k flags ttl n payload dm"
| "store_apply S clock (Deleter k _) dm = apply_delete (dm_remove S) k dm"
| "store_apply S clock Req_Info dm = map_option (\<lambda>s. Inr (Resp_Info s, dm)) (dm_info dm)"
| "store_apply S clock Req_Error dm = Some (Inr (Resp_Error, dm))"
| "store_apply S clock MajorCompaction dm =
     tryO (major_compaction S dm) (\<lambda>dm'. Some (Inr (Resp_Ok, dm')))"

text \<open>What \<open>Store::new\<close> finds at the path of the working directory.\<close>

datatype work_path = Missing | Not_a_dir | Directory fs

definition store_new ::
  "('f, 'c) server_libs \<Rightarrow> server_options \<Rightarrow> work_path \<Rightarrow> 'c cache \<Rightarrow> nat stream stream \<Rightarrow>
   (status, ('f, 'c) data_manager) fallible" where
  "store_new S opt path c rngs =
     (case path of
        Missing \<Rightarrow> dm_new S opt [] c rngs
      | Not_a_dir \<Rightarrow> err IOError ''work dir is not a dir''
      | Directory d \<Rightarrow> dm_new S opt d c rngs)"

text \<open>\<open>Server::call\<close>: the response, and the state after it; the state after an error is not
  followed.\<close>

definition server_call ::
  "('f, 'c) server_libs \<Rightarrow> (nat \<Rightarrow> u64) \<Rightarrow> request \<Rightarrow> ('f, 'c) data_manager \<Rightarrow>
   (response \<times> ('f, 'c) data_manager option) option" where
  "server_call S clock req dm =
     map_option (\<lambda>r. case r of Inr (resp, dm') \<Rightarrow> (resp, Some dm') | Inl e \<Rightarrow> (ServerError (msg e), None))
       (store_apply S clock req dm)"

subsection \<open>What the requests mean\<close>

text \<open>On a map from keys to payloads: the new payload of a storage command, if it stores one.  One
  that joins its block to the old one has the flags, time to live and time of the command and
  both lengths together.\<close>

definition joined :: "bytes \<Rightarrow> store_payload \<Rightarrow> store_payload \<Rightarrow> store_payload" where
  "joined data old sp =
     \<lparr>sp_data = data, sp_flags = sp_flags sp, sp_ttl = sp_ttl sp,
      sp_bytes = (sp_bytes old + sp_bytes sp) mod usize_bound, sp_created_at = sp_created_at sp\<rparr>"

fun stored_payload :: "setter_type \<Rightarrow> store_payload option \<Rightarrow> store_payload \<Rightarrow> store_payload option" where
  "stored_payload Set old sp = Some sp"
| "stored_payload Add old sp = (if old = None then Some sp else None)"
| "stored_payload Replace old sp = (if old = None then None else Some sp)"
| "stored_payload Append old sp = map_option (\<lambda>v. joined (sp_data v @ sp_data sp) v sp) old"
| "stored_payload Prepend old sp = map_option (\<lambda>v. joined (sp_data sp @ sp_data v) v sp) old"

fun get_items :: "(bytes \<rightharpoonup> store_payload) \<Rightarrow> (nat \<Rightarrow> u64) \<Rightarrow> nat \<Rightarrow> bytes list \<Rightarrow> get_resp_item list" where
  "get_items m clock i [] = []"
| "get_items m clock i (k # ks) =
     (case m k of
        None \<Rightarrow> []
      | Some p \<Rightarrow> if is_expired p (clock i) then []
          else [\<lparr>ri_key = k, ri_data = sp_data p, ri_flags = sp_flags p, ri_bytes = sp_bytes p\<rparr>]) @
     get_items m clock (Suc i) ks"

lemma append_payload_joined: "append_payload v sp = joined (sp_data v @ sp_data sp) v sp"
  by (cases v) (simp add: append_payload_def joined_def)

lemma prepend_payload_joined: "prepend_payload v sp = joined (sp_data sp @ sp_data v) v sp"
  by (cases v) (simp add: prepend_payload_def joined_def)

context payload_db
begin

lemma apply_get_ok:
  "rel s H \<Longrightarrow> \<exists>s'. apply_get getp clock i ks v s = Some (Inr (v @ get_items (db_lookup H) clock i ks, s')) \<and> rel s' H"
proof (induction ks arbitrary: i v s)
  case (Cons k ks)
  obtain s1 where s1: "getp s k = Some (Inr (db_lookup H k, s1))" "rel s1 H" using get_law [OF Cons.prems] by blast
  let ?v = "v @ (case db_lookup H k of None \<Rightarrow> [] | Some p \<Rightarrow> if is_expired p (clock i) then []
      else [\<lparr>ri_key = k, ri_data = sp_data p, ri_flags = sp_flags p, ri_bytes = sp_bytes p\<rparr>])"
  have "apply_get getp clock i (k # ks) v s = apply_get getp clock (Suc i) ks ?v s1"
    using s1(1) by (simp split: option.splits)
  then show ?case using Cons.IH [OF s1(2), of "Suc i" ?v] by simp
qed simp

lemma store_with_ok:
  "rel s H \<Longrightarrow> accepts H k (Some p) \<Longrightarrow> \<exists>s'. store_with insp s k p = Some (Inr (Stored, s')) \<and> rel s' (H @ [(k, Some p)])"
  using ins_law [of s H k p] by (auto simp: store_with_def)

lemma apply_setter_ok:
  assumes "rel s H" "\<And>p. stored_payload t (db_lookup H k) sp = Some p \<Longrightarrow> accepts H k (Some p)"
  shows "\<exists>s'. apply_setter getp insp t k sp s =
      Some (Inr ((case stored_payload t (db_lookup H k) sp of None \<Rightarrow> NotStored | Some _ \<Rightarrow> Stored), s')) \<and>
     rel s' (case stored_payload t (db_lookup H k) sp of None \<Rightarrow> H | Some p \<Rightarrow> H @ [(k, Some p)])"
proof -
  obtain s1 where g: "getp s k = Some (Inr (db_lookup H k, s1))" "rel s1 H"
    using get_law [OF assms(1)] by blast
  have st: "\<exists>s'. store_with insp s1 k p = Some (Inr (Stored, s')) \<and> rel s' (H @ [(k, Some p)])"
    if "stored_payload t (db_lookup H k) sp = Some p" for p
    by (rule store_with_ok [OF g(2) assms(2) [OF that]])
  show ?thesis
  proof (cases t)
    case Set
    then show ?thesis using store_with_ok [OF assms(1)] assms(2) by simp
  qed (use g(1,2) st in \<open>auto simp: append_payload_joined prepend_payload_joined split: option.splits\<close>)
qed

lemma apply_delete_ok:
  assumes "rel s H" "accepts H k None"
  shows "\<exists>s'. apply_delete remp k s = Some (Inr ((case db_lookup H k of None \<Rightarrow> Resp_NotFound | Some _ \<Rightarrow> Deleted), s')) \<and>
     rel s' (if db_lookup H k = None then H else H @ [(k, None)])"
  using rem_law [OF assms] by (auto simp: apply_delete_def split: option.splits)

end

end
