(* ===== verification/Store_Props.thy ===== *)
theory Store_Props
  imports Store Dm_Props
begin

text \<open>
  What a client sees: every request means an operation on the map from keys to payloads that the
  history of writes describes, and its response is written back as text.
\<close>

subsection \<open>The meaning of a request\<close>

text \<open>Requests for data, and what they answer and write on a history.\<close>

fun data_request :: "request \<Rightarrow> bool" where
  "data_request (Getter _ _) = True"
| "data_request (Setter _ _ _ _ n payload _) = (n \<le> length payload)"
| "data_request (Deleter _ _) = True"
| "data_request Req_Error = True"
| "data_request _ = False"

fun written :: "(nat \<Rightarrow> u64) \<Rightarrow> request \<Rightarrow> history \<Rightarrow> (bytes \<times> store_payload option) option" where
  "written clock (Setter t k flags ttl n payload _) H =
     (if n < length payload then None
      else map_option (\<lambda>p. (k, Some p)) (stored_payload t (db_lookup H k) (sp_new payload flags ttl n (clock 0))))"
| "written clock (Deleter k _) H = (if db_lookup H k = None then None else Some (k, None))"
| "written clock _ H = None"

fun answer :: "(nat \<Rightarrow> u64) \<Rightarrow> request \<Rightarrow> history \<Rightarrow> response" where
  "answer clock (Getter Get ks) H = Resp_Get (get_items (db_lookup H) clock 0 ks)"
| "answer clock (Getter Gets ks) H = Resp_Gets (get_items (db_lookup H) clock 0 ks)"
| "answer clock (Setter t k flags ttl n payload r) H =
     (if n < length payload then ClientError ''bad data chunk''
      else if written clock (Setter t k flags ttl n payload r) H = None then NotStored else Stored)"
| "answer clock (Deleter k _) H = (if db_lookup H k = None then Resp_NotFound else Deleted)"
| "answer clock _ H = Resp_Error"

definition after :: "(nat \<Rightarrow> u64) \<Rightarrow> request \<Rightarrow> history \<Rightarrow> history" where
  "after clock req H = (case written clock req H of None \<Rightarrow> H | Some w \<Rightarrow> H @ [w])"

text \<open>What a request may write is accepted; a deletion may write the absence of its key.\<close>

definition accepted :: "('f, 'c) server_libs \<Rightarrow> (nat \<Rightarrow> u64) \<Rightarrow> request \<Rightarrow> history \<Rightarrow> bool" where
  "accepted S clock req H \<longleftrightarrow>
     (case written clock req H of None \<Rightarrow> True | Some (k, p) \<Rightarrow> db_accepts S H k p) \<and>
     (case req of Deleter k _ \<Rightarrow> db_accepts S H k None | _ \<Rightarrow> True)"

lemma store_apply_at:
  assumes "db_at S mi ma m dm H" "data_request req" "accepted S clock req H"
  shows "\<exists>dm'. store_apply S clock req dm = Some (Inr (answer clock req H, dm')) \<and> db_at S mi ma m dm' (after clock req H)"
proof (cases req)
  case (Getter t ks)
  obtain dm' where "apply_get (dm_get S) clock 0 ks [] dm = Some (Inr ([] @ get_items (db_lookup H) clock 0 ks, dm'))" "db_at S mi ma m dm' H"
    using dmat.apply_get_ok [OF assms(1)] by blast
  then show ?thesis using Getter by (cases t) (auto simp: after_def)
next
  case (Setter t k flags ttl n payload r)
  show ?thesis
  proof (cases "n < length payload")
    case True
    then show ?thesis using Setter assms(1) by (simp add: apply_set_def after_def)
  next
    case False
    then have n: "n = length payload" using assms(2) Setter by simp
    let ?p = "sp_new payload flags ttl n (clock 0)"
    have a: "db_accepts S H k (Some p)" if "stored_payload t (db_lookup H k) ?p = Some p" for p
      using assms(3) Setter n that by (simp add: accepted_def)
    from dmat.apply_setter_ok [OF assms(1) a] obtain dm' where
      "apply_setter (dm_get S) (dm_insert S) t k ?p dm =
        Some (Inr ((case stored_payload t (db_lookup H k) ?p of None \<Rightarrow> NotStored | Some _ \<Rightarrow> Stored), dm'))"
      "db_at S mi ma m dm' (case stored_payload t (db_lookup H k) ?p of None \<Rightarrow> H | Some p \<Rightarrow> H @ [(k, Some p)])" by blast
    then show ?thesis using Setter n
      by (cases "stored_payload t (db_lookup H k) ?p") (auto simp: apply_set_def range_to_def after_def)
  qed
next
  case (Deleter k r)
  have "db_accepts S H k None" using assms(3) Deleter by (simp add: accepted_def)
  from dmat.apply_delete_ok [OF assms(1) this] Deleter show ?thesis
    by (cases "db_lookup H k") (auto simp: after_def)
qed (use assms in \<open>auto simp: after_def\<close>)

lemma store_apply_ok:
  assumes "db_rel S dm H" "data_request req" "accepted S clock req H"
  shows "\<exists>dm'. store_apply S clock req dm = Some (Inr (answer clock req H, dm')) \<and> db_rel S dm' (after clock req H)"
proof -
  obtain mi ma where "db_at S mi ma 0 dm H" using assms(1) by (auto simp: db_rel_def)
  from store_apply_at [OF this assms(2,3)] show ?thesis by (auto intro: db_relI)
qed

text \<open>C2: In every reachable state, a request for data is answered as the map of the history
  says, and leaves a reachable state with the history the request makes: a retrieval lists the
  unexpired items of its keys in order; a storage command whose block is too long is refused and
  writes nothing; set, add, replace, append and prepend store or refuse according to whether the
  key is there; a deletion tells whether the key was there.\<close>

theorem store_apply_refines:
  assumes "db_rel S dm H" "data_request req" "accepted S clock req H"
  shows "\<exists>dm'. store_apply S clock req dm = Some (Inr (answer clock req H, dm')) \<and> db_rel S dm' (after clock req H)"
  by (rule store_apply_ok [OF assms])

definition demo_set :: request where
  "demo_set = Setter Set [97] 0 0 1 [7] False"

lemma demo_set_facts:
  "data_request demo_set" "written (\<lambda>_. 0) demo_set [] = Some ([97], Some demo_payload)" "answer (\<lambda>_. 0) demo_set [] = Stored"
  "after (\<lambda>_. 0) demo_set [] = demo_history"
  by (simp_all add: demo_set_def demo_payload_def sp_new_def after_def)

lemma demo_set_accepted:
  obtains dm where "db_rel demo_server dm []" "accepted demo_server (\<lambda>_. 0) demo_set []"
proof -
  obtain dm where dm: "db_rel demo_server dm []" by (rule demo_start) (rule that)
  have "accepted demo_server (\<lambda>_. 0) demo_set []"
    using demo_accepts demo_set_facts(2) by (simp add: accepted_def) (simp add: demo_set_def)
  with dm show ?thesis by (rule that)
qed

text \<open>Appending to the stored block.\<close>

definition demo_append :: request where
  "demo_append = Setter Append [97] 3 0 1 [8] False"

definition demo_joined :: store_payload where
  "demo_joined = \<lparr>sp_data = [7, 8], sp_flags = 3, sp_ttl = 0, sp_bytes = 2, sp_created_at = 5\<rparr>"

lemma demo_append_facts:
  "data_request demo_append" "written (\<lambda>_. 5) demo_append demo_history = Some ([97], Some demo_joined)"
  "answer (\<lambda>_. 5) demo_append demo_history = Stored"
  using demo_lookup by (simp_all add: demo_append_def demo_joined_def demo_payload_def sp_new_def joined_def)

lemma demo_append_accepted: "accepted demo_server (\<lambda>_. 5) demo_append demo_history"
proof -
  have s: "serialize_value demo_server (Some demo_joined) =
      Inr (1 # le_bytes 4 3 @ le_bytes 4 0 @ le_bytes 8 2 @ le_bytes 8 5 @ [7, 8])" (is "_ = Inr ?b")
    by (simp add: demo_server_def demo_joined_def enc_value_def demo_libs_def)
  have "W = demo_writes" if "list_all2 (encoded demo_server) W demo_history" for W
    using that demo_value by (auto simp: list_all2_Cons2 encoded_def)
  moreover have "writes_ok (demo_writes @ [([97], ?b)])"
    by (simp add: writes_ok_def keys_nonempty_def enc_size_def demo_bytes_def)
  ultimately have "writes_ok (W @ [([97], ?b)])" if "list_all2 (encoded demo_server) W demo_history" for W
    using that by metis
  then have "db_accepts demo_server demo_history [97] (Some demo_joined)"
    using s by (simp add: db_accepts_def) (simp add: demo_server_def)
  then show ?thesis using demo_append_facts(2) by (simp add: accepted_def) (simp add: demo_append_def)
qed

theorem store_apply_refines_witness:
  "\<exists>dm dm'. db_rel demo_server dm demo_history \<and>
     store_apply demo_server (\<lambda>_. 5) demo_append dm = Some (Inr (Stored, dm')) \<and>
     db_rel demo_server dm' (demo_history @ [([97], Some demo_joined)])"
proof -
  obtain dm where "reaches demo_server server_options_default dm None None demo_writes" "dm_opt dm = server_options_default"
    by (rule demo_written) (rule that)
  then have d: "db_rel demo_server dm demo_history"
    using db_relI [OF db_at_reaches(2) [OF demo_server_ok demo_options _ demo_encoded]] by simp
  from store_apply_refines [OF d demo_append_facts(1) demo_append_accepted] d show ?thesis
    by (auto simp: demo_append_facts after_def)
qed

subsection \<open>Expiry\<close>

lemma expired_iff:
  assumes "unat created + unat ttl < 2 ^ 64"
  shows "is_expired (sp_new data flags ttl n created) now \<longleftrightarrow> ttl \<noteq> 0 \<and> unat created + unat ttl \<le> unat now"
proof -
  have u: "unat (ucast ttl :: u64) = unat ttl" by transfer simp
  then have "unat (created + ucast ttl) = unat created + unat ttl"
    using assms by (subst unat_add_lem [THEN iffD1]) simp_all
  then show ?thesis by (simp add: is_expired_def sp_new_def word_le_nat_alt)
qed

text \<open>C20: After a set, a get of the key returns the data with its flags and length until the
  time to live has passed since the set, for ever if it is 0, and nothing from then on; the sum
  of the time of the set and the time to live must be below 2 to the 64.\<close>

theorem set_then_get:
  assumes "db_rel S dm H" "accepted S clock (Setter Set k flags ttl (length data) data r) H"
    and "unat (clock 0) + unat ttl < 2 ^ 64"
  shows "\<exists>dm1 dm2. store_apply S clock (Setter Set k flags ttl (length data) data r) dm = Some (Inr (Stored, dm1)) \<and>
     store_apply S clock' (Getter Get [k]) dm1 = Some (Inr (Resp_Get
       (if ttl = 0 \<or> unat (clock' 0) < unat (clock 0) + unat ttl
        then [\<lparr>ri_key = k, ri_data = data, ri_flags = flags, ri_bytes = length data\<rparr>] else []), dm2))"
proof -
  let ?req = "Setter Set k flags ttl (length data) data r" and ?p = "sp_new data flags ttl (length data) (clock 0)"
  have d: "data_request ?req" by simp
  obtain dm1 where s: "store_apply S clock ?req dm = Some (Inr (Stored, dm1))" "db_rel S dm1 (H @ [(k, Some ?p)])"
    using store_apply_ok [OF assms(1) d assms(2)] by (auto simp: after_def simp del: store_apply.simps)
  have g: "data_request (Getter Get [k])" "accepted S clock' (Getter Get [k]) (H @ [(k, Some ?p)])" by (simp_all add: accepted_def)
  have "answer clock' (Getter Get [k]) (H @ [(k, Some ?p)]) = Resp_Get
       (if ttl = 0 \<or> unat (clock' 0) < unat (clock 0) + unat ttl
        then [\<lparr>ri_key = k, ri_data = data, ri_flags = flags, ri_bytes = length data\<rparr>] else [])"
    using expired_iff [OF assms(3), of data flags "length data" "clock' 0"] by (auto simp: sp_new_def)
  with store_apply_ok [OF s(2) g] s(1) show ?thesis by auto
qed

theorem set_then_get_witness:
  "\<exists>dm dm1 dm2. store_apply demo_server (\<lambda>_. 0) demo_set dm = Some (Inr (Stored, dm1)) \<and>
     store_apply demo_server (\<lambda>_. 5) (Getter Get [[97]]) dm1 =
       Some (Inr (Resp_Get [\<lparr>ri_key = [97], ri_data = [7], ri_flags = 0, ri_bytes = 1\<rparr>], dm2))"
proof -
  obtain dm where dm: "db_rel demo_server dm []" "accepted demo_server (\<lambda>_. 0) demo_set []" by (rule demo_set_accepted) (rule that)
  from set_then_get [of demo_server dm "[]" "\<lambda>_. 0" "[97]" 0 0 "[7]" False "\<lambda>_. 5"] dm show ?thesis
    by (auto simp: demo_set_def simp del: store_apply.simps)
qed

subsection \<open>From bytes to bytes\<close>

text \<open>The parser only makes keys the tables can hold; what is left to ask of a write is room.\<close>

definition valid_history :: "history \<Rightarrow> bool" where
  "valid_history H \<longleftrightarrow> (\<forall>h \<in> set H. valid_key (fst h))"

definition fits :: "('f, 'c) server_libs \<Rightarrow> history \<Rightarrow> bytes \<Rightarrow> store_payload option \<Rightarrow> bool" where
  "fits S H k v \<longleftrightarrow>
     (\<exists>b. serialize_value S v = Inr b \<and> loggable (tlibs S) (k, b) \<and>
        (\<forall>W. list_all2 (encoded S) W H \<longrightarrow> enc_size (W @ [(k, b)]) < u32_bound))"

definition request_fits :: "('f, 'c) server_libs \<Rightarrow> (nat \<Rightarrow> u64) \<Rightarrow> request \<Rightarrow> history \<Rightarrow> bool" where
  "request_fits S clock req H \<longleftrightarrow>
     (case written clock req H of None \<Rightarrow> True | Some (k, p) \<Rightarrow> fits S H k p) \<and>
     (case req of Deleter k _ \<Rightarrow> fits S H k None | _ \<Rightarrow> True)"

lemma valid_keys_writes_ok:
  assumes "\<forall>k \<in> fst ` set W. valid_key k" "enc_size W < u32_bound"
  shows "writes_ok W"
proof -
  have "a @ [0] \<notin> fst ` set W" for a
  proof
    assume "a @ [0] \<in> fst ` set W"
    then have "valid_key (a @ [0])" using assms(1) by blast
    then show False by (simp add: valid_key_def key_stops_def)
  qed
  moreover have "keys_nonempty W" using assms(1) by (auto simp: keys_nonempty_def valid_key_def)
  ultimately show ?thesis using assms(2) by (simp add: writes_ok_def)
qed

lemma fits_accepts:
  assumes "fits S H k v" "valid_history H" "valid_key k"
  shows "db_accepts S H k v"
proof -
  have "writes_ok (W @ [(k, b)])" if "list_all2 (encoded S) W H" "enc_size (W @ [(k, b)]) < u32_bound" for W b
  proof (rule valid_keys_writes_ok [OF _ that(2)])
    have "map fst W = map fst H" using that(1) by (induction rule: list_all2_induct) (auto simp: encoded_def)
    then have "fst ` set W = fst ` set H" by (metis set_map)
    then show "\<forall>k \<in> fst ` set (W @ [(k, b)]). valid_key k" using assms(2,3) by (auto simp: valid_history_def)
  qed
  then show ?thesis using assms(1) unfolding fits_def db_accepts_def by blast
qed

lemma written_key: "written clock req H = Some (k, p) \<Longrightarrow> typed_request req \<Longrightarrow> valid_key k"
  by (cases req) (auto split: if_splits)

lemma request_fits_accepted: "request_fits S clock req H \<Longrightarrow> valid_history H \<Longrightarrow> typed_request req \<Longrightarrow> accepted S clock req H"
  using written_key [of clock req H] fits_accepts
  by (auto simp: request_fits_def accepted_def split: option.splits request.splits)

lemma valid_history_after: "valid_history H \<Longrightarrow> typed_request req \<Longrightarrow> valid_history (after clock req H)"
  using written_key [of clock req H] by (auto simp: valid_history_def after_def split: option.splits)

text \<open>The text of the responses there are to requests for data and compactions.\<close>

definition item_text :: "get_resp_item \<Rightarrow> bytes" where
  "item_text v = bstr ''VALUE '' @ ri_key v @ bstr '' '' @ number (unat (ri_flags v)) @ bstr '' '' @ number (ri_bytes v) @ CRLF @
     ri_data v @ CRLF"

fun reply_text :: "response \<Rightarrow> bytes" where
  "reply_text Stored = bstr ''STORED'' @ CRLF"
| "reply_text NotStored = bstr ''NOT_STORED'' @ CRLF"
| "reply_text Resp_NotFound = bstr ''NOT_FOUND'' @ CRLF"
| "reply_text Deleted = bstr ''DELETED'' @ CRLF"
| "reply_text Resp_Ok = bstr ''OK'' @ CRLF"
| "reply_text Resp_Error = bstr ''ERROR'' @ CRLF"
| "reply_text (ClientError e) = bstr ''CLIENT_ERROR '' @ bstr e @ CRLF"
| "reply_text (Resp_Get vs) = concat (map item_text vs) @ bstr ''END'' @ CRLF"
| "reply_text (Resp_Gets vs) = concat (map item_text vs) @ bstr ''END'' @ CRLF"
| "reply_text _ = []"

text \<open>The keys of the items a response lists.\<close>

fun listed_keys :: "response \<Rightarrow> bytes set" where
  "listed_keys (Resp_Get vs) = ri_key ` set vs"
| "listed_keys (Resp_Gets vs) = ri_key ` set vs"
| "listed_keys _ = {}"

lemma write_items_result:
  "write_items vs w = (if \<forall>v \<in> set vs. utf8_valid (ri_key v) then Some (w @ concat (map item_text vs)) else None)"
  by (induction vs arbitrary: w) (simp_all add: to_str_def bw_write_def item_text_def number_def Let_def)

lemma encode_answer:
  "codec_encode (answer clock req H) out =
     (if \<forall>k \<in> listed_keys (answer clock req H). utf8_valid k then Some (out @ reply_text (answer clock req H)) else None)"
proof (cases req)
  case (Getter t ks)
  then show ?thesis by (cases t) (simp_all add: codec_encode_def write_get_def bw_write_def write_items_result)
qed (simp_all add: codec_encode_def bw_write_def)

lemma get_items_keys: "ri_key ` set (get_items m clock i ks) \<subseteq> set ks"
  by (induction ks arbitrary: i) (auto split: option.splits)

lemma listed_keys_asked: "listed_keys (answer clock (Getter t ks) H) \<subseteq> set ks"
  using get_items_keys by (cases t) simp_all

lemma get_items_listed:
  "j < length ks \<Longrightarrow> m (ks ! j) = Some p \<Longrightarrow> \<not> is_expired p (clock (i + j)) \<Longrightarrow> ks ! j \<in> ri_key ` set (get_items m clock i ks)"
proof (induction ks arbitrary: i j)
  case (Cons k ks)
  show ?case
  proof (cases j)
    case 0
    then show ?thesis using Cons.prems by simp
  next
    case (Suc j')
    then have "ks ! j' \<in> ri_key ` set (get_items m clock (Suc i) ks)" using Cons.prems Cons.IH [of j' "Suc i"] by simp
    then show ?thesis using Suc by auto
  qed
qed simp

text \<open>C18: Whatever a client sends, each request the codec makes of it, other than the two
  administrative ones, is answered by the service without a panic, and the answer is the one of
  the history, as long as there is room for what it writes.  Nothing is asked of the keys for
  that: those of a decoded request are never empty and have no zero byte, so a history made of such
  requests keeps clear of the keys a table cannot find, and stays so.  A decoded storage command
  never has a block shorter than it announces.  The answer is then written as the text it stands
  for exactly when every key it lists is UTF-8; it panics otherwise, which only an answer to a
  retrieval of a stored key that is not UTF-8 can do.\<close>

theorem decoded_requests_answered:
  assumes "db_rel S dm H" "valid_history H" "codec_decode src = Some (Some req, rest)" "req \<noteq> Req_Info" "req \<noteq> MajorCompaction"
    and "request_fits S clock req H"
  shows "\<exists>dm'. server_call S clock req dm = Some (answer clock req H, Some dm') \<and> db_rel S dm' (after clock req H) \<and>
     valid_history (after clock req H) \<and>
     codec_encode (answer clock req H) out =
       (if \<forall>k \<in> listed_keys (answer clock req H). utf8_valid k then Some (out @ reply_text (answer clock req H)) else None)"
proof -
  obtain r where "parse src = Some r" using request_parser.total by blast
  then have t: "typed_request req" using assms(3) parsed_typed [of src] by (cases r) (auto simp: codec_decode_def)
  have d: "data_request req" using t assms(4,5) by (cases req) auto
  from store_apply_ok [OF assms(1) d request_fits_accepted [OF assms(6,2) t]] valid_history_after [OF assms(2) t] show ?thesis
    by (auto simp: server_call_def encode_answer)
qed

lemma demo_set_fits: "accepted demo_server (\<lambda>_. 0) demo_set [] \<Longrightarrow> request_fits demo_server (\<lambda>_. 0) demo_set []"
  by (auto simp: accepted_def request_fits_def db_accepts_def fits_def writes_ok_def demo_set_facts(2)) (simp add: demo_set_def)

lemma number_1: "number (Suc 0) = [49]"
  by (simp add: number_def show_nat.simps [of "Suc 0"] digit_char_def bstr_def)

theorem decoded_requests_answered_witness:
  "\<exists>dm dm'. server_call demo_server (\<lambda>_. 0) demo_set dm = Some (Stored, Some dm') \<and> db_rel demo_server dm' demo_history \<and>
     codec_encode Stored [] = Some (bstr ''STORED'' @ CRLF)"
proof -
  obtain dm where dm: "db_rel demo_server dm []" "accepted demo_server (\<lambda>_. 0) demo_set []" by (rule demo_set_accepted) (rule that)
  note r = demo_set_fits [OF dm(2)]
  have "valid_request demo_set" by (simp add: demo_set_def valid_key_def key_stops_def)
  from parse_text [OF this, of "[]"] have "codec_decode (request_text demo_set @ []) = Some (Some demo_set, [])" by (rule codec_decode_Ok)
  from decoded_requests_answered [OF dm(1) _ this _ _ r, of "[]"] show ?thesis
    by (auto simp: demo_set_facts(3,4) valid_history_def) (auto simp: demo_set_def)
qed

end
