(* ===== verification/Background.thy ===== *)
theory Background
  imports Dm_Major_Total Dm_Db
begin

text \<open>
  The two background threads of the data manager (\<open>DataManager::background_thread\<close>): each loops
  for ever over one compaction, whose error would be unwrapped into a panic, and a pause.  Here
  their rounds come in any order, one at a time; the steps of \<open>Dm_System\<close> interleave the parts of
  a round with everything else.  It is shown that no round panics and that the rounds change
  nothing a reader sees.
\<close>

datatype bg_thread = Major_thread | Minor_thread

fun bg_round :: "('f, 'c) server_libs \<Rightarrow> bg_thread \<Rightarrow> ('f, 'c) data_manager \<Rightarrow> ('f, 'c) data_manager option" where
  "bg_round S Major_thread dm = unwrap (major_compaction S dm)"
| "bg_round S Minor_thread dm = unwrap (minor_compaction S dm)"

text \<open>The rounds of both threads in the order they happen.\<close>

fun background :: "('f, 'c) server_libs \<Rightarrow> bg_thread list \<Rightarrow> ('f, 'c) data_manager \<Rightarrow> ('f, 'c) data_manager option" where
  "background S [] dm = Some dm"
| "background S (t # ts) dm = do { dm' \<leftarrow> bg_round S t dm; background S ts dm' }"

text \<open>The crates serve the keys of a history.\<close>

definition serves :: "('f, 'c) server_libs \<Rightarrow> history \<Rightarrow> bool" where
  "serves S H \<longleftrightarrow> crates_serve (tlibs S) (fst ` set H) \<and> (\<forall>m. \<exists>y. serialize_manifest S m = Inr y)"

lemma encoded_keys: "list_all2 (encoded S) W H \<Longrightarrow> map fst W = map fst H"
  by (induction rule: list_all2_induct) (auto simp: encoded_def)

lemma serves_writes: "serves S H \<Longrightarrow> list_all2 (encoded S) W H \<Longrightarrow> server_serves S W"
  using arg_cong [OF encoded_keys, of S W H set] by (simp add: serves_def server_serves_def)

lemma serves_mono: "serves S H \<Longrightarrow> set H' \<subseteq> set H \<Longrightarrow> serves S H'"
  using crates_serve_mono [OF _ image_mono, of "tlibs S" fst "set H" "set H'"] by (auto simp: serves_def)

text \<open>A round may take a file number and a reader for each write, and one more.\<close>

lemma compactions_at:
  assumes d: "db_at S mi ma (k + n) dm H" and s: "serves S H" and k: "length H < k"
  shows "ma = None \<Longrightarrow> \<exists>dm'. major_compaction S dm = Some (Inr dm') \<and> db_at S mi None n dm' H"
    and "mi = None \<Longrightarrow> \<exists>dm'. minor_compaction S dm = Some (Inr dm') \<and> db_at S None ma n dm' H"
proof -
  let ?opt = "dm_opt dm"
  have S: "server_libs_ok S" and o: "opt_ok ?opt" "0 < max_level ?opt" using d by (simp_all add: db_at_def)
  obtain W where r: "room (k + n) dm" "reaches S ?opt dm mi ma W" "list_all2 (encoded S) W H" using d by (rule db_atE) (rule that)
  note sv = serves_writes [OF s r(3)]
  have len: "length W < k" using list_all2_lengthD [OF r(3)] k by simp
  show "\<exists>dm'. major_compaction S dm = Some (Inr dm') \<and> db_at S mi None n dm' H" if "ma = None"
  proof -
    have "room (length W + 1 + n) dm" by (rule room_le [OF r(1)]) (use len in simp)
    then show ?thesis
      using major_reaches [OF S sv o, of dm mi n] r(2) that db_at_reaches(1) [OF S o _ r(3)] by blast
  qed
  show "\<exists>dm'. minor_compaction S dm = Some (Inr dm') \<and> db_at S None ma n dm' H" if "mi = None"
  proof -
    have "length (ml_tables (dm_imm dm)) \<le> length W" using memtables_bound [OF S o] r(2) that by blast
    then have "room (length (ml_tables (dm_imm dm)) + n) dm" by (intro room_le [OF r(1)]) (use len in simp)
    then show ?thesis
      using minor_reaches [OF S sv o, of dm ma n] r(2) that db_at_reaches(1) [OF S o _ r(3)] by blast
  qed
qed

lemma background_at:
  "db_at S None None (length ts * k + n) dm H \<Longrightarrow> serves S H \<Longrightarrow> length H < k \<Longrightarrow>
   \<exists>dm'. background S ts dm = Some dm' \<and> db_at S None None n dm' H"
proof (induction ts arbitrary: dm)
  case (Cons t ts)
  have d: "db_at S None None (k + (length ts * k + n)) dm H" using Cons.prems(1) by (simp add: algebra_simps)
  obtain dm1 where "bg_round S t dm = Some dm1" "db_at S None None (length ts * k + n) dm1 H"
    using compactions_at [OF d Cons.prems(2,3)] by (cases t) auto
  then show ?case using Cons.IH [OF _ Cons.prems(2,3)] by simp
qed simp

end
