(* ===== verification/Connection.thy ===== *)
theory Connection
  imports Store_Props Background
begin

text \<open>
  A client's connection: the framed transport of \<open>proto.rs\<close> decodes requests from the bytes that
  have arrived, hands each to the service and appends the encoded response to the bytes to send,
  until the decoder asks for more.  Before each request the background threads may have done any
  number of rounds.  The loop runs over one buffer that holds all the text; text that arrives in
  several reads is not covered, and a storage command cut after its key is not waited for
  (see \<open>Protocol_Props\<close>).  It is shown that the loop ends, and that the text a client sends is answered
  by the text the history of writes calls for, whatever the background threads do.
\<close>

subsection \<open>The loop\<close>

text \<open>\<open>clock i\<close> is the clock of the \<open>i\<close>-th request and \<open>bg i\<close> are the rounds before it.  After an
  error the state is not followed.\<close>

function session ::
  "('f, 'c) server_libs \<Rightarrow> (nat \<Rightarrow> nat \<Rightarrow> u64) \<Rightarrow> (nat \<Rightarrow> bg_thread list) \<Rightarrow> nat \<Rightarrow> bytes \<Rightarrow> bytes \<Rightarrow> ('f, 'c) data_manager \<Rightarrow>
   (bytes \<times> bytes \<times> ('f, 'c) data_manager option) option" where
  "session S clock bg i src out dm = do {
     dm1 \<leftarrow> background S (bg i) dm;
     (q, src') \<leftarrow> codec_decode src;
     case q of
       None \<Rightarrow> Some (src', out, Some dm1)
     | Some req \<Rightarrow> do {
         (resp, dm2) \<leftarrow> server_call S (clock i) req dm1;
         out' \<leftarrow> codec_encode resp out;
         case dm2 of
           None \<Rightarrow> Some (src', out', None)
         | Some dm3 \<Rightarrow> session S clock bg (Suc i) src' out' dm3
       }
   }"
  by pat_completeness auto
termination
  by (relation "measure (\<lambda>(S, clock, bg, i, src, out, dm). length src)") (auto dest: decode_shorter)

declare session.simps [simp del]

subsection \<open>What a conversation means\<close>

fun reply :: "(nat \<Rightarrow> u64) \<Rightarrow> request \<Rightarrow> history \<Rightarrow> response" where
  "reply clock MajorCompaction H = Resp_Ok"
| "reply clock req H = answer clock req H"

fun session_history :: "(nat \<Rightarrow> nat \<Rightarrow> u64) \<Rightarrow> nat \<Rightarrow> request list \<Rightarrow> history \<Rightarrow> history" where
  "session_history clock i [] H = H"
| "session_history clock i (r # rs) H = session_history clock (Suc i) rs (after (clock i) r H)"

fun session_output :: "(nat \<Rightarrow> nat \<Rightarrow> u64) \<Rightarrow> nat \<Rightarrow> request list \<Rightarrow> history \<Rightarrow> bytes" where
  "session_output clock i [] H = []"
| "session_output clock i (r # rs) H =
     reply_text (reply (clock i) r H) @ session_output clock (Suc i) rs (after (clock i) r H)"

text \<open>Well-formed requests, each with room for what it writes; the keys that are read are UTF-8.\<close>

fun readable :: "request \<Rightarrow> bool" where
  "readable (Getter t ks) \<longleftrightarrow> (\<forall>k \<in> set ks. utf8_valid k)"
| "readable req \<longleftrightarrow> req \<noteq> Req_Info"

fun session_ok :: "('f, 'c) server_libs \<Rightarrow> (nat \<Rightarrow> nat \<Rightarrow> u64) \<Rightarrow> nat \<Rightarrow> request list \<Rightarrow> history \<Rightarrow> bool" where
  "session_ok S clock i [] H \<longleftrightarrow> True"
| "session_ok S clock i (r # rs) H \<longleftrightarrow>
     valid_request r \<and> readable r \<and> request_fits S (clock i) r H \<and> session_ok S clock (Suc i) rs (after (clock i) r H)"

text \<open>How many compactions there may be.\<close>

fun session_rounds :: "(nat \<Rightarrow> bg_thread list) \<Rightarrow> nat \<Rightarrow> request list \<Rightarrow> nat" where
  "session_rounds bg i [] = length (bg i)"
| "session_rounds bg i (r # rs) = length (bg i) + (1 + session_rounds bg (Suc i) rs)"

subsection \<open>One request\<close>

lemma encode_reply:
  "codec_encode (reply clock req H) out =
     (if \<forall>k \<in> listed_keys (reply clock req H). utf8_valid k then Some (out @ reply_text (reply clock req H)) else None)"
proof (cases "req = MajorCompaction")
  case False
  then have "reply clock req H = answer clock req H" by (cases req) simp_all
  then show ?thesis using encode_answer by simp
qed (simp add: codec_encode_def bw_write_def)

lemma readable_reply: "readable req \<Longrightarrow> k \<in> listed_keys (reply clock req H) \<Longrightarrow> utf8_valid k"
  using listed_keys_asked by (cases req) (fastforce split: if_splits)+

lemma valid_typed: "valid_request r \<Longrightarrow> typed_request r"
  by (cases r) auto

lemma call_at:
  assumes d: "db_at S None None (k + n) dm H" and s: "serves S H" and k: "length H < k" and h: "valid_history H"
    and r: "valid_request r" "r \<noteq> Req_Info" "request_fits S clock r H"
  shows "\<exists>dm'. server_call S clock r dm = Some (reply clock r H, Some dm') \<and> db_at S None None n dm' (after clock r H)"
proof (cases "r = MajorCompaction")
  case True
  from compactions_at(1) [OF d s k] obtain dm' where "major_compaction S dm = Some (Inr dm')" "db_at S None None n dm' H" by blast
  then show ?thesis using True by (simp add: server_call_def after_def)
next
  case False
  have t: "typed_request r" by (rule valid_typed [OF r(1)])
  have q: "data_request r" using r(1,2) False by (cases r) auto
  have d': "db_at S None None n dm H" by (rule db_at_le [OF d]) simp
  have "reply clock r H = answer clock r H" using False by (cases r) auto
  then show ?thesis
    using store_apply_at [OF d' q request_fits_accepted [OF r(3) h t]] by (auto simp: server_call_def)
qed

text \<open>One turn of the loop on a well-formed request.\<close>

lemma session_turn:
  assumes d: "db_at S None None ((length (bg i) + 1) * k + n) dm H" and s: "serves S H" "length H < k" "valid_history H"
    and r: "valid_request r" "r \<noteq> Req_Info" "request_fits S (clock i) r H"
  obtains dm' where "db_at S None None n dm' (after (clock i) r H)"
    "session S clock bg i (request_text r @ text) out dm =
       do { out' \<leftarrow> codec_encode (reply (clock i) r H) out; session S clock bg (Suc i) text out' dm' }"
proof -
  obtain dm1 where b: "background S (bg i) dm = Some dm1" "db_at S None None (k + n) dm1 H"
    using background_at [of S "bg i" k "k + n" dm H] d s by (auto simp: algebra_simps)
  obtain dm2 where c: "server_call S (clock i) r dm1 = Some (reply (clock i) r H, Some dm2)"
    "db_at S None None n dm2 (after (clock i) r H)"
    using call_at [OF b(2) s r] by blast
  have "codec_decode (request_text r @ text) = Some (Some r, text)"
    using parse_text [OF r(1)] by (intro codec_decode_Ok) simp
  then show ?thesis using c(2) by (rule_tac that) (auto simp: session.simps [of S clock bg i "request_text r @ text"] b(1) c(1))
qed

lemma history_grows: "set H \<subseteq> set (session_history clock i rs H)" "length H \<le> length (session_history clock i rs H)"
proof -
  have a: "set H \<subseteq> set (after c r H)" "length H \<le> length (after c r H)" for c r H by (auto simp: after_def split: option.splits)
  show "set H \<subseteq> set (session_history clock i rs H)"
  proof (induction rs arbitrary: i H)
    case (Cons r rs)
    have "set (after (clock i) r H) \<subseteq> set (session_history clock i (r # rs) H)" using Cons.IH by simp
    with a(1) show ?case by (rule order_trans)
  qed simp
  show "length H \<le> length (session_history clock i rs H)"
  proof (induction rs arbitrary: i H)
    case (Cons r rs)
    have "length (after (clock i) r H) \<le> length (session_history clock i (r # rs) H)" using Cons.IH by simp
    with a(2) show ?case by (rule order_trans)
  qed simp
qed

subsection \<open>The conversation\<close>

lemma session_prefix:
  "db_at S None None (session_rounds bg i rs * k + n) dm H \<Longrightarrow> serves S (session_history clock i rs H) \<Longrightarrow>
    length (session_history clock i rs H) < k \<Longrightarrow> valid_history H \<Longrightarrow> session_ok S clock i rs H \<Longrightarrow>
    \<exists>dm'. session S clock bg i (concat (map request_text rs) @ text) out dm =
        session S clock bg (i + length rs) text (out @ session_output clock i rs H) dm' \<and>
      db_at S None None (length (bg (i + length rs)) * k + n) dm' (session_history clock i rs H) \<and>
      valid_history (session_history clock i rs H)"
proof (induction rs arbitrary: i H out dm)
  case Nil
  then show ?case by auto
next
  case (Cons r rs)
  let ?H = "after (clock i) r H" and ?text = "concat (map request_text rs) @ text"
  have sv: "serves S H" by (rule serves_mono [OF Cons.prems(2)]) (rule history_grows)
  have k: "length H < k" using history_grows(2) [of H clock i "r # rs"] Cons.prems(3) by simp
  have v: "valid_request r" "readable r" "request_fits S (clock i) r H" "session_ok S clock (Suc i) rs ?H" using Cons.prems(5) by simp_all
  have d: "db_at S None None ((length (bg i) + 1) * k + (session_rounds bg (Suc i) rs * k + n)) dm H"
    using Cons.prems(1) by (simp add: algebra_simps)
  have q: "r \<noteq> Req_Info" using v(2) by auto
  obtain dm2 where c: "db_at S None None (session_rounds bg (Suc i) rs * k + n) dm2 ?H"
    "session S clock bg i (request_text r @ ?text) out dm =
       do { out' \<leftarrow> codec_encode (reply (clock i) r H) out; session S clock bg (Suc i) ?text out' dm2 }"
    by (rule session_turn [where bg = bg and i = i and clock = clock, OF d sv k Cons.prems(4) v(1) q v(3)]) (rule that)
  have "valid_history ?H" by (rule valid_history_after [OF Cons.prems(4) valid_typed [OF v(1)]])
  from Cons.IH [OF c(1) _ _ this v(4), of "out @ reply_text (reply (clock i) r H)"] Cons.prems(2,3) c(2)
  show ?case using readable_reply [OF v(2)] by (simp add: encode_reply)
qed

lemma session_at:
  assumes t: "codec_decode tail = Some (None, tail)"
    and d: "db_at S None None (session_rounds bg i rs * k + n) dm H" "serves S (session_history clock i rs H)"
      "length (session_history clock i rs H) < k" "valid_history H" "session_ok S clock i rs H"
  shows "\<exists>dm'. session S clock bg i (concat (map request_text rs) @ tail) out dm =
        Some (tail, out @ session_output clock i rs H, Some dm') \<and> db_at S None None n dm' (session_history clock i rs H)"
proof -
  let ?i = "i + length rs"
  obtain dm1 where p: "session S clock bg i (concat (map request_text rs) @ tail) out dm =
        session S clock bg ?i tail (out @ session_output clock i rs H) dm1"
    "db_at S None None (length (bg ?i) * k + n) dm1 (session_history clock i rs H)"
    using session_prefix [OF d, of tail out] by blast
  obtain dm2 where "background S (bg ?i) dm1 = Some dm2" "db_at S None None n dm2 (session_history clock i rs H)"
    using background_at [OF p(2) d(2,3)] by blast
  then show ?thesis using t p(1) by (simp add: session.simps [of S clock bg ?i tail])
qed

text \<open>C3: A whole conversation.  Whatever number of well-formed requests is in the buffer, one after
  the other and followed by a part of another that the decoder waits for, and whatever rounds the background threads do
  between them, the connection answers every request with the text the history of writes calls
  for, in order, leaves the part that is not complete, and makes the history the requests stand
  for.  There must be room for what is written and for the files of the compactions, the crates
  must serve the keys, and the keys that are read must be UTF-8.\<close>

theorem conversation_answered:
  assumes "db_at S None None (session_rounds bg 0 rs * Suc (length (session_history clock 0 rs H))) dm H"
    and "serves S (session_history clock 0 rs H)" "valid_history H" "session_ok S clock 0 rs H"
    and "codec_decode tail = Some (None, tail)"
  shows "\<exists>dm'. session S clock bg 0 (concat (map request_text rs) @ tail) out dm =
        Some (tail, out @ session_output clock 0 rs H, Some dm') \<and> db_rel S dm' (session_history clock 0 rs H)"
  using session_at [OF assms(5), of S bg 0 rs "Suc (length (session_history clock 0 rs H))" 0 dm H clock out] assms(1-4) db_relI
  by auto

theorem conversation_answered_witness:
  "\<exists>dm dm'. session demo_server (\<lambda>_ _. 0) (\<lambda>_. [Minor_thread, Major_thread]) 0
      (bstr ''set a 0 0 1'' @ CRLF @ [7] @ CRLF @ bstr ''get a'' @ CRLF @ bstr ''ge'') [] dm =
    Some (bstr ''ge'', bstr ''STORED'' @ CRLF @ bstr ''VALUE a 0 1'' @ CRLF @ [7] @ CRLF @ bstr ''END'' @ CRLF, Some dm')"
proof -
  let ?rs = "[demo_set, Getter Get [[97]]]" and ?clock = "\<lambda>(_ :: nat) (_ :: nat). 0 :: u64" and ?bg = "\<lambda>_ :: nat. [Minor_thread, Major_thread]"
  obtain dm where dm: "reaches demo_server server_options_default dm None None []" "\<And>n. n < usize_bound \<Longrightarrow> room n dm"
    by (rule demo_start) (rule that)
  have h: "session_history ?clock 0 ?rs [] = demo_history" by (simp add: demo_set_facts(4)) (simp add: after_def)
  have d: "db_at demo_server None None (session_rounds ?bg 0 ?rs * Suc (length (session_history ?clock 0 ?rs []))) dm []"
    unfolding h by (rule db_at_reaches(1) [OF demo_server_ok demo_options dm(1)]) (simp, rule dm(2), simp)
  have s: "serves demo_server (session_history ?clock 0 ?rs [])"
    using demo_server_serves [of demo_writes] unfolding h by (simp add: serves_def server_serves_def)
  have a: "accepted demo_server (\<lambda>_. 0) demo_set []" by (rule demo_set_accepted)
  have v: "valid_request demo_set" "readable demo_set" by (simp_all add: demo_set_def valid_key_def key_stops_def)
  have g: "valid_request (Getter Get [[97]])" "readable (Getter Get [[97]])" "request_fits demo_server (\<lambda>_. 0) (Getter Get [[97]]) H" for H
    by (simp_all add: valid_key_def key_stops_def utf8_head_def request_fits_def)
  have k: "session_ok demo_server ?clock 0 ?rs []"
    using demo_set_fits [OF a] v g by (simp del: valid_request.simps readable.simps)
  have t: "codec_decode (bstr ''ge'') = Some (None, bstr ''ge'')" by code_simp
  have x: "concat (map request_text ?rs) @ bstr ''ge'' = bstr ''set a 0 0 1'' @ CRLF @ [7] @ CRLF @ bstr ''get a'' @ CRLF @ bstr ''ge''"
    by (simp add: demo_set_def number_eval number_1 noreply_text_def bstr_def)
  have r: "reply (\<lambda>_. 0) demo_set [] = Stored" using demo_set_facts(3) by (simp add: demo_set_def)
  have o: "session_output ?clock 0 ?rs [] = bstr ''STORED'' @ CRLF @ bstr ''VALUE a 0 1'' @ CRLF @ [7] @ CRLF @ bstr ''END'' @ CRLF"
    using demo_lookup by (simp add: r demo_set_facts(4)) (simp add: item_text_def demo_payload_def is_expired_def number_eval number_1 bstr_def)
  from conversation_answered [OF d s _ k t, of "[]", unfolded x o] show ?thesis by (auto simp: valid_history_def)
qed

subsection \<open>Keys that are not UTF-8\<close>

text \<open>C38: A key need not be UTF-8 to be stored, but once it is, a retrieval that finds it
  brings the connection down: whatever well-formed requests came before and whatever follows, the
  loop panics at the retrieval, while the key is converted for the response, so that the client
  gets no answer to any of the requests in the buffer from there on.\<close>

theorem non_utf8_key_panics:
  assumes "db_at S None None (session_rounds bg 0 (rs @ [Getter t ks]) * Suc (length (session_history clock 0 rs H))) dm H"
    and "serves S (session_history clock 0 rs H)" "valid_history H" "session_ok S clock 0 rs H" "valid_request (Getter t ks)"
    and "j < length ks" "db_lookup (session_history clock 0 rs H) (ks ! j) = Some p" "\<not> is_expired p (clock (length rs) j)"
    and "\<not> utf8_valid (ks ! j)"
  shows "session S clock bg 0 (concat (map request_text rs) @ request_text (Getter t ks) @ rest) out dm = None"
proof -
  let ?H = "session_history clock 0 rs H" and ?k = "Suc (length (session_history clock 0 rs H))" and ?n = "length rs"
  have r: "session_rounds bg i (rs @ [g]) = session_rounds bg i rs + 1 + length (bg (Suc (i + length rs)))" for i g
    by (induction rs arbitrary: i) simp_all
  have d: "db_at S None None (session_rounds bg 0 rs * ?k + ?k) dm H" by (rule db_at_le [OF assms(1)]) (simp add: r algebra_simps)
  obtain dm1 where p: "session S clock bg 0 (concat (map request_text rs) @ request_text (Getter t ks) @ rest) out dm =
      session S clock bg ?n (request_text (Getter t ks) @ rest) (out @ session_output clock 0 rs H) dm1"
    "db_at S None None (length (bg ?n) * ?k + ?k) dm1 ?H" "valid_history ?H"
    using session_prefix [OF d assms(2) _ assms(3,4), of "request_text (Getter t ks) @ rest" out] by auto
  have d1: "db_at S None None ((length (bg ?n) + 1) * ?k + 0) dm1 ?H" using p(2) by (simp add: algebra_simps)
  have f: "request_fits S (clock ?n) (Getter t ks) ?H" by (simp add: request_fits_def)
  have "ks ! j \<in> listed_keys (reply (clock ?n) (Getter t ks) ?H)"
    using get_items_listed [of j ks "db_lookup ?H" p "clock ?n" 0] assms(6-8) by (cases t) simp_all
  then have "codec_encode (reply (clock ?n) (Getter t ks) ?H) out' = None" for out' using assms(9) encode_reply by metis
  moreover obtain dm2 where "session S clock bg ?n (request_text (Getter t ks) @ rest) (out @ session_output clock 0 rs H) dm1 =
      do { out' \<leftarrow> codec_encode (reply (clock ?n) (Getter t ks) ?H) (out @ session_output clock 0 rs H);
        session S clock bg (Suc ?n) rest out' dm2 }"
    by (rule session_turn [where bg = bg and i = ?n and clock = clock, OF d1 assms(2) _ p(3) assms(5) _ f]) simp_all
  ultimately show ?thesis using p(1) by simp
qed

theorem non_utf8_key_panics_witness:
  "\<exists>dm. db_rel demo_server dm [] \<and>
     session demo_server (\<lambda>_ _. 0) (\<lambda>_. [Minor_thread, Major_thread]) 0
      (bstr ''set '' @ [255] @ bstr '' 0 0 1'' @ CRLF @ [7] @ CRLF @ bstr ''get '' @ [255] @ CRLF) [] dm = None"
proof -
  let ?set = "Setter Set [255] 0 0 1 [7] False" and ?get = "Getter Get [[255]]" and ?H = "[([255], Some demo_payload)]"
  let ?clock = "\<lambda>(_ :: nat) (_ :: nat). 0 :: u64" and ?bg = "\<lambda>_ :: nat. [Minor_thread, Major_thread]"
  obtain dm where dm: "reaches demo_server server_options_default dm None None []" "db_rel demo_server dm []" "\<And>n. n < usize_bound \<Longrightarrow> room n dm"
    by (rule demo_start) (rule that)
  have w: "written (\<lambda>_. 0) ?set [] = Some ([255], Some demo_payload)" by (simp add: demo_payload_def sp_new_def)
  then have h: "session_history ?clock 0 [?set] [] = ?H" by (simp add: after_def del: written.simps)
  have d: "db_at demo_server None None (session_rounds ?bg 0 ([?set] @ [?get]) * Suc (length (session_history ?clock 0 [?set] []))) dm []"
    unfolding h by (rule db_at_reaches(1) [OF demo_server_ok demo_options dm(1)]) (simp, rule dm(3), simp)
  have s: "serves demo_server (session_history ?clock 0 [?set] [])"
    using demo_server_serves [of "[([255], demo_bytes)]"] unfolding h by (simp add: serves_def server_serves_def)
  have f: "fits demo_server [] [255] (Some demo_payload)"
    using demo_value by (auto simp: fits_def demo_server_def demo_bytes_def enc_size_def)
  have "request_fits demo_server (\<lambda>_. 0) ?set []" using w f by (simp add: request_fits_def del: written.simps)
  then have k: "session_ok demo_server ?clock 0 [?set] []" by (simp add: valid_key_def key_stops_def)
  have g: "valid_request ?get" by (simp add: valid_key_def key_stops_def)
  have l: "db_lookup (session_history ?clock 0 [?set] []) ([[255]] ! 0) = Some demo_payload"
    using db_lookup_simps(2) [of "[]" "[255]" "Some demo_payload"] unfolding h by simp
  have x: "concat (map request_text [?set]) @ request_text ?get @ [] =
      bstr ''set '' @ [255] @ bstr '' 0 0 1'' @ CRLF @ [7] @ CRLF @ bstr ''get '' @ [255] @ CRLF"
    by (simp add: number_eval number_1 noreply_text_def bstr_def)
  from non_utf8_key_panics [OF d s _ k g _ l, of "[]" "[]"] dm(2) show ?thesis
    unfolding x by (auto simp: valid_history_def is_expired_def demo_payload_def utf8_head_def)
qed

end
