(* ===== verification/Service.thy ===== *)
theory Service
  imports Config Connection
begin

text \<open>
  The program (\<open>main.rs\<close>): reading the configuration, opening the store on the working directory
  and serving connections.  The command line, the files, the directories, the \<open>toml\<close> crate and
  the parser of socket addresses are arguments; the banner and the transport are left out.  It is
  shown that the program starts from every directory a server with the same options left, and
  serves the same data.
\<close>

subsection \<open>Starting\<close>

text \<open>The cache of blocks that the default options of tables come with.\<close>

definition block_cache_capacity :: nat where
  "block_cache_capacity = 8 * MB div (4 * KB)"

text \<open>What \<open>main\<close> does up to serving: the address to listen on and the store.\<close>

definition main_start ::
  "('f, 'c) server_libs \<Rightarrow> bool \<Rightarrow> (string \<Rightarrow> string + config) \<Rightarrow> (string \<Rightarrow> 'a option) \<Rightarrow>
   (string \<Rightarrow> bytes option) \<Rightarrow> (string \<Rightarrow> work_path) \<Rightarrow> string option \<Rightarrow> nat stream stream \<Rightarrow>
   (status, 'a \<times> ('f, 'c) data_manager) fallible" where
  "main_start S checks toml_from_str parse_addr files dirs arg rngs =
     (let conf_path = (case arg of None \<Rightarrow> ''default.conf'' | Some p \<Rightarrow> p) in
      tryO (from_path toml_from_str (files conf_path)) (\<lambda>conf. do {
        addr \<leftarrow> parse_addr (c_addr conf);
        tryO (to_options checks conf) (\<lambda>opt. do {
          c \<leftarrow> cache_new (tlibs S) block_cache_capacity;
          tryO (store_new S opt (dirs (work_dir opt)) c rngs) (\<lambda>dm. Some (Inr (addr, dm)))
        })
      }))"

subsection \<open>What a start finds\<close>

text \<open>A working directory that is not there yet, or one that a server with these options left at
  some point, with the history it holds.\<close>

definition dir_holds :: "('f, 'c) server_libs \<Rightarrow> server_options \<Rightarrow> work_path \<Rightarrow> history \<Rightarrow> bool" where
  "dir_holds S opt path H \<longleftrightarrow>
     path = Missing \<and> H = [] \<or>
     (\<exists>(dm :: ('f, 'c) data_manager) mi ma W. path = Directory (dm_fs dm) \<and> reaches S opt dm mi ma W \<and> list_all2 (encoded S) W H \<and>
        dm_next_file_number dm + length (segs (dm_wal dm)) < usize_bound \<and>
        length (concat (sr_readers (dm_readers dm))) + 2 * length (segs (dm_wal dm)) < usize_bound)"

lemma store_new_holds:
  assumes S: "server_libs_ok S" "serves S H" and o: "opt_ok opt" "0 < max_level opt"
    and d: "dir_holds S opt path H" and c: "cache_new (tlibs S) cap = Some c"
  shows "\<exists>dm. store_new S opt path c rngs = Some (Inr dm) \<and> dm_opt dm = opt \<and> db_at S None None 0 dm H"
proof -
  have "\<exists>dm W. store_new S opt path c rngs = Some (Inr dm) \<and> reaches S opt dm None None W \<and> list_all2 (encoded S) W H"
    using d unfolding dir_holds_def
  proof (elim disjE conjE exE)
    assume "path = Missing" "H = []"
    moreover obtain dm where "dm_new S opt [] c rngs = Some (Inr dm)" "reaches S opt dm None None []"
      using S(1) o c by (rule db_rel_start) (rule that)
    ultimately show ?thesis by (auto simp: store_new_def)
  next
    fix dm :: "('a, 'b) data_manager" and mi ma W
    assume p: "path = Directory (dm_fs dm)" and r: "reaches S opt dm mi ma W" and e: "list_all2 (encoded S) W H"
      and n: "dm_next_file_number dm + length (segs (dm_wal dm)) < usize_bound"
        "length (concat (sr_readers (dm_readers dm))) + 2 * length (segs (dm_wal dm)) < usize_bound"
    obtain dm' where "dm_new S opt (dm_fs dm) c rngs = Some (Inr dm')" "reaches S opt dm' None None W"
      using restart_reaches [OF S(1) serves_writes [OF S(2) e] o r c n] by blast
    then show ?thesis using p e by (auto simp: store_new_def)
  qed
  then obtain dm W where dm: "store_new S opt path c rngs = Some (Inr dm)" "reaches S opt dm None None W" "list_all2 (encoded S) W H" by blast
  have "dm_opt dm = opt" using reaches_inv [OF S(1) o dm(2)] by (simp add: sys_inv_def)
  with dm(1) db_at_reaches(2) [OF S(1) o dm(2,3)] show ?thesis by blast
qed

text \<open>C4: The program starts on every directory that is not there yet or that a server with the same
  options left at any point between its steps, given a configuration file that can be read with an
  address and sizes that are well formed, and serves the history the directory holds with the
  options of the file.\<close>

theorem main_serves_directory:
  assumes "server_libs_ok S" "serves S H" "dir_holds S opt (dirs (work_dir opt)) H"
    and "files (case arg of None \<Rightarrow> ''default.conf'' | Some p \<Rightarrow> p) = Some b" "utf8_valid b"
    and "toml_from_str (str_of b) = Inr conf" "parse_addr (c_addr conf) = Some a"
    and "to_options checks conf = Some (Inr opt)" "opt_ok opt" "0 < max_level opt"
  shows "\<exists>dm. main_start S checks toml_from_str parse_addr files dirs arg rngs = Some (Inr (a, dm)) \<and> dm_opt dm = opt \<and> db_rel S dm H"
proof -
  have "0 < block_cache_capacity" by (simp add: block_cache_capacity_def MB_def KB_def)
  then obtain c where c: "cache_new (tlibs S) block_cache_capacity = Some c" by (simp add: cache_new_def)
  obtain dm where dm: "store_new S opt (dirs (work_dir opt)) c rngs = Some (Inr dm)" "dm_opt dm = opt" "db_at S None None 0 dm H"
    using store_new_holds [OF assms(1,2,9,10,3) c] by blast
  have "from_path toml_from_str (files (case arg of None \<Rightarrow> ''default.conf'' | Some p \<Rightarrow> p)) = Some (Inr conf)"
    using assms(4-6) by (simp add: from_path_def)
  then have "main_start S checks toml_from_str parse_addr files dirs arg rngs = Some (Inr (a, dm))"
    using assms(7,8) c dm(1) by (simp add: main_start_def Let_def)
  with dm(2) db_relI [OF dm(3)] show ?thesis by blast
qed

text \<open>The concrete server, stopped after a write.\<close>

lemma demo_dir:
  assumes "opt_ok opt" "0 < max_level opt"
  obtains d where "dir_holds demo_server opt (Directory d) demo_history"
proof -
  obtain dm where d: "reaches demo_server opt dm None None demo_writes" "dm_next_file_number dm = 0"
    "length (segs (dm_wal dm)) \<le> 2" "length (concat (sr_readers (dm_readers dm))) = 0"
    using assms by (rule demo_written_with) (rule that)
  have "dm_next_file_number dm + length (segs (dm_wal dm)) < usize_bound"
    "length (concat (sr_readers (dm_readers dm))) + 2 * length (segs (dm_wal dm)) < usize_bound" using d(3) unfolding d(2,4) by simp_all
  then have "dir_holds demo_server opt (Directory (dm_fs dm)) demo_history" unfolding dir_holds_def using d(1) demo_encoded by blast
  then show ?thesis by (rule that)
qed

lemma demo_to_options:
  obtains opt where "to_options checks demo_config = Some (Inr opt)" "opt_ok opt" "0 < max_level opt"
proof -
  have u: "unit_of (CHR ''M'') = 2 ^ 20" "unit_of (CHR ''K'') = 2 ^ 10" by (simp_all add: unit_of_def unit_size_def)
  have "parse_size checks (bstr (size_text 100 (CHR ''M''))) = Some (Inr (100 * 2 ^ 20))"
    "parse_size checks (bstr (size_text 4 (CHR ''M''))) = Some (Inr (4 * 2 ^ 20))"
    "parse_size checks (bstr (size_text 4 (CHR ''K''))) = Some (Inr (4 * 2 ^ 10))"
    using parse_size_text [of "CHR ''M''" 100 checks] parse_size_text [of "CHR ''M''" 4 checks] parse_size_text [of "CHR ''K''" 4 checks] by (simp_all add: u)
  then show ?thesis using that by (simp add: to_options_def demo_config_def opt_ok_def Let_def)
qed

theorem main_serves_directory_witness:
  "\<exists>d dm. main_start demo_server True (\<lambda>_. Inr demo_config) Some (\<lambda>_. Some []) (\<lambda>_. Directory d) None (sconst (sconst 0)) =
      Some (Inr (c_addr demo_config, dm)) \<and> db_rel demo_server dm demo_history"
proof -
  obtain opt where o: "to_options True demo_config = Some (Inr opt)" "opt_ok opt" "0 < max_level opt" by (rule demo_to_options)
  obtain d where d: "dir_holds demo_server opt (Directory d) demo_history" using o(2,3) by (rule demo_dir)
  have s: "serves demo_server demo_history" using demo_server_serves [of demo_writes] by (simp add: serves_def server_serves_def)
  have "\<exists>dm. main_start demo_server True (\<lambda>_. Inr demo_config) Some (\<lambda>_. Some []) (\<lambda>_. Directory d) None (sconst (sconst 0)) =
      Some (Inr (c_addr demo_config, dm)) \<and> dm_opt dm = opt \<and> db_rel demo_server dm demo_history"
    by (rule main_serves_directory [where b = "[]", OF demo_server_ok s d _ _ _ _ o]) simp_all
  then show ?thesis by blast
qed

end
