(* ===== verification/Thread_Pool.thy ===== *)
theory Thread_Pool
  imports Prelude "HOL-Library.Multiset"
begin

text \<open>
  The thread pool (\<open>mirdb-server/src/thread_pool.rs\<close>): a channel of messages shared by worker
  threads.  The operations on the channel and the workers are functions; an inductive step
  relation interleaves the threads of the workers with the thread that owns the pool.  A job is
  a value; that it panics when it is called is a step of its worker.  An owner that panicked is
  not followed further.
\<close>

subsection \<open>The channel and the workers\<close>

datatype 'j message = NewJob 'j | Terminate

text \<open>Where the thread of a worker is: before the next message, in a job, after the loop, or
  dead because its job panicked.\<close>

datatype 'j worker = Receiving | Running 'j | Ended | Died 'j

record 'j pool =
  pl_workers :: "'j worker list"
  pl_queue :: "'j message list"

definition pool_new :: "nat \<Rightarrow> 'j pool" where
  "pool_new n = \<lparr>pl_workers = replicate n Receiving, pl_queue = []\<rparr>"

fun over :: "'j worker \<Rightarrow> bool" where
  "over Ended = True"
| "over (Died _) = True"
| "over _ = False"

text \<open>Sending fails, and its \<open>unwrap\<close> panics, when no worker holds the receiver any more.\<close>

definition send :: "'j message \<Rightarrow> 'j pool \<Rightarrow> 'j pool option" where
  "send m p = (if list_all over (pl_workers p) then None else Some (p\<lparr>pl_queue := pl_queue p @ [m]\<rparr>))"

definition execute :: "'j \<Rightarrow> 'j pool \<Rightarrow> 'j pool option" where
  "execute j p = send (NewJob j) p"

text \<open>One turn of the loop of worker \<open>i\<close>; \<open>None\<close> when it waits for a message.\<close>

definition worker_recv :: "nat \<Rightarrow> 'j pool \<Rightarrow> 'j pool option" where
  "worker_recv i p =
     (case (idx (pl_workers p) i, pl_queue p) of
        (Some Receiving, m # q) \<Rightarrow>
          Some (p\<lparr>pl_workers := (pl_workers p)[i := (case m of NewJob j \<Rightarrow> Running j | Terminate \<Rightarrow> Ended)], pl_queue := q\<rparr>)
      | _ \<Rightarrow> None)"

text \<open>The job of worker \<open>i\<close> returns, or panics.\<close>

definition job_over :: "bool \<Rightarrow> nat \<Rightarrow> 'j pool \<Rightarrow> 'j pool option" where
  "job_over panics i p =
     (case idx (pl_workers p) i of
        Some (Running j) \<Rightarrow> Some (p\<lparr>pl_workers := (pl_workers p)[i := (if panics then Died j else Receiving)]\<rparr>)
      | _ \<Rightarrow> None)"

text \<open>Waiting for worker \<open>i\<close>: whether its thread ended well, once it is over.\<close>

definition join :: "nat \<Rightarrow> 'j pool \<Rightarrow> bool option" where
  "join i p =
     (case idx (pl_workers p) i of
        Some Ended \<Rightarrow> Some True
      | Some (Died _) \<Rightarrow> Some False
      | _ \<Rightarrow> None)"

subsection \<open>The threads\<close>

text \<open>The owner uses the pool, or drops it: it sends the messages that end the workers, one after
  the other, and then joins the workers in order.\<close>

datatype owner = Using | Sending nat | Joining nat | Dropped | Panicked

record 'j system =
  sy_owner :: owner
  sy_pool :: "'j pool"
  sy_submitted :: "'j list"
  sy_started :: "'j list"
  sy_done :: "'j list"

definition sys_new :: "nat \<Rightarrow> 'j system" where
  "sys_new n = \<lparr>sy_owner = Using, sy_pool = pool_new n, sy_submitted = [], sy_started = [], sy_done = []\<rparr>"

abbreviation workers :: "'j system \<Rightarrow> 'j worker list" where
  "workers s \<equiv> pl_workers (sy_pool s)"

abbreviation queue :: "'j system \<Rightarrow> 'j message list" where
  "queue s \<equiv> pl_queue (sy_pool s)"

inductive pool_step :: "'j system \<Rightarrow> 'j system \<Rightarrow> bool" where
  Execute: "sy_owner s = Using \<Longrightarrow> execute j (sy_pool s) = Some p \<Longrightarrow>
    pool_step s (s\<lparr>sy_pool := p, sy_submitted := sy_submitted s @ [j]\<rparr>)"
| Execute_fails: "sy_owner s = Using \<Longrightarrow> execute j (sy_pool s) = None \<Longrightarrow> pool_step s (s\<lparr>sy_owner := Panicked\<rparr>)"
| Drop: "sy_owner s = Using \<Longrightarrow> pool_step s (s\<lparr>sy_owner := Sending (length (workers s))\<rparr>)"
| Send: "sy_owner s = Sending (Suc n) \<Longrightarrow> send Terminate (sy_pool s) = Some p \<Longrightarrow>
    pool_step s (s\<lparr>sy_owner := Sending n, sy_pool := p\<rparr>)"
| Send_fails: "sy_owner s = Sending (Suc n) \<Longrightarrow> send Terminate (sy_pool s) = None \<Longrightarrow> pool_step s (s\<lparr>sy_owner := Panicked\<rparr>)"
| Sent: "sy_owner s = Sending 0 \<Longrightarrow> pool_step s (s\<lparr>sy_owner := Joining 0\<rparr>)"
| Join: "sy_owner s = Joining i \<Longrightarrow> join i (sy_pool s) = Some ok \<Longrightarrow>
    pool_step s (s\<lparr>sy_owner := (if ok then Joining (Suc i) else Panicked)\<rparr>)"
| Joined: "sy_owner s = Joining (length (workers s)) \<Longrightarrow> pool_step s (s\<lparr>sy_owner := Dropped\<rparr>)"
| Recv: "worker_recv i (sy_pool s) = Some p \<Longrightarrow>
    pool_step s (s\<lparr>sy_pool := p, sy_started := sy_started s @ (case pl_workers p ! i of Running j \<Rightarrow> [j] | _ \<Rightarrow> [])\<rparr>)"
| Return: "idx (workers s) i = Some (Running j) \<Longrightarrow> job_over False i (sy_pool s) = Some p \<Longrightarrow>
    pool_step s (s\<lparr>sy_pool := p, sy_done := sy_done s @ [j]\<rparr>)"
| Panic: "job_over True i (sy_pool s) = Some p \<Longrightarrow> pool_step s (s\<lparr>sy_pool := p\<rparr>)"

inductive pool_reaches :: "nat \<Rightarrow> 'j system \<Rightarrow> bool" for n where
  New: "pool_reaches n (sys_new n)"
| Step: "pool_reaches n s \<Longrightarrow> pool_step s s' \<Longrightarrow> pool_reaches n s'"

subsection \<open>The invariant\<close>

fun jobs_of :: "'j message list \<Rightarrow> 'j list" where
  "jobs_of [] = []"
| "jobs_of (NewJob j # q) = j # jobs_of q"
| "jobs_of (Terminate # q) = jobs_of q"

definition ends :: "'j message list \<Rightarrow> nat" where
  "ends q = length (filter (\<lambda>m. m = Terminate) q)"

fun held :: "'j worker \<Rightarrow> 'j list" where
  "held (Running j) = [j]"
| "held (Died j) = [j]"
| "held _ = []"

definition running :: "'j worker list \<Rightarrow> 'j multiset" where
  "running ws = mset (concat (map held ws))"

definition ended :: "'j worker list \<Rightarrow> nat" where
  "ended ws = length (filter (\<lambda>w. w = Ended) ws)"

fun to_send :: "nat \<Rightarrow> owner \<Rightarrow> nat" where
  "to_send n Using = n"
| "to_send n (Sending k) = k"
| "to_send n _ = 0"

text \<open>Jobs start in the order they were submitted, and every started job is done, or held by one
  worker.  As many ends are ahead, in the channel and taken as there are workers; no job is
  behind an end.\<close>

definition pool_inv :: "nat \<Rightarrow> 'j system \<Rightarrow> bool" where
  "pool_inv n s \<longleftrightarrow>
     length (workers s) = n \<and>
     sy_submitted s = sy_started s @ jobs_of (queue s) \<and>
     mset (sy_started s) = mset (sy_done s) + running (workers s) \<and>
     (sy_owner s \<noteq> Panicked \<longrightarrow> to_send n (sy_owner s) + ends (queue s) + ended (workers s) = n) \<and>
     (sy_owner s = Using \<longrightarrow> ends (queue s) = 0) \<and>
     (\<exists>js k. queue s = map NewJob js @ replicate k Terminate) \<and>
     (jobs_of (queue s) \<noteq> [] \<longrightarrow> 0 < n \<and> ended (workers s) = 0) \<and>
     (\<forall>i. sy_owner s = Joining i \<longrightarrow> i \<le> n \<and> (\<forall>j < i. workers s ! j = Ended)) \<and>
     (sy_owner s = Dropped \<longrightarrow> (\<forall>j < n. workers s ! j = Ended))"

lemma running_update:
  "i < length ws \<Longrightarrow> running (ws[i := w]) + mset (held (ws ! i)) = running ws + mset (held w)"
  by (subst (3) id_take_nth_drop [of i ws]) (simp_all add: running_def upd_conv_take_nth_drop)

lemma ended_update:
  "i < length ws \<Longrightarrow> ended (ws[i := w]) + (if ws ! i = Ended then 1 else 0) = ended ws + (if w = Ended then 1 else 0)"
  by (subst (3) id_take_nth_drop [of i ws]) (simp_all add: ended_def upd_conv_take_nth_drop)

lemma jobs_of_append [simp]: "jobs_of (p @ q) = jobs_of p @ jobs_of q"
  by (induction p rule: jobs_of.induct) simp_all

lemma queue_shape [simp]:
  "jobs_of (map NewJob js) = js" "jobs_of (replicate k Terminate) = []"
  "ends (map NewJob js) = 0" "ends (replicate k Terminate) = k"
proof -
  show "jobs_of (map NewJob js) = js" by (induction js) simp_all
  show "jobs_of (replicate k Terminate) = []" by (induction k) simp_all
  show "ends (replicate k Terminate) = k" by (simp add: ends_def)
  show "ends (map NewJob js) = 0" by (auto simp: ends_def filter_empty_conv)
qed

lemma ends_simps [simp]:
  "ends [] = 0" "ends (p @ q) = ends p + ends q" "ends (NewJob j # q) = ends q" "ends (Terminate # q) = Suc (ends q)"
  by (simp_all add: ends_def)

lemma pool_invD:
  assumes "pool_inv n s"
  shows "length (workers s) = n" "sy_submitted s = sy_started s @ jobs_of (queue s)"
    "mset (sy_started s) = mset (sy_done s) + running (workers s)"
    "sy_owner s \<noteq> Panicked \<Longrightarrow> to_send n (sy_owner s) + ends (queue s) + ended (workers s) = n"
    "sy_owner s = Using \<Longrightarrow> ends (queue s) = 0" "\<exists>js k. queue s = map NewJob js @ replicate k Terminate"
    "sy_owner s = Joining i \<Longrightarrow> i \<le> n" "sy_owner s = Joining i \<Longrightarrow> j < i \<Longrightarrow> workers s ! j = Ended"
    "sy_owner s = Dropped \<Longrightarrow> j < n \<Longrightarrow> workers s ! j = Ended"
    "jobs_of (queue s) \<noteq> [] \<Longrightarrow> 0 < n \<and> ended (workers s) = 0"
  using assms by (auto simp: pool_inv_def)

lemma pool_inv_new: "pool_inv n (sys_new n)"
  by (auto simp: pool_inv_def sys_new_def pool_new_def running_def ended_def filter_empty_conv)

text \<open>The owner's steps leave the workers, the workers' steps leave the owner.\<close>

lemma pool_inv_owner:
  assumes "pool_inv n s" and "workers s' = workers s" "sy_started s' = sy_started s" "sy_done s' = sy_done s"
    and "sy_submitted s' = sy_started s @ jobs_of (queue s')"
    and "sy_owner s' \<noteq> Panicked \<Longrightarrow> to_send n (sy_owner s') + ends (queue s') = to_send n (sy_owner s) + ends (queue s)"
    and "sy_owner s \<noteq> Panicked" "sy_owner s' = Using \<Longrightarrow> ends (queue s') = 0"
    and "\<exists>js k. queue s' = map NewJob js @ replicate k Terminate"
    and "jobs_of (queue s') \<noteq> [] \<Longrightarrow> 0 < n \<and> ended (workers s) = 0"
    and "\<And>i. sy_owner s' = Joining i \<Longrightarrow> i \<le> n \<and> (\<forall>j < i. workers s ! j = Ended)"
    and "sy_owner s' = Dropped \<Longrightarrow> \<forall>j < n. workers s ! j = Ended"
  shows "pool_inv n s'"
  using pool_invD(1,3,4) [OF assms(1)] assms(2-) unfolding pool_inv_def by auto

lemma pool_inv_worker:
  assumes "pool_inv n s" and i: "i < length (workers s)" and w: "\<not> over (workers s ! i)"
    and "workers s' = (workers s)[i := w']" "sy_owner s' = sy_owner s" "sy_submitted s' = sy_submitted s"
    and "sy_started s' @ jobs_of (queue s') = sy_started s @ jobs_of (queue s)"
    and "mset (sy_started s') + mset (sy_done s) + mset (held (workers s ! i)) =
      mset (sy_started s) + mset (sy_done s') + mset (held w')"
    and "ends (queue s') + (if w' = Ended then 1 else 0) = ends (queue s)"
    and "\<exists>js k. queue s' = map NewJob js @ replicate k Terminate"
    and "jobs_of (queue s') \<noteq> [] \<Longrightarrow> jobs_of (queue s) \<noteq> [] \<and> w' \<noteq> Ended"
  shows "pool_inv n s'"
proof -
  note v = pool_invD [OF assms(1)]
  have ne: "workers s ! i \<noteq> Ended" using w by auto
  have e: "ended (workers s') = ended (workers s) + (if w' = Ended then 1 else 0)"
    using ended_update [OF i, of w'] ne assms(4) by simp
  have r: "running (workers s') + mset (held (workers s ! i)) = running (workers s) + mset (held w')"
    using running_update [OF i] assms(4) by simp
  have "mset (sy_started s') + (mset (sy_done s) + mset (held (workers s ! i))) =
      (mset (sy_done s') + running (workers s')) + (mset (sy_done s) + mset (held (workers s ! i)))"
    using assms(8) r v(3) by (metis add.assoc add.commute)
  then have m: "mset (sy_started s') = mset (sy_done s') + running (workers s')" by simp
  have j: "workers s' ! j = Ended" if "workers s ! j = Ended" for j using that ne assms(4) by (cases "j = i") auto
  show ?thesis
    unfolding pool_inv_def assms(5)
  proof (intro conjI impI allI)
    show "sy_submitted s' = sy_started s' @ jobs_of (queue s')" using v(2) assms(6,7) by simp
    show "to_send n (sy_owner s) + ends (queue s') + ended (workers s') = n" if "sy_owner s \<noteq> Panicked"
      using v(4) [OF that] e assms(9) by simp
    show "ends (queue s') = 0" if "sy_owner s = Using" using v(5) [OF that] assms(9) by simp
    show "0 < n" "ended (workers s') = 0" if "jobs_of (queue s') \<noteq> []" using v(10) e assms(11) [OF that] by auto
  qed (use m j v(1,7,8,9) assms(4,10) in auto)
qed

lemma queue_tl: "map NewJob js @ replicate k Terminate = m # q \<Longrightarrow> \<exists>js k. q = map NewJob js @ replicate k Terminate"
proof (cases js)
  case Nil
  assume "map NewJob js @ replicate k Terminate = m # q"
  then have "q = map NewJob [] @ replicate (k - 1) Terminate" using Nil by (cases k) auto
  then show ?thesis by blast
qed auto

lemma queue_end: "map NewJob js @ replicate k Terminate = Terminate # q \<Longrightarrow> jobs_of q = []"
  by (cases js; cases k) auto

lemma sendD: "send m p = Some p' \<Longrightarrow> pl_workers p' = pl_workers p \<and> pl_queue p' = pl_queue p @ [m]"
  by (auto simp: send_def split: if_splits)

lemma worker_recvD:
  assumes "worker_recv i p = Some p'"
  obtains m q where "i < length (pl_workers p)" "pl_workers p ! i = Receiving" "pl_queue p = m # q"
    "p' = p\<lparr>pl_workers := (pl_workers p)[i := (case m of NewJob j \<Rightarrow> Running j | Terminate \<Rightarrow> Ended)], pl_queue := q\<rparr>"
  using assms by (auto simp: worker_recv_def idx_def split: if_splits worker.splits list.splits)

lemma job_overD:
  assumes "job_over b i p = Some p'"
  obtains j where "i < length (pl_workers p)" "pl_workers p ! i = Running j"
    "p' = p\<lparr>pl_workers := (pl_workers p)[i := (if b then Died j else Receiving)]\<rparr>"
  using assms by (auto simp: job_over_def idx_def split: if_splits worker.splits)

lemma pool_inv_step: "pool_step s s' \<Longrightarrow> pool_inv n s \<Longrightarrow> pool_inv n s'"
proof (induction rule: pool_step.induct)
  case (Execute s j p)
  note v = pool_invD [OF Execute.prems]
  from sendD [of "NewJob j" "sy_pool s" p] Execute(2) have p: "pl_workers p = workers s" "pl_queue p = queue s @ [NewJob j]"
    by (auto simp: execute_def)
  obtain js k where q: "queue s = map NewJob js @ replicate k Terminate" using v(6) by blast
  with v(5) [OF Execute(1)] have "queue s @ [NewJob j] = map NewJob (js @ [j]) @ replicate 0 Terminate" by simp
  then have "\<exists>js k. queue s @ [NewJob j] = map NewJob js @ replicate k Terminate" by blast
  moreover have "0 < n" using Execute(2) v(1) by (auto simp: execute_def send_def split: if_splits)
  moreover have "ended (workers s) = 0" using v(4) Execute(1) by simp
  ultimately show ?case using Execute v(2,5) p by (intro pool_inv_owner [OF Execute.prems]) auto
next
  case (Send s n' p)
  note v = pool_invD [OF Send.prems]
  from sendD [OF Send(2)] have p: "pl_workers p = workers s" "pl_queue p = queue s @ [Terminate]" by auto
  obtain js k where "queue s = map NewJob js @ replicate k Terminate" using v(6) by blast
  then have "queue s @ [Terminate] = map NewJob js @ replicate (Suc k) Terminate" by (simp add: replicate_append_same)
  then have "\<exists>js k. queue s @ [Terminate] = map NewJob js @ replicate k Terminate" by blast
  then show ?case using Send v(2,10) p by (intro pool_inv_owner [OF Send.prems]) auto
next
  case (Join s i ok)
  note v = pool_invD [OF Join.prems]
  have "ok \<Longrightarrow> i < n \<and> workers s ! i = Ended" using Join(2) v(1) by (auto simp: join_def idx_def split: worker.splits if_splits)
  then show ?case using Join v(2,6,8,10) by (intro pool_inv_owner [OF Join.prems]) (auto simp: less_Suc_eq split: if_splits)
next
  case (Recv i s p)
  note v = pool_invD [OF Recv.prems]
  obtain m q where p: "i < length (workers s)" "workers s ! i = Receiving" "queue s = m # q"
    "p = (sy_pool s)\<lparr>pl_workers := (workers s)[i := (case m of NewJob j \<Rightarrow> Running j | Terminate \<Rightarrow> Ended)], pl_queue := q\<rparr>"
    using Recv(1) by (rule worker_recvD)
  have "\<exists>js k. q = map NewJob js @ replicate k Terminate" using v(6) p(3) queue_tl by metis
  moreover have "m = Terminate \<Longrightarrow> jobs_of q = []" using v(6) p(3) queue_end by metis
  ultimately show ?case using p by (intro pool_inv_worker [OF Recv.prems p(1), where w' = "case m of NewJob j \<Rightarrow> Running j | Terminate \<Rightarrow> Ended"])
      (auto split: message.splits)
next
  case (Return s i j p)
  obtain j' where p: "i < length (workers s)" "workers s ! i = Running j'" "p = (sy_pool s)\<lparr>pl_workers := (workers s)[i := Receiving]\<rparr>"
    using Return(2) by (rule job_overD) simp
  have "j' = j" using Return(1) p(1,2) by (simp add: idx_def)
  then show ?case using p pool_invD(6) [OF Return.prems] by (intro pool_inv_worker [OF Return.prems p(1)]) auto
next
  case (Panic i s p)
  obtain j where p: "i < length (workers s)" "workers s ! i = Running j" "p = (sy_pool s)\<lparr>pl_workers := (workers s)[i := Died j]\<rparr>"
    using Panic(1) by (rule job_overD) simp
  then show ?case using pool_invD(6) [OF Panic.prems] by (intro pool_inv_worker [OF Panic.prems p(1)]) auto
next
  case (Drop s)
  then show ?case using pool_invD(1,2,6,10) [OF Drop.prems] by (intro pool_inv_owner [OF Drop.prems]) auto
next
  case (Joined s)
  then show ?case using pool_invD(1,2,6,8,10) [OF Joined.prems] by (intro pool_inv_owner [OF Joined.prems]) auto
next
  case (Execute_fails s j)
  then show ?case using pool_invD(2,6,10) [OF Execute_fails.prems] by (intro pool_inv_owner [OF Execute_fails.prems]) auto
next
  case (Send_fails s n')
  then show ?case using pool_invD(2,6,10) [OF Send_fails.prems] by (intro pool_inv_owner [OF Send_fails.prems]) auto
next
  case (Sent s)
  then show ?case using pool_invD(2,6,10) [OF Sent.prems] by (intro pool_inv_owner [OF Sent.prems]) auto
qed

lemma pool_reaches_inv: "pool_reaches n s \<Longrightarrow> pool_inv n s"
  by (induction rule: pool_reaches.induct) (auto intro: pool_inv_new pool_inv_step)

subsection \<open>Properties\<close>

lemma ended_full: "\<forall>j < length ws. ws ! j = Ended \<Longrightarrow> ended ws = length ws \<and> running ws = {#}"
proof -
  assume "\<forall>j < length ws. ws ! j = Ended"
  then have "\<forall>w \<in> set ws. w = Ended" by (auto simp: in_set_conv_nth)
  then show ?thesis by (induction ws) (auto simp: ended_def running_def)
qed

text \<open>C25: When dropping the pool has returned, every worker has ended, nothing is left in the
  channel, and every job submitted was run to its end exactly once.\<close>

theorem pool_dropped_ran_all:
  assumes "pool_reaches n s" "sy_owner s = Dropped"
  shows "(\<forall>w \<in> set (pl_workers (sy_pool s)). w = Ended) \<and> pl_queue (sy_pool s) = [] \<and>
     mset (sy_done s) = mset (sy_submitted s)"
proof -
  note v = pool_invD [OF pool_reaches_inv [OF assms(1)]]
  have e: "ended (workers s) = n" "running (workers s) = {#}" using ended_full [of "workers s"] v(1,9) assms(2) by auto
  have "jobs_of (queue s) = []" using v(10) e(1) by force
  moreover have "ends (queue s) = 0" using v(4) assms(2) e(1) by simp
  moreover obtain js k where "queue s = map NewJob js @ replicate k Terminate" using v(6) by blast
  ultimately have "queue s = []" by simp
  then show ?thesis using v(1,2,3,9) e(2) assms(2) by (auto simp: in_set_conv_nth)
qed

text \<open>A pool of two workers and two jobs, from its creation to the end of its drop; the second job
  is done first.\<close>

definition demo_sys :: "owner \<Rightarrow> nat worker list \<Rightarrow> nat message list \<Rightarrow> nat list \<Rightarrow> nat list \<Rightarrow> nat list \<Rightarrow> nat system" where
  "demo_sys w ws q submitted started finished = \<lparr>sy_owner = w, sy_pool = \<lparr>pl_workers = ws, pl_queue = q\<rparr>,
     sy_submitted = submitted, sy_started = started, sy_done = finished\<rparr>"

lemmas demo_step_simps = demo_sys_def execute_def send_def worker_recv_def job_over_def join_def idx_def

lemma demo_owner:
  assumes "pool_reaches n (demo_sys w ws q su st fin)"
  shows demo_execute: "w = Using \<Longrightarrow> \<not> list_all over ws \<Longrightarrow> pool_reaches n (demo_sys Using ws (q @ [NewJob j]) (su @ [j]) st fin)"
    and demo_drop: "w = Using \<Longrightarrow> pool_reaches n (demo_sys (Sending (length ws)) ws q su st fin)"
    and demo_send: "w = Sending (Suc k) \<Longrightarrow> \<not> list_all over ws \<Longrightarrow> pool_reaches n (demo_sys (Sending k) ws (q @ [Terminate]) su st fin)"
    and demo_sent: "w = Sending 0 \<Longrightarrow> pool_reaches n (demo_sys (Joining 0) ws q su st fin)"
    and demo_join: "w = Joining i \<Longrightarrow> i < length ws \<Longrightarrow> ws ! i = Ended \<Longrightarrow> pool_reaches n (demo_sys (Joining (Suc i)) ws q su st fin)"
    and demo_joined: "w = Joining (length ws) \<Longrightarrow> pool_reaches n (demo_sys Dropped ws q su st fin)"
  using pool_reaches.Step [OF assms] pool_step.Execute [of "demo_sys w ws q su st fin" j] pool_step.Drop [of "demo_sys w ws q su st fin"]
    pool_step.Send [of "demo_sys w ws q su st fin" k] pool_step.Sent [of "demo_sys w ws q su st fin"]
    pool_step.Join [of "demo_sys w ws q su st fin" i True] pool_step.Joined [of "demo_sys w ws q su st fin"]
  by (simp_all add: demo_step_simps)

lemma demo_worker:
  assumes "pool_reaches n (demo_sys w ws q su st fin)" "i < length ws"
  shows demo_take: "ws ! i = Receiving \<Longrightarrow> q = NewJob j # q' \<Longrightarrow> pool_reaches n (demo_sys w (ws[i := Running j]) q' su (st @ [j]) fin)"
    and demo_stop: "ws ! i = Receiving \<Longrightarrow> q = Terminate # q' \<Longrightarrow> pool_reaches n (demo_sys w (ws[i := Ended]) q' su st fin)"
    and demo_return: "ws ! i = Running j \<Longrightarrow> pool_reaches n (demo_sys w (ws[i := Receiving]) q su st (fin @ [j]))"
  using pool_reaches.Step [OF assms(1)] pool_step.Recv [of i "demo_sys w ws q su st fin"]
    pool_step.Return [of "demo_sys w ws q su st fin" i j] assms(2)
  by (simp_all add: demo_step_simps)

lemma demo_running: "pool_reaches 2 (demo_sys Using [Receiving, Running 7] [NewJob 8] [7, 8] [7] [])"
proof -
  have "sys_new 2 = demo_sys Using [Receiving, Receiving] [] [] [] []"
    by (simp add: sys_new_def pool_new_def demo_sys_def numeral_2_eq_2)
  then have "pool_reaches 2 (demo_sys Using [Receiving, Receiving] [] [] [] [])" by (metis pool_reaches.New)
  from demo_execute [OF this, of 7] have "pool_reaches 2 (demo_sys Using [Receiving, Receiving] [NewJob 7] [7] [] [])" by simp
  from demo_execute [OF this, of 8] have "pool_reaches 2 (demo_sys Using [Receiving, Receiving] [NewJob 7, NewJob 8] [7, 8] [] [])" by simp
  from demo_take [OF this, of 1] show ?thesis by simp
qed

lemma demo_dropped: "pool_reaches 2 (demo_sys Dropped [Ended, Ended] [] [7, 8] [7, 8] [8, 7])"
proof -
  from demo_take [OF demo_running, of 0] have "pool_reaches 2 (demo_sys Using [Running 8, Running 7] [] [7, 8] [7, 8] [])" by simp
  from demo_drop [OF this] have "pool_reaches 2 (demo_sys (Sending 2) [Running 8, Running 7] [] [7, 8] [7, 8] [])" by (simp add: numeral_2_eq_2)
  from demo_return [OF this, of 0 8] have "pool_reaches 2 (demo_sys (Sending 2) [Receiving, Running 7] [] [7, 8] [7, 8] [8])" by simp
  from demo_send [OF this, of 1] have "pool_reaches 2 (demo_sys (Sending 1) [Receiving, Running 7] [Terminate] [7, 8] [7, 8] [8])" by simp
  from demo_stop [OF this, of 0] have "pool_reaches 2 (demo_sys (Sending 1) [Ended, Running 7] [] [7, 8] [7, 8] [8])" by simp
  from demo_send [OF this, of 0] have "pool_reaches 2 (demo_sys (Sending 0) [Ended, Running 7] [Terminate] [7, 8] [7, 8] [8])" by simp
  from demo_sent [OF this] have "pool_reaches 2 (demo_sys (Joining 0) [Ended, Running 7] [Terminate] [7, 8] [7, 8] [8])" by simp
  from demo_join [OF this, of 0] have "pool_reaches 2 (demo_sys (Joining 1) [Ended, Running 7] [Terminate] [7, 8] [7, 8] [8])" by simp
  from demo_return [OF this, of 1 7] have "pool_reaches 2 (demo_sys (Joining 1) [Ended, Receiving] [Terminate] [7, 8] [7, 8] [8, 7])" by simp
  from demo_stop [OF this, of 1] have "pool_reaches 2 (demo_sys (Joining 1) [Ended, Ended] [] [7, 8] [7, 8] [8, 7])" by simp
  from demo_join [OF this, of 1] have "pool_reaches 2 (demo_sys (Joining 2) [Ended, Ended] [] [7, 8] [7, 8] [8, 7])" by (simp add: numeral_2_eq_2)
  from demo_joined [OF this] show ?thesis by (simp add: numeral_2_eq_2)
qed

theorem pool_dropped_ran_all_witness:
  "\<exists>s :: nat system. pool_reaches 2 s \<and> sy_owner s = Dropped \<and> sy_submitted s = [7, 8] \<and> sy_done s = [8, 7] \<and>
     (\<forall>w \<in> set (pl_workers (sy_pool s)). w = Ended) \<and> mset (sy_done s) = mset (sy_submitted s)"
  using pool_dropped_ran_all [OF demo_dropped] demo_dropped
  by (intro exI [of _ "demo_sys Dropped [Ended, Ended] [] [7, 8] [7, 8] [8, 7]"]) (simp add: demo_sys_def)

text \<open>C39: In every state of a thread pool and its threads, jobs have started in the order in which
  they were submitted, none lost and none twice: the submitted jobs are those started, followed
  by those in the channel, and a started job is done or is held by exactly one worker, which runs
  it or has died of it.\<close>

theorem pool_jobs_once:
  assumes "pool_reaches n s"
  shows "sy_submitted s = sy_started s @ jobs_of (pl_queue (sy_pool s)) \<and>
     mset (sy_started s) = mset (sy_done s) + running (pl_workers (sy_pool s))"
  using pool_invD(2,3) [OF pool_reaches_inv [OF assms]] by simp

theorem pool_jobs_once_witness:
  "\<exists>s :: nat system. pool_reaches 2 s \<and> sy_submitted s = [7, 8] \<and> sy_started s = [7] \<and> jobs_of (pl_queue (sy_pool s)) = [8] \<and>
     mset (sy_started s) = mset (sy_done s) + running (pl_workers (sy_pool s))"
  using pool_jobs_once [OF demo_running] demo_running
  by (intro exI [of _ "demo_sys Using [Receiving, Running 7] [NewJob 8] [7, 8] [7] []"]) (simp add: demo_sys_def)

subsection \<open>Dropping the pool returns\<close>

fun died :: "'j worker \<Rightarrow> bool" where
  "died (Died _) = True"
| "died _ = False"

definition no_deaths :: "'j system \<Rightarrow> bool" where
  "no_deaths s \<longleftrightarrow> \<not> list_ex died (workers s)"

definition dropping :: "owner \<Rightarrow> bool" where
  "dropping w \<longleftrightarrow> w \<noteq> Using \<and> w \<noteq> Panicked"

definition active :: "'j worker list \<Rightarrow> nat" where
  "active ws = length (concat (map held ws))"

definition drop_work :: "'j system \<Rightarrow> nat" where
  "drop_work s = 2 * length (queue s) + active (workers s) +
     (case sy_owner s of
        Sending k \<Rightarrow> 3 * k + length (workers s) + 2
      | Joining i \<Rightarrow> length (workers s) + 1 - i
      | _ \<Rightarrow> 0)"

lemma active_update:
  "i < length ws \<Longrightarrow> active (ws[i := w]) + length (held (ws ! i)) = active ws + length (held w)"
  by (subst (3) id_take_nth_drop [of i ws]) (simp_all add: active_def upd_conv_take_nth_drop)

lemma not_all_over:
  assumes "length ws = n" "ended ws < n" "\<not> list_ex died ws"
  shows "\<not> list_all over ws"
proof
  assume a: "list_all over ws"
  have "w = Ended" if "w \<in> set ws" for w using a assms(3) that by (cases w) (auto simp: list_all_iff list_ex_iff)
  then have "filter (\<lambda>w. w = Ended) ws = ws" by simp
  then show False using assms(1,2) by (simp add: ended_def)
qed

lemma no_death_at: "\<not> list_ex died ws \<Longrightarrow> i < length ws \<Longrightarrow> ws ! i \<noteq> Died j"
  by (metis died.simps(1) list_ex_iff nth_mem)

lemma ended_less: "i < length ws \<Longrightarrow> ws ! i \<noteq> Ended \<Longrightarrow> ended ws < length ws"
  unfolding ended_def by (rule length_filter_less [of "ws ! i"]) simp_all

lemma drop_progress:
  assumes inv: "pool_inv n s" and d: "dropping (sy_owner s)" "no_deaths s" "sy_owner s \<noteq> Dropped"
  shows "\<exists>s'. pool_step s s' \<and> no_deaths s'"
proof -
  note v = pool_invD [OF inv]
  have nd: "\<not> list_ex died (workers s)" using d(2) by (simp add: no_deaths_def)
  show ?thesis
  proof (cases "sy_owner s")
    case (Sending k)
    show ?thesis
    proof (cases k)
      case 0
      then show ?thesis using pool_step.Sent [of s] Sending d(2) by (auto simp: no_deaths_def)
    next
      case (Suc k')
      have "ended (workers s) < n" using v(4) Sending Suc by simp
      from not_all_over [OF v(1) this nd] obtain p where p: "send Terminate (sy_pool s) = Some p" by (simp add: send_def)
      have "no_deaths (s\<lparr>sy_owner := Sending k', sy_pool := p\<rparr>)" using sendD [OF p] nd by (simp add: no_deaths_def)
      then show ?thesis using pool_step.Send [OF _ p] Sending Suc by blast
    qed
  next
    case (Joining i)
    show ?thesis
    proof (cases "i = n")
      case True
      then show ?thesis using pool_step.Joined [of s] Joining v(1) d(2) by (auto simp: no_deaths_def)
    next
      case False
      then have i: "i < length (workers s)" using v(1,7) Joining by force
      show ?thesis
      proof (cases "workers s ! i")
        case Ended
        then have "join i (sy_pool s) = Some True" using i by (simp add: join_def idx_def)
        from pool_step.Join [OF Joining this] show ?thesis using d(2) by (auto simp: no_deaths_def)
      next
        case Receiving
        have "0 < ends (queue s)" using v(1,4) Joining ended_less [OF i] Receiving by simp
        then obtain m q where q: "queue s = m # q" by (cases "queue s") auto
        let ?w = "case m of NewJob j \<Rightarrow> Running j | Terminate \<Rightarrow> Ended"
        have r: "worker_recv i (sy_pool s) = Some ((sy_pool s)\<lparr>pl_workers := (workers s)[i := ?w], pl_queue := q\<rparr>)"
          using i Receiving q by (simp add: worker_recv_def idx_def)
        have "\<not> list_ex died ((workers s)[i := ?w])"
          using nd set_update_subset_insert [of "workers s" i ?w] by (auto simp: list_ex_iff split: message.splits)
        then show ?thesis using pool_step.Recv [OF r] by (auto simp: no_deaths_def)
      next
        case (Running j)
        have r: "idx (workers s) i = Some (Running j)" "job_over False i (sy_pool s) = Some ((sy_pool s)\<lparr>pl_workers := (workers s)[i := Receiving]\<rparr>)"
          using i Running by (simp_all add: idx_def job_over_def)
        have "\<not> list_ex died ((workers s)[i := Receiving])"
          using nd set_update_subset_insert [of "workers s" i Receiving] by (auto simp: list_ex_iff)
        then show ?thesis using pool_step.Return [OF r] by (auto simp: no_deaths_def)
      next
        case (Died j)
        then show ?thesis using no_death_at [OF nd i] by blast
      qed
    qed
  qed (use d in \<open>auto simp: dropping_def\<close>)
qed

lemma drop_decreases:
  assumes "pool_step s s'" and "pool_inv n s" "dropping (sy_owner s)" "no_deaths s" "no_deaths s'"
  shows "dropping (sy_owner s') \<and> drop_work s' < drop_work s"
  using assms
proof (induction rule: pool_step.induct)
  case (Send_fails s k)
  have "ended (workers s) < n" using pool_invD(4) [OF Send_fails.prems(1)] Send_fails(1) by simp
  from not_all_over [OF pool_invD(1) [OF Send_fails.prems(1)] this] show ?case
    using Send_fails by (simp add: send_def no_deaths_def)
next
  case (Send s k p)
  then show ?case using sendD [OF Send(2)] by (simp add: drop_work_def dropping_def)
next
  case (Join s i ok)
  have i: "i < length (workers s)" "join i (sy_pool s) = Some True"
    using Join(2) Join.prems(3) no_death_at [of "workers s" i]
    by (auto simp: join_def idx_def no_deaths_def split: worker.splits if_splits)
  then show ?case using Join by (simp add: drop_work_def dropping_def)
next
  case (Recv i s p)
  obtain m q where p: "i < length (workers s)" "workers s ! i = Receiving" "queue s = m # q"
    "p = (sy_pool s)\<lparr>pl_workers := (workers s)[i := (case m of NewJob j \<Rightarrow> Running j | Terminate \<Rightarrow> Ended)], pl_queue := q\<rparr>"
    using Recv(1) by (rule worker_recvD)
  have "active ((workers s)[i := (case m of NewJob j \<Rightarrow> Running j | Terminate \<Rightarrow> Ended)]) \<le> active (workers s) + 1"
    using active_update [OF p(1), of "case m of NewJob j \<Rightarrow> Running j | Terminate \<Rightarrow> Ended"] p(2) by (auto split: message.splits)
  then show ?case using Recv.prems(2) p(3,4) by (cases "sy_owner s") (simp_all add: drop_work_def)
next
  case (Return s i j p)
  obtain j' where p: "i < length (workers s)" "workers s ! i = Running j'" "p = (sy_pool s)\<lparr>pl_workers := (workers s)[i := Receiving]\<rparr>"
    using Return(2) by (rule job_overD) simp
  have "active ((workers s)[i := Receiving]) < active (workers s)" using active_update [OF p(1), of Receiving] p(2) by simp
  then show ?case using Return.prems(2) p(3) by (cases "sy_owner s") (simp_all add: drop_work_def)
next
  case (Panic i s p)
  obtain j where p: "i < length (workers s)" "p = (sy_pool s)\<lparr>pl_workers := (workers s)[i := Died j]\<rparr>"
    using Panic(1) by (rule job_overD) simp
  have "Died j \<in> set ((workers s)[i := Died j])" using p(1) by (rule set_update_memI)
  then show ?case using Panic.prems(4) p(2) by (auto simp: no_deaths_def list_ex_iff)
qed (auto simp: drop_work_def dropping_def)

text \<open>C24: Dropping the pool returns as long as no job panics: whatever the interleaving of the
  threads, a run of steps from a state in which the pool is being dropped cannot go on for ever,
  never panics in the owner, and can only stop when the pool is dropped.\<close>

theorem pool_drop_returns:
  assumes "pool_reaches n s" "dropping (sy_owner s)" "no_deaths s"
  shows "(\<nexists>f. f 0 = s \<and> (\<forall>i. pool_step (f i) (f (Suc i)) \<and> no_deaths (f (Suc i)))) \<and>
     (\<forall>t. (\<lambda>a b. pool_step a b \<and> no_deaths b)\<^sup>*\<^sup>* s t \<longrightarrow>
        sy_owner t \<noteq> Panicked \<and> (sy_owner t = Dropped \<or> (\<exists>u. pool_step t u \<and> no_deaths u)))"
proof -
  let ?ok = "\<lambda>s. pool_inv n s \<and> dropping (sy_owner s) \<and> no_deaths s"
  have ok: "?ok s" using assms pool_reaches_inv by blast
  have st: "?ok b \<and> drop_work b < drop_work a" if "?ok a" "pool_step a b" "no_deaths b" for a b
    using that drop_decreases [of a b n] pool_inv_step [of a b n] by blast
  have "False" if f: "f 0 = s" "\<forall>i. pool_step (f i) (f (Suc i)) \<and> no_deaths (f (Suc i))" for f
  proof -
    have "?ok (f i) \<and> drop_work (f i) + i \<le> drop_work s" for i
    proof (induction i)
      case (Suc i)
      then show ?case using st [of "f i" "f (Suc i)"] f(2) by fastforce
    qed (use ok f(1) in simp)
    from this [of "Suc (drop_work s)"] show False by simp
  qed
  moreover have "?ok t" if "(\<lambda>a b. pool_step a b \<and> no_deaths b)\<^sup>*\<^sup>* s t" for t
    using that by (induction rule: rtranclp_induct) (use ok st in blast)+
  then have "sy_owner t \<noteq> Panicked \<and> (sy_owner t = Dropped \<or> (\<exists>u. pool_step t u \<and> no_deaths u))"
    if "(\<lambda>a b. pool_step a b \<and> no_deaths b)\<^sup>*\<^sup>* s t" for t
    using drop_progress [of n t] that by (auto simp: dropping_def)
  ultimately show ?thesis by blast
qed

theorem pool_drop_returns_witness:
  "\<exists>s :: nat system. sy_owner s = Sending 1 \<and>
     (\<nexists>f. f 0 = s \<and> (\<forall>i. pool_step (f i) (f (Suc i)) \<and> no_deaths (f (Suc i))))"
proof -
  let ?s = "(sys_new 1 :: nat system)\<lparr>sy_owner := Sending 1\<rparr>"
  have "pool_step (sys_new 1) ?s" using pool_step.Drop [of "sys_new 1 :: nat system"] by (simp add: sys_new_def pool_new_def)
  then have r: "pool_reaches 1 ?s" by (rule pool_reaches.Step [OF pool_reaches.New])
  have "dropping (sy_owner ?s)" "no_deaths ?s" by (simp_all add: dropping_def no_deaths_def sys_new_def pool_new_def)
  from pool_drop_returns [OF r this] show ?thesis by (intro exI [of _ ?s]) simp
qed

end
