(* ===== verification/Locks.thy ===== *)
theory Locks
  imports Prelude
begin

text \<open>
  The locks of data_manager.rs.  The write-ahead log, the memtable, the list of immutable
  memtables and the tables each sit behind an RwLock, and so does the block cache that all tables
  share; the requests and the two background threads take them through read_lock, write_lock and
  write_unlock, which in spite of its name takes the cache's lock.  A call is the sequence of locks it takes and gives
  back, a guard being given back where its scope or a drop ends it; a call that an error or a
  panic stops gives back what it holds.  A step relation interleaves any number of threads, each
  making any calls.  It is shown that the locks are always taken in one order, that no thread is
  inside while another writes, and that the threads never wait for each other in a circle: all
  calls end, whether or not a waiting writer holds new readers back.
\<close>

datatype dm_lock = Wal_lock | Mut_lock | Imm_lock | Readers_lock | Cache_lock

datatype lock_mode = Shared | Exclusive

datatype lock_act = Acquire dm_lock lock_mode | Release dm_lock

definition read_lock :: "dm_lock \<Rightarrow> lock_act" where
  "read_lock l = Acquire l Shared"

definition write_lock :: "dm_lock \<Rightarrow> lock_act" where
  "write_lock l = Acquire l Exclusive"

subsection \<open>The locks each call takes\<close>

text \<open>The argument says whether the memtable has become full.\<close>

definition insert_locks :: "bool \<Rightarrow> lock_act list" where
  "insert_locks full = [write_lock Wal_lock, write_lock Mut_lock] @
     (if full then [write_lock Imm_lock, Release Imm_lock] else []) @ [Release Mut_lock, Release Wal_lock]"

text \<open>Reading a block asks the block cache and, when it is not there, puts it there; opening a table
  takes a number from the cache.  Each is a lock of its own, given back at once.\<close>

definition cache_locks :: "nat \<Rightarrow> lock_act list" where
  "cache_locks n = concat (replicate n [write_lock Cache_lock, Release Cache_lock])"

text \<open>The argument is None when a memtable has the key, and else the number of times the tables turn
  to the block cache.\<close>

definition get_locks :: "nat option \<Rightarrow> lock_act list" where
  "get_locks tables = [read_lock Mut_lock, read_lock Imm_lock] @
     (case tables of None \<Rightarrow> [] | Some n \<Rightarrow> [read_lock Readers_lock] @ cache_locks n @ [Release Readers_lock]) @
     [Release Imm_lock, Release Mut_lock]"

text \<open>When the key is there, it is overwritten.\<close>

definition remove_locks :: "nat option \<Rightarrow> bool option \<Rightarrow> lock_act list" where
  "remove_locks tables found = get_locks tables @ (case found of None \<Rightarrow> [] | Some full \<Rightarrow> insert_locks full)"

definition info_locks :: "lock_act list" where
  "info_locks = [read_lock Readers_lock, Release Readers_lock]"

text \<open>One argument for each immutable memtable: whether a table was made of it, which is opened and
  then added to the others.\<close>

definition minor_locks :: "bool list \<Rightarrow> lock_act list" where
  "minor_locks made = [read_lock Imm_lock, Release Imm_lock] @
     (if made = [] then [] else [write_lock Wal_lock, read_lock Imm_lock] @
        concat (map (\<lambda>m. if m then cache_locks 1 @ [write_lock Readers_lock, Release Readers_lock] else []) made) @
        [Release Imm_lock, Release Wal_lock, write_lock Imm_lock, Release Imm_lock])"

text \<open>None unless a level but the last is due; then the number of times the block cache is used in
  merging its tables and opening the new ones.\<close>

definition major_locks :: "nat option \<Rightarrow> lock_act list" where
  "major_locks due = [read_lock Readers_lock, Release Readers_lock] @
     (case due of None \<Rightarrow> [] | Some n \<Rightarrow>
        [read_lock Readers_lock] @ cache_locks n @ [Release Readers_lock, write_lock Readers_lock, Release Readers_lock])"

datatype dm_call =
    Insert_call bool
  | Get_call "nat option"
  | Remove_call "nat option" "bool option"
  | Info_call
  | Minor_call "bool list"
  | Major_call "nat option"

fun dm_locks :: "dm_call \<Rightarrow> lock_act list" where
  "dm_locks (Insert_call full) = insert_locks full"
| "dm_locks (Get_call tables) = get_locks tables"
| "dm_locks (Remove_call tables found) = remove_locks tables found"
| "dm_locks Info_call = info_locks"
| "dm_locks (Minor_call made) = minor_locks made"
| "dm_locks (Major_call due) = major_locks due"

text \<open>A call that is stopped after \<open>n\<close> of its actions drops its guards, the last taken first.\<close>

fun stop_after :: "nat \<Rightarrow> dm_lock list \<Rightarrow> lock_act list \<Rightarrow> lock_act list" where
  "stop_after n h [] = map Release h"
| "stop_after 0 h t = map Release h"
| "stop_after (Suc n) h (Acquire l m # t) = Acquire l m # stop_after n (l # h) t"
| "stop_after (Suc n) h (Release l # t) = Release l # stop_after n (remove1 l h) t"

definition call_locks :: "dm_call \<times> nat option \<Rightarrow> lock_act list" where
  "call_locks c = (case snd c of None \<Rightarrow> dm_locks (fst c) | Some n \<Rightarrow> stop_after n [] (dm_locks (fst c)))"

subsection \<open>Threads\<close>

record lock_thread =
  th_held :: "(dm_lock \<times> lock_mode) list"
  th_todo :: "lock_act list"

definition th_start :: "(dm_call \<times> nat option) list \<Rightarrow> lock_thread" where
  "th_start cs = \<lparr>th_held = [], th_todo = concat (map call_locks cs)\<rparr>"

definition holds :: "dm_lock \<Rightarrow> lock_thread \<Rightarrow> bool" where
  "holds l th \<longleftrightarrow> l \<in> fst ` set (th_held th)"

definition holds_exclusive :: "dm_lock \<Rightarrow> lock_thread \<Rightarrow> bool" where
  "holds_exclusive l th \<longleftrightarrow> (l, Exclusive) \<in> set (th_held th)"

definition waits_exclusive :: "dm_lock \<Rightarrow> lock_thread \<Rightarrow> bool" where
  "waits_exclusive l th \<longleftrightarrow> (case th_todo th of a # _ \<Rightarrow> a = Acquire l Exclusive | [] \<Rightarrow> False)"

text \<open>What an RwLock grants.  Whether a reader may pass a waiting writer is left open by the
  standard library; the policy \<open>pass\<close> decides.\<close>

fun grants :: "(lock_thread list \<Rightarrow> nat \<Rightarrow> bool) \<Rightarrow> lock_thread list \<Rightarrow> nat \<Rightarrow> dm_lock \<Rightarrow> lock_mode \<Rightarrow> bool" where
  "grants pass ts i l Exclusive \<longleftrightarrow> \<not> list_ex (holds l) ts"
| "grants pass ts i l Shared \<longleftrightarrow> \<not> list_ex (holds_exclusive l) ts \<and> (list_ex (waits_exclusive l) ts \<longrightarrow> pass ts i)"

fun drop_guard :: "dm_lock \<Rightarrow> (dm_lock \<times> lock_mode) list \<Rightarrow> (dm_lock \<times> lock_mode) list" where
  "drop_guard l [] = []"
| "drop_guard l ((l', m) # h) = (if l = l' then h else (l', m) # drop_guard l h)"

inductive lock_step :: "(lock_thread list \<Rightarrow> nat \<Rightarrow> bool) \<Rightarrow> lock_thread list \<Rightarrow> lock_thread list \<Rightarrow> bool" for pass where
  Take: "i < length ts \<Longrightarrow> th_todo (ts ! i) = Acquire l m # t \<Longrightarrow> grants pass ts i l m \<Longrightarrow>
    lock_step pass ts (ts[i := \<lparr>th_held = (l, m) # th_held (ts ! i), th_todo = t\<rparr>])"
| Give: "i < length ts \<Longrightarrow> th_todo (ts ! i) = Release l # t \<Longrightarrow>
    lock_step pass ts (ts[i := \<lparr>th_held = drop_guard l (th_held (ts ! i)), th_todo = t\<rparr>])"

inductive lock_reaches :: "(lock_thread list \<Rightarrow> nat \<Rightarrow> bool) \<Rightarrow> (dm_call \<times> nat option) list list \<Rightarrow> nat \<Rightarrow> lock_thread list \<Rightarrow> bool"
  for pass css where
  Begin: "lock_reaches pass css 0 (map th_start css)"
| Step: "lock_reaches pass css n ts \<Longrightarrow> lock_step pass ts ts' \<Longrightarrow> lock_reaches pass css (Suc n) ts'"

subsection \<open>The order of the locks\<close>

fun lock_rank :: "dm_lock \<Rightarrow> nat" where
  "lock_rank Wal_lock = 0"
| "lock_rank Mut_lock = 1"
| "lock_rank Imm_lock = 2"
| "lock_rank Readers_lock = 3"
| "lock_rank Cache_lock = 4"

text \<open>Every lock taken ranks above all that are held, and in the end none is held.\<close>

fun ordered :: "dm_lock list \<Rightarrow> lock_act list \<Rightarrow> bool" where
  "ordered h [] \<longleftrightarrow> h = []"
| "ordered h (Acquire l m # t) \<longleftrightarrow> (\<forall>x \<in> set h. lock_rank x < lock_rank l) \<and> ordered (l # h) t"
| "ordered h (Release l # t) \<longleftrightarrow> l \<in> set h \<and> ordered (remove1 l h) t"

lemma ordered_append: "ordered h s \<Longrightarrow> ordered [] t \<Longrightarrow> ordered h (s @ t)"
  by (induction h s rule: ordered.induct) auto

lemma ordered_drop_all: "ordered h (map Release h)"
  by (induction h) auto

lemma ordered_stop_after: "ordered h t \<Longrightarrow> ordered h (stop_after n h t)"
  by (induction n h t rule: stop_after.induct) (auto simp: ordered_drop_all)

lemma ordered_cache [simp]:
  "\<forall>l \<in> set h. lock_rank l < 4 \<Longrightarrow> ordered h (cache_locks n @ t) \<longleftrightarrow> ordered h t"
  by (induction n) (auto simp: cache_locks_def write_lock_def)

lemma ordered_minor_tables:
  "ordered [Imm_lock, Wal_lock]
     (concat (map (\<lambda>m. if m then cache_locks 1 @ [write_lock Readers_lock, Release Readers_lock] else []) made) @ t)
     \<longleftrightarrow> ordered [Imm_lock, Wal_lock] t"
  by (induction made) (auto simp: write_lock_def)

lemma ordered_insert: "ordered [] (insert_locks full)"
  by (simp add: insert_locks_def write_lock_def)

lemma ordered_get: "ordered [] (get_locks tables)"
  by (cases tables) (simp_all add: get_locks_def read_lock_def)

lemma ordered_major: "ordered [] (major_locks due)"
  by (cases due) (simp_all add: major_locks_def read_lock_def write_lock_def)

lemma ordered_minor: "ordered [] (minor_locks made)"
  unfolding minor_locks_def append_assoc
  by (simp add: read_lock_def write_lock_def ordered_minor_tables)

lemma ordered_dm_locks: "ordered [] (dm_locks c)"
  by (cases c) (auto simp: ordered_insert ordered_get ordered_minor ordered_major remove_locks_def info_locks_def
      read_lock_def write_lock_def ordered_append split: option.splits)

lemma ordered_calls: "ordered [] (concat (map call_locks cs))"
  by (induction cs) (auto simp: call_locks_def ordered_dm_locks ordered_stop_after ordered_append split: option.splits)

lemma drop_guard_fst: "map fst (drop_guard l h) = remove1 l (map fst h)"
  by (induction l h rule: drop_guard.induct) auto

lemma drop_guard_subset: "set (drop_guard l h) \<subseteq> set h"
  by (induction l h rule: drop_guard.induct) auto

subsection \<open>The invariant\<close>

definition lock_inv :: "lock_thread list \<Rightarrow> bool" where
  "lock_inv ts \<longleftrightarrow> (\<forall>th \<in> set ts. ordered (map fst (th_held th)) (th_todo th)) \<and>
     (\<forall>i < length ts. \<forall>j < length ts. \<forall>l. i \<noteq> j \<longrightarrow> holds_exclusive l (ts ! i) \<longrightarrow> \<not> holds l (ts ! j))"

lemma exclusive_holds: "holds_exclusive l th \<Longrightarrow> holds l th"
  by (force simp: holds_exclusive_def holds_def)

lemma lock_inv_start: "lock_inv (map th_start css)"
  by (auto simp: lock_inv_def th_start_def ordered_calls holds_exclusive_def)

lemma lock_inv_ordered: "lock_inv ts \<Longrightarrow> i < length ts \<Longrightarrow> ordered (map fst (th_held (ts ! i))) (th_todo (ts ! i))"
  by (simp add: lock_inv_def)

lemma ordered_update:
  "\<forall>th \<in> set ts. ordered (map fst (th_held th)) (th_todo th) \<Longrightarrow> ordered (map fst (th_held x)) (th_todo x) \<Longrightarrow>
   \<forall>th \<in> set (ts[i := x]). ordered (map fst (th_held th)) (th_todo th)"
  using set_update_subset_insert [of ts i x] by blast

lemma lock_inv_step:
  assumes "lock_step pass ts ts'" and inv: "lock_inv ts"
  shows "lock_inv ts'"
  using assms(1)
proof cases
  case (Take i l m t)
  have "ordered (map fst (th_held (ts ! i))) (Acquire l m # t)" using lock_inv_ordered [OF inv Take(2)] Take(3) by simp
  then have o: "\<forall>th \<in> set ts'. ordered (map fst (th_held th)) (th_todo th)"
    unfolding Take(1) using inv by (intro ordered_update) (auto simp: lock_inv_def)
  have h: "holds k (ts' ! j) \<Longrightarrow> holds k (ts ! j) \<or> j = i \<and> k = l"
    "holds_exclusive k (ts' ! j) \<Longrightarrow> holds_exclusive k (ts ! j) \<or> j = i \<and> k = l \<and> m = Exclusive" for j k
    using Take(1,2) by (cases "j = i"; auto simp: holds_def holds_exclusive_def)+
  have ex: "m = Exclusive \<Longrightarrow> \<not> holds l (ts ! j)" "\<not> holds_exclusive l (ts ! j)" if "j < length ts" for j
    using Take(4) nth_mem [OF that] exclusive_holds by (cases m; auto simp: list_ex_iff)+
  have "\<not> holds k (ts' ! b)" if "a < length ts'" "b < length ts'" "a \<noteq> b" "holds_exclusive k (ts' ! a)" for a b k
  proof
    assume hb: "holds k (ts' ! b)"
    have "a < length ts" "b < length ts" using that(1,2) Take(1) by simp_all
    then show False using h(1) [OF hb] h(2) [OF that(4)] ex that(3) inv unfolding lock_inv_def by blast
  qed
  with o show ?thesis unfolding lock_inv_def by blast
next
  case (Give i l t)
  have "ordered (map fst (th_held (ts ! i))) (Release l # t)" using lock_inv_ordered [OF inv Give(2)] Give(3) by simp
  then have o: "\<forall>th \<in> set ts'. ordered (map fst (th_held th)) (th_todo th)"
    unfolding Give(1) using inv by (intro ordered_update) (auto simp: lock_inv_def drop_guard_fst)
  have k: "holds k (ts' ! j) \<Longrightarrow> holds k (ts ! j)" "holds_exclusive k (ts' ! j) \<Longrightarrow> holds_exclusive k (ts ! j)"
    if "j < length ts'" for j k
    using that Give(1,2) drop_guard_subset [of l "th_held (ts ! i)"]
    by (auto simp: nth_list_update holds_def holds_exclusive_def split: if_splits)
  with o inv show ?thesis unfolding lock_inv_def by (metis Give(1) length_list_update)
qed

lemma lock_reaches_inv: "lock_reaches pass css n ts \<Longrightarrow> lock_inv ts"
  by (induction rule: lock_reaches.induct) (auto intro: lock_inv_start lock_inv_step)

subsection \<open>Progress\<close>

definition waits_for :: "lock_thread \<Rightarrow> dm_lock option" where
  "waits_for th = (case th_todo th of Acquire l _ # _ \<Rightarrow> Some l | _ \<Rightarrow> None)"

lemma waits_forE:
  assumes "waits_for th = Some l"
  obtains m t where "th_todo th = Acquire l m # t"
  using assms that by (auto simp: waits_for_def split: list.splits lock_act.splits)

lemma some_waiter:
  assumes "l \<in> Option.these (waits_for ` set ts)"
  shows "\<exists>w \<in> set ts. waits_for w = Some l \<and> (list_ex (waits_exclusive l) ts \<longrightarrow> waits_exclusive l w)"
proof (cases "list_ex (waits_exclusive l) ts")
  case True
  then show ?thesis by (force simp: list_ex_iff waits_exclusive_def waits_for_def split: list.splits)
next
  case False
  with assms show ?thesis by (force simp: Option.these_def)
qed

lemma waiting_in: "th \<in> set ts \<Longrightarrow> waits_for th = Some l \<Longrightarrow> l \<in> Option.these (waits_for ` set ts)"
  by (force simp: Option.these_def)

lemma lock_rank_less: "lock_rank l < 5"
  by (cases l) simp_all

lemma idle_cases:
  assumes "lock_inv ts" "\<not> Ex (lock_step pass ts)" "th \<in> set ts"
  shows "th_todo th = [] \<and> th_held th = [] \<or> (\<exists>l. waits_for th = Some l \<and> (\<forall>k. holds k th \<longrightarrow> lock_rank k < lock_rank l))"
proof -
  obtain i where i: "i < length ts" "th = ts ! i" using assms(3) by (auto simp: in_set_conv_nth)
  have o: "ordered (map fst (th_held th)) (th_todo th)" using assms(1,3) by (simp add: lock_inv_def)
  have "th_todo th \<noteq> Release l # t" for l t using lock_step.Give [OF i(1), of l t pass] assms(2) i(2) by blast
  with o show ?thesis by (cases "th_todo th" rule: list.exhaust; cases "hd (th_todo th)") (auto simp: waits_for_def holds_def)
qed

lemma lock_progress:
  assumes inv: "lock_inv ts" and stuck: "\<not> Ex (lock_step pass ts)" and th: "th \<in> set ts"
  shows "th_todo th = [] \<and> th_held th = []"
proof (rule ccontr)
  note idle = idle_cases [OF inv stuck]
  define ls where "ls = Option.these (waits_for ` set ts)"
  assume "\<not> ?thesis"
  with idle [OF th] obtain l0 where "waits_for th = Some l0" by blast
  then have "l0 \<in> ls" unfolding ls_def by (rule waiting_in [OF th])
  then have "\<exists>l. l \<in> ls \<and> (\<forall>k. k \<in> ls \<longrightarrow> lock_rank k \<le> lock_rank l)"
    by (rule ex_has_greatest_nat [where b = 5]) (simp add: lock_rank_less)
  then obtain l where l: "l \<in> ls" "\<And>k. k \<in> ls \<Longrightarrow> lock_rank k \<le> lock_rank l" by blast
  have "\<not> holds l u" if "u \<in> set ts" for u
    using idle [OF that] l(2) waiting_in [OF that] by (force simp: holds_def ls_def)
  then have free: "\<not> list_ex (holds l) ts" "\<not> list_ex (holds_exclusive l) ts"
    using exclusive_holds by (auto simp: list_ex_iff)
  obtain w where w: "w \<in> set ts" "waits_for w = Some l" "list_ex (waits_exclusive l) ts \<longrightarrow> waits_exclusive l w"
    using some_waiter [OF l(1) [unfolded ls_def]] by blast
  then obtain m t where t: "th_todo w = Acquire l m # t" by (auto elim: waits_forE)
  have "grants pass ts i l m" for i using free w(3) t by (cases m) (auto simp: waits_exclusive_def)
  moreover obtain i where "i < length ts" "w = ts ! i" using w(1) by (auto simp: in_set_conv_nth)
  ultimately show False using lock_step.Take [of i ts l m t pass] t stuck by blast
qed

lemma todo_update:
  "i < length ts \<Longrightarrow> th_todo (ts ! i) = a # th_todo x \<Longrightarrow>
   Suc (\<Sum>th \<leftarrow> ts[i := x]. length (th_todo th)) = (\<Sum>th \<leftarrow> ts. length (th_todo th))"
  by (induction ts arbitrary: i) (auto simp: less_Suc_eq_0_disj)

lemma lock_step_length:
  "lock_step pass ts ts' \<Longrightarrow> Suc (\<Sum>th \<leftarrow> ts'. length (th_todo th)) = (\<Sum>th \<leftarrow> ts. length (th_todo th))"
  by (erule lock_step.cases) (simp_all add: todo_update)

text \<open>C23: However many threads make calls to the data manager, in whatever order their steps come,
  and however many calls are stopped by an error or a panic: as long as a call is not over, some
  thread can go on, whether or not readers wait for a waiting writer.  There are no more steps
  than locks to take and to give back, so all calls end, and then no lock is held.\<close>

theorem calls_never_deadlock:
  assumes "lock_reaches pass css n ts"
  shows "n + (\<Sum>th \<leftarrow> ts. length (th_todo th)) = (\<Sum>cs \<leftarrow> css. \<Sum>c \<leftarrow> cs. length (call_locks c)) \<and>
     ((\<exists>ts'. lock_step pass ts ts') \<or> (\<forall>th \<in> set ts. th_todo th = [] \<and> th_held th = []))"
proof
  show "n + (\<Sum>th \<leftarrow> ts. length (th_todo th)) = (\<Sum>cs \<leftarrow> css. \<Sum>c \<leftarrow> cs. length (call_locks c))"
    using assms
  proof (induction rule: lock_reaches.induct)
    case Begin
    show ?case by (simp add: th_start_def length_concat comp_def)
  next
    case (Step n ts ts')
    then show ?case using lock_step_length [of pass ts ts'] by simp
  qed
  show "(\<exists>ts'. lock_step pass ts ts') \<or> (\<forall>th \<in> set ts. th_todo th = [] \<and> th_held th = [])"
    using lock_progress [OF lock_reaches_inv [OF assms]] by blast
qed

text \<open>The first insertion has the log; the second waits for it.\<close>

definition demo_calls :: "(dm_call \<times> nat option) list list" where
  "demo_calls = [[(Insert_call True, None)], [(Insert_call False, None)], [(Get_call (Some 2), None), (Major_call (Some 3), Some 3)]]"

definition demo_threads :: "lock_thread list" where
  "demo_threads = [\<lparr>th_held = [(Wal_lock, Exclusive)], th_todo = tl (insert_locks True)\<rparr>,
     \<lparr>th_held = [], th_todo = insert_locks False\<rparr>, th_start (demo_calls ! 2)]"

lemma demo_threads_reached: "lock_reaches (\<lambda>_ _. False) demo_calls 1 demo_threads"
proof -
  let ?ts = "map th_start demo_calls"
  have ts: "?ts = [\<lparr>th_held = [], th_todo = insert_locks True\<rparr>, \<lparr>th_held = [], th_todo = insert_locks False\<rparr>, th_start (demo_calls ! 2)]"
    by (simp add: demo_calls_def th_start_def call_locks_def)
  have "lock_step (\<lambda>_ _. False) ?ts (?ts[0 := \<lparr>th_held = (Wal_lock, Exclusive) # th_held (?ts ! 0), th_todo = tl (insert_locks True)\<rparr>])"
    by (rule lock_step.Take) (simp_all add: ts insert_locks_def write_lock_def holds_def, simp add: th_start_def)
  then show ?thesis using lock_reaches.Step [OF lock_reaches.Begin] by (simp add: ts demo_threads_def)
qed

theorem calls_never_deadlock_witness:
  "lock_reaches (\<lambda>_ _. False) demo_calls 1 demo_threads \<and> \<not> grants (\<lambda>_ _. False) demo_threads 1 Wal_lock Exclusive \<and>
     (\<exists>ts. lock_step (\<lambda>_ _. False) demo_threads ts)"
  using calls_never_deadlock [OF demo_threads_reached] demo_threads_reached
  by (simp add: demo_threads_def holds_def)

text \<open>While a thread holds a lock for writing, no other thread
  holds it in either mode.\<close>

theorem writers_exclude:
  assumes "lock_reaches pass css n ts" "i < length ts" "j < length ts" "i \<noteq> j" "holds_exclusive l (ts ! i)"
  shows "\<not> holds l (ts ! j)"
  using lock_reaches_inv [OF assms(1)] assms(2-5) by (auto simp: lock_inv_def)

theorem writers_exclude_witness:
  "lock_reaches (\<lambda>_ _. False) demo_calls 1 demo_threads \<and> holds_exclusive Wal_lock (demo_threads ! 0) \<and> \<not> holds Wal_lock (demo_threads ! 2)"
proof -
  have "holds_exclusive Wal_lock (demo_threads ! 0)" by (simp add: demo_threads_def holds_exclusive_def)
  with writers_exclude [OF demo_threads_reached _ _ _ this, of 2] demo_threads_reached show ?thesis
    by (simp add: demo_threads_def)
qed

end
