(* ===== verification/Spec2Isabelle.thy ===== *)
theory Spec2Isabelle
  imports Block_Props SkipList_Props Server_Props Dm_Crash Service Thread_Pool Locks
begin

text \<open>
  MirDB is a key-value store that speaks the memcached text protocol.  This library models the
  program of src/ and proves what makes it correct, from the bytes of a connection down to the
  bytes of the files.

  \<^bold>\<open>The program.\<close>  The program reads its configuration (config.rs), opens the store on a
  directory and listens (main.rs).  A request arrives as text.  The codec (proto.rs) parses it (parser.rs with the
  combinators of parser_util/macros.rs) into a request (request.rs); Server::call (main.rs) gives
  it to Store::apply (store.rs), which reads and writes through the data manager
  (data_manager.rs), and writes the response (response.rs) back.  The data manager is a
  log-structured merge tree.  A write is appended to the write-ahead log (wal.rs) and put into a
  memtable (memtable.rs), a skip list (skip-list/).  A full memtable becomes immutable
  (memtable_list.rs), and the minor compaction makes a sorted table of it on level 0 (sstable/,
  sstable_builder.rs).  The major compaction merges (merger.rs) tables of one level into the next
  (sstable_reader.rs).  The manifest (manifest.rs) lists the tables; a start reads it, opens the
  tables and turns what is left of the log into tables.

  \<^bold>\<open>The theories.\<close>
  \<^item> \<open>Prelude\<close>, \<open>Assoc\<close>: results that may fail or panic, lookups, sorted association lists.
  \<^item> \<open>SkipList\<close>, \<open>SkipList_Correct\<close>, \<open>SkipList_Props\<close>: skip-list/src.  Nodes live in an explicit
    store of addresses with allocation and free; a wrong pointer is None, and so is the drop of a
    field that was never initialised, which depends on the types of the keys and values
    (\<open>glue\<close>).  Insertion, removal, lookup, iteration, cloning and disposal refine a sorted map, for
    any height generator, but for the removal of a value with drop glue; the head nodes that are
    never freed are counted.
  \<^item> \<open>Table\<close>, \<open>Memtable\<close>: types.rs, memtable.rs, memtable_list.rs, over the contract of a sorted
    map that the locale of \<open>Table\<close> states and the skip list fulfils.
  \<^item> \<open>Sst_Base\<close>, \<open>Sst_Util\<close>, \<open>Footer\<close>: errors, options, raw reads and writes, handles, footer,
    separators, checksum masks of sstable/src.  The crates a table calls are fields of a record
    (\<open>libs\<close>), their documented behaviour the predicates \<open>table_libs_ok\<close>, \<open>fixed_ok\<close>, \<open>lru_ok\<close>;
    \<open>Lib_Instance\<close> gives functions that meet them.
  \<^item> \<open>Ss_Iterator\<close>: the trait SsIterator (types.rs) as a locale, interpreted for blocks and tables.
  \<^item> \<open>Block_Builder\<close>, \<open>Block_Iter\<close>, \<open>Block_Read\<close>, \<open>Block_Props\<close>: block_builder.rs, block.rs,
    block_iter.rs.  Prefix-compressed entries with restart points, at the width of the words.
  \<^item> \<open>Sstable\<close>, \<open>Sstable_Build\<close>, \<open>Sstable_Get\<close>, \<open>Sstable_Iter\<close>, \<open>Sstable_Total\<close>, \<open>Sstable_Props\<close>:
    meta_block.rs, cache.rs, table_builder.rs, table_reader.rs, table_iter.rs.  A table built,
    flushed and reopened returns and iterates what was added, and building one succeeds.
  \<^item> \<open>Server_Base\<close>, \<open>Server_Instance\<close>, \<open>Float64\<close>: utils.rs, error.rs, options.rs of the server, the
    crates it calls, and the few facts of 64-bit floating point that the scores need.
  \<^item> \<open>Wal\<close>, \<open>Wal_Recovery\<close>, \<open>Wal_Props\<close>: wal.rs.  The log is a queue of lists of entries; what
    recovery does with a last record that was cut short.
  \<^item> \<open>Manifest\<close>, \<open>Table_Set\<close>, \<open>Table_Files\<close>, \<open>Levels\<close>, \<open>Table_Set_Inv\<close>, \<open>Server_Props\<close>: manifest.rs,
    sstable_reader.rs, sstable_builder.rs.  Searching the levels, adding and removing tables, scores.
  \<^item> \<open>Merger\<close>: merger.rs.  The merge of sorted iterators with the first one winning.
  \<^item> \<open>Data_Manager\<close>: data_manager.rs, one definition per method; where a method gives up its locks
    in between it is split there (\<open>minor_build\<close> and \<open>minor_consume\<close>, \<open>size_build\<close> and \<open>size_swap\<close>).
  \<^item> \<open>Dm_Inv\<close> (the invariant, reads and writes), \<open>Dm_Minor\<close>, \<open>Dm_Merge\<close>, \<open>Dm_Swap\<close>, \<open>Dm_Major\<close>,
    \<open>Dm_Recovery\<close>: every step keeps the invariant.  \<open>Dm_Total\<close>, \<open>Dm_Major_Total\<close>,
    \<open>Dm_Restart_Total\<close>: every step succeeds.
  \<^item> \<open>Dm_System\<close>: the step relation \<open>reaches\<close>, in which writes, reads, the steps of the two
    compactions and restarts come in any order; \<open>Dm_Db\<close>: its contract to the store, a locale over
    histories of writes; \<open>Dm_Props\<close>: the properties; \<open>Dm_Crash\<close>: starts after a crash within a step;
    \<open>Background\<close>: the loops of the two background threads.
  \<^item> \<open>Locks\<close>: the RwLocks of the data manager and of the block cache of the tables, which calls
    take which and in what order.
  \<^item> \<open>Parser_Util\<close>, \<open>Protocol\<close>, \<open>Protocol_Props\<close>: macros.rs, request.rs, parser.rs, response.rs,
    proto.rs.  The macros are functions; the locale \<open>parser\<close> is the contract of a parser that
    always returns and leaves a suffix of its input.
  \<^item> \<open>Slice\<close>: slice.rs over any \<open>Bytes\<close> that keeps its documented laws; it shows that a slice may be
    taken as the list of its bytes, as the other theories do.
  \<^item> \<open>Store\<close>, \<open>Store_Props\<close>: store.rs and Server::call; the store is proved against the contract of
    \<open>Dm_Db\<close>.
  \<^item> \<open>Connection\<close>: the codec, the service and the background threads put together: the loop of a
    framed connection over the bytes a client sent.  The loop is what the tokio crates document
    for a codec; each turn of it is the code's.  All the text is in one buffer: text that arrives
    in several reads is not covered, except that \<open>Protocol_Props\<close> shows what the codec does with a
    command cut after its key.
  \<^item> \<open>Service\<close>: main.rs, from the configuration file to the opened store.
  \<^item> \<open>Config\<close>: config.rs.  \<open>Thread_Pool\<close>: thread_pool.rs, a step relation of the channel, the
    workers and the owner.

  \<^bold>\<open>Conventions.\<close>  A fallible operation returns None for a panic, an Inl for an Err and an Inr for an
  Ok.  Bytes are words of 8 bits, u32 and u64 fields words of 32 and 64 bits where they may wrap;
  usize values are naturals with the bound written out where the code could exceed it.  Sums and
  products beyond the bound wrap, as in a release build; the sizes of the configuration, which a
  user can make overflow, take a flag that says whether the build checks for overflow.  The files
  are an association list from names to bytes.  A loop that is not structurally recursive is a
  \<open>function\<close> with a measure or a \<open>partial_function\<close> into option; no definition takes fuel, and the
  theorems state that the result is there.

  \<^bold>\<open>What is shown.\<close>  A read returns what the last write left, in every reachable state
  (\<open>db_reads_last_write\<close>); both compactions and a restart succeed and change no read,
  a restart also after a crash between a write to the log and the memtable, within the minor
  compaction or within a restart; the manifest, the files and the open tables agree; requests are answered as the history says
  (\<open>store_apply_refines\<close>), those decoded from any bytes without any assumption on their keys
  (\<open>decoded_requests_answered\<close>), although a response that lists a key which is not UTF-8 cannot be
  written (\<open>non_utf8_key_panics\<close>); the text of a whole conversation is
  answered by the text the history calls for, whatever the background threads do meanwhile
  (\<open>conversation_answered\<close>), and the program starts on every directory a server left
  (\<open>main_serves_directory\<close>); below, tables, blocks, the log and the
  skip list refine maps, lists and queues.  The pool runs every job once and its drop returns; the
  calls of the data manager never deadlock.

  \<^bold>\<open>What the theorems assume.\<close>
  \<^item> The crates behave as documented (\<open>server_libs_ok\<close>); where an operation is claimed to succeed,
    they also serve what they are given (\<open>crates_serve\<close>, \<open>server_serves\<close>: compression keeps its
    bound, the filter takes the keys, the manifest can be encoded).  Every such hypothesis is met by the instance in
    \<open>Lib_Instance\<close> and \<open>Server_Instance\<close>, on which the witnesses run.
  \<^item> \<open>writes_ok\<close>: keys are not empty, no key is another with a zero byte appended, and all writes
    together stay below 2 to the 32 bytes, the width of an offset in a block.  The first two hold
    for every key the parser makes; that they are needed is \<open>sstable_lookup_misses\<close>.
  \<^item> \<open>opt_ok\<close>: the restart interval is not zero and a block has at least eight bytes, as in the defaults.
  \<^item> \<open>limits\<close>, \<open>room\<close>: the counters of files and of readers do not wrap and no file exceeds the range of an
    offset.  Nothing is asked of the numbers of the log: \<open>log_ok\<close> bounds them by the number of
    writes, and so within the eight digits below which names sort as numbers
    (\<open>file_names_ordered\<close>).
  \<^item> \<open>loggable\<close>: the compressed record fits the 32-bit length of the log.

  \<^bold>\<open>What is not modelled.\<close>  The command line, the parser of socket addresses, the banner and the
  TCP server of main.rs: calls of clap, the standard library and tokio, which are arguments of
  \<open>main_start\<close> or left out.  Failures of the operating system on writing: a file that is opened
  can be written; reading and decoding failures are modelled.  Writes to one file are whole or
  absent.  A crash in the midst of \<open>size_swap\<close>, between removing the old tables and listing the new
  ones, loses data: \<open>crash_in_major_compaction_loses\<close> shows a case, and no state of
  \<open>reaches\<close> is in between.  Two major compactions at once, which the code does not survive.
  Logging, Display and Debug texts other than the responses, and unit tests.
\<close>

end
